(* ===== verification/FatP_Prelude.thy ===== *)
theory FatP_Prelude
  imports Main "HOL-Library.Word"
begin

text \<open>
  Shared vocabulary of the development: the machine integers of the headers, the ways in
  which a C++ operation can fail, collections of facts that the component proofs use, and
  the generic lemmas on lists and words that more than one component needs.
\<close>

unbundle bit_operations_syntax

section \<open>Collections of facts\<close>

named_theorems op_defs
  \<open>defining equations of the modelled operations that automation may unfold\<close>

named_theorems word_nat
  \<open>rules that move a statement on words to natural numbers\<close>

section \<open>Machine types\<close>

type_synonym u8 = "8 word"
type_synonym u16 = "16 word"
type_synonym u32 = "32 word"
type_synonym u64 = "64 word"

text \<open>
  \<open>size_t\<close> is 64 bits wide: the platforms of the CI matrix are 64-bit, and the CMake file
  rejects 32-bit MSVC.
\<close>

type_synonym size_t = "64 word"

section \<open>Failures\<close>

text \<open>
  A C++ operation that does not return normally either throws one of the standard
  exceptions the headers use, or has run into undefined behaviour (an index past the end of
  a \<open>std::vector\<close>, a read outside a buffer).  Undefined behaviour is a value of the
  model, so that a theorem can say that an operation never reaches it.
\<close>

datatype fault =
    Out_of_range
  | Length_error
  | Invalid_argument
  | Bad_alloc
  | Runtime_error string
  | Enforce_failed
  | Undefined_behaviour

type_synonym 'a result = "fault + 'a"

text \<open>Reading \<open>v[i]\<close> from a vector: outside the bounds the behaviour is undefined.\<close>

definition vec_get :: "'a list \<Rightarrow> nat \<Rightarrow> 'a result" where
  "vec_get xs i = (if i < length xs then Inr (xs ! i) else Inl Undefined_behaviour)"

lemma vec_get_Inr [simp]: "i < length xs \<Longrightarrow> vec_get xs i = Inr (xs ! i)"
  by (simp add: vec_get_def)

lemma vec_get_out_of_range [simp]: "length xs \<le> i \<Longrightarrow> vec_get xs i = Inl Undefined_behaviour"
  by (simp add: vec_get_def)

text \<open>\<open>std::vector::resize\<close>: truncate, or append value-initialised elements.\<close>

definition vec_resize :: "'b \<Rightarrow> nat \<Rightarrow> 'b list \<Rightarrow> 'b list" where
  "vec_resize d n xs = take n xs @ replicate (n - length xs) d"

lemma length_vec_resize [simp]: "length (vec_resize d n xs) = n"
  by (simp add: vec_resize_def)

lemma nth_vec_resize [simp]: "i < n \<Longrightarrow> vec_resize d n xs ! i = (if i < length xs then xs ! i else d)"
  by (simp add: vec_resize_def nth_append)

text \<open>A \<open>for\<close> loop that keeps the largest value seen.\<close>

lemma foldl_max_bound:
  fixes f :: "'a \<Rightarrow> 'b::linorder"
  shows "a \<le> foldl (\<lambda>m x. if f x > m then f x else m) a xs
    \<and> (\<forall>x\<in>set xs. f x \<le> foldl (\<lambda>m x. if f x > m then f x else m) a xs)"
proof (induction xs arbitrary: a)
  case (Cons x xs)
  show ?case using Cons [of "if f x > a then f x else a"] by (auto split: if_splits)
qed simp

lemma foldl_max_attained:
  fixes f :: "'a \<Rightarrow> 'b::linorder"
  shows "foldl (\<lambda>m x. if f x > m then f x else m) a xs \<in> insert a (f ` set xs)"
proof (induction xs arbitrary: a)
  case (Cons x xs)
  show ?case using Cons [of "if f x > a then f x else a"] by (auto split: if_splits)
qed simp

section \<open>Removing an element by moving the last one into its place\<close>

text \<open>
  Both the slot map and the sparse set erase from a dense array by overwriting the element
  with the last one and popping the back.
\<close>

definition swap_pop :: "'a list \<Rightarrow> nat \<Rightarrow> 'a list" where
  "swap_pop xs i = butlast (xs[i := last xs])"

lemma length_swap_pop [simp]: "length (swap_pop xs i) = length xs - 1"
  by (simp add: swap_pop_def)

lemma nth_swap_pop:
  "i < length xs \<Longrightarrow> j < length xs - 1 \<Longrightarrow>
   swap_pop xs i ! j = (if j = i then last xs else xs ! j)"
  by (auto simp: swap_pop_def nth_butlast nth_list_update)

lemma last_nth: "xs \<noteq> [] \<Longrightarrow> last xs = xs ! (length xs - 1)"
  by (simp add: last_conv_nth)

lemma set_swap_pop:
  assumes "i < length xs" and "distinct xs"
  shows "set (swap_pop xs i) = set xs - {xs ! i}"
proof -
  have ne: "xs \<noteq> []" using assms by auto
  obtain ys y where xs: "xs = ys @ [y]" using ne by (metis append_butlast_last_id)
  show ?thesis
  proof (cases "i = length ys")
    case True
    with assms xs show ?thesis by (simp add: swap_pop_def)
  next
    case False
    with assms xs have i: "i < length ys" by simp
    then have "swap_pop xs i = ys[i := y]" by (simp add: swap_pop_def xs list_update_append)
    moreover have "set (ys[i := y]) = insert y (set ys - {ys ! i})"
      using i assms xs by (simp add: set_update_distinct)
    moreover have "ys ! i \<in> set ys" using i by simp
    ultimately show ?thesis using assms i xs by (auto simp: nth_append)
  qed
qed

lemma distinct_swap_pop:
  assumes "i < length xs" and "distinct xs"
  shows "distinct (swap_pop xs i)"
proof -
  have ne: "xs \<noteq> []" using assms by auto
  obtain ys y where xs: "xs = ys @ [y]" using ne by (metis append_butlast_last_id)
  show ?thesis
  proof (cases "i = length ys")
    case True
    with assms xs show ?thesis by (simp add: swap_pop_def)
  next
    case False
    with assms xs have i: "i < length ys" by simp
    then have "swap_pop xs i = ys[i := y]" by (simp add: swap_pop_def xs list_update_append)
    then show ?thesis using assms xs by (auto intro: distinct_list_update)
  qed
qed

lemma swap_pop_last: "d = length xs - 1 \<Longrightarrow> swap_pop xs d = butlast xs"
  by (cases xs rule: rev_cases) (simp_all add: swap_pop_def)

lemma map_swap_pop: "map f (swap_pop xs i) = swap_pop (map f xs) i"
  by (cases xs rule: rev_cases) (simp_all add: swap_pop_def map_butlast map_update)

lemma zip_swap_pop:
  assumes "length xs = length ys" and "i < length xs"
  shows "zip (swap_pop xs i) (swap_pop ys i) = swap_pop (zip xs ys) i"
proof (rule nth_equalityI)
  fix j
  assume "j < length (zip (swap_pop xs i) (swap_pop ys i))"
  then have j: "j < length xs - 1" using assms(1) by simp
  have "last (zip xs ys) = (last xs, last ys)" using assms by (subst last_zip) auto
  then show "zip (swap_pop xs i) (swap_pop ys i) ! j = swap_pop (zip xs ys) i ! j"
    using assms j by (simp add: nth_swap_pop)
qed (use assms in simp)

text \<open>Association lists with distinct keys: only the set of entries counts.\<close>

lemma map_of_swap_pop:
  assumes "i < length ps" and "distinct (map fst ps)"
  shows "map_of (swap_pop ps i) = (map_of ps)(fst (ps ! i) := None)"
proof -
  have d: "distinct ps" using assms(2) by (simp add: distinct_map)
  have s: "set (swap_pop ps i) = set ps - {ps ! i}" by (rule set_swap_pop [OF assms(1) d])
  have d': "distinct (map fst (swap_pop ps i))"
    using distinct_swap_pop [of i "map fst ps"] assms by (simp add: map_swap_pop)
  have one: "p = ps ! i" if "p \<in> set ps" "fst p = fst (ps ! i)" for p
  proof -
    have "inj_on fst (set ps)" using assms(2) by (simp add: distinct_map)
    then show ?thesis by (rule inj_onD [OF _ that(2,1) nth_mem [OF assms(1)]])
  qed
  show ?thesis
  proof
    fix k
    show "map_of (swap_pop ps i) k = ((map_of ps)(fst (ps ! i) := None)) k"
    proof (cases "k = fst (ps ! i)")
      case True
      have "k \<notin> fst ` set (swap_pop ps i)"
      proof
        assume "k \<in> fst ` set (swap_pop ps i)"
        then obtain p where "p \<in> set ps" "p \<noteq> ps ! i" "k = fst p" unfolding s by blast
        with one [of p] True show False by simp
      qed
      then show ?thesis using True by (simp add: map_of_eq_None_iff)
    next
      case False
      then have "(k, v) \<in> set (swap_pop ps i) \<longleftrightarrow> (k, v) \<in> set ps" for v unfolding s by (metis Diff_iff fst_conv singletonD)
      then have "map_of (swap_pop ps i) k = Some v \<longleftrightarrow> map_of ps k = Some v" for v
        using d' assms(2) by (simp add: map_of_eq_Some_iff)
      then show ?thesis using False by (metis fun_upd_other not_None_eq)
    qed
  qed
qed

lemma map_of_append_new:
  "length ks = length vs \<Longrightarrow> k \<notin> set ks \<Longrightarrow> map_of (zip (ks @ [k]) (vs @ [v])) = (map_of (zip ks vs))(k \<mapsto> v)"
  by (induction ks vs rule: list_induct2) (auto simp: fun_upd_twist)

section \<open>Words and natural numbers\<close>

lemma unat_of_nat_below: "k < 2 ^ LENGTH('g) \<Longrightarrow> unat (of_nat k :: 'g::len word) = k"
  by (simp add: unat_of_nat)

lemma unat_of_nat_u32 [word_nat]: "n < 2 ^ 32 \<Longrightarrow> unat (of_nat n :: u32) = n"
  by (simp add: unat_of_nat)

lemma unat_of_nat_u64 [word_nat]: "n < 2 ^ 64 \<Longrightarrow> unat (of_nat n :: u64) = n"
  by (simp add: unat_of_nat)

lemma unat_add_one:
  fixes w :: "'a::len word"
  assumes "w + 1 \<noteq> 0"
  shows "unat (w + 1) = Suc (unat w)"
  using assms by (metis Suc_eq_plus1 add.commute unatSuc)

lemma unat_two_power:
  assumes "k < LENGTH('a)"
  shows "unat (2 ^ k :: 'a::len word) = 2 ^ k"
proof -
  have "(2 ^ k :: 'a word) = of_nat (2 ^ k)" by simp
  moreover have "(2::nat) ^ k < 2 ^ LENGTH('a)" using assms by simp
  ultimately show ?thesis by (simp only: unat_of_nat mod_less)
qed

lemma unat_bound: "unat (w :: 'a::len word) < 2 ^ LENGTH('a)"
  by (rule unsigned_less)

lemma unat_half [word_nat]: "unat (drop_bit (Suc 0) w) = unat (w :: 'a::len word) div 2"
proof -
  have "unat (drop_bit (Suc 0) w) = drop_bit (Suc 0) (unat w)" by (rule unat_drop_bit_eq)
  then show ?thesis by (simp add: drop_bit_Suc)
qed

lemma unat_ucast_up [word_nat]:
  assumes "LENGTH('a) \<le> LENGTH('b)"
  shows "unat (ucast (w :: 'a::len word) :: 'b::len word) = unat w"
proof -
  have "(2::nat) ^ LENGTH('a) \<le> 2 ^ LENGTH('b)" using assms by (rule power_increasing) simp
  with unat_bound [of w] have "unat w < 2 ^ LENGTH('b)" by (rule less_le_trans)
  then show ?thesis by (simp add: unsigned_ucast_eq take_bit_nat_eq_self)
qed

text \<open>Positions of a ring buffer less than a lap apart lie in different slots.\<close>

lemma mod_inject_window:
  fixes i j K :: nat
  assumes "i < j" and "j - i < K"
  shows "i mod K \<noteq> j mod K"
proof
  assume "i mod K = j mod K"
  then have "K dvd j - i" using assms(1) by (metis mod_eq_dvd_iff_nat less_imp_le)
  then show False using assms by (metis dvd_imp_le not_less zero_less_diff)
qed

end
