(* ===== verification/BitOps.thy ===== *)
theory BitOps
  imports FatP_Prelude "HOL-Library.While_Combinator"
begin

text \<open>
  The bit-manipulation helpers of \<open>include/fat_p/ConstexprBitOps.h\<close> and the FNV-1a hashes of
  \<open>include/fat_p/ConstexprHash.h\<close>.  Where the header has a compiler-intrinsic path and a
  portable loop, the portable loop is the one modelled.  The loops are kept as loops
  (\<^const>\<open>while\<close>); each is shown to compute what its comment promises: the number of set bits,
  the position of the highest and lowest set bit, the least power of two not below the
  argument, and the length of the decimal notation.
\<close>

section \<open>Operations\<close>

subsection \<open>Powers of two and logarithms\<close>

definition is_power_of_two :: "'a::len word \<Rightarrow> bool" where
  "is_power_of_two n \<longleftrightarrow> n > 0 \<and> n AND (n - 1) = 0"

text \<open>One line \<open>n |= n >> k\<close> of the smearing sequence.\<close>

definition smear :: "nat \<Rightarrow> 'a::len word \<Rightarrow> 'a word" where
  "smear k n = n OR drop_bit k n"

definition next_power_of_two :: "'a::len word \<Rightarrow> 'a word" where
  "next_power_of_two n =
    (if n = 0 then 1
     else if is_power_of_two n then n
     else let high_bit = push_bit (LENGTH('a) - 1) 1 in
       if n > high_bit then 0
       else
         let n1 = n - 1;
             n2 = smear 1 n1;
             n3 = smear 2 n2;
             n4 = smear 4 n3;
             n5 = (if LENGTH('a) > 8 then smear 8 n4 else n4);
             n6 = (if LENGTH('a) > 16 then smear 16 n5 else n5);
             n7 = (if LENGTH('a) > 32 then smear 32 n6 else n6)
         in n7 + 1)"

text \<open>\<open>while (n >>= 1) ++log;\<close> shifts before it tests.\<close>

definition log2_floor :: "'a::len word \<Rightarrow> int" where
  "log2_floor n =
    (if n = 0 then -1
     else snd (while (\<lambda>(m, log). m \<noteq> 0) (\<lambda>(m, log). (drop_bit 1 m, log + 1)) (drop_bit 1 n, 0)))"

definition log2_ceil :: "'a::len word \<Rightarrow> int" where
  "log2_ceil n =
    (if n = 0 then -1
     else if n = 1 then 0
     else let fl = log2_floor n in if is_power_of_two n then fl else fl + 1)"

subsection \<open>Decimal digits\<close>

text \<open>The two comparison ladders; the arguments are compared after integral promotion.\<close>

definition digits_ladder32 :: "nat \<Rightarrow> nat" where
  "digits_ladder32 a =
    (if a < 10 then 1 else if a < 100 then 2 else if a < 1000 then 3 else if a < 10000 then 4
     else if a < 100000 then 5 else if a < 1000000 then 6 else if a < 10000000 then 7
     else if a < 100000000 then 8 else if a < 1000000000 then 9 else 10)"

definition digits_ladder64 :: "nat \<Rightarrow> nat" where
  "digits_ladder64 a =
    (if a < 10 then 1 else if a < 100 then 2 else if a < 1000 then 3 else if a < 10000 then 4
     else if a < 100000 then 5 else if a < 1000000 then 6 else if a < 10000000 then 7
     else if a < 100000000 then 8 else if a < 1000000000 then 9 else if a < 10000000000 then 10
     else if a < 100000000000 then 11 else if a < 1000000000000 then 12
     else if a < 10000000000000 then 13 else if a < 100000000000000 then 14
     else if a < 1000000000000000 then 15 else if a < 10000000000000000 then 16
     else if a < 100000000000000000 then 17 else if a < 1000000000000000000 then 18
     else if a < 10000000000000000000 then 19 else 20)"

text \<open>
  \<open>count_digits\<close> for a signed (\<open>sgnd\<close>) or unsigned type of the width of the word \<open>n\<close>; the
  absolute value is computed as in the code, \<open>-(n + 1)\<close> first, so that the minimum of the
  type does not overflow.
\<close>

definition count_digits :: "bool \<Rightarrow> 'a::len word \<Rightarrow> nat" where
  "count_digits sgnd n =
    (if n = 0 then 1
     else
       let (sign_chars, abs_n) =
         (if sgnd then (if sint n < 0 then (1, (word_of_int (- (sint n + 1)) :: 'a word) + 1)
                        else (0, n))
          else (0, n));
         digits = (if LENGTH('a) \<le> 32 then digits_ladder32 (unat abs_n)
                   else digits_ladder64 (unat abs_n))
       in sign_chars + digits)"

subsection \<open>Bit counting and scanning: the portable loops\<close>

definition popcount_loop :: "'a::len word \<Rightarrow> nat" where
  "popcount_loop n =
    snd (while (\<lambda>(m, count). m \<noteq> 0) (\<lambda>(m, count). (m AND (m - 1), Suc count)) (n, 0))"

definition clz_loop :: "'a::len word \<Rightarrow> nat" where
  "clz_loop n =
    (if n = 0 then LENGTH('a)
     else snd (while (\<lambda>(mask, count). n AND mask = 0) (\<lambda>(mask, count). (drop_bit 1 mask, Suc count))
                 (push_bit (LENGTH('a) - 1) 1, 0)))"

definition ctz_loop :: "'a::len word \<Rightarrow> nat" where
  "ctz_loop n =
    (if n = 0 then LENGTH('a)
     else snd (while (\<lambda>(m, count). m AND 1 = 0) (\<lambda>(m, count). (drop_bit 1 m, Suc count)) (n, 0)))"

subsection \<open>Hashes\<close>

text \<open>A \<open>string_view\<close> is the list of its characters, each read as an \<open>unsigned char\<close>.\<close>

definition constexpr_hash :: "u8 list \<Rightarrow> u32" where
  "constexpr_hash s = foldl (\<lambda>hash c. (hash XOR ucast c) * 16777619) 2166136261 s"

definition constexpr_hash64 :: "u8 list \<Rightarrow> u64" where
  "constexpr_hash64 s = foldl (\<lambda>hash c. (hash XOR ucast c) * 1099511628211) 14695981039346656037 s"

definition hash_combine :: "u64 \<Rightarrow> u64 \<Rightarrow> u64" where
  "hash_combine seed v = seed XOR (v + 0x9e3779b97f4a7c15 + push_bit 6 seed + drop_bit 2 seed)"

definition hash_values :: "u8 list list \<Rightarrow> u64" where
  "hash_values args = foldl (\<lambda>seed s. hash_combine seed (constexpr_hash64 s)) 0 args"

section \<open>Bits of natural numbers\<close>

lemma bit_set_double: "{i. bit (2 * x :: nat) i} = Suc ` {i. bit x i}"
  by (auto simp: bit_double_iff image_iff gr0_conv_Suc)

lemma bit_set_Suc_double: "{i. bit (Suc (2 * x) :: nat) i} = insert 0 (Suc ` {i. bit x i})"
proof -
  have "bit (Suc (2 * x)) i \<longleftrightarrow> i = 0 \<or> (\<exists>j. i = Suc j \<and> bit x j)" for i
    by (cases i) (simp_all add: bit_Suc bit_0)
  then show ?thesis by auto
qed

lemma finite_bit_set_nat: "finite {i. bit (x :: nat) i}"
proof (induction x rule: less_induct)
  case (less x)
  show ?case
  proof (cases "x = 0")
    case False
    then have "finite {i. bit (x div 2) i}" using less by simp
    moreover have "x = 2 * (x div 2) \<or> x = Suc (2 * (x div 2))" by presburger
    ultimately show ?thesis
      by (metis bit_set_double bit_set_Suc_double finite.insertI finite_imageI)
  qed simp
qed

text \<open>Clearing the lowest set bit, and what is left of a power of two.\<close>

lemma and_minus_one_double:
  fixes y :: nat
  assumes "y > 0"
  shows "(2 * y) AND (2 * y - Suc 0) = 2 * (y AND (y - Suc 0))"
proof -
  have "(2 * y - Suc 0) div 2 = y - Suc 0" using assms by arith
  then show ?thesis by (subst and_rec) simp
qed

lemma and_minus_one_Suc_double: "Suc (2 * y) AND (2 * y) = 2 * (y :: nat)"
  by (subst and_rec) simp

lemma nat_double_cases:
  obtains (zero) "(x::nat) = 0" | (double) y where "x = 2 * y" "0 < y" | (odd) y where "x = Suc (2 * y)"
proof -
  have "x = 2 * (x div 2) \<or> x = Suc (2 * (x div 2))" by presburger
  then show ?thesis using that by (metis mult_0_right neq0_conv)
qed

lemma card_bits_clear_lowest:
  "0 < (x::nat) \<Longrightarrow> Suc (card {i. bit (x AND (x - 1)) i}) = card {i. bit x i}"
proof (induction x rule: less_induct)
  case (less x)
  show ?case
  proof (cases x rule: nat_double_cases)
    case zero
    with less.prems show ?thesis by simp
  next
    case (double y)
    then have "Suc (card {i. bit (y AND (y - 1)) i}) = card {i. bit y i}"
      using less.IH by simp
    with double show ?thesis
      by (simp add: and_minus_one_double bit_set_double card_image)
  next
    case (odd y)
    then have "x AND (x - 1) = 2 * y" by (simp add: and_minus_one_Suc_double)
    with odd show ?thesis
      by (simp add: bit_set_double bit_set_Suc_double card_image card_insert_if finite_bit_set_nat image_iff)
  qed
qed

lemma and_minus_one_eq_0_iff:
  "0 < (x::nat) \<Longrightarrow> x AND (x - 1) = 0 \<longleftrightarrow> (\<exists>k. x = 2 ^ k)"
proof (induction x rule: less_induct)
  case (less x)
  show ?case
  proof (cases x rule: nat_double_cases)
    case zero
    with less.prems show ?thesis by simp
  next
    case (double y)
    then have "y AND (y - 1) = 0 \<longleftrightarrow> (\<exists>k. y = 2 ^ k)" using less.IH by simp
    moreover have "(\<exists>k. 2 * y = 2 ^ k) \<longleftrightarrow> (\<exists>k. y = 2 ^ k)"
    proof
      assume "\<exists>k. 2 * y = 2 ^ k"
      then obtain k where k: "2 * y = 2 ^ k" ..
      then obtain k' where "k = Suc k'" by (cases k) auto
      with k show "\<exists>k. y = 2 ^ k" by auto
    qed (metis power_Suc)
    ultimately show ?thesis using double by (simp add: and_minus_one_double)
  next
    case (odd y)
    have "Suc (2 * y) = 2 ^ k \<longleftrightarrow> y = 0 \<and> k = 0" for k :: nat
      by (cases k) (simp_all, presburger)
    then show ?thesis using odd by (simp add: and_minus_one_Suc_double)
  qed
qed

lemma highest_bit_bounds:
  fixes x :: nat
  assumes "bit x h" and "\<And>i. h < i \<Longrightarrow> \<not> bit x i"
  shows "2 ^ h \<le> x" and "x < 2 ^ Suc h"
proof -
  show "2 ^ h \<le> x"
  proof (rule ccontr)
    assume "\<not> 2 ^ h \<le> x"
    then have "take_bit h x = x" by (simp add: take_bit_nat_eq_self)
    then show False using assms(1) by (metis bit_take_bit_iff less_irrefl)
  qed
  have "take_bit (Suc h) x = x"
    by (rule bit_eqI) (simp add: bit_take_bit_iff, metis assms(2) not_less_eq)
  then show "x < 2 ^ Suc h" by (simp add: take_bit_nat_eq_self_iff del: power_Suc)
qed


section \<open>The helpers on words\<close>

lemma unat_and_minus_one:
  fixes n :: "'a::len word"
  assumes "n \<noteq> 0"
  shows "unat (n AND (n - 1)) = (unat n AND (unat n - 1))"
  using assms by (simp add: unsigned_and_eq unat_minus_one)

lemma is_power_of_two_iff:
  fixes n :: "'a::len word"
  shows "is_power_of_two n \<longleftrightarrow> (\<exists>k. unat n = 2 ^ k)"
proof (cases "n = 0")
  case False
  then have pos: "0 < unat n" by (simp add: unat_gt_0)
  have "n AND (n - 1) = 0 \<longleftrightarrow> unat n AND (unat n - 1) = 0"
    using False by (metis unat_and_minus_one unat_eq_zero)
  also have "\<dots> \<longleftrightarrow> (\<exists>k. unat n = 2 ^ k)" by (rule and_minus_one_eq_0_iff [OF pos])
  finally show ?thesis using False by (simp add: is_power_of_two_def word_greater_zero_iff)
qed (simp add: is_power_of_two_def)

subsection \<open>Smearing\<close>

definition spread :: "nat \<Rightarrow> 'a::len word \<Rightarrow> 'a word \<Rightarrow> bool" where
  "spread k m r \<longleftrightarrow> (\<forall>i. bit r i \<longleftrightarrow> (\<exists>j<k. bit m (i + j)))"

lemma spread_start: "spread 1 m m"
  by (simp add: spread_def)

lemma spread_smear:
  assumes "spread k m r"
  shows "spread (2 * k) m (smear k r)"
  unfolding spread_def
proof (intro allI iffI)
  fix i
  assume "bit (smear k r) i"
  then have "bit r i \<or> bit r (k + i)" by (simp add: smear_def bit_or_iff bit_drop_bit_eq)
  then show "\<exists>j<2 * k. bit m (i + j)"
  proof
    assume "bit r i"
    then obtain j where "j < k" "bit m (i + j)" using assms by (auto simp: spread_def)
    then show ?thesis by (intro exI [of _ j]) simp
  next
    assume "bit r (k + i)"
    then obtain j where "j < k" "bit m (k + i + j)" using assms by (auto simp: spread_def)
    then show ?thesis by (intro exI [of _ "k + j"]) (simp add: ac_simps)
  qed
next
  fix i
  assume "\<exists>j<2 * k. bit m (i + j)"
  then obtain j where j: "j < 2 * k" "bit m (i + j)" by auto
  have "bit r i \<or> bit r (k + i)"
  proof (cases "j < k")
    case True
    with j assms show ?thesis by (auto simp: spread_def)
  next
    case False
    with j have "j - k < k" "bit m (k + i + (j - k))" by (simp_all add: ac_simps)
    with assms show ?thesis by (auto simp: spread_def)
  qed
  then show "bit (smear k r) i" by (simp add: smear_def bit_or_iff bit_drop_bit_eq)
qed

lemma spread_full_bounds:
  fixes m r :: "'a::len word"
  assumes sp: "spread k m r" and k: "LENGTH('a) \<le> k" and m: "m \<noteq> 0"
  shows "\<exists>h. 2 ^ h \<le> unat m \<and> unat m < 2 ^ Suc h \<and> unat r = 2 ^ Suc h - 1"
proof -
  let ?B = "{i. bit m i}"
  have fin: "finite ?B" by (rule finite_subset [of _ "{..<LENGTH('a)}"]) (auto dest: bit_imp_le_length)
  have ne: "?B \<noteq> {}"
  proof
    assume "?B = {}"
    then have "m = 0" by (intro bit_eqI) auto
    with m show False by simp
  qed
  define h where "h = Max ?B"
  have h: "bit m h" using Max_in [OF fin ne] by (simp add: h_def)
  have top: "\<not> bit m i" if "h < i" for i
    using Max_ge [OF fin, of i] that unfolding h_def by (metis mem_Collect_eq not_le)
  have bits: "bit r i \<longleftrightarrow> i \<le> h" for i
  proof
    assume "bit r i"
    then obtain j where "bit m (i + j)" using sp by (auto simp: spread_def)
    then show "i \<le> h" using top [of "i + j"] by (meson le_add1 not_le order.trans)
  next
    assume "i \<le> h"
    moreover have "h < k" using bit_imp_le_length [OF h] k by simp
    ultimately have "h - i < k \<and> bit m (i + (h - i))" using h by simp
    then show "bit r i" using sp unfolding spread_def by blast
  qed
  have hl: "h < LENGTH('a)" by (rule bit_imp_le_length [OF h])
  have "unat r = mask (Suc h)"
    by (rule bit_eqI) (simp add: bit_unsigned_iff bits bit_mask_iff less_Suc_eq_le)
  then have r: "unat r = 2 ^ Suc h - 1" by (simp add: mask_eq_exp_minus_1)
  have "bit (unat m) h" "\<And>i. h < i \<Longrightarrow> \<not> bit (unat m) i"
    using h hl top by (simp_all add: bit_unsigned_iff)
  then have "2 ^ h \<le> unat m" "unat m < 2 ^ Suc h"
    by (blast intro: highest_bit_bounds)+
  with r show ?thesis by blast
qed

definition smear_all :: "'a::len word \<Rightarrow> 'a word" where
  "smear_all m =
     (let n2 = smear 1 m; n3 = smear 2 n2; n4 = smear 4 n3;
          n5 = (if LENGTH('a) > 8 then smear 8 n4 else n4);
          n6 = (if LENGTH('a) > 16 then smear 16 n5 else n5)
      in if LENGTH('a) > 32 then smear 32 n6 else n6)"

lemma spread_smear_all:
  fixes m :: "'a::len word"
  assumes "LENGTH('a) \<le> 64"
  shows "\<exists>k. LENGTH('a) \<le> k \<and> spread k m (smear_all m)"
proof -
  define n4 where "n4 = smear 4 (smear 2 (smear 1 m))"
  have s8: "spread 8 m n4"
    using spread_smear [OF spread_smear [OF spread_smear [OF spread_start]]] by (simp add: n4_def)
  then have s16: "spread 16 m (smear 8 n4)" using spread_smear [of 8] by fastforce
  then have s32: "spread 32 m (smear 16 (smear 8 n4))" using spread_smear [of 16] by fastforce
  then have s64: "spread 64 m (smear 32 (smear 16 (smear 8 n4)))" using spread_smear [of 32] by fastforce
  consider "LENGTH('a) \<le> 8" | "8 < LENGTH('a)" "LENGTH('a) \<le> 16"
    | "16 < LENGTH('a)" "LENGTH('a) \<le> 32" | "32 < LENGTH('a)" by linarith
  then show ?thesis
  proof cases
    case 1 with s8 show ?thesis by (intro exI [of _ 8]) (simp add: smear_all_def n4_def)
  next
    case 2 with s16 show ?thesis by (intro exI [of _ 16]) (simp add: smear_all_def n4_def)
  next
    case 3 with s32 show ?thesis by (intro exI [of _ 32]) (simp add: smear_all_def n4_def)
  next
    case 4 with s64 assms show ?thesis by (intro exI [of _ 64]) (simp add: smear_all_def n4_def)
  qed
qed

lemma next_power_of_two_smear:
  "next_power_of_two (n :: 'a::len word) =
    (if n = 0 then 1 else if is_power_of_two n then n
     else if n > push_bit (LENGTH('a) - 1) 1 then 0 else smear_all (n - 1) + 1)"
  by (simp add: next_power_of_two_def smear_all_def Let_def)

lemma unat_high_bit: "unat (2 ^ (LENGTH('a) - Suc 0) :: 'a::len word) = 2 ^ (LENGTH('a) - Suc 0)"
  by (simp add: unat_two_power)

lemma least_power_of_two:
  assumes "(2::nat) ^ h < x" and "j < Suc h"
  shows "2 ^ j < x"
proof -
  have "(2::nat) ^ j \<le> 2 ^ h" using assms(2) by (intro power_increasing) auto
  with assms(1) show ?thesis by linarith
qed


lemma next_power_of_two_overflow:
  fixes n :: "'a::len word"
  assumes "2 ^ (LENGTH('a) - 1) < unat n"
  shows "next_power_of_two n = 0"
proof -
  have "\<not> is_power_of_two n"
  proof
    assume "is_power_of_two n"
    then obtain k where k: "unat n = 2 ^ k" by (auto simp: is_power_of_two_iff)
    with assms have "LENGTH('a) - 1 < k" by (simp add: power_strict_increasing_iff)
    moreover have "(2::nat) ^ k < 2 ^ LENGTH('a)" using k unat_bound [of n] by simp
    then have "k < LENGTH('a)" by simp
    ultimately show False by simp
  qed
  moreover have "n \<noteq> 0" using assms by auto
  moreover have "n > push_bit (LENGTH('a) - 1) 1"
    using assms by (simp add: word_less_nat_alt unat_high_bit)
  ultimately show ?thesis by (simp add: next_power_of_two_smear)
qed

lemma next_power_of_two_smeared:
  fixes n :: "'a::len word"
  assumes len: "LENGTH('a) \<le> 64" and n0: "n \<noteq> 0" and np: "\<not> is_power_of_two n"
    and fits: "unat n \<le> 2 ^ (LENGTH('a) - 1)"
  shows "\<exists>h. Suc h < LENGTH('a) \<and> 2 ^ h < unat n \<and> unat n \<le> 2 ^ Suc h
     \<and> unat (next_power_of_two n) = 2 ^ Suc h"
proof -
  let ?m = "n - 1"
  have un: "unat ?m = unat n - 1" using n0 by (simp add: unat_minus_one)
  have pos: "0 < unat n" using n0 by (simp add: unat_gt_0)
  have n1: "unat n \<noteq> 1" using np is_power_of_two_iff [of n] by (metis power_0)
  have m0: "?m \<noteq> 0" using un n1 pos by (metis One_nat_def Suc_pred unat_0)
  obtain k where "LENGTH('a) \<le> k" "spread k ?m (smear_all ?m)"
    using spread_smear_all [OF len] by blast
  from spread_full_bounds [OF this(2,1) m0] obtain h
    where h: "2 ^ h \<le> unat ?m" "unat ?m < 2 ^ Suc h" "unat (smear_all ?m) = 2 ^ Suc h - 1" by blast
  have lo: "2 ^ h < unat n" using h(1) un pos by simp
  have hi: "unat n \<le> 2 ^ Suc h" using h(2) un pos by simp
  have "(2::nat) ^ h < 2 ^ (LENGTH('a) - 1)" using lo fits by (rule less_le_trans)
  then have hl: "Suc h < LENGTH('a)" by simp
  have "\<not> n > push_bit (LENGTH('a) - 1) 1"
    using fits by (simp add: word_less_nat_alt unat_high_bit)
  then have np2: "next_power_of_two n = smear_all ?m + 1"
    using n0 np by (simp add: next_power_of_two_smear)
  have "(2::nat) ^ Suc h < 2 ^ LENGTH('a)" using hl by (simp only: power_strict_increasing_iff)
  then have "unat (smear_all ?m) + 1 < 2 ^ LENGTH('a)" using h(3) by simp
  then have "unat (next_power_of_two n) = 2 ^ Suc h"
    using np2 h(3) by (simp add: unat_word_ariths)
  with hl lo hi show ?thesis by blast
qed

section \<open>Correctness\<close>

lemma least_power_of_two_self: "(\<exists>k. x = 2 ^ k) \<Longrightarrow> \<exists>k. x = (2::nat) ^ k \<and> (\<forall>j<k. 2 ^ j < x)"
  by auto

text \<open>C1: next_power_of_two returns the least power of two that is not below its argument, and
  0 exactly when that power does not fit into the type.\<close>
theorem next_power_of_two_least:
  fixes n :: "'a::len word"
  assumes "LENGTH('a) \<le> 64"
  shows "if unat n \<le> 2 ^ (LENGTH('a) - 1)
         then \<exists>k<LENGTH('a). unat (next_power_of_two n) = 2 ^ k \<and> unat n \<le> 2 ^ k \<and> (\<forall>j<k. 2 ^ j < unat n)
         else next_power_of_two n = 0"
proof (cases "unat n \<le> 2 ^ (LENGTH('a) - 1)")
  case fits: True
  consider "n = 0" | "n \<noteq> 0" "is_power_of_two n" | "n \<noteq> 0" "\<not> is_power_of_two n" by blast
  then have "\<exists>k<LENGTH('a). unat (next_power_of_two n) = 2 ^ k \<and> unat n \<le> 2 ^ k \<and> (\<forall>j<k. 2 ^ j < unat n)"
  proof cases
    case 1
    then show ?thesis by (intro exI [of _ 0]) (simp add: next_power_of_two_smear)
  next
    case 2
    then obtain k where k: "unat n = 2 ^ k" by (auto simp: is_power_of_two_iff)
    moreover have "k < LENGTH('a)" using k unat_bound [of n] by simp
    ultimately show ?thesis using 2 by (intro exI [of _ k]) (simp add: next_power_of_two_smear)
  next
    case 3
    then obtain h where "Suc h < LENGTH('a)" "2 ^ h < unat n" "unat n \<le> 2 ^ Suc h"
      "unat (next_power_of_two n) = 2 ^ Suc h"
      using next_power_of_two_smeared [OF assms _ _ fits] by blast
    then show ?thesis using least_power_of_two by (intro exI [of _ "Suc h"]) blast
  qed
  with fits show ?thesis by simp
next
  case False
  then show ?thesis by (simp add: next_power_of_two_overflow)
qed

theorem next_power_of_two_least_witness:
  "LENGTH(32) \<le> (64::nat) \<and> unat (next_power_of_two (5 :: u32)) = 8"
proof -
  have len: "LENGTH(32) \<le> (64::nat)" by simp
  have "\<exists>k<32. unat (next_power_of_two (5 :: u32)) = 2 ^ k \<and> 5 \<le> (2::nat) ^ k \<and> (\<forall>j<k. (2::nat) ^ j < 5)"
    using next_power_of_two_least [of "5 :: u32", OF len] by simp
  then obtain k where k: "unat (next_power_of_two (5 :: u32)) = 2 ^ k" "5 \<le> (2::nat) ^ k"
    "\<forall>j<k. (2::nat) ^ j < 5" by blast
  have "\<not> 3 < k" using k(3) by force
  moreover have "\<not> k \<le> 2"
  proof
    assume "k \<le> 2"
    then have "(2::nat) ^ k \<le> 2 ^ 2" by (intro power_increasing) auto
    with k(2) show False by simp
  qed
  ultimately have "k = 3" by linarith
  with k(1) show ?thesis by simp
qed

lemma div_two_commute: "(x::nat) div 2 ^ b div 2 = x div 2 div 2 ^ b"
  by (simp flip: div_mult2_eq add: mult.commute)

lemma log2_floor_bounds:
  fixes n :: "'a::len word"
  assumes "n \<noteq> 0"
  shows "\<exists>k. log2_floor n = int k \<and> 2 ^ k \<le> unat n \<and> unat n < 2 ^ Suc k"
proof -
  let ?P = "\<lambda>(m :: 'a word, log). 0 \<le> log \<and> unat m = unat n div 2 ^ Suc (nat log) \<and> unat n div 2 ^ nat log \<noteq> 0"
  let ?Q = "\<lambda>(m :: 'a word, log). 0 \<le> log \<and> unat n div 2 ^ Suc (nat log) = 0 \<and> unat n div 2 ^ nat log \<noteq> 0"
  have "?Q (while (\<lambda>(m, log). m \<noteq> 0) (\<lambda>(m, log). (drop_bit 1 m, log + 1)) (drop_bit 1 n, 0))"
  proof (rule while_rule [where P = ?P and r = "measure (\<lambda>(m, log). unat m)"])
    show "?P (drop_bit 1 n, 0)" using assms by (simp add: unat_half unat_gt_0)
    show "?P ((\<lambda>(m, log). (drop_bit 1 m, log + 1)) s)"
      if "?P s" and "case s of (m, log) \<Rightarrow> m \<noteq> 0" for s
      using that by (cases s)
        (auto simp: unat_half nat_add_distrib div_mult2_eq div_two_commute simp flip: unat_gt_0)
    show "?Q s" if "?P s" and "\<not> (case s of (m, log) \<Rightarrow> m \<noteq> 0)" for s
      using that by (cases s) auto
    show "((\<lambda>(m, log). (drop_bit 1 m, log + 1)) s, s) \<in> measure (\<lambda>(m, log). unat m)"
      if "?P s" and "case s of (m, log) \<Rightarrow> m \<noteq> 0" for s
      using that by (cases s) (auto simp: unat_half simp flip: unat_gt_0)
  qed simp
  then obtain k where "log2_floor n = int k" "unat n div 2 ^ Suc k = 0" "unat n div 2 ^ k \<noteq> 0"
    using assms by (auto simp: log2_floor_def split: prod.splits) (metis nat_0_le)
  then show ?thesis
    by (intro exI [of _ k]) (simp add: div_eq_0_iff not_less)
qed


lemma log2_ceil_least:
  fixes n :: "'a::len word"
  assumes "n \<noteq> 0"
  shows "\<exists>k. log2_ceil n = int k \<and> unat n \<le> 2 ^ k \<and> (\<forall>j<k. 2 ^ j < unat n)"
proof (cases "n = 1")
  case True
  then show ?thesis by (intro exI [of _ 0]) (simp add: log2_ceil_def)
next
  case n1: False
  obtain k where k: "log2_floor n = int k" "2 ^ k \<le> unat n" "unat n < 2 ^ Suc k"
    using log2_floor_bounds [OF assms] by blast
  show ?thesis
  proof (cases "is_power_of_two n")
    case True
    then obtain l where l: "unat n = 2 ^ l" by (auto simp: is_power_of_two_iff)
    with k have "k \<le> l" "l < Suc k" by (simp_all only: power_increasing_iff power_strict_increasing_iff)
    with l have "unat n = 2 ^ k" by simp
    with True n1 assms k(1) show ?thesis
      by (intro exI [of _ k]) (simp add: log2_ceil_def Let_def)
  next
    case False
    then have "unat n \<noteq> 2 ^ k" by (auto simp: is_power_of_two_iff)
    with k(2) have "2 ^ k < unat n" by simp
    then have "\<forall>j<Suc k. 2 ^ j < unat n" using least_power_of_two by blast
    with False n1 assms k show ?thesis
      by (intro exI [of _ "Suc k"]) (simp add: log2_ceil_def Let_def)
  qed
qed

lemma card_bits_unat: "card {i. bit (unat n) i} = card {i. bit (n :: 'a::len word) i}"
proof -
  have "bit (unat n) i \<longleftrightarrow> bit n i" for i
    by (auto simp: bit_unsigned_iff dest: bit_imp_le_length)
  then show ?thesis by simp
qed

lemma card_bits_clear_lowest_word:
  fixes n :: "'a::len word"
  assumes "n \<noteq> 0"
  shows "Suc (card {i. bit (n AND (n - 1)) i}) = card {i. bit n i}"
proof -
  have "Suc (card {i. bit (unat n AND (unat n - 1)) i}) = card {i. bit (unat n) i}"
    by (rule card_bits_clear_lowest) (simp add: unat_gt_0 assms)
  then show ?thesis by (simp only: card_bits_unat flip: unat_and_minus_one [OF assms])
qed

lemma popcount_loop_card: "popcount_loop n = card {i. bit (n :: 'a::len word) i}"
proof -
  let ?P = "\<lambda>(m :: 'a word, c). c + card {i. bit m i} = card {i. bit n i}"
  let ?body = "\<lambda>(m :: 'a word, c). (m AND (m - 1), Suc c)"
  have "snd (while (\<lambda>(m, c). m \<noteq> 0) ?body (n, 0)) = card {i. bit n i}"
  proof (rule while_rule [where P = ?P and r = "measure (\<lambda>(m, c). card {i. bit m i})"])
    show "?P (?body s)" if "?P s" and "case s of (m, c) \<Rightarrow> m \<noteq> 0" for s
      using that by (auto split: prod.splits dest: card_bits_clear_lowest_word)
    show "snd s = card {i. bit n i}" if "?P s" and "\<not> (case s of (m, c) \<Rightarrow> m \<noteq> 0)" for s
      using that by (cases s) (auto simp: bot_fun_def)
    show "(?body s, s) \<in> measure (\<lambda>(m, c). card {i. bit m i})"
      if "?P s" and "case s of (m, c) \<Rightarrow> m \<noteq> 0" for s
      using that by (auto split: prod.splits dest: card_bits_clear_lowest_word)
  qed simp_all
  then show ?thesis by (simp add: popcount_loop_def)
qed

lemma exists_bit: "n \<noteq> 0 \<Longrightarrow> \<exists>i<LENGTH('a). bit (n :: 'a::len word) i"
  by (metis bit_eqI bit_imp_le_length bit_0_eq bot_apply bot_bool_def)

lemma and_two_power_eq_0_iff:
  "k < LENGTH('a) \<Longrightarrow> n AND (2 ^ k) = 0 \<longleftrightarrow> \<not> bit (n :: 'a::len word) k"
  by (simp add: bit_iff_and_push_bit_not_eq_0)

lemma half_two_power:
  assumes "Suc j < LENGTH('a)"
  shows "drop_bit 1 (2 ^ Suc j :: 'a::len word) = 2 ^ j"
proof -
  have "unat (drop_bit (Suc 0) (2 ^ Suc j :: 'a word)) = unat (2 ^ j :: 'a word)"
    using assms by (simp only: unat_half unat_two_power Suc_lessD) simp
  then show ?thesis by (simp add: word_unat_eq_iff)
qed

lemma clz_loop_bounds:
  fixes n :: "'a::len word"
  assumes "n \<noteq> 0"
  shows "clz_loop n < LENGTH('a) \<and> bit n (LENGTH('a) - 1 - clz_loop n)
    \<and> (\<forall>i>LENGTH('a) - 1 - clz_loop n. \<not> bit n i)"
proof -
  obtain t where t: "t < LENGTH('a)" "bit n t" using exists_bit [OF assms] by blast
  let ?P = "\<lambda>(msk :: 'a word, c). c < LENGTH('a) \<and> msk = 2 ^ (LENGTH('a) - 1 - c)
     \<and> (\<forall>i>LENGTH('a) - 1 - c. \<not> bit n i)"
  let ?body = "\<lambda>(msk :: 'a word, c). (drop_bit 1 msk, Suc c)"
  let ?r = "while (\<lambda>(msk, c). n AND msk = 0) ?body (2 ^ (LENGTH('a) - 1), 0)"
  have step: "?P (?body s) \<and> snd s < LENGTH('a) - 1" if P: "?P s" and g: "case s of (msk, c) \<Rightarrow> n AND msk = 0" for s
  proof -
    obtain msk c where s: "s = (msk, c)" by (cases s)
    let ?k = "LENGTH('a) - 1 - c"
    have c: "c < LENGTH('a)" and m: "msk = 2 ^ ?k" and hi: "\<forall>i>?k. \<not> bit n i" using P s by auto
    have "?k < LENGTH('a)" using c by simp
    then have nk: "\<not> bit n ?k" using g s m and_two_power_eq_0_iff [of ?k n] by simp
    have "t < ?k" using hi nk t(2) by (metis linorder_neqE_nat)
    then have sc: "Suc c < LENGTH('a)" "?k = Suc (LENGTH('a) - 1 - Suc c)" by linarith+
    have "drop_bit 1 msk = 2 ^ (LENGTH('a) - 1 - Suc c)"
      using half_two_power [of "LENGTH('a) - 1 - Suc c", where ?'a = 'a] m sc(2) by simp
    moreover have "\<forall>i>LENGTH('a) - 1 - Suc c. \<not> bit n i" using hi nk sc(2)
      by (metis Suc_lessI)
    ultimately show ?thesis using s sc by auto
  qed
  have "?P ?r \<and> \<not> (case ?r of (msk, c) \<Rightarrow> n AND msk = 0)"
  proof (rule while_rule [where P = ?P and r = "measure (\<lambda>(msk, c). LENGTH('a) - c)"])
    show "?P (2 ^ (LENGTH('a) - 1), 0)" by (auto dest: bit_imp_le_length)
    show "(?body s, s) \<in> measure (\<lambda>(msk, c). LENGTH('a) - c)"
      if "?P s" and "case s of (msk, c) \<Rightarrow> n AND msk = 0" for s
      using step [OF that] by (auto split: prod.splits)
    show "?P (?body s)" if "?P s" and "case s of (msk, c) \<Rightarrow> n AND msk = 0" for s
      using step [OF that] by (rule conjunct1)
  qed (rule conjI, assumption+, rule wf_measure)
  then show ?thesis using assms
    by (auto simp: clz_loop_def and_two_power_eq_0_iff split: prod.splits)
qed


lemma ctz_loop_lowest:
  fixes n :: "'a::len word"
  assumes "n \<noteq> 0"
  shows "bit n (ctz_loop n) \<and> (\<forall>i<ctz_loop n. \<not> bit n i)"
proof -
  obtain t where t: "t < LENGTH('a)" "bit n t" using exists_bit [OF assms] by blast
  let ?P = "\<lambda>(m :: 'a word, c). m = drop_bit c n \<and> (\<forall>i<c. \<not> bit n i)"
  let ?body = "\<lambda>(m :: 'a word, c). (drop_bit 1 m, Suc c)"
  let ?r = "while (\<lambda>(m, c). m AND 1 = 0) ?body (n, 0)"
  have even: "m AND 1 = 0 \<longleftrightarrow> \<not> bit m 0" for m :: "'a word"
    by (simp add: and_one_eq bit_0 even_iff_mod_2_eq_zero)
  have step: "?P (?body s) \<and> snd s < t" if P: "?P s" and g: "case s of (m, c) \<Rightarrow> m AND 1 = 0" for s
  proof -
    obtain m c where s: "s = (m, c)" by (cases s)
    have nc: "\<not> bit n c" using P g s even by (auto simp: bit_drop_bit_eq)
    have "\<forall>i<Suc c. \<not> bit n i" using P s nc by (auto simp: less_Suc_eq)
    moreover from this have "c < t" using t(2) by (metis not_less_eq)
    ultimately show ?thesis using P s by (auto simp: drop_bit_drop_bit)
  qed
  have "?P ?r \<and> \<not> (case ?r of (m, c) \<Rightarrow> m AND 1 = 0)"
  proof (rule while_rule [where P = ?P and r = "measure (\<lambda>(m, c). LENGTH('a) - c)"])
    show "(?body s, s) \<in> measure (\<lambda>(m, c). LENGTH('a) - c)"
      if "?P s" and "case s of (m, c) \<Rightarrow> m AND 1 = 0" for s
      using step [OF that] t(1) by (auto split: prod.splits)
    show "?P (?body s)" if "?P s" and "case s of (m, c) \<Rightarrow> m AND 1 = 0" for s
      using step [OF that] by (rule conjunct1)
  qed (simp, rule conjI, assumption+, rule wf_measure)
  then show ?thesis using assms even by (auto simp: ctz_loop_def bit_drop_bit_eq split: prod.splits)
qed

text \<open>The portable loops count and locate set bits: popcount is the number of set bits, ctz
  the position of the lowest and clz the distance of the highest from the top, log2_floor the
  position of the highest, and log2_ceil the exponent of the least power of two not below the
  argument.\<close>
theorem bit_scan_loops_correct:
  fixes n :: "'a::len word"
  assumes "n \<noteq> 0"
  shows "popcount_loop n = card {i. bit n i}
    \<and> bit n (ctz_loop n) \<and> (\<forall>i<ctz_loop n. \<not> bit n i)
    \<and> clz_loop n < LENGTH('a) \<and> bit n (LENGTH('a) - 1 - clz_loop n)
    \<and> (\<forall>i>LENGTH('a) - 1 - clz_loop n. \<not> bit n i)
    \<and> log2_floor n = int (LENGTH('a) - 1 - clz_loop n)
    \<and> (\<exists>k. log2_ceil n = int k \<and> unat n \<le> 2 ^ k \<and> (\<forall>j<k. 2 ^ j < unat n))"
proof -
  let ?h = "LENGTH('a) - 1 - clz_loop n"
  have hi: "clz_loop n < LENGTH('a)" "bit n ?h" "\<forall>i>?h. \<not> bit n i"
    using clz_loop_bounds [OF assms] by blast+
  have b: "bit (unat n) ?h" "\<And>i. ?h < i \<Longrightarrow> \<not> bit (unat n) i"
    using hi by (auto simp: bit_unsigned_iff)
  obtain k where k: "log2_floor n = int k" "2 ^ k \<le> unat n" "unat n < 2 ^ Suc k"
    using log2_floor_bounds [OF assms] by blast
  have "2 ^ ?h \<le> unat n" "unat n < 2 ^ Suc ?h" using b by (blast intro: highest_bit_bounds)+
  with k have "(2::nat) ^ ?h < 2 ^ Suc k" "(2::nat) ^ k < 2 ^ Suc ?h" by (meson le_less_trans)+
  then have "?h < Suc k" "k < Suc ?h" by (simp_all only: power_strict_increasing_iff)
  then have "k = ?h" by linarith
  then show ?thesis
    using hi k ctz_loop_lowest [OF assms] log2_ceil_least [OF assms] by (simp add: popcount_loop_card)
qed

theorem bit_scan_loops_correct_witness:
  "popcount_loop (44 :: u8) = card {i. bit (44 :: u8) i} \<and> bit (44 :: u8) (ctz_loop (44 :: u8))
   \<and> bit (44 :: u8) (7 - clz_loop (44 :: u8))"
proof -
  have nz: "(44 :: u8) \<noteq> 0" by simp
  have len: "LENGTH(8) - 1 = 7" by simp
  show ?thesis using bit_scan_loops_correct [OF nz] unfolding len by blast
qed


section \<open>Decimal digits\<close>

fun dec_digits :: "nat \<Rightarrow> nat list" where
  "dec_digits a = (if a < 10 then [a] else dec_digits (a div 10) @ [a mod 10])"

declare dec_digits.simps [simp del]

lemma length_dec_digits_bounds:
  "0 < a \<Longrightarrow> 10 ^ (length (dec_digits a) - 1) \<le> a \<and> a < 10 ^ length (dec_digits a) \<and> dec_digits a \<noteq> []"
proof (induction a rule: dec_digits.induct)
  case (1 a)
  show ?case
  proof (cases "a < 10")
    case True
    with 1 show ?thesis by (simp add: dec_digits.simps [of a])
  next
    case False
    let ?l = "length (dec_digits (a div 10))"
    have IH: "10 ^ (?l - 1) \<le> a div 10" "a div 10 < 10 ^ ?l" "dec_digits (a div 10) \<noteq> []"
      using "1.IH" False by simp_all
    then obtain l where l: "?l = Suc l" by (cases "dec_digits (a div 10)") auto
    have "10 * 10 ^ l \<le> a" using IH(1) l by simp
    moreover have "a < 10 * 10 ^ ?l" using IH(2) by linarith
    moreover note l
    ultimately show ?thesis using False by (simp add: dec_digits.simps [of a])
  qed
qed

lemma digits_ladder32_length:
  assumes "0 < a" and "a < 10 ^ 10"
  shows "digits_ladder32 a = length (dec_digits a)"
proof -
  obtain d where d: "length (dec_digits a) = Suc d" "10 ^ d \<le> a" "a < 10 ^ Suc d"
    using length_dec_digits_bounds [OF assms(1)] by (cases "dec_digits a") auto
  have "(10::nat) ^ d < 10 ^ 10" using d(2) assms(2) by (rule le_less_trans)
  then have "d < 10" by (simp only: power_strict_increasing_iff)
  then have "d \<in> {0, 1, 2, 3, 4, 5, 6, 7, 8, 9}" by (simp only: insert_iff empty_iff) arith
  then have "digits_ladder32 a = Suc d"
    using d(2,3) unfolding digits_ladder32_def by (elim insertE emptyE) (simp_all only: power_Suc power_0, simp_all)
  with d(1) show ?thesis by simp
qed

lemma digits_ladder64_length:
  assumes "0 < a" and "a < 10 ^ 20"
  shows "digits_ladder64 a = length (dec_digits a)"
proof -
  obtain d where d: "length (dec_digits a) = Suc d" "10 ^ d \<le> a" "a < 10 ^ Suc d"
    using length_dec_digits_bounds [OF assms(1)] by (cases "dec_digits a") auto
  have "(10::nat) ^ d < 10 ^ 20" using d(2) assms(2) by (rule le_less_trans)
  then have "d < 20" by (simp only: power_strict_increasing_iff)
  then have "d \<in> {0, 1, 2, 3, 4, 5, 6, 7, 8, 9, 10, 11, 12, 13, 14, 15, 16, 17, 18, 19}" by (simp only: insert_iff empty_iff) arith
  then have "digits_ladder64 a = Suc d"
    using d(2,3) unfolding digits_ladder64_def by (elim insertE emptyE) (simp_all only: power_Suc power_0, simp_all)
  with d(1) show ?thesis by simp
qed

lemma uint_of_int_in_range:
  assumes "0 \<le> x" and "x \<le> 2 ^ (LENGTH('a) - 1)"
  shows "unat (word_of_int x :: 'a::len word) = nat x"
proof -
  have "(2::int) ^ (LENGTH('a) - 1) < 2 ^ LENGTH('a)" by (simp add: power_strict_increasing)
  with assms have "x mod 2 ^ LENGTH('a) = x" by (intro mod_pos_pos_trivial) linarith+
  then show ?thesis by (simp only: unat_eq_nat_uint uint_word_of_int)
qed

lemma abs_of_negative:
  fixes n :: "'a::len word"
  assumes "sint n < 0"
  shows "unat ((word_of_int (- (sint n + 1)) :: 'a word) + 1) = nat (- sint n)"
proof -
  have "(word_of_int (- (sint n + 1)) :: 'a word) + 1 = word_of_int (- (sint n + 1) + 1)"
    by (simp only: wi_hom_add word_1_wi)
  also have "- (sint n + 1) + 1 = - sint n" by simp
  finally show ?thesis
    using uint_of_int_in_range [of "- sint n", where ?'a = 'a] assms sint_ge [of n] by simp
qed

lemma unsigned_of_nonneg:
  fixes n :: "'a::len word"
  assumes "0 \<le> sint n"
  shows "unat n = nat (sint n)"
proof -
  have "unat (word_of_int (sint n) :: 'a word) = nat (sint n)"
    using uint_of_int_in_range [of "sint n", where ?'a = 'a] assms sint_lt [of n] by simp
  moreover have "word_of_int (sint n) = n" by simp
  ultimately show ?thesis by argo
qed

section \<open>FNV-1a\<close>

lemma fnv_prime32_inverse: "x * 16777619 * 899433627 = (x :: u32)"
proof -
  have "(16777619 :: u32) * 899433627 = 1" by simp
  then show ?thesis by (simp only: mult.assoc) simp
qed

lemma fnv_prime64_inverse: "x * 1099511628211 * 14886173955864302971 = (x :: u64)"
proof -
  have "(1099511628211 :: u64) * 14886173955864302971 = 1" by simp
  then show ?thesis by (simp only: mult.assoc) simp
qed

lemma xor_right_cancel: "a XOR c = b XOR c \<Longrightarrow> a = (b :: 'a::len word)"
  by (metis bit.xor_cancel_left xor.commute xor_self_eq xor.right_neutral xor.assoc)

lemma xor_left_cancel: "c XOR a = c XOR b \<Longrightarrow> a = (b :: 'a::len word)"
  using xor_right_cancel by (metis xor.commute)


text \<open>Count_digits, which reads the length of the decimal notation off a comparison ladder,
  agrees with the notation itself, the sign of a negative value included, for every integer
  type of at most 64 bits and for its minimum value too.\<close>
theorem count_digits_decimal_length:
  fixes n :: "'a::len word"
  assumes "LENGTH('a) \<le> 64"
  shows "count_digits sgnd n =
    (if sgnd \<and> sint n < 0 then 1 + length (dec_digits (nat (- sint n)))
     else length (dec_digits (unat n)))"
proof (cases "n = 0")
  case True
  then show ?thesis by (simp add: count_digits_def dec_digits.simps [of 0])
next
  case n0: False
  have ladder: "(if LENGTH('a) \<le> 32 then digits_ladder32 (unat w) else digits_ladder64 (unat w))
      = length (dec_digits (unat w))" if "w \<noteq> 0" for w :: "'a word"
  proof -
    have pos: "0 < unat w" using that by (simp add: unat_gt_0)
    have lt: "unat w < 2 ^ LENGTH('a)" by (rule unat_bound)
    show ?thesis
    proof (cases "LENGTH('a) \<le> 32")
      case True
      then have "(2::nat) ^ LENGTH('a) \<le> 2 ^ 32" by (rule power_increasing) simp
      with lt have "unat w < 10 ^ 10" by (rule less_le_trans [THEN less_trans]) simp
      with pos True show ?thesis by (simp add: digits_ladder32_length)
    next
      case False
      have "(2::nat) ^ LENGTH('a) \<le> 2 ^ 64" using assms by (rule power_increasing) simp
      with lt have "unat w < 10 ^ 20" by (rule less_le_trans [THEN less_trans]) simp
      with pos False show ?thesis by (simp add: digits_ladder64_length)
    qed
  qed
  show ?thesis
  proof (cases "sgnd \<and> sint n < 0")
    case True
    let ?a = "(word_of_int (- (sint n + 1)) :: 'a word) + 1"
    have a: "unat ?a = nat (- sint n)" using True by (intro abs_of_negative) simp
    with True have "?a \<noteq> 0" by (metis neg_0_less_iff_less unat_0 zero_less_nat_eq less_irrefl)
    from ladder [OF this, unfolded a] a True n0 show ?thesis
      by (simp add: count_digits_def split: if_splits)
  next
    case False
    with n0 ladder [OF n0] show ?thesis by (auto simp: count_digits_def)
  qed
qed

theorem count_digits_decimal_length_witness:
  "LENGTH(8) \<le> (64::nat) \<and> count_digits True (128 :: u8) = 4"
proof -
  have len: "LENGTH(8) \<le> (64::nat)" by simp
  show ?thesis
    using count_digits_decimal_length [of True "128 :: u8", OF len]
    by (simp add: dec_digits.simps)
qed

text \<open>After the differing character the two states differ, and each later step is injective in
  the state.\<close>

lemma fnv_step32_inj: "(h XOR c) * 16777619 = (h' XOR c) * (16777619 :: u32) \<Longrightarrow> h = h'"
  by (metis fnv_prime32_inverse xor_right_cancel)

lemma fnv_step64_inj: "(h XOR c) * 1099511628211 = (h' XOR c) * (1099511628211 :: u64) \<Longrightarrow> h = h'"
  by (metis fnv_prime64_inverse xor_right_cancel)

lemma fnv_fold32_inj:
  "foldl (\<lambda>hash c. (hash XOR ucast c) * 16777619) (h :: u32) q
   = foldl (\<lambda>hash c. (hash XOR ucast c) * 16777619) h' (q :: u8 list) \<Longrightarrow> h = h'"
  by (induction q arbitrary: h h') (auto dest: fnv_step32_inj)

lemma fnv_fold64_inj:
  "foldl (\<lambda>hash c. (hash XOR ucast c) * 1099511628211) (h :: u64) q
   = foldl (\<lambda>hash c. (hash XOR ucast c) * 1099511628211) h' (q :: u8 list) \<Longrightarrow> h = h'"
  by (induction q arbitrary: h h') (auto dest: fnv_step64_inj)

lemma ucast_u8_inj:
  assumes "(ucast (c :: u8) :: 'b::len word) = ucast d" and "8 \<le> LENGTH('b)"
  shows "c = d"
proof -
  have "unat c = unat d"
    using assms(2) arg_cong [OF assms(1), of unat] by (simp add: unat_ucast_up)
  then show ?thesis by (simp add: word_unat_eq_iff)
qed

text \<open>The FNV-1a hashes separate any two strings that differ in exactly one character.\<close>
theorem constexpr_hash_separates_one_character:
  assumes "c \<noteq> d"
  shows "constexpr_hash (p @ c # q) \<noteq> constexpr_hash (p @ d # q)
    \<and> constexpr_hash64 (p @ c # q) \<noteq> constexpr_hash64 (p @ d # q)"
proof (intro conjI notI)
  assume "constexpr_hash (p @ c # q) = constexpr_hash (p @ d # q)"
  then have "(ucast c :: u32) = ucast d"
    by (simp add: constexpr_hash_def) (metis fnv_fold32_inj fnv_prime32_inverse xor_left_cancel)
  then show False using assms ucast_u8_inj [of c d, where ?'b = 32] by simp
next
  assume "constexpr_hash64 (p @ c # q) = constexpr_hash64 (p @ d # q)"
  then have "(ucast c :: u64) = ucast d"
    by (simp add: constexpr_hash64_def) (metis fnv_fold64_inj fnv_prime64_inverse xor_left_cancel)
  then show False using assms ucast_u8_inj [of c d, where ?'b = 64] by simp
qed

theorem constexpr_hash_separates_one_character_witness:
  "(97 :: u8) \<noteq> 98 \<and> constexpr_hash [97] \<noteq> constexpr_hash [98]"
proof -
  have ne: "(97 :: u8) \<noteq> 98" by simp
  show ?thesis
    using constexpr_hash_separates_one_character [OF ne, of "[]" "[]"] ne by simp
qed

end
