(* ===== verification/CheckedInt.thy ===== *)
theory CheckedInt
  imports FatP_Prelude "HOL-Library.Signed_Division"
begin

text \<open>
  \<open>CheckedArithmeticInt.h\<close> and the integer part of \<open>CheckedArithmetic.h\<close>.

  An integral type is its signedness and its width; a value of it is a number in its range.  The
  arithmetic of the language is written out: the operands of a type narrower than \<open>int\<close> are promoted,
  a signed result outside the promoted type is undefined behaviour (\<^const>\<open>None\<close>), an unsigned one wraps
  around, and the result is converted back to the type.
\<close>

section \<open>Integral types and the arithmetic of the language\<close>

record int_type =
  is_signed :: bool
  width :: nat

definition int_lowest :: "int_type \<Rightarrow> int" where
  "int_lowest ty = (if is_signed ty then - (2 ^ (width ty - 1)) else 0)"

definition int_max :: "int_type \<Rightarrow> int" where
  "int_max ty = (if is_signed ty then 2 ^ (width ty - 1) - 1 else 2 ^ width ty - 1)"

definition representable :: "int_type \<Rightarrow> int \<Rightarrow> bool" where
  "representable ty x \<longleftrightarrow> int_lowest ty \<le> x \<and> x \<le> int_max ty"

definition wrap :: "int_type \<Rightarrow> int \<Rightarrow> int" where
  "wrap ty x = (x - int_lowest ty) mod 2 ^ width ty + int_lowest ty"

definition int32 :: int_type where
  "int32 = \<lparr>is_signed = True, width = 32\<rparr>"

definition uintptr :: int_type where
  "uintptr = \<lparr>is_signed = False, width = 64\<rparr>"

definition ptrdiff :: int_type where
  "ptrdiff = \<lparr>is_signed = True, width = 64\<rparr>"

definition promoted :: "int_type \<Rightarrow> int_type" where
  "promoted ty = (if width ty < 32 then int32 else ty)"

text \<open>The value of an arithmetic expression with operands of the type and the exact result \<open>x\<close>.\<close>

definition c_eval :: "int_type \<Rightarrow> int \<Rightarrow> int option" where
  "c_eval ty x = (let p = promoted ty in
     if is_signed p then (if representable p x then Some x else None) else Some (wrap p x))"

definition c_div :: "int_type \<Rightarrow> int \<Rightarrow> int \<Rightarrow> int option" where
  "c_div ty a b = (if b = 0 then None else c_eval ty (a sdiv b))"

text \<open>\<open>a % b\<close> is undefined when \<open>a / b\<close> is.\<close>

definition c_mod :: "int_type \<Rightarrow> int \<Rightarrow> int \<Rightarrow> int option" where
  "c_mod ty a b = (case c_div ty a b of None \<Rightarrow> None | Some q \<Rightarrow> c_eval ty (a smod b))"

definition c_shl :: "int_type \<Rightarrow> int \<Rightarrow> int \<Rightarrow> int option" where
  "c_shl ty a s = (if 0 \<le> s \<and> s < int (width (promoted ty)) then Some (wrap (promoted ty) (a * 2 ^ nat s)) else None)"

definition c_shr :: "int_type \<Rightarrow> int \<Rightarrow> int \<Rightarrow> int option" where
  "c_shr ty a s = (if 0 \<le> s \<and> s < int (width (promoted ty)) then Some (a div 2 ^ nat s) else None)"

text \<open>\<open>&&\<close> and \<open>||\<close> do not evaluate the right operand when the left one decides.\<close>

definition c_and :: "bool option \<Rightarrow> bool option \<Rightarrow> bool option" where
  "c_and p q = (case p of None \<Rightarrow> None | Some b \<Rightarrow> if b then q else Some False)"

definition c_or :: "bool option \<Rightarrow> bool option \<Rightarrow> bool option" where
  "c_or p q = (case p of None \<Rightarrow> None | Some b \<Rightarrow> if b then Some True else q)"

section \<open>Policies and outcomes\<close>

datatype math_error = Overflow | Underflow | DivByZero | NaN | Inf_error | InvalidArgument

datatype check_policy = ThrowOnErrorPolicy | ReturnExpectedPolicy | SaturatingPolicy | InfTolerantPolicy

datatype 'a outcome = Returned 'a | Unexpected math_error | Thrown | Undefined

text \<open>\<open>if constexpr (Policy == Throw) fail; else if (Expected) return unexpected(e); else return s;\<close>\<close>

definition on_error :: "check_policy \<Rightarrow> math_error \<Rightarrow> 'a \<Rightarrow> 'a outcome" where
  "on_error pol e s = (case pol of ThrowOnErrorPolicy \<Rightarrow> Thrown | ReturnExpectedPolicy \<Rightarrow> Unexpected e
     | SaturatingPolicy \<Rightarrow> Returned s | InfTolerantPolicy \<Rightarrow> Returned s)"

text \<open>The value of an expression, converted to the type.\<close>

definition return_c :: "int_type \<Rightarrow> int option \<Rightarrow> int outcome" where
  "return_c ty v = (case v of None \<Rightarrow> Undefined | Some x \<Rightarrow> Returned (wrap ty x))"

definition check :: "bool option \<Rightarrow> 'a outcome \<Rightarrow> 'a outcome \<Rightarrow> 'a outcome" where
  "check overflow bad good = (case overflow of None \<Rightarrow> Undefined | Some b \<Rightarrow> if b then bad else good)"

text \<open>\<open>__builtin_add_overflow\<close> and its companions: the exact result converted to the type, and whether it has changed.\<close>

definition builtin_overflow :: "int_type \<Rightarrow> int \<Rightarrow> bool \<times> int" where
  "builtin_overflow ty x = (wrap ty x \<noteq> x, wrap ty x)"

section \<open>Addition, subtraction, multiplication\<close>

text \<open>\<open>builtin\<close> is \<open>FATP_HAS_BUILTIN_OVERFLOW\<close>.\<close>

definition add_overflow :: "int_type \<Rightarrow> int \<Rightarrow> int \<Rightarrow> bool option" where
  "add_overflow ty a b =
    (if is_signed ty then
       c_or (c_and (Some (b > 0)) (map_option (\<lambda>x. a > x) (c_eval ty (int_max ty - b))))
            (c_and (Some (b < 0)) (map_option (\<lambda>x. a < x) (c_eval ty (int_lowest ty - b))))
     else map_option (\<lambda>x. a > x) (c_eval ty (int_max ty - b)))"

definition add_error :: "check_policy \<Rightarrow> int_type \<Rightarrow> int \<Rightarrow> int outcome" where
  "add_error pol ty b =
    (if is_signed ty then on_error pol (if b > 0 then Overflow else Underflow) (if b > 0 then int_max ty else int_lowest ty)
     else on_error pol Overflow (int_max ty))"

definition checked_add :: "bool \<Rightarrow> check_policy \<Rightarrow> int_type \<Rightarrow> int \<Rightarrow> int \<Rightarrow> int outcome" where
  "checked_add builtin pol ty a b =
    (if builtin then (case builtin_overflow ty (a + b) of (o_, result) \<Rightarrow> if o_ then add_error pol ty b else Returned result)
     else check (add_overflow ty a b) (add_error pol ty b) (return_c ty (c_eval ty (a + b))))"

definition sub_overflow :: "int_type \<Rightarrow> int \<Rightarrow> int \<Rightarrow> bool option" where
  "sub_overflow ty a b =
    (if is_signed ty then
       c_or (c_and (Some (b < 0)) (map_option (\<lambda>x. a > x) (c_eval ty (int_max ty + b))))
            (c_and (Some (b > 0)) (map_option (\<lambda>x. a < x) (c_eval ty (int_lowest ty + b))))
     else Some (a < b))"

definition sub_error :: "check_policy \<Rightarrow> int_type \<Rightarrow> int \<Rightarrow> int outcome" where
  "sub_error pol ty b =
    (if is_signed ty then on_error pol (if b < 0 then Overflow else Underflow) (if b < 0 then int_max ty else int_lowest ty)
     else on_error pol Underflow (int_lowest ty))"

definition checked_sub :: "bool \<Rightarrow> check_policy \<Rightarrow> int_type \<Rightarrow> int \<Rightarrow> int \<Rightarrow> int outcome" where
  "checked_sub builtin pol ty a b =
    (if builtin then (case builtin_overflow ty (a - b) of (o_, result) \<Rightarrow> if o_ then sub_error pol ty b else Returned result)
     else check (sub_overflow ty a b) (sub_error pol ty b) (return_c ty (c_eval ty (a - b))))"

definition mul_overflow :: "int_type \<Rightarrow> int \<Rightarrow> int \<Rightarrow> bool option" where
  "mul_overflow ty a b =
    (if is_signed ty then
       c_or (c_or (c_or
         (c_and (Some (a > 0 \<and> b > 0)) (map_option (\<lambda>x. a > x) (c_div ty (int_max ty) b)))
         (c_and (Some (a < 0 \<and> b < 0)) (map_option (\<lambda>x. a < x) (c_div ty (int_max ty) b))))
         (c_and (Some (a > 0 \<and> b < 0)) (map_option (\<lambda>x. b < x) (c_div ty (int_lowest ty) a))))
         (c_and (Some (a < 0 \<and> b > 0)) (map_option (\<lambda>x. a < x) (c_div ty (int_lowest ty) b)))
     else map_option (\<lambda>x. a > x) (c_div ty (int_max ty) b))"

definition mul_error :: "check_policy \<Rightarrow> int_type \<Rightarrow> int \<Rightarrow> int \<Rightarrow> int outcome" where
  "mul_error pol ty a b =
    on_error pol Overflow (if is_signed ty then (if (a < 0) \<noteq> (b < 0) then int_lowest ty else int_max ty) else int_max ty)"

definition checked_mul :: "bool \<Rightarrow> check_policy \<Rightarrow> int_type \<Rightarrow> int \<Rightarrow> int \<Rightarrow> int outcome" where
  "checked_mul builtin pol ty a b =
    (if builtin then (case builtin_overflow ty (a * b) of (o_, result) \<Rightarrow> if o_ then mul_error pol ty a b else Returned result)
     else if a = 0 \<or> b = 0 then Returned 0
     else check (mul_overflow ty a b) (mul_error pol ty a b) (return_c ty (c_eval ty (a * b))))"

definition checked_inc :: "bool \<Rightarrow> check_policy \<Rightarrow> int_type \<Rightarrow> int \<Rightarrow> int outcome" where
  "checked_inc builtin pol ty a = checked_add builtin pol ty a 1"

definition checked_dec :: "bool \<Rightarrow> check_policy \<Rightarrow> int_type \<Rightarrow> int \<Rightarrow> int outcome" where
  "checked_dec builtin pol ty a = checked_sub builtin pol ty a 1"

section \<open>Division, negation, shifts, bitwise operations\<close>

definition checked_div :: "check_policy \<Rightarrow> int_type \<Rightarrow> int \<Rightarrow> int \<Rightarrow> int outcome" where
  "checked_div pol ty a b =
    (if b = 0 then on_error pol DivByZero (if a = 0 then 0 else if a > 0 then int_max ty else int_lowest ty)
     else if is_signed ty \<and> a = int_lowest ty \<and> b = -1 then on_error pol Overflow (int_max ty)
     else return_c ty (c_div ty a b))"

definition checked_mod :: "check_policy \<Rightarrow> int_type \<Rightarrow> int \<Rightarrow> int \<Rightarrow> int outcome" where
  "checked_mod pol ty a b =
    (if b = 0 then on_error pol DivByZero 0
     else if is_signed ty \<and> a = int_lowest ty \<and> b = -1 then on_error pol Overflow 0
     else return_c ty (c_mod ty a b))"

definition checked_negate :: "check_policy \<Rightarrow> int_type \<Rightarrow> int \<Rightarrow> int outcome" where
  "checked_negate pol ty a =
    (if is_signed ty \<and> a = int_lowest ty then on_error pol Overflow (int_max ty)
     else return_c ty (c_eval ty (- a)))"

definition checked_abs :: "check_policy \<Rightarrow> int_type \<Rightarrow> int \<Rightarrow> int outcome" where
  "checked_abs pol ty a =
    (if \<not> is_signed ty then Returned a
     else if a = int_lowest ty then on_error pol Overflow (int_max ty)
     else return_c ty (if a < 0 then c_eval ty (- a) else Some a))"

definition checked_left_shift :: "check_policy \<Rightarrow> int_type \<Rightarrow> int \<Rightarrow> int \<Rightarrow> int outcome" where
  "checked_left_shift pol ty a shift =
    (if shift < 0 \<or> shift \<ge> int (width ty) then on_error pol InvalidArgument 0
     else if is_signed ty \<and> a < 0 then on_error pol InvalidArgument 0
     else if is_signed ty \<and> a > int_max ty div 2 ^ nat shift then on_error pol Overflow (int_max ty)
     else return_c ty (c_shl ty a shift))"

definition checked_right_shift :: "check_policy \<Rightarrow> int_type \<Rightarrow> int \<Rightarrow> int \<Rightarrow> int outcome" where
  "checked_right_shift pol ty a shift =
    (if shift < 0 \<or> shift \<ge> int (width ty) then on_error pol InvalidArgument (if is_signed ty then (if a < 0 then -1 else 0) else 0)
     else return_c ty (c_shr ty a shift))"

unbundle bit_operations_syntax

definition checked_and :: "int_type \<Rightarrow> int \<Rightarrow> int \<Rightarrow> int outcome" where
  "checked_and ty a b = return_c ty (Some (a AND b))"

definition checked_or :: "int_type \<Rightarrow> int \<Rightarrow> int \<Rightarrow> int outcome" where
  "checked_or ty a b = return_c ty (Some (a OR b))"

definition checked_xor :: "int_type \<Rightarrow> int \<Rightarrow> int \<Rightarrow> int outcome" where
  "checked_xor ty a b = return_c ty (Some (a XOR b))"

section \<open>Clamping and conversion\<close>

definition checked_clamp :: "check_policy \<Rightarrow> int \<Rightarrow> int \<Rightarrow> int \<Rightarrow> int outcome" where
  "checked_clamp pol value min_val max_val =
    (let clamp = (\<lambda>lo hi. if value < lo then lo else if value > hi then hi else value)
     in if min_val > max_val then on_error pol InvalidArgument (clamp max_val min_val) else Returned (clamp min_val max_val))"

definition checked_in_range :: "check_policy \<Rightarrow> int \<Rightarrow> int \<Rightarrow> int \<Rightarrow> bool outcome" where
  "checked_in_range pol value min_val max_val =
    (if min_val > max_val then on_error pol InvalidArgument (value \<ge> max_val \<and> value \<le> min_val)
     else Returned (value \<ge> min_val \<and> value \<le> max_val))"

text \<open>The comparisons convert the limits of the target to the source type, or the value to its unsigned type.\<close>

definition would_overflow :: "int_type \<Rightarrow> int_type \<Rightarrow> int \<Rightarrow> bool" where
  "would_overflow to from value =
    (if is_signed from = is_signed to then
       (if width from \<le> width to then False
        else value < wrap from (int_lowest to) \<or> value > wrap from (int_max to))
     else if is_signed from then
       (if value < 0 then True else wrap (from\<lparr>is_signed := False\<rparr>) value > int_max to)
     else if width from < width to then False
     else value > wrap from (int_max to))"

definition checked_cast :: "check_policy \<Rightarrow> int_type \<Rightarrow> int_type \<Rightarrow> int \<Rightarrow> int outcome" where
  "checked_cast pol to from value =
    (if to = from then Returned value
     else if would_overflow to from value then
       on_error pol (if is_signed from \<and> value < 0 then Underflow else Overflow)
         (if is_signed from \<and> value < 0 then int_lowest to else int_max to)
     else Returned (wrap to value))"

section \<open>Pointers\<close>

text \<open>
  A pointer is its address; \<open>elem\<close> is \<open>sizeof(P)\<close>.  An error of a step is passed on: as an exception, or
  by the test of \<open>has_value\<close>.
\<close>

definition then_outcome :: "'a outcome \<Rightarrow> ('a \<Rightarrow> 'b outcome) \<Rightarrow> 'b outcome" where
  "then_outcome r f = (case r of Returned x \<Rightarrow> f x | Unexpected e \<Rightarrow> Unexpected e | Thrown \<Rightarrow> Thrown | Undefined \<Rightarrow> Undefined)"

definition ptr_up :: "bool \<Rightarrow> check_policy \<Rightarrow> int \<Rightarrow> int \<Rightarrow> int \<Rightarrow> int outcome" where
  "ptr_up builtin pol elem addr n =
    then_outcome (checked_mul builtin pol uintptr n elem) (checked_add builtin pol uintptr addr)"

definition ptr_down :: "bool \<Rightarrow> check_policy \<Rightarrow> int \<Rightarrow> int \<Rightarrow> int \<Rightarrow> int outcome" where
  "ptr_down builtin pol elem addr n =
    then_outcome (checked_mul builtin pol uintptr n elem) (checked_sub builtin pol uintptr addr)"

definition checked_add_ptr :: "bool \<Rightarrow> check_policy \<Rightarrow> int \<Rightarrow> int \<Rightarrow> int \<Rightarrow> int outcome" where
  "checked_add_ptr builtin pol elem addr offset =
    (if offset \<ge> 0 then ptr_up builtin pol elem addr offset
     else if offset = int_lowest ptrdiff then on_error pol Overflow 0
     else ptr_down builtin pol elem addr (- offset))"

definition checked_sub_ptr :: "bool \<Rightarrow> check_policy \<Rightarrow> int \<Rightarrow> int \<Rightarrow> int \<Rightarrow> int outcome" where
  "checked_sub_ptr builtin pol elem addr offset =
    (if offset \<ge> 0 then ptr_down builtin pol elem addr offset
     else if offset = int_lowest ptrdiff then on_error pol Overflow 0
     else ptr_up builtin pol elem addr (- offset))"

definition checked_inc_ptr :: "bool \<Rightarrow> check_policy \<Rightarrow> int \<Rightarrow> int \<Rightarrow> int outcome" where
  "checked_inc_ptr builtin pol elem addr = checked_add_ptr builtin pol elem addr 1"

definition checked_dec_ptr :: "bool \<Rightarrow> check_policy \<Rightarrow> int \<Rightarrow> int \<Rightarrow> int outcome" where
  "checked_dec_ptr builtin pol elem addr = checked_sub_ptr builtin pol elem addr 1"

section \<open>Vectors\<close>

text \<open>The scalar loop, which stops at the first error.\<close>

fun vec_loop :: "(int \<Rightarrow> int \<Rightarrow> int outcome) \<Rightarrow> int list \<Rightarrow> int list \<Rightarrow> int list outcome" where
  "vec_loop f (x # xs) (y # ys) = then_outcome (f x y) (\<lambda>r. then_outcome (vec_loop f xs ys) (\<lambda>rs. Returned (r # rs)))"
| "vec_loop f _ _ = Returned []"

definition checked_vec :: "check_policy \<Rightarrow> (int \<Rightarrow> int \<Rightarrow> int outcome) \<Rightarrow> int list \<Rightarrow> int list \<Rightarrow> int list outcome" where
  "checked_vec pol f vec_a vec_b =
    (if length vec_a \<noteq> length vec_b then on_error pol InvalidArgument [] else vec_loop f vec_a vec_b)"

definition checked_add_vec :: "bool \<Rightarrow> check_policy \<Rightarrow> int_type \<Rightarrow> int list \<Rightarrow> int list \<Rightarrow> int list outcome" where
  "checked_add_vec builtin pol ty = checked_vec pol (checked_add builtin pol ty)"

definition checked_sub_vec :: "bool \<Rightarrow> check_policy \<Rightarrow> int_type \<Rightarrow> int list \<Rightarrow> int list \<Rightarrow> int list outcome" where
  "checked_sub_vec builtin pol ty = checked_vec pol (checked_sub builtin pol ty)"

definition checked_mul_vec :: "bool \<Rightarrow> check_policy \<Rightarrow> int_type \<Rightarrow> int list \<Rightarrow> int list \<Rightarrow> int list outcome" where
  "checked_mul_vec builtin pol ty = checked_vec pol (checked_mul builtin pol ty)"

section \<open>The assertions of \<open>static_math\<close>\<close>

text \<open>\<open>Some True\<close>: the assertion holds; \<^const>\<open>None\<close>: evaluating it is undefined, which does not compile either.\<close>

definition static_add_ok :: "int_type \<Rightarrow> int \<Rightarrow> int \<Rightarrow> bool option" where
  "static_add_ok ty a b = (if b \<ge> 0 then map_option (\<lambda>x. a \<le> x) (c_eval ty (int_max ty - b))
     else map_option (\<lambda>x. a \<ge> x) (c_eval ty (int_lowest ty - b)))"

definition static_sub_ok :: "int_type \<Rightarrow> int \<Rightarrow> int \<Rightarrow> bool option" where
  "static_sub_ok ty a b = (if b \<ge> 0 then map_option (\<lambda>x. a \<ge> x) (c_eval ty (int_lowest ty + b))
     else map_option (\<lambda>x. a \<le> x) (c_eval ty (int_max ty + b)))"

definition static_mul_ok :: "int_type \<Rightarrow> int \<Rightarrow> int \<Rightarrow> bool option" where
  "static_mul_ok ty a b = (if \<not> is_signed ty then
       c_or (Some (a = 0)) (c_or (Some (b = 0)) (map_option (\<lambda>x. a \<le> x) (c_div ty (int_max ty) b)))
     else c_or (Some (a = 0)) (c_or (Some (b = 0))
       (if a > 0 \<and> b > 0 then map_option (\<lambda>x. a \<le> x) (c_div ty (int_max ty) b)
        else if a < 0 \<and> b < 0 then map_option (\<lambda>x. a \<ge> x) (c_div ty (int_max ty) b)
        else if a > 0 then map_option (\<lambda>x. b \<ge> x) (c_div ty (int_lowest ty) a)
        else map_option (\<lambda>x. a \<ge> x) (c_div ty (int_lowest ty) b))))"

definition static_div_ok :: "int_type \<Rightarrow> int \<Rightarrow> int \<Rightarrow> bool" where
  "static_div_ok ty a b \<longleftrightarrow> b \<noteq> 0 \<and> (is_signed ty \<longrightarrow> \<not> (a = int_lowest ty \<and> b = -1))"

definition static_shift_ok :: "int_type \<Rightarrow> int \<Rightarrow> bool" where
  "static_shift_ok ty shift \<longleftrightarrow> shift \<ge> 0 \<and> shift < int (width ty)"

end
