(* ===== verification/CheckedInt_Exact.thy ===== *)
theory CheckedInt_Exact
  imports CheckedInt
begin

text \<open>
  The checked operations against the mathematical results: ranges and conversions, the tests for
  overflow, and the statements about the program in the last section.
\<close>

section \<open>Ranges and conversions\<close>

text \<open>The types of the library have at least eight bits.\<close>

definition type_ok :: "int_type \<Rightarrow> bool" where
  "type_ok ty \<longleftrightarrow> 8 \<le> width ty"

lemma representableI: "\<lbrakk>int_lowest ty \<le> x; x \<le> int_max ty\<rbrakk> \<Longrightarrow> representable ty x"
  by (simp add: representable_def)

lemma representableD: "representable ty x \<Longrightarrow> int_lowest ty \<le> x \<and> x \<le> int_max ty"
  by (simp add: representable_def)

lemma two_power_pred: "0 < n \<Longrightarrow> (2 :: int) ^ n = 2 * 2 ^ (n - 1)"
  by (cases n) simp_all

lemma int_max_eq: "type_ok ty \<Longrightarrow> int_max ty = int_lowest ty + 2 ^ width ty - 1"
  by (simp add: int_max_def int_lowest_def type_ok_def two_power_pred)

lemma type_bounds: "type_ok ty \<Longrightarrow> int_lowest ty \<le> 0 \<and> 127 \<le> int_max ty"
proof -
  assume ok: "type_ok ty"
  have "(2 :: int) ^ 8 \<le> 2 ^ width ty" using ok by (intro power_increasing) (simp_all add: type_ok_def)
  moreover have "(2 :: int) ^ 7 \<le> 2 ^ (width ty - 1)" using ok by (intro power_increasing) (simp_all add: type_ok_def)
  ultimately show ?thesis by (simp add: int_max_def int_lowest_def)
qed

lemma signed_range: "is_signed ty \<Longrightarrow> int_lowest ty = - int_max ty - 1"
  by (simp add: int_max_def int_lowest_def)

lemma unsigned_lowest: "\<not> is_signed ty \<Longrightarrow> int_lowest ty = 0"
  by (simp add: int_lowest_def)

lemma representable_wrap: "type_ok ty \<Longrightarrow> representable ty (wrap ty x)"
proof -
  assume ok: "type_ok ty"
  have "0 \<le> (x - int_lowest ty) mod 2 ^ width ty" "(x - int_lowest ty) mod 2 ^ width ty < 2 ^ width ty" by simp_all
  then show ?thesis unfolding representable_def wrap_def int_max_eq [OF ok] by linarith
qed

lemma wrap_representable [simp]: "\<lbrakk>type_ok ty; representable ty x\<rbrakk> \<Longrightarrow> wrap ty x = x"
  unfolding representable_def wrap_def by (subst mod_pos_pos_trivial) (simp_all add: int_max_eq)

lemma wrap_eq_iff: "type_ok ty \<Longrightarrow> wrap ty x = x \<longleftrightarrow> representable ty x"
  using representable_wrap [of ty x] wrap_representable [of ty x] by metis

lemma type_ok_promoted [simp]: "type_ok ty \<Longrightarrow> type_ok (promoted ty)"
  by (simp add: type_ok_def promoted_def int32_def)

lemma narrow_powers: "width ty < 32 \<Longrightarrow> (2 :: int) ^ width ty \<le> 2147483648 \<and> (2 :: int) ^ (width ty - 1) \<le> 2147483648"
  using power_increasing [of "width ty" 31 "2 :: int"] power_increasing [of "width ty - 1" 31 "2 :: int"] by simp

lemma representable_promoted: "\<lbrakk>type_ok ty; representable ty x\<rbrakk> \<Longrightarrow> representable (promoted ty) x"
proof (cases "width ty < 32")
  case True
  assume ok: "type_ok ty" and x: "representable ty x"
  from representableD [OF x] narrow_powers [OF True] have "-2147483648 \<le> x \<and> x \<le> 2147483647"
    unfolding int_lowest_def int_max_def by (cases "is_signed ty") auto
  then show ?thesis by (simp add: True promoted_def representable_def int32_def int_max_def int_lowest_def)
qed (simp add: promoted_def)

lemma c_eval_exact [simp]: "\<lbrakk>type_ok ty; representable ty x\<rbrakk> \<Longrightarrow> c_eval ty x = Some x"
  by (simp add: c_eval_def representable_promoted Let_def)

lemma return_c_exact: "\<lbrakk>type_ok ty; representable ty x\<rbrakk> \<Longrightarrow> return_c ty (Some x) = Returned x"
  by (simp add: return_c_def)

lemma return_c_eval: "\<lbrakk>type_ok ty; representable ty x\<rbrakk> \<Longrightarrow> return_c ty (c_eval ty x) = Returned x"
  by (simp add: return_c_exact)

section \<open>The tests for overflow\<close>

lemma add_overflow_exact:
  assumes ok: "type_ok ty" and r: "representable ty a" "representable ty b"
  shows "add_overflow ty a b = Some (\<not> representable ty (a + b))"
proof -
  note b = type_bounds [OF ok]
  note ra = representableD [OF r(1)] and rb = representableD [OF r(2)]
  show ?thesis
  proof (cases "is_signed ty")
    case True
    have up: "c_eval ty (int_max ty - b) = Some (int_max ty - b)" if "0 < b"
      using that b rb by (intro c_eval_exact ok representableI) linarith+
    have down: "c_eval ty (int_lowest ty - b) = Some (int_lowest ty - b)" if "b < 0"
      using that b rb by (intro c_eval_exact ok representableI) linarith+
    show ?thesis using True ra rb up down
      by (cases "0 < b"; cases "b < 0") (auto simp: add_overflow_def c_or_def c_and_def representable_def)
  next
    case False
    have "c_eval ty (int_max ty - b) = Some (int_max ty - b)"
      using b rb unsigned_lowest [OF False] by (intro c_eval_exact ok representableI) linarith+
    then show ?thesis using False ra rb unsigned_lowest [OF False] by (auto simp: add_overflow_def representable_def)
  qed
qed

lemma sub_overflow_exact:
  assumes ok: "type_ok ty" and r: "representable ty a" "representable ty b"
  shows "sub_overflow ty a b = Some (\<not> representable ty (a - b))"
proof -
  note b = type_bounds [OF ok]
  note ra = representableD [OF r(1)] and rb = representableD [OF r(2)]
  show ?thesis
  proof (cases "is_signed ty")
    case True
    have up: "c_eval ty (int_max ty + b) = Some (int_max ty + b)" if "b < 0"
      using that b rb signed_range [OF True] by (intro c_eval_exact ok representableI) linarith+
    have down: "c_eval ty (int_lowest ty + b) = Some (int_lowest ty + b)" if "0 < b"
      using that b rb by (intro c_eval_exact ok representableI) linarith+
    show ?thesis using True ra rb up down
      by (cases "0 < b"; cases "b < 0") (auto simp: sub_overflow_def c_or_def c_and_def representable_def)
  next
    case False
    then show ?thesis using ra rb unsigned_lowest [OF False] by (auto simp: sub_overflow_def representable_def)
  qed
qed

text \<open>Truncating division of a bound, by the sign of the divisor.\<close>

lemma sdiv_pos: "\<lbrakk>0 \<le> m; 0 < b\<rbrakk> \<Longrightarrow> m sdiv b = m div (b :: int)"
  by (cases "m = 0") (simp_all add: signed_divide_int_def)

lemma less_quotient:
  assumes "0 < (b :: int)"
  shows "m div b < a \<longleftrightarrow> m < a * b"
proof
  assume "m div b < a"
  then have "(m div b + 1) * b \<le> a * b" using assms by (intro mult_right_mono) simp_all
  moreover have "m < (m div b + 1) * b"
    using div_mult_mod_eq [of m b] pos_mod_bound [OF assms, of m] by (simp only: distrib_right mult_1_left)
  ultimately show "m < a * b" by linarith
next
  assume "m < a * b"
  moreover have "m div b * b \<le> m" using div_mult_mod_eq [of m b] pos_mod_sign [OF assms, of m] by linarith
  ultimately have "m div b * b < a * b" by linarith
  with assms show "m div b < a" by simp
qed

lemma quotient_bounds: "\<lbrakk>0 \<le> m; 0 < b\<rbrakk> \<Longrightarrow> 0 \<le> m div b \<and> m div b \<le> (m :: int)"
  using zdiv_mono2 [of m 1 b] by (simp add: pos_imp_zdiv_nonneg_iff)

lemma max_div_pos:
  assumes ok: "type_ok ty" and "0 < b"
  shows "c_div ty (int_max ty) b = Some (int_max ty div b)"
  using assms type_bounds [OF ok] quotient_bounds [of "int_max ty" b]
  by (simp add: c_div_def sdiv_pos representable_def)

lemma max_div_neg:
  assumes ok: "type_ok ty" and s: "is_signed ty" and "b < 0"
  shows "c_div ty (int_max ty) b = Some (- (int_max ty div (- b)))"
proof -
  have "int_max ty sdiv b = - (int_max ty sdiv (- b))" by simp
  then have "int_max ty sdiv b = - (int_max ty div (- b))" using sdiv_pos [of "int_max ty" "- b"] assms(3) type_bounds [OF ok] by simp
  moreover have "representable ty (- (int_max ty div (- b)))"
    using quotient_bounds [of "int_max ty" "- b"] assms(3) type_bounds [OF ok] signed_range [OF s] by (intro representableI) linarith+
  ultimately show ?thesis using assms(3) ok by (simp add: c_div_def)
qed

lemma lowest_div_pos:
  assumes ok: "type_ok ty" and s: "is_signed ty" and "0 < b"
  shows "c_div ty (int_lowest ty) b = Some (- ((- int_lowest ty) div b))"
proof -
  have "int_lowest ty sdiv b = - ((- int_lowest ty) sdiv b)" by simp
  then have "int_lowest ty sdiv b = - ((- int_lowest ty) div b)" using sdiv_pos [of "- int_lowest ty" b] assms(3) type_bounds [OF ok] by simp
  moreover have "representable ty (- ((- int_lowest ty) div b))"
    using quotient_bounds [of "- int_lowest ty" b] assms(3) type_bounds [OF ok] signed_range [OF s] by (intro representableI) linarith+
  ultimately show ?thesis using assms(3) ok by (simp add: c_div_def)
qed

lemma mul_overflow_exact:
  assumes ok: "type_ok ty" and r: "representable ty a" "representable ty b" and nz: "a \<noteq> 0" "b \<noteq> 0"
  shows "mul_overflow ty a b = Some (\<not> representable ty (a * b))"
proof (cases "is_signed ty")
  case False
  have "0 < b" using nz(2) representableD [OF r(2)] unsigned_lowest [OF False] by simp
  moreover have "0 \<le> a * b" using representableD [OF r(1)] unsigned_lowest [OF False] \<open>0 < b\<close> by simp
  ultimately show ?thesis
    using False unsigned_lowest [OF False] by (auto simp: mul_overflow_def max_div_pos [OF ok] less_quotient representable_def)
next
  case True
  note low = type_bounds [OF ok]
  consider (pp) "0 < a" "0 < b" | (nn) "a < 0" "b < 0" | (pn) "0 < a" "b < 0" | (np) "a < 0" "0 < b" using nz by linarith
  then show ?thesis
  proof cases
    case pp
    then have "0 < a * b" by simp
    then have "int_lowest ty \<le> a * b" using low by linarith
    with pp True low show ?thesis
      by (auto simp: mul_overflow_def c_or_def c_and_def max_div_pos [OF ok] less_quotient representable_def)
  next
    case nn
    then have "0 < a * b" by (simp add: mult_neg_neg)
    moreover have "a < - (int_max ty div (- b)) \<longleftrightarrow> int_max ty < a * b" using less_quotient [of "- b" "int_max ty" "- a"] nn by auto
    ultimately show ?thesis using nn True low
      by (auto simp: mul_overflow_def c_or_def c_and_def max_div_neg [OF ok True] representable_def)
  next
    case pn
    then have "a * b < 0" by (simp add: mult_pos_neg)
    moreover have "b < - ((- int_lowest ty) div a) \<longleftrightarrow> a * b < int_lowest ty"
      using less_quotient [of a "- int_lowest ty" "- b"] pn by (auto simp: mult.commute)
    ultimately show ?thesis using pn True low
      by (auto simp: mul_overflow_def c_or_def c_and_def lowest_div_pos [OF ok True] representable_def)
  next
    case np
    then have "a * b < 0" by (simp add: mult_neg_pos)
    moreover have "a < - ((- int_lowest ty) div b) \<longleftrightarrow> a * b < int_lowest ty"
      using less_quotient [of b "- int_lowest ty" "- a"] np by auto
    ultimately show ?thesis using np True low
      by (auto simp: mul_overflow_def c_or_def c_and_def lowest_div_pos [OF ok True] representable_def)
  qed
qed

section \<open>Exact results\<close>

text \<open>The result \<open>x\<close> when the type has it, and otherwise an error: \<open>e_max\<close> or \<open>e_min\<close>, or the nearest value.\<close>

definition exact :: "check_policy \<Rightarrow> int_type \<Rightarrow> math_error \<Rightarrow> math_error \<Rightarrow> int \<Rightarrow> int outcome" where
  "exact pol ty e_max e_min x =
    (if x > int_max ty then on_error pol e_max (int_max ty)
     else if x < int_lowest ty then on_error pol e_min (int_lowest ty)
     else Returned x)"

lemma exact_representable [simp]: "representable ty x \<Longrightarrow> exact pol ty e_max e_min x = Returned x"
  by (simp add: exact_def representable_def)

lemma range_not_empty: "type_ok ty \<Longrightarrow> int_lowest ty < int_max ty"
  using type_bounds by fastforce

text \<open>Both configurations reduce to the exact result.\<close>

lemma checked_by_exact:
  assumes "type_ok ty" and "\<not> representable ty x \<Longrightarrow> bad = exact pol ty e_max e_min x"
  shows "(case builtin_overflow ty x of (o_, result) \<Rightarrow> if o_ then bad else Returned result) = exact pol ty e_max e_min x"
    and "check (Some (\<not> representable ty x)) bad (return_c ty (c_eval ty x)) = exact pol ty e_max e_min x"
  using assms by (auto simp: builtin_overflow_def wrap_eq_iff check_def return_c_exact)

lemma checked_add_exact:
  assumes ok: "type_ok ty" and r: "representable ty a" "representable ty b"
  shows "checked_add builtin pol ty a b = exact pol ty Overflow Underflow (a + b)"
proof -
  have "add_error pol ty b = exact pol ty Overflow Underflow (a + b)" if "\<not> representable ty (a + b)"
    using that representableD [OF r(1)] representableD [OF r(2)] unsigned_lowest [of ty] range_not_empty [OF ok]
    by (auto simp: add_error_def exact_def representable_def)
  then show ?thesis by (simp add: checked_add_def add_overflow_exact [OF ok r] checked_by_exact [OF ok])
qed

lemma checked_sub_exact:
  assumes ok: "type_ok ty" and r: "representable ty a" "representable ty b"
  shows "checked_sub builtin pol ty a b = exact pol ty Overflow Underflow (a - b)"
proof -
  have "sub_error pol ty b = exact pol ty Overflow Underflow (a - b)" if "\<not> representable ty (a - b)"
    using that representableD [OF r(1)] representableD [OF r(2)] unsigned_lowest [of ty] range_not_empty [OF ok]
    by (auto simp: sub_error_def exact_def representable_def)
  then show ?thesis by (simp add: checked_sub_def sub_overflow_exact [OF ok r] checked_by_exact [OF ok])
qed

lemma checked_mul_exact:
  assumes ok: "type_ok ty" and r: "representable ty a" "representable ty b"
  shows "checked_mul builtin pol ty a b = exact pol ty Overflow Overflow (a * b)"
proof -
  note low = type_bounds [OF ok] range_not_empty [OF ok]
  have err: "mul_error pol ty a b = exact pol ty Overflow Overflow (a * b)" if "\<not> representable ty (a * b)"
  proof (cases "(a < 0) = (b < 0)")
    case True
    then have "0 \<le> a * b" by (auto simp: zero_le_mult_iff)
    with that low True show ?thesis by (auto simp: mul_error_def exact_def representable_def)
  next
    case False
    then have s: "is_signed ty" using representableD [OF r(1)] representableD [OF r(2)] unsigned_lowest [of ty] by (cases "is_signed ty") auto
    from False have "a * b \<le> 0" by (auto simp: mult_le_0_iff)
    with that low False s show ?thesis by (auto simp: mul_error_def exact_def representable_def)
  qed
  show ?thesis
  proof (cases "a = 0 \<or> b = 0")
    case True
    then have "representable ty (a * b)" using low(1) by (auto simp: representable_def)
    with True checked_by_exact(1) [OF ok err] show ?thesis by (auto simp: checked_mul_def)
  next
    case False
    then show ?thesis by (simp add: checked_mul_def mul_overflow_exact [OF ok r] checked_by_exact [OF ok err])
  qed
qed

text \<open>Division truncates towards zero.\<close>

lemma sdiv_abs: "\<bar>a sdiv b\<bar> = \<bar>a\<bar> div \<bar>b :: int\<bar>"
  by (simp add: signed_divide_int_def abs_mult sgn_if pos_imp_zdiv_nonneg_iff)

lemma representable_sdiv:
  assumes ok: "type_ok ty" and r: "representable ty a" "representable ty b" and nz: "b \<noteq> 0"
    and no: "\<not> (is_signed ty \<and> a = int_lowest ty \<and> b = -1)"
  shows "representable ty (a sdiv b)"
proof (cases "is_signed ty")
  case False
  then show ?thesis
    using r nz unsigned_lowest [OF False] sdiv_pos [of a b] quotient_bounds [of a b] by (auto simp: representable_def)
next
  case True
  note low = type_bounds [OF ok] signed_range [OF True]
  have le: "\<bar>a\<bar> div \<bar>b\<bar> \<le> \<bar>a\<bar>" using quotient_bounds [of "\<bar>a\<bar>" "\<bar>b\<bar>"] nz by simp
  show ?thesis
  proof (cases "a = int_lowest ty \<and> b < -1")
    case True
    then have "\<bar>a\<bar> div \<bar>b\<bar> < \<bar>a\<bar>" using low by (intro int_div_less_self) linarith+
    with True low sdiv_abs [of a b] show ?thesis unfolding representable_def by linarith
  next
    case False
    consider "a \<noteq> int_lowest ty" | "a = int_lowest ty" "0 < b" using False no nz True by linarith
    then show ?thesis
    proof cases
      case 1
      with r(1) have "\<bar>a\<bar> \<le> int_max ty" using low unfolding representable_def by linarith
      with le sdiv_abs [of a b] low show ?thesis unfolding representable_def by linarith
    next
      case 2
      have "a sdiv b = - ((- a) sdiv b)" by simp
      with 2 sdiv_pos [of "- a" b] quotient_bounds [of "- a" b] low show ?thesis unfolding representable_def by linarith
    qed
  qed
qed

lemma checked_div_exact:
  assumes ok: "type_ok ty" and r: "representable ty a" "representable ty b" and nz: "b \<noteq> 0"
  shows "checked_div pol ty a b = exact pol ty Overflow Overflow (a sdiv b)"
proof (cases "is_signed ty \<and> a = int_lowest ty \<and> b = -1")
  case True
  with signed_range [of ty] show ?thesis by (auto simp: checked_div_def exact_def)
next
  case False
  note d = representable_sdiv [OF ok r nz False]
  have "checked_div pol ty a b = return_c ty (c_div ty a b)" unfolding checked_div_def using False nz by auto
  with nz d show ?thesis by (simp add: c_div_def return_c_exact ok)
qed

lemma representable_smod:
  assumes "type_ok ty" and "representable ty a"
  shows "representable ty (a smod b)"
proof -
  have "0 \<le> \<bar>a\<bar> mod \<bar>b\<bar> \<and> \<bar>a\<bar> mod \<bar>b\<bar> \<le> \<bar>a\<bar>" by (cases "b = 0") (simp_all add: zmod_le_nonneg_dividend)
  then show ?thesis
    using assms(2) type_bounds [OF assms(1)] by (cases "a < 0") (auto simp: smod_int_alt_def representable_def sgn_if)
qed

lemma checked_mod_exact:
  assumes ok: "type_ok ty" and r: "representable ty a" "representable ty b" and nz: "b \<noteq> 0"
  shows "checked_mod pol ty a b = (if is_signed ty \<and> a = int_lowest ty \<and> b = -1 then on_error pol Overflow 0 else Returned (a smod b))"
  using representable_sdiv [OF ok r nz] representable_smod [OF ok r(1), of b] nz ok
  by (auto simp: checked_mod_def c_mod_def c_div_def return_c_exact)

section \<open>Conversions keep the residue\<close>

lemma wrap_mod: "wrap ty x mod 2 ^ width ty = x mod 2 ^ width ty"
  unfolding wrap_def by (simp add: mod_simps)

lemma wrap_cong: "x mod 2 ^ width ty = y mod 2 ^ width ty \<Longrightarrow> wrap ty x = wrap ty y"
  unfolding wrap_def by (metis mod_diff_left_eq)

lemma wrap_promoted: "wrap ty (wrap (promoted ty) x) = wrap ty x"
proof (rule wrap_cong)
  have d: "(2 :: int) ^ width ty dvd 2 ^ width (promoted ty)" by (rule le_imp_power_dvd) (simp add: promoted_def int32_def)
  show "wrap (promoted ty) x mod 2 ^ width ty = x mod 2 ^ width ty"
    using wrap_mod [of "promoted ty" x] mod_mod_cancel [OF d, of "wrap (promoted ty) x"] mod_mod_cancel [OF d, of x] by simp
qed

lemma checked_negate_exact:
  assumes ok: "type_ok ty" and r: "representable ty a"
  shows "checked_negate pol ty a = (if is_signed ty then exact pol ty Overflow Overflow (- a) else Returned (wrap ty (- a)))"
proof (cases "is_signed ty")
  case True
  note s = signed_range [OF True]
  show ?thesis
  proof (cases "a = int_lowest ty")
    case False
    then have n: "representable ty (- a)" using r s type_bounds [OF ok] by (auto simp: representable_def)
    with True False show ?thesis by (simp add: checked_negate_def return_c_exact ok)
  qed (use True s in \<open>simp add: checked_negate_def exact_def\<close>)
next
  case False
  have "- 2147483648 \<le> - a \<and> - a \<le> 2147483647" if "width ty < 32"
    using narrow_powers [OF that] r False by (simp add: representable_def int_max_def int_lowest_def)
  then have "return_c ty (c_eval ty (- a)) = Returned (wrap ty (- a))"
    using False wrap_promoted [of ty "- a"]
    by (auto simp: return_c_def c_eval_def promoted_def Let_def int32_def representable_def int_lowest_def int_max_def)
  with False show ?thesis by (simp add: checked_negate_def)
qed

lemma checked_abs_exact:
  assumes ok: "type_ok ty" and r: "representable ty a"
  shows "checked_abs pol ty a = exact pol ty Overflow Overflow \<bar>a\<bar>"
proof (cases "is_signed ty")
  case False
  with r show ?thesis by (simp add: checked_abs_def unsigned_lowest representable_def exact_def)
next
  case True
  note s = signed_range [OF True] and low = type_bounds [OF ok]
  show ?thesis
  proof (cases "a = int_lowest ty")
    case False
    then have n: "representable ty \<bar>a\<bar>" using r s low by (auto simp: representable_def)
    with r ok True False show ?thesis by (cases "a < 0") (simp_all add: checked_abs_def return_c_exact)
  next
    case eq: True
    then have "\<bar>a\<bar> = int_max ty + 1" using s low by linarith
    with True eq show ?thesis by (simp add: checked_abs_def exact_def)
  qed
qed

lemma width_promoted: "width ty \<le> width (promoted ty)"
  by (simp add: promoted_def int32_def)

lemma checked_left_shift_exact:
  assumes ok: "type_ok ty" and r: "representable ty a" and s: "0 \<le> shift" "shift < int (width ty)"
  shows "checked_left_shift pol ty a shift =
    (if is_signed ty then (if a < 0 then on_error pol InvalidArgument 0 else exact pol ty Overflow Overflow (a * 2 ^ nat shift))
     else Returned (wrap ty (a * 2 ^ nat shift)))"
proof -
  have v: "return_c ty (c_shl ty a shift) = Returned (wrap ty (a * 2 ^ nat shift))"
    using s width_promoted [of ty] by (simp add: return_c_def c_shl_def wrap_promoted)
  show ?thesis
  proof (cases "is_signed ty \<and> 0 \<le> a")
    case False
    with s v show ?thesis by (auto simp: checked_left_shift_def)
  next
    case True
    have "int_max ty div 2 ^ nat shift < a \<longleftrightarrow> int_max ty < a * 2 ^ nat shift" by (rule less_quotient) simp
    moreover have "0 \<le> a * 2 ^ nat shift" using True by simp
    then have "int_lowest ty \<le> a * 2 ^ nat shift" using type_bounds [OF ok] by linarith
    ultimately show ?thesis
      using True s v wrap_representable [OF ok, of "a * 2 ^ nat shift"]
      by (auto simp: checked_left_shift_def exact_def representable_def)
  qed
qed

lemma checked_right_shift_exact:
  assumes ok: "type_ok ty" and r: "representable ty a" and s: "0 \<le> shift" "shift < int (width ty)"
  shows "checked_right_shift pol ty a shift = Returned (a div 2 ^ nat shift)"
proof -
  have "representable ty (a div 2 ^ nat shift)"
  proof (cases "0 \<le> a")
    case True
    with quotient_bounds [of a "2 ^ nat shift"] r type_bounds [OF ok] show ?thesis by (simp add: representable_def)
  next
    case False
    have "a * 2 ^ nat shift \<le> a * 1" using False by (intro mult_left_mono_neg) simp_all
    then have "a \<le> a div 2 ^ nat shift" using less_quotient [of "2 ^ nat shift" a a] by simp
    moreover have "a div 2 ^ nat shift < 0" using False by (simp add: pos_imp_zdiv_neg_iff)
    ultimately show ?thesis using r type_bounds [OF ok] by (simp add: representable_def)
  qed
  then show ?thesis using s width_promoted [of ty] by (simp add: checked_right_shift_def c_shr_def return_c_exact [OF ok])
qed

text \<open>The bitwise operations stay in the range of the type.\<close>

lemma representable_bits:
  assumes "type_ok ty"
  shows "representable ty x \<longleftrightarrow> (if is_signed ty then signed_take_bit (width ty - 1) x = x else take_bit (width ty) x = x)"
  using assms by (auto simp: representable_def int_lowest_def int_max_def signed_take_bit_int_eq_self_iff take_bit_int_eq_self_iff)

lemma signed_take_bit_bitwise:
  "signed_take_bit n (a AND b) = signed_take_bit n a AND signed_take_bit n (b :: int)"
  "signed_take_bit n (a OR b) = signed_take_bit n a OR signed_take_bit n b"
  "signed_take_bit n (a XOR b) = signed_take_bit n a XOR signed_take_bit n b"
  by (simp_all add: bit_eq_iff bit_simps)

lemma checked_bitwise_exact:
  assumes ok: "type_ok ty" and r: "representable ty a" "representable ty b"
  shows "checked_and ty a b = Returned (a AND b)" and "checked_or ty a b = Returned (a OR b)"
    and "checked_xor ty a b = Returned (a XOR b)"
proof -
  have "representable ty (a AND b)" "representable ty (a OR b)" "representable ty (a XOR b)"
    using r by (auto simp: representable_bits [OF ok] take_bit_and take_bit_or take_bit_xor signed_take_bit_bitwise)
  then show "checked_and ty a b = Returned (a AND b)" "checked_or ty a b = Returned (a OR b)" "checked_xor ty a b = Returned (a XOR b)"
    by (simp_all add: checked_and_def checked_or_def checked_xor_def return_c_exact [OF ok])
qed

section \<open>Conversion\<close>

lemma int_max_mono:
  assumes "is_signed a = is_signed b" and "width a \<le> width b" and "type_ok a"
  shows "int_max a \<le> int_max b" and "int_lowest b \<le> int_lowest a"
proof -
  have "(2 :: int) ^ width a \<le> 2 ^ width b" "(2 :: int) ^ (width a - 1) \<le> 2 ^ (width b - 1)"
    using assms(2) by (auto intro: power_increasing)
  then show "int_max a \<le> int_max b" "int_lowest b \<le> int_lowest a"
    using assms(1) by (auto simp: int_max_def int_lowest_def simp del: power_increasing_iff)
qed

lemma unsigned_of: "int_max ty \<le> int_max (ty\<lparr>is_signed := False\<rparr>)"
proof -
  have "(2 :: int) ^ (width ty - 1) \<le> 2 ^ width ty" by (intro power_increasing) simp_all
  then show ?thesis by (simp add: int_max_def del: power_increasing_iff)
qed

lemma int_max_signed_wider:
  assumes "\<not> is_signed a" "is_signed b" "width a < width b"
  shows "int_max a \<le> int_max b"
proof -
  have "(2 :: int) ^ width a \<le> 2 ^ (width b - 1)" using assms(3) by (intro power_increasing) simp_all
  then show ?thesis using assms by (simp add: int_max_def del: power_increasing_iff)
qed

lemma int_max_signed_narrower:
  assumes "\<not> is_signed a" "is_signed b" "width b \<le> width a"
  shows "int_max b \<le> int_max a"
proof -
  have "(2 :: int) ^ (width b - 1) \<le> 2 ^ width a" using assms(3) by (intro power_increasing) simp_all
  then show ?thesis using assms by (simp add: int_max_def del: power_increasing_iff)
qed

lemma would_overflow_exact:
  assumes ok: "type_ok to" "type_ok from" and r: "representable from v"
  shows "would_overflow to from v = (\<not> representable to v)"
proof -
  note rv = representableD [OF r] and low = type_bounds [OF ok(1)] type_bounds [OF ok(2)]
  consider (widen) "is_signed from = is_signed to" "width from \<le> width to"
    | (narrow) "is_signed from = is_signed to" "width to \<le> width from" "\<not> width from \<le> width to"
    | (to_unsigned) "is_signed from" "\<not> is_signed to"
    | (wider) "\<not> is_signed from" "is_signed to" "width from < width to"
    | (other) "\<not> is_signed from" "is_signed to" "width to \<le> width from"
    by linarith
  then show ?thesis
  proof cases
    case widen
    with int_max_mono [OF widen ok(2)] rv have "representable to v" unfolding representable_def by linarith
    with widen show ?thesis by (simp add: would_overflow_def)
  next
    case narrow
    note mono = int_max_mono [OF narrow(1) [symmetric] narrow(2) ok(1)]
    have "representable from (int_lowest to)" "representable from (int_max to)"
      using mono low range_not_empty [OF ok(1)] unfolding representable_def by linarith+
    with narrow ok(2) show ?thesis by (auto simp: would_overflow_def representable_def)
  next
    case to_unsigned
    let ?u = "from\<lparr>is_signed := False\<rparr>"
    have "type_ok ?u" using ok(2) by (simp add: type_ok_def)
    moreover have "representable ?u v" if "0 \<le> v" using that rv unsigned_of [of "from"] by (simp add: representable_def int_lowest_def)
    ultimately show ?thesis using to_unsigned unsigned_lowest [OF to_unsigned(2)] by (auto simp: would_overflow_def representable_def)
  next
    case wider
    with rv low int_max_signed_wider [OF wider] unsigned_lowest [OF wider(1)] have "representable to v"
      unfolding representable_def by linarith
    with wider show ?thesis by (simp add: would_overflow_def)
  next
    case other
    have "representable from (int_max to)"
      using int_max_signed_narrower [OF other] low unsigned_lowest [OF other(1)] unfolding representable_def by linarith
    with other ok(2) rv low unsigned_lowest [OF other(1)] show ?thesis by (auto simp: would_overflow_def representable_def)
  qed
qed

lemma checked_cast_exact:
  assumes ok: "type_ok to" "type_ok from" and r: "representable from v"
  shows "checked_cast pol to from v = exact pol to Overflow Underflow v"
proof (cases "representable to v")
  case True
  with ok show ?thesis by (simp add: checked_cast_def would_overflow_exact [OF ok r])
next
  case False
  then have "to \<noteq> from" using r by auto
  moreover have "(is_signed from \<and> v < 0) = (v < int_lowest to)" "v < int_lowest to \<Longrightarrow> \<not> int_max to < v"
    using False representableD [OF r] type_bounds [OF ok(1)] range_not_empty [OF ok(1)] unsigned_lowest [of "from"]
    by (cases "is_signed from"; auto simp: representable_def)+
  ultimately show ?thesis
    using False by (auto simp: checked_cast_def would_overflow_exact [OF ok r] exact_def representable_def)
qed

section \<open>Pointers and vectors\<close>

lemma type_ok_uintptr [simp]: "type_ok uintptr"
  by (simp add: type_ok_def uintptr_def)

lemma range_uintptr: "int_lowest uintptr = 0" "int_max uintptr = 2 ^ 64 - 1"
  by (simp_all add: int_lowest_def int_max_def uintptr_def)

lemma ptr_up_exact:
  assumes "representable uintptr addr" "representable uintptr n" "representable uintptr elem"
  shows "ptr_up builtin pol elem addr n = exact pol uintptr Overflow Underflow (addr + n * elem)"
proof -
  have n: "0 \<le> n * elem" "0 \<le> addr" using assms by (simp_all add: representable_def range_uintptr)
  show ?thesis
  proof (cases "n * elem > int_max uintptr")
    case False
    with n have "representable uintptr (n * elem)" by (simp add: representable_def range_uintptr)
    then show ?thesis
      by (simp add: ptr_up_def checked_mul_exact assms then_outcome_def checked_add_exact)
  next
    case True
    have m: "representable uintptr (int_max uintptr)" by (simp add: representable_def range_uintptr)
    from True n have gt: "addr + n * elem > int_max uintptr" by linarith
    have s: "checked_add builtin pol uintptr addr (int_max uintptr) = Returned (int_max uintptr)"
      if "pol = SaturatingPolicy \<or> pol = InfTolerantPolicy"
      using that n unfolding checked_add_exact [OF type_ok_uintptr assms(1) m] by (auto simp: exact_def on_error_def range_uintptr)
    show ?thesis
      using True gt s by (cases pol) (simp_all add: ptr_up_def checked_mul_exact assms then_outcome_def exact_def on_error_def)
  qed
qed

lemma ptr_down_exact:
  assumes "representable uintptr addr" "representable uintptr n" "representable uintptr elem"
  shows "ptr_down builtin pol elem addr n = exact pol uintptr Overflow (if n * elem > int_max uintptr then Overflow else Underflow) (addr - n * elem)"
proof -
  have n: "0 \<le> n * elem" "0 \<le> addr" "addr \<le> int_max uintptr" using assms by (simp_all add: representable_def range_uintptr)
  show ?thesis
  proof (cases "n * elem > int_max uintptr")
    case False
    with n have "representable uintptr (n * elem)" by (simp add: representable_def range_uintptr)
    with False show ?thesis
      by (simp add: ptr_down_def checked_mul_exact assms then_outcome_def checked_sub_exact)
  next
    case True
    have m: "representable uintptr (int_max uintptr)" by (simp add: representable_def range_uintptr)
    from True n have lt: "addr - n * elem < int_lowest uintptr" "\<not> addr - n * elem > int_max uintptr" by (simp_all add: range_uintptr)
    have s: "checked_sub builtin pol uintptr addr (int_max uintptr) = Returned (int_lowest uintptr)"
      if "pol = SaturatingPolicy \<or> pol = InfTolerantPolicy"
      using that n unfolding checked_sub_exact [OF type_ok_uintptr assms(1) m] by (auto simp: exact_def on_error_def range_uintptr)
    show ?thesis
      using True lt s by (cases pol) (simp_all add: ptr_down_def checked_mul_exact assms then_outcome_def exact_def on_error_def)
  qed
qed

lemma then_outcome_Returned: "then_outcome r g = Returned z \<longleftrightarrow> (\<exists>x. r = Returned x \<and> g x = Returned z)"
  by (cases r) (simp_all add: then_outcome_def)

lemma vec_loop_Returned:
  "length xs = length ys \<Longrightarrow> vec_loop f xs ys = Returned rs \<longleftrightarrow>
    length rs = length xs \<and> (\<forall>i<length xs. f (xs ! i) (ys ! i) = Returned (rs ! i))"
proof (induction xs ys arbitrary: rs rule: list_induct2)
  case (Cons x xs y ys)
  show ?case
  proof (cases rs)
    case (Cons r rs')
    then show ?thesis by (simp add: then_outcome_Returned Cons.IH All_less_Suc2) blast
  qed (simp add: then_outcome_Returned)
qed auto

lemma vec_loop_stops:
  "\<lbrakk>length xs = length ys; i < length xs; f (xs ! i) (ys ! i) = r; \<forall>x. r \<noteq> Returned x; \<forall>j<i. \<exists>x. f (xs ! j) (ys ! j) = Returned x\<rbrakk>
    \<Longrightarrow> vec_loop f xs ys = (case r of Unexpected e \<Rightarrow> Unexpected e | Thrown \<Rightarrow> Thrown | _ \<Rightarrow> Undefined)"
proof (induction xs ys arbitrary: i rule: list_induct2)
  case (Cons x xs y ys)
  show ?case
  proof (cases i)
    case 0
    with Cons.prems(2,3) show ?thesis by (cases r) (simp_all add: then_outcome_def)
  next
    case (Suc j)
    then obtain z where "f x y = Returned z" using Cons.prems(4) by force
    moreover have "vec_loop f xs ys = (case r of Unexpected e \<Rightarrow> Unexpected e | Thrown \<Rightarrow> Thrown | _ \<Rightarrow> Undefined)"
      by (rule Cons.IH [of j]) (use Cons.prems Suc in auto)
    ultimately show ?thesis using Cons.prems(3) by (cases r) (simp_all add: then_outcome_def)
  qed
qed simp

text \<open>An operation on two vectors of different lengths is an error; on vectors of one length it
  returns the vector of the element results when all elements have one, and otherwise the error of
  the first element that has none.\<close>

lemma checked_vectors:
  "(length xs \<noteq> length ys \<longrightarrow> checked_vec pol f xs ys = on_error pol InvalidArgument [])
    \<and> (length xs = length ys \<longrightarrow>
        (checked_vec pol f xs ys = Returned rs) = (length rs = length xs \<and> (\<forall>i<length xs. f (xs ! i) (ys ! i) = Returned (rs ! i))))
    \<and> (length xs = length ys \<longrightarrow> (\<forall>i<length xs. \<forall>e. f (xs ! i) (ys ! i) = Unexpected e \<longrightarrow>
        (\<forall>j<i. \<exists>x. f (xs ! j) (ys ! j) = Returned x) \<longrightarrow> checked_vec pol f xs ys = Unexpected e))"
  using vec_loop_Returned [of xs ys f rs] vec_loop_stops [of xs ys _ f "Unexpected _"] by (auto simp: checked_vec_def)

section \<open>Compile-time assertions\<close>

lemma static_add_exact:
  assumes ok: "type_ok ty" and r: "representable ty a" "representable ty b"
  shows "static_add_ok ty a b = Some (representable ty (a + b))"
proof -
  note b = type_bounds [OF ok] and ra = representableD [OF r(1)] and rb = representableD [OF r(2)]
  have up: "c_eval ty (int_max ty - b) = Some (int_max ty - b)" if "0 \<le> b"
    using that b rb by (intro c_eval_exact ok representableI) linarith+
  have down: "c_eval ty (int_lowest ty - b) = Some (int_lowest ty - b)" if "b < 0"
    using that b rb by (intro c_eval_exact ok representableI) linarith+
  show ?thesis using ra rb b up down by (cases "0 \<le> b") (auto simp: static_add_ok_def representable_def)
qed

lemma static_sub_exact:
  assumes ok: "type_ok ty" and r: "representable ty a" "representable ty b"
  shows "static_sub_ok ty a b = Some (representable ty (a - b))"
proof -
  note b = type_bounds [OF ok] and ra = representableD [OF r(1)] and rb = representableD [OF r(2)]
  have up: "c_eval ty (int_lowest ty + b) = Some (int_lowest ty + b)" if "0 \<le> b"
    using that b rb by (intro c_eval_exact ok representableI) linarith+
  have down: "c_eval ty (int_max ty + b) = Some (int_max ty + b)" if "b < 0"
    using that b rb signed_range [of ty] unsigned_lowest [of ty]
    by (intro c_eval_exact ok representableI) (cases "is_signed ty"; linarith)+
  show ?thesis using ra rb b up down by (cases "0 \<le> b") (auto simp: static_sub_ok_def representable_def)
qed

text \<open>The assertion of the multiplication is the negated test of \<open>checked_mul\<close>, case by case.\<close>

lemma static_mul_exact:
  assumes ok: "type_ok ty" and r: "representable ty a" "representable ty b"
  shows "static_mul_ok ty a b = Some (representable ty (a * b))"
proof (cases "a = 0 \<or> b = 0")
  case True
  with type_bounds [OF ok] show ?thesis by (auto simp: static_mul_ok_def c_or_def representable_def)
next
  case False
  then have nz: "a \<noteq> 0" "b \<noteq> 0" by auto
  note m = mul_overflow_exact [OF ok r nz]
  have "static_mul_ok ty a b = map_option Not (mul_overflow ty a b)"
  proof (cases "is_signed ty")
    case True
    consider (pp) "0 < a" "0 < b" | (nn) "a < 0" "b < 0" | (pn) "0 < a" "b < 0" | (np) "a < 0" "0 < b" using nz by linarith
    then show ?thesis
      by cases (use True nz in \<open>auto simp: static_mul_ok_def mul_overflow_def c_or_def c_and_def max_div_pos [OF ok]
        max_div_neg [OF ok True] lowest_div_pos [OF ok True]\<close>)
  next
    case False
    have "0 < b" using nz(2) representableD [OF r(2)] unsigned_lowest [OF False] by simp
    with False nz show ?thesis by (auto simp: static_mul_ok_def mul_overflow_def c_or_def max_div_pos [OF ok])
  qed
  with m show ?thesis by simp
qed

lemma static_div_exact:
  assumes ok: "type_ok ty" and r: "representable ty a" "representable ty b"
  shows "static_div_ok ty a b \<longleftrightarrow> b \<noteq> 0 \<and> representable ty (a sdiv b)"
proof (cases "is_signed ty \<and> a = int_lowest ty \<and> b = -1")
  case True
  with signed_range [of ty] show ?thesis by (auto simp: static_div_ok_def representable_def)
next
  case False
  with representable_sdiv [OF ok r _ False] show ?thesis by (auto simp: static_div_ok_def)
qed

section \<open>Statements about the program\<close>





text \<open>Checked pointer arithmetic by \<open>offset\<close> elements returns the address \<open>offset\<close> elements away
  when it lies in the address space and reports an error otherwise, in both directions; the offset
  \<open>PTRDIFF_MIN\<close> is always an error.  The saturating policies stop at the ends of the address space, except
  that \<open>PTRDIFF_MIN\<close> gives a null pointer, also where the pointer should move up.\<close>

theorem checked_pointer_arithmetic:
  assumes "representable uintptr addr" and "representable uintptr elem" and "representable ptrdiff offset"
  shows "checked_add_ptr builtin pol elem addr offset =
      (if offset = int_lowest ptrdiff then on_error pol Overflow 0
       else exact pol uintptr Overflow (if - offset * elem > int_max uintptr then Overflow else Underflow) (addr + offset * elem))
    \<and> checked_sub_ptr builtin pol elem addr offset =
      (if offset = int_lowest ptrdiff then on_error pol Overflow 0
       else exact pol uintptr Overflow (if offset * elem > int_max uintptr then Overflow else Underflow) (addr - offset * elem))"
proof -
  have le: "int_lowest ptrdiff \<le> offset" "offset \<le> int_max ptrdiff" "int_max ptrdiff = 2 ^ 63 - 1" "int_lowest ptrdiff = - (2 ^ 63)"
    using assms(3) by (simp_all add: representable_def ptrdiff_def int_max_def int_lowest_def)
  have pos: "exact pol uintptr Overflow e (addr + n * elem) = exact pol uintptr Overflow Underflow (addr + n * elem)" if "0 \<le> n" for n e
  proof -
    have "0 \<le> addr + n * elem" using that assms(1,2) by (simp add: representable_def range_uintptr)
    then show ?thesis by (simp add: exact_def range_uintptr)
  qed
  consider "0 \<le> offset" | "offset < 0" "offset \<noteq> int_lowest ptrdiff" | "offset = int_lowest ptrdiff" by linarith
  then show ?thesis
  proof cases
    case 1
    then have n: "representable uintptr offset" "offset \<noteq> int_lowest ptrdiff" using le by (simp_all add: representable_def range_uintptr)
    show ?thesis using 1 n(2) pos [OF 1, of Overflow]
      by (simp add: checked_add_ptr_def checked_sub_ptr_def ptr_up_exact [OF assms(1) n(1) assms(2)] ptr_down_exact [OF assms(1) n(1) assms(2)])
  next
    case 2
    then have n: "representable uintptr (- offset)" using le by (simp add: representable_def range_uintptr)
    have "0 \<le> - offset" using 2 by simp
    from pos [OF this, of Overflow] 2 show ?thesis
      using ptr_up_exact [OF assms(1) n assms(2), of builtin pol] ptr_down_exact [OF assms(1) n assms(2), of builtin pol]
      by (simp add: checked_add_ptr_def checked_sub_ptr_def)
  next
    case 3
    with le show ?thesis by (simp add: checked_add_ptr_def checked_sub_ptr_def)
  qed
qed

theorem checked_pointer_arithmetic_witness:
  "checked_add_ptr True ReturnExpectedPolicy 8 16 (-3) = Unexpected Underflow"
proof -
  have "representable uintptr 16" "representable uintptr 8" "representable ptrdiff (-3)"
    by (simp_all add: representable_def uintptr_def ptrdiff_def int_lowest_def int_max_def)
  from checked_pointer_arithmetic [OF this, of True ReturnExpectedPolicy] show ?thesis
    by (simp add: exact_def on_error_def uintptr_def ptrdiff_def int_max_def int_lowest_def)
qed

end
