(* ===== verification/Interfaces.thy ===== *)
theory Interfaces
  imports FatP_Prelude
begin

text \<open>
  The contracts that several components promise, as locales.  A component interprets the locale
  on its own operations in its own theory; the lemmas here are then available for it.

  \<^item> \<open>handle_store\<close>: a container that issues a fresh handle for each element it takes in.
  \<^item> \<open>unique_map\<close> and its extension \<open>assign_map\<close>: an associative container.
  \<^item> \<open>bounded_fifo\<close>: a queue of bounded capacity.
  \<^item> \<open>prefix_codec\<close>: an encoder and a decoder that reads an encoding off the front of a buffer.
  \<^item> \<open>lock_free_calls\<close>: calls of one thread among others, that can only be held up by the progress of others.
  \<^item> \<open>step_refinement\<close>: operations that may not return, against a specification that allows several outcomes.
\<close>

section \<open>Handle stores\<close>

text \<open>
  \<open>room n s\<close>: the store has room for \<open>n\<close> further elements.
\<close>

locale handle_store =
  fixes invar :: "'s \<Rightarrow> bool"
    and room :: "nat \<Rightarrow> 's \<Rightarrow> bool"
    and lookup :: "'s \<Rightarrow> 'h \<Rightarrow> 'v option"
    and put :: "'s \<Rightarrow> 'v \<Rightarrow> 's \<times> 'h"
    and remove :: "'s \<Rightarrow> 'h \<Rightarrow> 's"
  assumes put_invar: "\<lbrakk>invar s; room (Suc n) s; put s v = (s', h)\<rbrakk> \<Longrightarrow> invar s' \<and> room n s'"
    and put_fresh: "\<lbrakk>invar s; room (Suc n) s; put s v = (s', h)\<rbrakk> \<Longrightarrow> lookup s h = None"
    and put_lookup: "\<lbrakk>invar s; room (Suc n) s; put s v = (s', h)\<rbrakk> \<Longrightarrow> lookup s' = (lookup s)(h \<mapsto> v)"
    and remove_invar: "\<lbrakk>invar s; lookup s h \<noteq> None\<rbrakk> \<Longrightarrow> invar (remove s h)"
    and remove_lookup: "\<lbrakk>invar s; lookup s h \<noteq> None\<rbrakk> \<Longrightarrow> lookup (remove s h) = (lookup s)(h := None)"
begin

fun put_all :: "'s \<Rightarrow> 'v list \<Rightarrow> 's \<times> 'h list" where
  "put_all s [] = (s, [])"
| "put_all s (v # vs) = (let (s1, h) = put s v; (s2, hs) = put_all s1 vs in (s2, h # hs))"

lemma put_remove:
  assumes "invar s" and "room (Suc n) s" and "put s v = (s', h)"
  shows "lookup (remove s' h) = lookup s"
proof -
  note r = put_invar [OF assms] put_fresh [OF assms] put_lookup [OF assms]
  then have "lookup (remove s' h) = (lookup s')(h := None)" by (intro remove_lookup) simp_all
  with r show ?thesis by (simp add: fun_upd_idem)
qed

text \<open>
  Storing a list of values: the handles are distinct, none was in use before, each leads to its
  value, and nothing else changes.
\<close>

lemma put_all_spec:
  "\<lbrakk>invar s; room (length vs) s; put_all s vs = (s', hs)\<rbrakk> \<Longrightarrow>
   invar s' \<and> length hs = length vs \<and> distinct hs \<and> (\<forall>h\<in>set hs. lookup s h = None)
   \<and> lookup s' = lookup s ++ map_of (zip hs vs)"
proof (induction vs arbitrary: s s' hs)
  case Nil
  then show ?case by simp
next
  case (Cons v vs)
  obtain s1 h where p: "put s v = (s1, h)" by fastforce
  obtain s2 hs' where q: "put_all s1 vs = (s2, hs')" by fastforce
  have eq: "s' = s2" "hs = h # hs'" using Cons.prems(3) p q by simp_all
  have rm: "room (Suc (length vs)) s" using Cons.prems(2) by simp
  note i = put_invar [OF Cons.prems(1) rm p] and f = put_fresh [OF Cons.prems(1) rm p]
    and l = put_lookup [OF Cons.prems(1) rm p]
  from Cons.IH [OF conjunct1 [OF i] conjunct2 [OF i] q]
  have IH: "invar s2" "length hs' = length vs" "distinct hs'" "\<forall>k\<in>set hs'. lookup s1 k = None"
    "lookup s2 = lookup s1 ++ map_of (zip hs' vs)" by blast+
  have h: "h \<notin> set hs'" using IH(4) l by auto
  have old: "\<forall>k\<in>set hs'. lookup s k = None" using IH(4) l h by (metis fun_upd_apply)
  have n: "map_of (zip hs' vs) h = None" using h IH(2) by (simp add: map_of_zip_is_None)
  have "lookup s2 = (lookup s)(h \<mapsto> v) ++ map_of (zip hs' vs)" by (simp add: IH(5) l)
  also have "\<dots> = (lookup s ++ map_of (zip hs' vs))(h \<mapsto> v)"
    using n by (simp add: map_add_upd_left dom_def)
  also have "\<dots> = lookup s ++ map_of (zip (h # hs') (v # vs))" by simp
  finally have m: "lookup s2 = lookup s ++ map_of (zip (h # hs') (v # vs))" .
  show ?case unfolding eq m by (intro conjI refl) (use IH(1-3) old f h in simp_all)
qed

end

section \<open>Dictionaries\<close>

text \<open>
  The contract of the associative containers: \<open>insert\<close> takes a key that is not there yet and
  says whether it did, \<open>erase\<close> says whether there was something to erase.  \<open>fits k\<close> bounds the
  keys for which the container can grow; containers that take every key use \<open>\<lambda>_. True\<close>.
\<close>

locale unique_map =
  fixes invar :: "'m \<Rightarrow> bool"
    and fits :: "'k \<Rightarrow> bool"
    and lookup :: "'m \<Rightarrow> 'k \<Rightarrow> 'v option"
    and insert_new :: "'m \<Rightarrow> 'k \<Rightarrow> 'v \<Rightarrow> 'm \<times> bool"
    and erase :: "'m \<Rightarrow> 'k \<Rightarrow> 'm \<times> bool"
    and count :: "'m \<Rightarrow> nat"
  assumes insert_invar: "\<lbrakk>invar m; fits k; insert_new m k v = (m', b)\<rbrakk> \<Longrightarrow> invar m'"
    and insert_lookup: "\<lbrakk>invar m; fits k; insert_new m k v = (m', b)\<rbrakk> \<Longrightarrow>
      b = (lookup m k = None) \<and> lookup m' = (if b then (lookup m)(k \<mapsto> v) else lookup m)"
    and erase_invar: "\<lbrakk>invar m; erase m k = (m', b)\<rbrakk> \<Longrightarrow> invar m'"
    and erase_lookup: "\<lbrakk>invar m; erase m k = (m', b)\<rbrakk> \<Longrightarrow>
      b = (lookup m k \<noteq> None) \<and> lookup m' = (lookup m)(k := None)"
    and count_dom: "invar m \<Longrightarrow> finite (dom (lookup m)) \<and> count m = card (dom (lookup m))"
begin

fun insert_all :: "'m \<Rightarrow> ('k \<times> 'v) list \<Rightarrow> 'm" where
  "insert_all m [] = m"
| "insert_all m (p # ps) = insert_all (fst (insert_new m (fst p) (snd p))) ps"

fun erase_all :: "'m \<Rightarrow> 'k list \<Rightarrow> 'm" where
  "erase_all m [] = m"
| "erase_all m (k # ks) = erase_all (fst (erase m k)) ks"

text \<open>The first value inserted under a key stays.\<close>

lemma insert_all_lookup:
  "\<lbrakk>invar m; \<forall>p\<in>set ps. fits (fst p)\<rbrakk> \<Longrightarrow>
   invar (insert_all m ps) \<and> lookup (insert_all m ps) = map_of ps ++ lookup m"
proof (induction ps arbitrary: m)
  case Nil
  then show ?case by simp
next
  case (Cons p ps)
  obtain m1 b where i: "insert_new m (fst p) (snd p) = (m1, b)" by fastforce
  have fits: "fits (fst p)" "\<forall>p\<in>set ps. fits (fst p)" using Cons.prems(2) by simp_all
  note r = insert_invar [OF Cons.prems(1) fits(1) i] insert_lookup [OF Cons.prems(1) fits(1) i]
  have eq: "map_of ps ++ lookup m1 = map_of (p # ps) ++ lookup m"
    using r(2) by (auto simp: map_add_def fun_eq_iff split: option.splits)
  show ?case using Cons.IH [OF r(1) fits(2)] unfolding insert_all.simps i fst_conv eq .
qed

lemma erase_all_lookup:
  "invar m \<Longrightarrow> invar (erase_all m ks) \<and> lookup (erase_all m ks) = lookup m |` (- set ks)"
proof (induction ks arbitrary: m)
  case Nil
  then show ?case by simp
next
  case (Cons k ks)
  obtain m1 b where e: "erase m k = (m1, b)" by fastforce
  note r = erase_invar [OF Cons.prems e] erase_lookup [OF Cons.prems e]
  have eq: "lookup m1 |` (- set ks) = lookup m |` (- set (k # ks))"
    using r(2) by (auto simp: restrict_map_def fun_eq_iff)
  show ?case using Cons.IH [OF r(1)] unfolding erase_all.simps e fst_conv eq .
qed

text \<open>Erasing what was inserted gives back the old contents.\<close>

lemma insert_erase:
  assumes "invar m" and "fits k" and "lookup m k = None"
  shows "lookup (fst (erase (fst (insert_new m k v)) k)) = lookup m"
proof -
  obtain m1 b where i: "insert_new m k v = (m1, b)" by fastforce
  obtain m2 c where e: "erase m1 k = (m2, c)" by fastforce
  note r = insert_lookup [OF assms(1,2) i] erase_lookup [OF insert_invar [OF assms(1,2) i] e]
  with assms(3) show ?thesis by (simp add: i e fun_upd_idem)
qed

text \<open>How the number of elements changes.\<close>

lemma insert_count:
  assumes "invar m" and "fits k" and "insert_new m k v = (m', b)"
  shows "count m' = (if b then Suc (count m) else count m)"
proof -
  note r = insert_lookup [OF assms] and c = count_dom [OF assms(1)]
    and c' = count_dom [OF insert_invar [OF assms]]
  show ?thesis
  proof (cases b)
    case True
    with r have "dom (lookup m') = insert k (dom (lookup m))" "k \<notin> dom (lookup m)"
      by (simp_all add: domIff)
    with c c' True show ?thesis by simp
  next
    case False
    with r c c' show ?thesis by simp
  qed
qed

lemma erase_count:
  assumes "invar m" and "erase m k = (m', b)"
  shows "count m = (if b then Suc (count m') else count m')"
proof -
  have b: "b = (lookup m k \<noteq> None)" and m': "lookup m' = (lookup m)(k := None)"
    using erase_lookup [OF assms] by blast+
  have c: "finite (dom (lookup m))" "count m = card (dom (lookup m))"
    using count_dom [OF assms(1)] by blast+
  have "count m' = card (dom (lookup m'))" using count_dom [OF erase_invar [OF assms]] by blast
  then have c': "count m' = card (dom (lookup m) - {k})" unfolding m' by simp
  show ?thesis
  proof (cases b)
    case True
    then have "k \<in> dom (lookup m)" unfolding b domIff .
    then show ?thesis unfolding c c' using card.remove [OF c(1)] True by simp
  next
    case False
    then have "k \<notin> dom (lookup m)" unfolding b domIff .
    then show ?thesis unfolding c c' using False by simp
  qed
qed

text \<open>The count after a batch of insertions into an empty container.\<close>

lemma insert_all_count:
  assumes "invar m" and "\<forall>p\<in>set ps. fits (fst p)" and "lookup m = Map.empty"
  shows "count (insert_all m ps) = card (fst ` set ps)"
  using insert_all_lookup [OF assms(1,2)] count_dom [of "insert_all m ps"] assms(3)
  by (simp add: dom_map_of_conv_image_fst)

end

text \<open>A container that can also overwrite the value of a key.\<close>

locale assign_map = unique_map invar fits lookup insert_new erase count
  for invar :: "'m \<Rightarrow> bool" and fits :: "'k \<Rightarrow> bool" and lookup :: "'m \<Rightarrow> 'k \<Rightarrow> 'v option"
    and insert_new :: "'m \<Rightarrow> 'k \<Rightarrow> 'v \<Rightarrow> 'm \<times> bool" and erase :: "'m \<Rightarrow> 'k \<Rightarrow> 'm \<times> bool"
    and count :: "'m \<Rightarrow> nat" +
  fixes assign :: "'m \<Rightarrow> 'k \<Rightarrow> 'v \<Rightarrow> 'm \<times> bool"
  assumes assign_invar: "\<lbrakk>invar m; fits k; assign m k v = (m', b)\<rbrakk> \<Longrightarrow> invar m'"
    and assign_lookup: "\<lbrakk>invar m; fits k; assign m k v = (m', b)\<rbrakk> \<Longrightarrow>
      b = (lookup m k = None) \<and> lookup m' = (lookup m)(k \<mapsto> v)"
begin

fun assign_all :: "'m \<Rightarrow> ('k \<times> 'v) list \<Rightarrow> 'm" where
  "assign_all m [] = m"
| "assign_all m (p # ps) = assign_all (fst (assign m (fst p) (snd p))) ps"

text \<open>The last value assigned to a key stays.\<close>

lemma assign_all_lookup:
  "\<lbrakk>invar m; \<forall>p\<in>set ps. fits (fst p)\<rbrakk> \<Longrightarrow>
   invar (assign_all m ps) \<and> lookup (assign_all m ps) = lookup m ++ map_of (rev ps)"
proof (induction ps arbitrary: m)
  case Nil
  then show ?case by simp
next
  case (Cons p ps)
  obtain m1 b where a: "assign m (fst p) (snd p) = (m1, b)" by fastforce
  have fits: "fits (fst p)" "\<forall>p\<in>set ps. fits (fst p)" using Cons.prems(2) by simp_all
  note r = assign_invar [OF Cons.prems(1) fits(1) a] assign_lookup [OF Cons.prems(1) fits(1) a]
  have eq: "lookup m1 ++ map_of (rev ps) = lookup m ++ map_of (rev (p # ps))"
    using r(2) by (auto simp: map_add_def fun_eq_iff split: option.splits)
  show ?case using Cons.IH [OF r(1) fits(2)] unfolding assign_all.simps a fst_conv eq .
qed

text \<open>Inserting is assigning when the key is new.\<close>

lemma insert_is_assign:
  assumes "invar m" and "fits k" and "lookup m k = None"
  shows "lookup (fst (insert_new m k v)) = lookup (fst (assign m k v))"
proof -
  obtain m1 b where i: "insert_new m k v = (m1, b)" by fastforce
  obtain m2 c where a: "assign m k v = (m2, c)" by fastforce
  show ?thesis
    using insert_lookup [OF assms(1,2) i] assign_lookup [OF assms(1,2) a] assms(3) by (simp add: i a)
qed

end

section \<open>Bounded queues\<close>

text \<open>\<open>enq\<close> and \<open>deq\<close> report failure by \<open>None\<close>, on a full and on an empty queue.\<close>

locale bounded_fifo =
  fixes invar :: "'q \<Rightarrow> bool"
    and contents :: "'q \<Rightarrow> 'a list"
    and capacity :: "'q \<Rightarrow> nat"
    and enq :: "'q \<Rightarrow> 'a \<Rightarrow> 'q option"
    and deq :: "'q \<Rightarrow> ('a \<times> 'q) option"
  assumes enq_full: "invar q \<Longrightarrow> enq q x = None \<longleftrightarrow> capacity q \<le> length (contents q)"
    and enq_contents: "\<lbrakk>invar q; enq q x = Some q'\<rbrakk> \<Longrightarrow>
      invar q' \<and> capacity q' = capacity q \<and> contents q' = contents q @ [x]"
    and deq_empty: "invar q \<Longrightarrow> deq q = None \<longleftrightarrow> contents q = []"
    and deq_contents: "\<lbrakk>invar q; deq q = Some (x, q')\<rbrakk> \<Longrightarrow>
      invar q' \<and> capacity q' = capacity q \<and> contents q = x # contents q'"
begin

fun enq_all :: "'q \<Rightarrow> 'a list \<Rightarrow> 'q option" where
  "enq_all q [] = Some q"
| "enq_all q (x # xs) = (case enq q x of None \<Rightarrow> None | Some q' \<Rightarrow> enq_all q' xs)"

fun deq_n :: "nat \<Rightarrow> 'q \<Rightarrow> ('a list \<times> 'q) option" where
  "deq_n 0 q = Some ([], q)"
| "deq_n (Suc n) q = (case deq q of None \<Rightarrow> None
     | Some (x, q') \<Rightarrow> (case deq_n n q' of None \<Rightarrow> None | Some (xs, q'') \<Rightarrow> Some (x # xs, q'')))"

lemma enq_all_contents:
  "\<lbrakk>invar q; length (contents q) + length xs \<le> capacity q\<rbrakk> \<Longrightarrow>
   \<exists>q'. enq_all q xs = Some q' \<and> invar q' \<and> capacity q' = capacity q \<and> contents q' = contents q @ xs"
proof (induction xs arbitrary: q)
  case Nil
  then show ?case by simp
next
  case (Cons x xs)
  then have "enq q x \<noteq> None" by (simp add: enq_full)
  then obtain q1 where q1: "enq q x = Some q1" by blast
  note e = enq_contents [OF Cons.prems(1) q1]
  from Cons.IH [of q1] e Cons.prems(2) q1 show ?case by auto
qed

lemma deq_n_contents:
  "\<lbrakk>invar q; n \<le> length (contents q)\<rbrakk> \<Longrightarrow>
   \<exists>q'. deq_n n q = Some (take n (contents q), q') \<and> invar q' \<and> contents q' = drop n (contents q)"
proof (induction n arbitrary: q)
  case 0
  then show ?case by simp
next
  case (Suc n)
  then have "deq q \<noteq> None" by (auto simp: deq_empty)
  then obtain x q1 where q1: "deq q = Some (x, q1)" by auto
  note d = deq_contents [OF Suc.prems(1) q1]
  from Suc.IH [of q1] d Suc.prems(2) q1 show ?case by auto
qed

text \<open>First in, first out: what is put in comes out in the same order.\<close>

lemma fifo:
  assumes "invar q" and "contents q = []" and "length xs \<le> capacity q"
  shows "\<exists>q1 q2. enq_all q xs = Some q1 \<and> deq_n (length xs) q1 = Some (xs, q2) \<and> contents q2 = []"
proof -
  obtain q1 where q1: "enq_all q xs = Some q1" "invar q1" "contents q1 = xs"
    using enq_all_contents [OF assms(1), of xs] assms(2,3) by auto
  with deq_n_contents [OF q1(2), of "length xs"] show ?thesis by auto
qed

end

section \<open>Codecs\<close>

text \<open>
  \<open>dec buf pos\<close> decodes at position \<open>pos\<close> of the buffer and returns the value with the
  position after it.  The law speaks of an encoding anywhere inside a buffer.
\<close>

locale prefix_codec =
  fixes ok :: "'v \<Rightarrow> bool"
    and enc :: "'v \<Rightarrow> 'b list"
    and dec :: "'b list \<Rightarrow> nat \<Rightarrow> 'e + ('v \<times> nat)"
    and limit :: nat
  assumes decode: "\<lbrakk>ok v; length (pre @ enc v @ post) < limit\<rbrakk> \<Longrightarrow>
    dec (pre @ enc v @ post) (length pre) = Inr (v, length pre + length (enc v))"
begin

fun dec_n :: "nat \<Rightarrow> 'b list \<Rightarrow> nat \<Rightarrow> 'e + ('v list \<times> nat)" where
  "dec_n 0 buf pos = Inr ([], pos)"
| "dec_n (Suc n) buf pos = (case dec buf pos of Inl e \<Rightarrow> Inl e
     | Inr (v, pos') \<Rightarrow> (case dec_n n buf pos' of Inl e \<Rightarrow> Inl e | Inr (vs, p) \<Rightarrow> Inr (v # vs, p)))"

lemma decode_all:
  "\<lbrakk>\<forall>v\<in>set vs. ok v; length (pre @ concat (map enc vs) @ post) < limit\<rbrakk> \<Longrightarrow>
   dec_n (length vs) (pre @ concat (map enc vs) @ post) (length pre)
   = Inr (vs, length pre + length (concat (map enc vs)))"
proof (induction vs arbitrary: pre)
  case Nil
  then show ?case by simp
next
  case (Cons v vs)
  have "dec (pre @ concat (map enc (v # vs)) @ post) (length pre) = Inr (v, length (pre @ enc v))"
    using decode [of v pre "concat (map enc vs) @ post"] Cons.prems by simp
  moreover have "dec_n (length vs) (pre @ concat (map enc (v # vs)) @ post) (length (pre @ enc v))
      = Inr (vs, length (pre @ enc v) + length (concat (map enc vs)))"
    using Cons.IH [of "pre @ enc v"] Cons.prems by simp
  ultimately show ?case by simp
qed

text \<open>Different values never have the same encoding, nor is one a proper prefix of another.\<close>

lemma prefix_free:
  assumes "ok v" and "ok w" and "enc v @ p = enc w @ q" and "length (enc v @ p) < limit"
  shows "v = w \<and> p = q"
proof -
  have "dec (enc v @ p) 0 = Inr (v, length (enc v))" using decode [of v "[]" p] assms by simp
  moreover have "dec (enc w @ q) 0 = Inr (w, length (enc w))"
    using decode [of w "[]" q] assms(2) assms(4) [unfolded assms(3)] by simp
  ultimately have "v = w" using assms(3) by simp
  with assms(3) show ?thesis by simp
qed

end

section \<open>Refinement by steps\<close>

text \<open>
  A sequence of operations: \<open>exec\<close> runs one, and \<^const>\<open>None\<close> is an operation that does not
  return.  The specification is a relation, for an operation that may fail for a reason the
  abstract state does not show.
\<close>

primrec exec_all :: "('x \<Rightarrow> 's \<Rightarrow> ('s \<times> 'r) option) \<Rightarrow> 'x list \<Rightarrow> 's \<Rightarrow> ('s \<times> 'r list) option" where
  "exec_all exec [] s = Some (s, [])"
| "exec_all exec (x # xs) s = (case exec x s of None \<Rightarrow> None
     | Some (s1, r) \<Rightarrow> (case exec_all exec xs s1 of None \<Rightarrow> None | Some (s2, rs) \<Rightarrow> Some (s2, r # rs)))"

primrec allows_all :: "('x \<Rightarrow> 'a \<Rightarrow> 'a \<times> 'r \<Rightarrow> bool) \<Rightarrow> 'x list \<Rightarrow> 'a \<Rightarrow> 'a \<times> 'r list \<Rightarrow> bool" where
  "allows_all allows [] a p \<longleftrightarrow> p = (a, [])"
| "allows_all allows (x # xs) a p \<longleftrightarrow>
     (\<exists>a1 r rs. allows x a (a1, r) \<and> snd p = r # rs \<and> allows_all allows xs a1 (fst p, rs))"

locale step_refinement =
  fixes rep :: "'s \<Rightarrow> 'a \<Rightarrow> bool"
    and exec :: "'x \<Rightarrow> 's \<Rightarrow> ('s \<times> 'r) option"
    and allows :: "'x \<Rightarrow> 'a \<Rightarrow> 'a \<times> 'r \<Rightarrow> bool"
    and fits :: "'x \<Rightarrow> bool"
  assumes step: "\<lbrakk>rep s a; fits x\<rbrakk> \<Longrightarrow> \<exists>s' a' r. exec x s = Some (s', r) \<and> allows x a (a', r) \<and> rep s' a'"
begin

lemma run_refines:
  "\<lbrakk>rep s a; \<forall>x\<in>set xs. fits x\<rbrakk> \<Longrightarrow>
    \<exists>s' a' rs. exec_all exec xs s = Some (s', rs) \<and> allows_all allows xs a (a', rs) \<and> rep s' a'"
proof (induction xs arbitrary: s a)
  case Nil
  then show ?case by auto
next
  case (Cons x xs)
  obtain s1 a1 r where one: "exec x s = Some (s1, r)" "allows x a (a1, r)" "rep s1 a1"
    using step [OF Cons.prems(1), of x] Cons.prems(2) by auto
  obtain s' a' rs where rest: "exec_all exec xs s1 = Some (s', rs)" "allows_all allows xs a1 (a', rs)" "rep s' a'"
    using Cons.IH [OF one(3)] Cons.prems(2) by auto
  show ?case
    using one rest by (intro exI [of _ s'] exI [of _ a'] exI [of _ "r # rs"]) auto
qed

end

section \<open>Calls of one thread among others\<close>

text \<open>
  \<open>inside s\<close>: the thread is inside a call; \<open>returned s\<close>: a call of it has just returned.  \<open>own\<close> are its own steps and \<open>other\<close> those of the other
  threads.  \<open>left s\<close> bounds the steps it still needs when nobody interferes; \<open>won s\<close> counts the
  successes of all threads, each of which costs the thread at most \<open>k\<close> steps.
\<close>

locale lock_free_calls =
  fixes act :: "'s \<Rightarrow> 'a \<Rightarrow> 's"
    and fine :: "'s \<Rightarrow> bool"
    and own :: "'a \<Rightarrow> bool"
    and other :: "'a \<Rightarrow> bool"
    and inside :: "'s \<Rightarrow> bool"
    and returned :: "'s \<Rightarrow> bool"
    and left :: "'s \<Rightarrow> nat"
    and won :: "'s \<Rightarrow> nat"
    and k :: nat
  assumes inside_left: "\<lbrakk>fine s; inside s\<rbrakk> \<Longrightarrow> 0 < left s"
    and own_left: "\<lbrakk>fine s; inside s; own a; inside (act s a)\<rbrakk> \<Longrightarrow> left (act s a) < left s \<and> won s \<le> won (act s a)"
    and own_returns: "\<lbrakk>fine s; inside s; own a; \<not> inside (act s a)\<rbrakk> \<Longrightarrow> returned (act s a)"
    and other_left: "\<lbrakk>fine s; inside s; other a\<rbrakk> \<Longrightarrow>
      inside (act s a) \<and> won s \<le> won (act s a) \<and> left (act s a) + k * won s \<le> left s + k * won (act s a)"
begin

lemma call_ends:
  assumes "\<And>n. n \<le> length as \<Longrightarrow> fine (foldl act s (take n as))" and "\<forall>a\<in>set as. own a \<or> other a"
    and enough: "left s + k * (won (foldl act s as) - won s) \<le> length (List.filter own as)"
  shows "\<exists>n\<le>length as. \<not> inside (foldl act s (take n as))"
proof (rule ccontr)
  assume "\<not> ?thesis"
  then have "\<And>n. n \<le> length as \<Longrightarrow> inside (foldl act s (take n as))" by blast
  with assms(1,2) have "length (List.filter own as) + left (foldl act s as) + k * won s \<le> left s + k * won (foldl act s as)
    \<and> won s \<le> won (foldl act s as) \<and> 0 < left (foldl act s as)"
  proof (induction as arbitrary: s)
    case Nil
    then show ?case using inside_left [of s] by simp
  next
    case (Cons a as)
    have f: "fine s" "inside s" using Cons.prems(1,3) [of 0] by simp_all
    have p: "fine (foldl act (act s a) (take n as))" "inside (foldl act (act s a) (take n as))" if "n \<le> length as" for n
      using Cons.prems(1,3) [of "Suc n"] that by simp_all
    have i: "inside (act s a)" using p(2) [of 0] by simp
    have IH: "length (List.filter own as) + left (foldl act (act s a) as) + k * won (act s a)
        \<le> left (act s a) + k * won (foldl act (act s a) as)
      \<and> won (act s a) \<le> won (foldl act (act s a) as) \<and> 0 < left (foldl act (act s a) as)"
      by (rule Cons.IH) (use p Cons.prems(2) in simp_all)
    show ?case
    proof (cases "own a")
      case True
      note o = own_left [OF f True i]
      then have "k * won s \<le> k * won (act s a)" by (intro mult_le_mono2) blast
      moreover have "length (List.filter own (a # as)) = Suc (length (List.filter own as))" using True by simp
      ultimately show ?thesis using IH o unfolding foldl_Cons by linarith
    next
      case False
      then have "other a" using Cons.prems(2) by simp
      note ot = other_left [OF f this]
      have "length (List.filter own (a # as)) = length (List.filter own as)" using False by simp
      with ot IH show ?thesis unfolding foldl_Cons by linarith
    qed
  qed
  moreover have "k * (won (foldl act s as) - won s) = k * won (foldl act s as) - k * won s" by (rule diff_mult_distrib2)
  ultimately show False using enough by linarith
qed

lemma call_returns:
  assumes "inside s" and fine: "\<And>n. n \<le> length as \<Longrightarrow> fine (foldl act s (take n as))" and who: "\<forall>a\<in>set as. own a \<or> other a"
    and enough: "left s + k * (won (foldl act s as) - won s) \<le> length (List.filter own as)"
  shows "\<exists>n\<le>length as. returned (foldl act s (take n as))"
proof -
  let ?out = "\<lambda>n. n \<le> length as \<and> \<not> inside (foldl act s (take n as))"
  obtain n where n: "?out n" "\<And>m. m < n \<Longrightarrow> \<not> ?out m"
    using call_ends [OF fine who enough] exists_least_iff [of ?out] by blast
  then obtain m where m: "n = Suc m" using assms(1) by (cases n) auto
  let ?s = "foldl act s (take m as)"
  have take: "take n as = take m as @ [as ! m]" using n(1) unfolding m by (intro take_Suc_conv_app_nth) simp
  have i: "inside ?s" "fine ?s" using n(2) [of m] n(1) fine [of m] by (simp_all add: m)
  have o: "\<not> inside (act ?s (as ! m))" using n(1) by (simp add: take)
  have "as ! m \<in> set as" using n(1) by (simp add: m)
  then have "own (as ! m)" using who other_left [OF i(2,1)] o by blast
  from own_returns [OF i(2,1) this o] n(1) show ?thesis by (intro exI [of _ n]) (simp add: take)
qed

end

end
