(* ===== verification/SparseSet.thy ===== *)
theory SparseSet
  imports Interfaces
begin

text \<open>
  The sparse sets of \<open>include/fat_p/SparseSet.h\<close>: \<open>SparseSet\<close>, a set of keys, and
  \<open>SparseSetWithData\<close>, a map from keys to data.  Both hold the keys in a dense array
  (\<open>mDense\<close>) and the position of each key in a sparse array (\<open>mSparse\<close>) indexed by the key;
  the entries of the sparse array are never cleared, so that a key counts as present only when
  the entry leads to a dense position which leads back.

  The index policy of the template is the parameter \<open>ix\<close>, a function from keys to words of the
  policy's index type; two keys with the same index are the same element.  \<open>lim\<close> is the
  largest number of elements that the allocator grants to the sparse array.
\<close>

section \<open>State\<close>

record ('t, 'w) sparse_set =
  sp_dense :: "'t list"
  sp_sparse :: "'w list"

record ('t, 'd, 'w) sparse_map =
  sd_dense :: "'t list"
  sd_data :: "'d list"
  sd_sparse :: "'w list"

text \<open>The call that throws inside an insertion, if any.\<close>

datatype push_throw = No_push_throw | Dense_push_throws | Data_push_throws

section \<open>Indices\<close>

text \<open>\<open>static_cast<size_type>(w)\<close> for an entry of the sparse array, and back.\<close>

definition to_size :: "'g::len word \<Rightarrow> u64" where
  "to_size w = ucast w"

definition of_size :: "nat \<Rightarrow> 'g::len word" where
  "of_size n = of_nat n"

definition try_to_sparse_index :: "('t \<Rightarrow> 'g::len word) \<Rightarrow> 't \<Rightarrow> u64 option" where
  "try_to_sparse_index ix v =
    (if LENGTH('g) > 64 \<and> ix v > ucast (- 1 :: u64) then None else Some (to_size (ix v)))"

definition to_sparse_index_or_throw :: "('t \<Rightarrow> 'g::len word) \<Rightarrow> 't \<Rightarrow> u64 result" where
  "to_sparse_index_or_throw ix v =
    (if LENGTH('g) > 64 \<and> ix v > ucast (- 1 :: u64) then Inl Length_error else Inr (to_size (ix v)))"

definition contains_at_index :: "('t \<Rightarrow> 'g::len word) \<Rightarrow> 't list \<Rightarrow> 'g word list \<Rightarrow> u64 \<Rightarrow> bool" where
  "contains_at_index ix dense sparse si =
    (if unat si \<ge> length sparse then False
     else let di = unat (to_size (sparse ! unat si)) in
       di < length dense \<and> to_size (ix (dense ! di)) = si)"

definition dense_index_fits :: "'g::len word \<Rightarrow> nat \<Rightarrow> bool" where
  "dense_index_fits w di \<longleftrightarrow> di \<le> unat (to_size (- 1 :: 'g word))"

subsection \<open>Growth\<close>

text \<open>\<open>while (newCapacity < required) newCapacity *= 2;\<close> on 64-bit words: it may not end.\<close>

partial_function (option) double_until :: "u64 \<Rightarrow> u64 \<Rightarrow> u64 option" where
  "double_until required cap = (if cap < required then double_until required (cap * 2) else Some cap)"

declare double_until.simps [code]

definition ensure_sparse_capacity ::
  "nat \<Rightarrow> ('t \<Rightarrow> 'g::len word) \<Rightarrow> 'g word list \<Rightarrow> 't \<Rightarrow> ('g word list \<times> u64 result) option" where
  "ensure_sparse_capacity lim ix sparse v =
    (case to_sparse_index_or_throw ix v of
       Inl e \<Rightarrow> Some (sparse, Inl e)
     | Inr si \<Rightarrow>
       if si = - 1 then Some (sparse, Inl Length_error)
       else let required = si + 1 in
         if unat required > length sparse then
           (case double_until required (if length sparse < 64 then 64 else of_nat (length sparse)) of
              None \<Rightarrow> None
            | Some cap \<Rightarrow>
                if lim < unat cap then Some (sparse, Inl Bad_alloc)
                else Some (vec_resize 0 (unat cap) sparse, Inr si))
         else Some (sparse, Inr si))"

definition reserve_sparse :: "nat \<Rightarrow> 'g::len word list \<Rightarrow> u64 \<Rightarrow> 'g word list \<times> unit result" where
  "reserve_sparse lim sparse max_value =
    (if max_value = - 1 then (sparse, Inl Length_error)
     else let required = max_value + 1 in
       if unat required > length sparse then
         (if lim < unat required then (sparse, Inl Bad_alloc)
          else (vec_resize 0 (unat required) sparse, Inr ()))
       else (sparse, Inr ()))"

definition max_index :: "('t \<Rightarrow> 'g::len word) \<Rightarrow> 't list \<Rightarrow> u64" where
  "max_index ix dense = foldl (\<lambda>m v. if to_size (ix v) > m then to_size (ix v) else m) 0 dense"

definition shrink_sparse :: "('t \<Rightarrow> 'g::len word) \<Rightarrow> 't list \<Rightarrow> 'g word list \<Rightarrow> 'g word list" where
  "shrink_sparse ix dense sparse =
    (if dense = [] then []
     else let required = max_index ix dense + 1 in
       if unat required < length sparse then vec_resize 0 (unat required) sparse else sparse)"

section \<open>SparseSet\<close>

definition sp_insert ::
  "nat \<Rightarrow> ('t \<Rightarrow> 'g::len word) \<Rightarrow> push_throw \<Rightarrow> ('t, 'g word) sparse_set \<Rightarrow> 't \<Rightarrow>
   (('t, 'g word) sparse_set \<times> bool result) option" where
  "sp_insert lim ix tp s v =
    (case ensure_sparse_capacity lim ix (sp_sparse s) v of
       None \<Rightarrow> None
     | Some (sparse1, Inl e) \<Rightarrow> Some (s\<lparr>sp_sparse := sparse1\<rparr>, Inl e)
     | Some (sparse1, Inr si) \<Rightarrow>
       let s1 = s\<lparr>sp_sparse := sparse1\<rparr>; di = length (sp_dense s) in
       if contains_at_index ix (sp_dense s1) (sp_sparse s1) si then Some (s1, Inr False)
       else if \<not> dense_index_fits (ix v) di then Some (s1, Inl Length_error)
       else if tp = Dense_push_throws then Some (s1, Inl Bad_alloc)
       else if length (sp_sparse s1) \<le> unat si then Some (s1, Inl Undefined_behaviour)
       else Some (s1\<lparr>sp_dense := sp_dense s1 @ [v], sp_sparse := (sp_sparse s1)[unat si := of_size di]\<rparr>,
                  Inr True))"

definition sp_erase ::
  "('t \<Rightarrow> 'g::len word) \<Rightarrow> ('t, 'g word) sparse_set \<Rightarrow> 't \<Rightarrow> ('t, 'g word) sparse_set \<times> bool result" where
  "sp_erase ix s v =
    (case try_to_sparse_index ix v of
       None \<Rightarrow> (s, Inr False)
     | Some si \<Rightarrow>
       if \<not> contains_at_index ix (sp_dense s) (sp_sparse s) si then (s, Inr False)
       else
         let di = unat (to_size (sp_sparse s ! unat si));
             last_index = length (sp_dense s) - 1
         in if di \<noteq> last_index then
              let last_value = sp_dense s ! last_index;
                  li = unat (to_size (ix last_value))
              in if length (sp_sparse s) \<le> li then (s, Inl Undefined_behaviour)
                 else (s\<lparr>sp_dense := butlast ((sp_dense s)[di := last_value]),
                         sp_sparse := (sp_sparse s)[li := of_size di]\<rparr>, Inr True)
            else (s\<lparr>sp_dense := butlast (sp_dense s)\<rparr>, Inr True))"

definition sp_contains :: "('t \<Rightarrow> 'g::len word) \<Rightarrow> ('t, 'g word) sparse_set \<Rightarrow> 't \<Rightarrow> bool" where
  "sp_contains ix s v =
    (case try_to_sparse_index ix v of None \<Rightarrow> False
     | Some si \<Rightarrow> contains_at_index ix (sp_dense s) (sp_sparse s) si)"

text \<open>\<open>find\<close> and \<open>indexOf\<close> return a dense position, the length of the dense array (\<open>end()\<close>) if absent.\<close>

definition sp_find :: "('t \<Rightarrow> 'g::len word) \<Rightarrow> ('t, 'g word) sparse_set \<Rightarrow> 't \<Rightarrow> nat" where
  "sp_find ix s v =
    (case try_to_sparse_index ix v of None \<Rightarrow> length (sp_dense s)
     | Some si \<Rightarrow> if \<not> contains_at_index ix (sp_dense s) (sp_sparse s) si then length (sp_dense s)
                  else unat (to_size (sp_sparse s ! unat si)))"

definition sp_index_of :: "('t \<Rightarrow> 'g::len word) \<Rightarrow> ('t, 'g word) sparse_set \<Rightarrow> 't \<Rightarrow> nat" where
  "sp_index_of ix s v =
    (case try_to_sparse_index ix v of None \<Rightarrow> length (sp_dense s)
     | Some si \<Rightarrow> if \<not> contains_at_index ix (sp_dense s) (sp_sparse s) si then length (sp_dense s)
                  else unat (to_size (sp_sparse s ! unat si)))"

definition sp_clear :: "('t, 'g::len word) sparse_set \<Rightarrow> ('t, 'g word) sparse_set" where
  "sp_clear s = s\<lparr>sp_dense := []\<rparr>"

definition sp_reserve :: "nat \<Rightarrow> ('t, 'g::len word) sparse_set \<Rightarrow> u64 \<Rightarrow> ('t, 'g word) sparse_set \<times> unit result" where
  "sp_reserve lim s max_value =
    (case reserve_sparse lim (sp_sparse s) max_value of (sparse1, r) \<Rightarrow> (s\<lparr>sp_sparse := sparse1\<rparr>, r))"

definition sp_new :: "nat \<Rightarrow> u64 \<Rightarrow> ('t, 'g::len word) sparse_set \<times> unit result" where
  "sp_new lim max_value =
    (let s = \<lparr>sp_dense = [], sp_sparse = []\<rparr>
     in if max_value \<noteq> 0 then sp_reserve lim s max_value else (s, Inr ()))"

definition sp_shrink_to_fit :: "('t \<Rightarrow> 'g::len word) \<Rightarrow> ('t, 'g word) sparse_set \<Rightarrow> ('t, 'g word) sparse_set" where
  "sp_shrink_to_fit ix s = s\<lparr>sp_sparse := shrink_sparse ix (sp_dense s) (sp_sparse s)\<rparr>"

definition sp_size :: "('t, 'g::len word) sparse_set \<Rightarrow> nat" where
  "sp_size s = length (sp_dense s)"

definition sp_at :: "('t, 'g::len word) sparse_set \<Rightarrow> nat \<Rightarrow> 't result" where
  "sp_at s i = (if i \<ge> length (sp_dense s) then Inl Out_of_range else Inr (sp_dense s ! i))"

section \<open>SparseSetWithData\<close>

text \<open>
  \<open>insertImpl\<close>, which both overloads of \<open>insert\<close> call.  The sparse entry is written last, so a
  throwing copy of the data only has to pop the key.
\<close>

definition sd_insert ::
  "nat \<Rightarrow> ('t \<Rightarrow> 'g::len word) \<Rightarrow> push_throw \<Rightarrow> ('t, 'd, 'g word) sparse_map \<Rightarrow> 't \<Rightarrow> 'd \<Rightarrow>
   (('t, 'd, 'g word) sparse_map \<times> bool result) option" where
  "sd_insert lim ix tp s v d =
    (case ensure_sparse_capacity lim ix (sd_sparse s) v of
       None \<Rightarrow> None
     | Some (sparse1, Inl e) \<Rightarrow> Some (s\<lparr>sd_sparse := sparse1\<rparr>, Inl e)
     | Some (sparse1, Inr si) \<Rightarrow>
       let s1 = s\<lparr>sd_sparse := sparse1\<rparr>; di = length (sd_dense s) in
       if contains_at_index ix (sd_dense s1) (sd_sparse s1) si then Some (s1, Inr False)
       else if \<not> dense_index_fits (ix v) di then Some (s1, Inl Length_error)
       else if tp = Dense_push_throws then Some (s1, Inl Bad_alloc)
       else
         let s2 = s1\<lparr>sd_dense := sd_dense s1 @ [v]\<rparr> in
         if tp = Data_push_throws then Some (s2\<lparr>sd_dense := butlast (sd_dense s2)\<rparr>, Inl Bad_alloc)
         else
           let s3 = s2\<lparr>sd_data := sd_data s2 @ [d]\<rparr> in
           if length (sd_sparse s3) \<le> unat si then Some (s3, Inl Undefined_behaviour)
           else Some (s3\<lparr>sd_sparse := (sd_sparse s3)[unat si := of_size di]\<rparr>, Inr True))"

text \<open>\<open>tryEmplace\<close> does the same and returns a pointer to the new data, here its position.\<close>

definition sd_try_emplace ::
  "nat \<Rightarrow> ('t \<Rightarrow> 'g::len word) \<Rightarrow> push_throw \<Rightarrow> ('t, 'd, 'g word) sparse_map \<Rightarrow> 't \<Rightarrow> 'd \<Rightarrow>
   (('t, 'd, 'g word) sparse_map \<times> nat option result) option" where
  "sd_try_emplace lim ix tp s v d =
    (case ensure_sparse_capacity lim ix (sd_sparse s) v of
       None \<Rightarrow> None
     | Some (sparse1, Inl e) \<Rightarrow> Some (s\<lparr>sd_sparse := sparse1\<rparr>, Inl e)
     | Some (sparse1, Inr si) \<Rightarrow>
       let s1 = s\<lparr>sd_sparse := sparse1\<rparr>; di = length (sd_dense s) in
       if contains_at_index ix (sd_dense s1) (sd_sparse s1) si then Some (s1, Inr None)
       else if \<not> dense_index_fits (ix v) di then Some (s1, Inl Length_error)
       else if tp = Dense_push_throws then Some (s1, Inl Bad_alloc)
       else
         let s2 = s1\<lparr>sd_dense := sd_dense s1 @ [v]\<rparr> in
         if tp = Data_push_throws then Some (s2\<lparr>sd_dense := butlast (sd_dense s2)\<rparr>, Inl Bad_alloc)
         else
           let s3 = s2\<lparr>sd_data := sd_data s2 @ [d]\<rparr> in
           if length (sd_sparse s3) \<le> unat si then Some (s3, Inl Undefined_behaviour)
           else Some (s3\<lparr>sd_sparse := (sd_sparse s3)[unat si := of_size di]\<rparr>,
                      Inr (Some (length (sd_data s3) - 1))))"

definition sd_emplace ::
  "nat \<Rightarrow> ('t \<Rightarrow> 'g::len word) \<Rightarrow> push_throw \<Rightarrow> ('t, 'd, 'g word) sparse_map \<Rightarrow> 't \<Rightarrow> 'd \<Rightarrow>
   (('t, 'd, 'g word) sparse_map \<times> bool result) option" where
  "sd_emplace lim ix tp s v d =
    (case sd_try_emplace lim ix tp s v d of
       None \<Rightarrow> None
     | Some (s1, Inl e) \<Rightarrow> Some (s1, Inl e)
     | Some (s1, Inr p) \<Rightarrow> Some (s1, Inr (p \<noteq> None)))"

text \<open>\<open>erase\<close> moves the last data before the keys and marks the sparse entry at the end.\<close>

definition sd_erase ::
  "('t \<Rightarrow> 'g::len word) \<Rightarrow> ('t, 'd, 'g word) sparse_map \<Rightarrow> 't \<Rightarrow> ('t, 'd, 'g word) sparse_map \<times> bool result" where
  "sd_erase ix s v =
    (case try_to_sparse_index ix v of
       None \<Rightarrow> (s, Inr False)
     | Some si \<Rightarrow>
       if \<not> contains_at_index ix (sd_dense s) (sd_sparse s) si then (s, Inr False)
       else
         let di = unat (to_size (sd_sparse s ! unat si));
             last_index = length (sd_dense s) - 1;
             last_value = sd_dense s ! last_index;
             li = unat (to_size (ix last_value))
         in if length (sd_data s) \<noteq> length (sd_dense s) then (s, Inl Undefined_behaviour)
         else if di \<noteq> last_index \<and> length (sd_sparse s) \<le> li then (s, Inl Undefined_behaviour)
         else
           let s1 = (if di \<noteq> last_index
                     then s\<lparr>sd_data := (sd_data s)[di := sd_data s ! last_index],
                            sd_dense := (sd_dense s)[di := last_value],
                            sd_sparse := (sd_sparse s)[li := of_size di]\<rparr>
                     else s)
           in (s1\<lparr>sd_dense := butlast (sd_dense s1), sd_data := butlast (sd_data s1),
                  sd_sparse := (sd_sparse s1)[unat si := - 1]\<rparr>, Inr True))"

definition sd_contains :: "('t \<Rightarrow> 'g::len word) \<Rightarrow> ('t, 'd, 'g word) sparse_map \<Rightarrow> 't \<Rightarrow> bool" where
  "sd_contains ix s v =
    (case try_to_sparse_index ix v of None \<Rightarrow> False
     | Some si \<Rightarrow> contains_at_index ix (sd_dense s) (sd_sparse s) si)"

definition sd_find :: "('t \<Rightarrow> 'g::len word) \<Rightarrow> ('t, 'd, 'g word) sparse_map \<Rightarrow> 't \<Rightarrow> nat" where
  "sd_find ix s v =
    (case try_to_sparse_index ix v of None \<Rightarrow> length (sd_dense s)
     | Some si \<Rightarrow> if \<not> contains_at_index ix (sd_dense s) (sd_sparse s) si then length (sd_dense s)
                  else unat (to_size (sd_sparse s ! unat si)))"

definition sd_index_of :: "('t \<Rightarrow> 'g::len word) \<Rightarrow> ('t, 'd, 'g word) sparse_map \<Rightarrow> 't \<Rightarrow> nat" where
  "sd_index_of ix s v =
    (case try_to_sparse_index ix v of None \<Rightarrow> length (sd_dense s)
     | Some si \<Rightarrow> if \<not> contains_at_index ix (sd_dense s) (sd_sparse s) si then length (sd_dense s)
                  else unat (to_size (sd_sparse s ! unat si)))"

text \<open>\<open>tryGet\<close> returns a null pointer (\<open>None\<close>) for an absent key.\<close>

definition sd_try_get :: "('t \<Rightarrow> 'g::len word) \<Rightarrow> ('t, 'd, 'g word) sparse_map \<Rightarrow> 't \<Rightarrow> 'd option result" where
  "sd_try_get ix s v =
    (case try_to_sparse_index ix v of None \<Rightarrow> Inr None
     | Some si \<Rightarrow>
       if \<not> contains_at_index ix (sd_dense s) (sd_sparse s) si then Inr None
       else (case vec_get (sd_data s) (unat (to_size (sd_sparse s ! unat si))) of
               Inl e \<Rightarrow> Inl e | Inr d \<Rightarrow> Inr (Some d)))"

definition sd_get :: "('t \<Rightarrow> 'g::len word) \<Rightarrow> ('t, 'd, 'g word) sparse_map \<Rightarrow> 't \<Rightarrow> 'd result" where
  "sd_get ix s v =
    (case sd_try_get ix s v of Inl e \<Rightarrow> Inl e | Inr None \<Rightarrow> Inl Out_of_range | Inr (Some d) \<Rightarrow> Inr d)"

definition sd_data_at :: "('t, 'd, 'g::len word) sparse_map \<Rightarrow> nat \<Rightarrow> 'd result" where
  "sd_data_at s i = (if i < length (sd_data s) then Inr (sd_data s ! i) else Inl Out_of_range)"

definition sd_clear :: "('t, 'd, 'g::len word) sparse_map \<Rightarrow> ('t, 'd, 'g word) sparse_map" where
  "sd_clear s = s\<lparr>sd_dense := [], sd_data := []\<rparr>"

definition sd_reserve ::
  "nat \<Rightarrow> ('t, 'd, 'g::len word) sparse_map \<Rightarrow> u64 \<Rightarrow> ('t, 'd, 'g word) sparse_map \<times> unit result" where
  "sd_reserve lim s max_value =
    (case reserve_sparse lim (sd_sparse s) max_value of (sparse1, r) \<Rightarrow> (s\<lparr>sd_sparse := sparse1\<rparr>, r))"

definition sd_new :: "nat \<Rightarrow> u64 \<Rightarrow> ('t, 'd, 'g::len word) sparse_map \<times> unit result" where
  "sd_new lim max_value =
    (let s = \<lparr>sd_dense = [], sd_data = [], sd_sparse = []\<rparr>
     in if max_value \<noteq> 0 then sd_reserve lim s max_value else (s, Inr ()))"

definition sd_shrink_to_fit ::
  "('t \<Rightarrow> 'g::len word) \<Rightarrow> ('t, 'd, 'g word) sparse_map \<Rightarrow> ('t, 'd, 'g word) sparse_map" where
  "sd_shrink_to_fit ix s = s\<lparr>sd_sparse := shrink_sparse ix (sd_dense s) (sd_sparse s)\<rparr>"

definition sd_size :: "('t, 'd, 'g::len word) sparse_map \<Rightarrow> nat" where
  "sd_size s = length (sd_dense s)"

text \<open>\<open>swapDenseEntries\<close>: the precondition is an assertion, outside it the behaviour is undefined.\<close>

definition swap_at :: "nat \<Rightarrow> nat \<Rightarrow> 'a list \<Rightarrow> 'a list" where
  "swap_at i j xs = xs[i := xs ! j, j := xs ! i]"

definition sd_swap_dense_entries ::
  "('t \<Rightarrow> 'g::len word) \<Rightarrow> ('t, 'd, 'g word) sparse_map \<Rightarrow> nat \<Rightarrow> nat \<Rightarrow> ('t, 'd, 'g word) sparse_map \<times> unit result" where
  "sd_swap_dense_entries ix s i j =
    (if i = j then (s, Inr ())
     else if length (sd_dense s) \<le> i \<or> length (sd_dense s) \<le> j
       \<or> length (sd_data s) \<le> i \<or> length (sd_data s) \<le> j then (s, Inl Undefined_behaviour)
     else
       let dense1 = swap_at i j (sd_dense s);
           a = unat (to_size (ix (dense1 ! i)));
           b = unat (to_size (ix (dense1 ! j)))
       in if length (sd_sparse s) \<le> a \<or> length (sd_sparse s) \<le> b then (s, Inl Undefined_behaviour)
       else (s\<lparr>sd_dense := dense1, sd_data := swap_at i j (sd_data s),
               sd_sparse := (sd_sparse s)[a := of_size i, b := of_size j]\<rparr>, Inr ()))"

section \<open>The invariant of the two arrays\<close>

abbreviation key_index :: "('t \<Rightarrow> 'g::len word) \<Rightarrow> 't \<Rightarrow> nat" where
  "key_index ix v \<equiv> unat (to_size (ix v))"

abbreviation read_size :: "'g::len word \<Rightarrow> nat" where
  "read_size w \<equiv> unat (to_size w)"

definition sparse_inv :: "('t \<Rightarrow> 'g::len word) \<Rightarrow> 't list \<Rightarrow> 'g word list \<Rightarrow> bool" where
  "sparse_inv ix dense sparse \<longleftrightarrow> length sparse < 2 ^ 64 \<and>
     (\<forall>i<length dense. try_to_sparse_index ix (dense ! i) \<noteq> None
        \<and> key_index ix (dense ! i) < length sparse
        \<and> read_size (sparse ! key_index ix (dense ! i)) = i)"

lemma sparse_inv_length: "sparse_inv ix dense sparse \<Longrightarrow> length sparse < 2 ^ 64"
  by (simp add: sparse_inv_def)

lemma sparse_inv_entry:
  assumes "sparse_inv ix dense sparse" and "i < length dense"
  shows "try_to_sparse_index ix (dense ! i) \<noteq> None" "key_index ix (dense ! i) < length sparse"
    "read_size (sparse ! key_index ix (dense ! i)) = i"
  using assms by (simp_all add: sparse_inv_def)

lemma sparse_inv_unique:
  assumes "sparse_inv ix dense sparse" and "i < length dense" "j < length dense"
    and "key_index ix (dense ! i) = key_index ix (dense ! j)"
  shows "i = j"
  using sparse_inv_entry(3) [OF assms(1,2)] sparse_inv_entry(3) [OF assms(1,3)] assms(4) by metis

lemma sparse_inv_empty: "length sparse < 2 ^ 64 \<Longrightarrow> sparse_inv ix [] sparse"
  by (simp add: sparse_inv_def)

text \<open>Under the invariant the round trip through the arrays is membership.\<close>

lemma contains_at_index_iff:
  assumes "sparse_inv ix dense sparse"
  shows "contains_at_index ix dense sparse si \<longleftrightarrow> (\<exists>i<length dense. to_size (ix (dense ! i)) = si)"
proof
  assume "contains_at_index ix dense sparse si"
  then show "\<exists>i<length dense. to_size (ix (dense ! i)) = si"
    by (auto simp: contains_at_index_def Let_def split: if_splits)
next
  assume "\<exists>i<length dense. to_size (ix (dense ! i)) = si"
  then obtain i where i: "i < length dense" "si = to_size (ix (dense ! i))" by blast
  with sparse_inv_entry(2,3) [OF assms i(1)] show "contains_at_index ix dense sparse si"
    by (simp add: contains_at_index_def)
qed

lemma contains_position:
  assumes "contains_at_index ix dense sparse si"
  shows "read_size (sparse ! unat si) < length dense"
    "to_size (ix (dense ! read_size (sparse ! unat si))) = si" "unat si < length sparse"
  using assms by (auto simp: contains_at_index_def Let_def split: if_splits)

lemma to_size_max:
  fixes w :: "'g::len word"
  shows "unat (to_size w) \<le> unat (to_size (- 1 :: 'g word))"
proof (cases "LENGTH('g) \<le> 64")
  case True
  then have "unat (to_size w) = unat w" "unat (to_size (- 1 :: 'g word)) = unat (- 1 :: 'g word)"
    by (simp_all add: to_size_def unat_ucast_up)
  moreover have "w \<le> - 1" by simp
  ultimately show ?thesis by (simp add: word_le_nat_alt)
next
  case False
  then have "to_size (- 1 :: 'g word) = - 1"
    by (intro bit_word_eqI) (simp add: to_size_def bit_simps)
  then show ?thesis by (simp add: word_le_nat_alt [symmetric])
qed

lemma read_of_size:
  fixes w :: "'g::len word"
  assumes "dense_index_fits w n"
  shows "read_size (of_size n :: 'g word) = n"
proof -
  have le: "n \<le> unat (to_size (- 1 :: 'g word))" using assms by (simp add: dense_index_fits_def)
  have "unat (to_size (- 1 :: 'g word)) \<le> unat (- 1 :: 'g word)"
    by (simp add: to_size_def unsigned_ucast_eq take_bit_nat_less_eq_self)
  with le have a: "n < 2 ^ LENGTH('g)" using unat_bound [of "- 1 :: 'g word"] by linarith
  have b: "n < 2 ^ 64" using le unat_bound [of "to_size (- 1 :: 'g word)"] by simp
  show ?thesis
    using a b by (simp add: to_size_def of_size_def unsigned_ucast_eq unat_of_nat_below take_bit_nat_eq_self)
qed

lemma dense_index_fits_read:
  fixes u w :: "'g::len word"
  shows "dense_index_fits w (read_size u)"
  by (simp add: dense_index_fits_def to_size_max)

text \<open>A new key always finds room: the keys are distinct and one more index is free.\<close>

lemma dense_index_fits_new:
  fixes ix :: "'t \<Rightarrow> 'b::len word"
  assumes inv: "sparse_inv ix dense sparse" and new: "\<not> contains_at_index ix dense sparse (to_size (ix v))"
  shows "dense_index_fits (ix v) (length dense)"
proof -
  let ?K = "(\<lambda>i. key_index ix (dense ! i)) ` {..<length dense}"
  have inj: "inj_on (\<lambda>i. key_index ix (dense ! i)) {..<length dense}"
    using sparse_inv_unique [OF inv] by (auto simp: inj_on_def)
  have "key_index ix v \<notin> ?K"
    using new contains_at_index_iff [OF inv] by (auto simp: word_unat_eq_iff)
  then have "card (insert (key_index ix v) ?K) = Suc (length dense)"
    using card_image [OF inj] by simp
  moreover have "insert (key_index ix v) ?K \<subseteq> {..unat (to_size (- 1 :: 'b word))}"
    by (auto simp: to_size_max)
  then have "card (insert (key_index ix v) ?K) \<le> card {..unat (to_size (- 1 :: 'b word))}"
    by (rule card_mono [rotated]) simp
  ultimately show ?thesis by (simp add: dense_index_fits_def)
qed

lemma sparse_inv_append:
  assumes inv: "sparse_inv ix dense sparse" and v: "try_to_sparse_index ix v = Some si"
    and si: "unat si < length sparse" and new: "\<not> contains_at_index ix dense sparse si"
  shows "sparse_inv ix (dense @ [v]) (sparse[unat si := of_size (length dense)])"
proof -
  have k: "to_size (ix v) = si" using v by (auto simp: try_to_sparse_index_def split: if_splits)
  have fits: "dense_index_fits (ix v) (length dense)" using dense_index_fits_new [OF inv] new k by blast
  have other: "key_index ix (dense ! i) \<noteq> unat si" if "i < length dense" for i
    using new contains_at_index_iff [OF inv] that by (auto simp: word_unat_eq_iff)
  have "try_to_sparse_index ix ((dense @ [v]) ! i) \<noteq> None
      \<and> key_index ix ((dense @ [v]) ! i) < length sparse
      \<and> read_size (sparse[unat si := of_size (length dense)] ! key_index ix ((dense @ [v]) ! i)) = i"
    if "i < Suc (length dense)" for i
  proof (cases "i = length dense")
    case True
    with v k si read_of_size [OF fits] show ?thesis by simp
  next
    case False
    with that have i: "i < length dense" by simp
    with sparse_inv_entry [OF inv i] other [OF i] show ?thesis by (simp add: nth_append)
  qed
  with sparse_inv_length [OF inv] show ?thesis by (simp add: sparse_inv_def)
qed

lemma sparse_inv_resize:
  assumes inv: "sparse_inv ix dense sparse" and n: "n < 2 ^ 64"
    and all: "\<And>i. i < length dense \<Longrightarrow> key_index ix (dense ! i) < n"
  shows "sparse_inv ix dense (vec_resize 0 n sparse)"
  using sparse_inv_entry [OF inv] n all by (simp add: sparse_inv_def)

lemma sparse_inv_unused:
  assumes inv: "sparse_inv ix dense sparse" and "\<And>i. i < length dense \<Longrightarrow> key_index ix (dense ! i) \<noteq> k"
  shows "sparse_inv ix dense (sparse[k := w])"
proof -
  have "sparse[k := w] ! key_index ix (dense ! i) = sparse ! key_index ix (dense ! i)" if "i < length dense" for i
    using assms(2) [OF that] by (metis nth_list_update_neq)
  with inv show ?thesis by (simp add: sparse_inv_def)
qed

lemma sparse_inv_butlast:
  assumes inv: "sparse_inv ix dense sparse"
  shows "sparse_inv ix (butlast dense) sparse"
  using sparse_inv_entry [OF inv] sparse_inv_length [OF inv] by (simp add: sparse_inv_def nth_butlast)

lemma sparse_inv_swap_pop:
  fixes ix :: "'t \<Rightarrow> 'g::len word"
  assumes inv: "sparse_inv ix dense sparse" and i: "i < length dense" "i \<noteq> length dense - 1"
  shows "sparse_inv ix (swap_pop dense i) (sparse[key_index ix (last dense) := of_size i])"
proof -
  let ?n = "length dense - 1"
  have ne: "dense \<noteq> []" using i by auto
  have n: "?n < length dense" using i by simp
  have l: "last dense = dense ! ?n" by (rule last_nth [OF ne])
  have fits: "dense_index_fits (0 :: 'g word) i"
    using dense_index_fits_read [of 0 "sparse ! key_index ix (dense ! i)"] sparse_inv_entry(3) [OF inv i(1)] by simp
  have "try_to_sparse_index ix (swap_pop dense i ! j) \<noteq> None
      \<and> key_index ix (swap_pop dense i ! j) < length sparse
      \<and> read_size (sparse[key_index ix (last dense) := of_size i] ! key_index ix (swap_pop dense i ! j)) = j"
    if j: "j < ?n" for j
  proof (cases "j = i")
    case True
    with i j sparse_inv_entry [OF inv n] read_of_size [OF fits] show ?thesis
      by (simp add: nth_swap_pop l)
  next
    case False
    have "key_index ix (dense ! j) \<noteq> key_index ix (dense ! ?n)"
      using sparse_inv_unique [OF inv _ n, of j] j n by (metis less_irrefl less_trans)
    with False i j sparse_inv_entry [OF inv, of j] show ?thesis by (simp add: nth_swap_pop l)
  qed
  with sparse_inv_length [OF inv] show ?thesis by (simp add: sparse_inv_def)
qed

lemma sparse_inv_swap_at:
  fixes ix :: "'t \<Rightarrow> 'g::len word"
  assumes inv: "sparse_inv ix dense sparse" and i: "i < length dense" and j: "j < length dense" and ne: "i \<noteq> j"
  shows "sparse_inv ix (swap_at i j dense)
    (sparse[key_index ix (dense ! j) := of_size i, key_index ix (dense ! i) := of_size j])"
proof -
  have fits: "read_size (of_size k :: 'g word) = k" if "k < length dense" for k
    using dense_index_fits_read [of 0 "sparse ! key_index ix (dense ! k)"] sparse_inv_entry(3) [OF inv that]
    by (intro read_of_size [of 0]) simp
  have d: "key_index ix (dense ! a) \<noteq> key_index ix (dense ! b)" if "a < length dense" "b < length dense" "a \<noteq> b" for a b
    using sparse_inv_unique [OF inv that(1,2)] that(3) by blast
  let ?s = "sparse[key_index ix (dense ! j) := of_size i, key_index ix (dense ! i) := of_size j]"
  have "try_to_sparse_index ix (swap_at i j dense ! k) \<noteq> None
      \<and> key_index ix (swap_at i j dense ! k) < length sparse
      \<and> read_size (?s ! key_index ix (swap_at i j dense ! k)) = k" if k: "k < length dense" for k
  proof -
    consider "k = i" | "k = j" | "k \<noteq> i" "k \<noteq> j" by blast
    then show ?thesis
    proof cases
      case 1
      then show ?thesis using sparse_inv_entry [OF inv j] fits [OF i] i j ne d [OF i j ne] by (simp add: swap_at_def)
    next
      case 2
      then show ?thesis using sparse_inv_entry [OF inv i] fits [OF j] i j ne by (simp add: swap_at_def)
    next
      case 3
      then show ?thesis
        using sparse_inv_entry [OF inv k] d [OF k i] d [OF k j] i j k by (simp add: swap_at_def)
    qed
  qed
  with sparse_inv_length [OF inv] show ?thesis by (simp add: sparse_inv_def swap_at_def)
qed

section \<open>Growth\<close>

lemma double_until_returns:
  assumes "0 < cap" and "unat required \<le> 2 ^ 63"
  shows "\<exists>c. double_until required cap = Some c \<and> required \<le> c \<and> (c = cap \<or> unat c < 2 * unat required)"
  using assms(1)
proof (induction "unat required - unat cap" arbitrary: cap rule: less_induct)
  case less
  show ?case
  proof (cases "cap < required")
    case False
    then show ?thesis by (subst double_until.simps) (simp add: not_less leD)
  next
    case True
    then have lt: "unat cap < unat required" by (simp add: word_less_nat_alt)
    have pos: "0 < unat cap" using less.prems by (simp add: word_less_nat_alt)
    have "unat cap * unat (2 :: u64) < 2 ^ LENGTH(64)" using lt assms(2) by simp
    then have "unat (cap * 2) = unat cap * unat (2 :: u64)" by (rule unat_mult_lem [THEN iffD1])
    then have u: "unat (cap * 2) = 2 * unat cap" by simp
    have "0 < cap * 2" using u pos by (simp add: word_less_nat_alt)
    have "unat required - unat (cap * 2) < unat required - unat cap" using u pos lt by linarith
    from less.hyps [OF this \<open>0 < cap * 2\<close>] obtain c where
      "double_until required (cap * 2) = Some c" "required \<le> c" "c = cap * 2 \<or> unat c < 2 * unat required" by blast
    with True u lt show ?thesis by (subst double_until.simps) auto
  qed
qed

text \<open>Once the word has doubled to zero it stays zero: above \<open>2 ^ 63\<close> the loop does not end.\<close>

lemma double_until_diverges:
  assumes "2 ^ 63 < unat required" and "k < 64"
  shows "double_until required (2 ^ k) = None"
proof -
  have "2 ^ 63 < unat r \<longrightarrow> c \<noteq> 0 \<and> (\<forall>k<64. c \<noteq> 2 ^ k)" if "double_until r c = Some y" for r c y
  proof (rule double_until.raw_induct [OF _ that, where P = "\<lambda>r c y. 2 ^ 63 < unat r \<longrightarrow> c \<noteq> 0 \<and> (\<forall>k<64. c \<noteq> 2 ^ k)"])
    fix f and required cap y :: u64
    assume step: "\<And>r c y. f r c = Some y \<Longrightarrow> 2 ^ 63 < unat r \<longrightarrow> c \<noteq> 0 \<and> (\<forall>k<64. c \<noteq> 2 ^ k)"
      and body: "(if cap < required then f required (cap * 2) else Some cap) = Some y"
    show "2 ^ 63 < unat required \<longrightarrow> cap \<noteq> 0 \<and> (\<forall>k<64. cap \<noteq> 2 ^ k)"
    proof (intro impI)
      assume big: "2 ^ 63 < unat required"
      have p: "unat (2 ^ k :: u64) \<le> 2 ^ 63" if "k < 64" for k
        using that unat_two_power [of k, where 'a = 64] power_increasing [of k 63 "2 :: nat"] by simp
      show "cap \<noteq> 0 \<and> (\<forall>k<64. cap \<noteq> 2 ^ k)"
      proof (cases "cap < required")
        case False
        then have "2 ^ 63 < unat cap" using big by (simp add: not_less word_le_nat_alt)
        with p show ?thesis by fastforce
      next
        case True
        then have "f required (cap * 2) = Some y" using body by simp
        from step [OF this] big have n: "cap * 2 \<noteq> 0" "\<And>k. k < 64 \<Longrightarrow> cap * 2 \<noteq> 2 ^ k" by auto
        have "cap \<noteq> 2 ^ k" if k: "k < 64" for k
        proof
          assume c: "cap = 2 ^ k"
          show False
          proof (cases "k = 63")
            case True
            with c n(1) show False by simp
          next
            case False
            with k n(2) [of "Suc k"] c show False by (simp add: mult.commute)
          qed
        qed
        with n(1) show ?thesis by auto
      qed
    qed
  qed
  with assms show ?thesis by (metis not_None_eq)
qed

lemma double_until_reaches: "double_until required cap = Some c \<Longrightarrow> required \<le> c"
proof (rule double_until.raw_induct [where P = "\<lambda>r c y. r \<le> y"])
  fix f and required cap y :: u64
  assume "\<And>r c y. f r c = Some y \<Longrightarrow> r \<le> y"
    and "(if cap < required then f required (cap * 2) else Some cap) = Some y"
  then show "required \<le> y" by (auto split: if_splits)
qed

lemma try_to_sparse_index_Some: "try_to_sparse_index ix v = Some si \<Longrightarrow> to_size (ix v) = si"
  by (auto simp: try_to_sparse_index_def split: if_splits)

lemma to_sparse_index_or_throw_eq:
  "to_sparse_index_or_throw ix v =
    (case try_to_sparse_index ix v of None \<Rightarrow> Inl Length_error | Some si \<Rightarrow> Inr si)"
  by (simp add: to_sparse_index_or_throw_def try_to_sparse_index_def)

text \<open>What \<open>ensureSparseCapacity\<close> guarantees when it returns.\<close>

lemma ensure_sparse_capacity_effect:
  assumes inv: "sparse_inv ix dense sparse"
    and ens: "ensure_sparse_capacity lim ix sparse v = Some (sparse', r)"
  shows "sparse_inv ix dense sparse' \<and> (case r of
      Inr si \<Rightarrow> try_to_sparse_index ix v = Some si \<and> unat si < length sparse'
    | Inl e \<Rightarrow> sparse' = sparse \<and> (e = Length_error \<or> e = Bad_alloc))"
proof (cases "try_to_sparse_index ix v")
  case None
  with ens inv show ?thesis by (auto simp: ensure_sparse_capacity_def to_sparse_index_or_throw_eq)
next
  case (Some si)
  let ?start = "if length sparse < 64 then 64 else of_nat (length sparse) :: u64"
  show ?thesis
  proof (cases "si = - 1")
    case True
    with Some ens inv show ?thesis by (auto simp: ensure_sparse_capacity_def to_sparse_index_or_throw_eq)
  next
    case False
    have req: "unat (si + 1) = Suc (unat si)"
      using False by (intro unat_add_one) (metis add_eq_0_iff2)
    show ?thesis
    proof (cases "length sparse < unat (si + 1)")
      case False
      with Some ens inv \<open>si \<noteq> - 1\<close> req show ?thesis
        by (auto simp: ensure_sparse_capacity_def to_sparse_index_or_throw_eq Let_def)
    next
      case True
      then obtain cap where cap: "double_until (si + 1) ?start = Some cap"
        using Some ens \<open>si \<noteq> - 1\<close>
        by (auto simp: ensure_sparse_capacity_def to_sparse_index_or_throw_eq Let_def split: option.splits)
      have eq: "(sparse', r) = (if lim < unat cap then (sparse, Inl Bad_alloc)
          else (vec_resize 0 (unat cap) sparse, Inr si))"
        using Some ens \<open>si \<noteq> - 1\<close> True cap
        by (auto simp: ensure_sparse_capacity_def to_sparse_index_or_throw_eq Let_def split: if_splits)
      have le: "unat (si + 1) \<le> unat cap" using double_until_reaches [OF cap] by (simp add: word_le_nat_alt)
      have "sparse_inv ix dense (vec_resize 0 (unat cap) sparse)"
        using sparse_inv_entry(2) [OF inv] True le unat_bound [of cap]
        by (intro sparse_inv_resize [OF inv]) fastforce+
      with eq inv Some req le show ?thesis by (auto split: if_splits)
    qed
  qed
qed

text \<open>It returns whenever the index is below \<open>2 ^ 63\<close>, and it finds room below the allocator's limit.\<close>

definition index_fits :: "nat \<Rightarrow> ('t \<Rightarrow> 'g::len word) \<Rightarrow> 't \<Rightarrow> bool" where
  "index_fits lim ix v \<longleftrightarrow> try_to_sparse_index ix v \<noteq> None \<and> Suc (key_index ix v) \<le> 2 ^ 63
     \<and> 64 \<le> lim \<and> 2 * Suc (key_index ix v) \<le> lim"

lemma ensure_sparse_capacity_returns:
  assumes len: "length sparse < 2 ^ 64" and ti: "try_to_sparse_index ix v = Some si" and si: "Suc (unat si) \<le> 2 ^ 63"
  shows "\<exists>sparse' r. ensure_sparse_capacity lim ix sparse v = Some (sparse', r)
    \<and> (64 \<le> lim \<and> 2 * Suc (unat si) \<le> lim \<longrightarrow> r = Inr si)"
proof -
  let ?start = "if length sparse < 64 then 64 else of_nat (length sparse) :: u64"
  have ne: "si \<noteq> - 1" using si by (auto simp: unsigned_minus_1_eq_mask mask_eq_exp_minus_1)
  have req: "unat (si + 1) = Suc (unat si)" using ne by (intro unat_add_one) (metis add_eq_0_iff2)
  have start: "0 < ?start" using len by (auto simp: word_less_nat_alt unat_of_nat_u64)
  obtain c where c: "double_until (si + 1) ?start = Some c" "si + 1 \<le> c"
    "c = ?start \<or> unat c < 2 * unat (si + 1)"
    using double_until_returns [OF start, of "si + 1"] si req by auto
  show ?thesis
  proof (cases "length sparse < unat (si + 1)")
    case False
    with ne ti req show ?thesis
      by (simp add: ensure_sparse_capacity_def to_sparse_index_or_throw_eq Let_def)
  next
    case True
    have "unat c \<le> lim" if lim: "64 \<le> lim" "2 * Suc (unat si) \<le> lim"
    proof (cases "c = ?start")
      case eq: True
      show ?thesis
      proof (cases "length sparse < 64")
        case True
        with eq lim show ?thesis by simp
      next
        case False
        with eq len have "unat c = length sparse" by (simp add: unat_of_nat_u64)
        with True req lim show ?thesis by simp
      qed
    next
      case False
      with c(3) req lim show ?thesis by simp
    qed
    with True ne ti c(1) show ?thesis
      by (auto simp: ensure_sparse_capacity_def to_sparse_index_or_throw_eq Let_def not_le[symmetric])
  qed
qed

lemma reserve_sparse_effect:
  assumes inv: "sparse_inv ix dense sparse" and "reserve_sparse lim sparse mv = (sparse', r)"
  shows "sparse_inv ix dense sparse' \<and> (r = Inr () \<longrightarrow> unat mv < length sparse') \<and> (r \<noteq> Inr () \<longrightarrow> sparse' = sparse)"
proof (cases "mv = - 1")
  case True
  with assms show ?thesis by (auto simp: reserve_sparse_def)
next
  case False
  have req: "unat (mv + 1) = Suc (unat mv)" using False by (intro unat_add_one) (metis add_eq_0_iff2)
  have "sparse_inv ix dense (vec_resize 0 (unat (mv + 1)) sparse)" if "length sparse < unat (mv + 1)"
    using sparse_inv_entry(2) [OF inv] that unat_bound [of "mv + 1"]
    by (intro sparse_inv_resize [OF inv]) fastforce+
  with assms False req show ?thesis by (auto simp: reserve_sparse_def Let_def split: if_splits)
qed

lemma shrink_sparse_effect:
  assumes inv: "sparse_inv ix dense sparse"
  shows "sparse_inv ix dense (shrink_sparse ix dense sparse)"
proof (cases "dense = []")
  case True
  then show ?thesis by (simp add: shrink_sparse_def sparse_inv_empty)
next
  case False
  let ?m = "max_index ix dense"
  have max: "to_size (ix v) \<le> ?m" if "v \<in> set dense" for v
    using foldl_max_bound [of 0 "\<lambda>v. to_size (ix v)" dense] that by (simp add: max_index_def)
  obtain w where w: "w \<in> set dense" "?m = to_size (ix w) \<or> ?m = 0"
    using foldl_max_attained [of "\<lambda>v. to_size (ix v)" 0 dense] False
    by (fastforce simp: max_index_def neq_Nil_conv)
  have "unat ?m < length sparse"
  proof -
    obtain i where "i < length dense" "dense ! i = w" using w(1) by (metis in_set_conv_nth)
    then have "key_index ix w < length sparse" using sparse_inv_entry(2) [OF inv] by metis
    with w(2) show ?thesis by auto
  qed
  then have "?m \<noteq> - 1" using sparse_inv_length [OF inv] by (auto simp: unsigned_minus_1_eq_mask mask_eq_exp_minus_1)
  then have req: "unat (?m + 1) = Suc (unat ?m)" by (intro unat_add_one) (metis add_eq_0_iff2)
  have "sparse_inv ix dense (vec_resize 0 (unat (?m + 1)) sparse)"
    using max unat_bound [of "?m + 1"] by (intro sparse_inv_resize [OF inv]) (simp_all add: req word_le_nat_alt less_Suc_eq_le)
  with False inv show ?thesis by (simp add: shrink_sparse_def Let_def)
qed

section \<open>Effect of the operations\<close>

abbreviation key_of :: "('t \<Rightarrow> 'g::len word) \<Rightarrow> 't \<Rightarrow> u64" where
  "key_of ix v \<equiv> to_size (ix v)"

text \<open>The set of keys, by their indices, and the map from indices to data.\<close>

definition sp_keys :: "('t \<Rightarrow> 'g::len word) \<Rightarrow> ('t, 'g word) sparse_set \<Rightarrow> u64 set" where
  "sp_keys ix s = key_of ix ` set (sp_dense s)"

abbreviation sp_inv :: "('t \<Rightarrow> 'g::len word) \<Rightarrow> ('t, 'g word) sparse_set \<Rightarrow> bool" where
  "sp_inv ix s \<equiv> sparse_inv ix (sp_dense s) (sp_sparse s)"

definition sd_map :: "('t \<Rightarrow> 'g::len word) \<Rightarrow> ('t, 'd, 'g word) sparse_map \<Rightarrow> u64 \<Rightarrow> 'd option" where
  "sd_map ix s = map_of (zip (map (key_of ix) (sd_dense s)) (sd_data s))"

definition sd_inv :: "('t \<Rightarrow> 'g::len word) \<Rightarrow> ('t, 'd, 'g word) sparse_map \<Rightarrow> bool" where
  "sd_inv ix s \<longleftrightarrow> sparse_inv ix (sd_dense s) (sd_sparse s) \<and> length (sd_data s) = length (sd_dense s)"

lemma sparse_keys_distinct:
  assumes "sparse_inv ix dense sparse"
  shows "distinct (map (key_of ix) dense)"
  using sparse_inv_unique [OF assms] by (simp add: distinct_conv_nth word_unat_eq_iff) blast

lemma contains_iff_key:
  "sparse_inv ix dense sparse \<Longrightarrow> contains_at_index ix dense sparse si \<longleftrightarrow> si \<in> key_of ix ` set dense"
  by (auto simp: contains_at_index_iff set_conv_nth)

lemma sd_map_dom: "sd_inv ix s \<Longrightarrow> dom (sd_map ix s) = key_of ix ` set (sd_dense s)"
  by (simp add: sd_map_def sd_inv_def)

lemma sd_map_contains:
  assumes inv: "sd_inv ix s"
  shows "sd_map ix s si = (if contains_at_index ix (sd_dense s) (sd_sparse s) si
    then Some (sd_data s ! read_size (sd_sparse s ! unat si)) else None)"
proof (cases "contains_at_index ix (sd_dense s) (sd_sparse s) si")
  case True
  note c = contains_position [OF True]
  have d: "distinct (map (key_of ix) (sd_dense s))" and len: "length (sd_data s) = length (sd_dense s)"
    using inv sparse_keys_distinct unfolding sd_inv_def by blast+
  let ?i = "read_size (sd_sparse s ! unat si)"
  have "map_of (zip (map (key_of ix) (sd_dense s)) (sd_data s)) (map (key_of ix) (sd_dense s) ! ?i) = Some (sd_data s ! ?i)"
    by (rule map_of_zip_nth) (use d len c in simp_all)
  with True c show ?thesis by (simp add: sd_map_def)
next
  case False
  moreover have "sparse_inv ix (sd_dense s) (sd_sparse s)" using inv by (simp add: sd_inv_def)
  ultimately have "si \<notin> dom (sd_map ix s)"
    using contains_iff_key [of ix "sd_dense s" "sd_sparse s" si] by (simp add: sd_map_dom [OF inv])
  with False show ?thesis by (simp add: domIff)
qed

lemma sparse_take_append:
  assumes inv: "sparse_inv ix dense sparse'" and ti: "try_to_sparse_index ix v = Some si"
    and si: "unat si < length sparse'" and new: "\<not> contains_at_index ix dense sparse' si"
  shows "sparse_inv ix (dense @ [v]) (sparse'[unat si := of_size (length dense)])"
    and "dense_index_fits (ix v) (length dense)" and "si \<notin> key_of ix ` set dense"
  using sparse_inv_append [OF assms] dense_index_fits_new [OF inv, of v] new contains_iff_key [OF inv]
    try_to_sparse_index_Some [OF ti] by auto

lemma sp_insert_effect:
  assumes inv: "sp_inv ix s" and ins: "sp_insert lim ix tp s v = Some (s', r)"
  shows "sp_inv ix s' \<and> (case r of
      Inl e \<Rightarrow> sp_dense s' = sp_dense s \<and> (e = Length_error \<or> e = Bad_alloc)
    | Inr b \<Rightarrow> b = (key_of ix v \<notin> sp_keys ix s) \<and> sp_dense s' = (if b then sp_dense s @ [v] else sp_dense s))"
proof -
  obtain sparse1 q where e: "ensure_sparse_capacity lim ix (sp_sparse s) v = Some (sparse1, q)"
    using ins by (auto simp: sp_insert_def split: option.splits)
  note f = ensure_sparse_capacity_effect [OF inv e]
  show ?thesis
  proof (cases q)
    case (Inl err)
    with f e ins show ?thesis by (auto simp: sp_insert_def)
  next
    case (Inr si)
    with f have ti: "try_to_sparse_index ix v = Some si" and si: "unat si < length sparse1"
      and inv1: "sparse_inv ix (sp_dense s) sparse1" by simp_all
    have k: "key_of ix v = si" by (rule try_to_sparse_index_Some [OF ti])
    note c = contains_iff_key [OF inv1, of si]
    show ?thesis
    proof (cases "contains_at_index ix (sp_dense s) sparse1 si")
      case True
      with c k inv1 e Inr ins show ?thesis by (auto simp: sp_insert_def sp_keys_def Let_def)
    next
      case False
      note g = sparse_take_append [OF inv1 ti si False]
      have "(s', r) = (if tp = Dense_push_throws then (s\<lparr>sp_sparse := sparse1\<rparr>, Inl Bad_alloc)
        else (s\<lparr>sp_dense := sp_dense s @ [v], sp_sparse := sparse1[unat si := of_size (length (sp_dense s))]\<rparr>, Inr True))"
        using ins e Inr False g(2) si by (auto simp: sp_insert_def Let_def split: if_splits)
      with g inv1 k show ?thesis by (auto simp: sp_keys_def split: if_splits)
    qed
  qed
qed

lemma sp_erase_effect:
  assumes inv: "sp_inv ix s" and er: "sp_erase ix s v = (s', r)"
  shows "sp_inv ix s' \<and> r = Inr (sp_contains ix s v)
    \<and> sp_keys ix s' = (if sp_contains ix s v then sp_keys ix s - {key_of ix v} else sp_keys ix s)
    \<and> length (sp_dense s') = (if sp_contains ix s v then length (sp_dense s) - 1 else length (sp_dense s))"
proof (cases "sp_contains ix s v")
  case False
  with er inv show ?thesis by (auto simp: sp_erase_def sp_contains_def split: option.splits)
next
  case True
  then obtain si where ti: "try_to_sparse_index ix v = Some si"
    and c: "contains_at_index ix (sp_dense s) (sp_sparse s) si"
    by (auto simp: sp_contains_def split: option.splits)
  let ?d = "read_size (sp_sparse s ! unat si)"
  note p = contains_position [OF c] and k = try_to_sparse_index_Some [OF ti]
  have n: "length (sp_dense s) - 1 < length (sp_dense s)" using p(1) by linarith
  have ne: "sp_dense s \<noteq> []" using p(1) by auto
  have l: "sp_dense s ! (length (sp_dense s) - 1) = last (sp_dense s)" using last_nth [OF ne] by simp
  have li: "key_index ix (last (sp_dense s)) < length (sp_sparse s)"
    using sparse_inv_entry(2) [OF inv n] l by simp
  have swap: "butlast ((sp_dense s)[?d := last (sp_dense s)]) = swap_pop (sp_dense s) ?d" by (simp add: swap_pop_def)
  have eq: "s' = s\<lparr>sp_dense := swap_pop (sp_dense s) ?d, sp_sparse :=
      (if ?d = length (sp_dense s) - 1 then sp_sparse s
       else (sp_sparse s)[key_index ix (last (sp_dense s)) := of_size ?d])\<rparr> \<and> r = Inr True"
    using er ti c l li swap by (auto simp: sp_erase_def Let_def swap_pop_last split: if_splits)
  have inv': "sp_inv ix s'"
    using eq sparse_inv_swap_pop [OF inv p(1)] sparse_inv_butlast [OF inv]
    by (auto simp: swap_pop_last)
  have "map (key_of ix) (sp_dense s') = swap_pop (map (key_of ix) (sp_dense s)) ?d"
    using eq by (simp add: map_swap_pop)
  then have "set (map (key_of ix) (sp_dense s')) = set (map (key_of ix) (sp_dense s)) - {si}"
    using set_swap_pop [of ?d "map (key_of ix) (sp_dense s)"] sparse_keys_distinct [OF inv] p by simp
  with True eq inv' k show ?thesis by (simp add: sp_keys_def)
qed

lemma sd_insert_effect:
  assumes inv: "sd_inv ix s" and ins: "sd_insert lim ix tp s v d = Some (s', r)"
  shows "sd_inv ix s' \<and> (case r of
      Inl e \<Rightarrow> sd_dense s' = sd_dense s \<and> sd_data s' = sd_data s \<and> (e = Length_error \<or> e = Bad_alloc)
    | Inr b \<Rightarrow> b = (sd_map ix s (key_of ix v) = None)
        \<and> sd_map ix s' = (if b then (sd_map ix s)(key_of ix v \<mapsto> d) else sd_map ix s))"
proof -
  have inv0: "sparse_inv ix (sd_dense s) (sd_sparse s)" and len: "length (sd_data s) = length (sd_dense s)"
    using inv by (simp_all add: sd_inv_def)
  obtain sparse1 q where e: "ensure_sparse_capacity lim ix (sd_sparse s) v = Some (sparse1, q)"
    using ins by (auto simp: sd_insert_def split: option.splits)
  note f = ensure_sparse_capacity_effect [OF inv0 e]
  show ?thesis
  proof (cases q)
    case (Inl err)
    with f e ins len show ?thesis by (auto simp: sd_insert_def sd_inv_def)
  next
    case (Inr si)
    with f have ti: "try_to_sparse_index ix v = Some si" and si: "unat si < length sparse1"
      and inv1: "sparse_inv ix (sd_dense s) sparse1" by simp_all
    have k: "key_of ix v = si" by (rule try_to_sparse_index_Some [OF ti])
    have c: "contains_at_index ix (sd_dense s) sparse1 si \<longleftrightarrow> sd_map ix s si \<noteq> None"
      using contains_iff_key [OF inv1, of si] sd_map_dom [OF inv] by auto
    show ?thesis
    proof (cases "contains_at_index ix (sd_dense s) sparse1 si")
      case True
      then have "s' = s\<lparr>sd_sparse := sparse1\<rparr>" "r = Inr False"
        using e Inr ins by (auto simp: sd_insert_def Let_def)
      with True c k inv1 len show ?thesis by (simp add: sd_inv_def sd_map_def)
    next
      case False
      note g = sparse_take_append [OF inv1 ti si False]
      have eq: "(s', r) = (if tp = Dense_push_throws \<or> tp = Data_push_throws then (s\<lparr>sd_sparse := sparse1\<rparr>, Inl Bad_alloc)
        else (s\<lparr>sd_dense := sd_dense s @ [v], sd_data := sd_data s @ [d],
                sd_sparse := sparse1[unat si := of_size (length (sd_dense s))]\<rparr>, Inr True))"
        using ins e Inr False g(2) si by (auto simp: sd_insert_def Let_def split: if_splits)
      have "map_of (zip (map (key_of ix) (sd_dense s @ [v])) (sd_data s @ [d])) = (sd_map ix s)(si \<mapsto> d)"
        using map_of_append_new [of "map (key_of ix) (sd_dense s)" "sd_data s" si d] len g(3) k
        by (simp add: sd_map_def)
      with eq g(1) inv1 k len False c show ?thesis
        by (auto simp: sd_inv_def sd_map_def split: if_splits)
    qed
  qed
qed


text \<open>\<open>tryEmplace\<close> is \<open>insert\<close> with the position of the data as its answer, \<open>emplace\<close> is \<open>insert\<close>.\<close>

lemma sd_try_emplace_insert:
  assumes "length (sd_data s) = length (sd_dense s)"
  shows "sd_try_emplace lim ix tp s v d = (case sd_insert lim ix tp s v d of
      None \<Rightarrow> None
    | Some (s', Inl e) \<Rightarrow> Some (s', Inl e)
    | Some (s', Inr b) \<Rightarrow> Some (s', Inr (if b then Some (length (sd_data s)) else None)))"
  using assms
  by (auto simp: sd_try_emplace_def sd_insert_def Let_def split: option.splits sum.splits prod.splits)

lemma sd_emplace_insert:
  assumes "length (sd_data s) = length (sd_dense s)"
  shows "sd_emplace lim ix tp s v d = sd_insert lim ix tp s v d"
  by (auto simp: sd_emplace_def sd_try_emplace_insert [OF assms] split: option.splits sum.splits prod.splits)

lemma sd_erase_effect:
  assumes inv: "sd_inv ix s" and er: "sd_erase ix s v = (s', r)"
  shows "sd_inv ix s' \<and> r = Inr (sd_contains ix s v)
    \<and> sd_map ix s' = (if sd_contains ix s v then (sd_map ix s)(key_of ix v := None) else sd_map ix s)"
proof (cases "sd_contains ix s v")
  case False
  with er inv show ?thesis by (auto simp: sd_erase_def sd_contains_def split: option.splits)
next
  case True
  have inv0: "sparse_inv ix (sd_dense s) (sd_sparse s)" and len: "length (sd_data s) = length (sd_dense s)"
    using inv by (simp_all add: sd_inv_def)
  from True obtain si where ti: "try_to_sparse_index ix v = Some si"
    and c: "contains_at_index ix (sd_dense s) (sd_sparse s) si"
    by (auto simp: sd_contains_def split: option.splits)
  let ?d = "read_size (sd_sparse s ! unat si)"
  let ?n = "length (sd_dense s) - 1"
  note p = contains_position [OF c] and k = try_to_sparse_index_Some [OF ti]
  have n: "?n < length (sd_dense s)" using p(1) by linarith
  have ne: "sd_dense s \<noteq> []" "sd_data s \<noteq> []" using p(1) len by auto
  have l: "sd_dense s ! ?n = last (sd_dense s)" "sd_data s ! ?n = last (sd_data s)"
    using last_nth ne len by metis+
  have li: "key_index ix (last (sd_dense s)) < length (sd_sparse s)"
    using sparse_inv_entry(2) [OF inv0 n] l by simp
  let ?sparse1 = "if ?d = ?n then sd_sparse s
       else (sd_sparse s)[key_index ix (last (sd_dense s)) := of_size ?d]"
  have swap: "butlast ((sd_dense s)[?d := last (sd_dense s)]) = swap_pop (sd_dense s) ?d"
    "butlast ((sd_data s)[?d := last (sd_data s)]) = swap_pop (sd_data s) ?d"
    by (simp_all add: swap_pop_def)
  have pop: "swap_pop (sd_dense s) ?n = butlast (sd_dense s)" "swap_pop (sd_data s) ?n = butlast (sd_data s)"
    using len by (simp_all add: swap_pop_last)
  have eq: "s' = s\<lparr>sd_dense := swap_pop (sd_dense s) ?d, sd_data := swap_pop (sd_data s) ?d,
      sd_sparse := ?sparse1[unat si := - 1]\<rparr> \<and> r = Inr True"
  proof (cases "?d = ?n")
    case True
    with er ti c len pop show ?thesis by (simp add: sd_erase_def Let_def)
  next
    case False
    with er ti c l li len swap show ?thesis by (auto simp: sd_erase_def Let_def not_le)
  qed
  have keys: "map (key_of ix) (swap_pop (sd_dense s) ?d) = swap_pop (map (key_of ix) (sd_dense s)) ?d"
    by (simp add: map_swap_pop)
  have gone: "si \<notin> set (map (key_of ix) (swap_pop (sd_dense s) ?d))"
    unfolding keys using set_swap_pop [of ?d "map (key_of ix) (sd_dense s)"] sparse_keys_distinct [OF inv0] p by simp
  have inv1: "sparse_inv ix (swap_pop (sd_dense s) ?d) ?sparse1"
    using sparse_inv_swap_pop [OF inv0 p(1)] sparse_inv_butlast [OF inv0] pop by auto
  have "sparse_inv ix (swap_pop (sd_dense s) ?d) (?sparse1[unat si := - 1])"
  proof (rule sparse_inv_unused [OF inv1])
    fix j
    assume "j < length (swap_pop (sd_dense s) ?d)"
    then have "swap_pop (sd_dense s) ?d ! j \<in> set (swap_pop (sd_dense s) ?d)" by (rule nth_mem)
    then have "key_of ix (swap_pop (sd_dense s) ?d ! j) \<in> set (map (key_of ix) (swap_pop (sd_dense s) ?d))" by simp
    with gone show "key_index ix (swap_pop (sd_dense s) ?d ! j) \<noteq> unat si"
      by (metis word_unat_eq_iff)
  qed
  with eq len have "sd_inv ix s'" by (simp add: sd_inv_def)
  moreover have "sd_map ix s' = (sd_map ix s)(si := None)"
  proof -
    let ?ps = "zip (map (key_of ix) (sd_dense s)) (sd_data s)"
    have "sd_map ix s' = map_of (swap_pop ?ps ?d)"
      using eq p(1) len by (simp add: sd_map_def keys zip_swap_pop)
    also have "\<dots> = (map_of ?ps)(fst (?ps ! ?d) := None)"
      using p(1) len sparse_keys_distinct [OF inv0] by (intro map_of_swap_pop) simp_all
    also have "fst (?ps ! ?d) = si" using p len by simp
    finally show ?thesis unfolding sd_map_def .
  qed
  ultimately show ?thesis using True eq k by simp
qed

lemma sd_access:
  assumes inv: "sd_inv ix s"
  shows "sd_contains ix s v = (try_to_sparse_index ix v \<noteq> None \<and> sd_map ix s (key_of ix v) \<noteq> None)"
    and "sd_try_get ix s v = Inr (if try_to_sparse_index ix v = None then None else sd_map ix s (key_of ix v))"
    and "sd_get ix s v = (if sd_contains ix s v then Inr (the (sd_map ix s (key_of ix v))) else Inl Out_of_range)"
proof -
  have len: "length (sd_data s) = length (sd_dense s)" using inv by (simp add: sd_inv_def)
  show c: "sd_contains ix s v = (try_to_sparse_index ix v \<noteq> None \<and> sd_map ix s (key_of ix v) \<noteq> None)"
    using sd_map_contains [OF inv] try_to_sparse_index_Some [of ix v]
    by (auto simp: sd_contains_def split: option.splits)
  show g: "sd_try_get ix s v = Inr (if try_to_sparse_index ix v = None then None else sd_map ix s (key_of ix v))"
  proof (cases "try_to_sparse_index ix v")
    case None
    then show ?thesis by (simp add: sd_try_get_def)
  next
    case (Some si)
    then have k: "key_of ix v = si" by (rule try_to_sparse_index_Some)
    show ?thesis
      using sd_map_contains [OF inv, of si] contains_position(1) [of ix "sd_dense s" "sd_sparse s" si] Some k len
      by (auto simp: sd_try_get_def)
  qed
  show "sd_get ix s v = (if sd_contains ix s v then Inr (the (sd_map ix s (key_of ix v))) else Inl Out_of_range)"
    unfolding sd_get_def g c by (auto split: option.splits)
qed

lemma swap_at_map: "i < length xs \<Longrightarrow> j < length xs \<Longrightarrow> map f (swap_at i j xs) = swap_at i j (map f xs)"
  by (simp add: swap_at_def map_update)

lemma set_swap_at: "i < length xs \<Longrightarrow> j < length xs \<Longrightarrow> set (swap_at i j xs) = set xs"
  unfolding swap_at_def by (rule set_swap)

lemma distinct_swap_at: "i < length xs \<Longrightarrow> j < length xs \<Longrightarrow> distinct (swap_at i j xs) = distinct xs"
  unfolding swap_at_def by (rule distinct_swap)

lemma zip_swap_at:
  assumes "length xs = length ys" and "i < length xs" "j < length xs"
  shows "zip (swap_at i j xs) (swap_at i j ys) = swap_at i j (zip xs ys)"
  using assms by (simp add: swap_at_def update_zip)

lemma map_of_swap_at:
  assumes "distinct (map fst ps)" and "i < length ps" "j < length ps"
  shows "map_of (swap_at i j ps) = map_of ps"
proof (subst map_of_inject_set)
  show "distinct (map fst (swap_at i j ps))" using assms by (simp add: swap_at_map distinct_swap_at)
qed (use assms in \<open>simp_all add: set_swap_at\<close>)

lemma sd_swap_effect:
  assumes inv: "sd_inv ix s" and i: "i < length (sd_dense s)" and j: "j < length (sd_dense s)"
    and sw: "sd_swap_dense_entries ix s i j = (s', r)"
  shows "sd_inv ix s' \<and> r = Inr () \<and> sd_map ix s' = sd_map ix s
    \<and> sd_dense s' = swap_at i j (sd_dense s) \<and> sd_data s' = swap_at i j (sd_data s)"
proof (cases "i = j")
  case True
  with sw inv show ?thesis by (simp add: sd_swap_dense_entries_def swap_at_def)
next
  case False
  have inv0: "sparse_inv ix (sd_dense s) (sd_sparse s)" and len: "length (sd_data s) = length (sd_dense s)"
    using inv by (simp_all add: sd_inv_def)
  have at: "swap_at i j (sd_dense s) ! i = sd_dense s ! j" "swap_at i j (sd_dense s) ! j = sd_dense s ! i"
    using i j False by (simp_all add: swap_at_def)
  have eq: "s' = s\<lparr>sd_dense := swap_at i j (sd_dense s), sd_data := swap_at i j (sd_data s),
      sd_sparse := (sd_sparse s)[key_index ix (sd_dense s ! j) := of_size i, key_index ix (sd_dense s ! i) := of_size j]\<rparr>
      \<and> r = Inr ()"
    using sw False i j len sparse_inv_entry(2) [OF inv0 i] sparse_inv_entry(2) [OF inv0 j]
    by (auto simp: sd_swap_dense_entries_def Let_def at not_le)
  have "sparse_inv ix (sd_dense s') (sd_sparse s')"
    using sparse_inv_swap_at [OF inv0 i j False] eq by simp
  moreover have "sd_map ix s' = sd_map ix s"
    using eq i j len sparse_keys_distinct [OF inv0]
    by (simp add: sd_map_def swap_at_map zip_swap_at map_of_swap_at)
  moreover have "length (sd_data s') = length (sd_dense s')" using eq len by (simp add: swap_at_def)
  ultimately show ?thesis using eq by (simp add: sd_inv_def)
qed

end
