(* ===== verification/FastHashMap.thy ===== *)
theory FastHashMap
  imports BitOps SparseSet
begin

text \<open>
  \<open>FastHashMap\<close> (\<open>include/fat_p/FastHashMap.h\<close>): an open-addressing hash table with a byte of
  metadata per slot.  The bytes are read in groups of \<open>Group::kWidth\<close>; the bytes of the first group
  are mirrored behind the table so that a group may start anywhere.  The group operations are those
  of the portable \<open>Group\<close>; the vector versions are the same comparisons in one instruction.

  The template parameters are the record \<open>hash_policy\<close>.  Loops that end only because of the
  invariant (\<open>while (true)\<close>) are partial functions; \<open>None\<close> is a loop that does not end.  Reading
  outside the table or a slot without an element is \<^const>\<open>Undefined_behaviour\<close>.  Sizes and
  positions are natural numbers; a hash is a 64-bit word.
\<close>

section \<open>Template parameters\<close>

text \<open>
  \<open>cap_times_load\<close> and \<open>count_over_load\<close> are \<open>size_t(double(cap) * mMaxLoadFactor)\<close> and
  \<open>size_t(double(count) / mMaxLoadFactor)\<close>: the load factor of an object is a floating-point number
  that only occurs there.  \<open>assertions\<close> says whether \<open>assert\<close> is compiled in.
\<close>

record 'k hash_policy =
  mHasher :: "'k \<Rightarrow> u64"
  is_avalanching :: bool
  mKeyEqual :: "'k \<Rightarrow> 'k \<Rightarrow> bool"
  uses_tombstones :: bool
  kWidth :: nat
  cap_times_load :: "nat \<Rightarrow> nat"
  count_over_load :: "nat \<Rightarrow> nat"
  assertions :: bool

section \<open>Control bytes\<close>

definition kEmpty :: u8 where "kEmpty = 0x00"
definition kDeleted :: u8 where "kDeleted = 0x7E"
definition kSentinel :: u8 where "kSentinel = 0x7F"

definition is_full :: "u8 \<Rightarrow> bool" where
  "is_full ctrl \<longleftrightarrow> ctrl AND 0x80 \<noteq> 0"

definition is_deleted :: "u8 \<Rightarrow> bool" where
  "is_deleted ctrl \<longleftrightarrow> ctrl = kDeleted"

definition is_empty_or_deleted :: "u8 \<Rightarrow> bool" where
  "is_empty_or_deleted ctrl \<longleftrightarrow> ctrl < 0x80 \<and> ctrl \<noteq> kSentinel"

definition H2 :: "u64 \<Rightarrow> u8" where
  "H2 hash = ucast (drop_bit (64 - 7) hash OR 0x80)"

definition splitmix64 :: "u64 \<Rightarrow> u64" where
  "splitmix64 h = (let x = h XOR drop_bit 33 h; x = x * 0xff51afd7ed558ccd;
     x = x XOR drop_bit 33 x; x = x * 0xc4ceb9fe1a85ec53; x = x XOR drop_bit 33 x
   in if x \<noteq> 0 then x else 1)"

definition hash_key :: "'k hash_policy \<Rightarrow> 'k \<Rightarrow> u64" where
  "hash_key pol k = (let h = mHasher pol k in if is_avalanching pol then h else splitmix64 h)"

section \<open>Groups and masks of matches\<close>

definition group_load :: "nat \<Rightarrow> u8 list \<Rightarrow> nat \<Rightarrow> u8 list result" where
  "group_load w ctrl off = (if off + w \<le> length ctrl then Inr (take w (drop off ctrl)) else Inl Undefined_behaviour)"

definition mask_where :: "(u8 \<Rightarrow> bool) \<Rightarrow> u8 list \<Rightarrow> u32" where
  "mask_where P g = fold (\<lambda>i msk. if P (g ! i) then msk OR push_bit i 1 else msk) [0..<length g] 0"

definition group_match :: "u8 list \<Rightarrow> u8 \<Rightarrow> u32" where
  "group_match g h2 = mask_where (\<lambda>c. c = h2) g"

definition match_empty :: "u8 list \<Rightarrow> u32" where
  "match_empty g = group_match g kEmpty"

definition match_empty_or_deleted :: "u8 list \<Rightarrow> u32" where
  "match_empty_or_deleted g = mask_where is_empty_or_deleted g"

definition lowest_set_bit :: "u32 \<Rightarrow> nat" where
  "lowest_set_bit msk = ctz_loop msk"

definition remove_lowest_bit :: "u32 \<Rightarrow> u32" where
  "remove_lowest_bit msk = msk AND (msk - 1)"

text \<open>\<open>for (uint32_t i : mask)\<close>: the positions the iterator of \<open>BitMask\<close> goes through.\<close>

function mask_bits :: "u32 \<Rightarrow> nat list" where
  "mask_bits msk = (if msk = 0 then [] else lowest_set_bit msk # mask_bits (remove_lowest_bit msk))"
  by auto
termination
proof (relation "measure unat")
  fix msk :: u32
  assume "msk \<noteq> 0"
  then have "unat (msk - 1) < unat msk" by (simp add: unat_minus_one unat_gt_0)
  moreover have "unat (remove_lowest_bit msk) \<le> unat (msk - 1)"
    by (simp add: remove_lowest_bit_def word_and_le1 flip: word_le_nat_alt)
  ultimately show "(remove_lowest_bit msk, msk) \<in> measure unat" by simp
qed simp

declare mask_bits.simps [simp del]

section \<open>Probe sequences\<close>

record probe_seq =
  sMask :: nat
  mPos :: nat
  mStride :: nat

definition probe_start :: "u64 \<Rightarrow> nat \<Rightarrow> probe_seq" where
  "probe_start hash msk = \<lparr>sMask = msk, mPos = unat hash AND msk, mStride = 0\<rparr>"

definition probe_offset :: "probe_seq \<Rightarrow> nat \<Rightarrow> nat" where
  "probe_offset s i = (mPos s + i) AND sMask s"

definition next_linear :: "nat \<Rightarrow> probe_seq \<Rightarrow> probe_seq" where
  "next_linear w s = s\<lparr>mPos := (mPos s + w) AND sMask s\<rparr>"

definition next_triangular :: "nat \<Rightarrow> probe_seq \<Rightarrow> probe_seq" where
  "next_triangular w s = (let s1 = s\<lparr>mStride := mStride s + w\<rparr> in s1\<lparr>mPos := (mPos s1 + mStride s1) AND sMask s1\<rparr>)"

definition probe_next :: "'k hash_policy \<Rightarrow> probe_seq \<Rightarrow> probe_seq" where
  "probe_next pol s = (if uses_tombstones pol then next_triangular (kWidth pol) s else next_linear (kWidth pol) s)"

section \<open>The table\<close>

record ('k, 'v) hash_slot =
  element :: "('k \<times> 'v) option"
  mHome :: nat

record ('k, 'v) fhm =
  mCtrl :: "u8 list"
  mSlots :: "('k, 'v) hash_slot list"
  mSize :: nat
  mCapacity :: nat
  mMask :: nat
  mGrowthThreshold :: nat
  mTombstones :: nat
  mFrozen :: bool

definition kMinCapacity :: "'k hash_policy \<Rightarrow> nat" where
  "kMinCapacity pol = kWidth pol * 2"

definition compute_growth_threshold :: "'k hash_policy \<Rightarrow> nat \<Rightarrow> nat" where
  "compute_growth_threshold pol cap =
    (let threshold = cap_times_load pol cap;
         threshold = (if threshold \<ge> cap then cap - 1 else threshold)
     in if threshold < 1 then 1 else threshold)"

definition slot_key :: "('k, 'v) hash_slot list \<Rightarrow> nat \<Rightarrow> 'k result" where
  "slot_key slots idx = (if idx < length slots then
     (case element (slots ! idx) of None \<Rightarrow> Inl Undefined_behaviour | Some (k, v) \<Rightarrow> Inr k) else Inl Undefined_behaviour)"

definition slot_value :: "('k, 'v) hash_slot list \<Rightarrow> nat \<Rightarrow> 'v result" where
  "slot_value slots idx = (if idx < length slots then
     (case element (slots ! idx) of None \<Rightarrow> Inl Undefined_behaviour | Some (k, v) \<Rightarrow> Inr v) else Inl Undefined_behaviour)"

definition slot_construct :: "'k hash_policy \<Rightarrow> 'k \<Rightarrow> 'v \<Rightarrow> nat \<Rightarrow> ('k, 'v) hash_slot" where
  "slot_construct pol k v home = \<lparr>element = Some (k, v), mHome = (if uses_tombstones pol then 0 else home)\<rparr>"

definition set_ctrl :: "nat \<Rightarrow> nat \<Rightarrow> u8 list \<Rightarrow> nat \<Rightarrow> u8 \<Rightarrow> u8 list" where
  "set_ctrl w cap ctrl idx value =
    (let ctrl1 = ctrl[idx := value] in if idx < w then ctrl1[cap + idx := value] else ctrl1)"

text \<open>\<open>mem cap\<close>: the allocations for a table of that capacity succeed.\<close>

definition fh_allocate :: "'k hash_policy \<Rightarrow> (nat \<Rightarrow> bool) \<Rightarrow> nat \<Rightarrow> ('k, 'v) fhm \<Rightarrow> ('k, 'v) fhm result" where
  "fh_allocate pol mem cap m =
    (if \<not> mem cap then Inl Bad_alloc
     else Inr (m\<lparr>mCtrl := replicate (cap + kWidth pol) kEmpty,
       mSlots := replicate cap \<lparr>element = None, mHome = 0\<rparr>,
       mCapacity := cap, mMask := cap - 1, mGrowthThreshold := compute_growth_threshold pol cap\<rparr>))"

subsection \<open>Searching\<close>

fun match_key :: "'k hash_policy \<Rightarrow> ('k, 'v) hash_slot list \<Rightarrow> probe_seq \<Rightarrow> 'k \<Rightarrow> nat list \<Rightarrow> nat option result" where
  "match_key pol slots s k [] = Inr None"
| "match_key pol slots s k (i # is) =
    (case slot_key slots (probe_offset s i) of Inl e \<Rightarrow> Inl e
     | Inr k' \<Rightarrow> if mKeyEqual pol k' k then Inr (Some (probe_offset s i)) else match_key pol slots s k is)"

partial_function (option) find_loop ::
  "'k hash_policy \<Rightarrow> ('k, 'v) fhm \<Rightarrow> 'k \<Rightarrow> u8 \<Rightarrow> probe_seq \<Rightarrow> (nat \<times> bool) result option" where
  "find_loop pol m k h2 s =
    (case group_load (kWidth pol) (mCtrl m) (mPos s) of Inl e \<Rightarrow> Some (Inl e)
     | Inr g \<Rightarrow> (case match_key pol (mSlots m) s k (mask_bits (group_match g h2)) of Inl e \<Rightarrow> Some (Inl e)
        | Inr (Some idx) \<Rightarrow> Some (Inr (idx, True))
        | Inr None \<Rightarrow> if match_empty g \<noteq> 0 then Some (Inr (0, False)) else find_loop pol m k h2 (probe_next pol s)))"

definition find_slot :: "'k hash_policy \<Rightarrow> ('k, 'v) fhm \<Rightarrow> 'k \<Rightarrow> (nat \<times> bool) result option" where
  "find_slot pol m k = (if mCapacity m = 0 then Some (Inr (0, False))
     else let h = hash_key pol k in find_loop pol m k (H2 h) (probe_start h (mMask m)))"

text \<open>\<open>find_insert_slot\<close>; \<open>vacant\<close> is the group query (\<open>match_empty_or_deleted\<close> or \<open>match_empty\<close>).\<close>

partial_function (option) insert_slot_loop ::
  "'k hash_policy \<Rightarrow> (u8 list \<Rightarrow> u32) \<Rightarrow> u8 list \<Rightarrow> probe_seq \<Rightarrow> nat result option" where
  "insert_slot_loop pol vacant ctrl s =
    (case group_load (kWidth pol) ctrl (mPos s) of Inl e \<Rightarrow> Some (Inl e)
     | Inr g \<Rightarrow> if vacant g \<noteq> 0 then Some (Inr (probe_offset s (lowest_set_bit (vacant g))))
         else insert_slot_loop pol vacant ctrl (probe_next pol s))"

definition vacant_mask :: "'k hash_policy \<Rightarrow> u8 list \<Rightarrow> u32" where
  "vacant_mask pol g = (if uses_tombstones pol then match_empty_or_deleted g else match_empty g)"

definition find_insert_slot :: "'k hash_policy \<Rightarrow> ('k, 'v) fhm \<Rightarrow> u64 \<Rightarrow> nat result option" where
  "find_insert_slot pol m h = insert_slot_loop pol (vacant_mask pol) (mCtrl m) (probe_start h (mMask m))"

subsection \<open>Rehashing\<close>

fun rehash_loop :: "'k hash_policy \<Rightarrow> nat \<Rightarrow> u8 list \<Rightarrow> ('k, 'v) hash_slot list \<Rightarrow> nat list
    \<Rightarrow> u8 list \<times> ('k, 'v) hash_slot list \<times> nat \<Rightarrow> (u8 list \<times> ('k, 'v) hash_slot list \<times> nat) result option" where
  "rehash_loop pol new_cap old_ctrl old_slots [] t = Some (Inr t)"
| "rehash_loop pol new_cap old_ctrl old_slots (i # is) (ctrl, slots, n) =
    (if is_full (old_ctrl ! i) then
       (case element (old_slots ! i) of None \<Rightarrow> Some (Inl Undefined_behaviour)
        | Some (k, v) \<Rightarrow> (let h = hash_key pol k in
            (case insert_slot_loop pol match_empty ctrl (probe_start h (new_cap - 1)) of None \<Rightarrow> None
             | Some (Inl e) \<Rightarrow> Some (Inl e)
             | Some (Inr idx) \<Rightarrow> rehash_loop pol new_cap old_ctrl old_slots is
                 (set_ctrl (kWidth pol) new_cap ctrl idx (H2 h),
                  slots[idx := slot_construct pol k v (unat h AND (new_cap - 1))], n + 1))))
     else rehash_loop pol new_cap old_ctrl old_slots is (ctrl, slots, n))"

definition rehash_internal ::
  "'k hash_policy \<Rightarrow> (nat \<Rightarrow> bool) \<Rightarrow> ('k, 'v) fhm \<Rightarrow> nat \<Rightarrow> (('k, 'v) fhm \<times> unit result) option" where
  "rehash_internal pol mem m new_cap =
    (if mCapacity m = 0 then
       (case fh_allocate pol mem new_cap m of Inl e \<Rightarrow> Some (m, Inl e) | Inr m' \<Rightarrow> Some (m', Inr ()))
     else if \<not> mem new_cap then Some (m, Inl Bad_alloc)
     else (case rehash_loop pol new_cap (mCtrl m) (mSlots m) [0..<mCapacity m]
         (replicate (new_cap + kWidth pol) kEmpty, replicate new_cap \<lparr>element = None, mHome = 0\<rparr>, 0) of
         None \<Rightarrow> None
       | Some (Inl e) \<Rightarrow> Some (m, Inl e)
       | Some (Inr (ctrl, slots, n)) \<Rightarrow> Some (m\<lparr>mCtrl := ctrl, mSlots := slots, mCapacity := new_cap,
           mMask := new_cap - 1, mGrowthThreshold := compute_growth_threshold pol new_cap, mSize := n,
           mTombstones := (if uses_tombstones pol then 0 else mTombstones m)\<rparr>, Inr ())))"

definition maybe_rehash ::
  "'k hash_policy \<Rightarrow> (nat \<Rightarrow> bool) \<Rightarrow> ('k, 'v) fhm \<Rightarrow> (('k, 'v) fhm \<times> unit result) option" where
  "maybe_rehash pol mem m =
    (if mCapacity m = 0 then Some (m, Inr ())
     else if uses_tombstones pol then
       (if mSize m + mTombstones m \<ge> mGrowthThreshold m then
          (let new_cap = (if mSize m \<ge> mGrowthThreshold m div 2
             then (if mCapacity m \<noteq> 0 then mCapacity m * 2 else kMinCapacity pol) else mCapacity m)
           in rehash_internal pol mem m new_cap)
        else Some (m, Inr ()))
     else if mSize m \<ge> mGrowthThreshold m then
       rehash_internal pol mem m (if mCapacity m \<noteq> 0 then mCapacity m * 2 else kMinCapacity pol)
     else Some (m, Inr ()))"

section \<open>Modifiers\<close>

text \<open>
  The loop that \<open>insert\<close>, \<open>insert_or_assign\<close> and \<open>operator[]\<close> share: it looks for the key and
  remembers the first vacant slot.  \<open>None\<close> as \<open>insert_idx\<close> is \<open>SIZE_MAX\<close>.
\<close>

datatype probe_result = Found nat | Vacant "nat option"

partial_function (option) insert_loop :: "'k hash_policy \<Rightarrow> ('k, 'v) fhm \<Rightarrow> 'k \<Rightarrow> u8 \<Rightarrow> probe_seq
    \<Rightarrow> nat option \<Rightarrow> probe_result result option" where
  "insert_loop pol m k h2 s insert_idx =
    (case group_load (kWidth pol) (mCtrl m) (mPos s) of Inl e \<Rightarrow> Some (Inl e)
     | Inr g \<Rightarrow> (case match_key pol (mSlots m) s k (mask_bits (group_match g h2)) of Inl e \<Rightarrow> Some (Inl e)
        | Inr (Some idx) \<Rightarrow> Some (Inr (Found idx))
        | Inr None \<Rightarrow>
            (let insert_idx1 = (if insert_idx = None \<and> vacant_mask pol g \<noteq> 0
               then Some (probe_offset s (lowest_set_bit (vacant_mask pol g))) else insert_idx)
             in if match_empty g \<noteq> 0 then Some (Inr (Vacant insert_idx1))
                else insert_loop pol m k h2 (probe_next pol s) insert_idx1)))"

definition assert_mutable :: "'k hash_policy \<Rightarrow> ('k, 'v) fhm \<Rightarrow> bool" where
  "assert_mutable pol m \<longleftrightarrow> \<not> (assertions pol \<and> mFrozen m)"

definition assert_failed :: fault where
  "assert_failed = Runtime_error ''assert''"

definition fh_commit :: "'k hash_policy \<Rightarrow> ('k, 'v) fhm \<Rightarrow> nat \<Rightarrow> 'k \<Rightarrow> 'v \<Rightarrow> u64 \<Rightarrow> ('k, 'v) fhm" where
  "fh_commit pol m idx k v h =
    (let reused_tombstone = (uses_tombstones pol \<and> is_deleted (mCtrl m ! idx))
     in m\<lparr>mSlots := (mSlots m)[idx := slot_construct pol k v (unat h AND mMask m)],
          mCtrl := set_ctrl (kWidth pol) (mCapacity m) (mCtrl m) idx (H2 h),
          mSize := mSize m + 1,
          mTombstones := (if uses_tombstones pol \<and> reused_tombstone then mTombstones m - 1 else mTombstones m)\<rparr>)"

text \<open>
  The steps the three operations share up to the outcome of the search: the key was found in a slot
  (\<open>Inl idx\<close>), or the element was constructed (\<open>Inr idx\<close>).
\<close>

definition fh_insert_new :: "'k hash_policy \<Rightarrow> (nat \<Rightarrow> bool) \<Rightarrow> ('k, 'v) fhm \<Rightarrow> 'k \<Rightarrow> 'v
    \<Rightarrow> (('k, 'v) fhm \<times> (nat + nat) result) option" where
  "fh_insert_new pol mem m k v =
    (if \<not> assert_mutable pol m then Some (m, Inl assert_failed)
     else (case (if mCapacity m = 0 then fh_allocate pol mem (kMinCapacity pol) m else Inr m) of
       Inl e \<Rightarrow> Some (m, Inl e)
     | Inr m0 \<Rightarrow> (case maybe_rehash pol mem m0 of None \<Rightarrow> None
       | Some (m1, Inl e) \<Rightarrow> Some (m1, Inl e)
       | Some (m1, Inr u) \<Rightarrow>
          (let h = hash_key pol k in
           (case insert_loop pol m1 k (H2 h) (probe_start h (mMask m1)) None of None \<Rightarrow> None
            | Some (Inl e) \<Rightarrow> Some (m1, Inl e)
            | Some (Inr (Found idx)) \<Rightarrow> Some (m1, Inr (Inl idx))
            | Some (Inr (Vacant (Some idx))) \<Rightarrow> Some (fh_commit pol m1 idx k v h, Inr (Inr idx))
            | Some (Inr (Vacant None)) \<Rightarrow> (case find_insert_slot pol m1 h of None \<Rightarrow> None
                | Some (Inl e) \<Rightarrow> Some (m1, Inl e)
                | Some (Inr idx) \<Rightarrow> Some (fh_commit pol m1 idx k v h, Inr (Inr idx))))))))"

definition slot_assign :: "('k, 'v) fhm \<Rightarrow> nat \<Rightarrow> 'v \<Rightarrow> ('k, 'v) fhm" where
  "slot_assign m idx v = m\<lparr>mSlots := (mSlots m)[idx := (mSlots m ! idx)
     \<lparr>element := (case element (mSlots m ! idx) of None \<Rightarrow> None | Some (k, w) \<Rightarrow> Some (k, v))\<rparr>]\<rparr>"

text \<open>\<open>insert\<close> returns a pointer to the value, null when the key was there: the model returns the slot.\<close>

definition fh_insert :: "'k hash_policy \<Rightarrow> (nat \<Rightarrow> bool) \<Rightarrow> ('k, 'v) fhm \<Rightarrow> 'k \<Rightarrow> 'v
    \<Rightarrow> (('k, 'v) fhm \<times> nat option result) option" where
  "fh_insert pol mem m k v = (case fh_insert_new pol mem m k v of None \<Rightarrow> None
     | Some (m1, Inl e) \<Rightarrow> Some (m1, Inl e)
     | Some (m1, Inr (Inl idx)) \<Rightarrow> Some (m1, Inr None)
     | Some (m1, Inr (Inr idx)) \<Rightarrow> Some (m1, Inr (Some idx)))"

definition fh_insert_or_assign :: "'k hash_policy \<Rightarrow> (nat \<Rightarrow> bool) \<Rightarrow> ('k, 'v) fhm \<Rightarrow> 'k \<Rightarrow> 'v
    \<Rightarrow> (('k, 'v) fhm \<times> (nat \<times> bool) result) option" where
  "fh_insert_or_assign pol mem m k v = (case fh_insert_new pol mem m k v of None \<Rightarrow> None
     | Some (m1, Inl e) \<Rightarrow> Some (m1, Inl e)
     | Some (m1, Inr (Inl idx)) \<Rightarrow> Some (slot_assign m1 idx v, Inr (idx, False))
     | Some (m1, Inr (Inr idx)) \<Rightarrow> Some (m1, Inr (idx, True)))"

text \<open>\<open>operator[]\<close>; \<open>d\<close> is \<open>Value{}\<close>.  It returns a reference to the value: the model returns the slot.\<close>

definition fh_subscript :: "'k hash_policy \<Rightarrow> (nat \<Rightarrow> bool) \<Rightarrow> 'v \<Rightarrow> ('k, 'v) fhm \<Rightarrow> 'k
    \<Rightarrow> (('k, 'v) fhm \<times> nat result) option" where
  "fh_subscript pol mem d m k = (case fh_insert_new pol mem m k d of None \<Rightarrow> None
     | Some (m1, Inl e) \<Rightarrow> Some (m1, Inl e)
     | Some (m1, Inr (Inl idx)) \<Rightarrow> Some (m1, Inr idx)
     | Some (m1, Inr (Inr idx)) \<Rightarrow> Some (m1, Inr idx))"

subsection \<open>Erasing\<close>

text \<open>Subtraction of 64-bit words.\<close>

definition sub64 :: "nat \<Rightarrow> nat \<Rightarrow> nat" where
  "sub64 a b = (a + (2 ^ 64 - b mod 2 ^ 64)) mod 2 ^ 64"

partial_function (option) shift_back ::
  "'k hash_policy \<Rightarrow> ('k, 'v) fhm \<Rightarrow> nat \<Rightarrow> nat \<Rightarrow> (('k, 'v) fhm \<times> nat) result option" where
  "shift_back pol m hole scan =
    (if scan \<ge> length (mSlots m) \<or> hole \<ge> length (mSlots m) then Some (Inl Undefined_behaviour)
     else if is_full (mCtrl m ! scan) then
       (let natural_pos = mHome (mSlots m ! scan);
            dist_to_current = sub64 scan natural_pos AND mMask m;
            dist_to_hole = sub64 hole natural_pos AND mMask m
        in if dist_to_hole < dist_to_current then
             (if element (mSlots m ! scan) = None \<or> element (mSlots m ! hole) = None then Some (Inl Undefined_behaviour)
              else shift_back pol
                (m\<lparr>mCtrl := set_ctrl (kWidth pol) (mCapacity m) (mCtrl m) hole (mCtrl m ! scan),
                   mSlots := (mSlots m)[hole := \<lparr>element = element (mSlots m ! scan), mHome = natural_pos\<rparr>]\<rparr>)
                scan ((scan + 1) AND mMask m))
           else shift_back pol m hole ((scan + 1) AND mMask m))
     else Some (Inr (m, hole)))"

definition slot_destroy :: "('k, 'v) fhm \<Rightarrow> nat \<Rightarrow> ('k, 'v) fhm" where
  "slot_destroy m idx = m\<lparr>mSlots := (mSlots m)[idx := (mSlots m ! idx)\<lparr>element := None\<rparr>]\<rparr>"

definition erase_at :: "'k hash_policy \<Rightarrow> ('k, 'v) fhm \<Rightarrow> nat \<Rightarrow> ('k, 'v) fhm result option" where
  "erase_at pol m idx =
    (if uses_tombstones pol then
       Some (Inr ((slot_destroy m idx)\<lparr>mCtrl := set_ctrl (kWidth pol) (mCapacity m) (mCtrl m) idx kDeleted,
         mSize := mSize m - 1, mTombstones := mTombstones m + 1\<rparr>))
     else (case shift_back pol (m\<lparr>mSize := mSize m - 1\<rparr>) idx ((idx + 1) AND mMask m) of None \<Rightarrow> None
       | Some (Inl e) \<Rightarrow> Some (Inl e)
       | Some (Inr (m1, hole)) \<Rightarrow>
           Some (Inr ((slot_destroy m1 hole)\<lparr>mCtrl := set_ctrl (kWidth pol) (mCapacity m1) (mCtrl m1) hole kEmpty\<rparr>))))"

definition fh_erase :: "'k hash_policy \<Rightarrow> ('k, 'v) fhm \<Rightarrow> 'k \<Rightarrow> (('k, 'v) fhm \<times> bool result) option" where
  "fh_erase pol m k =
    (if \<not> assert_mutable pol m then Some (m, Inl assert_failed)
     else (case find_slot pol m k of None \<Rightarrow> None
       | Some (Inl e) \<Rightarrow> Some (m, Inl e)
       | Some (Inr (idx, found)) \<Rightarrow> if \<not> found then Some (m, Inr False)
           else (case erase_at pol m idx of None \<Rightarrow> None | Some (Inl e) \<Rightarrow> Some (m, Inl e)
             | Some (Inr m') \<Rightarrow> Some (m', Inr True))))"

definition fh_clear :: "'k hash_policy \<Rightarrow> ('k, 'v) fhm \<Rightarrow> ('k, 'v) fhm \<times> unit result" where
  "fh_clear pol m =
    (if \<not> assert_mutable pol m then (m, Inl assert_failed)
     else if mCtrl m \<noteq> [] then
       (m\<lparr>mSlots := fold (\<lambda>i slots. if is_full (mCtrl m ! i) then slots[i := (slots ! i)\<lparr>element := None\<rparr>] else slots)
            [0..<mCapacity m] (mSlots m),
          mCtrl := replicate (mCapacity m + kWidth pol) kEmpty, mSize := 0,
          mTombstones := (if uses_tombstones pol then 0 else mTombstones m)\<rparr>, Inr ())
     else (m, Inr ()))"

section \<open>Lookup\<close>

definition fh_find :: "'k hash_policy \<Rightarrow> ('k, 'v) fhm \<Rightarrow> 'k \<Rightarrow> 'v option result option" where
  "fh_find pol m k = (case find_slot pol m k of None \<Rightarrow> None
     | Some (Inl e) \<Rightarrow> Some (Inl e)
     | Some (Inr (idx, found)) \<Rightarrow> if found then
         (case slot_value (mSlots m) idx of Inl e \<Rightarrow> Some (Inl e) | Inr v \<Rightarrow> Some (Inr (Some v)))
       else Some (Inr None))"

definition fh_contains :: "'k hash_policy \<Rightarrow> ('k, 'v) fhm \<Rightarrow> 'k \<Rightarrow> bool result option" where
  "fh_contains pol m k = (case find_slot pol m k of None \<Rightarrow> None
     | Some (Inl e) \<Rightarrow> Some (Inl e) | Some (Inr (idx, found)) \<Rightarrow> Some (Inr found))"

definition fh_count :: "'k hash_policy \<Rightarrow> ('k, 'v) fhm \<Rightarrow> 'k \<Rightarrow> nat result option" where
  "fh_count pol m k = (case fh_contains pol m k of None \<Rightarrow> None
     | Some (Inl e) \<Rightarrow> Some (Inl e) | Some (Inr b) \<Rightarrow> Some (Inr (if b then 1 else 0)))"

definition fh_at :: "'k hash_policy \<Rightarrow> ('k, 'v) fhm \<Rightarrow> 'k \<Rightarrow> 'v result option" where
  "fh_at pol m k = (case find_slot pol m k of None \<Rightarrow> None
     | Some (Inl e) \<Rightarrow> Some (Inl e)
     | Some (Inr (idx, found)) \<Rightarrow> if \<not> found then Some (Inl Out_of_range) else Some (slot_value (mSlots m) idx))"

section \<open>Construction, capacity, iteration\<close>

definition fh_empty :: "('k, 'v) fhm" where
  "fh_empty = \<lparr>mCtrl = [], mSlots = [], mSize = 0, mCapacity = 0, mMask = 0, mGrowthThreshold = 0,
     mTombstones = 0, mFrozen = False\<rparr>"

text \<open>\<open>size_t cap = kMinCapacity; while (cap < count) cap *= 2;\<close>\<close>

definition grow_capacity :: "'k hash_policy \<Rightarrow> nat \<Rightarrow> nat option" where
  "grow_capacity pol count = (case double_until (of_nat count) (of_nat (kMinCapacity pol)) of None \<Rightarrow> None
     | Some cap \<Rightarrow> Some (unat cap))"

definition fh_new :: "'k hash_policy \<Rightarrow> (nat \<Rightarrow> bool) \<Rightarrow> nat \<Rightarrow> ('k, 'v) fhm result option" where
  "fh_new pol mem initial_capacity =
    (if initial_capacity > 0 then
       (case grow_capacity pol initial_capacity of None \<Rightarrow> None | Some cap \<Rightarrow> Some (fh_allocate pol mem cap fh_empty))
     else Some (Inr fh_empty))"

text \<open>The copy constructor: the loop constructs element by element in the same slots.\<close>

fun copy_loop :: "'k hash_policy \<Rightarrow> ('k, 'v) fhm \<Rightarrow> nat list \<Rightarrow> ('k, 'v) fhm \<Rightarrow> ('k, 'v) fhm result" where
  "copy_loop pol other [] m = Inr m"
| "copy_loop pol other (i # is) m =
    (if is_full (mCtrl other ! i) then
       (case element (mSlots other ! i) of None \<Rightarrow> Inl Undefined_behaviour
        | Some (k, v) \<Rightarrow> copy_loop pol other is
            (m\<lparr>mSlots := (mSlots m)[i := slot_construct pol k v (mHome (mSlots other ! i))],
               mCtrl := set_ctrl (kWidth pol) (mCapacity m) (mCtrl m) i (mCtrl other ! i)\<rparr>))
     else if is_deleted (mCtrl other ! i) then
       copy_loop pol other is (m\<lparr>mCtrl := set_ctrl (kWidth pol) (mCapacity m) (mCtrl m) i kDeleted\<rparr>)
     else copy_loop pol other is m)"

definition fh_copy :: "'k hash_policy \<Rightarrow> (nat \<Rightarrow> bool) \<Rightarrow> ('k, 'v) fhm \<Rightarrow> ('k, 'v) fhm result" where
  "fh_copy pol mem other =
    (let m0 = fh_empty\<lparr>mFrozen := mFrozen other\<rparr> in
     if mCapacity other > 0 then
       (case fh_allocate pol mem (mCapacity other) m0 of Inl e \<Rightarrow> Inl e
        | Inr m1 \<Rightarrow> (case copy_loop pol other [0..<mCapacity other] m1 of Inl e \<Rightarrow> Inl e
           | Inr m2 \<Rightarrow> Inr (m2\<lparr>mSize := mSize other,
               mTombstones := (if uses_tombstones pol then mTombstones other else mTombstones m2)\<rparr>)))
     else Inr m0)"

text \<open>Moving takes the table and leaves an empty container; the growth threshold stays behind.\<close>

definition fh_move :: "'k hash_policy \<Rightarrow> ('k, 'v) fhm \<Rightarrow> ('k, 'v) fhm \<times> ('k, 'v) fhm" where
  "fh_move pol other = (other, other\<lparr>mCtrl := [], mSlots := [], mSize := 0, mCapacity := 0, mMask := 0,
     mTombstones := (if uses_tombstones pol then 0 else mTombstones other), mFrozen := False\<rparr>)"

text \<open>Assignment to another object, and \<open>swap\<close>: the pairs are the two objects after the call.\<close>

definition fh_swap :: "('k, 'v) fhm \<Rightarrow> ('k, 'v) fhm \<Rightarrow> ('k, 'v) fhm \<times> ('k, 'v) fhm" where
  "fh_swap this other = (other, this)"

definition fh_copy_assign :: "'k hash_policy \<Rightarrow> (nat \<Rightarrow> bool) \<Rightarrow> ('k, 'v) fhm \<Rightarrow> ('k, 'v) fhm \<Rightarrow> ('k, 'v) fhm \<times> unit result" where
  "fh_copy_assign pol mem this other = (case fh_copy pol mem other of Inl e \<Rightarrow> (this, Inl e)
     | Inr tmp \<Rightarrow> (fst (fh_swap this tmp), Inr ()))"

definition fh_move_assign :: "'k hash_policy \<Rightarrow> ('k, 'v) fhm \<Rightarrow> ('k, 'v) fhm \<Rightarrow> ('k, 'v) fhm \<times> ('k, 'v) fhm" where
  "fh_move_assign pol this other = fh_move pol other"

definition fh_freeze :: "('k, 'v) fhm \<Rightarrow> ('k, 'v) fhm" where
  "fh_freeze m = m\<lparr>mFrozen := True\<rparr>"

definition fh_reserve ::
  "'k hash_policy \<Rightarrow> (nat \<Rightarrow> bool) \<Rightarrow> ('k, 'v) fhm \<Rightarrow> nat \<Rightarrow> (('k, 'v) fhm \<times> unit result) option" where
  "fh_reserve pol mem m count =
    (if \<not> assert_mutable pol m then Some (m, Inl assert_failed)
     else let required = count_over_load pol count + 1 in
       if required > mCapacity m then
         (case grow_capacity pol required of None \<Rightarrow> None | Some new_cap \<Rightarrow> rehash_internal pol mem m new_cap)
       else Some (m, Inr ()))"

definition fh_rehash ::
  "'k hash_policy \<Rightarrow> (nat \<Rightarrow> bool) \<Rightarrow> ('k, 'v) fhm \<Rightarrow> nat \<Rightarrow> (('k, 'v) fhm \<times> unit result) option" where
  "fh_rehash pol mem m count =
    (if \<not> assert_mutable pol m then Some (m, Inl assert_failed)
     else (case grow_capacity pol count of None \<Rightarrow> None
       | Some new_cap \<Rightarrow>
          (let should_rehash = new_cap > mCapacity m;
               should_rehash = (if uses_tombstones pol then should_rehash \<or> mTombstones m > mSize m div 4 else should_rehash)
           in if should_rehash then rehash_internal pol mem m new_cap else Some (m, Inr ()))))"

text \<open>\<open>skip_empty\<close> of the iterators, and a traversal from \<open>begin()\<close> to \<open>end()\<close>.\<close>

function skip_empty :: "('k, 'v) fhm \<Rightarrow> nat \<Rightarrow> nat" where
  "skip_empty m idx = (if idx < mCapacity m \<and> \<not> is_full (mCtrl m ! idx) then skip_empty m (idx + 1) else idx)"
  by auto
termination by (relation "measure (\<lambda>(m, idx). mCapacity m - idx)") auto

declare skip_empty.simps [simp del]

lemma skip_empty_ge: "idx \<le> skip_empty m idx"
  by (induction m idx rule: skip_empty.induct) (subst skip_empty.simps, auto)

function fh_entries_from :: "('k, 'v) fhm \<Rightarrow> nat \<Rightarrow> ('k \<times> 'v) list result" where
  "fh_entries_from m idx =
    (if skip_empty m idx < mCapacity m then
       (case element (mSlots m ! skip_empty m idx) of None \<Rightarrow> Inl Undefined_behaviour
        | Some p \<Rightarrow> (case fh_entries_from m (skip_empty m idx + 1) of Inl e \<Rightarrow> Inl e | Inr ps \<Rightarrow> Inr (p # ps)))
     else Inr [])"
  by auto
termination
proof (relation "measure (\<lambda>(m, idx). mCapacity m - idx)")
  fix m :: "('k, 'v) fhm" and idx p
  assume "skip_empty m idx < mCapacity m"
  with skip_empty_ge [of idx m]
  show "((m, skip_empty m idx + 1), m, idx) \<in> measure (\<lambda>(m, idx). mCapacity m - idx)" by simp
qed simp

declare fh_entries_from.simps [simp del]

definition fh_entries :: "('k, 'v) fhm \<Rightarrow> ('k \<times> 'v) list result" where
  "fh_entries m = fh_entries_from m 0"

declare find_loop.simps [code] insert_slot_loop.simps [code] insert_loop.simps [code] shift_back.simps [code]

end
