(* ===== verification/FastHashMap_Probe.thy ===== *)
theory FastHashMap_Probe
  imports FastHashMap
begin

text \<open>
  Facts about the parts of \<open>FastHashMap\<close>: control bytes, masks of matches, and the order in which
  the probe sequences visit the table.
\<close>

section \<open>Control bytes\<close>

lemma full_bit: "is_full c \<longleftrightarrow> bit c 7"
proof -
  have "(c AND 0x80 \<noteq> 0) \<longleftrightarrow> bit c 7"
    using bit_iff_and_push_bit_not_eq_0 [of c 7] by (simp add: push_bit_eq_mult)
  then show ?thesis by (simp add: is_full_def)
qed

lemma full_ge: "is_full c \<longleftrightarrow> 0x80 \<le> c"
proof -
  have "unat c < 256" using unat_bound [of c] by simp
  then have "odd (unat c div 128) \<longleftrightarrow> 128 \<le> unat c"
    by (cases "128 \<le> unat c") (auto simp: div_if)
  moreover have "bit c 7 \<longleftrightarrow> bit (unat c) 7" by (simp add: bit_unsigned_iff)
  then have "bit c 7 \<longleftrightarrow> odd (unat c div 128)" by (simp add: bit_iff_odd)
  ultimately show ?thesis by (simp add: full_bit word_le_nat_alt)
qed

lemma full_H2 [simp]: "is_full (H2 h)"
  by (simp add: full_bit H2_def bit_ucast_iff bit_or_iff)

lemma special_not_full [simp]: "\<not> is_full kEmpty" "\<not> is_full kDeleted" "kEmpty \<noteq> kDeleted" "kDeleted \<noteq> kEmpty"
  "is_empty_or_deleted kEmpty" "is_empty_or_deleted kDeleted" "is_deleted kDeleted" "\<not> is_deleted kEmpty"
  by (simp_all add: is_full_def kEmpty_def kDeleted_def is_empty_or_deleted_def kSentinel_def is_deleted_def)

lemma vacant_not_full: "is_empty_or_deleted c \<Longrightarrow> \<not> is_full c"
  by (simp add: full_ge is_empty_or_deleted_def not_le)

section \<open>Masks\<close>

lemma bit_remove_lowest:
  assumes "m \<noteq> 0"
  shows "bit (remove_lowest_bit m) i \<longleftrightarrow> bit m i \<and> i \<noteq> lowest_set_bit m"
proof -
  let ?c = "ctz_loop m"
  have c: "bit m ?c" "\<And>j. j < ?c \<Longrightarrow> \<not> bit m j" using ctz_loop_lowest [OF assms] by blast+
  have c32: "?c < 32" using bit_imp_le_length [OF c(1)] by simp
  define q where "q = m AND NOT (mask (Suc ?c))"
  have q: "bit q j \<longleftrightarrow> ?c < j \<and> bit m j" for j
    by (auto simp: q_def bit_and_iff bit_not_iff bit_mask_iff dest: bit_imp_le_length)
  have "m = q OR 2 ^ ?c"
    by (rule bit_eqI) (use c c32 in \<open>auto simp: bit_or_iff q bit_exp_iff, metis linorder_neqE_nat\<close>)
  also have "\<dots> = q + 2 ^ ?c"
    by (rule disjunctive_add [symmetric]) (auto simp: q bit_exp_iff)
  finally have m: "m - 1 = q + mask ?c" by (simp add: mask_eq_exp_minus_1)
  also have "\<dots> = q OR mask ?c" by (rule disjunctive_add) (auto simp: q bit_mask_iff)
  finally have "m - 1 = q OR mask ?c" .
  then show ?thesis unfolding remove_lowest_bit_def lowest_set_bit_def
    using c by (auto simp: bit_and_iff bit_or_iff q bit_mask_iff) (metis linorder_neqE_nat)
qed

lemma mask_bits_filter: "mask_bits m = filter (bit m) [0..<32]"
proof (induction m rule: mask_bits.induct)
  case (1 m)
  show ?case
  proof (cases "m = 0")
    case True
    then show ?thesis by (simp add: mask_bits.simps [of 0])
  next
    case False
    let ?c = "lowest_set_bit m"
    have c: "bit m ?c" "\<And>j. j < ?c \<Longrightarrow> \<not> bit m j"
      using ctz_loop_lowest [OF False] by (auto simp: lowest_set_bit_def)
    have c32: "?c < 32" using bit_imp_le_length [OF c(1)] by simp
    have "[0..<32] = [0..<?c] @ ?c # [Suc ?c..<32]"
      using c32 upt_add_eq_append [of 0 ?c "32 - ?c"] by (simp add: upt_conv_Cons)
    moreover have "filter (bit m) [0..<?c] = []" "filter (bit (remove_lowest_bit m)) [0..<?c] = []"
      using c(2) by (auto simp: filter_empty_conv bit_remove_lowest [OF False])
    moreover have "filter (bit (remove_lowest_bit m)) [Suc ?c..<32] = filter (bit m) [Suc ?c..<32]"
      by (rule filter_cong) (auto simp: bit_remove_lowest [OF False])
    moreover have "\<not> bit (remove_lowest_bit m) ?c" by (simp add: bit_remove_lowest [OF False])
    ultimately show ?thesis using 1 [OF False] c(1) False by (simp add: mask_bits.simps [of m])
  qed
qed

lemma bit_mask_where:
  assumes "length g \<le> 32"
  shows "bit (mask_where P g) i \<longleftrightarrow> i < length g \<and> P (g ! i)"
proof -
  have "bit (fold (\<lambda>i msk. if P (g ! i) then msk OR push_bit i 1 else msk) [0..<n] (0 :: u32)) i \<longleftrightarrow> i < n \<and> P (g ! i)"
    if "n \<le> 32" for n
    using that
    by (induction n) (auto simp: bit_or_iff bit_exp_iff less_Suc_eq)
  from this [OF assms] show ?thesis by (simp add: mask_where_def)
qed

lemma mask_where_nonzero: "length g \<le> 32 \<Longrightarrow> mask_where P g \<noteq> 0 \<longleftrightarrow> (\<exists>i<length g. P (g ! i))"
  using bit_mask_where [of g P] bit_eq_iff [of "mask_where P g" 0] by auto

lemma mask_where_bits: "length g \<le> 32 \<Longrightarrow> set (mask_bits (mask_where P g)) = {i. i < length g \<and> P (g ! i)}"
  by (auto simp: mask_bits_filter bit_mask_where)

lemma lowest_where:
  assumes "length g \<le> 32" and "mask_where P g \<noteq> 0"
  shows "lowest_set_bit (mask_where P g) < length g" and "P (g ! lowest_set_bit (mask_where P g))"
    and "j < lowest_set_bit (mask_where P g) \<Longrightarrow> \<not> P (g ! j)"
  using ctz_loop_lowest [OF assms(2)] bit_mask_where [OF assms(1), of P] by (auto simp: lowest_set_bit_def)

section \<open>Probe sequences\<close>

definition jump :: "'k hash_policy \<Rightarrow> nat \<Rightarrow> nat" where
  "jump pol n = (if uses_tombstones pol then n * (n + 1) div 2 else n)"

definition nth_probe :: "'k hash_policy \<Rightarrow> u64 \<Rightarrow> nat \<Rightarrow> nat \<Rightarrow> probe_seq" where
  "nth_probe pol h cap n = (probe_next pol ^^ n) (probe_start h (cap - 1))"

lemma nth_probe_0: "probe_start h (cap - 1) = nth_probe pol h cap 0"
  by (simp add: nth_probe_def)

lemma nth_probe_Suc [simp]: "probe_next pol (nth_probe pol h cap n) = nth_probe pol h cap (Suc n)"
  by (simp add: nth_probe_def)

lemma and_mask: "(x :: nat) AND (2 ^ p - 1) = x mod 2 ^ p"
  using take_bit_eq_mask [of p x] by (simp add: mask_eq_exp_minus_1 take_bit_eq_mod)

lemma and_mask' [simp]: "(x :: nat) AND (2 ^ p - Suc 0) = x mod 2 ^ p"
  using and_mask [of x p] by simp

lemma triangle_Suc: "Suc n * (Suc n + 1) div 2 = n * (n + 1) div 2 + Suc n"
proof -
  have "Suc n * (Suc n + 1) = n * (n + 1) + 2 * Suc n" by simp
  then show ?thesis by simp
qed

lemma nth_probe_facts:
  assumes "cap = 2 ^ p"
  shows "sMask (nth_probe pol h cap n) = cap - 1"
    and "uses_tombstones pol \<Longrightarrow> mStride (nth_probe pol h cap n) = kWidth pol * n"
    and "mPos (nth_probe pol h cap n) = (unat h + kWidth pol * jump pol n) mod cap"
proof -
  have "sMask (nth_probe pol h cap n) = cap - 1
    \<and> (uses_tombstones pol \<longrightarrow> mStride (nth_probe pol h cap n) = kWidth pol * n)
    \<and> mPos (nth_probe pol h cap n) = (unat h + kWidth pol * jump pol n) mod cap"
  proof (induction n)
    case 0
    show ?case by (simp add: nth_probe_def probe_start_def jump_def assms)
  next
    case (Suc n)
    have S: "nth_probe pol h cap (Suc n) = probe_next pol (nth_probe pol h cap n)" by simp
    show ?case
    proof (cases "uses_tombstones pol")
      case True
      have "jump pol (Suc n) = jump pol n + Suc n" using True triangle_Suc [of n] by (simp add: jump_def)
      then have "kWidth pol * jump pol (Suc n) = kWidth pol * jump pol n + (kWidth pol * n + kWidth pol)"
        by (simp add: algebra_simps)
      moreover have "((unat h + a) mod 2 ^ p + (kWidth pol * n + kWidth pol)) mod 2 ^ p
          = (unat h + (a + (kWidth pol * n + kWidth pol))) mod 2 ^ p" for a
        by (simp add: mod_simps add.assoc)
      ultimately show ?thesis using Suc True
        by (simp add: S [unfolded assms] probe_next_def next_triangular_def assms del: nth_probe_Suc)
    next
      case False
      with Suc show ?thesis
        by (simp add: S [unfolded assms] probe_next_def next_linear_def assms mod_simps jump_def algebra_simps del: nth_probe_Suc)
    qed
  qed
  then show "sMask (nth_probe pol h cap n) = cap - 1"
    and "uses_tombstones pol \<Longrightarrow> mStride (nth_probe pol h cap n) = kWidth pol * n"
    and "mPos (nth_probe pol h cap n) = (unat h + kWidth pol * jump pol n) mod cap" by blast+
qed

text \<open>Triangular numbers reach every residue modulo a power of two.\<close>

lemma triangle_less:
  assumes "i < j" and "j < 2 ^ r"
  shows "(i * (i + 1) div 2) mod 2 ^ r \<noteq> (j * (j + 1) div 2) mod (2 :: nat) ^ r"
proof
  assume eq: "(i * (i + 1) div 2) mod 2 ^ r = (j * (j + 1) div 2) mod (2 :: nat) ^ r"
  have ev: "2 * (n * (n + 1) div 2) = n * (n + 1)" for n :: nat by simp
  have le: "i * (i + 1) div 2 \<le> j * (j + 1) div 2" using assms(1) by (intro div_le_mono mult_le_mono) simp_all
  have "2 ^ r dvd j * (j + 1) div 2 - i * (i + 1) div 2" using eq [symmetric] le by (rule mod_eq_dvd_iff_nat [THEN iffD1, rotated])
  then have "2 * 2 ^ r dvd 2 * (j * (j + 1) div 2 - i * (i + 1) div 2)" by (rule mult_dvd_mono [OF dvd_refl])
  then have "2 ^ Suc r dvd j * (j + 1) - i * (i + 1)" by (simp only: power_Suc diff_mult_distrib2 ev)
  also have "j * (j + 1) - i * (i + 1) = (j - i) * (i + j + 1)"
    using assms(1) by (auto simp: algebra_simps dest!: less_imp_Suc_add)
  finally have d: "2 ^ Suc r dvd (j - i) * (i + j + 1)" .
  have pos: "0 < j - i" "j - i < 2 ^ Suc r" "0 < i + j + 1" "i + j + 1 < 2 ^ Suc r" using assms by simp_all
  show False
  proof (cases "even (j - i)")
    case True
    then have "odd (i + j + 1)" using assms(1) by auto
    then have "coprime (2 ^ Suc r) (i + j + 1)" by simp
    with d have "2 ^ Suc r dvd j - i" by (simp only: coprime_dvd_mult_left_iff)
    with pos show False by (auto dest: dvd_imp_le)
  next
    case False
    then have "coprime (2 ^ Suc r) (j - i)" by simp
    with d have "2 ^ Suc r dvd i + j + 1" by (simp only: coprime_dvd_mult_right_iff)
    with pos show False by (auto dest: dvd_imp_le)
  qed
qed

lemma jump_covers:
  assumes "q < 2 ^ r"
  shows "\<exists>n<2 ^ r. jump pol n mod 2 ^ r = q"
proof (cases "uses_tombstones pol")
  case False
  then show ?thesis using assms by (intro exI [of _ q]) (simp add: jump_def)
next
  case True
  have "inj_on (\<lambda>n. jump pol n mod 2 ^ r) {..<2 ^ r}"
    by (rule linorder_inj_onI) (use True triangle_less [of _ _ r] in \<open>auto simp: jump_def\<close>)
  moreover have "(\<lambda>n. jump pol n mod 2 ^ r) ` {..<2 ^ r} \<subseteq> {..<2 ^ r}" by auto
  ultimately have "(\<lambda>n. jump pol n mod 2 ^ r) ` {..<2 ^ r} = {..<2 ^ r}"
    by (intro card_subset_eq) (simp_all add: card_image)
  then have "q \<in> (\<lambda>n. jump pol n mod 2 ^ r) ` {..<2 ^ r}" using assms by simp
  then show ?thesis by auto
qed


section \<open>Tables\<close>

text \<open>The class of policies the header provides: groups of 16 or 32 bytes, and keys compared as such.\<close>

definition policy_ok :: "'k hash_policy \<Rightarrow> bool" where
  "policy_ok pol \<longleftrightarrow> (kWidth pol = 16 \<or> kWidth pol = 32) \<and> mKeyEqual pol = (=)"

text \<open>The number of steps from \<open>a\<close> to \<open>b\<close> around the table.\<close>

definition cdist :: "nat \<Rightarrow> nat \<Rightarrow> nat \<Rightarrow> nat" where
  "cdist cap a b = (b + cap - a) mod cap"

lemma cdist_less [simp]: "0 < cap \<Longrightarrow> cdist cap a b < cap"
  by (simp add: cdist_def)

lemma cdist_end: "\<lbrakk>a < cap; b < cap\<rbrakk> \<Longrightarrow> (a + cdist cap a b) mod cap = b"
  by (simp add: cdist_def mod_simps)

lemma cdist_unique: "\<lbrakk>a < cap; d < cap\<rbrakk> \<Longrightarrow> cdist cap a ((a + d) mod cap) = d"
  by (cases "a + d < cap") (auto simp: cdist_def mod_if)

lemma probe_covers:
  assumes pol: "policy_ok pol" and cap: "cap = 2 ^ p" "2 * kWidth pol \<le> cap" and j: "j < cap"
  shows "\<exists>n. \<exists>i<kWidth pol. (mPos (nth_probe pol h cap n) + i) mod cap = j"
proof -
  obtain e where e: "kWidth pol = 2 ^ e" 
  proof -
    have "kWidth pol = 2 ^ 4 \<or> kWidth pol = 2 ^ 5" using pol by (simp add: policy_ok_def)
    then show thesis using that by blast
  qed
  have "(2 :: nat) ^ e \<le> 2 ^ p" using cap unfolding e by linarith
  then have "e \<le> p" by simp
  then obtain r where p: "p = e + r" using le_iff_add by blast
  let ?W = "kWidth pol" and ?a = "unat h mod cap"
  have a: "?a < cap" using j by simp
  define d where "d = cdist cap ?a j"
  have d: "d < cap" "(?a + d) mod cap = j" using cdist_end [OF a j] a by (simp_all add: d_def)
  have W0: "0 < ?W" unfolding e by simp
  have q: "d div ?W < 2 ^ r" using d(1) unfolding cap(1) p e by (simp add: power_add less_mult_imp_div_less mult.commute)
  obtain n where n: "jump pol n mod 2 ^ r = d div ?W" using jump_covers [OF q] by blast
  have "jump pol n = 2 ^ r * (jump pol n div 2 ^ r) + d div ?W" using n by (metis mult_div_mod_eq)
  then have "?W * jump pol n = cap * (jump pol n div 2 ^ r) + ?W * (d div ?W)"
    unfolding cap(1) p e power_add by (metis distrib_left mult.assoc)
  then have "unat h + ?W * jump pol n + d mod ?W = cap * (jump pol n div 2 ^ r) + (unat h + d)"
    by (metis add.assoc add.left_commute mult_div_mod_eq)
  then have "(mPos (nth_probe pol h cap n) + d mod ?W) mod cap = (unat h + d) mod cap"
    unfolding nth_probe_facts(3) [OF cap(1)] by (metis mod_add_left_eq mod_mult_self4)
  also have "\<dots> = j" using d(2) by (simp add: mod_simps)
  finally show ?thesis using W0 by (intro exI [of _ n] exI [of _ "d mod ?W"]) simp
qed

end
