(* ===== verification/FastHashMap_Table.thy ===== *)
theory FastHashMap_Table
  imports FastHashMap_Probe
begin

section \<open>Well-formed tables\<close>

definition sound_size :: "'k hash_policy \<Rightarrow> nat \<Rightarrow> bool" where
  "sound_size pol cap \<longleftrightarrow> (\<exists>p. cap = 2 ^ p) \<and> 2 * kWidth pol \<le> cap \<and> cap \<le> 2 ^ 63"

definition mirrored :: "nat \<Rightarrow> nat \<Rightarrow> u8 list \<Rightarrow> bool" where
  "mirrored w cap ctrl \<longleftrightarrow> length ctrl = cap + w \<and> (\<forall>i<w. ctrl ! (cap + i) = ctrl ! i)"

text \<open>Position \<open>i\<close> of the \<open>n\<close>-th group that a search for a hash reads.\<close>

definition probed :: "'k hash_policy \<Rightarrow> nat \<Rightarrow> u64 \<Rightarrow> nat \<Rightarrow> nat \<Rightarrow> nat" where
  "probed pol cap h n i = (mPos (nth_probe pol h cap n) + i) mod cap"

definition no_empty_before :: "'k hash_policy \<Rightarrow> nat \<Rightarrow> u8 list \<Rightarrow> u64 \<Rightarrow> nat \<Rightarrow> bool" where
  "no_empty_before pol cap ctrl h n \<longleftrightarrow> (\<forall>m<n. \<forall>i<kWidth pol. ctrl ! probed pol cap h m i \<noteq> kEmpty)"

text \<open>A search for the hash gets to the slot: by groups, and without a hole slot by slot.\<close>

definition reach_groups :: "'k hash_policy \<Rightarrow> nat \<Rightarrow> u8 list \<Rightarrow> u64 \<Rightarrow> nat \<Rightarrow> bool" where
  "reach_groups pol cap ctrl h j \<longleftrightarrow> (\<exists>n. (\<exists>i<kWidth pol. probed pol cap h n i = j) \<and> no_empty_before pol cap ctrl h n)"

definition reach_linear :: "nat \<Rightarrow> u8 list \<Rightarrow> nat \<Rightarrow> nat \<Rightarrow> bool" where
  "reach_linear cap ctrl home j \<longleftrightarrow> (\<forall>d<cdist cap home j. is_full (ctrl ! ((home + d) mod cap)))"

definition slot_ok :: "'k hash_policy \<Rightarrow> nat \<Rightarrow> u8 list \<Rightarrow> ('k, 'v) hash_slot \<Rightarrow> nat \<Rightarrow> bool" where
  "slot_ok pol cap ctrl sl j \<longleftrightarrow> (\<exists>k v. element sl = Some (k, v) \<and> ctrl ! j = H2 (hash_key pol k)
     \<and> (if uses_tombstones pol then reach_groups pol cap ctrl (hash_key pol k) j
        else mHome sl = unat (hash_key pol k) mod cap \<and> reach_linear cap ctrl (mHome sl) j))"

definition byte_ok :: "'k hash_policy \<Rightarrow> u8 \<Rightarrow> bool" where
  "byte_ok pol c \<longleftrightarrow> is_full c \<or> c = kEmpty \<or> (uses_tombstones pol \<and> c = kDeleted)"

text \<open>The element in a slot, if there is one.\<close>

definition cell :: "u8 list \<Rightarrow> ('k, 'v) hash_slot list \<Rightarrow> nat \<Rightarrow> ('k \<times> 'v) option" where
  "cell ctrl slots j = (if is_full (ctrl ! j) then element (slots ! j) else None)"

definition holds :: "u8 list \<Rightarrow> ('k, 'v) hash_slot list \<Rightarrow> nat \<Rightarrow> 'k \<Rightarrow> bool" where
  "holds ctrl slots j k \<longleftrightarrow> (\<exists>v. cell ctrl slots j = Some (k, v))"

definition table_ok :: "'k hash_policy \<Rightarrow> nat \<Rightarrow> u8 list \<Rightarrow> ('k, 'v) hash_slot list \<Rightarrow> bool" where
  "table_ok pol cap ctrl slots \<longleftrightarrow> sound_size pol cap \<and> mirrored (kWidth pol) cap ctrl \<and> length slots = cap
     \<and> (\<forall>j<cap. byte_ok pol (ctrl ! j) \<and> (is_full (ctrl ! j) \<longrightarrow> slot_ok pol cap ctrl (slots ! j) j))
     \<and> (\<forall>i<cap. \<forall>j<cap. \<forall>k. holds ctrl slots i k \<and> holds ctrl slots j k \<longrightarrow> i = j)"

lemma sound_size_pos: "\<lbrakk>policy_ok pol; sound_size pol cap\<rbrakk> \<Longrightarrow> 0 < cap \<and> 0 < kWidth pol \<and> kWidth pol \<le> 32 \<and> kWidth pol < cap"
  by (auto simp: policy_ok_def sound_size_def)

lemma table_okD:
  assumes "table_ok pol cap ctrl slots"
  shows "sound_size pol cap" "mirrored (kWidth pol) cap ctrl" "length slots = cap"
    "\<And>j. j < cap \<Longrightarrow> byte_ok pol (ctrl ! j)"
    "\<And>j. \<lbrakk>j < cap; is_full (ctrl ! j)\<rbrakk> \<Longrightarrow> slot_ok pol cap ctrl (slots ! j) j"
    "\<And>i j k. \<lbrakk>i < cap; j < cap; holds ctrl slots i k; holds ctrl slots j k\<rbrakk> \<Longrightarrow> i = j"
  using assms unfolding table_ok_def by blast+

lemma full_holds:
  assumes "table_ok pol cap ctrl slots" and "j < cap" and "is_full (ctrl ! j)"
  shows "\<exists>k v. element (slots ! j) = Some (k, v) \<and> holds ctrl slots j k \<and> ctrl ! j = H2 (hash_key pol k)"
  using table_okD(5) [OF assms] assms(3) by (auto simp: slot_ok_def holds_def cell_def)

lemma holds_full: "holds ctrl slots j k \<Longrightarrow> is_full (ctrl ! j)"
  by (auto simp: holds_def cell_def split: if_splits)

lemma probed_less [simp]: "0 < cap \<Longrightarrow> probed pol cap h n i < cap"
  by (simp add: probed_def)

lemma group_load_ok:
  assumes "mirrored w cap ctrl" and "pos < cap" and "w \<le> cap"
  shows "\<exists>g. group_load w ctrl pos = Inr g \<and> length g = w \<and> (\<forall>i<w. g ! i = ctrl ! ((pos + i) mod cap))"
proof -
  have len: "length ctrl = cap + w" and mir: "\<And>i. i < w \<Longrightarrow> ctrl ! (cap + i) = ctrl ! i"
    using assms(1) by (auto simp: mirrored_def)
  have "take w (drop pos ctrl) ! i = ctrl ! ((pos + i) mod cap)" if i: "i < w" for i
  proof (cases "pos + i < cap")
    case True
    then show ?thesis using i len assms by simp
  next
    case False
    then have "(pos + i) mod cap = pos + i - cap" using i assms by (simp add: mod_if)
    moreover have "ctrl ! (pos + i) = ctrl ! (pos + i - cap)" using mir [of "pos + i - cap"] False i assms(2) by simp
    ultimately show ?thesis using i len assms by simp
  qed
  then show ?thesis using len assms by (simp add: group_load_def)
qed

lemma group_at:
  assumes pol: "policy_ok pol" and "sound_size pol cap" "mirrored (kWidth pol) cap ctrl"
  obtains g where "group_load (kWidth pol) ctrl (mPos (nth_probe pol h cap n)) = Inr g" "length g = kWidth pol"
    "length g \<le> 32" "\<And>i. i < kWidth pol \<Longrightarrow> g ! i = ctrl ! probed pol cap h n i"
proof -
  obtain p where p: "cap = 2 ^ p" using assms(2) by (auto simp: sound_size_def)
  note z = sound_size_pos [OF assms(1,2)]
  then have "mPos (nth_probe pol h cap n) < cap" by (simp add: nth_probe_facts(3) [OF p])
  from group_load_ok [OF assms(3) this] z that show thesis by (fastforce simp: probed_def)
qed

lemma probe_offset_nth: "sound_size pol cap \<Longrightarrow> probe_offset (nth_probe pol h cap n) i = probed pol cap h n i"
  by (auto simp: sound_size_def probe_offset_def nth_probe_facts(1) probed_def)

section \<open>Looking for a key\<close>

lemma match_key_list:
  assumes t: "table_ok pol cap ctrl slots" and pol: "policy_ok pol"
    and "\<forall>i\<in>set is. is_full (ctrl ! probed pol cap h n i)"
  shows "(\<exists>j i. match_key pol slots (nth_probe pol h cap n) k is = Inr (Some j) \<and> i \<in> set is \<and> j = probed pol cap h n i \<and> holds ctrl slots j k)
    \<or> (match_key pol slots (nth_probe pol h cap n) k is = Inr None \<and> (\<forall>i\<in>set is. \<not> holds ctrl slots (probed pol cap h n i) k))"
  using assms(3)
proof (induction "is")
  case (Cons i "is")
  let ?j = "probed pol cap h n i"
  have j: "?j < cap" using sound_size_pos [OF pol table_okD(1) [OF t]] by simp
  have f: "is_full (ctrl ! ?j)" using Cons.prems by simp
  obtain k' v where k': "element (slots ! ?j) = Some (k', v)" using full_holds [OF t j f] by blast
  then have key: "slot_key slots (probe_offset (nth_probe pol h cap n) i) = Inr k'"
    using j table_okD(1,3) [OF t] by (simp add: slot_key_def probe_offset_nth)
  have h: "holds ctrl slots ?j k \<longleftrightarrow> k' = k" using k' f by (simp add: holds_def cell_def)
  show ?case
  proof (cases "k' = k")
    case True
    then show ?thesis using key h pol table_okD(1) [OF t]
      by (auto simp: policy_ok_def probe_offset_nth)
  next
    case False
    have "\<forall>i\<in>set is. is_full (ctrl ! probed pol cap h n i)" using Cons.prems by simp
    from Cons.IH [OF this] False key h pol show ?thesis by (auto simp: policy_ok_def)
  qed
qed simp

text \<open>What a group tells about the key.\<close>

lemma match_group:
  assumes t: "table_ok pol cap ctrl slots" and pol: "policy_ok pol"
    and g: "length g = kWidth pol" "\<And>i. i < kWidth pol \<Longrightarrow> g ! i = ctrl ! probed pol cap (hash_key pol k) n i"
  defines "r \<equiv> match_key pol slots (nth_probe pol (hash_key pol k) cap n) k (mask_bits (group_match g (H2 (hash_key pol k))))"
  shows "\<lbrakk>i < kWidth pol; holds ctrl slots (probed pol cap (hash_key pol k) n i) k\<rbrakk> \<Longrightarrow>
      r = Inr (Some (probed pol cap (hash_key pol k) n i))"
    and "(\<And>i. i < kWidth pol \<Longrightarrow> \<not> holds ctrl slots (probed pol cap (hash_key pol k) n i) k) \<Longrightarrow> r = Inr None"
proof -
  let ?h = "hash_key pol k" and ?is = "mask_bits (group_match g (H2 (hash_key pol k)))"
  have cap: "0 < cap" and w: "length g \<le> 32" using sound_size_pos [OF pol table_okD(1) [OF t]] g(1) by simp_all
  have "is": "set ?is = {i. i < kWidth pol \<and> ctrl ! probed pol cap ?h n i = H2 ?h}"
    using mask_where_bits [OF w, of "\<lambda>c. c = H2 ?h"] g by (auto simp: group_match_def)
  then have full: "\<forall>i\<in>set ?is. is_full (ctrl ! probed pol cap ?h n i)" by simp
  note cases = match_key_list [OF t pol full, of k, folded r_def]
  show "r = Inr None" if none: "\<And>i. i < kWidth pol \<Longrightarrow> \<not> holds ctrl slots (probed pol cap ?h n i) k"
    using cases none "is" by auto
  assume i: "i < kWidth pol" and h: "holds ctrl slots (probed pol cap ?h n i) k"
  have "ctrl ! probed pol cap ?h n i = H2 ?h"
    using full_holds [OF t _ holds_full [OF h]] h cap by (auto simp: holds_def cell_def)
  then have "i \<in> set ?is" using "is" i by simp
  with cases h table_okD(6) [OF t] cap show "r = Inr (Some (probed pol cap ?h n i))" by (metis probed_less)
qed

section \<open>Where searches end\<close>

lemma probed_linear:
  assumes "sound_size pol cap" and "\<not> uses_tombstones pol"
  shows "probed pol cap h n i = (unat h mod cap + (kWidth pol * n + i)) mod cap"
proof -
  obtain p where p: "cap = 2 ^ p" using assms(1) by (auto simp: sound_size_def)
  show ?thesis using assms(2) by (simp add: probed_def nth_probe_facts(3) [OF p] jump_def mod_simps add.assoc)
qed

lemma linear_reach_groups:
  assumes "policy_ok pol" "sound_size pol cap" "\<not> uses_tombstones pol" "j < cap"
    and r: "reach_linear cap ctrl (unat h mod cap) j"
  shows "reach_groups pol cap ctrl h j"
proof -
  let ?W = "kWidth pol" and ?a = "unat h mod cap"
  have W: "0 < ?W" "0 < cap" using sound_size_pos [OF assms(1,2)] by simp_all
  define d where "d = cdist cap ?a j"
  have "probed pol cap h (d div ?W) (d mod ?W) = j"
    using cdist_end [of ?a cap j] assms(4) W by (simp add: probed_linear [OF assms(2,3)] d_def)
  moreover have "no_empty_before pol cap ctrl h (d div ?W)"
    unfolding no_empty_before_def
  proof (intro allI impI)
    fix m i
    assume m: "m < d div ?W" and i: "i < ?W"
    have "?W * m + i < ?W * (m + 1)" using i by simp
    also have "\<dots> \<le> ?W * (d div ?W)" using m by (intro mult_le_mono2) simp
    also have "\<dots> \<le> d" by simp
    finally have "is_full (ctrl ! ((?a + (?W * m + i)) mod cap))" using r by (simp add: reach_linear_def d_def)
    then show "ctrl ! probed pol cap h m i \<noteq> kEmpty" unfolding probed_linear [OF assms(2,3)] by auto
  qed
  moreover have "d mod ?W < ?W" using W by simp
  ultimately show ?thesis unfolding reach_groups_def by blast
qed

lemma holds_reach:
  assumes t: "table_ok pol cap ctrl slots" and pol: "policy_ok pol" and j: "j < cap" and h: "holds ctrl slots j k"
  shows "reach_groups pol cap ctrl (hash_key pol k) j"
proof -
  obtain v where "element (slots ! j) = Some (k, v)" using h holds_full [OF h] by (auto simp: holds_def cell_def)
  with table_okD(5) [OF t j holds_full [OF h]] show ?thesis
    using linear_reach_groups [OF pol table_okD(1) [OF t] _ j] by (auto simp: slot_ok_def split: if_splits)
qed

lemma match_empty_iff:
  assumes "length g = kWidth pol" "length g \<le> 32" "\<And>i. i < kWidth pol \<Longrightarrow> g ! i = ctrl ! probed pol cap h n i"
  shows "match_empty g \<noteq> 0 \<longleftrightarrow> (\<exists>i<kWidth pol. ctrl ! probed pol cap h n i = kEmpty)"
  using mask_where_nonzero [OF assms(2), of "\<lambda>c. c = kEmpty"] assms by (auto simp: match_empty_def group_match_def)

text \<open>A table with an empty slot: every probe sequence comes to a group with one.\<close>

lemma empty_group:
  assumes "policy_ok pol" "sound_size pol cap" and "j < cap" "ctrl ! j = kEmpty"
  shows "\<exists>n. \<exists>i<kWidth pol. ctrl ! probed pol cap h n i = kEmpty"
proof -
  obtain p where "cap = 2 ^ p" using assms(2) by (auto simp: sound_size_def)
  with probe_covers [OF assms(1) this _ assms(3), of h] assms(2,4) show ?thesis
    by (fastforce simp: probed_def sound_size_def)
qed

abbreviation key_probe :: "'k hash_policy \<Rightarrow> nat \<Rightarrow> 'k \<Rightarrow> nat \<Rightarrow> probe_seq" where
  "key_probe pol cap k n \<equiv> nth_probe pol (hash_key pol k) cap n"

lemma find_loop_found:
  assumes t: "table_ok pol (mCapacity m) (mCtrl m) (mSlots m)" and pol: "policy_ok pol"
    and j: "j < mCapacity m" and h: "holds (mCtrl m) (mSlots m) j k"
  shows "find_loop pol m k (H2 (hash_key pol k)) (key_probe pol (mCapacity m) k 0) = Some (Inr (j, True))"
proof -
  let ?h = "hash_key pol k" and ?cap = "mCapacity m"
  obtain n i where n: "i < kWidth pol" "probed pol ?cap ?h n i = j" "no_empty_before pol ?cap (mCtrl m) ?h n"
    using holds_reach [OF t pol j h] by (auto simp: reach_groups_def)
  have cap: "0 < ?cap" using j by simp
  have "find_loop pol m k (H2 ?h) (key_probe pol ?cap k l) = Some (Inr (j, True))" if "l \<le> n" for l
    using that
  proof (induction "n - l" arbitrary: l rule: less_induct)
    case less
    obtain g where g: "group_load (kWidth pol) (mCtrl m) (mPos (key_probe pol ?cap k l)) = Inr g" "length g = kWidth pol"
      "length g \<le> 32" "\<And>i. i < kWidth pol \<Longrightarrow> g ! i = mCtrl m ! probed pol ?cap ?h l i"
      using group_at [OF pol table_okD(1,2) [OF t], where h = ?h and n = l] by metis
    show ?case
    proof (cases "\<exists>i<kWidth pol. holds (mCtrl m) (mSlots m) (probed pol ?cap ?h l i) k")
      case True
      then obtain i' where i': "i' < kWidth pol" "holds (mCtrl m) (mSlots m) (probed pol ?cap ?h l i') k" by blast
      have "probed pol ?cap ?h l i' = j" using table_okD(6) [OF t _ j i'(2) h] cap by simp
      moreover have "match_key pol (mSlots m) (key_probe pol ?cap k l) k (mask_bits (group_match g (H2 ?h)))
          = Inr (Some (probed pol ?cap ?h l i'))"
        by (rule match_group(1) [OF t pol g(2) _ i']) (rule g(4))
      ultimately show ?thesis using g(1) by (subst find_loop.simps) simp
    next
      case False
      then have "l \<noteq> n" using n(1,2) h by blast
      with less.prems have l: "l < n" by simp
      then have "match_empty g = 0" using match_empty_iff [OF g(2,3,4)] n(3) by (auto simp: no_empty_before_def)
      moreover have "find_loop pol m k (H2 ?h) (key_probe pol ?cap k (Suc l)) = Some (Inr (j, True))"
        using less.hyps [of "Suc l"] l by simp
      moreover have "match_key pol (mSlots m) (key_probe pol ?cap k l) k (mask_bits (group_match g (H2 ?h))) = Inr None"
        by (rule match_group(2) [OF t pol g(2,4)]) (use False in simp_all)
      ultimately show ?thesis using g(1) by (subst find_loop.simps) simp
    qed
  qed
  then show ?thesis by simp
qed

lemma find_loop_missing:
  assumes t: "table_ok pol (mCapacity m) (mCtrl m) (mSlots m)" and pol: "policy_ok pol"
    and e: "e < mCapacity m" "mCtrl m ! e = kEmpty"
    and h: "\<And>j. j < mCapacity m \<Longrightarrow> \<not> holds (mCtrl m) (mSlots m) j k"
  shows "find_loop pol m k (H2 (hash_key pol k)) (key_probe pol (mCapacity m) k 0) = Some (Inr (0, False))"
proof -
  let ?h = "hash_key pol k" and ?cap = "mCapacity m"
  obtain n where n: "\<exists>i<kWidth pol. mCtrl m ! probed pol ?cap ?h n i = kEmpty"
    using empty_group [OF pol table_okD(1) [OF t] e] by blast
  have cap: "0 < ?cap" using e by simp
  have "find_loop pol m k (H2 ?h) (key_probe pol ?cap k l) = Some (Inr (0, False))" if "l \<le> n" for l
    using that
  proof (induction "n - l" arbitrary: l rule: less_induct)
    case less
    obtain g where g: "group_load (kWidth pol) (mCtrl m) (mPos (key_probe pol ?cap k l)) = Inr g" "length g = kWidth pol"
      "length g \<le> 32" "\<And>i. i < kWidth pol \<Longrightarrow> g ! i = mCtrl m ! probed pol ?cap ?h l i"
      using group_at [OF pol table_okD(1,2) [OF t], where h = ?h and n = l] by metis
    have none: "match_key pol (mSlots m) (key_probe pol ?cap k l) k (mask_bits (group_match g (H2 ?h))) = Inr None"
      by (rule match_group(2) [OF t pol g(2,4)]) (use h cap in simp_all)
    show ?case
    proof (cases "match_empty g = 0")
      case False
      with none g(1) show ?thesis by (subst find_loop.simps) simp
    next
      case True
      then have "l \<noteq> n" using n match_empty_iff [OF g(2,3,4)] by blast
      with less.prems have "find_loop pol m k (H2 ?h) (key_probe pol ?cap k (Suc l)) = Some (Inr (0, False))"
        using less.hyps [of "Suc l"] by simp
      with none True g(1) show ?thesis by (subst find_loop.simps) simp
    qed
  qed
  then show ?thesis by simp
qed

section \<open>Where a new element goes\<close>

definition vacant_at :: "'k hash_policy \<Rightarrow> u8 \<Rightarrow> bool" where
  "vacant_at pol c \<longleftrightarrow> (if uses_tombstones pol then is_empty_or_deleted c else c = kEmpty)"

lemma vacant_mask_where: "vacant_mask pol g = mask_where (vacant_at pol) g"
proof -
  have "vacant_at pol = (if uses_tombstones pol then is_empty_or_deleted else (\<lambda>c. c = kEmpty))"
    by (simp add: fun_eq_iff vacant_at_def)
  then show ?thesis by (simp add: vacant_mask_def match_empty_or_deleted_def match_empty_def group_match_def)
qed

text \<open>The first slot of a kind on the way of the search for a hash.\<close>

definition first_where :: "'k hash_policy \<Rightarrow> (u8 \<Rightarrow> bool) \<Rightarrow> nat \<Rightarrow> u8 list \<Rightarrow> u64 \<Rightarrow> nat \<Rightarrow> bool" where
  "first_where pol P cap ctrl h j \<longleftrightarrow> (\<exists>n. \<exists>i<kWidth pol. probed pol cap h n i = j \<and> P (ctrl ! j)
     \<and> (\<forall>m<n. \<forall>i<kWidth pol. \<not> P (ctrl ! probed pol cap h m i)) \<and> (\<forall>i'<i. \<not> P (ctrl ! probed pol cap h n i')))"

lemma first_whereI:
  assumes "mask_where P g \<noteq> 0" and "length g = kWidth pol" "length g \<le> 32"
    and "\<And>i. i < kWidth pol \<Longrightarrow> g ! i = ctrl ! probed pol cap h n i"
    and "\<forall>m<n. \<forall>i<kWidth pol. \<not> P (ctrl ! probed pol cap h m i)"
  shows "first_where pol P cap ctrl h (probed pol cap h n (lowest_set_bit (mask_where P g)))"
proof -
  note low = lowest_where [OF assms(3,1)]
  show ?thesis unfolding first_where_def
    by (rule exI [of _ n], rule exI [of _ "lowest_set_bit (mask_where P g)"])
      (use low assms(2,4,5) in \<open>auto dest: less_trans\<close>)
qed

lemma insert_slot_loop_spec:
  assumes pol: "policy_ok pol" "sound_size pol cap" "mirrored (kWidth pol) cap ctrl"
    and e: "e < cap" "ctrl ! e = kEmpty" "P kEmpty"
  shows "\<exists>j. insert_slot_loop pol (mask_where P) ctrl (nth_probe pol h cap 0) = Some (Inr j) \<and> first_where pol P cap ctrl h j"
proof -
  obtain n where n: "\<exists>i<kWidth pol. ctrl ! probed pol cap h n i = kEmpty"
    using empty_group [OF pol(1,2) e(1,2)] by blast
  have "\<exists>j. insert_slot_loop pol (mask_where P) ctrl (nth_probe pol h cap l) = Some (Inr j) \<and> first_where pol P cap ctrl h j"
    if "l \<le> n" "\<forall>m<l. \<forall>i<kWidth pol. \<not> P (ctrl ! probed pol cap h m i)" for l
    using that
  proof (induction "n - l" arbitrary: l rule: less_induct)
    case less
    obtain g where g: "group_load (kWidth pol) ctrl (mPos (nth_probe pol h cap l)) = Inr g" "length g = kWidth pol"
      "length g \<le> 32" "\<And>i. i < kWidth pol \<Longrightarrow> g ! i = ctrl ! probed pol cap h l i"
      using group_at [OF pol, where h = h and n = l] by metis
    show ?case
    proof (cases "mask_where P g = 0")
      case False
      with first_whereI [OF False g(2,3,4) less.prems(2)] g(1) show ?thesis
        by (subst insert_slot_loop.simps) (simp add: probe_offset_nth [OF pol(2)])
    next
      case True
      then have none: "\<forall>i<kWidth pol. \<not> P (ctrl ! probed pol cap h l i)"
        using mask_where_nonzero [OF g(3), of P] g(2,4) by auto
      then have "l \<noteq> n" using n e(3) by auto
      with less.prems none have "Suc l \<le> n" "\<forall>m<Suc l. \<forall>i<kWidth pol. \<not> P (ctrl ! probed pol cap h m i)"
        by (auto simp: less_Suc_eq)
      with less.hyps [of "Suc l"] True g(1) show ?thesis by (subst insert_slot_loop.simps) simp
    qed
  qed
  then show ?thesis by simp
qed


lemma insert_loop_found:
  assumes t: "table_ok pol (mCapacity m) (mCtrl m) (mSlots m)" and pol: "policy_ok pol"
    and j: "j < mCapacity m" and h: "holds (mCtrl m) (mSlots m) j k"
  shows "insert_loop pol m k (H2 (hash_key pol k)) (key_probe pol (mCapacity m) k 0) ins = Some (Inr (Found j))"
proof -
  let ?h = "hash_key pol k" and ?cap = "mCapacity m"
  obtain n i where n: "i < kWidth pol" "probed pol ?cap ?h n i = j" "no_empty_before pol ?cap (mCtrl m) ?h n"
    using holds_reach [OF t pol j h] by (auto simp: reach_groups_def)
  have cap: "0 < ?cap" using j by simp
  have "insert_loop pol m k (H2 ?h) (key_probe pol ?cap k l) ins = Some (Inr (Found j))" if "l \<le> n" for l
    using that
  proof (induction "n - l" arbitrary: l ins rule: less_induct)
    case less
    obtain g where g: "group_load (kWidth pol) (mCtrl m) (mPos (key_probe pol ?cap k l)) = Inr g" "length g = kWidth pol"
      "length g \<le> 32" "\<And>i. i < kWidth pol \<Longrightarrow> g ! i = mCtrl m ! probed pol ?cap ?h l i"
      using group_at [OF pol table_okD(1,2) [OF t], where h = ?h and n = l] by metis
    show ?case
    proof (cases "\<exists>i<kWidth pol. holds (mCtrl m) (mSlots m) (probed pol ?cap ?h l i) k")
      case True
      then obtain i' where i': "i' < kWidth pol" "holds (mCtrl m) (mSlots m) (probed pol ?cap ?h l i') k" by blast
      have "probed pol ?cap ?h l i' = j" using table_okD(6) [OF t _ j i'(2) h] cap by simp
      moreover have "match_key pol (mSlots m) (key_probe pol ?cap k l) k (mask_bits (group_match g (H2 ?h)))
          = Inr (Some (probed pol ?cap ?h l i'))"
        by (rule match_group(1) [OF t pol g(2) _ i']) (rule g(4))
      ultimately show ?thesis using g(1) by (subst insert_loop.simps) simp
    next
      case False
      then have "l \<noteq> n" using n(1,2) h by blast
      with less.prems have l: "l < n" by simp
      then have "match_empty g = 0" using match_empty_iff [OF g(2,3,4)] n(3) by (auto simp: no_empty_before_def)
      moreover have "insert_loop pol m k (H2 ?h) (key_probe pol ?cap k (Suc l)) ins' = Some (Inr (Found j))" for ins'
        using less.hyps [of "Suc l" ins'] l by simp
      moreover have "match_key pol (mSlots m) (key_probe pol ?cap k l) k (mask_bits (group_match g (H2 ?h))) = Inr None"
        by (rule match_group(2) [OF t pol g(2,4)]) (use False in simp_all)
      ultimately show ?thesis using g(1) by (subst insert_loop.simps) (simp add: Let_def)
    qed
  qed
  then show ?thesis by simp
qed

lemma vacant_kEmpty [simp]: "vacant_at pol kEmpty"
  by (simp add: vacant_at_def)

lemma insert_loop_missing:
  assumes t: "table_ok pol (mCapacity m) (mCtrl m) (mSlots m)" and pol: "policy_ok pol"
    and e: "e < mCapacity m" "mCtrl m ! e = kEmpty"
    and h: "\<And>j. j < mCapacity m \<Longrightarrow> \<not> holds (mCtrl m) (mSlots m) j k"
  shows "\<exists>j. insert_loop pol m k (H2 (hash_key pol k)) (key_probe pol (mCapacity m) k 0) None = Some (Inr (Vacant (Some j)))
    \<and> first_where pol (vacant_at pol) (mCapacity m) (mCtrl m) (hash_key pol k) j"
proof -
  let ?h = "hash_key pol k" and ?cap = "mCapacity m"
  define seen where "seen l ins \<longleftrightarrow> (case ins of
      None \<Rightarrow> \<forall>m'<l. \<forall>i<kWidth pol. \<not> vacant_at pol (mCtrl m ! probed pol ?cap ?h m' i)
    | Some j \<Rightarrow> first_where pol (vacant_at pol) ?cap (mCtrl m) ?h j)" for l ins
  obtain n where n: "\<exists>i<kWidth pol. mCtrl m ! probed pol ?cap ?h n i = kEmpty"
    using empty_group [OF pol table_okD(1) [OF t] e] by blast
  have cap: "0 < ?cap" using e by simp
  have "\<exists>j. insert_loop pol m k (H2 ?h) (key_probe pol ?cap k l) ins = Some (Inr (Vacant (Some j)))
      \<and> first_where pol (vacant_at pol) ?cap (mCtrl m) ?h j" if "l \<le> n" "seen l ins" for l ins
    using that
  proof (induction "n - l" arbitrary: l ins rule: less_induct)
    case less
    obtain g where g: "group_load (kWidth pol) (mCtrl m) (mPos (key_probe pol ?cap k l)) = Inr g" "length g = kWidth pol"
      "length g \<le> 32" "\<And>i. i < kWidth pol \<Longrightarrow> g ! i = mCtrl m ! probed pol ?cap ?h l i"
      using group_at [OF pol table_okD(1,2) [OF t], where h = ?h and n = l] by metis
    have none: "match_key pol (mSlots m) (key_probe pol ?cap k l) k (mask_bits (group_match g (H2 ?h))) = Inr None"
      by (rule match_group(2) [OF t pol g(2,4)]) (use h cap in simp_all)
    define ins1 where "ins1 = (if ins = None \<and> vacant_mask pol g \<noteq> 0
      then Some (probed pol ?cap ?h l (lowest_set_bit (vacant_mask pol g))) else ins)"
    have off: "probe_offset (key_probe pol ?cap k l) i = probed pol ?cap ?h l i" for i
      by (rule probe_offset_nth [OF table_okD(1) [OF t]])
    note step = insert_loop.simps [of pol m k "H2 ?h" "key_probe pol ?cap k l" ins, unfolded g(1) sum.case none option.case
        off nth_probe_Suc, folded ins1_def, unfolded Let_def]
    have "seen (Suc l) ins1"
    proof (cases "ins = None \<and> vacant_mask pol g \<noteq> 0")
      case True
      then have z: "mask_where (vacant_at pol) g \<noteq> 0" "\<forall>m'<l. \<forall>i<kWidth pol. \<not> vacant_at pol (mCtrl m ! probed pol ?cap ?h m' i)"
        using less.prems(2) by (simp_all add: vacant_mask_where seen_def)
      have "first_where pol (vacant_at pol) ?cap (mCtrl m) ?h (probed pol ?cap ?h l (lowest_set_bit (vacant_mask pol g)))"
        unfolding vacant_mask_where by (rule first_whereI [OF z(1) g(2,3,4) z(2)])
      with True show ?thesis by (simp add: seen_def ins1_def)
    next
      case False
      then show ?thesis using less.prems(2) mask_where_nonzero [OF g(3), of "vacant_at pol"] g(2,4)
        by (auto simp: seen_def ins1_def vacant_mask_where less_Suc_eq split: option.splits)
    qed
    moreover have "ins1 \<noteq> None" if "match_empty g \<noteq> 0"
      using that match_empty_iff [OF g(2,3,4)] mask_where_nonzero [OF g(3), of "vacant_at pol"] g(2,4)
      by (auto simp: ins1_def vacant_mask_where)
    ultimately show ?case
    proof (cases "match_empty g = 0")
      case False
      with \<open>match_empty g \<noteq> 0 \<Longrightarrow> ins1 \<noteq> None\<close> obtain j where "ins1 = Some j" by blast
      with \<open>seen (Suc l) ins1\<close> False show ?thesis unfolding step by (simp add: seen_def)
    next
      case True
      then have "l \<noteq> n" using n match_empty_iff [OF g(2,3,4)] by blast
      with less.prems have "Suc l \<le> n" by simp
      from less.hyps [OF _ this \<open>seen (Suc l) ins1\<close>] this True show ?thesis unfolding step by simp
    qed
  qed
  from this [of 0 None] show ?thesis by (simp add: seen_def)
qed

section \<open>Changing the table\<close>

lemma H2_not_empty: "H2 h \<noteq> kEmpty"
  using full_H2 [of h] special_not_full(1) by metis

lemma set_ctrl_ok:
  assumes "mirrored w cap ctrl" and "j < cap" and "w \<le> cap"
  shows "mirrored w cap (set_ctrl w cap ctrl j c)"
    and "i < cap \<Longrightarrow> set_ctrl w cap ctrl j c ! i = (if i = j then c else ctrl ! i)"
  using assms by (auto simp: mirrored_def set_ctrl_def Let_def nth_list_update)

lemma reach_groups_mono:
  assumes "reach_groups pol cap ctrl h j" and "0 < cap" and "\<And>i. \<lbrakk>i < cap; ctrl' ! i = kEmpty\<rbrakk> \<Longrightarrow> ctrl ! i = kEmpty"
  shows "reach_groups pol cap ctrl' h j"
proof -
  obtain n where n: "\<exists>i<kWidth pol. probed pol cap h n i = j" "no_empty_before pol cap ctrl h n"
    using assms(1) by (auto simp: reach_groups_def)
  then have "no_empty_before pol cap ctrl' h n" using assms(2,3) unfolding no_empty_before_def by (meson probed_less)
  with n(1) show ?thesis by (auto simp: reach_groups_def)
qed

lemma reach_linear_mono:
  assumes "reach_linear cap ctrl a j" and "0 < cap" and "\<And>i. \<lbrakk>i < cap; is_full (ctrl ! i)\<rbrakk> \<Longrightarrow> is_full (ctrl' ! i)"
  shows "reach_linear cap ctrl' a j"
  using assms unfolding reach_linear_def by (meson mod_less_divisor)

lemma not_vacant_full: "\<lbrakk>byte_ok pol c; \<not> vacant_at pol c\<rbrakk> \<Longrightarrow> is_full c"
  by (auto simp: byte_ok_def vacant_at_def split: if_splits)

lemma first_where_less: "\<lbrakk>first_where pol P cap ctrl h j; 0 < cap\<rbrakk> \<Longrightarrow> j < cap \<and> P (ctrl ! j)"
  by (auto simp: first_where_def)

text \<open>An element in the first vacant slot can be reached.\<close>

lemma first_where_reach:
  assumes pol: "policy_ok pol" "sound_size pol cap" and f: "first_where pol P cap ctrl h j" and P: "P kEmpty"
  shows "reach_groups pol cap ctrl h j"
    and "\<lbrakk>\<not> uses_tombstones pol; \<And>i. \<lbrakk>i < cap; \<not> P (ctrl ! i)\<rbrakk> \<Longrightarrow> is_full (ctrl ! i)\<rbrakk> \<Longrightarrow>
      reach_linear cap ctrl (unat h mod cap) j"
proof -
  let ?W = "kWidth pol" and ?a = "unat h mod cap"
  have W: "0 < ?W" "0 < cap" using sound_size_pos [OF pol] by simp_all
  obtain n i where n: "i < ?W" "probed pol cap h n i = j" "\<forall>m<n. \<forall>i<?W. \<not> P (ctrl ! probed pol cap h m i)"
    "\<forall>i'<i. \<not> P (ctrl ! probed pol cap h n i')" using f by (auto simp: first_where_def)
  show "reach_groups pol cap ctrl h j" unfolding reach_groups_def no_empty_before_def using n(1-3) P by metis
  assume t: "\<not> uses_tombstones pol" and full: "\<And>i. \<lbrakk>i < cap; \<not> P (ctrl ! i)\<rbrakk> \<Longrightarrow> is_full (ctrl ! i)"
  note lin = probed_linear [OF pol(2) t, of h]
  define D where "D = ?W * n + i"
  have "cdist cap ?a j = D mod cap"
    using cdist_unique [of ?a cap "D mod cap"] W by (simp add: n(2) [symmetric] lin D_def mod_simps)
  then have le: "cdist cap ?a j \<le> D" by simp
  show "reach_linear cap ctrl ?a j" unfolding reach_linear_def
  proof (intro allI impI)
    fix d
    assume "d < cdist cap ?a j"
    with le have d: "d < D" by simp
    have eq: "(?a + d) mod cap = probed pol cap h (d div ?W) (d mod ?W)" by (simp add: lin)
    have "d div ?W < n \<or> (d div ?W = n \<and> d mod ?W < i)"
    proof (cases "d div ?W < n")
      case False
      then have "?W * n \<le> ?W * (d div ?W)" by (intro mult_le_mono2) simp
      moreover have "d = ?W * (d div ?W) + d mod ?W" by simp
      ultimately have "?W * (d div ?W) < ?W * n + ?W" using d n(1) unfolding D_def by linarith
      then have "?W * (d div ?W) < ?W * Suc n" by simp
      then have "d div ?W < Suc n" by (simp only: mult_less_cancel1)
      with False have "d div ?W = n" by simp
      moreover from this have "d mod ?W < i" using d \<open>d = ?W * (d div ?W) + d mod ?W\<close> unfolding D_def by simp
      ultimately show ?thesis by simp
    qed simp
    then have "\<not> P (ctrl ! probed pol cap h (d div ?W) (d mod ?W))" using n(3,4) W by auto
    then show "is_full (ctrl ! ((?a + d) mod cap))" unfolding eq by (rule full [rotated]) (use W in simp)
  qed
qed

lemma and_cap: "sound_size pol cap \<Longrightarrow> x AND (cap - 1) = x mod cap"
  by (auto simp: sound_size_def)

text \<open>Constructing an element in the first vacant slot.\<close>

lemma table_place:
  fixes v :: 'v
  assumes t: "table_ok pol cap ctrl slots" and pol: "policy_ok pol"
    and f: "first_where pol (vacant_at pol) cap ctrl (hash_key pol k) j"
    and new: "\<And>i. i < cap \<Longrightarrow> \<not> holds ctrl slots i k"
  defines "ctrl' \<equiv> set_ctrl (kWidth pol) cap ctrl j (H2 (hash_key pol k))"
    and "slots' \<equiv> slots[j := slot_construct pol k v (unat (hash_key pol k) AND (cap - 1))]"
  shows "table_ok pol cap ctrl' slots'"
    and "i < cap \<Longrightarrow> cell ctrl' slots' i = (if i = j then Some (k, v) else cell ctrl slots i)"
proof -
  let ?h = "hash_key pol k"
  note z = sound_size_pos [OF pol table_okD(1) [OF t]]
  have j: "j < cap" "vacant_at pol (ctrl ! j)" using first_where_less [OF f] z by blast+
  have len: "length slots = cap" using table_okD(3) [OF t] .
  have nf: "\<not> is_full (ctrl ! j)" using j(2) vacant_not_full by (auto simp: vacant_at_def split: if_splits)
  have c: "ctrl' ! i = (if i = j then H2 ?h else ctrl ! i)" if "i < cap" for i
    unfolding ctrl'_def by (rule set_ctrl_ok(2) [OF table_okD(2) [OF t] j(1) _ that]) (use z in simp)
  have s: "slots' ! i = (if i = j then slot_construct pol k v (unat ?h AND (cap - 1)) else slots ! i)" if "i < cap" for i
    using that len by (auto simp: slots'_def nth_list_update)
  have cell: "cell ctrl' slots' i = (if i = j then Some (k, v) else cell ctrl slots i)" if "i < cap" for i
    using that by (auto simp: cell_def c s slot_construct_def)
  then show "i < cap \<Longrightarrow> cell ctrl' slots' i = (if i = j then Some (k, v) else cell ctrl slots i)" .
  have empt: "ctrl ! i = kEmpty" if "i < cap" "ctrl' ! i = kEmpty" for i
    using that c [of i] H2_not_empty [of ?h] by (auto split: if_splits)
  have full: "is_full (ctrl' ! i)" if "i < cap" "is_full (ctrl ! i)" for i using that c [of i] by simp
  have cap: "0 < cap" using z by simp
  have old: "slot_ok pol cap ctrl' (slots ! i) i" if "i < cap" "i \<noteq> j" "is_full (ctrl ! i)" for i
    using table_okD(5) [OF t that(1,3)] c [OF that(1)] that(2) reach_groups_mono [OF _ cap empt]
      reach_linear_mono [OF _ cap full] unfolding slot_ok_def by fastforce
  note reach = first_where_reach [OF pol table_okD(1) [OF t] f vacant_kEmpty]
  have "\<not> uses_tombstones pol \<Longrightarrow> reach_linear cap ctrl (unat ?h mod cap) j"
    by (rule reach(2)) (use not_vacant_full table_okD(4) [OF t] in blast)+
  then have lin: "\<not> uses_tombstones pol \<Longrightarrow> reach_linear cap ctrl' (unat ?h mod cap) j"
    by (rule reach_linear_mono [OF _ cap full])
  have "reach_groups pol cap ctrl' ?h j" by (rule reach_groups_mono [OF reach(1) cap empt])
  with lin have new_slot: "slot_ok pol cap ctrl' (slots' ! j) j"
    using and_cap [OF table_okD(1) [OF t]] j(1) by (simp add: slot_ok_def s c slot_construct_def)
  have hold: "holds ctrl' slots' i k' \<longleftrightarrow> (if i = j then k' = k else holds ctrl slots i k')" if "i < cap" for i k'
    using cell [OF that] by (auto simp: holds_def)
  show "table_ok pol cap ctrl' slots'"
    unfolding table_ok_def
  proof (intro conjI allI impI)
    show "sound_size pol cap" by (rule table_okD(1) [OF t])
    show "mirrored (kWidth pol) cap ctrl'" unfolding ctrl'_def
      by (rule set_ctrl_ok(1) [OF table_okD(2) [OF t] j(1)]) (use z in simp)
    show "length slots' = cap" using len by (simp add: slots'_def)
    fix i
    assume i: "i < cap"
    show "byte_ok pol (ctrl' ! i)" using table_okD(4) [OF t i] c [OF i] by (simp add: byte_ok_def)
    show "is_full (ctrl' ! i) \<Longrightarrow> slot_ok pol cap ctrl' (slots' ! i) i"
      using old [OF i] new_slot c [OF i] s [OF i] by (cases "i = j") simp_all
  next
    fix i i' k'
    assume "i < cap" "i' < cap" "holds ctrl' slots' i k' \<and> holds ctrl' slots' i' k'"
    then show "i = i'" using hold new table_okD(6) [OF t, of i i' k'] by (auto split: if_splits)
  qed
qed

end
