(* ===== verification/FastHashMap_Erase.thy ===== *)
theory FastHashMap_Erase
  imports FastHashMap_Table
begin

text \<open>
  Erasing from a table, by a tombstone and by shifting back the elements behind the erased one.
\<close>


section \<open>Erasing with tombstones\<close>

lemma table_delete:
  assumes t: "table_ok pol cap ctrl slots" and pol: "policy_ok pol" "uses_tombstones pol" and j: "j < cap" "is_full (ctrl ! j)"
  defines "ctrl' \<equiv> set_ctrl (kWidth pol) cap ctrl j kDeleted"
    and "slots' \<equiv> slots[j := (slots ! j)\<lparr>element := None\<rparr>]"
  shows "table_ok pol cap ctrl' slots'"
    and "i < cap \<Longrightarrow> ctrl' ! i = (if i = j then kDeleted else ctrl ! i)"
    and "i < cap \<Longrightarrow> cell ctrl' slots' i = (if i = j then None else cell ctrl slots i)"
proof -
  note z = sound_size_pos [OF pol(1) table_okD(1) [OF t]]
  have len: "length slots = cap" using table_okD(3) [OF t] .
  have c: "ctrl' ! i = (if i = j then kDeleted else ctrl ! i)" if "i < cap" for i
    unfolding ctrl'_def by (rule set_ctrl_ok(2) [OF table_okD(2) [OF t] j(1) _ that]) (use z in simp)
  then show "i < cap \<Longrightarrow> ctrl' ! i = (if i = j then kDeleted else ctrl ! i)" .
  have s: "slots' ! i = (if i = j then (slots ! j)\<lparr>element := None\<rparr> else slots ! i)" if "i < cap" for i
    using that len by (auto simp: slots'_def nth_list_update)
  have cell: "cell ctrl' slots' i = (if i = j then None else cell ctrl slots i)" if "i < cap" for i
    using that by (auto simp: cell_def c s)
  then show "i < cap \<Longrightarrow> cell ctrl' slots' i = (if i = j then None else cell ctrl slots i)" .
  have cap: "0 < cap" using z by simp
  have empt: "ctrl ! i = kEmpty" if "i < cap" "ctrl' ! i = kEmpty" for i
    using that c [of i] by (auto split: if_splits)
  have old: "slot_ok pol cap ctrl' (slots ! i) i" if "i < cap" "i \<noteq> j" "is_full (ctrl ! i)" for i
    using table_okD(5) [OF t that(1,3)] c [OF that(1)] that(2) reach_groups_mono [OF _ cap empt] pol(2)
    unfolding slot_ok_def by fastforce
  have hold: "holds ctrl' slots' i k' \<longleftrightarrow> i \<noteq> j \<and> holds ctrl slots i k'" if "i < cap" for i k'
    using cell [OF that] by (auto simp: holds_def)
  show "table_ok pol cap ctrl' slots'"
    unfolding table_ok_def
  proof (intro conjI allI impI)
    show "sound_size pol cap" by (rule table_okD(1) [OF t])
    show "mirrored (kWidth pol) cap ctrl'" unfolding ctrl'_def
      by (rule set_ctrl_ok(1) [OF table_okD(2) [OF t] j(1)]) (use z in simp)
    show "length slots' = cap" using len by (simp add: slots'_def)
    fix i
    assume i: "i < cap"
    show "byte_ok pol (ctrl' ! i)" using table_okD(4) [OF t i] c [OF i] pol(2) by (simp add: byte_ok_def)
    show "is_full (ctrl' ! i) \<Longrightarrow> slot_ok pol cap ctrl' (slots' ! i) i"
      using old [OF i] c [OF i] s [OF i] by (cases "i = j") simp_all
  next
    fix i i' k'
    assume "i < cap" "i' < cap" "holds ctrl' slots' i k' \<and> holds ctrl' slots' i' k'"
    then show "i = i'" using hold table_okD(6) [OF t, of i i' k'] by auto
  qed
qed

section \<open>Distances around the table\<close>

lemma cdist_cases: "\<lbrakk>a < cap; b < cap\<rbrakk> \<Longrightarrow> cdist cap a b = (if a \<le> b then b - a else b + cap - a)"
  by (auto simp: cdist_def mod_if)

lemma cdist_0_iff: "\<lbrakk>a < cap; b < cap\<rbrakk> \<Longrightarrow> cdist cap a b = 0 \<longleftrightarrow> a = b"
  by (auto simp: cdist_cases)

lemma cdist_via:
  assumes "a < cap" "h < cap" "s < cap"
  shows "cdist cap a s = (if cdist cap a h + cdist cap h s < cap then cdist cap a h + cdist cap h s
    else cdist cap a h + cdist cap h s - cap)"
  using assms by (auto simp: cdist_cases)

lemma next_cases: "s < cap \<Longrightarrow> Suc s mod cap = (if Suc s = cap then 0 else Suc s)"
  by (cases "Suc s = cap") auto

lemma cdist_inj: "\<lbrakk>a < cap; b < cap; c < cap; cdist cap a b = cdist cap a c\<rbrakk> \<Longrightarrow> b = c"
  by (metis cdist_end)

lemma cdist_next:
  assumes "a < cap" "s < cap" "cdist cap a s + 1 < cap"
  shows "cdist cap a ((s + 1) mod cap) = cdist cap a s + 1"
  using assms by (auto simp: cdist_cases next_cases split: if_splits)

lemma cdist_closer:
  assumes "s < cap" "e < cap" "s \<noteq> e"
  shows "cdist cap ((s + 1) mod cap) e < cdist cap s e"
  using assms by (auto simp: cdist_cases next_cases split: if_splits)

lemma sub64_cdist:
  assumes "sound_size pol cap" "a < cap" "b < cap"
  shows "sub64 b a AND (cap - 1) = cdist cap a b"
proof -
  obtain p where p: "cap = 2 ^ p" "cap \<le> 2 ^ 63" using assms(1) by (auto simp: sound_size_def)
  then have "p \<le> 63" by (metis one_less_numeral_iff power_increasing_iff semiring_norm(76))
  then have "(2 :: nat) ^ 64 = 2 ^ p * 2 ^ (64 - p)" by (simp flip: power_add)
  then obtain q where q: "(2 :: nat) ^ 64 = cap * q" "0 < q" using p(1) by simp
  have "a < 2 ^ 64" using assms(2) p(2) by simp
  then have "sub64 b a AND (cap - 1) = (b + (cap * q - a)) mod (cap * q) mod cap"
    unfolding and_cap [OF assms(1)] sub64_def q(1) [symmetric] by simp
  also have "\<dots> = (b + (cap * q - a)) mod cap" by (simp add: mod_mod_cancel)
  also have "b + (cap * q - a) = (b + cap - a) + cap * (q - 1)"
    using q(2) assms(2) by (cases q) (simp_all add: algebra_simps)
  also have "\<dots> mod cap = (b + cap - a) mod cap" by simp
  finally show ?thesis by (simp add: cdist_def)
qed

section \<open>Erasing by shifting back\<close>

text \<open>
  The state of the loop: the slot \<open>hole\<close> still has its byte, its element counts no more; all slots
  from there up to \<open>scan\<close> are full and the way to their elements does not lead over \<open>hole\<close>.
\<close>

definition shift_inv :: "'k hash_policy \<Rightarrow> nat \<Rightarrow> u8 list \<Rightarrow> ('k, 'v) hash_slot list \<Rightarrow> nat \<Rightarrow> nat \<Rightarrow> bool" where
  "shift_inv pol cap ctrl slots hole scan \<longleftrightarrow>
     sound_size pol cap \<and> mirrored (kWidth pol) cap ctrl \<and> length slots = cap \<and> hole < cap \<and> scan < cap \<and> hole \<noteq> scan
     \<and> is_full (ctrl ! hole) \<and> element (slots ! hole) \<noteq> None
     \<and> (\<forall>j<cap. byte_ok pol (ctrl ! j) \<and> (j \<noteq> hole \<longrightarrow> is_full (ctrl ! j) \<longrightarrow> slot_ok pol cap ctrl (slots ! j) j))
     \<and> (\<forall>i<cap. \<forall>j<cap. \<forall>k. i \<noteq> hole \<and> j \<noteq> hole \<and> holds ctrl slots i k \<and> holds ctrl slots j k \<longrightarrow> i = j)
     \<and> (\<forall>j<cap. j \<noteq> hole \<and> cdist cap hole j < cdist cap hole scan \<longrightarrow>
          is_full (ctrl ! j) \<and> cdist cap (mHome (slots ! j)) j < cdist cap hole j)"

definition cells_but :: "nat \<Rightarrow> u8 list \<Rightarrow> ('k, 'v) hash_slot list \<Rightarrow> nat \<Rightarrow> ('k \<times> 'v) set" where
  "cells_but cap ctrl slots hole = {p. \<exists>j<cap. j \<noteq> hole \<and> cell ctrl slots j = Some p}"

lemma shift_invD:
  assumes "shift_inv pol cap ctrl slots hole scan"
  shows "sound_size pol cap" "mirrored (kWidth pol) cap ctrl" "length slots = cap" "hole < cap" "scan < cap" "hole \<noteq> scan"
    "is_full (ctrl ! hole)" "element (slots ! hole) \<noteq> None" "\<And>j. j < cap \<Longrightarrow> byte_ok pol (ctrl ! j)"
    "\<And>j. \<lbrakk>j < cap; j \<noteq> hole; is_full (ctrl ! j)\<rbrakk> \<Longrightarrow> slot_ok pol cap ctrl (slots ! j) j"
    "\<And>i j k. \<lbrakk>i < cap; j < cap; i \<noteq> hole; j \<noteq> hole; holds ctrl slots i k; holds ctrl slots j k\<rbrakk> \<Longrightarrow> i = j"
    "\<And>j. \<lbrakk>j < cap; j \<noteq> hole; cdist cap hole j < cdist cap hole scan\<rbrakk> \<Longrightarrow>
      is_full (ctrl ! j) \<and> cdist cap (mHome (slots ! j)) j < cdist cap hole j"
  using assms unfolding shift_inv_def by blast+

lemma slot_home:
  assumes "slot_ok pol cap ctrl sl j" and "\<not> uses_tombstones pol" and "0 < cap"
  shows "mHome sl < cap" "reach_linear cap ctrl (mHome sl) j"
  using assms by (auto simp: slot_ok_def)

lemma shift_skip:
  assumes inv: "shift_inv pol cap ctrl slots hole scan" and ts: "\<not> uses_tombstones pol"
    and full: "is_full (ctrl ! scan)" and e: "e < cap" "ctrl ! e = kEmpty"
    and stay: "\<not> cdist cap (mHome (slots ! scan)) hole < cdist cap (mHome (slots ! scan)) scan"
  shows "shift_inv pol cap ctrl slots hole ((scan + 1) mod cap)"
proof -
  note D = shift_invD [OF inv]
  have cap: "0 < cap" using e(1) by simp
  let ?a = "mHome (slots ! scan)"
  have a: "?a < cap" using slot_home(1) [OF D(10) [OF D(5) D(6) [symmetric] full] ts cap] .
  have dpos: "0 < cdist cap hole scan" using cdist_0_iff [OF D(4,5)] D(6) by simp
  have close: "cdist cap ?a scan < cdist cap hole scan"
    using cdist_via [OF a D(4,5)] stay dpos cdist_less [OF cap, of ?a hole] by (auto split: if_splits)
  have ne: "e \<noteq> hole" "e \<noteq> scan" using D(7) full e(2) by auto
  have "cdist cap hole scan \<noteq> cdist cap hole e" using cdist_inj [OF D(4) e(1) D(5)] ne(2) by auto
  moreover have "\<not> cdist cap hole e < cdist cap hole scan" using D(12) [OF e(1) ne(1)] e(2) by auto
  ultimately have "cdist cap hole scan < cdist cap hole e" by simp
  then have lt: "cdist cap hole scan + 1 < cap" using cdist_less [OF cap, of hole e] by linarith
  note nx = cdist_next [OF D(4,5) lt]
  have "hole \<noteq> (scan + 1) mod cap" using nx cdist_0_iff [OF D(4) D(4)] by auto
  moreover have "is_full (ctrl ! j) \<and> cdist cap (mHome (slots ! j)) j < cdist cap hole j"
    if j: "j < cap" "j \<noteq> hole" "cdist cap hole j < cdist cap hole ((scan + 1) mod cap)" for j
  proof (cases "j = scan")
    case True
    then show ?thesis using full close by simp
  next
    case False
    then have "cdist cap hole j \<noteq> cdist cap hole scan"
      using cdist_inj [OF D(4) j(1) D(5)] by blast
    with j(3) nx have "cdist cap hole j < cdist cap hole scan" by linarith
    with D(12) [OF j(1,2)] show ?thesis by blast
  qed
  moreover have "(scan + 1) mod cap < cap" using cap by simp
  ultimately show ?thesis using inv unfolding shift_inv_def by blast
qed

lemma shift_move:
  fixes slots :: "('k, 'v) hash_slot list"
  assumes inv: "shift_inv pol cap ctrl slots hole scan" and pol: "policy_ok pol" and ts: "\<not> uses_tombstones pol"
    and full: "is_full (ctrl ! scan)" and e: "e < cap" "ctrl ! e = kEmpty"
    and move: "cdist cap (mHome (slots ! scan)) hole < cdist cap (mHome (slots ! scan)) scan"
  defines "ctrl' \<equiv> set_ctrl (kWidth pol) cap ctrl hole (ctrl ! scan)"
    and "slots' \<equiv> slots[hole := \<lparr>element = element (slots ! scan), mHome = mHome (slots ! scan)\<rparr>]"
  shows "shift_inv pol cap ctrl' slots' scan ((scan + 1) mod cap)"
    and "cells_but cap ctrl' slots' scan = cells_but cap ctrl slots hole"
    and "j < cap \<Longrightarrow> is_full (ctrl' ! j) = is_full (ctrl ! j)"
proof -
  note D = shift_invD [OF inv]
  note z = sound_size_pos [OF pol D(1)]
  have cap: "0 < cap" using z by simp
  let ?a = "mHome (slots ! scan)"
  have ok: "slot_ok pol cap ctrl (slots ! scan) scan" by (rule D(10) [OF D(5) D(6) [symmetric] full])
  have a: "?a < cap" by (rule slot_home(1) [OF ok ts cap])
  have c: "ctrl' ! i = (if i = hole then ctrl ! scan else ctrl ! i)" if "i < cap" for i
    unfolding ctrl'_def by (rule set_ctrl_ok(2) [OF D(2) D(4) _ that]) (use z in simp)
  have s: "slots' ! i = (if i = hole then slots ! scan else slots ! i)" if "i < cap" for i
    using that D(3) by (auto simp: slots'_def nth_list_update)
  have same: "is_full (ctrl' ! i) = is_full (ctrl ! i)" if "i < cap" for i
    using c [OF that] full D(7) by simp
  then show "j < cap \<Longrightarrow> is_full (ctrl' ! j) = is_full (ctrl ! j)" .
  have cell: "cell ctrl' slots' i = (if i = hole then cell ctrl slots scan else cell ctrl slots i)" if "i < cap" for i
    using that by (auto simp: cell_def c s full)
  have hold: "holds ctrl' slots' i k \<longleftrightarrow> (if i = hole then holds ctrl slots scan k else holds ctrl slots i k)" if "i < cap" for i k
    using cell [OF that] by (simp add: holds_def)
  show "cells_but cap ctrl' slots' scan = cells_but cap ctrl slots hole"
  proof (rule set_eqI)
    fix p
    have "(\<exists>j<cap. j \<noteq> scan \<and> cell ctrl' slots' j = Some p)
        \<longleftrightarrow> (\<exists>j<cap. j \<noteq> scan \<and> (if j = hole then cell ctrl slots scan else cell ctrl slots j) = Some p)"
      using cell by (metis (no_types))
    also have "\<dots> \<longleftrightarrow> cell ctrl slots scan = Some p \<or> (\<exists>j<cap. j \<noteq> scan \<and> j \<noteq> hole \<and> cell ctrl slots j = Some p)"
      using D(4,6) by (metis (no_types))
    also have "\<dots> \<longleftrightarrow> (\<exists>j<cap. j \<noteq> hole \<and> cell ctrl slots j = Some p)" using D(5,6) by metis
    finally show "p \<in> cells_but cap ctrl' slots' scan \<longleftrightarrow> p \<in> cells_but cap ctrl slots hole" by (simp add: cells_but_def)
  qed
  have lin: "reach_linear cap ctrl' b j" if "reach_linear cap ctrl b j" for b j
    by (rule reach_linear_mono [OF that cap]) (use same in blast)
  have old: "slot_ok pol cap ctrl' (slots ! j) j" if "j < cap" "j \<noteq> hole" "is_full (ctrl ! j)" for j
    using D(10) [OF that] lin [of "mHome (slots ! j)" j] c [OF that(1)] that(2) ts unfolding slot_ok_def by auto
  have "reach_linear cap ctrl ?a hole"
    using slot_home(2) [OF ok ts cap] move unfolding reach_linear_def by simp
  then have "reach_linear cap ctrl' ?a hole" by (rule lin)
  moreover obtain k v where "element (slots ! scan) = Some (k, v)" "ctrl ! scan = H2 (hash_key pol k)"
    "?a = unat (hash_key pol k) mod cap" using ok ts by (auto simp: slot_ok_def)
  ultimately have there: "slot_ok pol cap ctrl' (slots' ! hole) hole"
    unfolding slot_ok_def using c [OF D(4)] s [OF D(4)] ts by (intro exI [of _ k] exI [of _ v]) simp
  have ne: "e \<noteq> scan" using full e(2) by auto
  then have "cap > 1" using e(1) D(5) by linarith
  then have one: "cdist cap scan ((scan + 1) mod cap) = 1"
    using cdist_next [OF D(5) D(5)] cdist_0_iff [OF D(5) D(5)] by simp
  then have apart: "scan \<noteq> (scan + 1) mod cap" using cdist_0_iff [OF D(5) D(5)] by auto
  show "shift_inv pol cap ctrl' slots' scan ((scan + 1) mod cap)"
    unfolding shift_inv_def
  proof (intro conjI allI impI)
    show "sound_size pol cap" "length slots' = cap" "scan < cap" "(scan + 1) mod cap < cap" "scan \<noteq> (scan + 1) mod cap"
      using D(1,3,5) apart cap by (simp_all add: slots'_def)
    show "mirrored (kWidth pol) cap ctrl'" unfolding ctrl'_def by (rule set_ctrl_ok(1) [OF D(2) D(4)]) (use z in simp)
    show "is_full (ctrl' ! scan)" using same [OF D(5)] full by simp
    show "element (slots' ! scan) \<noteq> None" using s [OF D(5)] ok by (auto simp: slot_ok_def)
    fix j
    assume j: "j < cap"
    show "byte_ok pol (ctrl' ! j)" using c [OF j] D(9) [OF j] D(9) [OF D(5)] by simp
    show "slot_ok pol cap ctrl' (slots' ! j) j" if "j \<noteq> scan" "is_full (ctrl' ! j)"
      using old [OF j] there s [OF j] same [OF j] that by (cases "j = hole") simp_all
    assume "j \<noteq> scan \<and> cdist cap scan j < cdist cap scan ((scan + 1) mod cap)"
    then have False using one cdist_0_iff [OF D(5) j] by simp
    then show "is_full (ctrl' ! j)" "cdist cap (mHome (slots' ! j)) j < cdist cap scan j" by blast+
  next
    fix i j k
    assume *: "i < cap" "j < cap" "i \<noteq> scan \<and> j \<noteq> scan \<and> holds ctrl' slots' i k \<and> holds ctrl' slots' j k"
    define i' where "i' = (if i = hole then scan else i)"
    define j' where "j' = (if j = hole then scan else j)"
    have "holds ctrl slots i' k" "holds ctrl slots j' k" using * hold by (simp_all add: i'_def j'_def)
    moreover have "i' < cap" "j' < cap" "i' \<noteq> hole" "j' \<noteq> hole" using * D(5,6) by (simp_all add: i'_def j'_def)
    ultimately have "i' = j'" using D(11) by blast
    then show "i = j" using * by (simp add: i'_def j'_def split: if_splits)
  qed
qed

lemma shift_finish:
  fixes slots :: "('k, 'v) hash_slot list"
  assumes inv: "shift_inv pol cap ctrl slots hole scan" and pol: "policy_ok pol" and ts: "\<not> uses_tombstones pol"
    and stop: "\<not> is_full (ctrl ! scan)"
  defines "ctrl' \<equiv> set_ctrl (kWidth pol) cap ctrl hole kEmpty"
    and "slots' \<equiv> slots[hole := (slots ! hole)\<lparr>element := None\<rparr>]"
  shows "table_ok pol cap ctrl' slots'"
    and "i < cap \<Longrightarrow> ctrl' ! i = (if i = hole then kEmpty else ctrl ! i)"
    and "i < cap \<Longrightarrow> cell ctrl' slots' i = (if i = hole then None else cell ctrl slots i)"
proof -
  note D = shift_invD [OF inv]
  note z = sound_size_pos [OF pol D(1)]
  have cap: "0 < cap" using z by simp
  have c: "ctrl' ! i = (if i = hole then kEmpty else ctrl ! i)" if "i < cap" for i
    unfolding ctrl'_def by (rule set_ctrl_ok(2) [OF D(2) D(4) _ that]) (use z in simp)
  then show "i < cap \<Longrightarrow> ctrl' ! i = (if i = hole then kEmpty else ctrl ! i)" .
  have s: "slots' ! i = (if i = hole then (slots ! hole)\<lparr>element := None\<rparr> else slots ! i)" if "i < cap" for i
    using that D(3) by (auto simp: slots'_def nth_list_update)
  have cell: "cell ctrl' slots' i = (if i = hole then None else cell ctrl slots i)" if "i < cap" for i
    using that by (auto simp: cell_def c s)
  then show "i < cap \<Longrightarrow> cell ctrl' slots' i = (if i = hole then None else cell ctrl slots i)" .
  have avoid: "reach_linear cap ctrl' (mHome (slots ! j)) j" if j: "j < cap" "j \<noteq> hole" "is_full (ctrl ! j)" for j
    unfolding reach_linear_def
  proof (intro allI impI)
    let ?a = "mHome (slots ! j)"
    note home = slot_home [OF D(10) [OF j] ts cap]
    fix d
    assume d: "d < cdist cap ?a j"
    have fd: "is_full (ctrl ! ((?a + d) mod cap))" using home(2) d by (simp add: reach_linear_def)
    have "(?a + d) mod cap \<noteq> hole"
    proof
      assume h: "(?a + d) mod cap = hole"
      have dc: "d < cap" using d cdist_less [OF cap, of ?a j] by simp
      have ah: "cdist cap ?a hole = d" unfolding h [symmetric] by (rule cdist_unique [OF home(1) dc])
      have aj: "cdist cap ?a j = d + cdist cap hole j"
        using cdist_via [OF home(1) D(4) j(1)] d ah cdist_less [OF cap, of hole j]
        by (cases "d + cdist cap hole j < cap") (simp_all, linarith?)
      have "\<not> cdist cap hole j < cdist cap hole scan"
        using D(12) [OF j(1,2)] aj by linarith
      moreover have "cdist cap hole j \<noteq> cdist cap hole scan"
        using j(3) stop cdist_inj [OF D(4) j(1) D(5)] by blast
      ultimately have lt: "d + cdist cap hole scan < cdist cap ?a j" using aj by linarith
      have "(?a + (d + cdist cap hole scan)) mod cap = ((?a + d) mod cap + cdist cap hole scan) mod cap"
        by (simp add: mod_simps add.assoc)
      also have "\<dots> = scan" unfolding h by (rule cdist_end [OF D(4,5)])
      finally show False using home(2) lt stop by (auto simp: reach_linear_def)
    qed
    then show "is_full (ctrl' ! ((?a + d) mod cap))" using fd c [of "(?a + d) mod cap"] cap by simp
  qed
  have old: "slot_ok pol cap ctrl' (slots ! j) j" if "j < cap" "j \<noteq> hole" "is_full (ctrl ! j)" for j
    using D(10) [OF that] avoid [OF that] c [OF that(1)] that(2) ts unfolding slot_ok_def by auto
  have hold: "holds ctrl' slots' i k' \<longleftrightarrow> i \<noteq> hole \<and> holds ctrl slots i k'" if "i < cap" for i k'
    using cell [OF that] by (auto simp: holds_def)
  show "table_ok pol cap ctrl' slots'"
    unfolding table_ok_def
  proof (intro conjI allI impI)
    show "sound_size pol cap" "length slots' = cap" using D(1,3) by (simp_all add: slots'_def)
    show "mirrored (kWidth pol) cap ctrl'" unfolding ctrl'_def by (rule set_ctrl_ok(1) [OF D(2) D(4)]) (use z in simp)
    fix i
    assume i: "i < cap"
    show "byte_ok pol (ctrl' ! i)" using D(9) [OF i] c [OF i] by (simp add: byte_ok_def)
    show "is_full (ctrl' ! i) \<Longrightarrow> slot_ok pol cap ctrl' (slots' ! i) i"
      using old [OF i] c [OF i] s [OF i] by (cases "i = hole") simp_all
  next
    fix i i' k'
    assume "i < cap" "i' < cap" "holds ctrl' slots' i k' \<and> holds ctrl' slots' i' k'"
    then show "i = i'" using hold D(11) [of i i' k'] by auto
  qed
qed

text \<open>The loop ends at the first hole after the erased slot.\<close>

lemma shift_back_spec:
  fixes m :: "('k, 'v) fhm"
  assumes inv: "shift_inv pol (mCapacity m) (mCtrl m) (mSlots m) hole scan" and pol: "policy_ok pol"
    and ts: "\<not> uses_tombstones pol" and mask: "mMask m = mCapacity m - 1"
    and e: "e < mCapacity m" "mCtrl m ! e = kEmpty"
  shows "\<exists>ctrl slots hole' scan'. shift_back pol m hole scan = Some (Inr (m\<lparr>mCtrl := ctrl, mSlots := slots\<rparr>, hole'))
    \<and> shift_inv pol (mCapacity m) ctrl slots hole' scan' \<and> \<not> is_full (ctrl ! scan')
    \<and> cells_but (mCapacity m) ctrl slots hole' = cells_but (mCapacity m) (mCtrl m) (mSlots m) hole
    \<and> (\<forall>j<mCapacity m. is_full (ctrl ! j) = is_full (mCtrl m ! j))"
  using inv mask e
proof (induction "cdist (mCapacity m) scan e" arbitrary: m hole scan rule: less_induct)
  case less
  let ?cap = "mCapacity m"
  note D = shift_invD [OF less.prems(1)]
  note e = less.prems(3,4)
  have cap: "0 < ?cap" using e by simp
  note nowrap = and_cap [OF D(1), folded less.prems(2)]
  show ?case
  proof (cases "is_full (mCtrl m ! scan)")
    case False
    then have "shift_back pol m hole scan = Some (Inr (m\<lparr>mCtrl := mCtrl m, mSlots := mSlots m\<rparr>, hole))"
      using D(3,4,5) by (subst shift_back.simps) simp
    with False less.prems(1) show ?thesis by blast
  next
    case full: True
    have ok: "slot_ok pol ?cap (mCtrl m) (mSlots m ! scan) scan" by (rule D(10) [OF D(5) D(6) [symmetric] full])
    have a: "mHome (mSlots m ! scan) < ?cap" by (rule slot_home(1) [OF ok ts cap])
    have el: "element (mSlots m ! scan) \<noteq> None" using ok by (auto simp: slot_ok_def)
    note dist = sub64_cdist [OF D(1) a, folded less.prems(2)]
    have ne: "scan \<noteq> e" using full e(2) by auto
    note closer = cdist_closer [OF D(5) e(1) ne]
    show ?thesis
    proof (cases "cdist ?cap (mHome (mSlots m ! scan)) hole < cdist ?cap (mHome (mSlots m ! scan)) scan")
      case False
      have "shift_back pol m hole scan = shift_back pol m hole ((scan + 1) mod ?cap)"
        using D(3,4,5) full False by (subst shift_back.simps) (simp add: dist nowrap [of "scan + 1", simplified] Let_def)
      with less.hyps [OF closer shift_skip [OF less.prems(1) ts full e False] less.prems(2) e] show ?thesis by simp
    next
      case True
      define m1 where "m1 = m\<lparr>mCtrl := set_ctrl (kWidth pol) ?cap (mCtrl m) hole (mCtrl m ! scan),
        mSlots := (mSlots m)[hole := \<lparr>element = element (mSlots m ! scan), mHome = mHome (mSlots m ! scan)\<rparr>]\<rparr>"
      note mv = shift_move [OF less.prems(1) pol ts full e True]
      have m1: "mCapacity m1 = ?cap" "mMask m1 = ?cap - 1" "\<And>c s. m1\<lparr>mCtrl := c, mSlots := s\<rparr> = m\<lparr>mCtrl := c, mSlots := s\<rparr>"
        using less.prems(2) by (simp_all add: m1_def)
      obtain p q where "element (mSlots m ! scan) = Some p" "element (mSlots m ! hole) = Some q"
        using D(8) el by auto
      then have "shift_back pol m hole scan = shift_back pol m1 scan ((scan + 1) mod ?cap)"
        using D(3,4,5) full True by (subst shift_back.simps) (simp add: dist nowrap [of "scan + 1", simplified] Let_def m1_def)
      moreover have "mCtrl m1 ! e = kEmpty"
        using set_ctrl_ok(2) [OF D(2) D(4) _ e(1)] sound_size_pos [OF pol D(1)] e(2) D(7) by (auto simp: m1_def)
      moreover have "shift_inv pol (mCapacity m1) (mCtrl m1) (mSlots m1) scan ((scan + 1) mod ?cap)"
        using mv(1) by (simp add: m1_def)
      moreover have "cells_but ?cap (mCtrl m1) (mSlots m1) scan = cells_but ?cap (mCtrl m) (mSlots m) hole"
        "\<forall>j<?cap. is_full (mCtrl m1 ! j) = is_full (mCtrl m ! j)" using mv(2,3) by (simp_all add: m1_def)
      ultimately show ?thesis using less.hyps [where m = m1 and hole = scan and scan = "(scan + 1) mod ?cap"] closer e(1) unfolding m1 by auto
    qed
  qed
qed

end
