(* ===== verification/FastHashMap_Map.thy ===== *)
theory FastHashMap_Map
  imports FastHashMap_Erase
begin

text \<open>
  The operations of \<open>FastHashMap\<close> as operations on the finite map that the table holds.
\<close>

section \<open>The map a table holds\<close>

definition contents :: "nat \<Rightarrow> u8 list \<Rightarrow> ('k, 'v) hash_slot list \<Rightarrow> ('k \<times> 'v) set" where
  "contents cap ctrl slots = {p. \<exists>j<cap. cell ctrl slots j = Some p}"

definition count_where :: "nat \<Rightarrow> (nat \<Rightarrow> bool) \<Rightarrow> nat" where
  "count_where cap P = card {j. j < cap \<and> P j}"

definition fh_inv :: "'k hash_policy \<Rightarrow> ('k, 'v) fhm \<Rightarrow> bool" where
  "fh_inv pol m \<longleftrightarrow>
     (if mCapacity m = 0 then mCtrl m = [] \<and> mSlots m = [] \<and> mSize m = 0 \<and> mTombstones m = 0
      else table_ok pol (mCapacity m) (mCtrl m) (mSlots m) \<and> mMask m = mCapacity m - 1
        \<and> mSize m = count_where (mCapacity m) (\<lambda>j. is_full (mCtrl m ! j))
        \<and> mTombstones m = count_where (mCapacity m) (\<lambda>j. mCtrl m ! j = kDeleted)
        \<and> mSize m + mTombstones m < mCapacity m \<and> 1 \<le> mGrowthThreshold m \<and> mGrowthThreshold m < mCapacity m)"

text \<open>The table holds exactly the entries of \<open>S\<close>.\<close>

definition represents :: "'k hash_policy \<Rightarrow> ('k, 'v) fhm \<Rightarrow> ('k \<rightharpoonup> 'v) \<Rightarrow> bool" where
  "represents pol m S \<longleftrightarrow> fh_inv pol m \<and> Map.graph S = contents (mCapacity m) (mCtrl m) (mSlots m)"

lemma count_where_update:
  assumes "j < cap" and "\<And>i. i < cap \<Longrightarrow> Q i = (if i = j then b else P i)"
  shows "count_where cap Q = (if b then (if P j then count_where cap P else count_where cap P + 1)
    else (if P j then count_where cap P - 1 else count_where cap P))"
proof -
  let ?A = "{i. i < cap \<and> P i}"
  have fin: "finite ?A" by simp
  have "{i. i < cap \<and> Q i} = (if b then insert j ?A else ?A - {j})"
    using assms by (auto split: if_splits)
  then have "count_where cap Q = card (if b then insert j ?A else ?A - {j})" by (simp add: count_where_def)
  also have "\<dots> = (if b then (if P j then card ?A else card ?A + 1) else (if P j then card ?A - 1 else card ?A))"
    using assms(1) fin by (auto simp: card_insert_if card_Diff_singleton)
  finally show ?thesis by (simp add: count_where_def)
qed

lemma count_where_cong: "(\<And>j. j < cap \<Longrightarrow> P j = Q j) \<Longrightarrow> count_where cap P = count_where cap Q"
  unfolding count_where_def by (rule arg_cong [where f = card]) auto

lemma count_where_0: "(\<And>j. j < cap \<Longrightarrow> \<not> P j) \<Longrightarrow> count_where cap P = 0"
  unfolding count_where_def by simp

lemma contents_update:
  assumes "j < cap" and "\<And>i. i < cap \<Longrightarrow> cell ctrl' slots' i = (if i = j then c else cell ctrl slots i)"
  shows "contents cap ctrl' slots' = {p. c = Some p} \<union> cells_but cap ctrl slots j"
proof (rule set_eqI)
  fix p
  have "(\<exists>i<cap. cell ctrl' slots' i = Some p) \<longleftrightarrow> (\<exists>i<cap. (if i = j then c else cell ctrl slots i) = Some p)"
    using assms(2) by (metis (no_types))
  also have "\<dots> \<longleftrightarrow> c = Some p \<or> (\<exists>i<cap. i \<noteq> j \<and> cell ctrl slots i = Some p)" using assms(1) by metis
  finally show "p \<in> contents cap ctrl' slots' \<longleftrightarrow> p \<in> {p. c = Some p} \<union> cells_but cap ctrl slots j"
    by (simp add: contents_def cells_but_def)
qed

lemma cells_but_all: "(\<And>p. cell ctrl slots j \<noteq> Some p) \<Longrightarrow> cells_but cap ctrl slots j = contents cap ctrl slots"
  by (auto simp: cells_but_def contents_def)

text \<open>Which slot holds which key.\<close>

lemma represents_holds:
  assumes "represents pol m S"
  shows "(\<exists>j<mCapacity m. cell (mCtrl m) (mSlots m) j = Some (k, v)) \<longleftrightarrow> S k = Some v"
  using assms unfolding represents_def contents_def by (auto simp: graph_def)

lemma represents_cell:
  "\<lbrakk>represents pol m S; j < mCapacity m; cell (mCtrl m) (mSlots m) j = Some (k, v)\<rbrakk> \<Longrightarrow> S k = Some v"
  using represents_holds [of pol m S k v] by metis

lemma represents_table: "\<lbrakk>represents pol m S; mCapacity m \<noteq> 0\<rbrakk> \<Longrightarrow> table_ok pol (mCapacity m) (mCtrl m) (mSlots m)"
  by (auto simp: represents_def fh_inv_def)

lemma represents_empty: "\<lbrakk>represents pol m S; mCapacity m = 0\<rbrakk> \<Longrightarrow> S = Map.empty"
  by (auto simp: represents_def contents_def graph_def fun_eq_iff)

lemma graph_update: "Map.graph (S(k \<mapsto> v)) = {(k, v)} \<union> {p \<in> Map.graph S. fst p \<noteq> k}"
  by (auto simp: graph_def split: if_splits)

lemma graph_remove: "Map.graph (S(k := None)) = {p \<in> Map.graph S. fst p \<noteq> k}"
  by (auto simp: graph_def split: if_splits)

lemma graph_new: "S k = None \<Longrightarrow> {p \<in> Map.graph S. fst p \<noteq> k} = Map.graph S"
  by (auto simp: graph_def)

text \<open>The entries apart from those in the slot of a key.\<close>

lemma cells_but_key:
  assumes "table_ok pol cap ctrl slots" and "j < cap" and "cell ctrl slots j = Some (k, v)"
  shows "cells_but cap ctrl slots j = {p \<in> contents cap ctrl slots. fst p \<noteq> k}"
proof -
  have "i = j" if "i < cap" "cell ctrl slots i = Some (k, w)" for i w
    using table_okD(6) [OF assms(1) that(1) assms(2), of k] that assms(3) by (auto simp: holds_def)
  then show ?thesis using assms(3) by (fastforce simp: cells_but_def contents_def)
qed

text \<open>There is always an empty slot.\<close>

lemma empty_exists:
  assumes "fh_inv pol m" and "mCapacity m \<noteq> 0"
  shows "\<exists>e<mCapacity m. mCtrl m ! e = kEmpty"
proof (rule ccontr)
  assume none: "\<not> (\<exists>e<mCapacity m. mCtrl m ! e = kEmpty)"
  let ?F = "{j. j < mCapacity m \<and> is_full (mCtrl m ! j)}" and ?T = "{j. j < mCapacity m \<and> mCtrl m ! j = kDeleted}"
  have t: "table_ok pol (mCapacity m) (mCtrl m) (mSlots m)" using assms by (simp add: fh_inv_def)
  have "{..<mCapacity m} \<subseteq> ?F \<union> ?T"
    using none table_okD(4) [OF t] by (auto simp: byte_ok_def)
  then have "mCapacity m \<le> card (?F \<union> ?T)" using card_mono [of "?F \<union> ?T" "{..<mCapacity m}"] by simp
  also have "\<dots> \<le> card ?F + card ?T" by (rule card_Un_le)
  finally show False using assms by (simp add: fh_inv_def count_where_def)
qed

section \<open>Lookup\<close>

lemma start_probe: "mMask m = mCapacity m - 1 \<Longrightarrow> probe_start h (mMask m) = nth_probe pol h (mCapacity m) 0"
  using nth_probe_0 by metis

lemma find_slot_spec:
  assumes r: "represents pol m S" and pol: "policy_ok pol"
  shows "(case S k of None \<Rightarrow> find_slot pol m k = Some (Inr (0, False))
    | Some v \<Rightarrow> \<exists>j<mCapacity m. find_slot pol m k = Some (Inr (j, True)) \<and> cell (mCtrl m) (mSlots m) j = Some (k, v))"
proof (cases "mCapacity m = 0")
  case True
  with represents_empty [OF r] show ?thesis by (simp add: find_slot_def)
next
  case False
  have inv: "fh_inv pol m" using r by (simp add: represents_def)
  note t = represents_table [OF r False]
  have mask: "mMask m = mCapacity m - 1" using inv False by (simp add: fh_inv_def)
  obtain e where e: "e < mCapacity m" "mCtrl m ! e = kEmpty" using empty_exists [OF inv False] by blast
  have fs: "find_slot pol m k = find_loop pol m k (H2 (hash_key pol k)) (key_probe pol (mCapacity m) k 0)"
    using False by (simp add: find_slot_def Let_def start_probe [OF mask, of _ pol])
  show ?thesis
  proof (cases "S k")
    case None
    then have "\<not> holds (mCtrl m) (mSlots m) j k" if "j < mCapacity m" for j
      using represents_cell [OF r that] by (auto simp: holds_def)
    with find_loop_missing [OF t pol e] None show ?thesis by (simp add: fs)
  next
    case (Some v)
    then obtain j where j: "j < mCapacity m" "cell (mCtrl m) (mSlots m) j = Some (k, v)"
      using represents_holds [OF r, of k v] by blast
    then have "holds (mCtrl m) (mSlots m) j k" by (auto simp: holds_def)
    from find_loop_found [OF t pol j(1) this] Some j show ?thesis by (auto simp: fs)
  qed
qed

lemma cell_value: "\<lbrakk>table_ok pol cap ctrl slots; j < cap; cell ctrl slots j = Some (k, v)\<rbrakk> \<Longrightarrow> slot_value slots j = Inr v"
  using table_okD(3) by (auto simp: slot_value_def cell_def split: if_splits)

lemma lookup_spec:
  assumes r: "represents pol m S" and pol: "policy_ok pol"
  shows "fh_find pol m k = Some (Inr (S k))" and "fh_contains pol m k = Some (Inr (S k \<noteq> None))"
    and "fh_count pol m k = Some (Inr (if S k = None then 0 else 1))"
    and "fh_at pol m k = Some (case S k of None \<Rightarrow> Inl Out_of_range | Some v \<Rightarrow> Inr v)"
proof -
  note f = find_slot_spec [OF r pol, of k]
  show "fh_find pol m k = Some (Inr (S k))" "fh_at pol m k = Some (case S k of None \<Rightarrow> Inl Out_of_range | Some v \<Rightarrow> Inr v)"
  proof -
    have v: "slot_value (mSlots m) j = Inr v" if "j < mCapacity m" "cell (mCtrl m) (mSlots m) j = Some (k, v)" for j v
      using cell_value [OF represents_table [OF r] that] that(1) by simp
    show "fh_find pol m k = Some (Inr (S k))" "fh_at pol m k = Some (case S k of None \<Rightarrow> Inl Out_of_range | Some v \<Rightarrow> Inr v)"
      using f v by (auto simp: fh_find_def fh_at_def split: option.splits)
  qed
  show c: "fh_contains pol m k = Some (Inr (S k \<noteq> None))" using f by (auto simp: fh_contains_def split: option.splits)
  show "fh_count pol m k = Some (Inr (if S k = None then 0 else 1))" by (simp add: fh_count_def c)
qed

section \<open>Rehashing\<close>

lemma match_empty_where: "match_empty = mask_where (\<lambda>c. c = kEmpty)"
  by (simp add: fun_eq_iff match_empty_def group_match_def)

lemma vacant_iff_empty:
  assumes "byte_ok pol c" and "c \<noteq> kDeleted"
  shows "vacant_at pol c \<longleftrightarrow> c = kEmpty"
  using assms vacant_not_full [of c] by (auto simp: byte_ok_def vacant_at_def)

lemma first_where_cong:
  assumes "first_where pol P cap ctrl h j" and "0 < cap" and "\<And>i. i < cap \<Longrightarrow> P (ctrl ! i) = Q (ctrl ! i)"
  shows "first_where pol Q cap ctrl h j"
proof -
  have eq: "P (ctrl ! probed pol cap h n i) = Q (ctrl ! probed pol cap h n i)" for n i
    using assms(2,3) by simp
  obtain n i where "i < kWidth pol" "probed pol cap h n i = j" "P (ctrl ! j)"
    "\<forall>m<n. \<forall>i<kWidth pol. \<not> P (ctrl ! probed pol cap h m i)" "\<forall>i'<i. \<not> P (ctrl ! probed pol cap h n i')"
    using assms(1) by (auto simp: first_where_def)
  then show ?thesis using eq unfolding first_where_def by (metis (no_types))
qed

text \<open>A table without tombstones and the number of its elements.\<close>

definition clean :: "'k hash_policy \<Rightarrow> nat \<Rightarrow> u8 list \<Rightarrow> ('k, 'v) hash_slot list \<Rightarrow> nat \<Rightarrow> bool" where
  "clean pol cap ctrl slots n \<longleftrightarrow> table_ok pol cap ctrl slots \<and> (\<forall>j<cap. ctrl ! j \<noteq> kDeleted)
     \<and> n = count_where cap (\<lambda>j. is_full (ctrl ! j))"

lemma clean_new:
  assumes "sound_size pol cap"
  shows "clean pol cap (replicate (cap + kWidth pol) kEmpty) (replicate cap \<lparr>element = None, mHome = 0\<rparr>) 0"
    and "contents cap (replicate (cap + kWidth pol) kEmpty) (replicate cap \<lparr>element = None, mHome = 0\<rparr>) = {}"
  using assms by (auto simp: clean_def table_ok_def mirrored_def byte_ok_def holds_def cell_def contents_def count_where_0)

lemma clean_not_full:
  assumes "clean pol cap ctrl slots n" and "n < cap"
  shows "\<exists>e<cap. ctrl ! e = kEmpty"
proof (rule ccontr)
  assume none: "\<not> (\<exists>e<cap. ctrl ! e = kEmpty)"
  have t: "table_ok pol cap ctrl slots" using assms(1) by (simp add: clean_def)
  have "{j. j < cap \<and> is_full (ctrl ! j)} = {..<cap}"
    using none assms(1) table_okD(4) [OF t] by (auto simp: byte_ok_def clean_def)
  then show False using assms by (simp add: clean_def count_where_def)
qed


lemma cell_SomeD:
  assumes "table_ok pol cap ctrl slots" and "j < cap" and "is_full (ctrl ! j)"
  obtains k v where "element (slots ! j) = Some (k, v)" "cell ctrl slots j = Some (k, v)" "ctrl ! j = H2 (hash_key pol k)"
  using full_holds [OF assms] assms(3) that by (auto simp: cell_def)

text \<open>One turn of the loop: an entry goes into the new table.\<close>

lemma clean_place:
  fixes v :: 'v
  assumes c: "clean pol cap ctrl slots n" and pol: "policy_ok pol" and room: "n < cap"
    and new: "\<And>w. (k, w) \<notin> contents cap ctrl slots"
  shows "\<exists>j. insert_slot_loop pol match_empty ctrl (probe_start (hash_key pol k) (cap - 1)) = Some (Inr j)
    \<and> clean pol cap (set_ctrl (kWidth pol) cap ctrl j (H2 (hash_key pol k)))
        (slots[j := slot_construct pol k v (unat (hash_key pol k) AND (cap - 1))]) (n + 1)
    \<and> contents cap (set_ctrl (kWidth pol) cap ctrl j (H2 (hash_key pol k)))
        (slots[j := slot_construct pol k v (unat (hash_key pol k) AND (cap - 1))]) = insert (k, v) (contents cap ctrl slots)"
proof -
  let ?h = "hash_key pol k"
  have t: "table_ok pol cap ctrl slots" and del: "\<And>j. j < cap \<Longrightarrow> ctrl ! j \<noteq> kDeleted"
    and n: "n = count_where cap (\<lambda>j. is_full (ctrl ! j))" using c by (auto simp: clean_def)
  note z = sound_size_pos [OF pol table_okD(1) [OF t]]
  obtain e where e: "e < cap" "ctrl ! e = kEmpty" using clean_not_full [OF c room] by blast
  obtain j where j: "insert_slot_loop pol match_empty ctrl (probe_start ?h (cap - 1)) = Some (Inr j)"
    "first_where pol (\<lambda>c. c = kEmpty) cap ctrl ?h j"
    using insert_slot_loop_spec [OF pol table_okD(1,2) [OF t] e, of "\<lambda>c. c = kEmpty" ?h]
    unfolding match_empty_where nth_probe_0 [symmetric] by auto
  have f: "first_where pol (vacant_at pol) cap ctrl ?h j"
    by (rule first_where_cong [OF j(2)]) (use z vacant_iff_empty table_okD(4) [OF t] del in auto)
  have jc: "j < cap" "ctrl ! j = kEmpty" using first_where_less [OF j(2)] z by blast+
  have nh: "\<not> holds ctrl slots i k" if "i < cap" for i
    using new that by (auto simp: holds_def contents_def)
  note p = table_place [OF t pol f nh, where v = v]
  let ?ctrl = "set_ctrl (kWidth pol) cap ctrl j (H2 ?h)"
    and ?slots = "slots[j := slot_construct pol k v (unat ?h AND (cap - 1))]"
  have upd: "?ctrl ! i = (if i = j then H2 ?h else ctrl ! i)" if "i < cap" for i
    by (rule set_ctrl_ok(2) [OF table_okD(2) [OF t] jc(1) _ that]) (use z in simp)
  have del': "?ctrl ! i \<noteq> kDeleted" if "i < cap" for i
    using upd [OF that] del [OF that] full_H2 [of ?h] special_not_full(2) by metis
  have "count_where cap (\<lambda>i. is_full (?ctrl ! i)) = n + 1"
    using count_where_update [OF jc(1), of "\<lambda>i. is_full (?ctrl ! i)" True "\<lambda>i. is_full (ctrl ! i)"] upd jc(2) n by simp
  with p(1) del' have "clean pol cap ?ctrl ?slots (n + 1)" by (simp add: clean_def)
  moreover have "cell ctrl slots j = None" using jc(2) by (simp add: cell_def)
  then have "contents cap ?ctrl ?slots = insert (k, v) (contents cap ctrl slots)"
    using contents_update [OF jc(1) p(2)] cells_but_all [of ctrl slots j cap] by simp
  ultimately show ?thesis using j(1) by blast
qed

lemma rehash_loop_spec:
  fixes slots :: "('k, 'v) hash_slot list"
  assumes old: "table_ok pol cap0 ctrl0 slots0" and pol: "policy_ok pol"
  shows "\<lbrakk>clean pol cap ctrl slots n; set is \<subseteq> {..<cap0}; distinct is;
      n + length (filter (\<lambda>i. is_full (ctrl0 ! i)) is) < cap;
      \<And>i k w. \<lbrakk>i \<in> set is; holds ctrl0 slots0 i k\<rbrakk> \<Longrightarrow> (k, w) \<notin> contents cap ctrl slots\<rbrakk> \<Longrightarrow>
    \<exists>ctrl' slots' n'. rehash_loop pol cap ctrl0 slots0 is (ctrl, slots, n) = Some (Inr (ctrl', slots', n'))
      \<and> clean pol cap ctrl' slots' n' \<and> n' = n + length (filter (\<lambda>i. is_full (ctrl0 ! i)) is)
      \<and> contents cap ctrl' slots' = contents cap ctrl slots \<union> {p. \<exists>i\<in>set is. cell ctrl0 slots0 i = Some p}"
proof (induction "is" arbitrary: ctrl slots n)
  case Nil
  then show ?case by simp
next
  case (Cons i "is")
  have i: "i < cap0" "i \<notin> set is" "set is \<subseteq> {..<cap0}" "distinct is" using Cons.prems(2,3) by auto
  show ?case
  proof (cases "is_full (ctrl0 ! i)")
    case False
    then have "cell ctrl0 slots0 i = None" by (simp add: cell_def)
    have len: "n + length (filter (\<lambda>i. is_full (ctrl0 ! i)) is) < cap" using Cons.prems(4) False by simp
    have later: "(k, w) \<notin> contents cap ctrl slots" if "i' \<in> set is" "holds ctrl0 slots0 i' k" for i' k w
      using Cons.prems(5) [of i' k] that by simp
    from Cons.IH [OF Cons.prems(1) i(3,4) len later] \<open>cell ctrl0 slots0 i = None\<close> False show ?thesis by simp
  next
    case True
    obtain k v where kv: "element (slots0 ! i) = Some (k, v)" "cell ctrl0 slots0 i = Some (k, v)"
      by (rule cell_SomeD [OF old i(1) True])
    then have hi: "holds ctrl0 slots0 i k" by (auto simp: holds_def)
    have room: "n < cap" using Cons.prems(4) by simp
    have new: "(k, w) \<notin> contents cap ctrl slots" for w using Cons.prems(5) hi by auto
    obtain j where j: "insert_slot_loop pol match_empty ctrl (probe_start (hash_key pol k) (cap - 1)) = Some (Inr j)"
      "clean pol cap (set_ctrl (kWidth pol) cap ctrl j (H2 (hash_key pol k)))
        (slots[j := slot_construct pol k v (unat (hash_key pol k) AND (cap - 1))]) (n + 1)"
      "contents cap (set_ctrl (kWidth pol) cap ctrl j (H2 (hash_key pol k)))
        (slots[j := slot_construct pol k v (unat (hash_key pol k) AND (cap - 1))]) = insert (k, v) (contents cap ctrl slots)"
      using clean_place [OF Cons.prems(1) pol room new] by blast
    have other: "(k', w) \<notin> insert (k, v) (contents cap ctrl slots)" if "i' \<in> set is" "holds ctrl0 slots0 i' k'" for i' k' w
      using that Cons.prems(5) [of i' k'] table_okD(6) [OF old, of i' i k'] hi i by auto
    have len: "n + 1 + length (filter (\<lambda>i. is_full (ctrl0 ! i)) is) < cap" using Cons.prems(4) True by simp
    from Cons.IH [OF j(2) i(3,4) len, unfolded j(3), OF other] kv j(1) True show ?thesis
      by (fastforce simp: Let_def)
  qed
qed

lemma count_where_filter: "count_where cap P = length (filter P [0..<cap])"
proof -
  have "length (filter P [0..<cap]) = card (set (filter P [0..<cap]))" by (rule distinct_card [symmetric]) simp
  also have "set (filter P [0..<cap]) = {j. j < cap \<and> P j}" by auto
  finally show ?thesis by (simp add: count_where_def)
qed

lemma threshold_bounds: "1 < cap \<Longrightarrow> 1 \<le> compute_growth_threshold pol cap \<and> compute_growth_threshold pol cap < cap"
  by (auto simp: compute_growth_threshold_def Let_def)

lemma byte_not_deleted: "\<lbrakk>byte_ok pol c; \<not> uses_tombstones pol\<rbrakk> \<Longrightarrow> c \<noteq> kDeleted"
  by (auto simp: byte_ok_def)

lemma no_tombstones:
  assumes "represents pol m S" and "\<not> uses_tombstones pol"
  shows "mTombstones m = 0"
proof (cases "mCapacity m = 0")
  case True
  with assms show ?thesis by (simp add: represents_def fh_inv_def)
next
  case False
  have "mCtrl m ! j \<noteq> kDeleted" if "j < mCapacity m" for j
    using table_okD(4) [OF represents_table [OF assms(1) False] that] assms(2) by (auto simp: byte_ok_def)
  then show ?thesis using assms(1) False by (simp add: represents_def fh_inv_def count_where_0)
qed

text \<open>\<open>rehash_internal\<close> keeps the map when the new table has room for one element more.\<close>

lemma rehash_internal_spec:
  fixes S :: "'k \<rightharpoonup> 'v"
  assumes r: "represents pol m S" and pol: "policy_ok pol" and size: "sound_size pol new_cap" "mSize m < new_cap"
  shows "if mem new_cap then \<exists>m'. rehash_internal pol mem m new_cap = Some (m', Inr ()) \<and> represents pol m' S
      \<and> mCapacity m' = new_cap \<and> mSize m' = mSize m \<and> mTombstones m' = 0 \<and> mFrozen m' = mFrozen m
    else rehash_internal pol mem m new_cap = Some (m, Inl Bad_alloc)"
proof (cases "mCapacity m = 0")
  case True
  have inv: "mSize m = 0" "mTombstones m = 0" using r True by (simp_all add: represents_def fh_inv_def)
  note new = clean_new [OF size(1)]
  have thr: "1 \<le> compute_growth_threshold pol new_cap \<and> compute_growth_threshold pol new_cap < new_cap"
    by (rule threshold_bounds) (use sound_size_pos [OF pol size(1)] in linarith)
  have c0: "count_where new_cap (\<lambda>j. is_full (replicate (new_cap + kWidth pol) kEmpty ! j)) = 0"
    "count_where new_cap (\<lambda>j. replicate (new_cap + kWidth pol) kEmpty ! j = kDeleted) = 0" by (simp_all add: count_where_0)
  show ?thesis
    using True inv new thr c0 size(2) represents_empty [OF r True]
    by (auto simp: rehash_internal_def fh_allocate_def represents_def fh_inv_def clean_def)
next
  case False
  note t = represents_table [OF r False]
  have inv: "mSize m = count_where (mCapacity m) (\<lambda>j. is_full (mCtrl m ! j))"
    "mTombstones m = count_where (mCapacity m) (\<lambda>j. mCtrl m ! j = kDeleted)"
    using r False by (simp_all add: represents_def fh_inv_def)
  note new = clean_new [OF size(1)]
  have full: "0 + length (filter (\<lambda>i. is_full (mCtrl m ! i)) [0..<mCapacity m]) < new_cap"
    using size(2) inv by (simp add: count_where_filter)
  have new2: "contents new_cap (replicate (new_cap + kWidth pol) kEmpty)
      (replicate new_cap (\<lparr>element = None, mHome = 0\<rparr> :: ('k, 'v) hash_slot)) = {}" by (rule new(2))
  have none: "(k, w) \<notin> contents new_cap (replicate (new_cap + kWidth pol) kEmpty) (replicate new_cap \<lparr>element = None, mHome = 0\<rparr>)"
    for k :: 'k and w :: 'v unfolding new(2) by simp
  obtain ctrl slots n where l: "rehash_loop pol new_cap (mCtrl m) (mSlots m) [0..<mCapacity m]
      (replicate (new_cap + kWidth pol) kEmpty, replicate new_cap \<lparr>element = None, mHome = 0\<rparr>, 0) = Some (Inr (ctrl, slots, n))"
    "clean pol new_cap ctrl slots n" "n = mSize m"
    "contents new_cap ctrl slots = {p. \<exists>i\<in>{..<mCapacity m}. cell (mCtrl m) (mSlots m) i = Some p}"
    using rehash_loop_spec [OF t pol new(1) _ _ full none] new2 inv(1) by (auto simp: count_where_filter atLeast0LessThan)
  have graph: "contents new_cap ctrl slots = contents (mCapacity m) (mCtrl m) (mSlots m)"
    unfolding l(4) by (auto simp: contents_def)
  have nt: "\<not> uses_tombstones pol \<Longrightarrow> mTombstones m = 0" by (rule no_tombstones [OF r])
  have thr: "1 \<le> compute_growth_threshold pol new_cap \<and> compute_growth_threshold pol new_cap < new_cap"
    by (rule threshold_bounds) (use sound_size_pos [OF pol size(1)] in linarith)
  have "count_where new_cap (\<lambda>j. ctrl ! j = kDeleted) = 0" using l(2) by (intro count_where_0) (simp add: clean_def)
  with l graph thr size r nt False sound_size_pos [OF pol size(1)] show ?thesis
    by (auto simp: rehash_internal_def represents_def fh_inv_def clean_def)
qed


text \<open>No allocator grants a table of more than \<open>2 ^ 63\<close> slots.\<close>

definition memory_ok :: "(nat \<Rightarrow> bool) \<Rightarrow> bool" where
  "memory_ok mem \<longleftrightarrow> (\<forall>c. mem c \<longrightarrow> c \<le> 2 ^ 63)"

lemma sound_size_double:
  assumes "sound_size pol cap" and "2 * cap \<le> 2 ^ 63"
  shows "sound_size pol (cap * 2)"
proof -
  obtain p where "cap = 2 ^ p" using assms(1) by (auto simp: sound_size_def)
  then have "cap * 2 = 2 ^ Suc p" by simp
  then show ?thesis using assms unfolding sound_size_def by (metis le_trans mult.commute mult_le_mono1 mult_2 le_add1)
qed

lemma sound_size_min: "policy_ok pol \<Longrightarrow> sound_size pol (kMinCapacity pol)"
proof -
  assume "policy_ok pol"
  then have "kMinCapacity pol = 2 ^ 5 \<or> kMinCapacity pol = 2 ^ 6" by (auto simp: policy_ok_def kMinCapacity_def)
  then obtain p where "kMinCapacity pol = 2 ^ p" by blast
  moreover have "2 * kWidth pol \<le> kMinCapacity pol" "kMinCapacity pol \<le> 2 ^ 63"
    using \<open>policy_ok pol\<close> by (auto simp: policy_ok_def kMinCapacity_def)
  ultimately show ?thesis unfolding sound_size_def by blast
qed

text \<open>A table that takes one more element and still has an empty slot.\<close>

definition has_room :: "('k, 'v) fhm \<Rightarrow> bool" where
  "has_room m \<longleftrightarrow> mCapacity m \<noteq> 0 \<and> mSize m + mTombstones m + 1 < mCapacity m"

lemma rehash_grows:
  assumes r: "represents pol m S" and pol: "policy_ok pol" and mem: "memory_ok mem"
    and cap: "mCapacity m \<noteq> 0" and new: "new_cap = mCapacity m \<or> new_cap = mCapacity m * 2" "mSize m + 1 < new_cap"
  shows "(\<exists>m'. rehash_internal pol mem m new_cap = Some (m', Inr ()) \<and> represents pol m' S \<and> has_room m'
      \<and> mFrozen m' = mFrozen m \<and> mTombstones m' = 0 \<and> mCapacity m' = new_cap)
    \<or> (rehash_internal pol mem m new_cap = Some (m, Inl Bad_alloc) \<and> \<not> mem new_cap)"
proof (cases "mem new_cap")
  case False
  then show ?thesis using cap by (auto simp: rehash_internal_def)
next
  case True
  have "new_cap \<le> 2 ^ 63" using mem True by (simp add: memory_ok_def)
  moreover have "sound_size pol (mCapacity m)" using table_okD(1) [OF represents_table [OF r cap]] .
  ultimately have "sound_size pol new_cap" using new(1) sound_size_double [of pol "mCapacity m"] by auto
  from rehash_internal_spec [OF r pol this, of mem] new(2) True show ?thesis by (auto simp: has_room_def)
qed

lemma maybe_rehash_spec:
  assumes r: "represents pol m S" and pol: "policy_ok pol" and mem: "memory_ok mem" and cap: "mCapacity m \<noteq> 0"
  shows "(\<exists>m'. maybe_rehash pol mem m = Some (m', Inr ()) \<and> represents pol m' S \<and> has_room m'
      \<and> mFrozen m' = mFrozen m \<and> (mTombstones m = 0 \<longrightarrow> mTombstones m' = 0) \<and> mCapacity m' \<le> mCapacity m * 2)
    \<or> (maybe_rehash pol mem m = Some (m, Inl Bad_alloc) \<and> \<not> (mem (mCapacity m) \<and> mem (mCapacity m * 2)))"
proof -
  have inv: "mSize m + mTombstones m < mCapacity m" "mGrowthThreshold m < mCapacity m"
    using r cap by (simp_all add: represents_def fh_inv_def)
  have big: "2 \<le> mCapacity m"
    using sound_size_pos [OF pol table_okD(1) [OF represents_table [OF r cap]]] by linarith
  have grow: ?thesis if c: "maybe_rehash pol mem m = rehash_internal pol mem m c" "c = mCapacity m \<or> c = mCapacity m * 2"
    "mSize m + 1 < c" for c
    using rehash_grows [OF r pol mem cap c(2,3)]
  proof (elim disjE exE conjE)
    fix m'
    assume g: "rehash_internal pol mem m c = Some (m', Inr ())" "represents pol m' S" "has_room m'" "mFrozen m' = mFrozen m"
      "mTombstones m' = 0" "mCapacity m' = c"
    have "mCapacity m' \<le> mCapacity m * 2" using g(6) c(2) by auto
    with g c(1) show ?thesis by (intro disjI1 exI [of _ m'] conjI) simp_all
  next
    assume "rehash_internal pol mem m c = Some (m, Inl Bad_alloc)" "\<not> mem c"
    with c(1,2) show ?thesis by (intro disjI2) auto
  qed
  show ?thesis
  proof (cases "mGrowthThreshold m \<le> mSize m + mTombstones m")
    case False
    then have "has_room m" using inv cap by (simp add: has_room_def)
    moreover have "maybe_rehash pol mem m = Some (m, Inr ())"
      using False cap by (simp add: maybe_rehash_def)
    ultimately show ?thesis using r by (intro disjI1 exI [of _ m] conjI) simp_all
  next
    case full: True
    show ?thesis
    proof (cases "uses_tombstones pol")
      case True
      show ?thesis
      proof (cases "mGrowthThreshold m div 2 \<le> mSize m")
        case d: True
        have "maybe_rehash pol mem m = rehash_internal pol mem m (mCapacity m * 2)"
          using True d full cap by (simp add: maybe_rehash_def)
        then show ?thesis by (rule grow) (use inv big in simp_all)
      next
        case d: False
        have "maybe_rehash pol mem m = rehash_internal pol mem m (mCapacity m)"
          using True d full cap by (simp add: maybe_rehash_def)
        moreover have "mSize m + 1 < mCapacity m" using inv(2) d by presburger
        ultimately show ?thesis by (intro grow) simp_all
      qed
    next
      case False
      have "maybe_rehash pol mem m = rehash_internal pol mem m (mCapacity m * 2)"
        using False full cap no_tombstones [OF r False] by (simp add: maybe_rehash_def)
      then show ?thesis by (rule grow) (use inv big in simp_all)
    qed
  qed
qed

section \<open>Insertion\<close>

lemma allocate_spec:
  assumes r: "represents pol m S" and pol: "policy_ok pol" and cap: "mCapacity m = 0" and size: "sound_size pol c"
  shows "if mem c then \<exists>m'. fh_allocate pol mem c m = Inr m' \<and> represents pol m' S \<and> mCapacity m' = c
      \<and> mSize m' = 0 \<and> mTombstones m' = 0 \<and> mFrozen m' = mFrozen m
    else fh_allocate pol mem c m = Inl Bad_alloc"
proof -
  have "mSize m = 0" using r cap by (simp add: represents_def fh_inv_def)
  moreover have "0 < c" using sound_size_pos [OF pol size] by simp
  ultimately show ?thesis using rehash_internal_spec [OF r pol size, of mem] cap
    by (auto simp: rehash_internal_def split: sum.splits if_splits)
qed

lemma commit_spec:
  assumes r: "represents pol m S" and pol: "policy_ok pol" and room: "has_room m" and new: "S k = None"
    and f: "first_where pol (vacant_at pol) (mCapacity m) (mCtrl m) (hash_key pol k) j"
  shows "represents pol (fh_commit pol m j k v (hash_key pol k)) (S(k \<mapsto> v))"
    and "cell (mCtrl (fh_commit pol m j k v (hash_key pol k))) (mSlots (fh_commit pol m j k v (hash_key pol k))) j = Some (k, v)"
    and "j < mCapacity m"
    and "mTombstones (fh_commit pol m j k v (hash_key pol k)) \<le> mTombstones m"
proof -
  let ?h = "hash_key pol k" and ?cap = "mCapacity m"
  let ?m = "fh_commit pol m j k v ?h"
  have cap: "?cap \<noteq> 0" using room by (simp add: has_room_def)
  note t = represents_table [OF r cap]
  note z = sound_size_pos [OF pol table_okD(1) [OF t]]
  have inv: "mMask m = ?cap - 1" "mSize m = count_where ?cap (\<lambda>j. is_full (mCtrl m ! j))"
    "mTombstones m = count_where ?cap (\<lambda>j. mCtrl m ! j = kDeleted)" "1 \<le> mGrowthThreshold m" "mGrowthThreshold m < ?cap"
    using r cap by (simp_all add: represents_def fh_inv_def)
  have jc: "j < ?cap" "vacant_at pol (mCtrl m ! j)" using first_where_less [OF f] cap by simp_all
  show "j < mCapacity m" by (rule jc(1))
  have nf: "\<not> is_full (mCtrl m ! j)" using jc(2) vacant_not_full by (auto simp: vacant_at_def split: if_splits)
  have nh: "\<not> holds (mCtrl m) (mSlots m) i k" if "i < ?cap" for i
    using represents_cell [OF r that] new by (auto simp: holds_def)
  note p = table_place [OF t pol f nh, where v = v, folded inv(1)]
  have parts: "mCtrl ?m = set_ctrl (kWidth pol) ?cap (mCtrl m) j (H2 ?h)"
    "mSlots ?m = (mSlots m)[j := slot_construct pol k v (unat ?h AND mMask m)]" "mCapacity ?m = ?cap" "mMask ?m = mMask m"
    "mSize ?m = mSize m + 1" "mGrowthThreshold ?m = mGrowthThreshold m"
    "mTombstones ?m = (if uses_tombstones pol \<and> mCtrl m ! j = kDeleted then mTombstones m - 1 else mTombstones m)"
    by (simp_all add: fh_commit_def Let_def is_deleted_def)
  show "cell (mCtrl ?m) (mSlots ?m) j = Some (k, v)" using p(2) [OF _ jc(1)] by (simp add: parts)
  show "mTombstones ?m \<le> mTombstones m" by (simp add: parts)
  have upd: "mCtrl ?m ! i = (if i = j then H2 ?h else mCtrl m ! i)" if "i < ?cap" for i
    unfolding parts by (rule set_ctrl_ok(2) [OF table_okD(2) [OF t] jc(1) _ that]) (use z in simp)
  have full: "count_where ?cap (\<lambda>i. is_full (mCtrl ?m ! i)) = mSize m + 1"
    using count_where_update [OF jc(1), of "\<lambda>i. is_full (mCtrl ?m ! i)" True "\<lambda>i. is_full (mCtrl m ! i)"] upd nf inv(2) by simp
  have H2d: "H2 ?h \<noteq> kDeleted" using full_H2 [of ?h] special_not_full(2) by metis
  have del: "count_where ?cap (\<lambda>i. mCtrl ?m ! i = kDeleted)
      = (if mCtrl m ! j = kDeleted then mTombstones m - 1 else mTombstones m)"
    using count_where_update [OF jc(1), of "\<lambda>i. mCtrl ?m ! i = kDeleted" False "\<lambda>i. mCtrl m ! i = kDeleted"] upd H2d inv(3) by simp
  have ts: "mCtrl m ! j = kDeleted \<Longrightarrow> uses_tombstones pol" using jc(2) by (auto simp: vacant_at_def split: if_splits)
  have "cell (mCtrl m) (mSlots m) j = None" using nf by (simp add: cell_def)
  then have "contents ?cap (mCtrl ?m) (mSlots ?m) = insert (k, v) (contents ?cap (mCtrl m) (mSlots m))"
    using contents_update [OF jc(1) p(2)] cells_but_all [of "mCtrl m" "mSlots m" j ?cap] by (simp add: parts)
  also have "\<dots> = Map.graph (S(k \<mapsto> v))"
    using r new by (simp add: represents_def fun_upd_idem)
  finally show "represents pol ?m (S(k \<mapsto> v))"
    using p(1) full del ts inv cap room unfolding represents_def fh_inv_def
    by (auto simp: parts has_room_def)
qed


text \<open>The capacities an insertion may ask the allocator for.\<close>

definition growth_requests :: "'k hash_policy \<Rightarrow> ('k, 'v) fhm \<Rightarrow> nat list" where
  "growth_requests pol m = (if mCapacity m = 0 then [kMinCapacity pol] else [mCapacity m, mCapacity m * 2])"

lemma insert_new_spec:
  fixes v :: 'v
  assumes r: "represents pol m S" and pol: "policy_ok pol" and mem: "memory_ok mem" and mut: "assert_mutable pol m"
  shows "(fh_insert_new pol mem m k v = Some (m, Inl Bad_alloc) \<and> \<not> (\<forall>c\<in>set (growth_requests pol m). mem c))
    \<or> (\<exists>m' j. j < mCapacity m' \<and> mFrozen m' = mFrozen m \<and> (mTombstones m = 0 \<longrightarrow> mTombstones m' = 0)
      \<and> mCapacity m' \<le> max (kMinCapacity pol) (mCapacity m) * 2
      \<and> (case S k of
          Some w \<Rightarrow> fh_insert_new pol mem m k v = Some (m', Inr (Inl j)) \<and> represents pol m' S
            \<and> cell (mCtrl m') (mSlots m') j = Some (k, w)
        | None \<Rightarrow> fh_insert_new pol mem m k v = Some (m', Inr (Inr j)) \<and> represents pol m' (S(k \<mapsto> v))
            \<and> cell (mCtrl m') (mSlots m') j = Some (k, v)))"
proof -
  let ?h = "hash_key pol k"
  consider (nomem) "mCapacity m = 0" "\<not> mem (kMinCapacity pol)" |
    (ready) m0 where "(if mCapacity m = 0 then fh_allocate pol mem (kMinCapacity pol) m else Inr m) = Inr m0"
      "represents pol m0 S" "mCapacity m0 \<noteq> 0" "mFrozen m0 = mFrozen m" "mTombstones m = 0 \<longrightarrow> mTombstones m0 = 0"
      "mCapacity m \<noteq> 0 \<longrightarrow> m0 = m"
      "mCapacity m = 0 \<longrightarrow> mSize m0 = 0 \<and> mTombstones m0 = 0" "mCapacity m0 \<le> max (kMinCapacity pol) (mCapacity m)"
  proof (cases "mCapacity m = 0")
    case True
    have "0 < kMinCapacity pol" using sound_size_pos [OF pol sound_size_min [OF pol]] by simp
    with allocate_spec [OF r pol True sound_size_min [OF pol], of mem] True show ?thesis
      using nomem ready by (cases "mem (kMinCapacity pol)") auto
  next
    case False
    with r show ?thesis using ready [of m] by simp
  qed
  then show ?thesis
  proof cases
    case nomem
    then have "fh_insert_new pol mem m k v = Some (m, Inl Bad_alloc)"
      using mut by (simp add: fh_insert_new_def fh_allocate_def)
    with nomem show ?thesis by (simp add: growth_requests_def)
  next
    case ready
    note D = fh_insert_new_def [of pol mem m k v, unfolded ready(1) sum.case]
    show ?thesis
    proof (cases "maybe_rehash pol mem m0 = Some (m0, Inl Bad_alloc)")
      case True
      have "mCapacity m \<noteq> 0"
      proof
        assume "mCapacity m = 0"
        with ready(7) have "mSize m0 = 0" "mTombstones m0 = 0" by auto
        moreover have "1 \<le> mGrowthThreshold m0" using ready(2,3) by (simp add: represents_def fh_inv_def)
        ultimately show False using True ready(3) by (simp add: maybe_rehash_def split: if_splits)
      qed
      with ready(6) have "mCapacity m \<noteq> 0" "m0 = m" by simp_all
      moreover have "\<not> (mem (mCapacity m0) \<and> mem (mCapacity m0 * 2))"
        using maybe_rehash_spec [OF ready(2) pol mem ready(3)] True by auto
      ultimately show ?thesis using True mut by (simp add: D growth_requests_def)
    next
      case False
      then obtain m1 where m1: "maybe_rehash pol mem m0 = Some (m1, Inr ())" "represents pol m1 S" "has_room m1"
        "mFrozen m1 = mFrozen m" "mTombstones m = 0 \<longrightarrow> mTombstones m1 = 0" "mCapacity m1 \<le> mCapacity m0 * 2"
        using maybe_rehash_spec [OF ready(2) pol mem ready(3)] ready(4,5) by auto
      have bound: "mCapacity m1 \<le> max (kMinCapacity pol) (mCapacity m) * 2" using m1(6) ready(8) by linarith
      have cap: "mCapacity m1 \<noteq> 0" using m1(3) by (simp add: has_room_def)
      have inv: "fh_inv pol m1" using m1(2) by (simp add: represents_def)
      have mask: "mMask m1 = mCapacity m1 - 1" using inv cap by (simp add: fh_inv_def)
      note t = represents_table [OF m1(2) cap]
      note start = start_probe [OF mask, of ?h pol]
      show ?thesis
      proof (cases "S k")
        case (Some w)
        then obtain j where j: "j < mCapacity m1" "cell (mCtrl m1) (mSlots m1) j = Some (k, w)"
          using represents_holds [OF m1(2), of k w] by blast
        then have "holds (mCtrl m1) (mSlots m1) j k" by (auto simp: holds_def)
        from insert_loop_found [OF t pol j(1) this, where ins = None, folded start]
        have "fh_insert_new pol mem m k v = Some (m1, Inr (Inl j))" using m1(1) mut by (simp add: D Let_def)
        with Some j m1 bound show ?thesis by (intro disjI2 exI [of _ m1] exI [of _ j]) simp
      next
        case None
        then have nh: "\<not> holds (mCtrl m1) (mSlots m1) j k" if "j < mCapacity m1" for j
          using represents_cell [OF m1(2) that] by (auto simp: holds_def)
        obtain e where e: "e < mCapacity m1" "mCtrl m1 ! e = kEmpty" using empty_exists [OF inv cap] by blast
        obtain j where j: "insert_loop pol m1 k (H2 ?h) (probe_start ?h (mMask m1)) None = Some (Inr (Vacant (Some j)))"
          "first_where pol (vacant_at pol) (mCapacity m1) (mCtrl m1) ?h j"
          using insert_loop_missing [OF t pol e nh] start by auto
        have "fh_insert_new pol mem m k v = Some (fh_commit pol m1 j k v ?h, Inr (Inr j))"
          using m1(1) mut j(1) by (simp add: D Let_def)
        moreover have "mCapacity (fh_commit pol m1 j k v ?h) = mCapacity m1" "mFrozen (fh_commit pol m1 j k v ?h) = mFrozen m1"
          by (simp_all add: fh_commit_def Let_def)
        moreover note commit_spec(1,2,4) [OF m1(2) pol m1(3) None j(2), of v] commit_spec(3) [OF m1(2) pol m1(3) None j(2)]
        ultimately show ?thesis using None m1(4,5) bound by (intro disjI2 exI [of _ "fh_commit pol m1 j k v ?h"] exI [of _ j]) auto
      qed
    qed
  qed
qed

lemma slot_assign_spec:
  assumes r: "represents pol m S" and pol: "policy_ok pol" and j: "j < mCapacity m" "cell (mCtrl m) (mSlots m) j = Some (k, w)"
  shows "represents pol (slot_assign m j v) (S(k \<mapsto> v))"
    and "cell (mCtrl (slot_assign m j v)) (mSlots (slot_assign m j v)) j = Some (k, v)"
proof -
  let ?m = "slot_assign m j v" and ?cap = "mCapacity m"
  have cap: "?cap \<noteq> 0" using j by simp
  note t = represents_table [OF r cap]
  have full: "is_full (mCtrl m ! j)" "element (mSlots m ! j) = Some (k, w)" using j(2) by (simp_all add: cell_def split: if_splits)
  have len: "length (mSlots m) = ?cap" by (rule table_okD(3) [OF t])
  have s: "mSlots ?m ! i = (if i = j then (mSlots m ! j)\<lparr>element := Some (k, v)\<rparr> else mSlots m ! i)" if "i < ?cap" for i
    using that len full(2) by (auto simp: slot_assign_def nth_list_update)
  have parts: "mCtrl ?m = mCtrl m" "mCapacity ?m = ?cap" "mSize ?m = mSize m" "mMask ?m = mMask m"
    "mGrowthThreshold ?m = mGrowthThreshold m" "mTombstones ?m = mTombstones m" by (simp_all add: slot_assign_def)
  have c: "cell (mCtrl ?m) (mSlots ?m) i = (if i = j then Some (k, v) else cell (mCtrl m) (mSlots m) i)" if "i < ?cap" for i
    using that full(1) by (auto simp: cell_def parts s)
  then show "cell (mCtrl ?m) (mSlots ?m) j = Some (k, v)" using j(1) by simp
  have hold: "holds (mCtrl ?m) (mSlots ?m) i k' = holds (mCtrl m) (mSlots m) i k'" if "i < ?cap" for i k'
    using c [OF that] j(2) by (auto simp: holds_def)
  have ok: "slot_ok pol ?cap (mCtrl m) (mSlots ?m ! i) i" if "i < ?cap" "is_full (mCtrl m ! i)" for i
    using table_okD(5) [OF t that] s [OF that(1)] full(2) by (auto simp: slot_ok_def)
  have "table_ok pol ?cap (mCtrl m) (mSlots ?m)"
    unfolding table_ok_def
  proof (intro conjI allI impI)
    show "sound_size pol ?cap" "mirrored (kWidth pol) ?cap (mCtrl m)" using table_okD(1,2) [OF t] .
    show "length (mSlots ?m) = ?cap" using len by (simp add: slot_assign_def)
    show "i < ?cap \<Longrightarrow> byte_ok pol (mCtrl m ! i)" for i by (rule table_okD(4) [OF t])
    show "\<lbrakk>i < ?cap; is_full (mCtrl m ! i)\<rbrakk> \<Longrightarrow> slot_ok pol ?cap (mCtrl m) (mSlots ?m ! i) i" for i by (rule ok)
    fix i i' k'
    assume "i < ?cap" "i' < ?cap" "holds (mCtrl m) (mSlots ?m) i k' \<and> holds (mCtrl m) (mSlots ?m) i' k'"
    then show "i = i'" using hold table_okD(6) [OF t, of i i' k'] by (simp add: parts)
  qed
  moreover have "contents ?cap (mCtrl ?m) (mSlots ?m) = Map.graph (S(k \<mapsto> v))"
    using contents_update [OF j(1) c] cells_but_key [OF t j] r unfolding graph_update
    by (simp add: represents_def)
  ultimately show "represents pol ?m (S(k \<mapsto> v))" using r cap by (simp add: represents_def fh_inv_def parts)
qed

section \<open>Erasing and clearing\<close>

lemma filled_slot:
  assumes r: "represents pol m S" and j: "j < mCapacity m" "cell (mCtrl m) (mSlots m) j = Some (k, w)"
  shows "table_ok pol (mCapacity m) (mCtrl m) (mSlots m)" "fh_inv pol m" "mCapacity m \<noteq> 0" "is_full (mCtrl m ! j)"
    and "mMask m = mCapacity m - 1" "mSize m = count_where (mCapacity m) (\<lambda>j. is_full (mCtrl m ! j))"
    and "mTombstones m = count_where (mCapacity m) (\<lambda>j. mCtrl m ! j = kDeleted)" "mSize m + mTombstones m < mCapacity m"
    and "1 \<le> mGrowthThreshold m" "mGrowthThreshold m < mCapacity m" "0 < mSize m"
    and "Map.graph (S(k := None)) = cells_but (mCapacity m) (mCtrl m) (mSlots m) j"
proof -
  show cap: "mCapacity m \<noteq> 0" using j by simp
  show t: "table_ok pol (mCapacity m) (mCtrl m) (mSlots m)" by (rule represents_table [OF r cap])
  show inv: "fh_inv pol m" using r by (simp add: represents_def)
  show full: "is_full (mCtrl m ! j)" using j(2) by (simp add: cell_def split: if_splits)
  show "mMask m = mCapacity m - 1" "mSize m = count_where (mCapacity m) (\<lambda>j. is_full (mCtrl m ! j))"
    "mTombstones m = count_where (mCapacity m) (\<lambda>j. mCtrl m ! j = kDeleted)" "mSize m + mTombstones m < mCapacity m"
    "1 \<le> mGrowthThreshold m" "mGrowthThreshold m < mCapacity m" using inv cap by (simp_all add: fh_inv_def)
  have "0 < count_where (mCapacity m) (\<lambda>j. is_full (mCtrl m ! j))"
    unfolding count_where_def card_gt_0_iff using j(1) full by auto
  then show "0 < mSize m" using inv cap by (simp add: fh_inv_def)
  show "Map.graph (S(k := None)) = cells_but (mCapacity m) (mCtrl m) (mSlots m) j"
    using r unfolding graph_remove cells_but_key [OF t j] by (simp add: represents_def)
qed

definition erased :: "'k hash_policy \<Rightarrow> ('k, 'v) fhm \<Rightarrow> ('k \<rightharpoonup> 'v) \<Rightarrow> ('k, 'v) fhm \<Rightarrow> bool" where
  "erased pol m S m' \<longleftrightarrow> represents pol m' S \<and> mFrozen m' = mFrozen m \<and> mCapacity m' = mCapacity m
    \<and> mSize m = mSize m' + 1 \<and> (uses_tombstones pol \<longrightarrow> mTombstones m' = mTombstones m + 1)"

lemma erase_at_tombstone:
  assumes r: "represents pol m S" and pol: "policy_ok pol" and j: "j < mCapacity m" "cell (mCtrl m) (mSlots m) j = Some (k, w)"
    and ts: "uses_tombstones pol"
  shows "\<exists>m'. erase_at pol m j = Some (Inr m') \<and> erased pol m (S(k := None)) m'"
proof -
  let ?cap = "mCapacity m"
  note f = filled_slot [OF r j]
  note t = f(1) and cap = f(3) and full = f(4) and num = f(5-10) and pos = f(11) and graph = f(12)
  have nd: "mCtrl m ! j \<noteq> kDeleted" using full by auto
  define m' where "m' = (slot_destroy m j)\<lparr>mCtrl := set_ctrl (kWidth pol) ?cap (mCtrl m) j kDeleted,
       mSize := mSize m - 1, mTombstones := mTombstones m + 1\<rparr>"
  note d = table_delete [OF t pol ts j(1) full]
  have "count_where ?cap (\<lambda>i. is_full (mCtrl m' ! i)) = mSize m - 1"
    using count_where_update [OF j(1), of "\<lambda>i. is_full (mCtrl m' ! i)" False "\<lambda>i. is_full (mCtrl m ! i)"] d(2) full num(2)
    by (simp add: m'_def)
  moreover have "count_where ?cap (\<lambda>i. mCtrl m' ! i = kDeleted) = mTombstones m + 1"
    using count_where_update [OF j(1), of "\<lambda>i. mCtrl m' ! i = kDeleted" True "\<lambda>i. mCtrl m ! i = kDeleted"] d(2) nd num(3)
    by (simp add: m'_def)
  moreover have "contents ?cap (mCtrl m') (mSlots m') = Map.graph (S(k := None))"
    unfolding graph using contents_update [OF j(1) d(3)] by (simp add: m'_def slot_destroy_def)
  ultimately have "represents pol m' (S(k := None))"
    using d(1) num pos cap unfolding represents_def fh_inv_def by (simp add: m'_def slot_destroy_def)
  moreover have "erase_at pol m j = Some (Inr m')" using ts by (simp add: erase_at_def m'_def)
  ultimately show ?thesis using pos by (auto simp: erased_def m'_def slot_destroy_def)
qed

text \<open>The gap left behind by removal from a table without tombstones.\<close>

lemma shift_inv_start:
  assumes t: "table_ok pol cap ctrl slots" and pol: "policy_ok pol" and j: "j < cap" and full: "is_full (ctrl ! j)"
  shows "shift_inv pol cap ctrl slots j ((j + 1) mod cap)"
proof -
  note z = sound_size_pos [OF pol table_okD(1) [OF t]]
  have one: "cdist cap j ((j + 1) mod cap) = 1"
    using cdist_next [OF j j] cdist_0_iff [OF j j] z by simp
  show ?thesis
    unfolding shift_inv_def
  proof (intro conjI allI impI)
    show "sound_size pol cap" "mirrored (kWidth pol) cap ctrl" "length slots = cap" using table_okD(1-3) [OF t] .
    show "j < cap" "(j + 1) mod cap < cap" "is_full (ctrl ! j)" using j full by simp_all
    show "j \<noteq> (j + 1) mod cap" using one cdist_0_iff [OF j j] by auto
    show "element (slots ! j) \<noteq> None" using full_holds [OF t j full] by auto
    show "i < cap \<Longrightarrow> byte_ok pol (ctrl ! i)" for i by (rule table_okD(4) [OF t])
    show "\<lbrakk>i < cap; i \<noteq> j; is_full (ctrl ! i)\<rbrakk> \<Longrightarrow> slot_ok pol cap ctrl (slots ! i) i" for i
      by (rule table_okD(5) [OF t])
    show "i = i'" if "i < cap" "i' < cap"
      "i \<noteq> j \<and> i' \<noteq> j \<and> holds ctrl slots i k' \<and> holds ctrl slots i' k'" for i i' k'
      using that table_okD(6) [OF t] by blast
    fix i
    assume i: "i < cap" "i \<noteq> j \<and> cdist cap j i < cdist cap j ((j + 1) mod cap)"
    then have False using one cdist_0_iff [OF j i(1)] by simp
    then show "is_full (ctrl ! i)" "cdist cap (mHome (slots ! i)) i < cdist cap j i" by blast+
  qed
qed

lemma erase_at_linear:
  assumes r: "represents pol m S" and pol: "policy_ok pol" and j: "j < mCapacity m" "cell (mCtrl m) (mSlots m) j = Some (k, w)"
    and ts: "\<not> uses_tombstones pol"
  shows "\<exists>m'. erase_at pol m j = Some (Inr m') \<and> erased pol m (S(k := None)) m'"
proof -
  let ?cap = "mCapacity m"
  note f = filled_slot [OF r j]
  note t = f(1) and inv = f(2) and cap = f(3) and full = f(4) and num = f(5-10) and pos = f(11) and graph = f(12)
  obtain e where e: "e < ?cap" "mCtrl m ! e = kEmpty" using empty_exists [OF inv cap] by blast
  note z = sound_size_pos [OF pol table_okD(1) [OF t]]
  note sh = shift_inv_start [OF t pol j(1) full]
  define m0 where "m0 = m\<lparr>mSize := mSize m - 1\<rparr>"
  have same: "mCapacity m0 = ?cap" "mCtrl m0 = mCtrl m" "mSlots m0 = mSlots m" "mMask m0 = mMask m" by (simp_all add: m0_def)
  obtain ctrl slots hole scan where b: "shift_back pol m0 j ((j + 1) mod ?cap) = Some (Inr (m0\<lparr>mCtrl := ctrl, mSlots := slots\<rparr>, hole))"
    "shift_inv pol ?cap ctrl slots hole scan" "\<not> is_full (ctrl ! scan)"
    "cells_but ?cap ctrl slots hole = cells_but ?cap (mCtrl m) (mSlots m) j"
    "\<And>i. i < ?cap \<Longrightarrow> is_full (ctrl ! i) = is_full (mCtrl m ! i)"
    using shift_back_spec [of pol m0 j "(j + 1) mod ?cap" e, unfolded same, OF sh pol ts num(1) e] by blast
  define m1 where "m1 = m0\<lparr>mCtrl := ctrl, mSlots := slots\<rparr>"
  define m' where "m' = (slot_destroy m1 hole)\<lparr>mCtrl := set_ctrl (kWidth pol) ?cap ctrl hole kEmpty\<rparr>"
  have hc: "hole < ?cap" "is_full (ctrl ! hole)" using shift_invD(4,7) [OF b(2)] .
  note fin = shift_finish [OF b(2) pol ts b(3)]
  have parts: "mCtrl m' = set_ctrl (kWidth pol) ?cap ctrl hole kEmpty" "mSlots m' = slots[hole := (slots ! hole)\<lparr>element := None\<rparr>]"
    "mCapacity m' = ?cap" "mMask m' = mMask m" "mSize m' = mSize m - 1" "mTombstones m' = mTombstones m"
    "mGrowthThreshold m' = mGrowthThreshold m" "mFrozen m' = mFrozen m"
    by (simp_all add: m'_def m1_def m0_def slot_destroy_def)
  have er: "erase_at pol m j = Some (Inr m')"
    using ts b(1) and_cap [OF table_okD(1) [OF t], of "j + 1"] num(1)
    by (simp add: erase_at_def m'_def m1_def m0_def slot_destroy_def)
  have "count_where ?cap (\<lambda>i. is_full (ctrl ! i)) = mSize m" unfolding num(2) by (rule count_where_cong) (rule b(5))
  then have "count_where ?cap (\<lambda>i. is_full (mCtrl m' ! i)) = mSize m - 1"
    using count_where_update [OF hc(1), of "\<lambda>i. is_full (mCtrl m' ! i)" False "\<lambda>i. is_full (ctrl ! i)"] fin(2) hc(2)
    by (simp add: parts)
  moreover have "count_where ?cap (\<lambda>i. mCtrl m' ! i = kDeleted) = 0"
    by (rule count_where_0) (use table_okD(4) [OF fin(1)] byte_not_deleted [OF _ ts] in \<open>simp add: parts\<close>)
  moreover have "contents ?cap (mCtrl m') (mSlots m') = Map.graph (S(k := None))"
    unfolding graph b(4) [symmetric] using contents_update [OF hc(1) fin(3)] by (simp add: parts)
  ultimately have "represents pol m' (S(k := None))"
    using fin(1) num pos cap no_tombstones [OF r ts] unfolding represents_def fh_inv_def by (simp add: parts)
  with er pos ts show ?thesis by (auto simp: erased_def parts)
qed

lemma erase_at_spec:
  assumes "represents pol m S" and "policy_ok pol" and "j < mCapacity m" "cell (mCtrl m) (mSlots m) j = Some (k, w)"
  shows "\<exists>m'. erase_at pol m j = Some (Inr m') \<and> erased pol m (S(k := None)) m'"
  using erase_at_tombstone [OF assms] erase_at_linear [OF assms] by blast

end
