(* ===== verification/FastHashMap_Build.thy ===== *)
theory FastHashMap_Build
  imports FastHashMap_Map
begin

text \<open>
  Construction, clearing, copying, growth on request and iteration of \<open>FastHashMap\<close>.
\<close>

section \<open>Clearing and copying\<close>

lemma empty_table:
  assumes "sound_size pol cap" and "length slots = cap"
  shows "table_ok pol cap (replicate (cap + kWidth pol) kEmpty) slots"
    and "contents cap (replicate (cap + kWidth pol) kEmpty) slots = {}"
  using assms by (auto simp: table_ok_def mirrored_def byte_ok_def holds_def cell_def contents_def)

lemma length_fold_slots:
  "length (fold (\<lambda>i slots. if P i then slots[i := (slots ! i)\<lparr>element := None\<rparr>] else slots) is xs) = length xs"
  by (induction "is" arbitrary: xs) simp_all

lemma clear_spec:
  assumes r: "represents pol m S" and pol: "policy_ok pol" and mut: "assert_mutable pol m"
  shows "\<exists>m'. fh_clear pol m = (m', Inr ()) \<and> represents pol m' Map.empty \<and> mCapacity m' = mCapacity m \<and> mFrozen m' = mFrozen m"
proof (cases "mCapacity m = 0")
  case True
  with r have "mCtrl m = []" by (simp add: represents_def fh_inv_def)
  with r represents_empty [OF r True] mut show ?thesis by (simp add: fh_clear_def)
next
  case False
  note t = represents_table [OF r False]
  note z = sound_size_pos [OF pol table_okD(1) [OF t]]
  have "length (mCtrl m) = mCapacity m + kWidth pol" using table_okD(2) [OF t] by (simp add: mirrored_def)
  then have "mCtrl m \<noteq> []" using z by auto
  moreover define slots where "slots = fold (\<lambda>i slots. if is_full (mCtrl m ! i) then slots[i := (slots ! i)\<lparr>element := None\<rparr>] else slots)
    [0..<mCapacity m] (mSlots m)"
  have "length slots = mCapacity m" by (simp add: slots_def length_fold_slots table_okD(3) [OF t])
  note empty_table [OF table_okD(1) [OF t] this]
  moreover have c0: "count_where (mCapacity m) (\<lambda>j. is_full (replicate (mCapacity m + kWidth pol) kEmpty ! j)) = 0"
    "count_where (mCapacity m) (\<lambda>j. replicate (mCapacity m + kWidth pol) kEmpty ! j = kDeleted) = 0" by (simp_all add: count_where_0)
  ultimately show ?thesis
    using mut False r z no_tombstones [OF r]
    by (auto simp: fh_clear_def represents_def fh_inv_def slots_def [symmetric])
qed

text \<open>Tables that agree on all bytes and on what the slots in use hold.\<close>

lemma table_ok_cong:
  assumes t: "table_ok pol cap ctrl slots" and pol: "policy_ok pol" and "mirrored (kWidth pol) cap ctrl'" "length slots' = cap"
    and c: "\<And>i. i < cap \<Longrightarrow> ctrl' ! i = ctrl ! i"
    and s: "\<And>i. \<lbrakk>i < cap; is_full (ctrl ! i)\<rbrakk> \<Longrightarrow> element (slots' ! i) = element (slots ! i)
      \<and> (\<not> uses_tombstones pol \<longrightarrow> mHome (slots' ! i) = mHome (slots ! i))"
  shows "table_ok pol cap ctrl' slots' \<and> contents cap ctrl' slots' = contents cap ctrl slots"
proof -
  have cap: "0 < cap" using sound_size_pos [OF pol table_okD(1) [OF t]] by simp
  have cell: "cell ctrl' slots' i = cell ctrl slots i" if "i < cap" for i
    using c [OF that] s [OF that] by (simp add: cell_def)
  have hold: "holds ctrl' slots' i k = holds ctrl slots i k" if "i < cap" for i k
    using cell [OF that] by (simp add: holds_def)
  have g: "reach_groups pol cap ctrl' h i" if "reach_groups pol cap ctrl h i" for h i
    by (rule reach_groups_mono [OF that cap]) (simp add: c)
  have l: "reach_linear cap ctrl' a i" if "reach_linear cap ctrl a i" for a i
    by (rule reach_linear_mono [OF that cap]) (simp add: c)
  have ok: "slot_ok pol cap ctrl' (slots' ! i) i" if i: "i < cap" "is_full (ctrl ! i)" for i
  proof -
    obtain k v where kv: "element (slots ! i) = Some (k, v)" "ctrl ! i = H2 (hash_key pol k)"
      "if uses_tombstones pol then reach_groups pol cap ctrl (hash_key pol k) i
       else mHome (slots ! i) = unat (hash_key pol k) mod cap \<and> reach_linear cap ctrl (mHome (slots ! i)) i"
      using table_okD(5) [OF t i] by (auto simp: slot_ok_def)
    then show ?thesis unfolding slot_ok_def
      using s [OF i] c [OF i(1)] g [of "hash_key pol k" i] l [of "unat (hash_key pol k) mod cap" i]
      by (intro exI [of _ k] exI [of _ v]) (auto split: if_splits)
  qed
  have "table_ok pol cap ctrl' slots'"
    unfolding table_ok_def
  proof (intro conjI allI impI)
    show "sound_size pol cap" by (rule table_okD(1) [OF t])
    show "mirrored (kWidth pol) cap ctrl'" "length slots' = cap" using assms by simp_all
    show "i < cap \<Longrightarrow> byte_ok pol (ctrl' ! i)" for i using table_okD(4) [OF t] c by simp
    show "\<lbrakk>i < cap; is_full (ctrl' ! i)\<rbrakk> \<Longrightarrow> slot_ok pol cap ctrl' (slots' ! i) i" for i using ok c by simp
    show "i = j" if "i < cap" "j < cap" "holds ctrl' slots' i k \<and> holds ctrl' slots' j k" for i j k
      using that hold table_okD(6) [OF t] by blast
  qed
  moreover have "contents cap ctrl' slots' = contents cap ctrl slots" using cell by (auto simp: contents_def)
  ultimately show ?thesis by blast
qed

lemma copy_loop_spec:
  assumes t: "table_ok pol (mCapacity other) (mCtrl other) (mSlots other)" and pol: "policy_ok pol"
  shows "\<lbrakk>set is \<subseteq> {..<mCapacity other}; mCapacity m = mCapacity other; length (mSlots m) = mCapacity other;
      mirrored (kWidth pol) (mCapacity other) (mCtrl m); distinct is;
      \<And>i. i \<in> set is \<Longrightarrow> mCtrl m ! i = kEmpty\<rbrakk> \<Longrightarrow>
    \<exists>ctrl slots. copy_loop pol other is m = Inr (m\<lparr>mCtrl := ctrl, mSlots := slots\<rparr>) \<and> length slots = mCapacity other
      \<and> mirrored (kWidth pol) (mCapacity other) ctrl
      \<and> (\<forall>i<mCapacity other. ctrl ! i = (if i \<in> set is then mCtrl other ! i else mCtrl m ! i))
      \<and> (\<forall>i<mCapacity other. i \<notin> set is \<longrightarrow> slots ! i = mSlots m ! i)
      \<and> (\<forall>i\<in>set is. is_full (mCtrl other ! i) \<longrightarrow> element (slots ! i) = element (mSlots other ! i)
          \<and> (\<not> uses_tombstones pol \<longrightarrow> mHome (slots ! i) = mHome (mSlots other ! i)))"
proof (induction "is" arbitrary: m)
  case Nil
  then show ?case by (intro exI [of _ "mCtrl m"] exI [of _ "mSlots m"]) simp
next
  case (Cons j "is")
  let ?cap = "mCapacity other"
  have j: "j < ?cap" "j \<notin> set is" "set is \<subseteq> {..<?cap}" "distinct is" using Cons.prems by auto
  note z = sound_size_pos [OF pol table_okD(1) [OF t]]
  have w: "kWidth pol \<le> ?cap" using z by simp
  note set = set_ctrl_ok [OF Cons.prems(4) j(1) w]
  have step: ?case if m1: "copy_loop pol other (j # is) m = copy_loop pol other is m1"
      "m1 = m\<lparr>mSlots := ss, mCtrl := cs\<rparr>" "mirrored (kWidth pol) ?cap cs" "length ss = ?cap"
      "\<And>i. i < ?cap \<Longrightarrow> cs ! i = (if i = j then mCtrl other ! j else mCtrl m ! i)"
      "\<And>i. i < ?cap \<Longrightarrow> i \<noteq> j \<Longrightarrow> ss ! i = mSlots m ! i"
      "is_full (mCtrl other ! j) \<longrightarrow> element (ss ! j) = element (mSlots other ! j)
        \<and> (\<not> uses_tombstones pol \<longrightarrow> mHome (ss ! j) = mHome (mSlots other ! j))" for m1 cs ss
  proof -
    have pre: "mCapacity m1 = ?cap" "length (mSlots m1) = ?cap" "mirrored (kWidth pol) ?cap (mCtrl m1)"
      "mCtrl m1 = cs" "mSlots m1 = ss" using Cons.prems(2) m1(2-4) by simp_all
    have emp: "mCtrl m1 ! i = kEmpty" if "i \<in> set is" for i
      using Cons.prems(6) [of i] m1(5) [of i] j that pre(4) by auto
    obtain ctrl slots where c: "copy_loop pol other is m1 = Inr (m1\<lparr>mCtrl := ctrl, mSlots := slots\<rparr>)" "length slots = ?cap"
      "mirrored (kWidth pol) ?cap ctrl"
      "\<And>i. i < ?cap \<Longrightarrow> ctrl ! i = (if i \<in> set is then mCtrl other ! i else mCtrl m1 ! i)"
      "\<And>i. \<lbrakk>i < ?cap; i \<notin> set is\<rbrakk> \<Longrightarrow> slots ! i = mSlots m1 ! i"
      "\<And>i. \<lbrakk>i \<in> set is; is_full (mCtrl other ! i)\<rbrakk> \<Longrightarrow> element (slots ! i) = element (mSlots other ! i)
          \<and> (\<not> uses_tombstones pol \<longrightarrow> mHome (slots ! i) = mHome (mSlots other ! i))"
      using Cons.IH [OF j(3) pre(1-3) j(4) emp] by blast
    show ?case
    proof (intro exI conjI allI impI ballI)
      show "copy_loop pol other (j # is) m = Inr (m\<lparr>mCtrl := ctrl, mSlots := slots\<rparr>)" using c(1) m1(1,2) by simp
      show "length slots = ?cap" "mirrored (kWidth pol) ?cap ctrl" by (rule c(2), rule c(3))
      show "ctrl ! i = (if i \<in> set (j # is) then mCtrl other ! i else mCtrl m ! i)" if "i < ?cap" for i
        using c(4) [OF that] m1(5) [OF that] pre(4) by auto
      show "slots ! i = mSlots m ! i" if "i < ?cap" "i \<notin> set (j # is)" for i
        using c(5) [OF that(1)] m1(6) [OF that(1)] that(2) pre(5) by auto
      fix i
      assume i: "i \<in> set (j # is)" "is_full (mCtrl other ! i)"
      have "element (slots ! i) = element (mSlots other ! i) \<and> (\<not> uses_tombstones pol \<longrightarrow> mHome (slots ! i) = mHome (mSlots other ! i))"
        using c(5) [OF j(1,2)] c(6) [of i] m1(7) i pre(5) by (cases "i = j") auto
      then show "element (slots ! i) = element (mSlots other ! i)"
        "\<not> uses_tombstones pol \<Longrightarrow> mHome (slots ! i) = mHome (mSlots other ! i)" by blast+
    qed
  qed
  show ?case
  proof (cases "is_full (mCtrl other ! j)")
    case full: True
    obtain k v where kv: "element (mSlots other ! j) = Some (k, v)" by (rule cell_SomeD [OF t j(1) full])
    show ?thesis
      by (rule step [where cs = "set_ctrl (kWidth pol) ?cap (mCtrl m) j (mCtrl other ! j)"
            and ss = "(mSlots m)[j := slot_construct pol k v (mHome (mSlots other ! j))]", OF _ refl])
        (use full kv set Cons.prems(2,3) j(1) in \<open>simp_all add: slot_construct_def\<close>)
  next
    case nf: False
    show ?thesis
    proof (cases "is_deleted (mCtrl other ! j)")
      case True
      then have d: "mCtrl other ! j = kDeleted" by (simp add: is_deleted_def)
      show ?thesis
        by (rule step [where cs = "set_ctrl (kWidth pol) ?cap (mCtrl m) j kDeleted" and ss = "mSlots m", OF _ refl])
          (use d set Cons.prems(2,3) in simp_all)
    next
      case False
      then have d: "mCtrl other ! j = kEmpty" using nf table_okD(4) [OF t j(1)] by (auto simp: byte_ok_def is_deleted_def)
      show ?thesis
        by (rule step [where cs = "mCtrl m" and ss = "mSlots m", OF _ refl])
          (use d Cons.prems(3,4,6) in \<open>simp_all add: False nf\<close>)
    qed
  qed
qed

lemma copy_spec:
  fixes m :: "('k, 'v) fhm"
  assumes r: "represents pol m S" and pol: "policy_ok pol"
  shows "if mCapacity m = 0 \<or> mem (mCapacity m)
    then \<exists>m'. fh_copy pol mem m = Inr m' \<and> represents pol m' S \<and> mFrozen m' = mFrozen m \<and> mCapacity m' = mCapacity m
    else fh_copy pol mem m = Inl Bad_alloc"
proof (cases "mCapacity m = 0")
  case True
  with r represents_empty [OF r True] show ?thesis
    by (auto simp: fh_copy_def Let_def fh_empty_def represents_def fh_inv_def contents_def)
next
  case False
  note t = represents_table [OF r False]
  note z = sound_size_pos [OF pol table_okD(1) [OF t]]
  let ?cap = "mCapacity m"
  define m0 :: "('k, 'v) fhm" where "m0 = (fh_empty\<lparr>mFrozen := mFrozen m\<rparr>)\<lparr>mCtrl := replicate (?cap + kWidth pol) kEmpty,
       mSlots := replicate ?cap \<lparr>element = None, mHome = 0\<rparr>, mCapacity := ?cap, mMask := ?cap - 1,
       mGrowthThreshold := compute_growth_threshold pol ?cap\<rparr>"
  have pre: "mCapacity m0 = ?cap" "length (mSlots m0) = ?cap" "mirrored (kWidth pol) ?cap (mCtrl m0)"
    "\<And>i. i \<in> set [0..<?cap] \<Longrightarrow> mCtrl m0 ! i = kEmpty" by (simp_all add: m0_def mirrored_def)
  obtain ctrl slots where c: "copy_loop pol m [0..<?cap] m0 = Inr (m0\<lparr>mCtrl := ctrl, mSlots := slots\<rparr>)" "length slots = ?cap"
    "mirrored (kWidth pol) ?cap ctrl" "\<And>i. i < ?cap \<Longrightarrow> ctrl ! i = mCtrl m ! i"
    "\<And>i. \<lbrakk>i < ?cap; is_full (mCtrl m ! i)\<rbrakk> \<Longrightarrow> element (slots ! i) = element (mSlots m ! i)
      \<and> (\<not> uses_tombstones pol \<longrightarrow> mHome (slots ! i) = mHome (mSlots m ! i))"
    using copy_loop_spec [OF t pol, of "[0..<?cap]" m0] pre by fastforce
  note ok = table_ok_cong [OF t pol c(3,2,4,5)]
  have thr: "1 \<le> compute_growth_threshold pol ?cap \<and> compute_growth_threshold pol ?cap < ?cap"
    by (rule threshold_bounds) (use z in linarith)
  have "count_where ?cap (\<lambda>j. is_full (ctrl ! j)) = count_where ?cap (\<lambda>j. is_full (mCtrl m ! j))"
    "count_where ?cap (\<lambda>j. ctrl ! j = kDeleted) = count_where ?cap (\<lambda>j. mCtrl m ! j = kDeleted)"
    by (rule count_where_cong, simp add: c(4))+
  with ok thr r False no_tombstones [OF r] have "represents pol (m0\<lparr>mCtrl := ctrl, mSlots := slots, mSize := mSize m,
      mTombstones := (if uses_tombstones pol then mTombstones m else mTombstones m0)\<rparr>) S"
    by (auto simp: represents_def fh_inv_def m0_def fh_empty_def)
  with c(1) False show ?thesis by (auto simp: fh_copy_def Let_def fh_allocate_def m0_def)
qed


section \<open>Growth on request\<close>

lemma double_until_power:
  "\<lbrakk>k \<le> 63; unat r \<le> 2 ^ 63\<rbrakk> \<Longrightarrow> \<exists>j. k \<le> j \<and> j \<le> 63 \<and> double_until r (2 ^ k) = Some (2 ^ j) \<and> unat r \<le> 2 ^ j"
proof (induction "63 - k" arbitrary: k rule: less_induct)
  case less
  have u: "unat (2 ^ k :: u64) = 2 ^ k" by (rule unat_two_power) (use less.prems in simp)
  show ?case
  proof (cases "unat r \<le> 2 ^ k")
    case True
    then have "\<not> 2 ^ k < r" using u by (simp add: word_less_nat_alt)
    then show ?thesis using less.prems(1) True by (intro exI [of _ k]) (simp add: double_until.simps [of r])
  next
    case False
    then have lt: "2 ^ k < r" using u by (simp add: word_less_nat_alt)
    have "k \<noteq> 63" using False less.prems(2) by auto
    then have k: "Suc k \<le> 63" "63 - Suc k < 63 - k" using less.prems(1) by simp_all
    have "double_until r (2 ^ k) = double_until r (2 ^ Suc k)"
      using lt by (subst double_until.simps) (simp add: mult.commute)
    with less.hyps [OF k(2,1) less.prems(2)] show ?thesis by (metis Suc_leD)
  qed
qed

lemma grow_capacity_spec:
  assumes pol: "policy_ok pol" and "count \<le> 2 ^ 63"
  shows "\<exists>c. grow_capacity pol count = Some c \<and> sound_size pol c \<and> count \<le> c"
proof -
  have "kMinCapacity pol = 2 ^ 5 \<or> kMinCapacity pol = 2 ^ 6" using pol by (auto simp: policy_ok_def kMinCapacity_def)
  then obtain k where k: "kMinCapacity pol = 2 ^ k" "k \<le> 63"
  proof
    assume "kMinCapacity pol = 2 ^ 5"
    then show thesis using that [of 5] by simp
  next
    assume "kMinCapacity pol = 2 ^ 6"
    then show thesis using that [of 6] by simp
  qed
  have "(of_nat (kMinCapacity pol) :: u64) = 2 ^ k" by (simp add: k(1))
  moreover have uc: "unat (of_nat count :: u64) = count" using assms(2) by (simp add: unat_of_nat_u64)
  ultimately obtain j where j: "k \<le> j" "j \<le> 63" "double_until (of_nat count) (of_nat (kMinCapacity pol)) = Some (2 ^ j)" "count \<le> 2 ^ j"
    using double_until_power [OF k(2), of "of_nat count"] assms(2) by auto
  have "grow_capacity pol count = Some (2 ^ j)" using j(2,3) unat_two_power [of j, where 'a = 64] by (simp add: grow_capacity_def)
  moreover have "kMinCapacity pol \<le> 2 ^ j" unfolding k(1) using j(1) by (simp add: power_increasing)
  moreover have "(2 :: nat) ^ j \<le> 2 ^ 63" using j(2) by (rule power_increasing) simp
  ultimately show ?thesis using j(4) by (auto simp: sound_size_def kMinCapacity_def)
qed

lemma new_spec:
  fixes pol :: "'k hash_policy"
  assumes pol: "policy_ok pol" and "n \<le> 2 ^ 63"
  shows "(\<exists>m :: ('k, 'v) fhm. fh_new pol mem n = Some (Inr m) \<and> represents pol m Map.empty \<and> n \<le> mCapacity m \<and> \<not> mFrozen m)
    \<or> ((fh_new pol mem n :: (fault + ('k, 'v) fhm) option) = Some (Inl Bad_alloc) \<and> (\<exists>c. grow_capacity pol n = Some c \<and> \<not> mem c))"
proof -
  have e: "represents pol (fh_empty :: ('k, 'v) fhm) Map.empty"
    by (simp add: represents_def fh_inv_def fh_empty_def contents_def graph_def)
  obtain c where c: "grow_capacity pol n = Some c" "sound_size pol c" "n \<le> c" using grow_capacity_spec [OF assms] by blast
  have cap: "mCapacity (fh_empty :: ('k, 'v) fhm) = 0" "\<not> mFrozen (fh_empty :: ('k, 'v) fhm)" by (simp_all add: fh_empty_def)
  from allocate_spec [OF e pol cap(1) c(2), of mem] e cap c show ?thesis
    by (cases "n = 0"; cases "mem c") (auto simp: fh_new_def)
qed

lemma reserve_spec:
  assumes r: "represents pol m S" and pol: "policy_ok pol" and mut: "assert_mutable pol m"
    and n: "count_over_load pol n + 1 \<le> 2 ^ 63"
  shows "(\<exists>m'. fh_reserve pol mem m n = Some (m', Inr ()) \<and> represents pol m' S \<and> mFrozen m' = mFrozen m
      \<and> count_over_load pol n < mCapacity m')
    \<or> (fh_reserve pol mem m n = Some (m, Inl Bad_alloc) \<and> (\<exists>c. grow_capacity pol (count_over_load pol n + 1) = Some c \<and> \<not> mem c))"
proof -
  obtain c where c: "grow_capacity pol (count_over_load pol n + 1) = Some c" "sound_size pol c" "count_over_load pol n + 1 \<le> c"
    using grow_capacity_spec [OF pol n] by blast
  show ?thesis
  proof (cases "count_over_load pol n + 1 > mCapacity m")
    case False
    with r mut show ?thesis by (auto simp: fh_reserve_def)
  next
    case True
    have "mSize m \<le> mCapacity m" using r by (auto simp: represents_def fh_inv_def split: if_splits)
    with True c(3) have "mSize m < c" by simp
    from rehash_internal_spec [OF r pol c(2) this, of mem] c True mut show ?thesis
      by (cases "mem c") (auto simp: fh_reserve_def)
  qed
qed

lemma rehash_spec:
  assumes r: "represents pol m S" and pol: "policy_ok pol" and mut: "assert_mutable pol m"
    and n: "mSize m < n" "n \<le> 2 ^ 63"
  shows "(\<exists>m'. fh_rehash pol mem m n = Some (m', Inr ()) \<and> represents pol m' S \<and> mFrozen m' = mFrozen m \<and> n \<le> mCapacity m')
    \<or> (fh_rehash pol mem m n = Some (m, Inl Bad_alloc) \<and> (\<exists>c. grow_capacity pol n = Some c \<and> \<not> mem c))"
proof -
  obtain c where c: "grow_capacity pol n = Some c" "sound_size pol c" "n \<le> c" using grow_capacity_spec [OF pol n(2)] by blast
  have "mSize m < c" using n c(3) by simp
  from rehash_internal_spec [OF r pol c(2) this, of mem] c mut r show ?thesis
    by (cases "mem c") (auto simp: fh_rehash_def Let_def)
qed

section \<open>Iteration\<close>

lemma skip_empty_spec:
  "idx \<le> mCapacity m \<Longrightarrow> skip_empty m idx \<le> mCapacity m \<and> (\<forall>i. idx \<le> i \<and> i < skip_empty m idx \<longrightarrow> \<not> is_full (mCtrl m ! i))
    \<and> (skip_empty m idx < mCapacity m \<longrightarrow> is_full (mCtrl m ! skip_empty m idx))"
proof (induction m idx rule: skip_empty.induct)
  case (1 m idx)
  show ?case
  proof (cases "idx < mCapacity m \<and> \<not> is_full (mCtrl m ! idx)")
    case True
    with 1 have IH: "skip_empty m (idx + 1) \<le> mCapacity m" "\<And>i. \<lbrakk>idx + 1 \<le> i; i < skip_empty m (idx + 1)\<rbrakk> \<Longrightarrow> \<not> is_full (mCtrl m ! i)"
      "skip_empty m (idx + 1) < mCapacity m \<longrightarrow> is_full (mCtrl m ! skip_empty m (idx + 1))" by auto
    have s: "skip_empty m idx = skip_empty m (idx + 1)" using True by (subst skip_empty.simps) simp
    have "\<not> is_full (mCtrl m ! i)" if "idx \<le> i" "i < skip_empty m idx" for i
      using that IH(2) [of i] True by (cases "i = idx") (simp_all add: s)
    with IH(1,3) show ?thesis by (simp add: s)
  next
    case False
    have s: "skip_empty m idx = idx" by (subst skip_empty.simps) (rule if_not_P [OF False])
    show ?thesis unfolding s using False "1.prems" by auto
  qed
qed

lemma entries_from_spec:
  assumes t: "table_ok pol (mCapacity m) (mCtrl m) (mSlots m)"
  shows "idx \<le> mCapacity m \<Longrightarrow>
    fh_entries_from m idx = Inr (List.map_filter (cell (mCtrl m) (mSlots m)) [idx..<mCapacity m])"
proof (induction "mCapacity m - idx" arbitrary: idx rule: less_induct)
  case less
  let ?c = "cell (mCtrl m) (mSlots m)" and ?s = "skip_empty m idx"
  note sk = skip_empty_spec [OF less.prems]
  note ge = skip_empty_ge [of idx m]
  have pre: "List.map_filter ?c [idx..<?s] = []"
    using sk by (auto simp: map_filter_def filter_empty_conv cell_def)
  have split: "[idx..<mCapacity m] = [idx..<?s] @ [?s..<mCapacity m]"
    using ge sk upt_add_eq_append [of idx ?s "mCapacity m - ?s"] by simp
  show ?case
  proof (cases "?s < mCapacity m")
    case False
    then show ?thesis using pre split by (subst fh_entries_from.simps) (simp add: map_filter_def)
  next
    case True
    then have full: "is_full (mCtrl m ! ?s)" using sk by blast
    obtain k v where kv: "element (mSlots m ! ?s) = Some (k, v)" "?c ?s = Some (k, v)"
      by (rule cell_SomeD [OF t True full])
    have "fh_entries_from m (?s + 1) = Inr (List.map_filter ?c [?s + 1..<mCapacity m])"
      by (rule less.hyps) (use True ge in simp_all)
    moreover have "[?s..<mCapacity m] = ?s # [?s + 1..<mCapacity m]" using True by (simp add: upt_conv_Cons)
    then have "List.map_filter ?c [idx..<mCapacity m] = (k, v) # List.map_filter ?c [?s + 1..<mCapacity m]"
      unfolding split using pre kv(2) by (simp add: map_filter_def)
    ultimately show ?thesis using True kv(1) by (subst fh_entries_from.simps) simp
  qed
qed

lemma entries_spec:
  assumes r: "represents pol m S"
  shows "\<exists>ps. fh_entries m = Inr ps \<and> distinct (map fst ps) \<and> map_of ps = S \<and> length ps = mSize m"
proof (cases "mCapacity m = 0")
  case True
  then have "fh_entries m = Inr []" by (simp add: fh_entries_def fh_entries_from.simps [of m 0])
  with True represents_empty [OF r True] r show ?thesis by (simp add: represents_def fh_inv_def)
next
  case False
  note t = represents_table [OF r False]
  let ?c = "cell (mCtrl m) (mSlots m)"
  define us where "us = filter (\<lambda>i. ?c i \<noteq> None) [0..<mCapacity m]"
  define ps where "ps = map (the \<circ> ?c) us"
  have e: "fh_entries m = Inr ps" by (simp add: fh_entries_def entries_from_spec [OF t] ps_def us_def map_filter_def)
  have mem: "p \<in> set ps \<longleftrightarrow> (\<exists>i<mCapacity m. ?c i = Some p)" for p by (auto simp: ps_def us_def image_iff)
  have "inj_on (fst \<circ> (the \<circ> ?c)) (set us)"
  proof (rule inj_onI)
    fix i j
    assume ij: "i \<in> set us" "j \<in> set us" "(fst \<circ> (the \<circ> ?c)) i = (fst \<circ> (the \<circ> ?c)) j"
    then obtain p q where "?c i = Some p" "?c j = Some q" "i < mCapacity m" "j < mCapacity m" "fst p = fst q"
      by (auto simp: us_def)
    then show "i = j" using table_okD(6) [OF t, of i j "fst p"] by (auto simp: holds_def) (metis prod.collapse)
  qed
  then have d: "distinct (map fst ps)" by (simp add: ps_def us_def distinct_map comp_assoc)
  have "map_of ps k = S k" for k
  proof -
    have "map_of ps k = Some v \<longleftrightarrow> S k = Some v" for v
      using represents_holds [OF r, of k v] mem [of "(k, v)"] map_of_eq_Some_iff [OF d, of k v] by blast
    then show ?thesis by (metis not_None_eq)
  qed
  moreover have "?c i \<noteq> None \<longleftrightarrow> is_full (mCtrl m ! i)" if "i < mCapacity m" for i
    using that by (auto simp: cell_def elim: cell_SomeD [OF t])
  then have "us = filter (\<lambda>i. is_full (mCtrl m ! i)) [0..<mCapacity m]"
    unfolding us_def by (intro filter_cong) simp_all
  then have "length ps = mSize m" using r False by (simp add: ps_def represents_def fh_inv_def count_where_filter)
  ultimately show ?thesis using e d by blast
qed

lemma size_spec: "represents pol m S \<Longrightarrow> mSize m = card (dom S)"
  using entries_spec [of pol m S] by (auto simp: dom_map_of_conv_image_fst distinct_card simp flip: set_map)

end
