(* ===== verification/FastHashMap_Contract.thy ===== *)
theory FastHashMap_Contract
  imports FastHashMap_Build Interfaces
begin

text \<open>
  Sequences of operations on a \<open>FastHashMap\<close> against a finite map, the divergence of \<open>rehash\<close>, and
  the statements about the program, which are the last section.
\<close>

section \<open>The operations on the represented map\<close>

lemma insert_spec:
  assumes r: "represents pol m S" and pol: "policy_ok pol" and mem: "memory_ok mem" and mut: "assert_mutable pol m"
  shows "(fh_insert pol mem m k v = Some (m, Inl Bad_alloc) \<and> (\<exists>c\<in>set (growth_requests pol m). \<not> mem c))
    \<or> (\<exists>m' j. fh_insert pol mem m k v = Some (m', Inr (if S k = None then Some j else None))
      \<and> represents pol m' (if S k = None then S(k \<mapsto> v) else S) \<and> mFrozen m' = mFrozen m
      \<and> (S k = None \<longrightarrow> j < mCapacity m' \<and> cell (mCtrl m') (mSlots m') j = Some (k, v))
      \<and> (mTombstones m = 0 \<longrightarrow> mTombstones m' = 0) \<and> mCapacity m' \<le> max (kMinCapacity pol) (mCapacity m) * 2)"
  using insert_new_spec [OF r pol mem mut, of k v]
  by (cases "S k") (force simp: fh_insert_def)+

lemma insert_or_assign_spec:
  assumes r: "represents pol m S" and pol: "policy_ok pol" and mem: "memory_ok mem" and mut: "assert_mutable pol m"
  shows "(fh_insert_or_assign pol mem m k v = Some (m, Inl Bad_alloc) \<and> (\<exists>c\<in>set (growth_requests pol m). \<not> mem c))
    \<or> (\<exists>m' j. fh_insert_or_assign pol mem m k v = Some (m', Inr (j, S k = None))
      \<and> represents pol m' (S(k \<mapsto> v)) \<and> mFrozen m' = mFrozen m
      \<and> j < mCapacity m' \<and> cell (mCtrl m') (mSlots m') j = Some (k, v)
      \<and> mCapacity m' \<le> max (kMinCapacity pol) (mCapacity m) * 2)"
proof -
  consider "fh_insert_new pol mem m k v = Some (m, Inl Bad_alloc)" "\<exists>c\<in>set (growth_requests pol m). \<not> mem c"
    | (found) m' j w where "j < mCapacity m'" "mFrozen m' = mFrozen m" "mCapacity m' \<le> max (kMinCapacity pol) (mCapacity m) * 2"
        "S k = Some w" "fh_insert_new pol mem m k v = Some (m', Inr (Inl j))" "represents pol m' S" "cell (mCtrl m') (mSlots m') j = Some (k, w)"
    | (new) m' j where "j < mCapacity m'" "cell (mCtrl m') (mSlots m') j = Some (k, v)" "mFrozen m' = mFrozen m" "mCapacity m' \<le> max (kMinCapacity pol) (mCapacity m) * 2"
        "S k = None" "fh_insert_new pol mem m k v = Some (m', Inr (Inr j))" "represents pol m' (S(k \<mapsto> v))"
    using insert_new_spec [OF r pol mem mut, of k v] by (cases "S k") auto
  then show ?thesis
  proof cases
    case 1
    then show ?thesis by (simp add: fh_insert_or_assign_def)
  next
    case found
    from slot_assign_spec [OF found(6) pol found(1,7), of v] found(1-5) show ?thesis
      by (intro disjI2 exI [of _ "slot_assign m' j v"] exI [of _ j]) (simp add: fh_insert_or_assign_def slot_assign_def)
  next
    case new
    then show ?thesis by (intro disjI2 exI [of _ m'] exI [of _ j]) (simp add: fh_insert_or_assign_def)
  qed
qed

lemma subscript_spec:
  assumes r: "represents pol m S" and pol: "policy_ok pol" and mem: "memory_ok mem" and mut: "assert_mutable pol m"
  shows "(fh_subscript pol mem d m k = Some (m, Inl Bad_alloc) \<and> (\<exists>c\<in>set (growth_requests pol m). \<not> mem c))
    \<or> (\<exists>m' j v. v = (case S k of None \<Rightarrow> d | Some w \<Rightarrow> w) \<and> fh_subscript pol mem d m k = Some (m', Inr j)
      \<and> represents pol m' (S(k \<mapsto> v)) \<and> mFrozen m' = mFrozen m \<and> mCapacity m' \<le> max (kMinCapacity pol) (mCapacity m) * 2
      \<and> j < mCapacity m' \<and> cell (mCtrl m') (mSlots m') j = Some (k, v))"
proof -
  from insert_new_spec [OF r pol mem mut, of k d] show ?thesis
    by (cases "S k") (auto simp: fh_subscript_def fun_upd_idem)
qed

lemma erase_spec:
  assumes r: "represents pol m S" and pol: "policy_ok pol" and mut: "assert_mutable pol m"
  shows "\<exists>m'. fh_erase pol m k = Some (m', Inr (S k \<noteq> None)) \<and> represents pol m' (S(k := None))
    \<and> mFrozen m' = mFrozen m \<and> mCapacity m' = mCapacity m
    \<and> (S k \<noteq> None \<longrightarrow> mSize m = mSize m' + 1 \<and> (uses_tombstones pol \<longrightarrow> mTombstones m' = mTombstones m + 1))"
proof (cases "S k")
  case None
  then have "S(k := None) = S" by auto
  with None find_slot_spec [OF r pol, of k] r mut show ?thesis by (simp add: fh_erase_def)
next
  case (Some w)
  with find_slot_spec [OF r pol, of k] obtain j where
    j: "j < mCapacity m" "find_slot pol m k = Some (Inr (j, True))" "cell (mCtrl m) (mSlots m) j = Some (k, w)" by auto
  with erase_at_spec [OF r pol j(1,3)] mut Some show ?thesis by (auto simp: fh_erase_def erased_def)
qed

lemma move_spec:
  assumes r: "represents pol m S" and "fh_move pol m = (m', rest)"
  shows "represents pol m' S" and "mFrozen m' = mFrozen m" and "mCapacity m' = mCapacity m"
    and "represents pol rest Map.empty" and "\<not> mFrozen rest" and "mCapacity rest = 0"
  using assms no_tombstones [OF r]
  by (auto simp: fh_move_def represents_def fh_inv_def contents_def graph_def)

section \<open>Sequences of operations\<close>

datatype ('k, 'v) fh_op =
    Do_insert 'k 'v | Do_insert_or_assign 'k 'v | Do_subscript 'k | Do_subscript_assign 'k 'v
  | Do_erase 'k | Do_clear | Do_reserve nat | Do_rehash nat
  | Do_find 'k | Do_contains 'k | Do_count 'k | Do_at 'k | Do_size | Do_capacity
  | Do_copy | Do_move_out | Do_freeze | Do_is_frozen

datatype 'v fh_answer =
    Ans_unit | Ans_bool bool | Ans_value 'v | Ans_maybe "'v option" | Ans_pair 'v bool | Ans_nat nat | Ans_raised fault

definition answer :: "('r \<Rightarrow> 'v fh_answer) \<Rightarrow> 'r result \<Rightarrow> 'v fh_answer" where
  "answer f r = (case r of Inl e \<Rightarrow> Ans_raised e | Inr x \<Rightarrow> f x)"

definition read_slot :: "('k, 'v) fhm \<Rightarrow> nat \<Rightarrow> ('v \<Rightarrow> 'v fh_answer) \<Rightarrow> 'v fh_answer" where
  "read_slot m j f = answer f (slot_value (mSlots m) j)"

definition answered :: "('m \<Rightarrow> 'r \<Rightarrow> 'v fh_answer) \<Rightarrow> ('m \<times> 'r result) option \<Rightarrow> ('m \<times> 'v fh_answer) option" where
  "answered f x = map_option (\<lambda>(m, r). (m, answer (f m) r)) x"

text \<open>
  One operation with the allocator's replies during it.  References and pointers that an operation
  returns are read at once.  \<open>Do_rehash n\<close> is \<open>m.rehash(max(n, m.size() + 1))\<close>;
  \<open>Do_copy\<close> is \<open>FastHashMap copy(m); m = std::move(copy);\<close> and \<open>Do_move_out\<close> is
  \<open>FastHashMap other(std::move(m));\<close>.
\<close>

fun fh_exec :: "'k hash_policy \<Rightarrow> 'v \<Rightarrow> (nat \<Rightarrow> bool) \<times> ('k, 'v) fh_op \<Rightarrow> ('k, 'v) fhm
    \<Rightarrow> (('k, 'v) fhm \<times> 'v fh_answer) option" where
  "fh_exec pol d (mem, Do_insert k v) m = answered (\<lambda>m' p. case p of None \<Rightarrow> Ans_maybe None
     | Some j \<Rightarrow> read_slot m' j (\<lambda>v. Ans_maybe (Some v))) (fh_insert pol mem m k v)"
| "fh_exec pol d (mem, Do_insert_or_assign k v) m =
     answered (\<lambda>m' (j, b). read_slot m' j (\<lambda>v. Ans_pair v b)) (fh_insert_or_assign pol mem m k v)"
| "fh_exec pol d (mem, Do_subscript k) m = answered (\<lambda>m' j. read_slot m' j Ans_value) (fh_subscript pol mem d m k)"
| "fh_exec pol d (mem, Do_subscript_assign k v) m = (case fh_subscript pol mem d m k of None \<Rightarrow> None
     | Some (m', Inl e) \<Rightarrow> Some (m', Ans_raised e)
     | Some (m', Inr j) \<Rightarrow> Some (slot_assign m' j v, Ans_unit))"
| "fh_exec pol d (mem, Do_erase k) m = answered (\<lambda>m'. Ans_bool) (fh_erase pol m k)"
| "fh_exec pol d (mem, Do_clear) m = answered (\<lambda>m' u. Ans_unit) (Some (fh_clear pol m))"
| "fh_exec pol d (mem, Do_reserve n) m = answered (\<lambda>m' u. Ans_unit) (fh_reserve pol mem m n)"
| "fh_exec pol d (mem, Do_rehash n) m = answered (\<lambda>m' u. Ans_unit) (fh_rehash pol mem m (max n (mSize m + 1)))"
| "fh_exec pol d (mem, Do_find k) m = map_option (\<lambda>r. (m, answer Ans_maybe r)) (fh_find pol m k)"
| "fh_exec pol d (mem, Do_contains k) m = map_option (\<lambda>r. (m, answer Ans_bool r)) (fh_contains pol m k)"
| "fh_exec pol d (mem, Do_count k) m = map_option (\<lambda>r. (m, answer Ans_nat r)) (fh_count pol m k)"
| "fh_exec pol d (mem, Do_at k) m = map_option (\<lambda>r. (m, answer Ans_value r)) (fh_at pol m k)"
| "fh_exec pol d (mem, Do_size) m = Some (m, Ans_nat (mSize m))"
| "fh_exec pol d (mem, Do_capacity) m = Some (m, Ans_nat (mCapacity m))"
| "fh_exec pol d (mem, Do_copy) m = (case fh_copy pol mem m of Inl e \<Rightarrow> Some (m, Ans_raised e)
     | Inr copy \<Rightarrow> Some (fst (fh_move_assign pol m copy), Ans_unit))"
| "fh_exec pol d (mem, Do_move_out) m = Some (snd (fh_move pol m), Ans_unit)"
| "fh_exec pol d (mem, Do_freeze) m = Some (fh_freeze m, Ans_unit)"
| "fh_exec pol d (mem, Do_is_frozen) m = Some (m, Ans_bool (mFrozen m))"

text \<open>The specification: a finite map, whether it is frozen, and the capacity.\<close>

type_synonym ('k, 'v) fh_abs = "('k \<rightharpoonup> 'v) \<times> bool \<times> nat"

fun fh_ref :: "'v \<Rightarrow> ('k, 'v) fh_op \<Rightarrow> ('k, 'v) fh_abs \<Rightarrow> (('k \<rightharpoonup> 'v) \<times> bool) \<times> 'v fh_answer" where
  "fh_ref d (Do_insert k v) (S, fz, cap) =
     (if S k = None then ((S(k \<mapsto> v), fz), Ans_maybe (Some v)) else ((S, fz), Ans_maybe None))"
| "fh_ref d (Do_insert_or_assign k v) (S, fz, cap) = ((S(k \<mapsto> v), fz), Ans_pair v (S k = None))"
| "fh_ref d (Do_subscript k) (S, fz, cap) =
     (let v = (case S k of None \<Rightarrow> d | Some v \<Rightarrow> v) in ((S(k \<mapsto> v), fz), Ans_value v))"
| "fh_ref d (Do_subscript_assign k v) (S, fz, cap) = ((S(k \<mapsto> v), fz), Ans_unit)"
| "fh_ref d (Do_erase k) (S, fz, cap) = ((S(k := None), fz), Ans_bool (S k \<noteq> None))"
| "fh_ref d Do_clear (S, fz, cap) = ((Map.empty, fz), Ans_unit)"
| "fh_ref d (Do_reserve n) (S, fz, cap) = ((S, fz), Ans_unit)"
| "fh_ref d (Do_rehash n) (S, fz, cap) = ((S, fz), Ans_unit)"
| "fh_ref d (Do_find k) (S, fz, cap) = ((S, fz), Ans_maybe (S k))"
| "fh_ref d (Do_contains k) (S, fz, cap) = ((S, fz), Ans_bool (S k \<noteq> None))"
| "fh_ref d (Do_count k) (S, fz, cap) = ((S, fz), Ans_nat (if S k = None then 0 else 1))"
| "fh_ref d (Do_at k) (S, fz, cap) = ((S, fz), case S k of None \<Rightarrow> Ans_raised Out_of_range | Some v \<Rightarrow> Ans_value v)"
| "fh_ref d Do_size (S, fz, cap) = ((S, fz), Ans_nat (card (dom S)))"
| "fh_ref d Do_capacity (S, fz, cap) = ((S, fz), Ans_nat cap)"
| "fh_ref d Do_copy (S, fz, cap) = ((S, fz), Ans_unit)"
| "fh_ref d Do_move_out (S, fz, cap) = ((Map.empty, False), Ans_unit)"
| "fh_ref d Do_freeze (S, fz, cap) = ((S, True), Ans_unit)"
| "fh_ref d Do_is_frozen (S, fz, cap) = ((S, fz), Ans_bool fz)"

definition fh_grows :: "('k, 'v) fh_op \<Rightarrow> bool" where
  "fh_grows op = (case op of Do_insert k v \<Rightarrow> True | Do_insert_or_assign k v \<Rightarrow> True | Do_subscript k \<Rightarrow> True
     | Do_subscript_assign k v \<Rightarrow> True | _ \<Rightarrow> False)"

definition fh_mutates :: "('k, 'v) fh_op \<Rightarrow> bool" where
  "fh_mutates op = (fh_grows op \<or> (case op of Do_erase k \<Rightarrow> True | Do_clear \<Rightarrow> True | Do_reserve n \<Rightarrow> True
     | Do_rehash n \<Rightarrow> True | _ \<Rightarrow> False))"

text \<open>The capacity afterwards, and the sizes of the tables an operation may ask the allocator for.\<close>

definition fh_capacity :: "'k hash_policy \<Rightarrow> ('k, 'v) fh_op \<Rightarrow> nat \<Rightarrow> nat \<Rightarrow> bool" where
  "fh_capacity pol op cap cap' =
     (if fh_grows op then cap' \<le> max (kMinCapacity pol) cap * 2
      else case op of Do_reserve n \<Rightarrow> count_over_load pol n < cap' | Do_rehash n \<Rightarrow> n \<le> cap'
        | Do_move_out \<Rightarrow> cap' = 0 | _ \<Rightarrow> cap' = cap)"

definition fh_requests :: "'k hash_policy \<Rightarrow> ('k, 'v) fh_op \<Rightarrow> ('k, 'v) fh_abs \<Rightarrow> nat set" where
  "fh_requests pol op a = (case a of (S, fz, cap) \<Rightarrow>
     (if fh_grows op then (if cap = 0 then {kMinCapacity pol} else {cap, cap * 2})
      else case op of Do_reserve n \<Rightarrow> set_option (grow_capacity pol (count_over_load pol n + 1))
        | Do_rehash n \<Rightarrow> set_option (grow_capacity pol (max n (card (dom S) + 1)))
        | Do_copy \<Rightarrow> {cap} | _ \<Rightarrow> {}))"

fun fh_allows :: "'k hash_policy \<Rightarrow> 'v \<Rightarrow> (nat \<Rightarrow> bool) \<times> ('k, 'v) fh_op \<Rightarrow> ('k, 'v) fh_abs
    \<Rightarrow> ('k, 'v) fh_abs \<times> 'v fh_answer \<Rightarrow> bool" where
  "fh_allows pol d (mem, op) (S, fz, cap) ((S', fz', cap'), a) \<longleftrightarrow>
     (if assertions pol \<and> fz \<and> fh_mutates op then (S', fz', cap') = (S, fz, cap) \<and> a = Ans_raised assert_failed
      else ((S', fz'), a) = fh_ref d op (S, fz, cap) \<and> fh_capacity pol op cap cap'
        \<or> (S', fz', cap') = (S, fz, cap) \<and> a = Ans_raised Bad_alloc \<and> (\<exists>c\<in>fh_requests pol op (S, fz, cap). \<not> mem c))"

definition fh_rep :: "'k hash_policy \<Rightarrow> ('k, 'v) fhm \<Rightarrow> ('k, 'v) fh_abs \<Rightarrow> bool" where
  "fh_rep pol m a \<longleftrightarrow> policy_ok pol \<and> (case a of (S, fz, cap) \<Rightarrow> represents pol m S \<and> mFrozen m = fz \<and> mCapacity m = cap)"

definition fh_fits :: "'k hash_policy \<Rightarrow> (nat \<Rightarrow> bool) \<times> ('k, 'v) fh_op \<Rightarrow> bool" where
  "fh_fits pol x \<longleftrightarrow> memory_ok (fst x) \<and> (case snd x of Do_reserve n \<Rightarrow> count_over_load pol n + 1 \<le> 2 ^ 63
     | Do_rehash n \<Rightarrow> n \<le> 2 ^ 63 | _ \<Rightarrow> True)"

lemma step_frozen:
  assumes "\<not> assert_mutable pol m" and "fh_mutates op"
  shows "fh_exec pol d (mem, op) m = Some (m, Ans_raised assert_failed)"
  using assms by (cases op) (simp_all add: fh_mutates_def fh_grows_def answered_def answer_def fh_insert_def
    fh_insert_or_assign_def fh_subscript_def fh_insert_new_def fh_erase_def fh_clear_def fh_reserve_def fh_rehash_def)

lemma read_slot_cell:
  "\<lbrakk>represents pol m S; j < mCapacity m; cell (mCtrl m) (mSlots m) j = Some (k, v)\<rbrakk> \<Longrightarrow> read_slot m j f = f v"
  using cell_value [OF represents_table, of pol m S j k v] by (auto simp: read_slot_def answer_def)

text \<open>The outcome of an operation in a state that may be changed.\<close>

definition step_ok :: "'k hash_policy \<Rightarrow> 'v \<Rightarrow> (nat \<Rightarrow> bool) \<times> ('k, 'v) fh_op \<Rightarrow> ('k, 'v) fhm \<Rightarrow> ('k \<rightharpoonup> 'v) \<Rightarrow> bool" where
  "step_ok pol d x m S \<longleftrightarrow> (\<exists>m' S' r. fh_exec pol d x m = Some (m', r) \<and> represents pol m' S'
     \<and> fh_allows pol d x (S, mFrozen m, mCapacity m) ((S', mFrozen m', mCapacity m'), r))"

lemma step_okI:
  assumes "fh_exec pol d (mem, op) m = Some (m', r)" and "represents pol m' S'"
    and "((S', mFrozen m'), r) = fh_ref d op (S, mFrozen m, mCapacity m)" and "fh_capacity pol op (mCapacity m) (mCapacity m')"
    and "assert_mutable pol m \<or> \<not> fh_mutates op"
  shows "step_ok pol d (mem, op) m S"
  unfolding step_ok_def using assms by (intro exI [of _ m'] exI [of _ S'] exI [of _ r]) (auto simp: assert_mutable_def)

lemma step_refusedI:
  assumes "fh_exec pol d (mem, op) m = Some (m, Ans_raised Bad_alloc)" and "represents pol m S"
    and "\<exists>c\<in>fh_requests pol op (S, mFrozen m, mCapacity m). \<not> mem c"
    and "assert_mutable pol m \<or> \<not> fh_mutates op"
  shows "step_ok pol d (mem, op) m S"
  unfolding step_ok_def using assms
  by (intro exI [of _ m] exI [of _ S] exI [of _ "Ans_raised Bad_alloc"]) (auto simp: assert_mutable_def)

lemma set_growth_requests:
  "fh_grows op \<Longrightarrow> fh_requests pol op (S, fz, mCapacity m) = set (growth_requests pol m)"
  by (simp add: fh_requests_def growth_requests_def)

lemma step_insert:
  assumes r: "represents pol m S" and pol: "policy_ok pol" and mem: "memory_ok mem" and mut: "assert_mutable pol m"
  shows "step_ok pol d (mem, Do_insert k v) m S"
proof -
  have g: "fh_grows (Do_insert k v)" by (simp add: fh_grows_def)
  from insert_spec [OF r pol mem mut, of k v] show ?thesis
  proof (elim disjE exE conjE)
    assume "fh_insert pol mem m k v = Some (m, Inl Bad_alloc)" "\<exists>c\<in>set (growth_requests pol m). \<not> mem c"
    then show ?thesis using r mut by (intro step_refusedI) (simp_all add: answered_def answer_def set_growth_requests [OF g])
  next
    fix m' j
    assume i: "fh_insert pol mem m k v = Some (m', Inr (if S k = None then Some j else None))"
      "represents pol m' (if S k = None then S(k \<mapsto> v) else S)" "mFrozen m' = mFrozen m"
      "S k = None \<longrightarrow> j < mCapacity m' \<and> cell (mCtrl m') (mSlots m') j = Some (k, v)"
      "mCapacity m' \<le> max (kMinCapacity pol) (mCapacity m) * 2"
    then show ?thesis
      by (intro step_okI [OF _ i(2)]) (use mut g read_slot_cell [of pol m' "S(k \<mapsto> v)" j k v] in \<open>auto simp: answered_def answer_def fh_capacity_def\<close>)
  qed
qed

lemma step_insert_or_assign:
  assumes r: "represents pol m S" and pol: "policy_ok pol" and mem: "memory_ok mem" and mut: "assert_mutable pol m"
  shows "step_ok pol d (mem, Do_insert_or_assign k v) m S"
proof -
  have g: "fh_grows (Do_insert_or_assign k v)" by (simp add: fh_grows_def)
  from insert_or_assign_spec [OF r pol mem mut, of k v] show ?thesis
  proof (elim disjE exE conjE)
    assume "fh_insert_or_assign pol mem m k v = Some (m, Inl Bad_alloc)" "\<exists>c\<in>set (growth_requests pol m). \<not> mem c"
    then show ?thesis using r mut by (intro step_refusedI) (simp_all add: answered_def answer_def set_growth_requests [OF g])
  next
    fix m' j
    assume i: "fh_insert_or_assign pol mem m k v = Some (m', Inr (j, S k = None))"
      "represents pol m' (S(k \<mapsto> v))" "mFrozen m' = mFrozen m"
      "j < mCapacity m'" "cell (mCtrl m') (mSlots m') j = Some (k, v)"
      "mCapacity m' \<le> max (kMinCapacity pol) (mCapacity m) * 2"
    then show ?thesis
      by (intro step_okI [OF _ i(2)]) (use mut g read_slot_cell [OF i(2,4,5)] in \<open>auto simp: answered_def answer_def fh_capacity_def\<close>)
  qed
qed

lemma step_subscript:
  assumes r: "represents pol m S" and pol: "policy_ok pol" and mem: "memory_ok mem" and mut: "assert_mutable pol m"
  shows "step_ok pol d (mem, Do_subscript k) m S" and "step_ok pol d (mem, Do_subscript_assign k v) m S"
proof -
  have g: "fh_grows (Do_subscript k)" "fh_grows (Do_subscript_assign k v)" by (simp_all add: fh_grows_def)
  note sp = subscript_spec [OF r pol mem mut, of d k]
  consider (refused) "fh_subscript pol mem d m k = Some (m, Inl Bad_alloc)" "\<exists>c\<in>set (growth_requests pol m). \<not> mem c"
    | (ok) m' j w where "w = (case S k of None \<Rightarrow> d | Some w \<Rightarrow> w)" "fh_subscript pol mem d m k = Some (m', Inr j)"
      "represents pol m' (S(k \<mapsto> w))" "mFrozen m' = mFrozen m" "mCapacity m' \<le> max (kMinCapacity pol) (mCapacity m) * 2"
      "j < mCapacity m'" "cell (mCtrl m') (mSlots m') j = Some (k, w)"
    using sp by blast
  then have "step_ok pol d (mem, Do_subscript k) m S \<and> step_ok pol d (mem, Do_subscript_assign k v) m S"
  proof cases
    case refused
    then show ?thesis
      using r mut by (intro conjI step_refusedI) (simp_all add: answered_def answer_def set_growth_requests [OF g(1)] set_growth_requests [OF g(2)])
  next
    case ok
    have "step_ok pol d (mem, Do_subscript k) m S"
      by (intro step_okI [OF _ ok(3)])
        (use mut g ok(2,4,5) read_slot_cell [OF ok(3,6,7), of Ans_value] in
          \<open>simp_all add: ok(1) [symmetric] Let_def answered_def answer_def fh_capacity_def fh_grows_def\<close>)
    moreover from slot_assign_spec(1) [OF ok(3) pol ok(6,7), of v] have "represents pol (slot_assign m' j v) (S(k \<mapsto> v))" by simp
    then have "step_ok pol d (mem, Do_subscript_assign k v) m S"
      by (rule step_okI [rotated]) (use mut ok(2,4,5) in \<open>simp_all add: fh_capacity_def fh_grows_def, simp_all add: slot_assign_def\<close>)
    ultimately show ?thesis by blast
  qed
  then show "step_ok pol d (mem, Do_subscript k) m S" "step_ok pol d (mem, Do_subscript_assign k v) m S" by blast+
qed

lemma step_resize:
  assumes r: "represents pol m S" and pol: "policy_ok pol" and mut: "assert_mutable pol m"
  shows "step_ok pol d (mem, Do_erase k) m S" and "step_ok pol d (mem, Do_clear) m S"
    and "count_over_load pol n + 1 \<le> 2 ^ 63 \<Longrightarrow> step_ok pol d (mem, Do_reserve n) m S"
    and "n \<le> 2 ^ 63 \<Longrightarrow> step_ok pol d (mem, Do_rehash n) m S"
proof -
  show "step_ok pol d (mem, Do_erase k) m S"
  proof -
    obtain m' where e: "fh_erase pol m k = Some (m', Inr (S k \<noteq> None))" "represents pol m' (S(k := None))"
      "mFrozen m' = mFrozen m" "mCapacity m' = mCapacity m" using erase_spec [OF r pol mut] by blast
    then show ?thesis by (intro step_okI [OF _ e(2)]) (use mut in \<open>auto simp: answered_def answer_def fh_capacity_def fh_grows_def\<close>)
  qed
  show "step_ok pol d (mem, Do_clear) m S"
  proof -
    obtain m' where e: "fh_clear pol m = (m', Inr ())" "represents pol m' Map.empty"
      "mCapacity m' = mCapacity m" "mFrozen m' = mFrozen m" using clear_spec [OF r pol mut] by blast
    then show ?thesis by (intro step_okI [OF _ e(2)]) (use mut in \<open>auto simp: answered_def answer_def fh_capacity_def fh_grows_def\<close>)
  qed
  show "step_ok pol d (mem, Do_reserve n) m S" if "count_over_load pol n + 1 \<le> 2 ^ 63"
    using reserve_spec [OF r pol mut that, of mem]
  proof (elim disjE exE conjE)
    fix m'
    assume e: "fh_reserve pol mem m n = Some (m', Inr ())" "represents pol m' S" "mFrozen m' = mFrozen m"
      "count_over_load pol n < mCapacity m'"
    then show ?thesis by (intro step_okI [OF _ e(2)]) (use mut in \<open>auto simp: answered_def answer_def fh_capacity_def fh_grows_def\<close>)
  next
    fix c
    assume "fh_reserve pol mem m n = Some (m, Inl Bad_alloc)" "grow_capacity pol (count_over_load pol n + 1) = Some c" "\<not> mem c"
    then show ?thesis using r mut by (intro step_refusedI) (simp_all add: answered_def answer_def fh_requests_def fh_grows_def)
  qed
  show "step_ok pol d (mem, Do_rehash n) m S" if n: "n \<le> 2 ^ 63"
  proof -
    have "mSize m + 1 \<le> 2 ^ 63"
    proof (cases "mCapacity m = 0")
      case True
      then show ?thesis using r by (simp add: represents_def fh_inv_def)
    next
      case False
      then have "mSize m < mCapacity m" "mCapacity m \<le> 2 ^ 63"
        using r table_okD(1) [OF represents_table [OF r]] by (auto simp: represents_def fh_inv_def sound_size_def)
      then show ?thesis by simp
    qed
    with n have "mSize m < max n (mSize m + 1)" "max n (mSize m + 1) \<le> 2 ^ 63" by simp_all
    from rehash_spec [OF r pol mut this, of mem] show ?thesis
    proof (elim disjE exE conjE)
      fix m'
      assume e: "fh_rehash pol mem m (max n (mSize m + 1)) = Some (m', Inr ())" "represents pol m' S" "mFrozen m' = mFrozen m"
        "max n (mSize m + 1) \<le> mCapacity m'"
      then show ?thesis by (intro step_okI [OF _ e(2)]) (use mut in \<open>auto simp: answered_def answer_def fh_capacity_def fh_grows_def\<close>)
    next
      fix c
      assume "fh_rehash pol mem m (max n (mSize m + 1)) = Some (m, Inl Bad_alloc)" "grow_capacity pol (max n (mSize m + 1)) = Some c" "\<not> mem c"
      then show ?thesis
        using r mut size_spec [OF r] by (intro step_refusedI) (simp_all add: answered_def answer_def fh_requests_def fh_grows_def)
    qed
  qed
qed

lemma step_copy:
  assumes r: "represents pol m S" and pol: "policy_ok pol"
  shows "step_ok pol d (mem, Do_copy) m S"
proof (cases "mCapacity m = 0 \<or> mem (mCapacity m)")
  case True
  then obtain m' where c: "fh_copy pol mem m = Inr m'" "represents pol m' S" "mFrozen m' = mFrozen m" "mCapacity m' = mCapacity m"
    using copy_spec [OF r pol, of mem] by auto
  then show ?thesis
    by (intro step_okI [OF _ c(2)])
      (auto simp: fh_move_assign_def fh_move_def fh_capacity_def fh_grows_def fh_mutates_def)
next
  case False
  then show ?thesis
    using copy_spec [OF r pol, of mem] r
    by (intro step_refusedI) (auto simp: fh_requests_def fh_grows_def fh_mutates_def)
qed

lemma step_query:
  assumes r: "represents pol m S" and pol: "policy_ok pol" and q: "\<not> fh_mutates op"
  shows "step_ok pol d (mem, op) m S"
proof (cases op)
  case Do_copy
  with step_copy [OF r pol] show ?thesis by simp
next
  case Do_move_out
  obtain m' rest where mv: "fh_move pol m = (m', rest)" by fastforce
  note v = move_spec [OF r mv]
  show ?thesis unfolding Do_move_out
    by (intro step_okI [OF _ v(4)]) (use v mv in \<open>auto simp: fh_capacity_def fh_grows_def fh_mutates_def\<close>)
next
  case Do_freeze
  have "represents pol (fh_freeze m) S" using r by (simp add: represents_def fh_inv_def fh_freeze_def split: if_splits)
  then show ?thesis unfolding Do_freeze
    by (rule step_okI [rotated]) (auto simp: fh_capacity_def fh_grows_def fh_mutates_def, simp_all add: fh_freeze_def)
next
  case (Do_at k)
  show ?thesis unfolding Do_at
    by (intro step_okI [OF _ r, where r = "case S k of None \<Rightarrow> Ans_raised Out_of_range | Some v \<Rightarrow> Ans_value v"])
      (use lookup_spec [OF r pol] in \<open>auto simp: answer_def fh_capacity_def fh_grows_def fh_mutates_def split: option.split\<close>)
qed (use q lookup_spec [OF r pol] size_spec [OF r] in
  \<open>auto intro!: step_okI [OF _ r] simp: answer_def fh_capacity_def fh_grows_def fh_mutates_def\<close>)

lemma step_refines:
  assumes "fh_rep pol m a" and "fh_fits pol x"
  shows "\<exists>m' a' r. fh_exec pol d x m = Some (m', r) \<and> fh_allows pol d x a (a', r) \<and> fh_rep pol m' a'"
proof -
  obtain mem op where x: "x = (mem, op)" by fastforce
  obtain S where a: "a = (S, mFrozen m, mCapacity m)" and r: "represents pol m S" and pol: "policy_ok pol"
    using assms(1) by (auto simp: fh_rep_def)
  have mem: "memory_ok mem" using assms(2) by (simp add: fh_fits_def x)
  have "step_ok pol d x m S"
  proof (cases "fh_mutates op")
    case False
    then show ?thesis unfolding x by (rule step_query [OF r pol])
  next
    case True
    show ?thesis
    proof (cases "assert_mutable pol m")
      case False
      with step_frozen [OF False True, of d mem] r True show ?thesis
        unfolding step_ok_def x
        by (intro exI [of _ m] exI [of _ S] exI [of _ "Ans_raised assert_failed"]) (simp add: assert_mutable_def)
    next
      case mut: True
      note steps = step_insert [OF r pol mem mut] step_insert_or_assign [OF r pol mem mut] step_subscript [OF r pol mem mut]
        step_resize [OF r pol mut]
      show ?thesis
        using True assms(2) steps unfolding x by (cases op) (simp_all add: fh_mutates_def fh_grows_def fh_fits_def)
    qed
  qed
  then obtain m' S' r where "fh_exec pol d x m = Some (m', r)" "represents pol m' S'"
    "fh_allows pol d x a ((S', mFrozen m', mCapacity m'), r)" by (auto simp: step_ok_def a)
  then show ?thesis
    using pol by (intro exI [of _ m'] exI [of _ "(S', mFrozen m', mCapacity m')"] exI [of _ r]) (simp add: fh_rep_def)
qed

interpretation fast_hash_map: step_refinement "fh_rep pol" "fh_exec pol d" "fh_allows pol d" "fh_fits pol" for pol d
  by unfold_locales (rule step_refines)

section \<open>Rehashing into a table that is too small\<close>

text \<open>In a full table the search for a vacant slot does not end.\<close>

lemma insert_slot_loop_full:
  fixes pol :: "'a hash_policy"
  assumes pol: "policy_ok pol" "sound_size pol cap" "mirrored (kWidth pol) cap ctrl" and full: "\<And>j. j < cap \<Longrightarrow> ctrl ! j \<noteq> kEmpty"
  shows "insert_slot_loop pol match_empty ctrl (nth_probe pol h cap n) = None"
proof (rule ccontr)
  let ?P = "\<lambda>pol' vac ctrl' s (y :: nat result). \<not> (pol' = pol \<and> vac = match_empty \<and> ctrl' = ctrl \<and> (\<exists>n. s = nth_probe pol h cap n))"
  assume "insert_slot_loop pol match_empty ctrl (nth_probe pol h cap n) \<noteq> None"
  then obtain y where y: "insert_slot_loop pol match_empty ctrl (nth_probe pol h cap n) = Some y" by blast
  have "?P pol match_empty ctrl (nth_probe pol h cap n) y"
  proof (rule insert_slot_loop.raw_induct [where P = ?P, OF _ y], rule notI)
    fix loop and pol' :: "'a hash_policy" and vac ctrl' s and y :: "nat result"
    assume IH: "\<And>pol' vac ctrl' s y. loop pol' vac ctrl' s = Some y \<Longrightarrow> ?P pol' vac ctrl' s y"
      and body: "(case group_load (kWidth pol') ctrl' (mPos s) of Inl e \<Rightarrow> Some (Inl e)
        | Inr g \<Rightarrow> if vac g \<noteq> 0 then Some (Inr (probe_offset s (lowest_set_bit (vac g)))) else loop pol' vac ctrl' (probe_next pol' s)) = Some y"
      and eq: "pol' = pol \<and> vac = match_empty \<and> ctrl' = ctrl \<and> (\<exists>n. s = nth_probe pol h cap n)"
    from eq obtain n where s: "s = nth_probe pol h cap n" by blast
    obtain g where g: "group_load (kWidth pol) ctrl (mPos s) = Inr g" "length g = kWidth pol"
      "length g \<le> 32" "\<And>i. i < kWidth pol \<Longrightarrow> g ! i = ctrl ! probed pol cap h n i"
      using group_at [OF pol, where h = h and n = n] s by metis
    have "0 < cap" using sound_size_pos [OF pol(1,2)] by simp
    then have "match_empty g = 0" using match_empty_iff [OF g(2,3,4)] full by auto
    with body g(1) eq s have "loop pol match_empty ctrl (nth_probe pol h cap (Suc n)) = Some y" by simp
    with IH show False by blast
  qed
  then show False by blast
qed

lemma count_where_all: "cap \<le> count_where cap P \<Longrightarrow> j < cap \<Longrightarrow> P j"
proof (rule ccontr)
  assume "cap \<le> count_where cap P" "j < cap" "\<not> P j"
  then have "{j. j < cap \<and> P j} \<subset> {..<cap}" by auto
  then have "count_where cap P < card {..<cap}" unfolding count_where_def by (intro psubset_card_mono) simp_all
  with \<open>cap \<le> count_where cap P\<close> show False by simp
qed

lemma clean_place_full:
  assumes c: "clean pol cap ctrl slots n" and pol: "policy_ok pol" and "cap \<le> n"
  shows "insert_slot_loop pol match_empty ctrl (probe_start h (cap - 1)) = None"
proof -
  have t: "table_ok pol cap ctrl slots" and n: "n = count_where cap (\<lambda>j. is_full (ctrl ! j))" using c by (auto simp: clean_def)
  have "is_full (ctrl ! j)" if "j < cap" for j using count_where_all [of cap "\<lambda>j. is_full (ctrl ! j)" j] assms(3) n that by simp
  then have ne: "ctrl ! j \<noteq> kEmpty" if "j < cap" for j using that by fastforce
  from insert_slot_loop_full [OF pol table_okD(1,2) [OF t] ne, of h 0] show ?thesis by (simp add: nth_probe_def)
qed

lemma rehash_loop_full:
  fixes slots :: "('k, 'v) hash_slot list"
  assumes old: "table_ok pol cap0 ctrl0 slots0" and pol: "policy_ok pol"
  shows "\<lbrakk>clean pol cap ctrl slots n; set is \<subseteq> {..<cap0}; distinct is; n \<le> cap;
      cap < n + length (filter (\<lambda>i. is_full (ctrl0 ! i)) is);
      \<And>i k w. \<lbrakk>i \<in> set is; holds ctrl0 slots0 i k\<rbrakk> \<Longrightarrow> (k, w) \<notin> contents cap ctrl slots\<rbrakk> \<Longrightarrow>
    rehash_loop pol cap ctrl0 slots0 is (ctrl, slots, n) = None"
proof (induction "is" arbitrary: ctrl slots n)
  case Nil
  then show ?case by simp
next
  case (Cons i "is")
  have i: "i < cap0" "i \<notin> set is" "set is \<subseteq> {..<cap0}" "distinct is" using Cons.prems(2,3) by auto
  show ?case
  proof (cases "is_full (ctrl0 ! i)")
    case False
    have len: "cap < n + length (filter (\<lambda>i. is_full (ctrl0 ! i)) is)" using Cons.prems(5) False by simp
    have later: "(k, w) \<notin> contents cap ctrl slots" if "i' \<in> set is" "holds ctrl0 slots0 i' k" for i' k w
      using Cons.prems(6) [of i' k] that by simp
    from Cons.IH [OF Cons.prems(1) i(3,4) Cons.prems(4) len later] False show ?thesis by simp
  next
    case True
    obtain k v where kv: "element (slots0 ! i) = Some (k, v)" "cell ctrl0 slots0 i = Some (k, v)"
      by (rule cell_SomeD [OF old i(1) True])
    then have hi: "holds ctrl0 slots0 i k" by (auto simp: holds_def)
    have new: "(k, w) \<notin> contents cap ctrl slots" for w using Cons.prems(6) hi by auto
    show ?thesis
    proof (cases "n < cap")
      case False
      with clean_place_full [OF Cons.prems(1) pol] kv(1) True show ?thesis by (simp add: Let_def)
    next
      case room: True
      obtain j where j: "insert_slot_loop pol match_empty ctrl (probe_start (hash_key pol k) (cap - 1)) = Some (Inr j)"
        "clean pol cap (set_ctrl (kWidth pol) cap ctrl j (H2 (hash_key pol k)))
          (slots[j := slot_construct pol k v (unat (hash_key pol k) AND (cap - 1))]) (n + 1)"
        "contents cap (set_ctrl (kWidth pol) cap ctrl j (H2 (hash_key pol k)))
          (slots[j := slot_construct pol k v (unat (hash_key pol k) AND (cap - 1))]) = insert (k, v) (contents cap ctrl slots)"
        using clean_place [OF Cons.prems(1) pol room new] by blast
      have other: "(k', w) \<notin> insert (k, v) (contents cap ctrl slots)" if "i' \<in> set is" "holds ctrl0 slots0 i' k'" for i' k' w
        using that Cons.prems(6) [of i' k'] table_okD(6) [OF old, of i' i k'] hi i by auto
      have len: "n + 1 \<le> cap" "cap < n + 1 + length (filter (\<lambda>i. is_full (ctrl0 ! i)) is)" using room Cons.prems(5) True by simp_all
      from Cons.IH [OF j(2) i(3,4) len, unfolded j(3), OF other] kv j(1) True show ?thesis
        by (simp add: Let_def)
    qed
  qed
qed

lemma rehash_internal_full:
  assumes r: "represents pol m S" and pol: "policy_ok pol" and size: "sound_size pol new_cap" "new_cap < mSize m" and mem: "mem new_cap"
  shows "rehash_internal pol mem m new_cap = None"
proof -
  have cap: "mCapacity m \<noteq> 0" using r size(2) by (auto simp: represents_def fh_inv_def split: if_splits)
  note t = represents_table [OF r cap]
  note new = clean_new [OF size(1)]
  have "mSize m = count_where (mCapacity m) (\<lambda>j. is_full (mCtrl m ! j))" using r cap by (simp add: represents_def fh_inv_def)
  with size(2) have full: "new_cap < 0 + length (filter (\<lambda>i. is_full (mCtrl m ! i)) [0..<mCapacity m])" by (simp add: count_where_filter)
  have "rehash_loop pol new_cap (mCtrl m) (mSlots m) [0..<mCapacity m]
      (replicate (new_cap + kWidth pol) kEmpty, replicate new_cap \<lparr>element = None, mHome = 0\<rparr>, 0) = None"
    by (rule rehash_loop_full [OF t pol new(1) _ _ _ full]) (auto simp: new(2))
  with cap mem show ?thesis by (simp add: rehash_internal_def)
qed

lemma rehash_full:
  assumes r: "represents pol m S" and pol: "policy_ok pol" and mut: "assert_mutable pol m" and ts: "uses_tombstones pol"
    and size: "kMinCapacity pol < mSize m" "mSize m div 4 < mTombstones m" and mem: "mem (kMinCapacity pol)"
  shows "fh_rehash pol mem m 0 = None"
proof -
  have "grow_capacity pol 0 = Some (kMinCapacity pol)"
    using pol by (auto simp: grow_capacity_def double_until.simps [of 0] policy_ok_def kMinCapacity_def)
  with rehash_internal_full [OF r pol sound_size_min [OF pol] size(1)] mem mut ts size(2) show ?thesis
    by (simp add: fh_rehash_def)
qed

text \<open>Insertions of new keys and removals of keys that are there, with all tables up to \<open>2^63\<close> slots available.\<close>

definition all_memory :: "nat \<Rightarrow> bool" where
  "all_memory c \<longleftrightarrow> c \<le> 2 ^ 63"

lemma insert_run:
  assumes pol: "policy_ok pol"
  shows "\<lbrakk>represents pol m S; \<not> mFrozen m; distinct ks; set ks \<inter> dom S = {}; mTombstones m = 0;
      max (kMinCapacity pol) (mCapacity m) * 2 ^ length ks \<le> 2 ^ 63\<rbrakk> \<Longrightarrow>
    \<exists>m' rs S'. exec_all (fh_exec pol d) (map (\<lambda>k. (all_memory, Do_insert k v)) ks) m = Some (m', rs)
      \<and> represents pol m' S' \<and> dom S' = dom S \<union> set ks \<and> \<not> mFrozen m' \<and> mTombstones m' = 0"
proof (induction ks arbitrary: m S)
  case Nil
  then show ?case by auto
next
  case (Cons k ks)
  let ?c = "max (kMinCapacity pol) (mCapacity m)"
  have k: "S k = None" using Cons.prems(4) by auto
  have mut: "assert_mutable pol m" using Cons.prems(2) by (simp add: assert_mutable_def)
  have mem: "memory_ok all_memory" by (simp add: memory_ok_def all_memory_def)
  have cap: "?c * 2 * 2 ^ length ks \<le> 2 ^ 63" using Cons.prems(6) by (simp add: mult.assoc)
  have "?c * 2 * 1 \<le> ?c * 2 * 2 ^ length ks" by (rule mult_le_mono2) simp
  with cap have "?c * 2 \<le> 2 ^ 63" by linarith
  then have "\<not> (\<exists>c\<in>set (growth_requests pol m). \<not> all_memory c)" by (auto simp: growth_requests_def all_memory_def)
  with insert_spec [OF Cons.prems(1) pol mem mut, of k v] k obtain m1 j where
    one: "fh_insert pol all_memory m k v = Some (m1, Inr (Some j))" "represents pol m1 (S(k \<mapsto> v))" "mFrozen m1 = mFrozen m"
      "mTombstones m1 = 0" "mCapacity m1 \<le> ?c * 2" using Cons.prems(5) by auto
  have "max (kMinCapacity pol) (mCapacity m1) \<le> ?c * 2" using one(5) by simp
  from order_trans [OF mult_le_mono1 [OF this] cap] have c1: "max (kMinCapacity pol) (mCapacity m1) * 2 ^ length ks \<le> 2 ^ 63" .
  have "\<not> mFrozen m1" "distinct ks" "set ks \<inter> dom (S(k \<mapsto> v)) = {}" using one(3) Cons.prems(2-4) by auto
  from Cons.IH [OF one(2) this one(4) c1] obtain m' rs S' where
    "exec_all (fh_exec pol d) (map (\<lambda>k. (all_memory, Do_insert k v)) ks) m1 = Some (m', rs)"
    "represents pol m' S'" "dom S' = dom (S(k \<mapsto> v)) \<union> set ks" "\<not> mFrozen m'" "mTombstones m' = 0" by blast
  with one(1) show ?case by (simp add: answered_def) (intro exI [of _ S'], simp)
qed

lemma erase_run:
  assumes pol: "policy_ok pol" and ts: "uses_tombstones pol"
  shows "\<lbrakk>represents pol m S; \<not> mFrozen m; distinct ks; set ks \<subseteq> dom S\<rbrakk> \<Longrightarrow>
    \<exists>m' rs S'. exec_all (fh_exec pol d) (map (\<lambda>k. (all_memory, Do_erase k)) ks) m = Some (m', rs)
      \<and> represents pol m' S' \<and> \<not> mFrozen m' \<and> mSize m = mSize m' + length ks \<and> mTombstones m' = mTombstones m + length ks"
proof (induction ks arbitrary: m S)
  case Nil
  then show ?case by auto
next
  case (Cons k ks)
  have k: "S k \<noteq> None" using Cons.prems(4) by auto
  have mut: "assert_mutable pol m" using Cons.prems(2) by (simp add: assert_mutable_def)
  from erase_spec [OF Cons.prems(1) pol mut, of k] k ts obtain m1 where
    one: "fh_erase pol m k = Some (m1, Inr True)" "represents pol m1 (S(k := None))" "mFrozen m1 = mFrozen m"
      "mSize m = mSize m1 + 1" "mTombstones m1 = mTombstones m + 1" by auto
  have "\<not> mFrozen m1" "distinct ks" "set ks \<subseteq> dom (S(k := None))" using one(3) Cons.prems(2-4) by auto
  from Cons.IH [OF one(2) this] obtain m' rs S' where
    "exec_all (fh_exec pol d) (map (\<lambda>k. (all_memory, Do_erase k)) ks) m1 = Some (m', rs)" "represents pol m' S'"
    "\<not> mFrozen m'" "mSize m1 = mSize m' + length ks" "mTombstones m' = mTombstones m1 + length ks" by blast
  with one show ?case by (simp add: answered_def) (intro exI [of _ S'], simp)
qed

lemma exec_all_append:
  "exec_all f (xs @ ys) s = (case exec_all f xs s of None \<Rightarrow> None
     | Some (s1, rs) \<Rightarrow> (case exec_all f ys s1 of None \<Rightarrow> None | Some (s2, qs) \<Rightarrow> Some (s2, rs @ qs)))"
  by (induction xs arbitrary: s) (auto split: option.splits)

lemma represents_fh_empty: "represents pol fh_empty Map.empty"
  by (simp add: represents_def fh_inv_def fh_empty_def contents_def graph_def)

text \<open>A policy for the concrete maps below: groups of 16, load factor 7/8, the identity as the hash.\<close>

definition plain_policy :: "bool \<Rightarrow> nat hash_policy" where
  "plain_policy tombstones = \<lparr>mHasher = of_nat, is_avalanching = False, mKeyEqual = (=), uses_tombstones = tombstones,
     kWidth = 16, cap_times_load = (\<lambda>c. c * 7 div 8), count_over_load = (\<lambda>n. n * 8 div 7), assertions = True\<rparr>"

lemma plain_policy_ok [simp]: "policy_ok (plain_policy t)"
  by (simp add: policy_ok_def plain_policy_def)

section \<open>Statements about the program\<close>



text \<open>C30: iteration over a map visits every entry exactly once, whatever the order of the slots.\<close>

theorem fast_hash_map_iteration:
  assumes "fh_rep pol m (S, fz, cap)"
  shows "\<exists>ps. fh_entries m = Inr ps \<and> distinct (map fst ps) \<and> map_of ps = S \<and> length ps = mSize m"
  using entries_spec [of pol m S] assms by (simp add: fh_rep_def)

theorem fast_hash_map_iteration_witness:
  "\<exists>ps. fh_entries (fh_empty :: (nat, nat) fhm) = Inr ps \<and> distinct (map fst ps) \<and> map_of ps = Map.empty
    \<and> length ps = mSize (fh_empty :: (nat, nat) fhm)"
  by (rule fast_hash_map_iteration [where pol = "plain_policy True" and fz = False and cap = 0])
    (simp add: fh_rep_def represents_fh_empty, simp add: fh_empty_def)

text \<open>C31: \<open>rehash\<close> does not return when it is called with a small count on a map with tombstones for
  more than a quarter of its size that holds more entries than the smallest table has slots.  After
  inserting the keys \<open>ks\<close> and erasing \<open>e\<close> of them, \<open>rehash(0)\<close> chooses a table of \<open>kMinCapacity\<close>
  slots, and the search for a vacant slot in it goes on for ever once it is full.\<close>

theorem fast_hash_map_rehash_diverges:
  fixes pol :: "'k hash_policy" and d v :: 'v
  assumes pol: "policy_ok pol" and ts: "uses_tombstones pol" and ks: "distinct ks"
    and few: "kMinCapacity pol * 2 ^ length ks \<le> 2 ^ 63"
    and many: "kMinCapacity pol < length ks - e" "length ks - e < 4 * e"
  shows "\<exists>m rs. exec_all (fh_exec pol d) (map (\<lambda>k. (all_memory, Do_insert k v)) ks
      @ map (\<lambda>k. (all_memory, Do_erase k)) (take e ks)) fh_empty = Some (m, rs)
    \<and> mSize m = length ks - e \<and> mTombstones m = e \<and> fh_rehash pol all_memory m 0 = None"
proof -
  have e: "length (take e ks) = e" using many(1) by simp
  have f: "\<not> mFrozen (fh_empty :: ('k, 'v) fhm)" "mTombstones (fh_empty :: ('k, 'v) fhm) = 0"
    "max (kMinCapacity pol) (mCapacity (fh_empty :: ('k, 'v) fhm)) * 2 ^ length ks \<le> 2 ^ 63"
    using few by (simp_all add: fh_empty_def)
  obtain m1 rs1 and S1 :: "'k \<rightharpoonup> 'v" where one: "exec_all (fh_exec pol d) (map (\<lambda>k. (all_memory, Do_insert k v)) ks) fh_empty = Some (m1, rs1)"
    "represents pol m1 S1" "dom S1 = set ks" "\<not> mFrozen m1" "mTombstones m1 = 0"
    using insert_run [OF pol represents_fh_empty f(1) ks _ f(2,3), of d v] by auto
  have sub: "set (take e ks) \<subseteq> dom S1" unfolding one(3) by (rule set_take_subset)
  obtain m2 rs2 S2 where two: "exec_all (fh_exec pol d) (map (\<lambda>k. (all_memory, Do_erase k)) (take e ks)) m1 = Some (m2, rs2)"
    "represents pol m2 S2" "\<not> mFrozen m2" "mSize m1 = mSize m2 + e" "mTombstones m2 = e"
    using erase_run [OF pol ts one(2,4) _ sub, of d] ks one(5) e by auto
  have "mSize m1 = length ks" using size_spec [OF one(2)] one(3) distinct_card [OF ks] by simp
  then have size: "mSize m2 = length ks - e" using two(4) by simp
  have mut: "assert_mutable pol m2" using two(3) by (simp add: assert_mutable_def)
  have "kMinCapacity pol \<le> 2 ^ 63" using sound_size_min [OF pol] by (simp add: sound_size_def)
  then have "fh_rehash pol all_memory m2 0 = None"
    using many size two(5) by (intro rehash_full [OF two(2) pol mut ts]) (auto simp: all_memory_def)
  with one(1) two(1,5) size show ?thesis by (simp add: exec_all_append)
qed

theorem fast_hash_map_rehash_diverges_witness:
  "\<exists>m rs. exec_all (fh_exec (plain_policy True) (0 :: nat)) (map (\<lambda>k. (all_memory, Do_insert k 1)) [0..<45]
      @ map (\<lambda>k. (all_memory, Do_erase k)) (take 10 [0..<45])) fh_empty = Some (m, rs)
    \<and> mSize m = length [0..<45] - 10 \<and> mTombstones m = 10 \<and> fh_rehash (plain_policy True) all_memory m 0 = None"
  by (rule fast_hash_map_rehash_diverges) (simp_all add: kMinCapacity_def plain_policy_def policy_ok_def)

end
