(* ===== verification/SlotMap.thy ===== *)
theory SlotMap
  imports Interfaces
begin

text \<open>
  The generational index container of \<open>include/fat_p/SlotMap.h\<close>: a dense array of values
  (\<open>mData\<close>, here \<open>sm_data\<close>) with the slot of each value beside it (\<open>mEraseMap\<close>, \<open>sm_erase_map\<close>),
  a sparse array of slots (\<open>mSlots\<close>, \<open>sm_slots\<close>) holding a generation counter and the position
  of the value, and a stack of free slots (\<open>mFreeList\<close>, \<open>sm_free\<close>).  Indices are 32-bit words
  as in the code; the generation type is a word of any width.

  An operation that can throw takes the point at which the allocator or the constructor of the
  element throws, and returns the state the map is left in together with the outcome.
\<close>

section \<open>State\<close>

datatype 'w slot_handle = Handle (h_index: u32) (h_gen: 'w)

datatype 'w slot = Slot (generation: 'w) (data_index: u32)

record ('a, 'w) slotmap =
  sm_data :: "'a list"
  sm_erase_map :: "u32 list"
  sm_slots :: "'w slot list"
  sm_free :: "u32 list"

definition sm_empty :: "('a, 'g::len word) slotmap" where
  "sm_empty = \<lparr>sm_data = [], sm_erase_map = [], sm_slots = [], sm_free = []\<rparr>"

text \<open>\<open>std::numeric_limits<size_type>::max()\<close>, the mark of an erased slot.\<close>

definition no_data :: u32 where
  "no_data = - 1"

text \<open>\<open>Slot()\<close>: never used.\<close>

definition fresh_slot :: "'g::len word slot" where
  "fresh_slot = Slot 0 0"

text \<open>\<open>if (++slot.generation == 0) slot.generation = 1;\<close>\<close>

definition bump :: "'g::len word \<Rightarrow> 'g word" where
  "bump g = (if g + 1 = 0 then 1 else g + 1)"

text \<open>Where an exception is raised inside an inserting operation, if anywhere.\<close>

datatype throw_point = No_throw | Slot_alloc | Data_emplace | Erase_map_push

section \<open>Handles\<close>

definition is_null :: "'g::len word slot_handle \<Rightarrow> bool" where
  "is_null h \<longleftrightarrow> h_gen h = 0"

text \<open>\<open>operator<\<close>: lexicographic on index and generation; the other comparisons are derived
  from it as in the header.\<close>

definition handle_less :: "'w::linorder slot_handle \<Rightarrow> 'w slot_handle \<Rightarrow> bool" where
  "handle_less a b \<longleftrightarrow>
    (if h_index a \<noteq> h_index b then h_index a < h_index b else h_gen a < h_gen b)"

definition handle_less_equal :: "'w::linorder slot_handle \<Rightarrow> 'w slot_handle \<Rightarrow> bool" where
  "handle_less_equal a b \<longleftrightarrow> \<not> handle_less b a"

text \<open>With them the handles are linearly ordered.\<close>

instantiation slot_handle :: (linorder) linorder
begin

definition less_slot_handle :: "'a slot_handle \<Rightarrow> 'a slot_handle \<Rightarrow> bool" where
  "a < b \<longleftrightarrow> handle_less a (b :: 'a slot_handle)"

definition less_eq_slot_handle :: "'a slot_handle \<Rightarrow> 'a slot_handle \<Rightarrow> bool" where
  "a \<le> b \<longleftrightarrow> handle_less_equal a (b :: 'a slot_handle)"

instance
  by standard
    (auto simp: less_slot_handle_def less_eq_slot_handle_def handle_less_def handle_less_equal_def
      slot_handle.expand split: if_splits)

end

section \<open>Operations\<close>

definition sm_is_valid :: "('a, 'g::len word) slotmap \<Rightarrow> 'g word slot_handle \<Rightarrow> bool" where
  "sm_is_valid m h =
    (if h_index h \<ge> of_nat (length (sm_slots m)) then False
     else generation (sm_slots m ! unat (h_index h)) = h_gen h)"

subsection \<open>Insertion\<close>

text \<open>
  The two catch blocks of \<open>insert\<close>: the slot goes back to the free list or is popped.  The
  bumped generation of a slot from the free list stays.
\<close>

definition sm_rollback :: "bool \<Rightarrow> u32 \<Rightarrow> ('a, 'g::len word) slotmap \<Rightarrow> ('a, 'g word) slotmap" where
  "sm_rollback came_from_free_list slot_index m =
    (if came_from_free_list then m\<lparr>sm_free := sm_free m @ [slot_index]\<rparr>
     else m\<lparr>sm_slots := butlast (sm_slots m)\<rparr>)"

definition sm_insert ::
  "throw_point \<Rightarrow> ('a, 'g::len word) slotmap \<Rightarrow> 'a \<Rightarrow> ('a, 'g word) slotmap \<times> 'g word slot_handle result" where
  "sm_insert tp m x =
    (let came_from_free_list = sm_free m \<noteq> [] in
     if \<not> came_from_free_list \<and> tp = Slot_alloc then (m, Inl Bad_alloc)
     else
       let (slot_index, m1) =
         (if came_from_free_list then (last (sm_free m), m\<lparr>sm_free := butlast (sm_free m)\<rparr>)
          else (of_nat (length (sm_slots m)), m\<lparr>sm_slots := sm_slots m @ [fresh_slot]\<rparr>));
         i = unat slot_index
       in if length (sm_slots m1) \<le> i then (m1, Inl Undefined_behaviour)
       else
         let s = sm_slots m1 ! i;
             g = bump (generation s);
             m2 = m1\<lparr>sm_slots := (sm_slots m1)[i := Slot g (data_index s)]\<rparr>
         in if tp = Data_emplace then (sm_rollback came_from_free_list slot_index m2, Inl Bad_alloc)
         else
           let m3 = m2\<lparr>sm_data := sm_data m2 @ [x]\<rparr>
           in if tp = Erase_map_push
              then (sm_rollback came_from_free_list slot_index (m3\<lparr>sm_data := butlast (sm_data m3)\<rparr>),
                    Inl Bad_alloc)
              else
                let m4 = m3\<lparr>sm_erase_map := sm_erase_map m3 @ [slot_index]\<rparr>
                in (m4\<lparr>sm_slots := (sm_slots m4)[i := Slot g (of_nat (length (sm_data m4) - 1))]\<rparr>,
                    Inr (Handle slot_index g)))"

definition sm_emplace ::
  "throw_point \<Rightarrow> ('a, 'g::len word) slotmap \<Rightarrow> 'a \<Rightarrow> ('a, 'g word) slotmap \<times> 'g word slot_handle result" where
  "sm_emplace tp m x = sm_insert tp m x"

text \<open>\<open>insert_fast\<close> is the same without the catch blocks; it is \<open>noexcept\<close> and has no rollback.\<close>

definition sm_insert_fast ::
  "('a, 'g::len word) slotmap \<Rightarrow> 'a \<Rightarrow> ('a, 'g word) slotmap \<times> 'g word slot_handle result" where
  "sm_insert_fast m x =
    (let (slot_index, m1) =
       (if sm_free m \<noteq> [] then (last (sm_free m), m\<lparr>sm_free := butlast (sm_free m)\<rparr>)
        else (of_nat (length (sm_slots m)), m\<lparr>sm_slots := sm_slots m @ [fresh_slot]\<rparr>));
       i = unat slot_index
     in if length (sm_slots m1) \<le> i then (m1, Inl Undefined_behaviour)
     else
       let g = bump (generation (sm_slots m1 ! i));
           m2 = m1\<lparr>sm_data := sm_data m1 @ [x], sm_erase_map := sm_erase_map m1 @ [slot_index]\<rparr>
       in (m2\<lparr>sm_slots := (sm_slots m2)[i := Slot g (of_nat (length (sm_data m2) - 1))]\<rparr>,
           Inr (Handle slot_index g)))"

text \<open>
  The loop of \<open>insert_at\<close> over the newly created slots: \<open>n\<close> iterations from \<open>i\<close> on.
\<close>

fun mark_new_free :: "nat \<Rightarrow> nat \<Rightarrow> 'g::len word slot list \<Rightarrow> u32 list \<Rightarrow> ('g word slot list \<times> u32 list) result" where
  "mark_new_free 0 i slots free = Inr (slots, free)"
| "mark_new_free (Suc n) i slots free =
    (if i < length slots
     then mark_new_free n (Suc i) (slots[i := Slot (generation (slots ! i)) no_data]) (free @ [of_nat i])
     else Inl Undefined_behaviour)"

text \<open>
  \<open>insert_at\<close>.  The new size \<open>hint_index + 1\<close> is computed in 32 bits.  The catch blocks
  decrement the generation and push the slot on the free list.
\<close>

definition sm_insert_at ::
  "throw_point \<Rightarrow> ('a, 'g::len word) slotmap \<Rightarrow> u32 \<Rightarrow> 'a \<Rightarrow> ('a, 'g word) slotmap \<times> 'g word slot_handle result" where
  "sm_insert_at tp m hint x =
    (let in_range = hint < of_nat (length (sm_slots m));
         s0 = sm_slots m ! unat hint;
         slot_is_free = (generation s0 = 0 \<or> data_index s0 = no_data)
     in if in_range \<and> \<not> slot_is_free then sm_insert tp m x
     else if \<not> in_range \<and> tp = Slot_alloc then (m, Inl Bad_alloc)
     else
       let prepared =
         (if \<not> in_range then
            let old_size = (of_nat (length (sm_slots m)) :: u32)
            in mark_new_free (unat hint - unat old_size) (unat old_size)
                 (vec_resize fresh_slot (unat (hint + 1)) (sm_slots m)) (sm_free m)
          else Inr (sm_slots m, remove1 hint (sm_free m)))
       in case prepared of Inl e \<Rightarrow> (m, Inl e)
       | Inr (slots1, free1) \<Rightarrow>
         if length slots1 \<le> unat hint then (m, Inl Undefined_behaviour)
         else
           let s = slots1 ! unat hint;
               g = bump (generation s);
               m1 = m\<lparr>sm_slots := slots1[unat hint := Slot g (data_index s)], sm_free := free1\<rparr>;
               undo = m1\<lparr>sm_slots := slots1[unat hint := Slot (g - 1) (data_index s)],
                         sm_free := free1 @ [hint]\<rparr>
           in if tp = Data_emplace then (undo, Inl Bad_alloc)
           else if tp = Erase_map_push then (undo, Inl Bad_alloc)
           else (m1\<lparr>sm_data := sm_data m1 @ [x], sm_erase_map := sm_erase_map m1 @ [hint],
                    sm_slots := (sm_slots m1)[unat hint := Slot g (of_nat (length (sm_data m1)))]\<rparr>,
                 Inr (Handle hint g)))"

subsection \<open>Removal\<close>

text \<open>
  \<open>erase\<close>: the swap with the last element happens only if the element is not the last one;
  \<open>last_data_index\<close> is computed in 32 bits.
\<close>

definition sm_erase ::
  "('a, 'g::len word) slotmap \<Rightarrow> 'g word slot_handle \<Rightarrow> ('a, 'g word) slotmap \<times> bool result" where
  "sm_erase m h =
    (if \<not> sm_is_valid m h then (m, Inr False)
     else
       let di = data_index (sm_slots m ! unat (h_index h));
           last_di = (of_nat (length (sm_data m)) - 1 :: u32);
           d = unat di;
           swapped =
            (if di < last_di then
               if d < length (sm_data m) \<and> d < length (sm_erase_map m)
                 \<and> unat (last (sm_erase_map m)) < length (sm_slots m)
               then let moved = last (sm_erase_map m);
                        data1 = (sm_data m)[d := last (sm_data m), length (sm_data m) - 1 := sm_data m ! d];
                        erase1 = (sm_erase_map m)
                          [d := moved, length (sm_erase_map m) - 1 := sm_erase_map m ! d];
                        slots1 = (sm_slots m)
                          [unat moved := Slot (generation (sm_slots m ! unat moved)) di]
                    in Inr (m\<lparr>sm_data := data1, sm_erase_map := erase1, sm_slots := slots1\<rparr>)
               else Inl Undefined_behaviour
             else Inr m)
       in case swapped of Inl e \<Rightarrow> (m, Inl e)
       | Inr m1 \<Rightarrow>
         if sm_data m1 = [] \<or> sm_erase_map m1 = [] then (m1, Inl Undefined_behaviour)
         else
           let i = unat (h_index h);
               g = bump (generation (sm_slots m1 ! i))
           in (m1\<lparr>sm_data := butlast (sm_data m1), sm_erase_map := butlast (sm_erase_map m1),
                  sm_slots := (sm_slots m1)[i := Slot g no_data],
                  sm_free := sm_free m1 @ [h_index h]\<rparr>, Inr True))"

definition sm_clear :: "('a, 'g::len word) slotmap \<Rightarrow> ('a, 'g word) slotmap" where
  "sm_clear m = m\<lparr>sm_data := [], sm_erase_map := [],
     sm_slots := map (\<lambda>s. Slot (bump (generation s)) no_data) (sm_slots m),
     sm_free := map of_nat [0..<length (sm_slots m)]\<rparr>"

definition sm_swap ::
  "('a, 'g::len word) slotmap \<times> ('a, 'g word) slotmap \<Rightarrow> ('a, 'g word) slotmap \<times> ('a, 'g word) slotmap" where
  "sm_swap p = (snd p, fst p)"

subsection \<open>Access\<close>

definition sm_get_unchecked :: "('a, 'g::len word) slotmap \<Rightarrow> 'g word slot_handle \<Rightarrow> 'a result" where
  "sm_get_unchecked m h =
    (case vec_get (sm_slots m) (unat (h_index h)) of Inl e \<Rightarrow> Inl e
     | Inr s \<Rightarrow> vec_get (sm_data m) (unat (data_index s)))"

text \<open>\<open>get\<close> returns a null pointer (\<open>None\<close>) for an invalid handle.\<close>

definition sm_get :: "('a, 'g::len word) slotmap \<Rightarrow> 'g word slot_handle \<Rightarrow> 'a option result" where
  "sm_get m h =
    (if \<not> sm_is_valid m h then Inr None
     else case vec_get (sm_data m) (unat (data_index (sm_slots m ! unat (h_index h)))) of
       Inl e \<Rightarrow> Inl e | Inr x \<Rightarrow> Inr (Some x))"

definition sm_at :: "('a, 'g::len word) slotmap \<Rightarrow> 'g word slot_handle \<Rightarrow> 'a result" where
  "sm_at m h =
    (if \<not> sm_is_valid m h then Inl Out_of_range
     else vec_get (sm_data m) (unat (data_index (sm_slots m ! unat (h_index h)))))"

definition sm_contains :: "('a, 'g::len word) slotmap \<Rightarrow> 'g word slot_handle \<Rightarrow> bool" where
  "sm_contains m h = sm_is_valid m h"

definition sm_size :: "('a, 'g::len word) slotmap \<Rightarrow> u32" where
  "sm_size m = of_nat (length (sm_data m))"

definition sm_slot_count :: "('a, 'g::len word) slotmap \<Rightarrow> u32" where
  "sm_slot_count m = of_nat (length (sm_slots m))"

definition sm_free_slot_count :: "('a, 'g::len word) slotmap \<Rightarrow> u32" where
  "sm_free_slot_count m = of_nat (length (sm_free m))"

text \<open>\<open>entries()\<close>: the handle and the value at each dense position.\<close>

definition sm_entry :: "('a, 'g::len word) slotmap \<Rightarrow> nat \<Rightarrow> 'g word slot_handle \<times> 'a" where
  "sm_entry m i =
    (let slot_index = sm_erase_map m ! i
     in (Handle slot_index (generation (sm_slots m ! unat slot_index)), sm_data m ! i))"

definition sm_entries :: "('a, 'g::len word) slotmap \<Rightarrow> ('g word slot_handle \<times> 'a) list" where
  "sm_entries m = map (sm_entry m) [0..<unat (sm_size m)]"


section \<open>Invariant and abstraction\<close>

text \<open>
  A slot is in use when the dense array refers to it, free when the free list does.  The set
  \<open>R\<close> holds the slots that an operation has taken off both and not yet given back; between
  operations it is empty.
\<close>

definition sm_inv_except :: "u32 set \<Rightarrow> ('a, 'g::len word) slotmap \<Rightarrow> bool" where
  "sm_inv_except R m \<longleftrightarrow>
     length (sm_erase_map m) = length (sm_data m) \<and> length (sm_slots m) < 2 ^ 32
   \<and> (\<forall>i<length (sm_data m).
        unat (sm_erase_map m ! i) < length (sm_slots m)
      \<and> unat (data_index (sm_slots m ! unat (sm_erase_map m ! i))) = i
      \<and> generation (sm_slots m ! unat (sm_erase_map m ! i)) \<noteq> 0)
   \<and> distinct (sm_free m)
   \<and> (\<forall>f\<in>set (sm_free m). unat f < length (sm_slots m))
   \<and> set (sm_free m) \<inter> set (sm_erase_map m) = {} \<and> R \<inter> set (sm_free m) = {}
   \<and> R \<inter> set (sm_erase_map m) = {}
   \<and> (\<forall>s. unat s < length (sm_slots m) \<longrightarrow> s \<in> set (sm_free m) \<union> set (sm_erase_map m) \<union> R)"

abbreviation sm_inv :: "('a, 'g::len word) slotmap \<Rightarrow> bool" where
  "sm_inv \<equiv> sm_inv_except {}"

text \<open>The abstract map from the handles of the elements in the container to the elements.\<close>

definition sm_map :: "('a, 'g::len word) slotmap \<Rightarrow> 'g word slot_handle \<Rightarrow> 'a option" where
  "sm_map m h =
    (if h_index h \<in> set (sm_erase_map m) \<and> generation (sm_slots m ! unat (h_index h)) = h_gen h
     then Some (sm_data m ! unat (data_index (sm_slots m ! unat (h_index h)))) else None)"

lemma sm_inv_except_lengths:
  assumes "sm_inv_except R m"
  shows "length (sm_erase_map m) = length (sm_data m)" "length (sm_slots m) < 2 ^ 32"
  using assms by (simp_all add: sm_inv_except_def)

lemma sm_inv_except_dense:
  assumes "sm_inv_except R m" and "i < length (sm_data m)"
  shows "unat (sm_erase_map m ! i) < length (sm_slots m)"
    "unat (data_index (sm_slots m ! unat (sm_erase_map m ! i))) = i"
    "generation (sm_slots m ! unat (sm_erase_map m ! i)) \<noteq> 0"
  using assms by (simp_all add: sm_inv_except_def)

lemma sm_inv_except_free:
  assumes "sm_inv_except R m"
  shows "distinct (sm_free m)"
    "f \<in> set (sm_free m) \<Longrightarrow> unat f < length (sm_slots m)"
    "f \<in> set (sm_free m) \<Longrightarrow> f \<notin> set (sm_erase_map m)"
  using assms by (auto simp: sm_inv_except_def)

lemma sm_inv_except_cover:
  assumes "sm_inv_except R m" and "unat s < length (sm_slots m)"
  shows "s \<in> set (sm_free m) \<or> s \<in> set (sm_erase_map m) \<or> s \<in> R"
  using assms by (auto simp: sm_inv_except_def)

text \<open>A slot in use points back at its own position.\<close>

lemma sm_inv_except_in_use:
  assumes "sm_inv_except R m" and "s \<in> set (sm_erase_map m)"
  shows "unat s < length (sm_slots m)"
    "unat (data_index (sm_slots m ! unat s)) < length (sm_data m)"
    "sm_erase_map m ! unat (data_index (sm_slots m ! unat s)) = s"
    "generation (sm_slots m ! unat s) \<noteq> 0"
proof -
  obtain i where i: "i < length (sm_data m)" "sm_erase_map m ! i = s"
    using assms by (metis in_set_conv_nth sm_inv_except_lengths(1))
  note d = sm_inv_except_dense [OF assms(1) i(1), unfolded i(2)]
  from d i show "unat s < length (sm_slots m)"
    "unat (data_index (sm_slots m ! unat s)) < length (sm_data m)"
    "sm_erase_map m ! unat (data_index (sm_slots m ! unat s)) = s"
    "generation (sm_slots m ! unat s) \<noteq> 0"
    by simp_all
qed

lemma sm_inv_except_distinct:
  assumes "sm_inv_except R m"
  shows "distinct (sm_erase_map m)"
  unfolding distinct_conv_nth using assms sm_inv_except_dense(2) sm_inv_except_lengths(1) by metis

lemma sm_inv_except_fewer:
  assumes "sm_inv_except R m"
  shows "length (sm_data m) \<le> length (sm_slots m)" "length (sm_data m) < 2 ^ 32"
proof -
  have "distinct (map unat (sm_erase_map m))"
    using sm_inv_except_distinct [OF assms] by (simp add: distinct_map inj_on_def word_unat_eq_iff)
  moreover have "set (map unat (sm_erase_map m)) \<subseteq> {..<length (sm_slots m)}"
    using sm_inv_except_in_use(1) [OF assms] by auto
  ultimately have "length (sm_erase_map m) \<le> length (sm_slots m)"
    by (metis card_lessThan card_mono distinct_card finite_lessThan length_map)
  then show "length (sm_data m) \<le> length (sm_slots m)" "length (sm_data m) < 2 ^ 32"
    using sm_inv_except_lengths [OF assms] by simp_all
qed

lemma unat_no_data: "unat no_data = 2 ^ 32 - 1"
  by (simp add: no_data_def unsigned_minus_1_eq_mask mask_eq_exp_minus_1)

lemma bump_nonzero: "bump g \<noteq> 0"
  by (simp add: bump_def)

lemma sm_inv_empty: "sm_inv sm_empty"
  by (simp add: sm_inv_except_def sm_empty_def)

lemma sm_map_empty: "sm_map sm_empty = Map.empty"
  by (simp add: sm_map_def sm_empty_def fun_eq_iff)

subsection \<open>Taking a slot into use and giving it back\<close>

definition sm_place :: "u32 \<Rightarrow> 'a \<Rightarrow> ('a, 'g::len word) slotmap \<Rightarrow> ('a, 'g word) slotmap" where
  "sm_place f x m = m\<lparr>sm_data := sm_data m @ [x], sm_erase_map := sm_erase_map m @ [f],
     sm_slots := (sm_slots m)[unat f := Slot (bump (generation (sm_slots m ! unat f))) (of_nat (length (sm_data m)))]\<rparr>"

lemma sm_inv_place:
  assumes inv: "sm_inv_except {f} m" and f: "unat f < length (sm_slots m)"
  shows "sm_inv (sm_place f x m)"
proof -
  note len = sm_inv_except_lengths [OF inv] sm_inv_except_fewer [OF inv]
  have fr: "f \<notin> set (sm_free m)" "f \<notin> set (sm_erase_map m)"
    using inv by (auto simp: sm_inv_except_def)
  have other: "unat s \<noteq> unat f" if "s \<in> set (sm_erase_map m)" for s
    using that fr by (metis word_unat_eq_iff)
  have dense: "unat ((sm_erase_map m @ [f]) ! i) < length (sm_slots m)
      \<and> unat (data_index (sm_slots (sm_place f x m) ! unat ((sm_erase_map m @ [f]) ! i))) = i
      \<and> generation (sm_slots (sm_place f x m) ! unat ((sm_erase_map m @ [f]) ! i)) \<noteq> 0"
    if "i < Suc (length (sm_data m))" for i
  proof (cases "i < length (sm_data m)")
    case True
    then have "sm_erase_map m ! i \<in> set (sm_erase_map m)" using len(1) by simp
    then have "unat (sm_erase_map m ! i) \<noteq> unat f" using other by blast
    then show ?thesis
      using sm_inv_except_dense [OF inv True] True len(1)
      by (simp add: sm_place_def nth_append)
  next
    case False
    with that have "i = length (sm_data m)" by simp
    then show ?thesis
      using f len by (simp add: sm_place_def nth_append bump_nonzero unat_of_nat_u32)
  qed
  show ?thesis
    unfolding sm_inv_except_def
    using len dense fr sm_inv_except_free [OF inv] sm_inv_except_cover [OF inv]
    by (auto simp: sm_place_def)
qed

lemma sm_map_place:
  assumes inv: "sm_inv_except {f} m" and f: "unat f < length (sm_slots m)"
  shows "sm_map (sm_place f x m) = (sm_map m)(Handle f (bump (generation (sm_slots m ! unat f))) \<mapsto> x)"
proof
  fix h
  note len = sm_inv_except_lengths [OF inv] sm_inv_except_fewer [OF inv]
  have fr: "f \<notin> set (sm_erase_map m)"
    using inv by (auto simp: sm_inv_except_def)
  show "sm_map (sm_place f x m) h = ((sm_map m)(Handle f (bump (generation (sm_slots m ! unat f))) \<mapsto> x)) h"
  proof (cases "h_index h = f")
    case True
    then show ?thesis using f fr len
      by (cases h) (simp add: sm_map_def sm_place_def unat_of_nat_u32)
  next
    case False
    then have "unat (h_index h) \<noteq> unat f" by (simp add: word_unat_eq_iff)
    moreover have "h \<noteq> Handle f g" for g using False by auto
    ultimately show ?thesis
      using False sm_inv_except_in_use(2) [OF inv, of "h_index h"]
      by (auto simp: sm_map_def sm_place_def nth_append)
  qed
qed

lemma sm_inv_give_back:
  assumes inv: "sm_inv_except {f} m" and f: "unat f < length (sm_slots m)"
  shows "sm_inv (m\<lparr>sm_free := sm_free m @ [f]\<rparr>)"
  using assms unfolding sm_inv_except_def by auto

lemma sm_inv_take:
  assumes inv: "sm_inv m" and f: "f \<in> set (sm_free m)"
    and free': "set free' = set (sm_free m) - {f}" "distinct free'"
  shows "sm_inv_except {f} (m\<lparr>sm_free := free'\<rparr>)"
  using assms unfolding sm_inv_except_def by auto


subsection \<open>Insertion\<close>

definition sm_take :: "('a, 'g::len word) slotmap \<Rightarrow> u32 \<times> ('a, 'g word) slotmap" where
  "sm_take m =
    (if sm_free m \<noteq> [] then (last (sm_free m), m\<lparr>sm_free := butlast (sm_free m)\<rparr>)
     else (of_nat (length (sm_slots m)), m\<lparr>sm_slots := sm_slots m @ [fresh_slot]\<rparr>))"

lemma set_butlast_distinct:
  assumes "distinct xs" and "xs \<noteq> []"
  shows "set (butlast xs) = set xs - {last xs}"
proof -
  obtain ys y where "xs = ys @ [y]" using assms(2) by (metis append_butlast_last_id)
  with assms(1) show ?thesis by auto
qed

lemma sm_inv_grow:
  assumes inv: "sm_inv m" and room: "length (sm_slots m) < 2 ^ 32 - 1"
  shows "sm_inv_except {of_nat (length (sm_slots m))} (m\<lparr>sm_slots := sm_slots m @ [fresh_slot]\<rparr>)"
proof -
  let ?n = "of_nat (length (sm_slots m)) :: u32"
  have un: "unat ?n = length (sm_slots m)" using room by (intro unat_of_nat_u32) simp
  have lt: "unat s < length (sm_slots m)" if "s \<in> set (sm_free m) \<union> set (sm_erase_map m)" for s
    using that sm_inv_except_free(2) [OF inv] sm_inv_except_in_use(1) [OF inv] by blast
  have notin: "?n \<notin> set (sm_free m)" "?n \<notin> set (sm_erase_map m)" using lt un by fastforce+
  have cover: "s \<in> set (sm_free m) \<or> s \<in> set (sm_erase_map m) \<or> s = ?n"
    if "unat s < Suc (length (sm_slots m))" for s
  proof (cases "unat s < length (sm_slots m)")
    case True
    with sm_inv_except_cover [OF inv] show ?thesis by blast
  next
    case False
    with that un have "unat s = unat ?n" by simp
    then show ?thesis by (simp add: word_unat_eq_iff)
  qed
  have nth: "(sm_slots m @ [fresh_slot]) ! unat (sm_erase_map m ! i) = sm_slots m ! unat (sm_erase_map m ! i)"
    if "i < length (sm_data m)" for i
    using sm_inv_except_dense(1) [OF inv that] by (simp add: nth_append)
  show ?thesis
    using inv room notin cover nth unfolding sm_inv_except_def by (auto simp: less_SucI)
qed

lemma sm_take_inv:
  assumes inv: "sm_inv m" and room: "length (sm_slots m) < 2 ^ 32 - 1" and take: "sm_take m = (f, m1)"
  shows "sm_inv_except {f} m1" "unat f < length (sm_slots m1)" "sm_map m1 = sm_map m"
proof -
  have *: "sm_inv_except {f} m1 \<and> unat f < length (sm_slots m1) \<and> sm_map m1 = sm_map m"
  proof (cases "sm_free m = []")
    case True
    then have f: "f = of_nat (length (sm_slots m))" and m1: "m1 = m\<lparr>sm_slots := sm_slots m @ [fresh_slot]\<rparr>"
      using take by (auto simp: sm_take_def)
    have un: "unat f = length (sm_slots m)" unfolding f using room by (intro unat_of_nat_u32) simp
    have "sm_map m1 h = sm_map m h" for h
      using sm_inv_except_in_use(1) [OF inv, of "h_index h"]
      by (auto simp: m1 sm_map_def nth_append)
    then show ?thesis using sm_inv_grow [OF inv room] un f m1 by (simp add: fun_eq_iff)
  next
    case False
    then have f: "f = last (sm_free m)" and m1: "m1 = m\<lparr>sm_free := butlast (sm_free m)\<rparr>"
      using take by (auto simp: sm_take_def)
    have "f \<in> set (sm_free m)" using False f by simp
    moreover have "set (butlast (sm_free m)) = set (sm_free m) - {f}"
      using set_butlast_distinct False sm_inv_except_free(1) [OF inv] f by blast
    ultimately show ?thesis
      using sm_inv_take [OF inv] sm_inv_except_free(1,2) [OF inv]
      by (simp add: m1 distinct_butlast sm_map_def fun_eq_iff)
  qed
  then show "sm_inv_except {f} m1" "unat f < length (sm_slots m1)" "sm_map m1 = sm_map m" by blast+
qed

lemma sm_insert_unfold:
  assumes "sm_take m = (f, m1)" and "unat f < length (sm_slots m1)"
  shows "sm_insert tp m x =
    (if sm_free m = [] \<and> tp = Slot_alloc then (m, Inl Bad_alloc)
     else if tp = Data_emplace \<or> tp = Erase_map_push then
       (sm_rollback (sm_free m \<noteq> []) f (m1\<lparr>sm_slots := (sm_slots m1)[unat f :=
          Slot (bump (generation (sm_slots m1 ! unat f))) (data_index (sm_slots m1 ! unat f))]\<rparr>), Inl Bad_alloc)
     else (sm_place f x m1, Inr (Handle f (bump (generation (sm_slots m1 ! unat f))))))"
  using assms by (auto simp: sm_insert_def sm_take_def sm_place_def sm_rollback_def Let_def not_le)

lemma sm_insert_fast_unfold:
  assumes "sm_take m = (f, m1)" and "unat f < length (sm_slots m1)"
  shows "sm_insert_fast m x =
    (sm_place f x m1, Inr (Handle f (bump (generation (sm_slots m1 ! unat f)))))"
  using assms by (auto simp: sm_insert_fast_def sm_take_def sm_place_def Let_def not_le)


text \<open>Changing a slot that no element uses does not touch the contents.\<close>

lemma sm_inv_unused_slot:
  assumes "sm_inv_except R m" and "f \<notin> set (sm_erase_map m)"
  shows "sm_inv_except R (m\<lparr>sm_slots := (sm_slots m)[unat f := s]\<rparr>)"
    "sm_map (m\<lparr>sm_slots := (sm_slots m)[unat f := s]\<rparr>) = sm_map m"
proof -
  have ne: "unat f \<noteq> unat e" if "e \<in> set (sm_erase_map m)" for e
    using that assms(2) by (metis word_unat_eq_iff)
  have "unat f \<noteq> unat (sm_erase_map m ! i)" if "i < length (sm_data m)" for i
    using ne that sm_inv_except_lengths(1) [OF assms(1)] by (metis nth_mem)
  then show "sm_inv_except R (m\<lparr>sm_slots := (sm_slots m)[unat f := s]\<rparr>)"
    using assms(1) unfolding sm_inv_except_def by simp
  show "sm_map (m\<lparr>sm_slots := (sm_slots m)[unat f := s]\<rparr>) = sm_map m"
    by (rule ext) (auto simp: sm_map_def ne cong: conj_cong)
qed

lemma sm_rollback_state:
  assumes take: "sm_take m = (f, m1)" and f: "unat f < length (sm_slots m1)"
    and "length (sm_slots m) < 2 ^ 32 - 1"
  shows "sm_rollback (sm_free m \<noteq> []) f (m1\<lparr>sm_slots := (sm_slots m1)[unat f := s]\<rparr>)
    = (if sm_free m = [] then m else m\<lparr>sm_slots := (sm_slots m)[unat (last (sm_free m)) := s]\<rparr>)"
proof (cases "sm_free m = []")
  case True
  then have "f = of_nat (length (sm_slots m))" "m1 = m\<lparr>sm_slots := sm_slots m @ [fresh_slot]\<rparr>"
    using take by (auto simp: sm_take_def)
  moreover from this have "unat f = length (sm_slots m)"
    using assms(3) by (simp add: unat_of_nat_u32)
  ultimately show ?thesis using True by (simp add: sm_rollback_def butlast_append butlast_list_update)
next
  case False
  then show ?thesis using take by (auto simp: sm_take_def sm_rollback_def)
qed

lemma mark_new_free_result:
  "i + n \<le> length slots \<Longrightarrow>
   mark_new_free n i slots free = Inr
    (take i slots @ map (\<lambda>s. Slot (generation s) no_data) (take n (drop i slots)) @ drop (i + n) slots,
     free @ map of_nat [i..<i + n])"
proof (induction n arbitrary: i slots free)
  case 0
  then show ?case by simp
next
  case (Suc n)
  let ?s = "Slot (generation (slots ! i)) no_data"
  have i: "i < length slots" using Suc.prems by simp
  have "take (Suc i) (slots[i := ?s]) = take i slots @ [?s]"
    using i by (simp add: take_Suc_conv_app_nth)
  moreover have "drop (Suc i) (slots[i := ?s]) = drop (Suc i) slots" by simp
  moreover have "drop i slots = slots ! i # drop (Suc i) slots" using i by (simp add: Cons_nth_drop_Suc)
  moreover have "[i..<i + Suc n] = i # [Suc i..<Suc i + n]" by (simp add: upt_rec)
  ultimately show ?case
    using i Suc.IH [of "Suc i" "slots[i := ?s]" "free @ [of_nat i]"] Suc.prems by simp
qed

lemma distinct_map_of_nat_u32:
  assumes "n \<le> 2 ^ 32"
  shows "distinct (map (of_nat :: nat \<Rightarrow> u32) [k..<n])"
proof -
  have "inj_on (of_nat :: nat \<Rightarrow> u32) {k..<n}"
  proof (rule inj_onI)
    fix x y
    assume "x \<in> {k..<n}" "y \<in> {k..<n}" "(of_nat x :: u32) = of_nat y"
    then have "unat (of_nat x :: u32) = unat (of_nat y :: u32)" "x < 2 ^ 32" "y < 2 ^ 32"
      using assms by simp_all
    then show "x = y" by (simp add: unat_of_nat_u32)
  qed
  then show ?thesis by (simp add: distinct_map)
qed

lemma in_map_of_nat_u32:
  assumes "n \<le> 2 ^ 32"
  shows "s \<in> set (map (of_nat :: nat \<Rightarrow> u32) [k..<n]) \<longleftrightarrow> k \<le> unat s \<and> unat s < n"
proof
  assume "s \<in> set (map of_nat [k..<n])"
  then obtain i where "k \<le> i" "i < n" "s = of_nat i" by auto
  with assms show "k \<le> unat s \<and> unat s < n" by (simp add: unat_of_nat_u32)
next
  assume "k \<le> unat s \<and> unat s < n"
  moreover have "s = of_nat (unat s)" by simp
  ultimately show "s \<in> set (map of_nat [k..<n])" by (simp only: set_map set_upt) force
qed

text \<open>The slot array grown up to the hint, with all new slots but the last on the free list.\<close>

definition sm_extend :: "u32 \<Rightarrow> ('a, 'g::len word) slotmap \<Rightarrow> ('a, 'g word) slotmap" where
  "sm_extend hint m = m\<lparr>
     sm_slots := sm_slots m @ replicate (unat hint - length (sm_slots m)) (Slot 0 no_data) @ [fresh_slot],
     sm_free := sm_free m @ map of_nat [length (sm_slots m)..<unat hint]\<rparr>"

lemma sm_inv_extend:
  assumes inv: "sm_inv m" and hint: "length (sm_slots m) \<le> unat hint" "hint \<noteq> no_data"
  shows "sm_inv_except {hint} (sm_extend hint m)" "unat hint < length (sm_slots (sm_extend hint m))"
    "sm_map (sm_extend hint m) = sm_map m"
proof -
  have hb: "unat hint < 2 ^ 32" using unat_bound [of hint] by simp
  have "unat hint \<noteq> 2 ^ 32 - 1" using hint(2) unat_no_data by (metis word_unat_eq_iff)
  with hb have len: "Suc (unat hint) < 2 ^ 32" by simp
  have lt: "unat s < length (sm_slots m)" if "s \<in> set (sm_free m) \<or> s \<in> set (sm_erase_map m)" for s
    using that sm_inv_except_free(2) [OF inv] sm_inv_except_in_use(1) [OF inv] by blast
  have new: "s \<in> set (map (of_nat :: nat \<Rightarrow> u32) [length (sm_slots m)..<unat hint])
     \<longleftrightarrow> length (sm_slots m) \<le> unat s \<and> unat s < unat hint" for s
    using hb by (intro in_map_of_nat_u32) simp
  have dist: "distinct (map (of_nat :: nat \<Rightarrow> u32) [length (sm_slots m)..<unat hint])"
    using hb by (intro distinct_map_of_nat_u32) simp
  have slots: "length (sm_slots (sm_extend hint m)) = Suc (unat hint)"
    using hint(1) by (simp add: sm_extend_def)
  have nth: "sm_slots (sm_extend hint m) ! unat e = sm_slots m ! unat e" if "e \<in> set (sm_erase_map m)" for e
    using lt [of e] that by (simp add: sm_extend_def nth_append)
  have cover: "s \<in> set (sm_free m) \<or> s \<in> set (sm_erase_map m) \<or>
      (length (sm_slots m) \<le> unat s \<and> unat s < unat hint) \<or> s = hint"
    if "unat s < Suc (unat hint)" for s
  proof (cases "unat s < length (sm_slots m)")
    case True with sm_inv_except_cover [OF inv] show ?thesis by blast
  next
    case False with that show ?thesis by (metis less_antisym not_less word_unat_eq_iff)
  qed
  show "unat hint < length (sm_slots (sm_extend hint m))" using slots by simp
  have dense: "unat (sm_erase_map m ! i) < Suc (unat hint)
      \<and> unat (data_index (sm_slots (sm_extend hint m) ! unat (sm_erase_map m ! i))) = i
      \<and> generation (sm_slots (sm_extend hint m) ! unat (sm_erase_map m ! i)) \<noteq> 0"
    if "i < length (sm_data m)" for i
  proof -
    have "sm_erase_map m ! i \<in> set (sm_erase_map m)"
      using that sm_inv_except_lengths(1) [OF inv] by simp
    from nth [OF this] sm_inv_except_dense [OF inv that] hint(1) show ?thesis by simp
  qed
  have simps: "sm_data (sm_extend hint m) = sm_data m" "sm_erase_map (sm_extend hint m) = sm_erase_map m"
    "sm_free (sm_extend hint m) = sm_free m @ map of_nat [length (sm_slots m)..<unat hint]"
    by (simp_all add: sm_extend_def)
  show "sm_map (sm_extend hint m) = sm_map m"
    by (rule ext) (auto simp: sm_map_def nth simps cong: conj_cong)
  have disj: "hint \<notin> set (sm_free m)" "hint \<notin> set (sm_erase_map m)"
    using lt [of hint] hint(1) by auto
  have free: "s \<in> set (sm_free (sm_extend hint m)) \<longleftrightarrow>
      s \<in> set (sm_free m) \<or> length (sm_slots m) \<le> unat s \<and> unat s < unat hint" for s
    using new [of s] by (simp only: simps set_append Un_iff)
  have "sm_inv_except {hint} (sm_extend hint m) \<longleftrightarrow>
      distinct (sm_free (sm_extend hint m))
    \<and> (\<forall>f\<in>set (sm_free (sm_extend hint m)). unat f < Suc (unat hint) \<and> f \<notin> set (sm_erase_map m) \<and> f \<noteq> hint)"
    using sm_inv_except_lengths(1) [OF inv] len dense disj cover
    by (simp add: sm_inv_except_def slots simps(1,2)) (use free in blast)
  moreover have "distinct (sm_free (sm_extend hint m))"
    using sm_inv_except_free(1) [OF inv] dist new lt unfolding simps distinct_append by fastforce
  moreover have "unat f < Suc (unat hint) \<and> f \<notin> set (sm_erase_map m) \<and> f \<noteq> hint"
    if "f \<in> set (sm_free (sm_extend hint m))" for f
    using that free [of f] lt [of f] sm_inv_except_free(3) [OF inv, of f] hint(1) disj by auto
  ultimately show "sm_inv_except {hint} (sm_extend hint m)" by blast
qed


text \<open>
  What \<open>insert_at\<close> does for a hint it can honour: the slot is taken from the free list or
  created, then filled.
\<close>

definition sm_at_prepared :: "u32 \<Rightarrow> ('a, 'g::len word) slotmap \<Rightarrow> ('a, 'g word) slotmap" where
  "sm_at_prepared hint m =
    (if unat hint < length (sm_slots m) then m\<lparr>sm_free := remove1 hint (sm_free m)\<rparr>
     else sm_extend hint m)"

definition sm_hint_free :: "u32 \<Rightarrow> ('a, 'g::len word) slotmap \<Rightarrow> bool" where
  "sm_hint_free hint m \<longleftrightarrow> length (sm_slots m) \<le> unat hint
     \<or> generation (sm_slots m ! unat hint) = 0 \<or> data_index (sm_slots m ! unat hint) = no_data"

lemma sm_hint_free_unused:
  assumes "sm_inv m" and "sm_hint_free hint m"
  shows "hint \<notin> set (sm_erase_map m)"
proof
  assume "hint \<in> set (sm_erase_map m)"
  note u = sm_inv_except_in_use [OF assms(1) this]
  have "length (sm_data m) < 2 ^ 32" by (rule sm_inv_except_fewer(2) [OF assms(1)])
  moreover have "data_index (sm_slots m ! unat hint) = no_data" using u(1,4) assms(2) by (simp add: sm_hint_free_def)
  ultimately show False using u(2) unat_no_data by simp
qed

lemma sm_inv_at_prepared:
  assumes inv: "sm_inv m" and free: "sm_hint_free hint m" and hint: "hint \<noteq> no_data"
  shows "sm_inv_except {hint} (sm_at_prepared hint m)"
    "unat hint < length (sm_slots (sm_at_prepared hint m))"
    "sm_map (sm_at_prepared hint m) = sm_map m"
proof -
  have *: "sm_inv_except {hint} (sm_at_prepared hint m)
    \<and> unat hint < length (sm_slots (sm_at_prepared hint m)) \<and> sm_map (sm_at_prepared hint m) = sm_map m"
  proof (cases "unat hint < length (sm_slots m)")
    case True
    then have f: "hint \<in> set (sm_free m)"
      using sm_inv_except_cover [OF inv True] sm_hint_free_unused [OF inv free] by simp
    have "sm_inv_except {hint} (m\<lparr>sm_free := remove1 hint (sm_free m)\<rparr>)"
      using sm_inv_except_free(1) [OF inv] by (intro sm_inv_take [OF inv f]) (simp_all add: set_remove1_eq)
    with True show ?thesis by (simp add: sm_at_prepared_def sm_map_def fun_eq_iff)
  next
    case False
    with sm_inv_extend [OF inv _ hint] show ?thesis by (simp add: sm_at_prepared_def)
  qed
  then show "sm_inv_except {hint} (sm_at_prepared hint m)"
    "unat hint < length (sm_slots (sm_at_prepared hint m))"
    "sm_map (sm_at_prepared hint m) = sm_map m" by blast+
qed

lemma u32_less_length:
  "length xs < 2 ^ 32 \<Longrightarrow> (hint :: u32) < of_nat (length xs) \<longleftrightarrow> unat hint < length xs"
  by (simp add: word_less_nat_alt unat_of_nat_u32)

lemma vec_resize_extend:
  "n \<le> k \<Longrightarrow> length xs = n \<Longrightarrow> vec_resize d (Suc k) xs = xs @ replicate (k - n) d @ [d]"
  by (simp add: vec_resize_def Suc_diff_le replicate_append_same)

lemma mark_new_free_extend:
  assumes "length (sm_slots m) \<le> unat hint"
  shows "mark_new_free (unat hint - length (sm_slots m)) (length (sm_slots m))
     (vec_resize fresh_slot (Suc (unat hint)) (sm_slots m)) (sm_free m)
   = Inr (sm_slots (sm_extend hint m), sm_free (sm_extend hint m))"
  using assms
  by (subst mark_new_free_result) (simp_all add: vec_resize_extend sm_extend_def fresh_slot_def)

lemma sm_insert_at_unfold:
  assumes inv: "sm_inv m" and hint: "hint \<noteq> no_data"
  shows "sm_insert_at tp m hint x =
    (if \<not> sm_hint_free hint m then sm_insert tp m x
     else if length (sm_slots m) \<le> unat hint \<and> tp = Slot_alloc then (m, Inl Bad_alloc)
     else
       let m1 = sm_at_prepared hint m;
           s = sm_slots m1 ! unat hint
       in if tp = Data_emplace \<or> tp = Erase_map_push then
            (m1\<lparr>sm_slots := (sm_slots m1)[unat hint := Slot (bump (generation s) - 1) (data_index s)],
                sm_free := sm_free m1 @ [hint]\<rparr>, Inl Bad_alloc)
          else (sm_place hint x m1, Inr (Handle hint (bump (generation s)))))"
proof -
  note len = sm_inv_except_lengths(2) [OF inv]
  have un: "unat (of_nat (length (sm_slots m)) :: u32) = length (sm_slots m)"
    using len by (rule unat_of_nat_u32)
  have h1: "unat (hint + 1) = Suc (unat hint)"
    using hint by (intro unat_add_one) (metis no_data_def add_eq_0_iff2)
  note range = u32_less_length [OF len, of hint]
  show ?thesis
  proof (cases "sm_hint_free hint m")
    case False
    then have "unat hint < length (sm_slots m)"
      "generation (sm_slots m ! unat hint) \<noteq> 0" "data_index (sm_slots m ! unat hint) \<noteq> no_data"
      by (auto simp: sm_hint_free_def)
    with False show ?thesis by (simp add: sm_insert_at_def range)
  next
    case True
    note fits = sm_inv_at_prepared(2) [OF inv True hint]
    show ?thesis
    proof (cases "unat hint < length (sm_slots m)")
      case in_range: True
      then have "generation (sm_slots m ! unat hint) = 0 \<or> data_index (sm_slots m ! unat hint) = no_data"
        using True by (auto simp: sm_hint_free_def)
      with True in_range show ?thesis
        by (auto simp: sm_insert_at_def range sm_at_prepared_def sm_place_def Let_def not_le)
    next
      case False
      with fits True show ?thesis
        using mark_new_free_extend [of m hint]
        by (auto simp: sm_insert_at_def range sm_at_prepared_def sm_place_def Let_def un h1 not_le sm_extend_def)
    qed
  qed
qed


subsection \<open>Removal\<close>

text \<open>
  The state after a successful \<open>erase\<close> of slot \<open>f\<close>, whether or not the element was the last
  one: both dense arrays lose position \<open>d\<close> to their last element.
\<close>

definition sm_removed :: "u32 \<Rightarrow> ('a, 'g::len word) slotmap \<Rightarrow> ('a, 'g word) slotmap" where
  "sm_removed f m =
    (let di = data_index (sm_slots m ! unat f); moved = last (sm_erase_map m);
         slots1 = (sm_slots m)[unat moved := Slot (generation (sm_slots m ! unat moved)) di]
     in m\<lparr>sm_data := swap_pop (sm_data m) (unat di), sm_erase_map := swap_pop (sm_erase_map m) (unat di),
          sm_slots := slots1[unat f := Slot (bump (generation (sm_slots m ! unat f))) no_data]\<rparr>)"

lemma butlast_swap: "n = length xs \<Longrightarrow> butlast (xs[d := y, n - Suc 0 := z]) = butlast (xs[d := y])"
  by (metis One_nat_def butlast_list_update length_list_update)

lemma sm_erase_invalid: "\<not> sm_is_valid m h \<Longrightarrow> sm_erase m h = (m, Inr False)"
  by (simp add: sm_erase_def)

lemma sm_is_valid_iff:
  "length (sm_slots m) < 2 ^ 32 \<Longrightarrow> sm_is_valid m h \<longleftrightarrow>
     unat (h_index h) < length (sm_slots m) \<and> generation (sm_slots m ! unat (h_index h)) = h_gen h"
  using u32_less_length [of "sm_slots m" "h_index h"] by (auto simp: sm_is_valid_def not_less [symmetric])

lemma sm_map_valid:
  assumes "sm_inv m" and "sm_map m h = Some x"
  shows "sm_is_valid m h" "h_index h \<in> set (sm_erase_map m)"
    "generation (sm_slots m ! unat (h_index h)) = h_gen h"
  using assms sm_inv_except_in_use(1) [OF assms(1)] sm_inv_except_lengths(2) [OF assms(1)]
  by (auto simp: sm_map_def sm_is_valid_iff split: if_splits)

lemma sm_erase_in_use:
  assumes inv: "sm_inv m" and "sm_map m h = Some x"
  shows "sm_erase m h = ((sm_removed (h_index h) m)\<lparr>sm_free := sm_free m @ [h_index h]\<rparr>, Inr True)"
proof -
  note v = sm_map_valid [OF assms]
  note u = sm_inv_except_in_use [OF inv v(2)]
  note len = sm_inv_except_lengths [OF inv] sm_inv_except_fewer [OF inv]
  let ?di = "data_index (sm_slots m ! unat (h_index h))"
  have pos: "0 < length (sm_data m)" using u(2) by linarith
  then have ne: "sm_data m \<noteq> []" "sm_erase_map m \<noteq> []" using len(1) by auto
  have last: "unat (of_nat (length (sm_data m)) - 1 :: u32) = length (sm_data m) - 1"
    using len pos by (metis One_nat_def Suc_leI of_nat_1 of_nat_diff unat_of_nat_u32 less_imp_diff_less)
  have moved: "last (sm_erase_map m) \<in> set (sm_erase_map m)" using ne by simp
  note um = sm_inv_except_in_use(1) [OF inv moved]
  show ?thesis
  proof (cases "unat ?di = length (sm_data m) - 1")
    case True
    then have "\<not> ?di < of_nat (length (sm_data m)) - 1" by (simp add: word_less_nat_alt last)
    moreover have "last (sm_erase_map m) = h_index h"
      using True u(3) ne len(1) by (simp add: last_nth)
    ultimately show ?thesis
      using v(1) ne True len(1) by (simp add: sm_erase_def sm_removed_def Let_def swap_pop_last)
  next
    case False
    then have lt: "?di < of_nat (length (sm_data m)) - 1"
      using u(2) by (simp add: word_less_nat_alt last)
    have "unat (last (sm_erase_map m)) \<noteq> unat (h_index h)"
    proof
      assume "unat (last (sm_erase_map m)) = unat (h_index h)"
      then have "sm_erase_map m ! (length (sm_data m) - 1) = h_index h"
        using ne len(1) by (simp add: word_unat_eq_iff last_nth)
      then have "unat ?di = length (sm_data m) - 1"
        using sm_inv_except_dense(2) [OF inv, of "length (sm_data m) - 1"] pos by simp
      with False show False by simp
    qed
    then show ?thesis
      using v(1) ne lt u(2) um len(1)
      by (simp add: sm_erase_def sm_removed_def Let_def swap_pop_def butlast_swap)
  qed
qed

lemma sm_removed_slot:
  assumes inv: "sm_inv m" and f: "f \<in> set (sm_erase_map m)" and e: "e \<in> set (sm_erase_map m)" "e \<noteq> f"
  shows "sm_slots (sm_removed f m) ! unat e =
    (if e = last (sm_erase_map m)
     then Slot (generation (sm_slots m ! unat e)) (data_index (sm_slots m ! unat f))
     else sm_slots m ! unat e)"
proof -
  have "unat e < length (sm_slots m)" by (rule sm_inv_except_in_use(1) [OF inv e(1)])
  moreover have "unat f \<noteq> unat e" using e(2) by (simp add: word_unat_eq_iff)
  ultimately show ?thesis by (simp add: sm_removed_def Let_def nth_list_update word_unat_eq_iff)
qed

lemma sm_removed_positions:
  assumes inv: "sm_inv m" and f: "f \<in> set (sm_erase_map m)"
  shows "set (sm_erase_map (sm_removed f m)) = set (sm_erase_map m) - {f}"
    "\<lbrakk>i < length (sm_data m) - 1; i \<noteq> unat (data_index (sm_slots m ! unat f))\<rbrakk> \<Longrightarrow>
       sm_erase_map (sm_removed f m) ! i = sm_erase_map m ! i
       \<and> sm_erase_map m ! i \<noteq> last (sm_erase_map m) \<and> sm_erase_map m ! i \<noteq> f"
    "unat (data_index (sm_slots m ! unat f)) < length (sm_data m) - 1 \<Longrightarrow>
       sm_erase_map (sm_removed f m) ! unat (data_index (sm_slots m ! unat f)) = last (sm_erase_map m)
       \<and> last (sm_erase_map m) \<noteq> f"
proof -
  note u = sm_inv_except_in_use [OF inv f]
  note len = sm_inv_except_lengths [OF inv] and dist = sm_inv_except_distinct [OF inv]
  let ?d = "unat (data_index (sm_slots m ! unat f))"
  have ne: "sm_erase_map m \<noteq> []" using f by auto
  have lst: "last (sm_erase_map m) = sm_erase_map m ! (length (sm_data m) - 1)"
    using ne len(1) by (simp add: last_nth)
  have eqs: "sm_erase_map (sm_removed f m) = swap_pop (sm_erase_map m) ?d"
    by (simp add: sm_removed_def Let_def)
  show "set (sm_erase_map (sm_removed f m)) = set (sm_erase_map m) - {f}"
    using set_swap_pop [OF _ dist, of ?d] u len by (simp add: eqs)
  show "sm_erase_map (sm_removed f m) ! i = sm_erase_map m ! i
       \<and> sm_erase_map m ! i \<noteq> last (sm_erase_map m) \<and> sm_erase_map m ! i \<noteq> f"
    if "i < length (sm_data m) - 1" "i \<noteq> ?d"
    using that u len dist nth_eq_iff_index_eq [OF dist, of i ?d]
      nth_eq_iff_index_eq [OF dist, of i "length (sm_data m) - 1"]
    by (simp add: eqs nth_swap_pop lst)
  show "sm_erase_map (sm_removed f m) ! ?d = last (sm_erase_map m) \<and> last (sm_erase_map m) \<noteq> f"
    if "?d < length (sm_data m) - 1"
  proof -
    have "length (sm_data m) - 1 < length (sm_data m)" using u(2) by simp
    with that show ?thesis
      using u len nth_eq_iff_index_eq [OF dist, of ?d "length (sm_data m) - 1"]
      by (auto simp: eqs nth_swap_pop lst)
  qed
qed


lemma sm_inv_removed:
  assumes inv: "sm_inv m" and f: "f \<in> set (sm_erase_map m)"
  shows "sm_inv_except {f} (sm_removed f m)" "unat f < length (sm_slots (sm_removed f m))"
proof -
  note len = sm_inv_except_lengths [OF inv]
  note p = sm_removed_positions [OF inv f]
  let ?m = "sm_removed f m" and ?d = "unat (data_index (sm_slots m ! unat f))"
  have simps: "length (sm_slots ?m) = length (sm_slots m)" "sm_free ?m = sm_free m"
    "length (sm_data ?m) = length (sm_data m) - 1"
    "length (sm_erase_map ?m) = length (sm_erase_map m) - 1"
    by (simp_all add: sm_removed_def Let_def)
  have dense: "unat (sm_erase_map ?m ! i) < length (sm_slots m)
      \<and> unat (data_index (sm_slots ?m ! unat (sm_erase_map ?m ! i))) = i
      \<and> generation (sm_slots ?m ! unat (sm_erase_map ?m ! i)) \<noteq> 0"
    if i: "i < length (sm_data m) - 1" for i
  proof (cases "i = ?d")
    case True
    then have e: "sm_erase_map ?m ! i = last (sm_erase_map m)" "last (sm_erase_map m) \<noteq> f"
      using p(3) i by auto
    have l: "last (sm_erase_map m) \<in> set (sm_erase_map m)" using f by (intro last_in_set) auto
    show ?thesis
      using sm_removed_slot [OF inv f l e(2)] sm_inv_except_in_use(1,4) [OF inv l] True e(1) by simp
  next
    case False
    with p(2) i have e: "sm_erase_map ?m ! i = sm_erase_map m ! i"
      "sm_erase_map m ! i \<noteq> last (sm_erase_map m)" "sm_erase_map m ! i \<noteq> f" by blast+
    have il: "i < length (sm_data m)" using i by simp
    then have "sm_erase_map m ! i \<in> set (sm_erase_map m)" using len(1) by simp
    from sm_removed_slot [OF inv f this e(3)] sm_inv_except_dense [OF inv il] e
    show ?thesis by simp
  qed
  show "unat f < length (sm_slots ?m)" using sm_inv_except_in_use(1) [OF inv f] simps by simp
  show "sm_inv_except {f} ?m"
    unfolding sm_inv_except_def simps p(1)
    using len dense sm_inv_except_free [OF inv] sm_inv_except_cover [OF inv] f by auto
qed

lemma sm_map_removed:
  assumes inv: "sm_inv m" and h: "sm_map m h = Some x"
  shows "sm_map (sm_removed (h_index h) m) = (sm_map m)(h := None)"
proof
  fix k
  let ?f = "h_index h"
  let ?d = "unat (data_index (sm_slots m ! unat ?f))"
  note v = sm_map_valid [OF inv h]
  note u = sm_inv_except_in_use [OF inv v(2)]
  note len = sm_inv_except_lengths [OF inv]
  note set_erase = sm_removed_positions(1) [OF inv v(2)]
  show "sm_map (sm_removed ?f m) k = ((sm_map m)(h := None)) k"
  proof (cases "h_index k = ?f")
    case True
    then have "sm_map m k = None" if "k \<noteq> h"
      using that v(3) by (cases k; cases h) (auto simp: sm_map_def)
    with True show ?thesis by (simp add: sm_map_def set_erase)
  next
    case other: False
    then have kh: "k \<noteq> h" by auto
    show ?thesis
    proof (cases "h_index k \<in> set (sm_erase_map m)")
      case False
      with kh show ?thesis by (simp add: sm_map_def set_erase)
    next
      case k: True
      let ?e = "h_index k"
      let ?i = "unat (data_index (sm_slots m ! unat ?e))"
      note uk = sm_inv_except_in_use [OF inv k]
      have slot: "sm_slots (sm_removed ?f m) ! unat ?e = (if ?e = last (sm_erase_map m)
          then Slot (generation (sm_slots m ! unat ?e)) (data_index (sm_slots m ! unat ?f))
          else sm_slots m ! unat ?e)"
        by (rule sm_removed_slot [OF inv v(2) k other])
      have ne: "sm_erase_map m \<noteq> []" using k by auto
      have data: "sm_data (sm_removed ?f m) = swap_pop (sm_data m) ?d"
        by (simp add: sm_removed_def Let_def)
      have id: "?i \<noteq> ?d" using uk(3) u(3) other by auto
      show ?thesis
      proof (cases "?e = last (sm_erase_map m)")
        case True
        moreover have "0 < length (sm_data m)" using u(2) by linarith
        ultimately have i: "?i = length (sm_data m) - 1"
          using sm_inv_except_dense(2) [OF inv, of "length (sm_data m) - 1"] ne len(1)
          by (simp add: last_nth)
        then have "?d < length (sm_data m) - 1" using id u(2) by simp
        moreover have "last (sm_data m) = sm_data m ! (length (sm_data m) - 1)"
          using u(2) by (intro last_nth) auto
        ultimately have "swap_pop (sm_data m) ?d ! ?d = sm_data m ! ?i"
          using u(2) i by (subst nth_swap_pop) auto
        moreover have "sm_slots (sm_removed ?f m) ! unat ?e =
            Slot (generation (sm_slots m ! unat ?e)) (data_index (sm_slots m ! unat ?f))"
          using slot True by simp
        ultimately show ?thesis using k kh other by (simp add: sm_map_def set_erase data)
      next
        case False
        then have "?i \<noteq> length (sm_data m) - 1" using uk(3) ne len(1) by (auto simp: last_nth)
        with uk(2) have "?i < length (sm_data m) - 1" by simp
        then have "swap_pop (sm_data m) ?d ! ?i = sm_data m ! ?i"
          using u(2) id by (simp add: nth_swap_pop)
        with False k kh other show ?thesis by (simp add: sm_map_def set_erase slot data)
      qed
    qed
  qed
qed

lemma sm_map_free_irrelevant [simp]: "sm_map (m\<lparr>sm_free := xs\<rparr>) = sm_map m"
  by (simp add: sm_map_def fun_eq_iff)

lemma sm_inv_clear:
  assumes inv: "sm_inv m"
  shows "sm_inv (sm_clear m)" "sm_map (sm_clear m) = Map.empty"
proof -
  note len = sm_inv_except_lengths(2) [OF inv]
  have "distinct (map (of_nat :: nat \<Rightarrow> u32) [0..<length (sm_slots m)])"
    using len by (intro distinct_map_of_nat_u32) simp
  moreover have "s \<in> set (map (of_nat :: nat \<Rightarrow> u32) [0..<length (sm_slots m)]) \<longleftrightarrow> unat s < length (sm_slots m)" for s
    using in_map_of_nat_u32 [of "length (sm_slots m)" s 0] len by simp
  ultimately show "sm_inv (sm_clear m)"
    unfolding sm_inv_except_def sm_clear_def using len by (simp del: set_map)
  show "sm_map (sm_clear m) = Map.empty" by (simp add: sm_map_def sm_clear_def fun_eq_iff)
qed

end
