(* ===== verification/SlotMap_Handles.thy ===== *)
theory SlotMap_Handles
  imports SlotMap
begin

text \<open>
  What the users of a slot map rely on: the step relation of a program that inserts, erases and
  clears, the safety of every handle such a program holds, the functional behaviour of each
  operation on the abstract map \<^const>\<open>sm_map\<close>, the interpretation of the interface of handle
  stores, and the inputs on which the container does not keep its promises.
\<close>

section \<open>Handles in use: no stale handle becomes valid again\<close>

text \<open>
  The states a program can drive a slot map into, with the set of all handles the map has
  issued so far: insertions (which may throw), hinted insertions, removals and clears.  The
  caller passes only handles that the map has issued.  The side conditions keep slot indices
  within 32 bits.
\<close>

inductive sm_step ::
  "('a, 'g::len word) slotmap \<times> 'g word slot_handle set \<Rightarrow> ('a, 'g word) slotmap \<times> 'g word slot_handle set \<Rightarrow> bool" where
  insert: "\<lbrakk>length (sm_slots m) < 2 ^ 32 - 1; sm_insert tp m x = (m', Inr h)\<rbrakk>
     \<Longrightarrow> sm_step (m, I) (m', insert h I)"
| insert_throws: "\<lbrakk>length (sm_slots m) < 2 ^ 32 - 1; sm_insert tp m x = (m', Inl e)\<rbrakk>
     \<Longrightarrow> sm_step (m, I) (m', I)"
| insert_at: "\<lbrakk>length (sm_slots m) < 2 ^ 32 - 1; hint \<noteq> no_data; sm_insert_at tp m hint x = (m', Inr h)\<rbrakk>
     \<Longrightarrow> sm_step (m, I) (m', insert h I)"
| insert_at_throws: "\<lbrakk>length (sm_slots m) < 2 ^ 32 - 1; hint \<noteq> no_data; sm_insert_at tp m hint x = (m', Inl e)\<rbrakk>
     \<Longrightarrow> sm_step (m, I) (m', I)"
| erase: "\<lbrakk>h \<in> I; sm_erase m h = (m', r)\<rbrakk> \<Longrightarrow> sm_step (m, I) (m', I)"
| clear: "sm_step (m, I) (sm_clear m, I)"

text \<open>\<open>n\<close> steps from one state to another.\<close>

inductive sm_run ::
  "('a, 'g::len word) slotmap \<times> 'g word slot_handle set \<Rightarrow> nat \<Rightarrow> ('a, 'g word) slotmap \<times> 'g word slot_handle set \<Rightarrow> bool" where
  none: "sm_run s 0 s"
| step: "\<lbrakk>sm_run s n t; sm_step t u\<rbrakk> \<Longrightarrow> sm_run s (Suc n) u"

definition sm_start :: "('a, 'g::len word) slotmap \<times> 'g word slot_handle set" where
  "sm_start = (sm_empty, {})"

text \<open>
  The safety invariant after \<open>n\<close> steps: no generation exceeds \<open>n\<close>, and each issued handle
  either names an element or is older than its slot.
\<close>

definition sm_safe :: "nat \<Rightarrow> ('a, 'g::len word) slotmap \<times> 'g word slot_handle set \<Rightarrow> bool" where
  "sm_safe n s \<longleftrightarrow> (case s of (m, I) \<Rightarrow>
     sm_inv m
   \<and> (\<forall>i<length (sm_slots m). unat (generation (sm_slots m ! i)) \<le> n)
   \<and> (\<forall>h\<in>I. unat (h_index h) < length (sm_slots m)
       \<and> (sm_map m h \<noteq> None \<or> unat (h_gen h) < unat (generation (sm_slots m ! unat (h_index h))))))"

definition sm_gens_mono :: "('a, 'g::len word) slotmap \<Rightarrow> ('a, 'g word) slotmap \<Rightarrow> bool" where
  "sm_gens_mono m m' \<longleftrightarrow> length (sm_slots m) \<le> length (sm_slots m')
   \<and> (\<forall>i<length (sm_slots m'). i < length (sm_slots m) \<longrightarrow>
        unat (generation (sm_slots m ! i)) \<le> unat (generation (sm_slots m' ! i)))
   \<and> (\<forall>i<length (sm_slots m'). unat (generation (sm_slots m' ! i)) \<le>
        Suc (if i < length (sm_slots m) then unat (generation (sm_slots m ! i)) else 0))"

lemma add_one_zero_iff: "g + 1 = 0 \<longleftrightarrow> Suc (unat g) = 2 ^ LENGTH('g)" for g :: "'g::len word"
proof
  assume "g + 1 = 0"
  then have "(unat g + 1) mod 2 ^ LENGTH('g) = 0" by (metis unat_0 unat_1 unat_word_ariths(1) unat_plus_if')
  then show "Suc (unat g) = 2 ^ LENGTH('g)"
    using unat_bound [of g] by (metis Suc_eq_plus1 Suc_lessI mod_less nat.distinct(1))
next
  assume "Suc (unat g) = 2 ^ LENGTH('g)"
  then have "of_nat (Suc (unat g)) = (0 :: 'g word)" by simp
  then show "g + 1 = 0" by (simp add: add.commute)
qed

lemma unat_bump: "Suc (unat g) < 2 ^ LENGTH('g) \<Longrightarrow> unat (bump g) = Suc (unat (g :: 'g::len word))"
  using add_one_zero_iff [of g] by (simp add: bump_def unat_add_one)

lemma unat_bump_le: "unat (bump g) \<le> Suc (unat (g :: 'g::len word))"
  by (simp add: bump_def unat_add_one)


lemma sm_gens_mono_refl: "sm_gens_mono m m"
  by (simp add: sm_gens_mono_def)

lemma sm_gens_mono_grow:
  assumes "sm_slots m' = (sm_slots m @ xs)[i := s]" and "\<forall>x\<in>set xs. generation x = 0"
    and "i < length (sm_slots m @ xs) \<Longrightarrow> unat (generation ((sm_slots m @ xs) ! i)) \<le> unat (generation s)
       \<and> unat (generation s) \<le> Suc (unat (generation ((sm_slots m @ xs) ! i)))"
  shows "sm_gens_mono m m'"
proof -
  have new: "generation ((sm_slots m @ xs) ! j) = 0" if "length (sm_slots m) \<le> j" "j < length (sm_slots m @ xs)" for j
    using that assms(2) by (simp add: nth_append)
  have old: "(sm_slots m @ xs) ! j = sm_slots m ! j" if "j < length (sm_slots m)" for j
    using that by (simp add: nth_append)
  have "unat (generation ((sm_slots m @ xs)[i := s] ! j)) \<le>
        Suc (if j < length (sm_slots m) then unat (generation (sm_slots m ! j)) else 0)"
    if "j < length (sm_slots m @ xs)" for j
    using that assms(3) new [of j] old [of j] by (cases "j = i") (auto simp: not_less)
  moreover have "unat (generation (sm_slots m ! j)) \<le> unat (generation ((sm_slots m @ xs)[i := s] ! j))"
    if "j < length (sm_slots m @ xs)" "j < length (sm_slots m)" for j
    using that assms(3) old [of j] by (cases "j = i") auto
  ultimately show ?thesis unfolding sm_gens_mono_def assms(1) by simp
qed

lemma sm_gens_mono_update:
  assumes "sm_slots m' = (sm_slots m)[i := s]"
    and "i < length (sm_slots m) \<Longrightarrow> unat (generation (sm_slots m ! i)) \<le> unat (generation s)
       \<and> unat (generation s) \<le> Suc (unat (generation (sm_slots m ! i)))"
  shows "sm_gens_mono m m'"
  using sm_gens_mono_grow [of m' m "[]" i s] assms by simp

text \<open>What an operation has to do for the safety invariant to survive it.\<close>

lemma sm_safe_keep:
  assumes safe: "sm_safe n (m, I)" and inv: "sm_inv m'" and gens: "sm_gens_mono m m'"
    and handles: "\<And>h. h \<in> I \<Longrightarrow> sm_map m h \<noteq> None \<Longrightarrow>
       sm_map m' h \<noteq> None \<or> unat (h_gen h) < unat (generation (sm_slots m' ! unat (h_index h)))"
  shows "sm_safe (Suc n) (m', I)"
proof -
  have le: "unat (generation (sm_slots m' ! i)) \<le> Suc n" if "i < length (sm_slots m')" for i
  proof -
    have "unat (generation (sm_slots m' ! i)) \<le>
        Suc (if i < length (sm_slots m) then unat (generation (sm_slots m ! i)) else 0)"
      using gens that by (simp add: sm_gens_mono_def)
    also have "\<dots> \<le> Suc n" using safe by (simp add: sm_safe_def)
    finally show ?thesis .
  qed
  have idx: "unat (h_index h) < length (sm_slots m')" if "h \<in> I" for h
    using safe gens that by (auto simp: sm_safe_def sm_gens_mono_def dest: less_le_trans)
  have old: "sm_map m' h \<noteq> None \<or> unat (h_gen h) < unat (generation (sm_slots m' ! unat (h_index h)))"
    if h: "h \<in> I" for h
  proof (cases "sm_map m h = None")
    case True
    with safe h have "unat (h_gen h) < unat (generation (sm_slots m ! unat (h_index h)))"
      "unat (h_index h) < length (sm_slots m)" by (auto simp: sm_safe_def)
    with gens idx [OF h] show ?thesis by (auto simp: sm_gens_mono_def dest: less_le_trans)
  next
    case False
    with handles [OF h] show ?thesis by simp
  qed
  show ?thesis using inv le idx old by (simp add: sm_safe_def)
qed

lemma sm_safe_add:
  assumes "sm_safe n (m, I)" and "sm_map m h \<noteq> None"
  shows "sm_safe n (m, insert h I)"
proof -
  have "sm_inv m" using assms(1) by (simp add: sm_safe_def)
  moreover from assms(2) have "h_index h \<in> set (sm_erase_map m)" by (auto simp: sm_map_def split: if_splits)
  ultimately have "unat (h_index h) < length (sm_slots m)" by (rule sm_inv_except_in_use(1))
  with assms show ?thesis by (simp add: sm_safe_def)
qed


subsection \<open>Every step keeps the safety invariant\<close>

lemma unat_bump_bounds:
  "Suc (unat g) < 2 ^ LENGTH('g) \<Longrightarrow> unat (g :: 'g::len word) \<le> unat (bump g) \<and> unat (bump g) \<le> Suc (unat g)"
  by (simp add: unat_bump)

lemma sm_take_gens:
  assumes take: "sm_take m = (f, m1)"
  shows "\<exists>xs. sm_slots m1 = sm_slots m @ xs \<and> (\<forall>x\<in>set xs. generation x = 0)"
  using take by (auto simp: sm_take_def fresh_slot_def split: if_splits)

lemma sm_at_prepared_gens:
  "\<exists>xs. sm_slots (sm_at_prepared hint m) = sm_slots m @ xs \<and> (\<forall>x\<in>set xs. generation x = 0)"
  by (auto simp: sm_at_prepared_def sm_extend_def fresh_slot_def)

text \<open>No generation of the prepared map exceeds the step count, so none wraps in this step.\<close>

lemma sm_prepared_gen_bound:
  assumes "sm_safe n (m, I)" and "sm_slots m1 = sm_slots m @ xs" and "\<forall>x\<in>set xs. generation x = 0"
    and "i < length (sm_slots m1)"
  shows "unat (generation (sm_slots m1 ! i)) \<le> n"
proof (cases "i < length (sm_slots m)")
  case True
  with assms show ?thesis by (simp add: nth_append sm_safe_def)
next
  case False
  with assms show ?thesis by (simp add: nth_append)
qed

lemma sm_safe_place:
  fixes m :: "('a, 'g::len word) slotmap"
  assumes safe: "sm_safe n (m, I)" and n: "Suc n < 2 ^ LENGTH('g)"
    and inv: "sm_inv_except {f} m1" and f: "unat f < length (sm_slots m1)" and map: "sm_map m1 = sm_map m"
    and slots: "\<exists>xs. sm_slots m1 = sm_slots m @ xs \<and> (\<forall>x\<in>set xs. generation x = 0)"
  shows "sm_safe (Suc n) (sm_place f x m1, insert (Handle f (bump (generation (sm_slots m1 ! unat f)))) I)"
proof -
  obtain xs where xs: "sm_slots m1 = sm_slots m @ xs" "\<forall>x\<in>set xs. generation x = 0" using slots by blast
  have "unat (generation (sm_slots m1 ! unat f)) \<le> n" by (rule sm_prepared_gen_bound [OF safe xs f])
  with n have "Suc (unat (generation (sm_slots m1 ! unat f))) < 2 ^ LENGTH('g)" by simp
  note b = unat_bump_bounds [OF this]
  have gens: "sm_gens_mono m (sm_place f x m1)"
    by (rule sm_gens_mono_grow [where xs = xs and i = "unat f"
        and s = "Slot (bump (generation (sm_slots m1 ! unat f))) (of_nat (length (sm_data m1)))"])
      (use xs b in \<open>simp_all add: sm_place_def\<close>)
  note new = sm_map_place [OF inv f, of x]
  have "sm_safe (Suc n) (sm_place f x m1, I)"
    by (rule sm_safe_keep [OF safe sm_inv_place [OF inv f] gens]) (simp add: new map)
  then show ?thesis by (rule sm_safe_add) (simp add: new)
qed

lemma sm_safe_undo:
  fixes m :: "('a, 'g::len word) slotmap"
  assumes safe: "sm_safe n (m, I)" and inv: "sm_inv m'" and map: "sm_map m' = sm_map m"
    and slots: "sm_slots m' = (sm_slots m @ xs)[i := s]" "\<forall>x\<in>set xs. generation x = 0"
    and s: "i < length (sm_slots m @ xs) \<Longrightarrow> unat (generation ((sm_slots m @ xs) ! i)) \<le> unat (generation s)
       \<and> unat (generation s) \<le> Suc (unat (generation ((sm_slots m @ xs) ! i)))"
  shows "sm_safe (Suc n) (m', I)"
  by (rule sm_safe_keep [OF safe inv sm_gens_mono_grow [OF slots s]]) (simp_all add: map)

lemma sm_rollback_effect:
  fixes m :: "('a, 'g::len word) slotmap"
  assumes inv: "sm_inv m" and room: "length (sm_slots m) < 2 ^ 32 - 1" and "sm_insert tp m x = (m', Inl e)"
  shows "m' = m \<or> (\<exists>f. f \<in> set (sm_free m) \<and> m' = m\<lparr>sm_slots := (sm_slots m)[unat f :=
     Slot (bump (generation (sm_slots m ! unat f))) (data_index (sm_slots m ! unat f))]\<rparr>)"
proof -
  obtain f m1 where take: "sm_take m = (f, m1)" by fastforce
  note t = sm_take_inv [OF inv room take]
  have came: "f \<in> set (sm_free m)" "sm_slots m1 = sm_slots m" "f = last (sm_free m)" if "sm_free m \<noteq> []"
    using take that by (auto simp: sm_take_def)
  have "m' = m \<or> m' = sm_rollback (sm_free m \<noteq> []) f (m1\<lparr>sm_slots := (sm_slots m1)[unat f :=
       Slot (bump (generation (sm_slots m1 ! unat f))) (data_index (sm_slots m1 ! unat f))]\<rparr>)"
    using assms(3) sm_insert_unfold [OF take t(2), of tp x] by (auto split: if_splits)
  then have *: "m' = m \<or> (sm_free m \<noteq> [] \<and> m' = m\<lparr>sm_slots := (sm_slots m)[unat f :=
       Slot (bump (generation (sm_slots m ! unat f))) (data_index (sm_slots m ! unat f))]\<rparr>)"
    unfolding sm_rollback_state [OF take t(2) room] using came(2,3) by (auto split: if_splits)
  with came(1) show ?thesis by blast
qed


lemma sm_safe_insert:
  fixes m :: "('a, 'g::len word) slotmap"
  assumes safe: "sm_safe n (m, I)" and n: "Suc n < 2 ^ LENGTH('g)"
    and room: "length (sm_slots m) < 2 ^ 32 - 1" and ins: "sm_insert tp m x = (m', r)"
  shows "case r of Inr h \<Rightarrow> sm_safe (Suc n) (m', insert h I) | Inl e \<Rightarrow> sm_safe (Suc n) (m', I)"
proof -
  have inv: "sm_inv m" using safe by (simp add: sm_safe_def)
  obtain f m1 where take: "sm_take m = (f, m1)" by fastforce
  note t = sm_take_inv [OF inv room take]
  show ?thesis
  proof (cases r)
    case (Inr h)
    then have "m' = sm_place f x m1" "h = Handle f (bump (generation (sm_slots m1 ! unat f)))"
      using ins sm_insert_unfold [OF take t(2), of tp x] by (auto split: if_splits)
    with Inr sm_safe_place [OF safe n t sm_take_gens [OF take]] show ?thesis by simp
  next
    case (Inl e)
    have "sm_safe (Suc n) (m', I)"
      using sm_rollback_effect [OF inv room ins [unfolded Inl]]
    proof (elim disjE exE conjE)
      assume "m' = m"
      then show ?thesis using sm_safe_keep [OF safe inv sm_gens_mono_refl] by simp
    next
      fix g :: u32
      let ?s = "Slot (bump (generation (sm_slots m ! unat g))) (data_index (sm_slots m ! unat g))"
      assume g: "g \<in> set (sm_free m)" and m': "m' = m\<lparr>sm_slots := (sm_slots m)[unat g := ?s]\<rparr>"
      have "unat g < length (sm_slots m)" "g \<notin> set (sm_erase_map m)"
        using g sm_inv_except_free [OF inv] by blast+
      moreover from this(1) have "Suc (unat (generation (sm_slots m ! unat g))) < 2 ^ LENGTH('g)"
        using safe n by (auto simp: sm_safe_def dest!: spec [of _ "unat g"])
      ultimately show ?thesis
        unfolding m' using sm_inv_unused_slot [OF inv]
        by (intro sm_safe_undo [OF safe, where xs = "[]" and i = "unat g" and s = ?s])
          (simp_all add: unat_bump)
    qed
    with Inl show ?thesis by simp
  qed
qed

lemma sm_safe_insert_at:
  fixes m :: "('a, 'g::len word) slotmap"
  assumes safe: "sm_safe n (m, I)" and n: "Suc n < 2 ^ LENGTH('g)"
    and room: "length (sm_slots m) < 2 ^ 32 - 1" and hint: "hint \<noteq> no_data"
    and ins: "sm_insert_at tp m hint x = (m', r)"
  shows "case r of Inr h \<Rightarrow> sm_safe (Suc n) (m', insert h I) | Inl e \<Rightarrow> sm_safe (Suc n) (m', I)"
proof -
  have inv: "sm_inv m" using safe by (simp add: sm_safe_def)
  let ?m1 = "sm_at_prepared hint m"
  let ?s = "sm_slots ?m1 ! unat hint"
  note at_eq = sm_insert_at_unfold [OF inv hint, of tp x, unfolded ins]
  show ?thesis
  proof (cases "sm_hint_free hint m")
    case False
    then have "sm_insert tp m x = (m', r)" using at_eq by simp
    then show ?thesis by (rule sm_safe_insert [OF safe n room])
  next
    case True
    note t = sm_inv_at_prepared [OF inv True hint]
    obtain xs where xs: "sm_slots ?m1 = sm_slots m @ xs" "\<forall>x\<in>set xs. generation x = 0"
      using sm_at_prepared_gens by blast
    have "unat (generation ?s) \<le> n" by (rule sm_prepared_gen_bound [OF safe xs t(2)])
    with n have b: "unat (bump (generation ?s)) = Suc (unat (generation ?s))" by (intro unat_bump) simp
    then have gen_back: "bump (generation ?s) - 1 = generation ?s"
      by (auto simp: bump_def unat_eq_zero split: if_splits)
    consider (alloc) "(m', r) = (m, Inl Bad_alloc)"
      | (undone) "m' = ?m1\<lparr>sm_slots := (sm_slots ?m1)[unat hint := Slot (generation ?s) (data_index ?s)],
            sm_free := sm_free ?m1 @ [hint]\<rparr>" "r = Inl Bad_alloc"
      | (placed) "m' = sm_place hint x ?m1" "r = Inr (Handle hint (bump (generation ?s)))"
      using at_eq True by (auto simp: Let_def gen_back split: if_splits)
    then show ?thesis
    proof cases
      case alloc
      then show ?thesis using sm_safe_keep [OF safe inv sm_gens_mono_refl] by simp
    next
      case undone
      then have m': "m' = ?m1\<lparr>sm_free := sm_free ?m1 @ [hint]\<rparr>"
        by (simp add: slot.collapse)
      have "sm_safe (Suc n) (m', I)"
        unfolding m' using sm_inv_give_back [OF t(1,2)] t(3) xs
        by (intro sm_safe_undo [OF safe, where xs = xs and i = "length (sm_slots m @ xs)" and s = ?s])
          (simp_all add: list_update_beyond)
      with undone show ?thesis by simp
    next
      case placed
      then show ?thesis
        using sm_safe_place [OF safe n t sm_at_prepared_gens, of x] by simp
    qed
  qed
qed


lemma sm_safe_erase:
  fixes m :: "('a, 'g::len word) slotmap"
  assumes safe: "sm_safe n (m, I)" and n: "Suc n < 2 ^ LENGTH('g)" and h: "h \<in> I"
    and er: "sm_erase m h = (m', r)"
  shows "sm_safe (Suc n) (m', I) \<and> r = Inr (sm_map m h \<noteq> None) \<and> sm_map m' = (sm_map m)(h := None)"
proof (cases "sm_map m h")
  case None
  have inv: "sm_inv m" and old: "unat (h_index h) < length (sm_slots m)"
    "unat (h_gen h) < unat (generation (sm_slots m ! unat (h_index h)))"
    using safe h None by (auto simp: sm_safe_def)
  then have "\<not> sm_is_valid m h" using sm_inv_except_lengths(2) [OF inv] by (auto simp: sm_is_valid_iff)
  then have "m' = m" "r = Inr False" using er by (simp_all add: sm_erase_invalid)
  then show ?thesis using sm_safe_keep [OF safe inv sm_gens_mono_refl] None by (auto simp: fun_eq_iff)
next
  case (Some x)
  have inv: "sm_inv m" using safe by (simp add: sm_safe_def)
  note v = sm_map_valid [OF inv Some]
  note rm = sm_inv_removed [OF inv v(2)]
  let ?f = "h_index h"
  have m': "m' = (sm_removed ?f m)\<lparr>sm_free := sm_free (sm_removed ?f m) @ [?f]\<rparr>" and r: "r = Inr True"
    using er sm_erase_in_use [OF inv Some] by (simp_all add: sm_removed_def Let_def)
  have idx: "unat ?f < length (sm_slots m)" by (rule sm_inv_except_in_use(1) [OF inv v(2)])
  then have "unat (generation (sm_slots m ! unat ?f)) \<le> n" using safe by (simp add: sm_safe_def)
  with n have g: "unat (bump (generation (sm_slots m ! unat ?f))) = Suc (unat (generation (sm_slots m ! unat ?f)))"
    by (intro unat_bump) simp
  let ?moved = "unat (last (sm_erase_map m))"
  let ?slots1 = "(sm_slots m)[?moved := Slot (generation (sm_slots m ! ?moved)) (data_index (sm_slots m ! unat ?f))]"
  have s': "sm_slots m' = ?slots1[unat ?f := Slot (bump (generation (sm_slots m ! unat ?f))) no_data]"
    by (simp add: m' sm_removed_def Let_def)
  have gen1: "generation (?slots1 ! i) = generation (sm_slots m ! i)" if "i < length (sm_slots m)" for i
    using that by (cases "?moved = i") auto
  have gens: "sm_gens_mono m m'"
  proof -
    have "unat (generation (sm_slots m ! i)) \<le> unat (generation (sm_slots m' ! i))
        \<and> unat (generation (sm_slots m' ! i)) \<le> Suc (unat (generation (sm_slots m ! i)))"
      if "i < length (sm_slots m)" for i
      using g gen1 [OF that] that by (cases "unat ?f = i") (auto simp: s')
    then show ?thesis by (simp add: sm_gens_mono_def s')
  qed
  have inv': "sm_inv m'" unfolding m' by (rule sm_inv_give_back [OF rm])
  have map': "sm_map m' = (sm_map m)(h := None)" using sm_map_removed [OF inv Some] by (simp add: m')
  have "sm_safe (Suc n) (m', I)"
  proof (rule sm_safe_keep [OF safe inv' gens])
    fix k
    assume k: "k \<in> I" "sm_map m k \<noteq> None"
    show "sm_map m' k \<noteq> None \<or> unat (h_gen k) < unat (generation (sm_slots m' ! unat (h_index k)))"
    proof (cases "k = h")
      case True
      with v(3) g idx show ?thesis by (simp add: s')
    next
      case False
      with k map' show ?thesis by simp
    qed
  qed
  with r map' Some show ?thesis by simp
qed

lemma sm_safe_clear:
  fixes m :: "('a, 'g::len word) slotmap"
  assumes safe: "sm_safe n (m, I)" and n: "Suc n < 2 ^ LENGTH('g)"
  shows "sm_safe (Suc n) (sm_clear m, I)"
proof -
  have inv: "sm_inv m" using safe by (simp add: sm_safe_def)
  have g: "unat (bump (generation (sm_slots m ! i))) = Suc (unat (generation (sm_slots m ! i)))"
    if "i < length (sm_slots m)" for i
  proof -
    have "unat (generation (sm_slots m ! i)) \<le> n" using safe that by (simp add: sm_safe_def)
    with n show ?thesis by (intro unat_bump) simp
  qed
  have slots: "sm_slots (sm_clear m) = map (\<lambda>s. Slot (bump (generation s)) no_data) (sm_slots m)"
    by (simp add: sm_clear_def)
  have gens: "sm_gens_mono m (sm_clear m)" unfolding sm_gens_mono_def slots by (simp add: g)
  show ?thesis
  proof (rule sm_safe_keep [OF safe sm_inv_clear(1) [OF inv] gens])
    fix h
    assume "sm_map m h \<noteq> None"
    then obtain x where "sm_map m h = Some x" by blast
    note v = sm_map_valid [OF inv this]
    show "sm_map (sm_clear m) h \<noteq> None \<or>
        unat (h_gen h) < unat (generation (sm_slots (sm_clear m) ! unat (h_index h)))"
      using v(3) sm_inv_except_in_use(1) [OF inv v(2)] by (simp add: slots g flip: v(3))
  qed
qed

lemma sm_safe_step:
  fixes s :: "('a, 'g::len word) slotmap \<times> 'g word slot_handle set"
  assumes "sm_step s t" and "sm_safe n s" and "Suc n < 2 ^ LENGTH('g)"
  shows "sm_safe (Suc n) t"
  using assms
proof (cases rule: sm_step.cases)
  case (insert m tp x m' h I)
  with sm_safe_insert [OF _ assms(3), of m I tp x m' "Inr h"] assms(2) show ?thesis by simp
next
  case (insert_throws m tp x m' e I)
  with sm_safe_insert [OF _ assms(3), of m I tp x m' "Inl e"] assms(2) show ?thesis by simp
next
  case (insert_at m hint tp x m' h I)
  with sm_safe_insert_at [OF _ assms(3), of m I hint tp x m' "Inr h"] assms(2) show ?thesis by simp
next
  case (insert_at_throws m hint tp x m' e I)
  with sm_safe_insert_at [OF _ assms(3), of m I hint tp x m' "Inl e"] assms(2) show ?thesis by simp
next
  case (erase h I m m' r)
  with sm_safe_erase [OF _ assms(3)] assms(2) show ?thesis by blast
next
  case (clear m I)
  with sm_safe_clear [OF _ assms(3)] assms(2) show ?thesis by blast
qed

lemma sm_safe_run:
  fixes s :: "('a, 'g::len word) slotmap \<times> 'g word slot_handle set"
  assumes "sm_run s n t" and "sm_safe k s" and "k + n < 2 ^ LENGTH('g)"
  shows "sm_safe (k + n) t"
  using assms by (induction rule: sm_run.induct) (auto intro: sm_safe_step)

lemma sm_safe_start: "sm_safe 0 sm_start"
  by (simp add: sm_safe_def sm_start_def sm_inv_empty) (simp add: sm_empty_def)

section \<open>Effect of the operations on the abstract map\<close>

lemma sm_insert_effect:
  fixes m :: "('a, 'g::len word) slotmap"
  assumes inv: "sm_inv m" and room: "length (sm_slots m) < 2 ^ 32 - 1" and ins: "sm_insert tp m x = (m', r)"
  shows "case r of Inr h \<Rightarrow> sm_inv m' \<and> sm_map m' = (sm_map m)(h \<mapsto> x)
    | Inl e \<Rightarrow> sm_inv m' \<and> sm_map m' = sm_map m \<and> e = Bad_alloc \<and> tp \<noteq> No_throw"
proof -
  obtain f m1 where take: "sm_take m = (f, m1)" by fastforce
  note t = sm_take_inv [OF inv room take]
  note u = sm_insert_unfold [OF take t(2), of tp x, unfolded ins]
  show ?thesis
  proof (cases r)
    case (Inr h)
    then have "m' = sm_place f x m1" "h = Handle f (bump (generation (sm_slots m1 ! unat f)))"
      using u by (auto split: if_splits)
    with Inr sm_inv_place [OF t(1,2), of x] sm_map_place [OF t(1,2), of x] t(3) show ?thesis by simp
  next
    case (Inl e)
    then have e: "e = Bad_alloc" "tp \<noteq> No_throw" using u by (auto split: if_splits)
    have "sm_inv m' \<and> sm_map m' = sm_map m"
      using sm_rollback_effect [OF inv room ins [unfolded Inl]]
    proof (elim disjE exE conjE)
      fix g :: u32
      assume g: "g \<in> set (sm_free m)" and m': "m' = m\<lparr>sm_slots := (sm_slots m)[unat g :=
        Slot (bump (generation (sm_slots m ! unat g))) (data_index (sm_slots m ! unat g))]\<rparr>"
      then show ?thesis
        unfolding m' using sm_inv_unused_slot [OF inv] sm_inv_except_free(3) [OF inv g] by blast
    qed (use inv in simp)
    with Inl e show ?thesis by simp
  qed
qed

lemma sm_insert_at_effect:
  fixes m :: "('a, 'g::len word) slotmap"
  assumes inv: "sm_inv m" and room: "length (sm_slots m) < 2 ^ 32 - 1" and hint: "hint \<noteq> no_data"
    and ins: "sm_insert_at tp m hint x = (m', r)"
  shows "case r of Inr h \<Rightarrow> sm_inv m' \<and> sm_map m' = (sm_map m)(h \<mapsto> x)
      \<and> (sm_hint_free hint m \<longrightarrow> h_index h = hint)
    | Inl e \<Rightarrow> sm_inv m' \<and> sm_map m' = sm_map m \<and> e = Bad_alloc \<and> tp \<noteq> No_throw"
proof (cases "sm_hint_free hint m")
  case False
  then have "sm_insert tp m x = (m', r)" using sm_insert_at_unfold [OF inv hint, of tp x] ins by simp
  from sm_insert_effect [OF inv room this] False show ?thesis by (simp split: sum.splits)
next
  case True
  let ?m1 = "sm_at_prepared hint m"
  let ?s = "sm_slots ?m1 ! unat hint"
  note t = sm_inv_at_prepared [OF inv True hint]
  consider (alloc) "(m', r) = (m, Inl Bad_alloc)" "tp \<noteq> No_throw"
    | (undone) "m' = ?m1\<lparr>sm_slots := (sm_slots ?m1)[unat hint := Slot (bump (generation ?s) - 1) (data_index ?s)],
          sm_free := sm_free ?m1 @ [hint]\<rparr>" "r = Inl Bad_alloc" "tp \<noteq> No_throw"
    | (placed) "m' = sm_place hint x ?m1" "r = Inr (Handle hint (bump (generation ?s)))"
    using sm_insert_at_unfold [OF inv hint, of tp x] ins True by (auto simp: Let_def split: if_splits)
  then show ?thesis
  proof cases
    case alloc
    then show ?thesis using inv by simp
  next
    case undone
    have "hint \<notin> set (sm_erase_map ?m1)" using t(1) by (auto simp: sm_inv_except_def)
    note k = sm_inv_unused_slot [OF t(1) this, of "Slot (bump (generation ?s) - 1) (data_index ?s)"]
    have "sm_inv m'" using sm_inv_give_back [OF k(1)] t(2) undone(1) by simp
    moreover have "sm_map m' = sm_map m" using k(2) t(3) by (simp add: undone(1))
    ultimately show ?thesis using undone by simp
  next
    case placed
    then show ?thesis using sm_inv_place [OF t(1,2), of x] sm_map_place [OF t(1,2), of x] t(3) by simp
  qed
qed

text \<open>A handle that an operation issues has never been issued before.\<close>

lemma sm_prepared_fresh:
  fixes m :: "('a, 'g::len word) slotmap"
  assumes safe: "sm_safe n (m, I)" and n: "Suc n < 2 ^ LENGTH('g)"
    and slots: "\<exists>xs. sm_slots m1 = sm_slots m @ xs \<and> (\<forall>x\<in>set xs. generation x = 0)"
    and f: "unat f < length (sm_slots m1)"
  shows "Handle f (bump (generation (sm_slots m1 ! unat f))) \<notin> I"
proof
  let ?h = "Handle f (bump (generation (sm_slots m1 ! unat f)))"
  assume "?h \<in> I"
  then have h: "unat f < length (sm_slots m)"
    "sm_map m ?h \<noteq> None \<or> unat (h_gen ?h) < unat (generation (sm_slots m ! unat f))"
    using safe by (auto simp: sm_safe_def)
  have same: "sm_slots m1 ! unat f = sm_slots m ! unat f" using slots h(1) by (auto simp: nth_append)
  have "unat (generation (sm_slots m ! unat f)) \<le> n" using safe h(1) by (simp add: sm_safe_def)
  with n have "unat (bump (generation (sm_slots m ! unat f))) = Suc (unat (generation (sm_slots m ! unat f)))"
    by (intro unat_bump) simp
  with h(2) same show False by (auto simp: sm_map_def split: if_splits)
qed

lemma sm_insert_fresh:
  fixes m :: "('a, 'g::len word) slotmap"
  assumes safe: "sm_safe n (m, I)" and n: "Suc n < 2 ^ LENGTH('g)"
    and room: "length (sm_slots m) < 2 ^ 32 - 1" and ins: "sm_insert tp m x = (m', Inr h)"
  shows "h \<notin> I"
proof -
  have inv: "sm_inv m" using safe by (simp add: sm_safe_def)
  obtain f m1 where take: "sm_take m = (f, m1)" by fastforce
  note t = sm_take_inv [OF inv room take]
  have "h = Handle f (bump (generation (sm_slots m1 ! unat f)))"
    using sm_insert_unfold [OF take t(2), of tp x] ins by (auto split: if_splits)
  then show ?thesis using sm_prepared_fresh [OF safe n sm_take_gens [OF take] t(2)] by simp
qed

lemma sm_insert_at_fresh:
  fixes m :: "('a, 'g::len word) slotmap"
  assumes safe: "sm_safe n (m, I)" and n: "Suc n < 2 ^ LENGTH('g)"
    and room: "length (sm_slots m) < 2 ^ 32 - 1" and hint: "hint \<noteq> no_data"
    and ins: "sm_insert_at tp m hint x = (m', Inr h)"
  shows "h \<notin> I"
proof -
  have inv: "sm_inv m" using safe by (simp add: sm_safe_def)
  note u = sm_insert_at_unfold [OF inv hint, of tp x, unfolded ins]
  show ?thesis
  proof (cases "sm_hint_free hint m")
    case False
    with u have "sm_insert tp m x = (m', Inr h)" by simp
    then show ?thesis by (rule sm_insert_fresh [OF safe n room])
  next
    case True
    let ?m1 = "sm_at_prepared hint m"
    have "h = Handle hint (bump (generation (sm_slots ?m1 ! unat hint)))"
      using u True by (auto simp: Let_def split: if_splits)
    then show ?thesis
      using sm_prepared_fresh [OF safe n sm_at_prepared_gens sm_inv_at_prepared(2) [OF inv True hint]] by simp
  qed
qed

text \<open>An issued handle that has left the map does not come back.\<close>

lemma sm_step_stale:
  fixes m :: "('a, 'g::len word) slotmap"
  assumes st: "sm_step (m, I) (m', I')" and safe: "sm_safe n (m, I)" and n: "Suc n < 2 ^ LENGTH('g)"
    and h: "h \<in> I" and stale: "sm_map m h = None"
  shows "sm_map m' h = None"
proof -
  have inv: "sm_inv m" using safe by (simp add: sm_safe_def)
  from st show ?thesis
  proof (cases rule: sm_step.cases)
    case (insert tp x k)
    with sm_insert_effect [OF inv insert(2,3)] sm_insert_fresh [OF safe n insert(2,3)] h stale
    show ?thesis by auto
  next
    case (insert_throws tp x e)
    with sm_insert_effect [OF inv insert_throws(2,3)] stale show ?thesis by simp
  next
    case (insert_at hint tp x k)
    with sm_insert_at_effect [OF inv insert_at(2,3,4)] sm_insert_at_fresh [OF safe n insert_at(2,3,4)] h stale
    show ?thesis by auto
  next
    case (insert_at_throws hint tp x e)
    with sm_insert_at_effect [OF inv insert_at_throws(2,3,4)] stale show ?thesis by simp
  next
    case (erase k r)
    with sm_safe_erase [OF safe n erase(2,3)] stale show ?thesis by simp
  next
    case clear
    then show ?thesis using sm_inv_clear(2) [OF inv] by simp
  qed
qed

lemma sm_step_issued: "sm_step s t \<Longrightarrow> snd s \<subseteq> snd t"
  by (cases rule: sm_step.cases) auto

lemma sm_run_issued: "sm_run s k t \<Longrightarrow> snd s \<subseteq> snd t"
  by (induction rule: sm_run.induct) (use sm_step_issued in blast)+

lemma sm_run_stale:
  fixes s :: "('a, 'g::len word) slotmap \<times> 'g word slot_handle set"
  assumes "sm_run s k t" and "sm_safe n s" and "n + k < 2 ^ LENGTH('g)"
    and "h \<in> snd s" and "sm_map (fst s) h = None"
  shows "sm_map (fst t) h = None"
  using assms
proof (induction rule: sm_run.induct)
  case (none s)
  then show ?case by simp
next
  case (step s k t u)
  then have "sm_safe (n + k) t" "h \<in> snd t" "sm_map (fst t) h = None"
    using sm_safe_run [OF step.hyps(1)] sm_run_issued [OF step.hyps(1)] by auto
  with sm_step_stale [of "fst t" "snd t" "fst u" "snd u" "n + k" h] step show ?case by simp
qed

text \<open>What the accessors answer for a handle of a safe state.\<close>

lemma sm_safe_access:
  fixes m :: "('a, 'g::len word) slotmap"
  assumes safe: "sm_safe n (m, I)" and h: "h \<in> I"
  shows "sm_is_valid m h \<longleftrightarrow> sm_map m h \<noteq> None"
    and "sm_get m h = Inr (sm_map m h)"
    and "sm_at m h = (case sm_map m h of None \<Rightarrow> Inl Out_of_range | Some x \<Rightarrow> Inr x)"
proof -
  have inv: "sm_inv m" using safe by (simp add: sm_safe_def)
  have *: "(sm_is_valid m h \<longleftrightarrow> sm_map m h \<noteq> None) \<and> sm_get m h = Inr (sm_map m h)
    \<and> sm_at m h = (case sm_map m h of None \<Rightarrow> Inl Out_of_range | Some x \<Rightarrow> Inr x)"
  proof (cases "sm_map m h")
    case None
    then have "unat (h_gen h) < unat (generation (sm_slots m ! unat (h_index h)))"
      using safe h by (auto simp: sm_safe_def)
    then have "\<not> sm_is_valid m h" using sm_inv_except_lengths(2) [OF inv] by (auto simp: sm_is_valid_iff)
    with None show ?thesis by (simp add: sm_get_def sm_at_def)
  next
    case (Some x)
    note v = sm_map_valid [OF inv Some]
    have "unat (data_index (sm_slots m ! unat (h_index h))) < length (sm_data m)"
      by (rule sm_inv_except_in_use(2) [OF inv v(2)])
    with Some v show ?thesis by (simp add: sm_get_def sm_at_def vec_get_def sm_map_def split: if_splits)
  qed
  then show "sm_is_valid m h \<longleftrightarrow> sm_map m h \<noteq> None"
    and "sm_get m h = Inr (sm_map m h)"
    and "sm_at m h = (case sm_map m h of None \<Rightarrow> Inl Out_of_range | Some x \<Rightarrow> Inr x)" by blast+
qed

section \<open>The slot map as a store of handles\<close>

definition sm_put :: "('a, 'g::len word) slotmap \<Rightarrow> 'a \<Rightarrow> ('a, 'g word) slotmap \<times> 'g word slot_handle" where
  "sm_put m x = (case sm_insert No_throw m x of (m', r) \<Rightarrow>
     (m', case r of Inr h \<Rightarrow> h | Inl e \<Rightarrow> Handle 0 0))"

definition sm_room :: "nat \<Rightarrow> ('a, 'g::len word) slotmap \<Rightarrow> bool" where
  "sm_room n m \<longleftrightarrow> length (sm_slots m) + n < 2 ^ 32"

lemma sm_take_unused:
  assumes inv: "sm_inv m" and room: "length (sm_slots m) < 2 ^ 32 - 1" and take: "sm_take m = (f, m1)"
  shows "f \<notin> set (sm_erase_map m)" "length (sm_slots m1) \<le> Suc (length (sm_slots m))"
proof -
  have "f \<notin> set (sm_erase_map m1)" using sm_take_inv(1) [OF inv room take] by (auto simp: sm_inv_except_def)
  then show "f \<notin> set (sm_erase_map m)" using take by (auto simp: sm_take_def split: if_splits)
  show "length (sm_slots m1) \<le> Suc (length (sm_slots m))" using take by (auto simp: sm_take_def split: if_splits)
qed

lemma sm_insert_ok:
  assumes inv: "sm_inv m" and room: "length (sm_slots m) < 2 ^ 32 - 1"
  obtains m' h where "sm_insert No_throw m x = (m', Inr h)" "sm_insert_fast m x = (m', Inr h)"
    "sm_inv m'" "sm_map m h = None" "sm_map m' = (sm_map m)(h \<mapsto> x)"
    "length (sm_slots m') \<le> Suc (length (sm_slots m))"
proof -
  obtain f m1 where take: "sm_take m = (f, m1)" by fastforce
  note t = sm_take_inv [OF inv room take] and u = sm_take_unused [OF inv room take]
  let ?h = "Handle f (bump (generation (sm_slots m1 ! unat f)))"
  have "sm_insert No_throw m x = (sm_place f x m1, Inr ?h)" "sm_insert_fast m x = (sm_place f x m1, Inr ?h)"
    using sm_insert_unfold [OF take t(2)] sm_insert_fast_unfold [OF take t(2)] by simp_all
  moreover have "sm_map m ?h = None" using u(1) by (simp add: sm_map_def)
  moreover have "length (sm_slots (sm_place f x m1)) \<le> Suc (length (sm_slots m))"
    using u(2) by (simp add: sm_place_def)
  ultimately show ?thesis
    using that sm_inv_place [OF t(1,2), of x] sm_map_place [OF t(1,2), of x] t(3) by metis
qed

lemma sm_put_spec:
  assumes inv: "sm_inv m" and room: "sm_room (Suc n) m" and put: "sm_put m x = (m', h)"
  shows "sm_inv m' \<and> sm_room n m' \<and> sm_map m h = None \<and> sm_map m' = (sm_map m)(h \<mapsto> x)"
proof -
  have "length (sm_slots m) < 2 ^ 32 - 1" using room by (simp add: sm_room_def)
  from sm_insert_ok [OF inv this, of x] obtain m1 h1 where i: "sm_insert No_throw m x = (m1, Inr h1)"
    "sm_inv m1" "sm_map m h1 = None" "sm_map m1 = (sm_map m)(h1 \<mapsto> x)"
    "length (sm_slots m1) \<le> Suc (length (sm_slots m))" by blast
  with put have "m' = m1" "h = h1" by (simp_all add: sm_put_def)
  with i room show ?thesis by (simp add: sm_room_def)
qed

lemma sm_erase_effect:
  assumes inv: "sm_inv m" and h: "sm_map m h \<noteq> None"
  shows "sm_inv (fst (sm_erase m h))" "sm_map (fst (sm_erase m h)) = (sm_map m)(h := None)"
proof -
  obtain x where x: "sm_map m h = Some x" using h by blast
  note v = sm_map_valid [OF inv x]
  have "sm_erase m h = ((sm_removed (h_index h) m)\<lparr>sm_free := sm_free (sm_removed (h_index h) m) @ [h_index h]\<rparr>, Inr True)"
    using sm_erase_in_use [OF inv x] by (simp add: sm_removed_def Let_def)
  with sm_inv_give_back [OF sm_inv_removed [OF inv v(2)]] sm_map_removed [OF inv x]
  show "sm_inv (fst (sm_erase m h))" "sm_map (fst (sm_erase m h)) = (sm_map m)(h := None)" by simp_all
qed

interpretation slot_store: handle_store sm_inv sm_room sm_map sm_put "\<lambda>m h. fst (sm_erase m h)"
proof unfold_locales
  fix m m' :: "('a, 'b word) slotmap" and n x h
  assume "sm_inv m" and "sm_room (Suc n) m" and "sm_put m x = (m', h)"
  note p = sm_put_spec [OF this]
  show "sm_inv m' \<and> sm_room n m'" and "sm_map m h = None" and "sm_map m' = (sm_map m)(h \<mapsto> x)"
    using p by simp_all
qed (fact sm_erase_effect)+

lemma sm_get_map:
  assumes inv: "sm_inv m" and x: "sm_map m h = Some x"
  shows "sm_get m h = Inr (Some x)"
proof -
  note v = sm_map_valid [OF inv x]
  have "sm_data m ! unat (data_index (sm_slots m ! unat (h_index h))) = x"
    using x by (simp add: sm_map_def split: if_splits)
  with v(1) sm_inv_except_in_use(2) [OF inv v(2)] show ?thesis by (simp add: sm_get_def)
qed

text \<open>\<open>entries()\<close> lists the abstract map.\<close>

lemma sm_entries_eq:
  assumes "sm_inv m"
  shows "sm_entries m = map (\<lambda>i. (Handle (sm_erase_map m ! i) (generation (sm_slots m ! unat (sm_erase_map m ! i))),
    sm_data m ! i)) [0..<length (sm_data m)]"
  using sm_inv_except_fewer(2) [OF assms]
  by (simp add: sm_entries_def sm_entry_def sm_size_def unat_of_nat_u32 Let_def)

lemma sm_entry_in_map:
  assumes inv: "sm_inv m"
  shows "(h, x) \<in> set (sm_entries m) \<longleftrightarrow> sm_map m h = Some x"
proof
  assume "(h, x) \<in> set (sm_entries m)"
  then obtain i where i: "i < length (sm_data m)" "x = sm_data m ! i"
    "h = Handle (sm_erase_map m ! i) (generation (sm_slots m ! unat (sm_erase_map m ! i)))"
    by (auto simp: sm_entries_eq [OF inv])
  then show "sm_map m h = Some x"
    using sm_inv_except_dense(2) [OF inv i(1)] sm_inv_except_lengths(1) [OF inv] by (simp add: sm_map_def)
next
  assume x: "sm_map m h = Some x"
  note v = sm_map_valid [OF inv x]
  let ?i = "unat (data_index (sm_slots m ! unat (h_index h)))"
  have "?i < length (sm_data m)" "sm_erase_map m ! ?i = h_index h"
    using sm_inv_except_in_use [OF inv v(2)] by blast+
  moreover have "(h, x) = (Handle (sm_erase_map m ! ?i) (generation (sm_slots m ! unat (sm_erase_map m ! ?i))), sm_data m ! ?i)"
    using v(3) x calculation(2) by (cases h) (auto simp: sm_map_def split: if_splits)
  ultimately show "(h, x) \<in> set (sm_entries m)" unfolding sm_entries_eq [OF inv] by force
qed

lemma sm_entries_distinct:
  assumes inv: "sm_inv m"
  shows "distinct (map fst (sm_entries m))"
  using sm_inv_except_distinct [OF inv] sm_inv_except_lengths(1) [OF inv]
  by (auto simp: sm_entries_eq [OF inv] distinct_map inj_on_def nth_eq_iff_index_eq)

section \<open>Properties\<close>


text \<open>A map with one element that was erased again, and its stale handle.\<close>

definition sm_one_erased :: "(nat, 8 word) slotmap" where
  "sm_one_erased = \<lparr>sm_data = [], sm_erase_map = [], sm_slots = [Slot 2 no_data], sm_free = [0]\<rparr>"

lemma sm_one_erased_run: "sm_run sm_start 2 (sm_one_erased, {Handle 0 1})"
proof -
  let ?m1 = "\<lparr>sm_data = [7], sm_erase_map = [0], sm_slots = [Slot 1 0], sm_free = []\<rparr> :: (nat, 8 word) slotmap"
  have i: "sm_insert No_throw (sm_empty :: (nat, 8 word) slotmap) 7 = (?m1, Inr (Handle 0 1))"
    by (simp add: sm_insert_def sm_empty_def bump_def fresh_slot_def)
  have e: "sm_erase ?m1 (Handle 0 1) = (sm_one_erased, Inr True)"
    by (simp add: sm_erase_def sm_is_valid_def sm_one_erased_def bump_def)
  have "sm_run sm_start (Suc 0) (?m1, {Handle 0 1})"
    by (rule sm_run.step [OF sm_run.none]) (use sm_step.insert [OF _ i, of "{}"] in \<open>simp add: sm_start_def sm_empty_def\<close>)
  then have "sm_run sm_start (Suc (Suc 0)) (sm_one_erased, {Handle 0 1})"
    by (rule sm_run.step) (use sm_step.erase [OF _ e, of "{Handle 0 1}"] in simp)
  then show ?thesis by (simp add: numeral_2_eq_2)
qed


text \<open>C3: once a handle has been answered with a null pointer it is answered so for ever: whatever
  the program does next, no later element is reached through it, as long as the number of
  operations stays below the range of the generation counter.\<close>

theorem slot_map_stale_for_ever:
  fixes m :: "('a, 'g::len word) slotmap"
  assumes "sm_run sm_start n (m, I)" and "sm_run (m, I) k (m', I')" and "n + k < 2 ^ LENGTH('g)"
    and "h \<in> I" and "sm_get m h = Inr None"
  shows "\<not> sm_is_valid m' h \<and> sm_get m' h = Inr None"
proof -
  have safe: "sm_safe n (m, I)" using sm_safe_run [OF assms(1) sm_safe_start] assms(3) by simp
  have safe': "sm_safe (n + k) (m', I')" by (rule sm_safe_run [OF assms(2) safe assms(3)])
  have I: "h \<in> I'" using sm_run_issued [OF assms(2)] assms(4) by auto
  have "sm_map m h = None" using sm_safe_access(2) [OF safe assms(4)] assms(5) by simp
  then have "sm_map m' h = None" using sm_run_stale [OF assms(2) safe assms(3), of h] assms(4) by simp
  with sm_safe_access(1,2) [OF safe' I] show ?thesis by simp
qed

lemma slot_map_stale_for_ever_witness:
  "\<not> sm_is_valid (sm_clear sm_one_erased) (Handle 0 1)
   \<and> sm_get (sm_clear sm_one_erased) (Handle 0 1) = Inr None"
proof -
  have c: "sm_run (sm_one_erased, {Handle 0 1}) (Suc 0) (sm_clear sm_one_erased, {Handle 0 1})"
    by (rule sm_run.step [OF sm_run.none sm_step.clear])
  have "sm_get sm_one_erased (Handle 0 1) = Inr None"
    by (simp add: sm_get_def sm_is_valid_def sm_one_erased_def)
  with slot_map_stale_for_ever [OF sm_one_erased_run c, of "Handle 0 1"] show ?thesis by simp
qed



text \<open>\<open>insert_at\<close> honours its hint exactly when the slot test of the code finds the slot free or
  the hint lies beyond the slots so far: the handle returned then has the hint as its index.
  Either way the handle leads to the element and every other element stays; and a slot in use is
  never taken for free.\<close>

theorem slot_map_insert_at_honours_free_hint:
  fixes m :: "('a, 'g::len word) slotmap"
  assumes inv: "sm_inv m" and room: "length (sm_slots m) < 2 ^ 32 - 1" and hint: "hint \<noteq> no_data"
  shows "\<exists>m' h. sm_insert_at No_throw m hint x = (m', Inr h) \<and> sm_inv m'
    \<and> sm_map m' = (sm_map m)(h \<mapsto> x) \<and> sm_get m' h = Inr (Some x)
    \<and> (sm_hint_free hint m \<longrightarrow> h_index h = hint)
    \<and> (hint \<in> set (sm_erase_map m) \<longrightarrow> h_index h \<noteq> hint)"
proof -
  obtain m' r where i: "sm_insert_at No_throw m hint x = (m', r)" by fastforce
  note e = sm_insert_at_effect [OF inv room hint i]
  then obtain h where r: "r = Inr h" by (cases r) auto
  with e have m': "sm_inv m'" "sm_map m' = (sm_map m)(h \<mapsto> x)" by simp_all
  have "h_index h \<noteq> hint" if used: "hint \<in> set (sm_erase_map m)"
  proof -
    have "\<not> sm_hint_free hint m" using sm_hint_free_unused [OF inv] used by blast
    then have ins: "sm_insert No_throw m x = (m', Inr h)"
      using sm_insert_at_unfold [OF inv hint, of No_throw x] i r by simp
    obtain f m1 where take: "sm_take m = (f, m1)" by fastforce
    have "h_index h = f"
      using sm_insert_unfold [OF take sm_take_inv(2) [OF inv room take], of No_throw x] ins by auto
    with sm_take_unused(1) [OF inv room take] used show ?thesis by blast
  qed
  moreover have "sm_get m' h = Inr (Some x)" by (rule sm_get_map [OF m'(1)]) (simp add: m'(2))
  ultimately show ?thesis using e r m' i by auto
qed

lemma slot_map_insert_at_honours_free_hint_witness:
  "\<exists>m' h. sm_insert_at No_throw sm_one_erased 4 9 = (m', Inr h) \<and> h_index h = 4 \<and> sm_get m' h = Inr (Some 9)"
proof -
  have "sm_inv sm_one_erased"
    using sm_safe_run [OF sm_one_erased_run sm_safe_start] by (simp add: sm_safe_def)
  moreover have "sm_hint_free 4 sm_one_erased" by (simp add: sm_hint_free_def sm_one_erased_def)
  moreover have "length (sm_slots sm_one_erased) < 2 ^ 32 - 1" "(4 :: u32) \<noteq> no_data"
    by (simp_all add: sm_one_erased_def no_data_def)
  ultimately show ?thesis
    using slot_map_insert_at_honours_free_hint [of sm_one_erased 4 9] by blast
qed

text \<open>Storing a list of values one after the other gives pairwise different handles; all of
  them lead to their values at the end, although the dense array was moved and slots reused, and
  so do all the handles that led to an element before.\<close>

theorem slot_map_put_all_get_all:
  fixes m :: "('a, 'g::len word) slotmap"
  assumes inv: "sm_inv m" and room: "sm_room (length vs) m" and put: "slot_store.put_all m vs = (m', hs)"
  shows "distinct hs \<and> map (sm_get m') hs = map (\<lambda>v. Inr (Some v)) vs
    \<and> (\<forall>h. sm_map m h \<noteq> None \<longrightarrow> sm_get m' h = sm_get m h)"
proof -
  note p = slot_store.put_all_spec [OF inv room put]
  then have len: "length hs = length vs" and d: "distinct hs" and inv': "sm_inv m'"
    and map': "sm_map m' = sm_map m ++ map_of (zip hs vs)" by blast+
  have "sm_get m' (hs ! i) = Inr (Some (vs ! i))" if "i < length hs" for i
  proof -
    have "map_of (zip hs vs) (hs ! i) = Some (vs ! i)" using that len d by (simp add: map_of_zip_nth)
    then have "sm_map m' (hs ! i) = Some (vs ! i)" by (simp add: map')
    then show ?thesis by (rule sm_get_map [OF inv'])
  qed
  then have "map (sm_get m') hs = map (\<lambda>v. Inr (Some v)) vs" using len by (intro nth_equalityI) simp_all
  moreover have "sm_get m' h = sm_get m h" if h: "sm_map m h \<noteq> None" for h
  proof -
    obtain x where x: "sm_map m h = Some x" using h by blast
    have "h \<notin> set hs" using p h by auto
    then have "map_of (zip hs vs) h = None" using len by (simp add: map_of_zip_is_None)
    then have "sm_map m' h = Some x" by (simp add: map' map_add_def x)
    then show ?thesis using sm_get_map [OF inv' \<open>sm_map m' h = Some x\<close>] sm_get_map [OF inv x] by simp
  qed
  ultimately show ?thesis using d by blast
qed

lemma slot_map_put_all_get_all_witness:
  "map (sm_get (fst (slot_store.put_all sm_one_erased [4, 5, 6])))
     (snd (slot_store.put_all sm_one_erased [4, 5, 6])) = [Inr (Some 4), Inr (Some 5), Inr (Some 6)]"
proof -
  have "sm_inv sm_one_erased"
    using sm_safe_run [OF sm_one_erased_run sm_safe_start] by (simp add: sm_safe_def)
  moreover have "sm_room (length [4, 5, 6::nat]) sm_one_erased" by (simp add: sm_room_def sm_one_erased_def)
  ultimately have "map (sm_get (fst (slot_store.put_all sm_one_erased [4, 5, 6])))
     (snd (slot_store.put_all sm_one_erased [4, 5, 6])) = map (\<lambda>v. Inr (Some v)) [4, 5, 6]"
    using slot_map_put_all_get_all [OF _ _ surjective_pairing] by blast
  then show ?thesis by simp
qed

text \<open>Iteration over the entries visits every element of the map exactly once, with the handle
  that leads to it.\<close>

theorem slot_map_entries_enumerate:
  assumes "sm_inv m"
  shows "distinct (map fst (sm_entries m)) \<and> (\<forall>h x. (h, x) \<in> set (sm_entries m) \<longleftrightarrow> sm_map m h = Some x)
    \<and> unat (sm_size m) = card (dom (sm_map m))"
proof -
  have "dom (sm_map m) = set (map fst (sm_entries m))"
    using sm_entry_in_map [OF assms] by (auto simp: dom_def image_iff) (metis fst_conv)
  then have "card (dom (sm_map m)) = length (sm_entries m)"
    using distinct_card [OF sm_entries_distinct [OF assms]] by simp
  moreover have "length (sm_entries m) = unat (sm_size m)" by (simp add: sm_entries_def)
  ultimately show ?thesis using sm_entry_in_map [OF assms] sm_entries_distinct [OF assms] by simp
qed

lemma slot_map_entries_enumerate_witness: "unat (sm_size sm_one_erased) = card (dom (sm_map sm_one_erased))"
proof -
  have "sm_inv sm_one_erased"
    using sm_safe_run [OF sm_one_erased_run sm_safe_start] by (simp add: sm_safe_def)
  from slot_map_entries_enumerate [OF this] show ?thesis by blast
qed

section \<open>Where the promises end\<close>

text \<open>C5: a null handle can be valid.  After insert_at into an empty map with any hint but 0, slot 0
  has the generation 0 of a slot never used, so the default-constructed handle, for which is_null
  holds, passes the validity test, leads to the element of another handle, and erasing it removes
  that element.\<close>

theorem slot_map_null_handle_valid:
  fixes x :: 'a
  assumes hint: "hint \<noteq> 0" "hint \<noteq> no_data"
  shows "\<exists>m h m'. sm_insert_at No_throw (sm_empty :: ('a, 'g::len word) slotmap) hint x = (m, Inr h)
    \<and> h \<noteq> Handle 0 0 \<and> sm_get m h = Inr (Some x)
    \<and> is_null (Handle 0 0 :: 'g word slot_handle) \<and> sm_is_valid m (Handle 0 0)
    \<and> sm_erase m (Handle 0 0) = (m', Inr True) \<and> sm_size m' = 0"
proof -
  let ?m1 = "sm_at_prepared hint (sm_empty :: ('a, 'g word) slotmap)"
  let ?m = "sm_place hint x ?m1"
  let ?h = "Handle hint (bump (generation (sm_slots ?m1 ! unat hint)))"
  have n: "0 < unat hint" using hint(1) by (simp add: unat_gt_0)
  have free: "sm_hint_free hint (sm_empty :: ('a, 'g word) slotmap)" by (simp add: sm_hint_free_def sm_empty_def)
  have inv: "sm_inv (sm_empty :: ('a, 'g word) slotmap)" by (rule sm_inv_empty)
  note t = sm_inv_at_prepared [OF inv free hint(2)]
  have i: "sm_insert_at No_throw (sm_empty :: ('a, 'g word) slotmap) hint x = (?m, Inr ?h)"
    using sm_insert_at_unfold [OF inv hint(2), of No_throw x] free by (simp add: Let_def)
  have get: "sm_get ?m ?h = Inr (Some x)"
    by (rule sm_get_map [OF sm_inv_place [OF t(1,2)]]) (simp add: sm_map_place [OF t(1,2)])
  have slots: "sm_slots ?m ! 0 = Slot 0 no_data" "0 < length (sm_slots ?m)" "length (sm_slots ?m) = Suc (unat hint)"
    using n by (simp_all add: sm_place_def sm_at_prepared_def sm_extend_def sm_empty_def nth_append)
  have len: "length (sm_slots ?m) < 2 ^ 32" using sm_inv_except_lengths(2) [OF sm_inv_place [OF t(1,2)]] .
  have data: "sm_data ?m = [x]" "sm_erase_map ?m = [hint]"
    by (simp_all add: sm_place_def sm_at_prepared_def sm_extend_def sm_empty_def)
  have v: "sm_is_valid ?m (Handle 0 0)" using slots len by (simp add: sm_is_valid_iff)
  have "\<not> no_data < (0 :: u32)" by simp
  then have "\<exists>m'. sm_erase ?m (Handle 0 0) = (m', Inr True) \<and> sm_size m' = 0"
    using v by (simp add: sm_erase_def data slots sm_size_def Let_def)
  with i get v hint(1) show ?thesis by (fastforce simp: is_null_def)
qed

lemma slot_map_null_handle_valid_witness:
  "\<exists>m. (\<exists>h. sm_insert_at No_throw (sm_empty :: (nat, 32 word) slotmap) 3 7 = (m, Inr h))
     \<and> sm_is_valid m (Handle 0 0)"
  using slot_map_null_handle_valid [of 3 "7 :: nat", where 'g = 32] by (auto simp: no_data_def)

text \<open>With the largest 32-bit hint the new number of slots, computed as hint + 1 in 32 bits, is 0:
  insert_at empties the slot array and then writes outside it, whatever the state of the map.\<close>

theorem slot_map_insert_at_largest_hint:
  fixes m :: "('a, 'g::len word) slotmap"
  assumes "length (sm_slots m) < 2 ^ 32 - 1" and "tp \<noteq> Slot_alloc"
  shows "snd (sm_insert_at tp m no_data x) = Inl Undefined_behaviour"
proof -
  have h: "no_data + 1 = (0 :: u32)" by (simp add: no_data_def)
  have range: "\<not> no_data < of_nat (length (sm_slots m))" "unat (of_nat (length (sm_slots m)) :: u32) = length (sm_slots m)"
    using assms(1) unat_no_data by (simp_all add: u32_less_length unat_of_nat_u32)
  have "unat no_data - length (sm_slots m) \<noteq> 0" using assms(1) unat_no_data by simp
  then obtain k where k: "unat no_data - length (sm_slots m) = Suc k" using not0_implies_Suc by blast
  have "mark_new_free (Suc k) (length (sm_slots m)) ([] :: 'g word slot list) (sm_free m) = Inl Undefined_behaviour"
    by simp
  then show ?thesis
    using range assms(2) h k by (simp add: sm_insert_at_def vec_resize_def)
qed

lemma slot_map_insert_at_largest_hint_witness:
  "snd (sm_insert_at No_throw sm_one_erased no_data 9) = Inl Undefined_behaviour"
  by (rule slot_map_insert_at_largest_hint) (simp_all add: sm_one_erased_def)

text \<open>Inserting an element and erasing it again, \<open>n\<close> times.\<close>

fun sm_rounds :: "nat \<Rightarrow> 'a \<Rightarrow> ('a, 'g::len word) slotmap \<Rightarrow> ('a, 'g word) slotmap" where
  "sm_rounds 0 x m = m"
| "sm_rounds (Suc n) x m =
    (let m' = sm_rounds n x m in
     case sm_insert No_throw m' x of (m'', Inr h) \<Rightarrow> fst (sm_erase m'' h) | (m'', Inl e) \<Rightarrow> m'')"

lemma sm_round:
  assumes "m = sm_empty \<and> g = 0 \<or> m = \<lparr>sm_data = [], sm_erase_map = [], sm_slots = [Slot g no_data], sm_free = [0]\<rparr>"
  shows "(case sm_insert No_throw m x of (m'', Inr h) \<Rightarrow> fst (sm_erase m'' h) | (m'', Inl e) \<Rightarrow> m'')
    = \<lparr>sm_data = [], sm_erase_map = [], sm_slots = [Slot (bump (bump g)) no_data], sm_free = [0]\<rparr>"
  using assms
  by (auto simp: sm_insert_def sm_erase_def sm_is_valid_def sm_empty_def fresh_slot_def Let_def)

lemma sm_rounds_even:
  assumes "Suc n \<le> 2 ^ (LENGTH('g::len) - 1)"
  shows "(sm_rounds n x (sm_empty :: ('a, 'g word) slotmap) = sm_empty \<and> n = 0)
    \<or> sm_rounds n x (sm_empty :: ('a, 'g word) slotmap)
      = \<lparr>sm_data = [], sm_erase_map = [], sm_slots = [Slot (of_nat (2 * n)) no_data], sm_free = [0]\<rparr>"
  using assms
proof (induction n)
  case 0
  then show ?case by simp
next
  case (Suc n)
  let ?g = "of_nat (2 * n) :: 'g word"
  have "(2 :: nat) ^ LENGTH('g) = 2 * 2 ^ (LENGTH('g) - 1)" by (simp flip: power_Suc)
  then have b: "2 * n + 3 < 2 ^ LENGTH('g)" using Suc.prems by linarith
  then have u: "unat ?g = 2 * n" by (intro unat_of_nat_below) linarith
  have b1: "bump ?g = of_nat (2 * n + 1)" using b u add_one_zero_iff [of ?g] by (simp add: bump_def)
  have "unat (of_nat (2 * n + 1) :: 'g word) = 2 * n + 1" using b by (intro unat_of_nat_below) linarith
  then have b2: "bump (bump ?g) = of_nat (2 * Suc n)"
    using b add_one_zero_iff [of "of_nat (2 * n + 1) :: 'g word"] unfolding b1 by (auto simp: bump_def)
  have "sm_rounds n x sm_empty = sm_empty \<and> ?g = 0
     \<or> sm_rounds n x sm_empty = \<lparr>sm_data = [], sm_erase_map = [], sm_slots = [Slot ?g no_data], sm_free = [0]\<rparr>"
    using Suc by auto
  from sm_round [OF this, of x] show ?case unfolding b2 by simp
qed

text \<open>The generation counter wraps around to 1.  After 2 to the power of the counter's width minus
  one rounds of inserting and erasing one element, the free slot has the generation of the very
  first handle: that handle, erased long ago, is valid again although the map is empty, and
  following it reads outside the array of values.\<close>

theorem slot_map_generation_wraps:
  fixes x :: 'a
  shows "let m = sm_rounds (2 ^ (LENGTH('g::len) - 1)) x (sm_empty :: ('a, 'g word) slotmap)
    in (\<exists>m1. sm_insert No_throw (sm_empty :: ('a, 'g word) slotmap) x = (m1, Inr (Handle 0 1)))
      \<and> sm_data m = [] \<and> sm_is_valid m (Handle 0 1) \<and> sm_get m (Handle 0 1) = Inl Undefined_behaviour"
proof -
  let ?k = "2 ^ (LENGTH('g) - 1) :: nat"
  define n where "n = ?k - 1"
  have n: "?k = Suc n" by (simp add: n_def)
  have len: "2 ^ LENGTH('g) = 2 * Suc n" using n by (metis len_gt_0 power_Suc Suc_pred' diff_Suc_1 power_eq_if neq0_conv)
  let ?g = "of_nat (2 * n) :: 'g word"
  have u: "unat ?g = 2 * n" using len by (intro unat_of_nat_below) simp
  have g1: "bump ?g = of_nat (2 * n + 1)" using u len add_one_zero_iff [of ?g] by (simp add: bump_def)
  have "unat (of_nat (2 * n + 1) :: 'g word) = 2 * n + 1" using len by (intro unat_of_nat_below) simp
  then have g2: "bump (bump ?g) = 1"
    using len add_one_zero_iff [of "of_nat (2 * n + 1) :: 'g word"] unfolding g1 by (simp add: bump_def)
  have "sm_rounds n x sm_empty = sm_empty \<and> ?g = 0
     \<or> sm_rounds n x sm_empty = \<lparr>sm_data = [], sm_erase_map = [], sm_slots = [Slot ?g no_data], sm_free = [0]\<rparr>"
    using sm_rounds_even [where 'g = 'g, of n x] n by auto
  from sm_round [OF this, of x]
  have m: "sm_rounds ?k x (sm_empty :: ('a, 'g word) slotmap)
      = \<lparr>sm_data = [], sm_erase_map = [], sm_slots = [Slot 1 no_data], sm_free = [0]\<rparr>"
    unfolding g2 n by simp
  have i: "\<exists>m1. sm_insert No_throw (sm_empty :: ('a, 'g word) slotmap) x = (m1, Inr (Handle 0 1))"
    by (simp add: sm_insert_def sm_empty_def fresh_slot_def bump_def)
  show ?thesis
    unfolding Let_def m using i by (simp add: sm_is_valid_def sm_get_def)
qed

end
