(* ===== verification/SparseSet_Contract.thy ===== *)
theory SparseSet_Contract
  imports SparseSet
begin

text \<open>
  The contracts of the two sparse sets: a sequence of operations on a \<open>SparseSet\<close> answers as the
  same sequence on a mathematical set, \<open>SparseSetWithData\<close> with the default index policy is an
  associative container in the sense of \<open>unique_map\<close>, and the growth loop has inputs on which it
  does not end.
\<close>

section \<open>Insertions that fit\<close>

lemma sd_insert_fits:
  assumes inv: "sd_inv ix s" and fits: "index_fits lim ix v"
  shows "\<exists>s' b. sd_insert lim ix No_push_throw s v d = Some (s', Inr b)"
proof -
  have inv0: "sparse_inv ix (sd_dense s) (sd_sparse s)" using inv by (simp add: sd_inv_def)
  obtain si where ti: "try_to_sparse_index ix v = Some si" using fits by (auto simp: index_fits_def)
  have k: "key_of ix v = si" by (rule try_to_sparse_index_Some [OF ti])
  obtain sparse1 where e: "ensure_sparse_capacity lim ix (sd_sparse s) v = Some (sparse1, Inr si)"
    using ensure_sparse_capacity_returns [OF sparse_inv_length [OF inv0] ti, of lim] fits k
    by (auto simp: index_fits_def)
  note f = ensure_sparse_capacity_effect [OF inv0 e]
  then have "\<not> contains_at_index ix (sd_dense s) sparse1 si \<Longrightarrow> dense_index_fits (ix v) (length (sd_dense s))"
    using dense_index_fits_new [of ix "sd_dense s" sparse1 v] k by simp
  with e f show ?thesis by (auto simp: sd_insert_def Let_def not_le)
qed

lemma sp_insert_fits:
  assumes inv: "sp_inv ix s" and fits: "index_fits lim ix v"
  shows "\<exists>s' b. sp_insert lim ix No_push_throw s v = Some (s', Inr b)"
proof -
  obtain si where ti: "try_to_sparse_index ix v = Some si" using fits by (auto simp: index_fits_def)
  have k: "key_of ix v = si" by (rule try_to_sparse_index_Some [OF ti])
  obtain sparse1 where e: "ensure_sparse_capacity lim ix (sp_sparse s) v = Some (sparse1, Inr si)"
    using ensure_sparse_capacity_returns [OF sparse_inv_length [OF inv] ti, of lim] fits k
    by (auto simp: index_fits_def)
  note f = ensure_sparse_capacity_effect [OF inv e]
  then have "\<not> contains_at_index ix (sp_dense s) sparse1 si \<Longrightarrow> dense_index_fits (ix v) (length (sp_dense s))"
    using dense_index_fits_new [of ix "sp_dense s" sparse1 v] k by simp
  with e f show ?thesis by (auto simp: sp_insert_def Let_def not_le)
qed

section \<open>A SparseSet is a set\<close>

datatype 't set_op = Insert 't | Erase 't | Contains 't | Size | Clear | Reserve u64 | Shrink_to_fit

datatype set_answer = Yes_no bool | Count nat | Done

definition sp_apply ::
  "nat \<Rightarrow> ('t \<Rightarrow> 'g::len word) \<Rightarrow> 't set_op \<Rightarrow> ('t, 'g word) sparse_set \<Rightarrow>
   (('t, 'g word) sparse_set \<times> set_answer result) option" where
  "sp_apply lim ix oper s = (case oper of
      Insert v \<Rightarrow> (case sp_insert lim ix No_push_throw s v of None \<Rightarrow> None
        | Some (s', Inl e) \<Rightarrow> Some (s', Inl e) | Some (s', Inr b) \<Rightarrow> Some (s', Inr (Yes_no b)))
    | Erase v \<Rightarrow> (case sp_erase ix s v of (s', Inl e) \<Rightarrow> Some (s', Inl e) | (s', Inr b) \<Rightarrow> Some (s', Inr (Yes_no b)))
    | Contains v \<Rightarrow> Some (s, Inr (Yes_no (sp_contains ix s v)))
    | Size \<Rightarrow> Some (s, Inr (Count (sp_size s)))
    | Clear \<Rightarrow> Some (sp_clear s, Inr Done)
    | Reserve n \<Rightarrow> Some (fst (sp_reserve lim s n), Inr Done)
    | Shrink_to_fit \<Rightarrow> Some (sp_shrink_to_fit ix s, Inr Done))"

fun sp_exec ::
  "nat \<Rightarrow> ('t \<Rightarrow> 'g::len word) \<Rightarrow> 't set_op list \<Rightarrow> ('t, 'g word) sparse_set \<Rightarrow>
   (('t, 'g word) sparse_set \<times> set_answer result list) option" where
  "sp_exec lim ix [] s = Some (s, [])"
| "sp_exec lim ix (oper # ops) s = (case sp_apply lim ix oper s of None \<Rightarrow> None
    | Some (s1, a) \<Rightarrow> (case sp_exec lim ix ops s1 of None \<Rightarrow> None | Some (s2, as) \<Rightarrow> Some (s2, a # as)))"

text \<open>The same operations on the set of the indices of the keys.\<close>

fun set_spec :: "('t \<Rightarrow> u64) \<Rightarrow> 't set_op \<Rightarrow> u64 set \<Rightarrow> u64 set \<times> set_answer" where
  "set_spec f (Insert v) K = (insert (f v) K, Yes_no (f v \<notin> K))"
| "set_spec f (Erase v) K = (K - {f v}, Yes_no (f v \<in> K))"
| "set_spec f (Contains v) K = (K, Yes_no (f v \<in> K))"
| "set_spec f Size K = (K, Count (card K))"
| "set_spec f Clear K = ({}, Done)"
| "set_spec f (Reserve n) K = (K, Done)"
| "set_spec f Shrink_to_fit K = (K, Done)"

fun set_spec_run :: "('t \<Rightarrow> u64) \<Rightarrow> 't set_op list \<Rightarrow> u64 set \<Rightarrow> u64 set \<times> set_answer list" where
  "set_spec_run f [] K = (K, [])"
| "set_spec_run f (oper # ops) K =
    (let (K1, a) = set_spec f oper K; (K2, as) = set_spec_run f ops K1 in (K2, a # as))"

fun op_fits :: "nat \<Rightarrow> ('t \<Rightarrow> 'g::len word) \<Rightarrow> 't set_op \<Rightarrow> bool" where
  "op_fits lim ix (Insert v) \<longleftrightarrow> index_fits lim ix v"
| "op_fits lim ix (Erase v) \<longleftrightarrow> try_to_sparse_index ix v \<noteq> None"
| "op_fits lim ix (Contains v) \<longleftrightarrow> try_to_sparse_index ix v \<noteq> None"
| "op_fits lim ix _ \<longleftrightarrow> True"

lemma sp_contains_iff:
  assumes "sp_inv ix s" and "try_to_sparse_index ix v \<noteq> None"
  shows "sp_contains ix s v \<longleftrightarrow> key_of ix v \<in> sp_keys ix s"
proof -
  obtain si where ti: "try_to_sparse_index ix v = Some si" using assms(2) by blast
  then show ?thesis
    using contains_iff_key [OF assms(1), of si] try_to_sparse_index_Some [OF ti]
    by (simp add: sp_contains_def sp_keys_def)
qed

lemma sp_size_card: "sp_inv ix s \<Longrightarrow> sp_size s = card (sp_keys ix s)"
  using distinct_card [OF sparse_keys_distinct, of ix "sp_dense s" "sp_sparse s"]
  by (simp add: sp_size_def sp_keys_def)

lemma sp_apply_refines:
  assumes inv: "sp_inv ix s" and fits: "op_fits lim ix oper"
  shows "\<exists>s'. sp_apply lim ix oper s = Some (s', Inr (snd (set_spec (key_of ix) oper (sp_keys ix s))))
    \<and> sp_inv ix s' \<and> sp_keys ix s' = fst (set_spec (key_of ix) oper (sp_keys ix s))"
proof (cases oper)
  case (Insert v)
  then obtain s' b where i: "sp_insert lim ix No_push_throw s v = Some (s', Inr b)"
    using sp_insert_fits [OF inv, of lim v] fits by auto
  from sp_insert_effect [OF inv i]
  have e: "sp_inv ix s'" "b = (key_of ix v \<notin> sp_keys ix s)"
    "sp_dense s' = (if b then sp_dense s @ [v] else sp_dense s)"
    unfolding sum.case by blast+
  then have "sp_keys ix s' = insert (key_of ix v) (sp_keys ix s)" by (auto simp: sp_keys_def)
  with Insert i e show ?thesis by (simp add: sp_apply_def)
next
  case (Erase v)
  obtain s' r where e: "sp_erase ix s v = (s', r)" by fastforce
  have c: "sp_contains ix s v \<longleftrightarrow> key_of ix v \<in> sp_keys ix s" using sp_contains_iff [OF inv] fits Erase by simp
  from sp_erase_effect [OF inv e] Erase e c show ?thesis by (auto simp: sp_apply_def)
next
  case (Contains v)
  then show ?thesis using sp_contains_iff [OF inv] fits inv by (simp add: sp_apply_def)
next
  case Size
  then show ?thesis using inv sp_size_card [OF inv] by (simp add: sp_apply_def)
next
  case Clear
  then show ?thesis
    using sparse_inv_empty [OF sparse_inv_length [OF inv]] by (simp add: sp_apply_def sp_clear_def sp_keys_def)
next
  case (Reserve n)
  obtain sparse1 r where r: "reserve_sparse lim (sp_sparse s) n = (sparse1, r)" by fastforce
  with reserve_sparse_effect [OF inv r] Reserve show ?thesis by (simp add: sp_apply_def sp_reserve_def sp_keys_def)
next
  case Shrink_to_fit
  with shrink_sparse_effect [OF inv] show ?thesis by (simp add: sp_apply_def sp_shrink_to_fit_def sp_keys_def)
qed

lemma sp_exec_refines:
  "\<lbrakk>sp_inv ix s; \<forall>oper\<in>set ops. op_fits lim ix oper\<rbrakk> \<Longrightarrow>
   \<exists>s'. sp_exec lim ix ops s = Some (s', map Inr (snd (set_spec_run (key_of ix) ops (sp_keys ix s))))
     \<and> sp_inv ix s' \<and> sp_keys ix s' = fst (set_spec_run (key_of ix) ops (sp_keys ix s))"
proof (induction ops arbitrary: s)
  case Nil
  then show ?case by simp
next
  case (Cons oper ops)
  have fits: "op_fits lim ix oper" "\<forall>oper\<in>set ops. op_fits lim ix oper" using Cons.prems(2) by simp_all
  obtain s1 where s1: "sp_apply lim ix oper s = Some (s1, Inr (snd (set_spec (key_of ix) oper (sp_keys ix s))))"
    "sp_inv ix s1" "sp_keys ix s1 = fst (set_spec (key_of ix) oper (sp_keys ix s))"
    using sp_apply_refines [OF Cons.prems(1) fits(1)] by blast
  from Cons.IH [OF s1(2) fits(2)] s1 show ?case by (auto simp: Let_def split: prod.splits)
qed

section \<open>SparseSetWithData as an associative container\<close>

text \<open>The default index policy \<open>IdentityIndex\<close>.\<close>

definition identity_index :: "'g::len word \<Rightarrow> 'g word" where
  "identity_index key = key"

definition sd_lookup :: "('g::len word, 'd, 'g word) sparse_map \<Rightarrow> 'g word \<Rightarrow> 'd option" where
  "sd_lookup s k = (if try_to_sparse_index identity_index k = None then None
     else sd_map identity_index s (to_size k))"

definition sd_put :: "nat \<Rightarrow> ('g::len word, 'd, 'g word) sparse_map \<Rightarrow> 'g word \<Rightarrow> 'd \<Rightarrow>
    ('g word, 'd, 'g word) sparse_map \<times> bool" where
  "sd_put lim s k d = (case sd_insert lim identity_index No_push_throw s k d of
      Some (s', Inr b) \<Rightarrow> (s', b) | _ \<Rightarrow> (s, False))"

definition sd_remove :: "('g::len word, 'd, 'g word) sparse_map \<Rightarrow> 'g word \<Rightarrow>
    ('g word, 'd, 'g word) sparse_map \<times> bool" where
  "sd_remove s k = (case sd_erase identity_index s k of (s', Inr b) \<Rightarrow> (s', b) | (s', Inl e) \<Rightarrow> (s', False))"

lemma to_size_inject:
  fixes k l :: "'g::len word"
  assumes "try_to_sparse_index identity_index k \<noteq> None" "try_to_sparse_index identity_index l \<noteq> None"
    and "to_size k = to_size l"
  shows "k = l"
proof -
  have "unat w < 2 ^ 64" if t: "try_to_sparse_index identity_index w \<noteq> None" for w :: "'g word"
  proof (cases "LENGTH('g) > 64")
    case True
    with t have "w \<le> ucast (- 1 :: u64)" by (auto simp: try_to_sparse_index_def identity_index_def split: if_splits)
    moreover have "unat (ucast (- 1 :: u64) :: 'g word) = unat (- 1 :: u64)" using True by (intro unat_ucast_up) simp
    ultimately show ?thesis using unat_bound [of "- 1 :: u64"] by (simp add: word_le_nat_alt)
  next
    case False
    then have "(2::nat) ^ LENGTH('g) \<le> 2 ^ 64" by (intro power_increasing) simp_all
    with unat_bound [of w] show ?thesis by linarith
  qed
  then have "unat (to_size w) = unat w" if "try_to_sparse_index identity_index w \<noteq> None" for w :: "'g word"
    using that by (simp add: to_size_def unsigned_ucast_eq take_bit_nat_eq_self)
  with assms have "unat k = unat l" by metis
  then show ?thesis by (simp add: word_unat_eq_iff)
qed


lemma sd_lookup_dom:
  assumes "sd_inv identity_index s"
  shows "dom (sd_lookup s) = set (sd_dense s)"
proof -
  have d: "dom (sd_map identity_index s) = to_size ` set (sd_dense s)"
    using sd_map_dom [OF assms] by (simp add: identity_index_def)
  have ti: "try_to_sparse_index identity_index v \<noteq> None" if "v \<in> set (sd_dense s)" for v
    using assms that by (auto simp: sd_inv_def sparse_inv_def in_set_conv_nth)
  have "k \<in> set (sd_dense s)" if k: "sd_lookup s k \<noteq> None" for k
  proof -
    have "to_size k \<in> dom (sd_map identity_index s)" using k by (auto simp: sd_lookup_def split: if_splits)
    then obtain v where v: "v \<in> set (sd_dense s)" "to_size k = to_size v" using d by auto
    moreover have "try_to_sparse_index identity_index k \<noteq> None" using k by (auto simp: sd_lookup_def split: if_splits)
    ultimately have "k = v" using to_size_inject ti by blast
    with v(1) show ?thesis by simp
  qed
  moreover have "sd_lookup s v \<noteq> None" if "v \<in> set (sd_dense s)" for v
    using d ti [OF that] that by (auto simp: sd_lookup_def domIff)
  ultimately show ?thesis by (auto simp: domIff)
qed

lemma sd_put_effect:
  assumes inv: "sd_inv identity_index s" and fits: "index_fits lim identity_index k"
    and put: "sd_put lim s k d = (s', b)"
  shows "sd_inv identity_index s' \<and> b = (sd_lookup s k = None)
    \<and> sd_lookup s' = (if b then (sd_lookup s)(k \<mapsto> d) else sd_lookup s)"
proof -
  obtain s1 b1 where i: "sd_insert lim identity_index No_push_throw s k d = Some (s1, Inr b1)"
    using sd_insert_fits [OF inv fits] by blast
  then have eq: "s' = s1" "b = b1" using put by (simp_all add: sd_put_def)
  have ti: "try_to_sparse_index identity_index k \<noteq> None" using fits by (simp add: index_fits_def)
  have id: "identity_index k = k" by (simp add: identity_index_def)
  note e = sd_insert_effect [OF inv i, unfolded id, simplified]
  have up: "sd_lookup s1 = (sd_lookup s)(k \<mapsto> d)" if "sd_map identity_index s1 = (sd_map identity_index s)(to_size k \<mapsto> d)"
    using that ti to_size_inject by (fastforce simp: sd_lookup_def fun_eq_iff)
  show ?thesis using e up ti unfolding eq by (auto simp: sd_lookup_def fun_eq_iff)
qed

lemma sd_remove_effect:
  assumes inv: "sd_inv identity_index s" and rm: "sd_remove s k = (s', b)"
  shows "sd_inv identity_index s' \<and> b = (sd_lookup s k \<noteq> None) \<and> sd_lookup s' = (sd_lookup s)(k := None)"
proof -
  obtain s1 r where e: "sd_erase identity_index s k = (s1, r)" by fastforce
  have id: "identity_index k = k" by (simp add: identity_index_def)
  note f = sd_erase_effect [OF inv e, unfolded id]
  with e rm have eq: "s' = s1" "b = sd_contains identity_index s k" by (auto simp: sd_remove_def)
  have c: "sd_contains identity_index s k = (sd_lookup s k \<noteq> None)"
    using sd_access(1) [OF inv, of k] by (simp add: sd_lookup_def id)
  show ?thesis
  proof (cases "sd_contains identity_index s k")
    case True
    then have m: "sd_map identity_index s1 = (sd_map identity_index s)(to_size k := None)" using f by simp
    have ti: "try_to_sparse_index identity_index k \<noteq> None" using True c by (auto simp: sd_lookup_def split: if_splits)
    have "sd_lookup s1 = (sd_lookup s)(k := None)"
      using m ti to_size_inject by (fastforce simp: sd_lookup_def fun_eq_iff)
    with f c eq show ?thesis by simp
  next
    case False
    then have "sd_lookup s1 = sd_lookup s" using f by (simp add: sd_lookup_def fun_eq_iff)
    with False f c eq show ?thesis by (simp add: fun_upd_idem)
  qed
qed

interpretation sparse_map: unique_map "sd_inv identity_index" "index_fits lim identity_index"
  sd_lookup "sd_put lim" sd_remove sd_size
proof unfold_locales
  fix s s' :: "('a word, 'b, 'a word) sparse_map" and k d b
  assume i: "sd_inv identity_index s" and f: "index_fits lim identity_index k" and p: "sd_put lim s k d = (s', b)"
  note e = sd_put_effect [OF this]
  show "sd_inv identity_index s'"
    and "b = (sd_lookup s k = None) \<and> sd_lookup s' = (if b then (sd_lookup s)(k \<mapsto> d) else sd_lookup s)"
    using e by blast+
next
  fix s s' :: "('a word, 'b, 'a word) sparse_map" and k b
  assume i: "sd_inv identity_index s" and p: "sd_remove s k = (s', b)"
  note e = sd_remove_effect [OF this]
  show "sd_inv identity_index s'"
    and "b = (sd_lookup s k \<noteq> None) \<and> sd_lookup s' = (sd_lookup s)(k := None)"
    using e by blast+
next
  fix s :: "('a word, 'b, 'a word) sparse_map"
  assume i: "sd_inv identity_index s"
  then have "distinct (map (key_of identity_index) (sd_dense s))"
    using sparse_keys_distinct unfolding sd_inv_def by blast
  then have "distinct (sd_dense s)" by (simp add: distinct_map)
  then show "finite (dom (sd_lookup s)) \<and> sd_size s = card (dom (sd_lookup s))"
    by (simp add: sd_lookup_dom [OF i] distinct_card sd_size_def)
qed


section \<open>Properties\<close>



text \<open>SparseSetWithData with the default index policy: of a batch of insertions into any map the
  first value given for a key is kept, existing keys keep theirs, and erasing a batch of keys after
  that leaves exactly the other entries; tryGet reads the resulting map.\<close>

theorem sparse_map_insert_erase_batch:
  assumes "sd_inv identity_index s" and "\<forall>p\<in>set ps. index_fits lim identity_index (fst p)"
    and "index_fits lim identity_index k"
  shows "sd_try_get identity_index (sparse_map.erase_all (sparse_map.insert_all lim s ps) ks) k
    = Inr (if k \<in> set ks then None else case sd_lookup s k of None \<Rightarrow> map_of ps k | Some d \<Rightarrow> Some d)"
proof -
  note i = sparse_map.insert_all_lookup [OF assms(1,2)]
  then have inv: "sd_inv identity_index (sparse_map.insert_all lim s ps)" by blast
  note e = sparse_map.erase_all_lookup [OF inv, of ks]
  then have inv': "sd_inv identity_index (sparse_map.erase_all (sparse_map.insert_all lim s ps) ks)" by blast
  have "sd_try_get identity_index (sparse_map.erase_all (sparse_map.insert_all lim s ps) ks) k
      = Inr (sd_lookup (sparse_map.erase_all (sparse_map.insert_all lim s ps) ks) k)"
    using sd_access(2) [OF inv', of k] by (simp add: sd_lookup_def identity_index_def)
  then show ?thesis using i e by (simp add: restrict_map_def map_add_def split: option.splits)
qed

lemma sparse_map_insert_erase_batch_witness:
  "sd_try_get identity_index (sparse_map.erase_all (sparse_map.insert_all 1000
     (\<lparr>sd_dense = [], sd_data = [], sd_sparse = []\<rparr> :: (u32, nat, u32) sparse_map) [(5, 1), (9, 2), (5, 3)]) [9]) 5
   = Inr (Some 1)"
proof -
  let ?s = "\<lparr>sd_dense = [], sd_data = [], sd_sparse = []\<rparr> :: (u32, nat, u32) sparse_map"
  have "sd_inv identity_index ?s" by (simp add: sd_inv_def sparse_inv_empty)
  moreover have fits: "index_fits 1000 identity_index k" if "k < 100" for k :: u32
  proof -
    have "unat k < 100" using that by (simp add: word_less_nat_alt)
    then show ?thesis
      by (simp add: index_fits_def try_to_sparse_index_def to_size_def identity_index_def unat_ucast_up)
  qed
  ultimately have "sd_try_get identity_index (sparse_map.erase_all (sparse_map.insert_all 1000 ?s
      [(5, 1), (9, 2), (5, 3)]) [9]) 5
    = Inr (if (5::u32) \<in> set [9] then None else case sd_lookup ?s 5 of None \<Rightarrow> map_of [(5 :: u32, 1), (9, 2), (5, 3)] 5
        | Some d \<Rightarrow> Some d)"
    by (intro sparse_map_insert_erase_batch) auto
  then show ?thesis by (simp add: sd_lookup_def sd_map_def)
qed

text \<open>Insert, emplace and tryEmplace of SparseSetWithData have the strong guarantee: whatever call
  throws (the check of the index, the allocator, the copy of the data), keys and data are as before
  and the arrays stay consistent; the overflow of the dense index is never the reason.\<close>

theorem sparse_map_insert_strong_guarantee:
  assumes "sd_inv ix s" and "sd_insert lim ix tp s v d = Some (s', Inl e)"
  shows "sd_dense s' = sd_dense s \<and> sd_data s' = sd_data s \<and> sd_inv ix s' \<and> sd_map ix s' = sd_map ix s
    \<and> sd_emplace lim ix tp s v d = Some (s', Inl e) \<and> sd_try_emplace lim ix tp s v d = Some (s', Inl e)
    \<and> (e = Length_error \<or> e = Bad_alloc)"
proof -
  have len: "length (sd_data s) = length (sd_dense s)" using assms(1) by (simp add: sd_inv_def)
  note e = sd_insert_effect [OF assms]
  moreover have "sd_map ix s' = sd_map ix s" using e by (simp add: sd_map_def)
  ultimately show ?thesis
    using sd_emplace_insert [OF len, of lim ix tp v d] sd_try_emplace_insert [OF len, of lim ix tp v d] assms(2)
    by simp
qed

lemma sparse_map_insert_strong_guarantee_witness:
  "\<exists>s'. sd_insert 1000 identity_index Data_push_throws
      (\<lparr>sd_dense = [], sd_data = [], sd_sparse = replicate 64 0\<rparr> :: (u32, nat, u32) sparse_map) 5 1
      = Some (s', Inl Bad_alloc) \<and> sd_dense s' = []"
proof -
  let ?s = "\<lparr>sd_dense = [], sd_data = [], sd_sparse = replicate 64 0\<rparr> :: (u32, nat, u32) sparse_map"
  have inv: "sd_inv identity_index ?s" by (simp add: sd_inv_def sparse_inv_empty)
  have "sd_insert 1000 identity_index Data_push_throws ?s 5 1 = Some (?s, Inl Bad_alloc)"
    by (simp add: sd_insert_def ensure_sparse_capacity_def to_sparse_index_or_throw_def to_size_def
        identity_index_def contains_at_index_def dense_index_fits_def unat_ucast_up)
  with sparse_map_insert_strong_guarantee [OF inv this] show ?thesis by auto
qed

text \<open>SwapDenseEntries exchanges two elements in the dense order and keeps the map: every key
  still leads to its data.\<close>

theorem sparse_map_swap_keeps_map:
  assumes "sd_inv ix s" and "i < length (sd_dense s)" and "j < length (sd_dense s)"
  shows "\<exists>s'. sd_swap_dense_entries ix s i j = (s', Inr ()) \<and> sd_inv ix s'
    \<and> (\<forall>v. sd_try_get ix s' v = sd_try_get ix s v)
    \<and> sd_dense s' ! i = sd_dense s ! j \<and> sd_dense s' ! j = sd_dense s ! i"
proof -
  obtain s' r where sw: "sd_swap_dense_entries ix s i j = (s', r)" by fastforce
  note e = sd_swap_effect [OF assms sw]
  then have inv': "sd_inv ix s'" and m: "sd_map ix s' = sd_map ix s" by blast+
  have "sd_try_get ix s' v = sd_try_get ix s v" for v
    unfolding sd_access(2) [OF inv'] sd_access(2) [OF assms(1)] m ..
  with sw e assms(2,3) show ?thesis by (simp add: swap_at_def nth_list_update)
qed

lemma sparse_map_swap_keeps_map_witness:
  "\<exists>s'. sd_swap_dense_entries identity_index
     (\<lparr>sd_dense = [1, 0], sd_data = [10, 20], sd_sparse = [1, 0]\<rparr> :: (u32, nat, u32) sparse_map) 0 1 = (s', Inr ())
     \<and> sd_dense s' ! 0 = 0"
proof -
  let ?s = "\<lparr>sd_dense = [1, 0], sd_data = [10, 20], sd_sparse = [1, 0]\<rparr> :: (u32, nat, u32) sparse_map"
  have "sd_inv identity_index ?s"
    by (simp add: sd_inv_def sparse_inv_def try_to_sparse_index_def to_size_def identity_index_def
        less_Suc_eq)
  from sparse_map_swap_keeps_map [OF this, of 0 1] show ?thesis by auto
qed

text \<open>\<open>find\<close> and indexOf give the dense position of a key, at which the key itself and its data
  stand, and the number of elements for a key that is absent; dataAt reads that data.\<close>

theorem sparse_map_positions:
  assumes "sd_inv ix s"
  shows "sd_find ix s v = sd_index_of ix s v \<and>
    (if sd_contains ix s v
     then sd_index_of ix s v < sd_size s \<and> key_of ix (sd_dense s ! sd_index_of ix s v) = key_of ix v
       \<and> sd_data_at s (sd_index_of ix s v) = sd_get ix s v
     else sd_index_of ix s v = sd_size s)"
proof (cases "sd_contains ix s v")
  case False
  then show ?thesis by (auto simp: sd_contains_def sd_find_def sd_index_of_def sd_size_def split: option.splits)
next
  case True
  then obtain si where ti: "try_to_sparse_index ix v = Some si"
    and c: "contains_at_index ix (sd_dense s) (sd_sparse s) si"
    by (auto simp: sd_contains_def split: option.splits)
  have len: "length (sd_data s) = length (sd_dense s)" using assms by (simp add: sd_inv_def)
  note p = contains_position [OF c] and k = try_to_sparse_index_Some [OF ti]
  have "sd_get ix s v = Inr (sd_data s ! read_size (sd_sparse s ! unat si))"
    using ti c p(1) len by (simp add: sd_get_def sd_try_get_def)
  with True ti c p k len show ?thesis
    by (simp add: sd_find_def sd_index_of_def sd_size_def sd_data_at_def)
qed

lemma sparse_map_positions_witness:
  "sd_index_of identity_index
     (\<lparr>sd_dense = [1, 0], sd_data = [10, 20], sd_sparse = [1, 0]\<rparr> :: (u32, nat, u32) sparse_map) 7 = 2"
proof -
  let ?s = "\<lparr>sd_dense = [1, 0], sd_data = [10, 20], sd_sparse = [1, 0]\<rparr> :: (u32, nat, u32) sparse_map"
  have "sd_inv identity_index ?s"
    by (simp add: sd_inv_def sparse_inv_def try_to_sparse_index_def to_size_def identity_index_def
        less_Suc_eq)
  moreover have "\<not> sd_contains identity_index ?s 7"
    by (simp add: sd_contains_def try_to_sparse_index_def contains_at_index_def to_size_def identity_index_def)
  ultimately show ?thesis using sparse_map_positions [of identity_index ?s 7] by (simp add: sd_size_def)
qed



end
