(* ===== verification/Cbor.thy ===== *)
theory Cbor
  imports Interfaces
begin

text \<open>
  The CBOR encoder and decoder of \<open>include/fat_p/CborLite.h\<close>.  A buffer is a list of bytes; the
  encoder appends to it.  The decoder (\<open>Decoder\<close>, here \<open>cbor_decoder\<close>) keeps the bytes, a
  position, and the nesting depth with its limit as 64-bit words; each read operation returns the
  value or the exception together with the decoder afterwards, since an operation that throws may
  already have moved the position.
\<close>

section \<open>Data\<close>

datatype major_type =
    UnsignedInt | NegativeInt | ByteString | TextString | Array_type | Map_type | Tag | Simple_type

fun major_code :: "major_type \<Rightarrow> u8" where
  "major_code UnsignedInt = 0"
| "major_code NegativeInt = 1"
| "major_code ByteString = 2"
| "major_code TextString = 3"
| "major_code Array_type = 4"
| "major_code Map_type = 5"
| "major_code Tag = 6"
| "major_code Simple_type = 7"

text \<open>\<open>static_cast<MajorType>(majorBits)\<close> for the three bits of an initial byte.\<close>

definition major_of_bits :: "u8 \<Rightarrow> major_type" where
  "major_of_bits b =
    (if b = 0 then UnsignedInt else if b = 1 then NegativeInt else if b = 2 then ByteString
     else if b = 3 then TextString else if b = 4 then Array_type else if b = 5 then Map_type
     else if b = 6 then Tag else Simple_type)"

datatype item_header = Item_header (major: major_type) (argument: u64)

record cbor_decoder =
  cd_data :: "u8 list"
  cd_pos :: u64
  cd_depth :: u64
  cd_max_depth :: u64

definition cd_size :: "cbor_decoder \<Rightarrow> u64" where
  "cd_size d = of_nat (length (cd_data d))"

definition default_max_depth :: u64 where
  "default_max_depth = 64"

definition cbor_decode :: "u8 list \<Rightarrow> cbor_decoder" where
  "cbor_decode b = \<lparr>cd_data = b, cd_pos = 0, cd_depth = 0, cd_max_depth = default_max_depth\<rparr>"

text \<open>A decoder operation, and the sequence of two; an exception ends the sequence.\<close>

type_synonym 'a dec = "cbor_decoder \<Rightarrow> 'a result \<times> cbor_decoder"

definition dec_bind :: "'a dec \<Rightarrow> ('a \<Rightarrow> 'b dec) \<Rightarrow> 'b dec" where
  "dec_bind m f d = (case m d of (Inl e, d') \<Rightarrow> (Inl e, d') | (Inr x, d') \<Rightarrow> f x d')"

definition dec_return :: "'a \<Rightarrow> 'a dec" where
  "dec_return x d = (Inr x, d)"

definition dec_throw :: "fault \<Rightarrow> 'a dec" where
  "dec_throw e d = (Inl e, d)"

section \<open>Low-level helpers\<close>

text \<open>\<open>static_cast<byte>((arg >> k) & 0xFF)\<close>\<close>

definition arg_byte :: "nat \<Rightarrow> u64 \<Rightarrow> u8" where
  "arg_byte k arg = ucast (drop_bit k arg AND 0xFF)"

definition write_type_and_argument :: "u8 list \<Rightarrow> major_type \<Rightarrow> u64 \<Rightarrow> u8 list" where
  "write_type_and_argument out mt arg =
    (let hi = push_bit 5 (major_code mt) in
     if arg \<le> 23 then out @ [hi OR ucast arg]
     else if arg \<le> 0xFF then out @ [hi OR 24, ucast arg]
     else if arg \<le> 0xFFFF then out @ [hi OR 25, arg_byte 8 arg, arg_byte 0 arg]
     else if arg \<le> 0xFFFFFFFF then
       out @ [hi OR 26, arg_byte 24 arg, arg_byte 16 arg, arg_byte 8 arg, arg_byte 0 arg]
     else
       out @ [hi OR 27, arg_byte 56 arg, arg_byte 48 arg, arg_byte 40 arg, arg_byte 32 arg,
              arg_byte 24 arg, arg_byte 16 arg, arg_byte 8 arg, arg_byte 0 arg])"

definition truncated :: fault where
  "truncated = Runtime_error ''CBOR: truncated input''"

text \<open>\<open>pos + required > size\<close> in the arithmetic of \<open>size_t\<close>.\<close>

definition ensure_available :: "u64 \<Rightarrow> unit dec" where
  "ensure_available required d =
    (if cd_pos d + required > cd_size d then (Inl truncated, d) else (Inr (), d))"

definition safe_to_size_t :: "u64 \<Rightarrow> u64 result" where
  "safe_to_size_t v = (if v > - 1 then Inl (Runtime_error ''CBOR: length exceeds platform limits'') else Inr v)"

text \<open>\<open>data[pos + i]\<close>, and the loop that reads \<open>n\<close> bytes, most significant first.\<close>

definition peek :: "u64 \<Rightarrow> u8 dec" where
  "peek i d = (vec_get (cd_data d) (unat (cd_pos d + i)), d)"

fun read_big_endian :: "nat \<Rightarrow> u64 \<Rightarrow> u64 \<Rightarrow> u64 dec" where
  "read_big_endian 0 i result = dec_return result"
| "read_big_endian (Suc n) i result =
    dec_bind (peek i) (\<lambda>b. read_big_endian n (i + 1) (push_bit 8 result OR ucast b))"

definition advance :: "u64 \<Rightarrow> unit dec" where
  "advance n d = (Inr (), d\<lparr>cd_pos := cd_pos d + n\<rparr>)"

definition read_argument :: "u8 \<Rightarrow> u64 dec" where
  "read_argument ai =
    (if ai < 24 then dec_return (ucast ai)
     else if ai = 24 then
       dec_bind (ensure_available 1) (\<lambda>_. dec_bind (peek 0) (\<lambda>b. dec_bind (advance 1) (\<lambda>_. dec_return (ucast b))))
     else if ai = 25 then
       dec_bind (ensure_available 2) (\<lambda>_. dec_bind (peek 0) (\<lambda>b. dec_bind (peek 1) (\<lambda>c.
         dec_bind (advance 2) (\<lambda>_. dec_return (push_bit 8 (ucast b) OR ucast c)))))
     else if ai = 26 then
       dec_bind (ensure_available 4) (\<lambda>_. dec_bind (read_big_endian 4 0 0) (\<lambda>r.
         dec_bind (advance 4) (\<lambda>_. dec_return r)))
     else if ai = 27 then
       dec_bind (ensure_available 8) (\<lambda>_. dec_bind (read_big_endian 8 0 0) (\<lambda>r.
         dec_bind (advance 8) (\<lambda>_. dec_return r)))
     else dec_throw (Runtime_error ''CBOR: indefinite lengths not supported''))"

section \<open>Encoder\<close>

definition write_uint :: "u8 list \<Rightarrow> u64 \<Rightarrow> u8 list" where
  "write_uint out v = write_type_and_argument out UnsignedInt v"

text \<open>The argument is the bit pattern of an \<open>int64_t\<close>.\<close>

definition write_int :: "u8 list \<Rightarrow> u64 \<Rightarrow> u8 list" where
  "write_int out v =
    (if sint v \<ge> 0 then write_uint out v else write_type_and_argument out NegativeInt (NOT v))"

definition write_bool :: "u8 list \<Rightarrow> bool \<Rightarrow> u8 list" where
  "write_bool out b = out @ [0xF4 + (if b then 1 else 0)]"

definition write_null :: "u8 list \<Rightarrow> u8 list" where
  "write_null out = out @ [0xF6]"

definition write_bytes :: "u8 list \<Rightarrow> u8 list \<Rightarrow> u8 list" where
  "write_bytes out b =
    (if b \<noteq> [] then write_type_and_argument out ByteString (of_nat (length b)) @ b
     else write_type_and_argument out ByteString 0)"

definition write_text :: "u8 list \<Rightarrow> u8 list \<Rightarrow> u8 list" where
  "write_text out s = write_type_and_argument out TextString (of_nat (length s)) @ s"

definition begin_array :: "u8 list \<Rightarrow> u64 \<Rightarrow> u8 list" where
  "begin_array out n = write_type_and_argument out Array_type n"

definition begin_map :: "u8 list \<Rightarrow> u64 \<Rightarrow> u8 list" where
  "begin_map out n = write_type_and_argument out Map_type n"

section \<open>Decoder\<close>

definition set_max_depth :: "u64 \<Rightarrow> cbor_decoder \<Rightarrow> cbor_decoder" where
  "set_max_depth n d = d\<lparr>cd_max_depth := n\<rparr>"

definition cbor_eof :: "cbor_decoder \<Rightarrow> bool" where
  "cbor_eof d \<longleftrightarrow> cd_pos d \<ge> cd_size d"

definition next_byte :: "u8 dec" where
  "next_byte = dec_bind (ensure_available 1) (\<lambda>_. dec_bind (peek 0) (\<lambda>b.
     dec_bind (advance 1) (\<lambda>_. dec_return b)))"

definition read_header :: "item_header dec" where
  "read_header = dec_bind next_byte (\<lambda>initial.
     dec_bind (read_argument (initial AND 0x1F)) (\<lambda>arg.
       dec_return (Item_header (major_of_bits (drop_bit 5 initial)) arg)))"

definition read_uint :: "u64 dec" where
  "read_uint = dec_bind read_header (\<lambda>h.
     if major h \<noteq> UnsignedInt then dec_throw (Runtime_error ''CBOR: expected unsigned integer'')
     else dec_return (argument h))"

definition int64_max :: u64 where
  "int64_max = 0x7FFFFFFFFFFFFFFF"

definition read_int :: "u64 dec" where
  "read_int = dec_bind read_header (\<lambda>h.
     if major h = UnsignedInt then
       (if argument h > int64_max then dec_throw (Runtime_error ''CBOR: unsigned integer too large for int64_t'')
        else dec_return (argument h))
     else if major h = NegativeInt then
       (if argument h > int64_max then dec_throw (Runtime_error ''CBOR: negative integer too small for int64_t'')
        else dec_return (- 1 - argument h))
     else dec_throw (Runtime_error ''CBOR: expected integer''))"

definition read_bool :: "bool dec" where
  "read_bool = dec_bind next_byte (\<lambda>v.
     if v = 0xF4 then dec_return False
     else if v = 0xF5 then dec_return True
     else dec_throw (Runtime_error ''CBOR: expected bool''))"

definition read_null :: "unit dec" where
  "read_null = dec_bind next_byte (\<lambda>v.
     if v \<noteq> 0xF6 then dec_throw (Runtime_error ''CBOR: expected null'') else dec_return ())"

text \<open>
  The bytes from \<open>mData + mPos\<close> to \<open>mData + mPos + len\<close>; a range that leaves the buffer has
  undefined behaviour.
\<close>

definition take_range :: "u64 \<Rightarrow> u8 list dec" where
  "take_range len d =
    (if unat (cd_pos d) + unat len \<le> length (cd_data d)
     then (Inr (take (unat len) (drop (unat (cd_pos d)) (cd_data d))), d\<lparr>cd_pos := cd_pos d + len\<rparr>)
     else (Inl Undefined_behaviour, d))"

definition dec_lift :: "'a result \<Rightarrow> 'a dec" where
  "dec_lift r d = (r, d)"

definition read_text :: "u8 list dec" where
  "read_text = dec_bind read_header (\<lambda>h.
     if major h \<noteq> TextString then dec_throw (Runtime_error ''CBOR: expected text string'')
     else dec_bind (dec_lift (safe_to_size_t (argument h))) (\<lambda>len.
       dec_bind (ensure_available len) (\<lambda>_. take_range len)))"

definition read_bytes :: "u8 list dec" where
  "read_bytes = dec_bind read_header (\<lambda>h.
     if major h \<noteq> ByteString then dec_throw (Runtime_error ''CBOR: expected byte string'')
     else dec_bind (dec_lift (safe_to_size_t (argument h))) (\<lambda>len.
       dec_bind (ensure_available len) (\<lambda>_. take_range len)))"

definition enter_container :: "unit dec" where
  "enter_container d =
    (if cd_depth d \<ge> cd_max_depth d then (Inl (Runtime_error ''CBOR: maximum nesting depth exceeded''), d)
     else (Inr (), d\<lparr>cd_depth := cd_depth d + 1\<rparr>))"

definition read_array_length :: "u64 dec" where
  "read_array_length = dec_bind read_header (\<lambda>h.
     if major h \<noteq> Array_type then dec_throw (Runtime_error ''CBOR: expected array'')
     else dec_bind enter_container (\<lambda>_. dec_lift (safe_to_size_t (argument h))))"

definition read_map_length :: "u64 dec" where
  "read_map_length = dec_bind read_header (\<lambda>h.
     if major h \<noteq> Map_type then dec_throw (Runtime_error ''CBOR: expected map'')
     else dec_bind enter_container (\<lambda>_. dec_lift (safe_to_size_t (argument h))))"

definition end_container :: "cbor_decoder \<Rightarrow> cbor_decoder" where
  "end_container d = (if cd_depth d > 0 then d\<lparr>cd_depth := cd_depth d - 1\<rparr> else d)"

section \<open>Sequencing\<close>

lemma dec_bind_Inr: "m d = (Inr x, d') \<Longrightarrow> dec_bind m f d = f x d'"
  by (simp add: dec_bind_def)

lemma dec_bind_Inl: "m d = (Inl e, d') \<Longrightarrow> dec_bind m f d = (Inl e, d')"
  by (simp add: dec_bind_def)

lemma dec_bind_assoc: "dec_bind (dec_bind m f) g = dec_bind m (\<lambda>x. dec_bind (f x) g)"
  by (rule ext) (simp add: dec_bind_def split: prod.splits sum.splits)

lemma dec_bind_return: "dec_bind (dec_return x) f = f x"
  by (rule ext) (simp add: dec_bind_def dec_return_def)

lemma dec_return_apply [simp]: "dec_return x d = (Inr x, d)"
  by (simp add: dec_return_def)

lemma dec_throw_apply [simp]: "dec_throw e d = (Inl e, d)"
  by (simp add: dec_throw_def)

lemma dec_lift_safe [simp]: "dec_lift (safe_to_size_t v) d = (Inr v, d)"
  by (simp add: dec_lift_def safe_to_size_t_def)

section \<open>Encodings\<close>

text \<open>The bytes an item header takes, wherever it is written.\<close>

definition header_bytes :: "major_type \<Rightarrow> u64 \<Rightarrow> u8 list" where
  "header_bytes mt arg = write_type_and_argument [] mt arg"

lemma write_type_and_argument_append:
  "write_type_and_argument out mt arg = out @ header_bytes mt arg"
  by (simp add: write_type_and_argument_def header_bytes_def Let_def)

lemma header_bytes_not_empty: "header_bytes mt arg \<noteq> []" "length (header_bytes mt arg) \<le> 9"
  by (simp_all add: header_bytes_def write_type_and_argument_def Let_def)

text \<open>A decoder standing \<open>k\<close> bytes into a buffer.\<close>

definition stands :: "cbor_decoder \<Rightarrow> nat \<Rightarrow> u8 list \<Rightarrow> bool" where
  "stands d k rest \<longleftrightarrow> length (cd_data d) < 2 ^ 64 \<and> k \<le> length (cd_data d)
     \<and> cd_pos d = of_nat k \<and> drop k (cd_data d) = rest"

lemma stands_pos: "stands d k rest \<Longrightarrow> unat (cd_pos d) = k"
  by (simp add: stands_def unat_of_nat_u64)

lemma stands_length: "stands d k rest \<Longrightarrow> length (cd_data d) = k + length rest \<and> k + length rest < 2 ^ 64"
  by (auto simp: stands_def)

lemma ensure_available_ok:
  assumes "stands d k rest" and "unat n \<le> length rest"
  shows "ensure_available n d = (Inr (), d)"
proof -
  note l = stands_length [OF assms(1)] and p = stands_pos [OF assms(1)]
  have "unat (cd_pos d) + unat n < 2 ^ LENGTH(64)" using l p assms(2) by simp
  then have "unat (cd_pos d + n) = unat (cd_pos d) + unat n" by (rule unat_add_lem [THEN iffD1])
  moreover have "unat (cd_size d) = length (cd_data d)"
    using assms(1) by (simp add: cd_size_def stands_def unat_of_nat_u64)
  ultimately have "\<not> cd_size d < cd_pos d + n" using l p assms(2) by (simp add: word_less_nat_alt)
  then show ?thesis by (simp add: ensure_available_def)
qed

lemma peek_ok:
  assumes "stands d k rest" and "unat i < length rest"
  shows "peek i d = (Inr (rest ! unat i), d)"
proof -
  note l = stands_length [OF assms(1)] and p = stands_pos [OF assms(1)]
  have "unat (cd_pos d) + unat i < 2 ^ LENGTH(64)" using l p assms(2) by simp
  then have u: "unat (cd_pos d + i) = k + unat i" using p by (simp add: unat_add_lem [THEN iffD1])
  have "rest ! unat i = cd_data d ! (k + unat i)" using assms by (auto simp: stands_def)
  with u l assms(2) show ?thesis by (simp add: peek_def)
qed

lemma advance_ok:
  assumes "stands d k rest" and "unat n \<le> length rest"
  shows "\<exists>d'. advance n d = (Inr (), d') \<and> stands d' (k + unat n) (drop (unat n) rest)
    \<and> cd_data d' = cd_data d \<and> cd_depth d' = cd_depth d \<and> cd_max_depth d' = cd_max_depth d"
proof -
  note l = stands_length [OF assms(1)]
  have "cd_pos d + n = of_nat (k + unat n)" using assms(1) by (simp add: stands_def)
  moreover have "drop (k + unat n) (cd_data d) = drop (unat n) rest"
    using assms(1) by (auto simp: stands_def add.commute)
  ultimately show ?thesis using assms l by (simp add: advance_def stands_def)
qed

text \<open>Adding the next byte to the bytes read so far.\<close>

lemma bit_arg_byte: "bit (arg_byte k a) n \<longleftrightarrow> n < 8 \<and> bit a (k + n)"
proof -
  have m: "(0xFF :: u64) = mask 8" by (simp add: mask_eq_exp_minus_1)
  show ?thesis
    unfolding arg_byte_def m by (auto simp: bit_ucast_iff bit_and_iff bit_mask_iff bit_drop_bit_eq simp del: mask_numeral
        dest: bit_imp_le_length)
qed

lemma big_endian_step:
  "push_bit 8 (drop_bit (k + 8) a) OR ucast (arg_byte k a) = drop_bit k (a :: u64)"
proof (rule bit_word_eqI)
  fix n
  assume "n < LENGTH(64)"
  then show "bit (push_bit 8 (drop_bit (k + 8) a) OR ucast (arg_byte k a)) n = bit (drop_bit k a) n"
    by (auto simp: bit_or_iff bit_push_bit_iff bit_drop_bit_eq bit_ucast_iff bit_arg_byte)
qed


text \<open>An initial byte holds the major type above five bits of additional information.\<close>

lemma below_32_bit:
  assumes "x < (32 :: u8)" and "bit x n"
  shows "n < 5"
proof (rule ccontr)
  assume "\<not> n < 5"
  moreover have "n < 8" using assms(2) bit_imp_le_length by fastforce
  moreover have "drop_bit 5 x = 0"
  proof -
    have "unat (drop_bit 5 x) = drop_bit 5 (unat x)" by (rule unat_drop_bit_eq)
    then have "unat (drop_bit 5 x) = unat x div 2 ^ 5" by (simp only: drop_bit_eq_div)
    also have "\<dots> = 0" using assms(1) by (simp add: word_less_nat_alt)
    finally show ?thesis by (simp add: unat_eq_zero)
  qed
  then have "\<not> bit (drop_bit 5 x) (n - 5)" by simp
  ultimately show False using assms(2) by (simp add: bit_drop_bit_eq)
qed

lemma initial_byte:
  assumes "x < (32 :: u8)"
  shows "(push_bit 5 (major_code mt) OR x) AND 0x1F = x"
    and "major_of_bits (drop_bit 5 (push_bit 5 (major_code mt) OR x)) = mt"
proof -
  have m: "(0x1F :: u8) = mask 5" by (simp add: mask_eq_exp_minus_1)
  show "(push_bit 5 (major_code mt) OR x) AND 0x1F = x"
    unfolding m by (rule bit_word_eqI)
      (use below_32_bit [OF assms] in \<open>auto simp: bit_or_iff bit_and_iff bit_push_bit_iff bit_mask_iff simp del: mask_numeral\<close>)
  have c: "major_code mt < 8" by (cases mt) simp_all
  have "drop_bit 5 (push_bit 5 (major_code mt) OR x) = major_code mt"
  proof (rule bit_word_eqI)
    fix n
    assume n: "n < LENGTH(8)"
    have "bit (major_code mt) n \<Longrightarrow> n < 3"
    proof (rule ccontr)
      assume b: "bit (major_code mt) n" and "\<not> n < 3"
      with n have "n = 3 \<or> n = 4 \<or> n = 5 \<or> n = 6 \<or> n = 7" by auto
      with b show False by (cases mt) auto
    qed
    moreover have "\<not> bit x (5 + n)" using below_32_bit [OF assms, of "5 + n"] by auto
    ultimately show "bit (drop_bit 5 (push_bit 5 (major_code mt) OR x)) n = bit (major_code mt) n"
      using n by (auto simp: bit_or_iff bit_push_bit_iff bit_drop_bit_eq)
  qed
  moreover have "major_of_bits (major_code mt) = mt" by (cases mt) (simp_all add: major_of_bits_def)
  ultimately show "major_of_bits (drop_bit 5 (push_bit 5 (major_code mt) OR x)) = mt" by simp
qed

lemma read_big_endian_ok:
  "\<lbrakk>stands d k rest; i + n < 2 ^ 64;
    \<forall>j<n. i + j < length rest \<and> rest ! (i + j) = arg_byte (8 * (n - 1 - j)) a\<rbrakk> \<Longrightarrow>
   read_big_endian n (of_nat i) (drop_bit (8 * n) a) d = (Inr a, d)"
proof (induction n arbitrary: i)
  case 0
  then show ?case by simp
next
  case (Suc n)
  have b: "i < length rest" "rest ! i = arg_byte (8 * n) a"
    using Suc.prems(3) [rule_format, of 0] by simp_all
  have u: "unat (of_nat i :: u64) = i" using Suc.prems(2) by (intro unat_of_nat_u64) simp
  have p: "peek (of_nat i) d = (Inr (arg_byte (8 * n) a), d)"
    using peek_ok [OF Suc.prems(1), of "of_nat i"] b u by simp
  have s: "push_bit 8 (drop_bit (8 + 8 * n) a) OR ucast (arg_byte (8 * n) a) = drop_bit (8 * n) a"
    using big_endian_step [of "8 * n" a] by (simp add: add.commute)
  have next': "\<forall>j<n. Suc i + j < length rest \<and> rest ! (Suc i + j) = arg_byte (8 * (n - 1 - j)) a"
  proof (intro allI impI)
    fix j
    assume "j < n"
    with Suc.prems(3) [rule_format, of "Suc j"]
    show "Suc i + j < length rest \<and> rest ! (Suc i + j) = arg_byte (8 * (n - 1 - j)) a" by simp
  qed
  have "read_big_endian n (of_nat (Suc i)) (drop_bit (8 * n) a) d = (Inr a, d)"
    using Suc.IH [OF Suc.prems(1) _ next'] Suc.prems(2) by simp
  then show ?case
    by (simp add: dec_bind_Inr [where m = "peek (of_nat i)", OF p] s add.commute)
qed


text \<open>Reading an argument, for each of the five forms of an encoding.\<close>

lemma read_argument_step:
  assumes st: "stands d k (bs @ post)" and n: "unat n = length bs" and body: "m d = (Inr v, d)"
  shows "\<exists>d'. dec_bind (ensure_available n) (\<lambda>_. dec_bind m (\<lambda>r. dec_bind (advance n) (\<lambda>_. dec_return (f r)))) d
      = (Inr (f v), d') \<and> stands d' (k + length bs) post
      \<and> cd_data d' = cd_data d \<and> cd_depth d' = cd_depth d \<and> cd_max_depth d' = cd_max_depth d"
proof -
  have le: "unat n \<le> length (bs @ post)" using n by simp
  note e = ensure_available_ok [OF st le]
  obtain d' where a: "advance n d = (Inr (), d')" "stands d' (k + unat n) (drop (unat n) (bs @ post))"
    "cd_data d' = cd_data d \<and> cd_depth d' = cd_depth d \<and> cd_max_depth d' = cd_max_depth d"
    using advance_ok [OF st le] by blast
  have "dec_bind (ensure_available n) (\<lambda>_. dec_bind m (\<lambda>r. dec_bind (advance n) (\<lambda>_. dec_return (f r)))) d
      = (Inr (f v), d')"
    by (simp add: dec_bind_def e body a(1))
  with a n show ?thesis by simp
qed

lemma read_argument_big_endian:
  assumes "stands d k (map (\<lambda>j. arg_byte (8 * (n - 1 - j)) a) [0..<n] @ post)" and "drop_bit (8 * n) a = 0"
  shows "read_big_endian n 0 0 d = (Inr a, d)"
proof -
  let ?bs = "map (\<lambda>j. arg_byte (8 * (n - 1 - j)) a) [0..<n] @ post"
  have "n < 2 ^ 64" using stands_length [OF assms(1)] by simp
  moreover have "\<forall>j<n. 0 + j < length ?bs \<and> ?bs ! (0 + j) = arg_byte (8 * (n - 1 - j)) a"
    by (simp add: nth_append)
  ultimately show ?thesis using read_big_endian_ok [OF assms(1), of 0 n a] assms(2) by simp
qed

lemma drop_bit_small: "unat (a :: u64) < 2 ^ n \<Longrightarrow> drop_bit n a = 0"
proof -
  assume "unat a < 2 ^ n"
  then have "drop_bit n (unat a) = 0" by (simp add: drop_bit_eq_div)
  moreover have "unat (drop_bit n a) = drop_bit n (unat a)" by (rule unat_drop_bit_eq)
  ultimately show ?thesis by (simp add: unat_eq_zero)
qed

lemma ucast_ucast_small:
  assumes "unat (a :: u64) < 256"
  shows "ucast (ucast a :: u8) = a"
proof -
  have "unat (ucast a :: u8) = unat a" using assms by (simp add: unsigned_ucast_eq take_bit_nat_eq_self)
  moreover have "unat (ucast (ucast a :: u8) :: u64) = unat (ucast a :: u8)" by (rule unat_ucast_up) simp
  ultimately show ?thesis by (simp only: word_unat_eq_iff)
qed

text \<open>What \<open>writeTypeAndArgument\<close> writes: an initial byte and the bytes of the argument.\<close>

definition arg_info :: "u64 \<Rightarrow> u8" where
  "arg_info a = (if a \<le> 23 then ucast a else if a \<le> 0xFF then 24 else if a \<le> 0xFFFF then 25
     else if a \<le> 0xFFFFFFFF then 26 else 27)"

definition arg_bytes :: "u64 \<Rightarrow> u8 list" where
  "arg_bytes a = (let n = (if a \<le> 23 then 0 else if a \<le> 0xFF then 1 else if a \<le> 0xFFFF then 2
     else if a \<le> 0xFFFFFFFF then 4 else 8) in map (\<lambda>j. arg_byte (8 * (n - 1 - j)) a) [0..<n])"

lemma arg_byte_low: "arg_byte 0 a = ucast a"
  by (rule bit_word_eqI) (auto simp: bit_arg_byte bit_ucast_iff)

lemma header_bytes_split: "header_bytes mt a = (push_bit 5 (major_code mt) OR arg_info a) # arg_bytes a"
  by (simp add: header_bytes_def write_type_and_argument_def arg_info_def arg_bytes_def Let_def
      upt_rec arg_byte_low)

lemma arg_info_below: "arg_info a < 32"
proof (cases "a \<le> 23")
  case True
  then have "unat a \<le> 23" by (simp add: word_le_nat_alt)
  then have "unat (ucast a :: u8) \<le> 23" by (simp add: unsigned_ucast_eq take_bit_nat_eq_self)
  with True show ?thesis by (simp add: arg_info_def word_less_nat_alt)
qed (simp add: arg_info_def)

lemma read_argument_ok:
  assumes st: "stands d k (arg_bytes a @ post)"
  shows "\<exists>d'. read_argument (arg_info a) d = (Inr a, d') \<and> stands d' (k + length (arg_bytes a)) post
    \<and> cd_data d' = cd_data d \<and> cd_depth d' = cd_depth d \<and> cd_max_depth d' = cd_max_depth d"
proof -
  consider (i) "a \<le> 23" | (b1) "\<not> a \<le> 23" "a \<le> 0xFF" | (b2) "\<not> a \<le> 23" "\<not> a \<le> 0xFF" "a \<le> 0xFFFF"
    | (b4) "\<not> a \<le> 23" "\<not> a \<le> 0xFF" "\<not> a \<le> 0xFFFF" "a \<le> 0xFFFFFFFF"
    | (b8) "\<not> a \<le> 23" "\<not> a \<le> 0xFF" "\<not> a \<le> 0xFFFF" "\<not> a \<le> 0xFFFFFFFF" by blast
  then show ?thesis
  proof cases
    case i
    then have n: "unat a \<le> 23" by (simp add: word_le_nat_alt)
    then have "unat (ucast a :: u8) \<le> 23" by (simp add: unsigned_ucast_eq take_bit_nat_eq_self)
    then have "ucast a < (24 :: u8)" by (simp add: word_less_nat_alt)
    moreover have "ucast (ucast a :: u8) = a" using n by (intro ucast_ucast_small) simp
    ultimately show ?thesis using i st by (simp add: read_argument_def arg_info_def arg_bytes_def)
  next
    case b1
    have bs: "arg_bytes a = [ucast a]" using b1 by (simp add: arg_bytes_def upt_rec arg_byte_low)
    have "unat a < 256" using b1 by (simp add: word_le_nat_alt)
    then have v: "ucast (ucast a :: u8) = a" by (rule ucast_ucast_small)
    have "peek 0 d = (Inr (ucast a), d)" using peek_ok [OF st, of 0] bs by simp
    from read_argument_step [where m = "peek 0" and f = "ucast :: u8 \<Rightarrow> u64" and n = 1, OF st _ this] b1 bs v show ?thesis
      by (simp add: read_argument_def arg_info_def)
  next
    case b2
    have bs: "arg_bytes a = [arg_byte 8 a, arg_byte 0 a]" using b2 by (simp add: arg_bytes_def upt_rec)
    have "unat a < 2 ^ 16" using b2(3) by (simp add: word_le_nat_alt)
    then have "drop_bit 16 a = 0" by (rule drop_bit_small)
    with big_endian_step [of 8 a] have "ucast (arg_byte 8 a) = drop_bit 8 a" by simp
    with big_endian_step [of 0 a] have v: "push_bit 8 (ucast (arg_byte 8 a)) OR ucast (arg_byte 0 a) = a" by simp
    let ?m = "dec_bind (peek 0) (\<lambda>b. dec_bind (peek 1) (\<lambda>c. dec_return (push_bit 8 (ucast b) OR ucast c))) :: u64 dec"
    have "peek 0 d = (Inr (arg_byte 8 a), d)" "peek 1 d = (Inr (arg_byte 0 a), d)"
      using peek_ok [OF st, of 0] peek_ok [OF st, of 1] bs by simp_all
    then have "?m d = (Inr a, d)" by (simp add: dec_bind_def v)
    from read_argument_step [where m = ?m and f = id and n = 2, OF st _ this] b2 bs show ?thesis
      by (simp add: read_argument_def arg_info_def dec_bind_assoc dec_bind_return)
  next
    case b4
    have bs: "arg_bytes a = map (\<lambda>j. arg_byte (8 * (4 - 1 - j)) a) [0..<4]" using b4 by (simp add: arg_bytes_def)
    have "unat a < 2 ^ 32" using b4(4) by (simp add: word_le_nat_alt)
    then have "drop_bit (8 * 4) a = 0" using drop_bit_small [of a 32] by simp
    then have "read_big_endian 4 0 0 d = (Inr a, d)"
      by (rule read_argument_big_endian [OF st [unfolded bs]])
    from read_argument_step [where f = id and n = 4 and m = "read_big_endian 4 0 0" and bs = "arg_bytes a" and post = post, OF st _ this] b4 bs show ?thesis
      by (simp add: read_argument_def arg_info_def)
  next
    case b8
    have bs: "arg_bytes a = map (\<lambda>j. arg_byte (8 * (8 - 1 - j)) a) [0..<8]" using b8 by (simp add: arg_bytes_def)
    have "drop_bit (8 * 8) a = 0" using drop_bit_small [of a 64] unat_bound [of a] by simp
    then have "read_big_endian 8 0 0 d = (Inr a, d)"
      by (rule read_argument_big_endian [OF st [unfolded bs]])
    from read_argument_step [where f = id and n = 8 and m = "read_big_endian 8 0 0" and bs = "arg_bytes a" and post = post, OF st _ this] b8 bs show ?thesis
      by (simp add: read_argument_def arg_info_def)
  qed
qed

end
