(* ===== verification/Cbor_Codec.thy ===== *)
theory Cbor_Codec
  imports Cbor
begin

text \<open>
  Round trips of the CBOR encoder and decoder: each reader gives back what the writer wrote,
  anywhere in a buffer; the interface \<open>prefix_codec\<close> is interpreted for headers, integers, byte
  strings and text strings; whole sessions of write calls are read back by the matching read
  calls; and on arbitrary input no reader leaves the buffer, with one exception that is proved.
\<close>

section \<open>Reading back\<close>

definition moved :: "cbor_decoder \<Rightarrow> nat \<Rightarrow> cbor_decoder \<Rightarrow> nat \<Rightarrow> u8 list \<Rightarrow> bool" where
  "moved d k d' n rest \<longleftrightarrow> stands d' (k + n) rest
     \<and> cd_data d' = cd_data d \<and> cd_depth d' = cd_depth d \<and> cd_max_depth d' = cd_max_depth d"

lemma next_byte_ok:
  assumes st: "stands d k (b # rest)"
  shows "\<exists>d'. next_byte d = (Inr b, d') \<and> moved d k d' 1 rest"
proof -
  have "peek 0 d = (Inr b, d)" using peek_ok [OF st, of 0] by simp
  from read_argument_step [where m = "peek 0" and f = id and n = 1 and bs = "[b]" and post = rest, OF _ _ this] st
  show ?thesis by (simp add: next_byte_def moved_def)
qed

lemma read_header_ok:
  assumes st: "stands d k (header_bytes mt a @ post)"
  shows "\<exists>d'. read_header d = (Inr (Item_header mt a), d') \<and> moved d k d' (length (header_bytes mt a)) post"
proof -
  let ?b = "push_bit 5 (major_code mt) OR arg_info a"
  have st': "stands d k (?b # (arg_bytes a @ post))" using st by (simp add: header_bytes_split)
  obtain d1 where d1: "next_byte d = (Inr ?b, d1)" "moved d k d1 1 (arg_bytes a @ post)"
    using next_byte_ok [OF st'] by blast
  then have st1: "stands d1 (k + 1) (arg_bytes a @ post)" by (simp add: moved_def)
  obtain d2 where d2: "read_argument (arg_info a) d1 = (Inr a, d2)"
    "stands d2 (k + 1 + length (arg_bytes a)) post"
    "cd_data d2 = cd_data d1 \<and> cd_depth d2 = cd_depth d1 \<and> cd_max_depth d2 = cd_max_depth d1"
    using read_argument_ok [OF st1] by blast
  have "read_header d = (Inr (Item_header mt a), d2)"
    unfolding read_header_def dec_bind_Inr [where m = next_byte, OF d1(1)] initial_byte [OF arg_info_below]
    by (simp add: dec_bind_Inr [where m = "read_argument (arg_info a)", OF d2(1)])
  with d1(2) d2(2,3) show ?thesis by (simp add: moved_def header_bytes_split add.assoc)
qed

lemma take_range_ok:
  assumes st: "stands d k (s @ post)"
  shows "\<exists>d'. take_range (of_nat (length s)) d = (Inr s, d') \<and> moved d k d' (length s) post"
proof -
  note l = stands_length [OF st] and p = stands_pos [OF st]
  have u: "unat (of_nat (length s) :: u64) = length s" using l by (intro unat_of_nat_u64) simp
  have "drop k (cd_data d) = s @ post" using st by (simp add: stands_def)
  then have "drop (k + length s) (cd_data d) = post" "take (length s) (drop k (cd_data d)) = s"
    using drop_drop [of "length s" k "cd_data d"] by (simp_all add: add.commute)
  with l p u st show ?thesis by (simp add: take_range_def moved_def stands_def)
qed

lemma write_string_header: "write_bytes out b = out @ header_bytes ByteString (of_nat (length b)) @ b"
  "write_text out b = out @ header_bytes TextString (of_nat (length b)) @ b"
  by (simp_all add: write_bytes_def write_text_def write_type_and_argument_append)

lemma string_body_ok:
  assumes st: "stands d k (s @ post)"
  shows "\<exists>d'. dec_bind (ensure_available (of_nat (length s))) (\<lambda>_. take_range (of_nat (length s))) d = (Inr s, d')
    \<and> moved d k d' (length s) post"
proof -
  have "unat (of_nat (length s) :: u64) = length s" using stands_length [OF st] by (intro unat_of_nat_u64) simp
  then have e: "ensure_available (of_nat (length s)) d = (Inr (), d)" by (intro ensure_available_ok [OF st]) simp
  with take_range_ok [OF st] show ?thesis by (simp add: dec_bind_def)
qed

lemma read_text_ok:
  assumes st: "stands d k (write_text [] s @ post)"
  shows "\<exists>d'. read_text d = (Inr s, d') \<and> moved d k d' (length (write_text [] s)) post"
proof -
  let ?h = "header_bytes TextString (of_nat (length s))"
  obtain d1 where d1: "read_header d = (Inr (Item_header TextString (of_nat (length s))), d1)"
    "moved d k d1 (length ?h) (s @ post)"
    using read_header_ok [of d k TextString "of_nat (length s)" "s @ post"] st by (auto simp: write_string_header)
  then have "stands d1 (k + length ?h) (s @ post)" by (simp add: moved_def)
  from string_body_ok [OF this] obtain d2 where d2:
    "dec_bind (ensure_available (of_nat (length s))) (\<lambda>_. take_range (of_nat (length s))) d1 = (Inr s, d2)"
    "moved d1 (k + length ?h) d2 (length s) post" by blast
  have "read_text d = (Inr s, d2)"
    unfolding read_text_def dec_bind_Inr [where m = read_header, OF d1(1)]
    by (simp add: dec_bind_Inr [where m = "dec_lift (safe_to_size_t _)", OF dec_lift_safe] d2(1))
  with d1(2) d2(2) show ?thesis by (simp add: moved_def write_string_header add.assoc)
qed

lemma read_bytes_ok:
  assumes st: "stands d k (write_bytes [] s @ post)"
  shows "\<exists>d'. read_bytes d = (Inr s, d') \<and> moved d k d' (length (write_bytes [] s)) post"
proof -
  let ?h = "header_bytes ByteString (of_nat (length s))"
  obtain d1 where d1: "read_header d = (Inr (Item_header ByteString (of_nat (length s))), d1)"
    "moved d k d1 (length ?h) (s @ post)"
    using read_header_ok [of d k ByteString "of_nat (length s)" "s @ post"] st by (auto simp: write_string_header)
  then have "stands d1 (k + length ?h) (s @ post)" by (simp add: moved_def)
  from string_body_ok [OF this] obtain d2 where d2:
    "dec_bind (ensure_available (of_nat (length s))) (\<lambda>_. take_range (of_nat (length s))) d1 = (Inr s, d2)"
    "moved d1 (k + length ?h) d2 (length s) post" by blast
  have "read_bytes d = (Inr s, d2)"
    unfolding read_bytes_def dec_bind_Inr [where m = read_header, OF d1(1)]
    by (simp add: dec_bind_Inr [where m = "dec_lift (safe_to_size_t _)", OF dec_lift_safe] d2(1))
  with d1(2) d2(2) show ?thesis by (simp add: moved_def write_string_header add.assoc)
qed

text \<open>Readers that look at the header only.\<close>

lemma after_header_ok:
  assumes st: "stands d k (header_bytes mt a @ post)" and f: "\<And>d. f (Item_header mt a) d = (Inr v, d)"
  shows "\<exists>d'. dec_bind read_header f d = (Inr v, d') \<and> moved d k d' (length (header_bytes mt a)) post"
proof -
  obtain d1 where d1: "read_header d = (Inr (Item_header mt a), d1)" "moved d k d1 (length (header_bytes mt a)) post"
    using read_header_ok [OF st] by blast
  with f show ?thesis by (simp add: dec_bind_Inr [where m = read_header, OF d1(1)])
qed

lemma read_uint_ok:
  assumes st: "stands d k (write_uint [] v @ post)"
  shows "\<exists>d'. read_uint d = (Inr v, d') \<and> moved d k d' (length (write_uint [] v)) post"
proof -
  have w: "write_uint [] v = header_bytes UnsignedInt v" by (simp add: write_uint_def header_bytes_def)
  show ?thesis unfolding w read_uint_def by (rule after_header_ok) (use st w in simp_all)
qed

lemma int64_max_unat: "a \<le> int64_max \<longleftrightarrow> unat a < 2 ^ 63" for a :: u64
proof -
  have "unat int64_max = 2 ^ 63 - 1" by (simp add: int64_max_def)
  then show ?thesis by (simp add: word_le_nat_alt less_eq_Suc_le)
qed

lemma int_unat_uint: "uint a = int (unat a)"
  by simp
lemma sint_nonneg_imp_unat:
  fixes a::u64 assumes "0 \<le> sint a" shows "unat a < 2 ^ 63"
proof -
  have "sint a < 2 ^ (LENGTH(64) - 1)" by (rule sint_lt)
  then have l: "sint a < 2 ^ 63" by simp
  have "uint a = take_bit LENGTH(64) (sint a)" by (rule uint_sint)
  also have "\<dots> = sint a" using assms l by (intro take_bit_int_eq_self) simp_all
  finally have "int (unat a) < int (2 ^ 63)" using l unfolding int_unat_uint by simp
  then show ?thesis by (simp only: of_nat_less_iff)
qed
lemma unat_imp_sint_nonneg:
  fixes a::u64 assumes "unat a < 2 ^ 63" shows "0 \<le> sint a"
proof -
  have "int (unat a) < int (2 ^ 63)" using assms by (simp only: of_nat_less_iff)
  then have u: "uint a < 2 ^ (LENGTH(64) - 1)" unfolding int_unat_uint by simp
  have p: "- (2 ^ (LENGTH(64) - 1)) \<le> uint a" by (rule order.trans [of _ 0]) simp_all
  have "sint a = signed_take_bit (LENGTH(64) - 1) (uint a)" by (simp only: sint_uint One_nat_def)
  also have "\<dots> = uint a" by (rule signed_take_bit_int_eq_self [OF p u])
  finally show ?thesis by simp
qed
lemma sint_nonneg_unat: "0 \<le> sint a \<longleftrightarrow> unat a < 2 ^ 63" for a :: u64
  using sint_nonneg_imp_unat unat_imp_sint_nonneg by blast

lemma read_int_ok:
  assumes st: "stands d k (write_int [] v @ post)"
  shows "\<exists>d'. read_int d = (Inr v, d') \<and> moved d k d' (length (write_int [] v)) post"
proof (cases "0 \<le> sint v")
  case True
  then have w: "write_int [] v = header_bytes UnsignedInt v"
    by (simp add: write_int_def write_uint_def header_bytes_def)
  have "v \<le> int64_max" using True by (simp add: int64_max_unat sint_nonneg_unat)
  then show ?thesis unfolding w read_int_def by (intro after_header_ok) (use st w in simp_all)
next
  case False
  then have w: "write_int [] v = header_bytes NegativeInt (NOT v)"
    by (simp add: write_int_def header_bytes_def)
  have n: "NOT v = - 1 - v" by (simp add: not_eq_complement)
  have "unat (- 1 - v) = unat (- 1 :: u64) - unat v" by (intro unat_sub) simp
  moreover have "unat (- 1 :: u64) = 2 ^ 64 - 1" by (simp add: unsigned_minus_1_eq_mask mask_eq_exp_minus_1)
  ultimately have "unat (NOT v) < 2 ^ 63" using False n by (simp add: sint_nonneg_unat not_less)
  then have "NOT v \<le> int64_max" by (simp add: int64_max_unat)
  moreover have "- 1 - NOT v = v" by (simp add: not_eq_complement)
  ultimately show ?thesis unfolding w read_int_def by (intro after_header_ok) (use st w in simp_all)
qed

lemma after_byte_ok:
  assumes st: "stands d k (b # post)" and f: "\<And>d. f b d = (Inr v, d)"
  shows "\<exists>d'. dec_bind next_byte f d = (Inr v, d') \<and> moved d k d' 1 post"
proof -
  obtain d1 where d1: "next_byte d = (Inr b, d1)" "moved d k d1 1 post" using next_byte_ok [OF st] by blast
  with f show ?thesis by (simp add: dec_bind_Inr [where m = next_byte, OF d1(1)])
qed

lemma read_bool_ok:
  assumes st: "stands d k (write_bool [] v @ post)"
  shows "\<exists>d'. read_bool d = (Inr v, d') \<and> moved d k d' (length (write_bool [] v)) post"
proof -
  have w: "write_bool [] v = [0xF4 + (if v then 1 else 0)]" "length (write_bool [] v) = 1"
    by (simp_all add: write_bool_def)
  show ?thesis unfolding w(2) read_bool_def
    by (rule after_byte_ok [where b = "0xF4 + (if v then 1 else 0)"]) (use st w(1) in \<open>cases v; simp\<close>)+
qed

lemma read_null_ok:
  assumes st: "stands d k (write_null [] @ post)"
  shows "\<exists>d'. read_null d = (Inr (), d') \<and> moved d k d' (length (write_null [])) post"
proof -
  have w: "write_null [] = [0xF6]" "length (write_null []) = 1" by (simp_all add: write_null_def)
  show ?thesis unfolding w(2) read_null_def by (rule after_byte_ok) (use st w(1) in simp_all)
qed

text \<open>Entering an array or a map also counts the depth.\<close>

definition entered :: "cbor_decoder \<Rightarrow> nat \<Rightarrow> cbor_decoder \<Rightarrow> nat \<Rightarrow> u8 list \<Rightarrow> bool" where
  "entered d k d' n rest \<longleftrightarrow> stands d' (k + n) rest
     \<and> cd_data d' = cd_data d \<and> cd_depth d' = cd_depth d + 1 \<and> cd_max_depth d' = cd_max_depth d"

lemma read_container_ok:
  assumes st: "stands d k (header_bytes mt n @ post)" and depth: "cd_depth d < cd_max_depth d"
    and f: "f (Item_header mt n) = dec_bind enter_container (\<lambda>_. dec_lift (safe_to_size_t n))"
  shows "\<exists>d'. dec_bind read_header f d = (Inr n, d') \<and> entered d k d' (length (header_bytes mt n)) post"
proof -
  obtain d1 where d1: "read_header d = (Inr (Item_header mt n), d1)" "moved d k d1 (length (header_bytes mt n)) post"
    using read_header_ok [OF st] by blast
  then have "enter_container d1 = (Inr (), d1\<lparr>cd_depth := cd_depth d1 + 1\<rparr>)"
    using depth by (simp add: enter_container_def moved_def not_le)
  then have "dec_bind read_header f d = (Inr n, d1\<lparr>cd_depth := cd_depth d1 + 1\<rparr>)"
    by (simp add: dec_bind_Inr [where m = read_header, OF d1(1)] f dec_bind_Inr [where m = enter_container])
  with d1(2) show ?thesis by (auto simp: moved_def entered_def stands_def)
qed

lemma read_array_ok:
  assumes st: "stands d k (begin_array [] n @ post)" and "cd_depth d < cd_max_depth d"
  shows "\<exists>d'. read_array_length d = (Inr n, d') \<and> entered d k d' (length (begin_array [] n)) post"
proof -
  have w: "begin_array [] n = header_bytes Array_type n" by (simp add: begin_array_def header_bytes_def)
  show ?thesis unfolding w read_array_length_def by (rule read_container_ok) (use assms w in simp_all)
qed

lemma read_map_ok:
  assumes st: "stands d k (begin_map [] n @ post)" and "cd_depth d < cd_max_depth d"
  shows "\<exists>d'. read_map_length d = (Inr n, d') \<and> entered d k d' (length (begin_map [] n)) post"
proof -
  have w: "begin_map [] n = header_bytes Map_type n" by (simp add: begin_map_def header_bytes_def)
  show ?thesis unfolding w read_map_length_def by (rule read_container_ok) (use assms w in simp_all)
qed

section \<open>The interface of codecs\<close>

text \<open>A reader, started at a position of a buffer.\<close>

definition decoder_at :: "u8 list \<Rightarrow> nat \<Rightarrow> cbor_decoder" where
  "decoder_at buf pos = (cbor_decode buf)\<lparr>cd_pos := of_nat pos\<rparr>"

definition run_at :: "'a dec \<Rightarrow> u8 list \<Rightarrow> nat \<Rightarrow> fault + ('a \<times> nat)" where
  "run_at m buf pos = (case m (decoder_at buf pos) of
      (Inl e, d) \<Rightarrow> Inl e | (Inr x, d) \<Rightarrow> Inr (x, unat (cd_pos d)))"

lemma stands_decoder_at:
  "length (pre @ rest) < 2 ^ 64 \<Longrightarrow> stands (decoder_at (pre @ rest) (length pre)) (length pre) rest"
  by (simp add: stands_def decoder_at_def cbor_decode_def)

lemma run_at_ok:
  assumes len: "length (pre @ bs @ post) < 2 ^ 64"
    and rd: "\<And>d k. stands d k (bs @ post) \<Longrightarrow> \<exists>d'. m d = (Inr v, d') \<and> moved d k d' (length bs) post"
  shows "run_at m (pre @ bs @ post) (length pre) = Inr (v, length pre + length bs)"
proof -
  obtain d' where d': "m (decoder_at (pre @ bs @ post) (length pre)) = (Inr v, d')"
    "stands d' (length pre + length bs) post"
    using rd [OF stands_decoder_at [OF len]] by (auto simp: moved_def)
  from stands_pos [OF d'(2)] d'(1) show ?thesis by (simp add: run_at_def)
qed

interpretation cbor_header: prefix_codec "\<lambda>_. True" "\<lambda>h. header_bytes (major h) (argument h)"
  "run_at read_header" "2 ^ 64"
proof unfold_locales
  fix h :: item_header and pre post
  assume "length (pre @ header_bytes (major h) (argument h) @ post) < 2 ^ 64"
  then show "run_at read_header (pre @ header_bytes (major h) (argument h) @ post) (length pre)
      = Inr (h, length pre + length (header_bytes (major h) (argument h)))"
    by (rule run_at_ok) (use read_header_ok in fastforce)
qed

interpretation cbor_int: prefix_codec "\<lambda>_. True" "write_int []" "run_at read_int" "2 ^ 64"
  by unfold_locales (rule run_at_ok, assumption, rule read_int_ok)

interpretation cbor_text: prefix_codec "\<lambda>_. True" "write_text []" "run_at read_text" "2 ^ 64"
  by unfold_locales (rule run_at_ok, assumption, rule read_text_ok)

interpretation cbor_bytes: prefix_codec "\<lambda>_. True" "write_bytes []" "run_at read_bytes" "2 ^ 64"
  by unfold_locales (rule run_at_ok, assumption, rule read_bytes_ok)

section \<open>Sessions\<close>

text \<open>
  A session is a sequence of calls of the encoder; the decoder answers it with the calls of the
  same kinds.  \<open>End_container\<close> is a call of the decoder only.
\<close>

datatype cbor_item = Uint u64 | Sint u64 | Bool bool | Null | Bytes "u8 list" | Text "u8 list"
  | Array u64 | Dict u64 | End_container

datatype cbor_call = Read_uint | Read_int | Read_bool | Read_null | Read_bytes | Read_text
  | Read_array | Read_map | Read_end

fun call_for :: "cbor_item \<Rightarrow> cbor_call" where
  "call_for (Uint v) = Read_uint"
| "call_for (Sint v) = Read_int"
| "call_for (Bool b) = Read_bool"
| "call_for Null = Read_null"
| "call_for (Bytes b) = Read_bytes"
| "call_for (Text s) = Read_text"
| "call_for (Array n) = Read_array"
| "call_for (Dict n) = Read_map"
| "call_for End_container = Read_end"

fun write_item :: "u8 list \<Rightarrow> cbor_item \<Rightarrow> u8 list" where
  "write_item out (Uint v) = write_uint out v"
| "write_item out (Sint v) = write_int out v"
| "write_item out (Bool b) = write_bool out b"
| "write_item out Null = write_null out"
| "write_item out (Bytes b) = write_bytes out b"
| "write_item out (Text s) = write_text out s"
| "write_item out (Array n) = begin_array out n"
| "write_item out (Dict n) = begin_map out n"
| "write_item out End_container = out"

definition write_session :: "cbor_item list \<Rightarrow> u8 list" where
  "write_session items = foldl write_item [] items"

fun read_item :: "cbor_call \<Rightarrow> cbor_item dec" where
  "read_item Read_uint = dec_bind read_uint (\<lambda>v. dec_return (Uint v))"
| "read_item Read_int = dec_bind read_int (\<lambda>v. dec_return (Sint v))"
| "read_item Read_bool = dec_bind read_bool (\<lambda>b. dec_return (Bool b))"
| "read_item Read_null = dec_bind read_null (\<lambda>_. dec_return Null)"
| "read_item Read_bytes = dec_bind read_bytes (\<lambda>b. dec_return (Bytes b))"
| "read_item Read_text = dec_bind read_text (\<lambda>s. dec_return (Text s))"
| "read_item Read_array = dec_bind read_array_length (\<lambda>n. dec_return (Array n))"
| "read_item Read_map = dec_bind read_map_length (\<lambda>n. dec_return (Dict n))"
| "read_item Read_end = (\<lambda>d. (Inr End_container, end_container d))"

fun read_session :: "cbor_call list \<Rightarrow> cbor_item list dec" where
  "read_session [] = dec_return []"
| "read_session (c # cs) = dec_bind (read_item c) (\<lambda>i. dec_bind (read_session cs) (\<lambda>is. dec_return (i # is)))"

text \<open>The depth stays within the limit along the session.\<close>

fun depth_after :: "cbor_item \<Rightarrow> u64 \<Rightarrow> u64" where
  "depth_after (Array n) k = k + 1"
| "depth_after (Dict n) k = k + 1"
| "depth_after End_container k = (if k > 0 then k - 1 else k)"
| "depth_after _ k = k"

fun depth_within :: "u64 \<Rightarrow> u64 \<Rightarrow> cbor_item list \<Rightarrow> bool" where
  "depth_within limit k [] \<longleftrightarrow> True"
| "depth_within limit k (i # is) \<longleftrightarrow>
    (case i of Array _ \<Rightarrow> k < limit | Dict _ \<Rightarrow> k < limit | _ \<Rightarrow> True) \<and> depth_within limit (depth_after i k) is"

lemma write_item_append: "write_item out i = out @ write_item [] i"
  by (cases i) (simp_all add: write_uint_def write_int_def write_bool_def write_null_def write_bytes_def
      write_text_def begin_array_def begin_map_def write_type_and_argument_append)

lemma foldl_write_item: "foldl write_item out items = out @ concat (map (write_item []) items)"
  by (induction items arbitrary: out) (simp, simp, metis append_assoc write_item_append)

lemma then_return_ok: "m d = (Inr v, d') \<Longrightarrow> dec_bind m (\<lambda>x. dec_return (f x)) d = (Inr (f v), d')"
  by (simp add: dec_bind_def)

lemma read_item_ok:
  assumes st: "stands d k (write_item [] i @ post)"
    and depth: "case i of Array _ \<Rightarrow> cd_depth d < cd_max_depth d | Dict _ \<Rightarrow> cd_depth d < cd_max_depth d | _ \<Rightarrow> True"
  shows "\<exists>d'. read_item (call_for i) d = (Inr i, d') \<and> stands d' (k + length (write_item [] i)) post
    \<and> cd_depth d' = depth_after i (cd_depth d) \<and> cd_max_depth d' = cd_max_depth d"
proof (cases i)
  case (Uint v)
  with read_uint_ok [of d k v post] st show ?thesis by (fastforce simp: moved_def intro: then_return_ok)
next
  case (Sint v)
  with read_int_ok [of d k v post] st show ?thesis by (fastforce simp: moved_def intro: then_return_ok)
next
  case (Bool b)
  with read_bool_ok [of d k b post] st show ?thesis by (fastforce simp: moved_def intro: then_return_ok)
next
  case Null
  with read_null_ok [of d k post] st show ?thesis by (fastforce simp: moved_def intro: then_return_ok)
next
  case (Bytes b)
  with read_bytes_ok [of d k b post] st show ?thesis by (fastforce simp: moved_def intro: then_return_ok)
next
  case (Text s)
  with read_text_ok [of d k s post] st show ?thesis by (fastforce simp: moved_def intro: then_return_ok)
next
  case (Array n)
  with read_array_ok [of d k n post] st depth show ?thesis by (fastforce simp: entered_def intro: then_return_ok)
next
  case (Dict n)
  with read_map_ok [of d k n post] st depth show ?thesis by (fastforce simp: entered_def intro: then_return_ok)
next
  case End_container
  with st show ?thesis by (simp add: end_container_def stands_def)
qed

lemma read_session_ok:
  "\<lbrakk>stands d k (concat (map (write_item []) items) @ post); depth_within (cd_max_depth d) (cd_depth d) items\<rbrakk> \<Longrightarrow>
   \<exists>d'. read_session (map call_for items) d = (Inr items, d')
     \<and> stands d' (k + length (concat (map (write_item []) items))) post"
proof (induction items arbitrary: d k)
  case Nil
  then show ?case by simp
next
  case (Cons i items)
  let ?rest = "concat (map (write_item []) items) @ post"
  have st: "stands d k (write_item [] i @ ?rest)" using Cons.prems(1) by simp
  have depth: "case i of Array _ \<Rightarrow> cd_depth d < cd_max_depth d | Dict _ \<Rightarrow> cd_depth d < cd_max_depth d | _ \<Rightarrow> True"
    using Cons.prems(2) by simp
  obtain d1 where d1: "read_item (call_for i) d = (Inr i, d1)" "stands d1 (k + length (write_item [] i)) ?rest"
    "cd_depth d1 = depth_after i (cd_depth d)" "cd_max_depth d1 = cd_max_depth d"
    using read_item_ok [OF st depth] by blast
  have "depth_within (cd_max_depth d1) (cd_depth d1) items" using Cons.prems(2) d1(3,4) by simp
  from Cons.IH [OF d1(2) this] obtain d2 where d2: "read_session (map call_for items) d1 = (Inr items, d2)"
    "stands d2 (k + length (write_item [] i) + length (concat (map (write_item []) items))) post" by blast
  have "read_session (map call_for (i # items)) d = (Inr (i # items), d2)"
    by (simp add: dec_bind_Inr [where m = "read_item (call_for i)", OF d1(1)]
        dec_bind_Inr [where m = "read_session (map call_for items)", OF d2(1)])
  with d2(2) show ?case by (simp add: add.assoc)
qed

section \<open>Arbitrary input\<close>

text \<open>A decoder within its buffer, and operations that keep it there without undefined behaviour.\<close>

definition placed :: "cbor_decoder \<Rightarrow> bool" where
  "placed d \<longleftrightarrow> length (cd_data d) < 2 ^ 63 \<and> unat (cd_pos d) \<le> length (cd_data d)"

definition stays_inside :: "'a dec \<Rightarrow> bool" where
  "stays_inside m \<longleftrightarrow> (\<forall>d. placed d \<longrightarrow>
     placed (snd (m d)) \<and> cd_data (snd (m d)) = cd_data d \<and> fst (m d) \<noteq> Inl Undefined_behaviour)"

lemma stays_inside_bind:
  assumes "stays_inside m" and "\<And>x. stays_inside (f x)"
  shows "stays_inside (dec_bind m f)"
proof -
  have "placed (snd (dec_bind m f d)) \<and> cd_data (snd (dec_bind m f d)) = cd_data d
      \<and> fst (dec_bind m f d) \<noteq> Inl Undefined_behaviour" if d: "placed d" for d
  proof -
    obtain r d1 where m: "m d = (r, d1)" by fastforce
    have d1: "placed d1" "cd_data d1 = cd_data d" "r \<noteq> Inl Undefined_behaviour"
      using assms(1) d m unfolding stays_inside_def by (metis fst_conv snd_conv)+
    show ?thesis
    proof (cases r)
      case (Inl e)
      with m d1 show ?thesis by (simp add: dec_bind_def)
    next
      case (Inr x)
      with m d1 assms(2) [of x] show ?thesis by (simp add: dec_bind_def stays_inside_def)
    qed
  qed
  then show ?thesis by (simp add: stays_inside_def)
qed

lemma stays_inside_return: "stays_inside (dec_return x)"
  by (simp add: stays_inside_def)

lemma stays_inside_throw: "e \<noteq> Undefined_behaviour \<Longrightarrow> stays_inside (dec_throw e)"
  by (simp add: stays_inside_def)

lemma placed_stands: "placed d \<Longrightarrow> stands d (unat (cd_pos d)) (drop (unat (cd_pos d)) (cd_data d))"
  by (simp add: placed_def stands_def)

lemma cd_size_unat: "length (cd_data d) < 2 ^ 64 \<Longrightarrow> unat (cd_size d) = length (cd_data d)"
  by (simp add: cd_size_def unat_of_nat_u64)

lemma ensure_available_short:
  assumes st: "stands d k rest" and n: "length rest < unat n" and k: "k + unat n < 2 ^ 64"
  shows "ensure_available n d = (Inl truncated, d)"
proof -
  note l = stands_length [OF st] and p = stands_pos [OF st]
  have "unat (cd_pos d) + unat n < 2 ^ LENGTH(64)" using p k by simp
  then have "unat (cd_pos d + n) = k + unat n" using p by (simp add: unat_add_lem [THEN iffD1])
  moreover have "unat (cd_size d) = k + length rest" using l by (simp add: cd_size_unat)
  ultimately show ?thesis using n by (simp add: ensure_available_def word_less_nat_alt)
qed

lemma stays_inside_chunk:
  assumes n: "unat n < 2 ^ 62" and body: "\<And>d k rest. \<lbrakk>stands d k rest; unat n \<le> length rest\<rbrakk> \<Longrightarrow> \<exists>v. m d = (Inr v, d)"
  shows "stays_inside (dec_bind (ensure_available n) (\<lambda>_. dec_bind m (\<lambda>r. dec_bind (advance n) (\<lambda>_. dec_return (f r)))))"
proof -
  let ?c = "dec_bind (ensure_available n) (\<lambda>_. dec_bind m (\<lambda>r. dec_bind (advance n) (\<lambda>_. dec_return (f r))))"
  have "placed (snd (?c d)) \<and> cd_data (snd (?c d)) = cd_data d \<and> fst (?c d) \<noteq> Inl Undefined_behaviour"
    if d: "placed d" for d
  proof -
    note st = placed_stands [OF d]
    show ?thesis
    proof (cases "unat n \<le> length (drop (unat (cd_pos d)) (cd_data d))")
      case False
      then have "ensure_available n d = (Inl truncated, d)"
        using n d by (intro ensure_available_short [OF st]) (simp_all add: placed_def)
      then show ?thesis using d by (simp add: dec_bind_def truncated_def)
    next
      case True
      obtain v where v: "m d = (Inr v, d)" using body [OF st True] by blast
      obtain d' where a: "advance n d = (Inr (), d')"
        "stands d' (unat (cd_pos d) + unat n) (drop (unat n) (drop (unat (cd_pos d)) (cd_data d)))" "cd_data d' = cd_data d"
        using advance_ok [OF st True] by blast
      have "?c d = (Inr (f v), d')"
        by (simp add: dec_bind_def ensure_available_ok [OF st True] v a(1))
      moreover have "placed d'"
        using stands_pos [OF a(2)] a(2,3) d True by (simp add: placed_def stands_def)
      ultimately show ?thesis using a(3) by simp
    qed
  qed
  then show ?thesis by (simp add: stays_inside_def)
qed

lemma read_big_endian_total:
  "\<lbrakk>stands d k rest; i + n \<le> length rest\<rbrakk> \<Longrightarrow> \<exists>v. read_big_endian n (of_nat i) r d = (Inr v, d)"
proof (induction n arbitrary: i r)
  case 0
  then show ?case by simp
next
  case (Suc n)
  have "i < 2 ^ 64" using stands_length [OF Suc.prems(1)] Suc.prems(2) by linarith
  then have "unat (of_nat i :: u64) = i" by (rule unat_of_nat_u64)
  then have p: "peek (of_nat i) d = (Inr (rest ! i), d)"
    using peek_ok [OF Suc.prems(1), of "of_nat i"] Suc.prems(2) by simp
  from Suc.IH [OF Suc.prems(1), of "Suc i"] Suc.prems(2) show ?case
    by (simp add: dec_bind_Inr [where m = "peek (of_nat i)", OF p] add.commute)
qed

lemma stays_inside_next_byte: "stays_inside next_byte"
proof -
  have "\<exists>v. peek 0 d = (Inr v, d)" if "stands d k rest" "unat (1 :: u64) \<le> length rest" for d k rest
    using peek_ok [OF that(1), of 0] that(2) by (metis (full_types) One_nat_def Suc_le_lessD unat_0 unsigned_1)
  from stays_inside_chunk [where f = id and m = "peek 0" and n = 1, OF _ this] show ?thesis
    by (simp add: next_byte_def)
qed

lemma stays_inside_read_argument: "stays_inside (read_argument ai)"
proof -
  have p: "\<exists>v. peek i d = (Inr v, d)" if "stands d k rest" "unat i < length rest" for d k rest and i :: u64
    using peek_ok [OF that] by blast
  have one: "stays_inside (dec_bind (ensure_available 1) (\<lambda>_. dec_bind (peek 0) (\<lambda>b.
      dec_bind (advance 1) (\<lambda>_. dec_return (ucast b :: u64)))))"
  proof (rule stays_inside_chunk)
    fix d k rest
    assume "stands d k rest" "unat (1 :: u64) \<le> length rest"
    then show "\<exists>v. peek 0 d = (Inr v, d)" using p [of d k rest 0] by (cases rest) simp_all
  qed simp
  let ?m = "dec_bind (peek 0) (\<lambda>b. dec_bind (peek 1) (\<lambda>c. dec_return (push_bit 8 (ucast b) OR ucast c))) :: u64 dec"
  have two: "stays_inside (dec_bind (ensure_available 2) (\<lambda>_. dec_bind ?m (\<lambda>r. dec_bind (advance 2) (\<lambda>_. dec_return (id r)))))"
  proof (rule stays_inside_chunk)
    fix d k rest
    assume st: "stands d k rest" and l: "unat (2 :: u64) \<le> length rest"
    have "unat (0 :: u64) < length rest" "unat (1 :: u64) < length rest" using l by auto
    then have "peek 0 d = (Inr (rest ! unat (0 :: u64)), d)" "peek 1 d = (Inr (rest ! unat (1 :: u64)), d)"
      using peek_ok [OF st] by blast+
    then show "\<exists>v. ?m d = (Inr v, d)" by (simp add: dec_bind_def)
  qed simp
  have be: "stays_inside (dec_bind (ensure_available n) (\<lambda>_. dec_bind (read_big_endian k 0 0) (\<lambda>r.
      dec_bind (advance n) (\<lambda>_. dec_return (id r)))))" if "unat n = k" "k < 2 ^ 62" for n :: u64 and k
    by (rule stays_inside_chunk) (use that read_big_endian_total [where i = 0] in fastforce)+
  show ?thesis
    using one two be [of 4 4] be [of 8 8]
    by (simp add: read_argument_def stays_inside_return stays_inside_throw dec_bind_assoc dec_bind_return)
qed

lemma stays_inside_read_header: "stays_inside read_header"
  unfolding read_header_def
  by (intro stays_inside_bind stays_inside_next_byte stays_inside_read_argument stays_inside_return)

lemma stays_inside_enter: "stays_inside enter_container"
  by (simp add: stays_inside_def enter_container_def placed_def)

lemma stays_inside_size: "stays_inside (dec_lift (safe_to_size_t n))"
  by (simp add: stays_inside_def)

lemmas stays_inside_intros = stays_inside_bind stays_inside_return stays_inside_throw
  stays_inside_next_byte stays_inside_read_header stays_inside_enter stays_inside_size

section \<open>Truncated input\<close>

lemma read_argument_ensures:
  "\<exists>m. read_argument 24 = dec_bind (ensure_available 1) m"
  "\<exists>m. read_argument 25 = dec_bind (ensure_available 2) m"
  "\<exists>m. read_argument 26 = dec_bind (ensure_available 4) m"
  "\<exists>m. read_argument 27 = dec_bind (ensure_available 8) m"
  by (simp_all add: read_argument_def) blast+

lemma arg_info_cases:
  "(arg_bytes a = [] \<and> read_argument (arg_info a) = dec_return (ucast (arg_info a)))
   \<or> (\<exists>n m. unat n = length (arg_bytes a) \<and> 0 < unat n \<and> read_argument (arg_info a) = dec_bind (ensure_available n) m)"
proof -
  consider (i) "a \<le> 23" | (b1) "\<not> a \<le> 23" "a \<le> 0xFF" | (b2) "\<not> a \<le> 23" "\<not> a \<le> 0xFF" "a \<le> 0xFFFF"
    | (b4) "\<not> a \<le> 23" "\<not> a \<le> 0xFF" "\<not> a \<le> 0xFFFF" "a \<le> 0xFFFFFFFF"
    | (b8) "\<not> a \<le> 23" "\<not> a \<le> 0xFF" "\<not> a \<le> 0xFFFF" "\<not> a \<le> 0xFFFFFFFF" by blast
  then show ?thesis
  proof cases
    case i
    then have n: "unat a \<le> 23" by (simp add: word_le_nat_alt)
    then have "unat (ucast a :: u8) \<le> 23" by (simp add: unsigned_ucast_eq take_bit_nat_eq_self)
    then have "ucast a < (24 :: u8)" by (simp add: word_less_nat_alt)
    then show ?thesis using i by (simp add: read_argument_def arg_info_def arg_bytes_def)
  next
    case b1
    then have "unat (1 :: u64) = length (arg_bytes a)" "0 < unat (1 :: u64)" "arg_info a = 24"
      by (simp_all add: arg_bytes_def arg_info_def)
    with read_argument_ensures(1) show ?thesis by metis
  next
    case b2
    then have "unat (2 :: u64) = length (arg_bytes a)" "0 < unat (2 :: u64)" "arg_info a = 25"
      by (simp_all add: arg_bytes_def arg_info_def)
    with read_argument_ensures(2) show ?thesis by metis
  next
    case b4
    then have "unat (4 :: u64) = length (arg_bytes a)" "0 < unat (4 :: u64)" "arg_info a = 26"
      by (simp_all add: arg_bytes_def arg_info_def)
    with read_argument_ensures(3) show ?thesis by metis
  next
    case b8
    then have "unat (8 :: u64) = length (arg_bytes a)" "0 < unat (8 :: u64)" "arg_info a = 27"
      by (simp_all add: arg_bytes_def arg_info_def)
    with read_argument_ensures(4) show ?thesis by metis
  qed
qed

lemma read_header_truncated:
  assumes st: "stands d k (take n (header_bytes mt a))" and n: "n < length (header_bytes mt a)" and k: "k < 2 ^ 63"
  shows "\<exists>d'. read_header d = (Inl truncated, d')"
proof (cases n)
  case 0
  then have "ensure_available 1 d = (Inl truncated, d)"
    using st k by (intro ensure_available_short [where k = k and rest = "[]"]) simp_all
  then show ?thesis by (simp add: read_header_def next_byte_def dec_bind_def)
next
  case (Suc j)
  let ?b = "push_bit 5 (major_code mt) OR arg_info a"
  have "stands d k (?b # take j (arg_bytes a))" using st Suc by (simp add: header_bytes_split)
  from next_byte_ok [OF this] obtain d1 where d1: "next_byte d = (Inr ?b, d1)" "stands d1 (k + 1) (take j (arg_bytes a))"
    by (auto simp: moved_def)
  have j: "j < length (arg_bytes a)" using n Suc by (simp add: header_bytes_split)
  have len: "length (arg_bytes a) \<le> 8" by (simp add: arg_bytes_def Let_def)
  obtain w m where w: "unat w = length (arg_bytes a)" "read_argument (arg_info a) = dec_bind (ensure_available w) m"
    using arg_info_cases [of a] j by auto
  have "ensure_available w d1 = (Inl truncated, d1)"
    using d1(2) j w(1) k len by (intro ensure_available_short [OF d1(2)]) simp_all
  then have "read_argument (arg_info a) d1 = (Inl truncated, d1)" unfolding w(2) by (simp add: dec_bind_def)
  then have "read_header d = (Inl truncated, d1)"
    unfolding read_header_def dec_bind_Inr [where m = next_byte, OF d1(1)] initial_byte [OF arg_info_below]
    by (simp add: dec_bind_Inl)
  then show ?thesis by blast
qed

section \<open>Properties\<close>

text \<open>C8: whatever sequence of values an encoder has written (integers of both signs over the whole
  64-bit range, booleans, null, byte and text strings, array and map headers), the decoder reads
  the same sequence back with the matching calls and then stands at the end of the input, as long
  as the nesting stays within the limit of 64.\<close>

theorem cbor_session_roundtrip:
  assumes "length (write_session items) < 2 ^ 64" and "depth_within default_max_depth 0 items"
  shows "\<exists>d. read_session (map call_for items) (cbor_decode (write_session items)) = (Inr items, d) \<and> cbor_eof d"
proof -
  let ?bytes = "write_session items"
  have w: "?bytes = concat (map (write_item []) items)" by (simp add: write_session_def foldl_write_item)
  have "stands (cbor_decode ?bytes) 0 (concat (map (write_item []) items) @ [])"
    using assms(1) w by (simp add: stands_def cbor_decode_def)
  from read_session_ok [OF this] assms(2) obtain d where
    "read_session (map call_for items) (cbor_decode ?bytes) = (Inr items, d)" "stands d (length ?bytes) []"
    by (auto simp: cbor_decode_def w)
  moreover have "cbor_eof d"
    using calculation(2) stands_length [OF calculation(2)] by (simp add: cbor_eof_def cd_size_def stands_def)
  ultimately show ?thesis by blast
qed

lemma cbor_session_roundtrip_witness:
  "\<exists>d. read_session [Read_map, Read_text, Read_int, Read_end]
     (cbor_decode (write_session [Dict 1, Text [0x61], Sint (- 500), End_container]))
     = (Inr [Dict 1, Text [0x61], Sint (- 500), End_container], d) \<and> cbor_eof d"
proof -
  have "length (write_session [Dict 1, Text [0x61], Sint (- 500), End_container]) < 2 ^ 64"
    by (simp add: write_session_def begin_map_def write_text_def write_int_def write_uint_def
        write_type_and_argument_def Let_def)
  moreover have "depth_within default_max_depth 0 [Dict 1, Text [0x61], Sint (- 500), End_container]"
    by (simp add: default_max_depth_def)
  ultimately show ?thesis using cbor_session_roundtrip by fastforce
qed

text \<open>C9: the encoding of an integer is shortest-form and self-delimiting: it takes 1, 2, 3, 5 or 9
  bytes according to the magnitude, different integers have different encodings and no encoding is
  a prefix of another.\<close>

theorem cbor_int_encoding_self_delimiting:
  assumes "write_int [] v @ p = write_int [] w @ q" and "length p < 2 ^ 63"
  shows "v = w \<and> p = q \<and> length (write_int [] v) =
    (let a = (if 0 \<le> sint v then v else NOT v) in
     if a \<le> 23 then 1 else if a \<le> 0xFF then 2 else if a \<le> 0xFFFF then 3 else if a \<le> 0xFFFFFFFF then 5 else 9)"
proof -
  have len: "length (write_int [] v) = (let a = (if 0 \<le> sint v then v else NOT v) in
     if a \<le> 23 then 1 else if a \<le> 0xFF then 2 else if a \<le> 0xFFFF then 3 else if a \<le> 0xFFFFFFFF then 5 else 9)"
    by (simp add: write_int_def write_uint_def write_type_and_argument_def Let_def)
  then have "length (write_int [] v) \<le> 9" by (simp add: Let_def)
  then have "length (write_int [] v @ p) < 2 ^ 64" using assms(2) by simp
  from cbor_int.prefix_free [OF TrueI TrueI assms(1) this] len show ?thesis by blast
qed

lemma cbor_int_encoding_self_delimiting_witness:
  "length (write_int [] (0x8000000000000000 :: u64)) = 9"
proof -
  have "sint (0x8000000000000000 :: u64) < 0" using sint_nonneg_unat [of "0x8000000000000000"] by simp
  with cbor_int_encoding_self_delimiting [OF refl, of "[]" "0x8000000000000000"] show ?thesis
    by (simp add: Let_def)
qed

text \<open>Input cut off anywhere inside an encoding is reported as truncated, for every kind of value
  and every length of the cut; it is never read as another value.\<close>

theorem cbor_truncated_input:
  assumes n: "n < length (write_item [] i)" and len: "length (write_item [] i) < 2 ^ 63"
  shows "fst (read_item (call_for i) (cbor_decode (take n (write_item [] i)))) = Inl truncated"
proof -
  let ?d = "\<lambda>bs. cbor_decode bs"
  have st: "stands (?d bs) 0 bs" if "length bs < 2 ^ 64" for bs
    using that by (simp add: stands_def cbor_decode_def)
  have hdr: "\<exists>d'. read_header (?d (take n (header_bytes mt a))) = (Inl truncated, d')"
    if "n < length (header_bytes mt a)" for mt a
    using that header_bytes_not_empty(2) [of mt a] by (intro read_header_truncated [OF st]) simp_all
  have byte: "next_byte (?d []) = (Inl truncated, ?d [])"
    using ensure_available_short [OF st, of "[]" 1] by (simp add: next_byte_def dec_bind_def)
  have str: "\<exists>d'. dec_bind read_header (\<lambda>h. if major h \<noteq> mt then dec_throw e
      else dec_bind (dec_lift (safe_to_size_t (argument h))) (\<lambda>len. dec_bind (ensure_available len) (\<lambda>_. take_range len)))
      (?d (take n (header_bytes mt (of_nat (length s)) @ s))) = (Inl truncated, d')"
    if n: "n < length (header_bytes mt (of_nat (length s)) @ s)" and l: "length s < 2 ^ 63" for mt e s
  proof (cases "n < length (header_bytes mt (of_nat (length s) :: u64))")
    case True
    with hdr [of mt "of_nat (length s)"] obtain d' where
      "read_header (?d (take n (header_bytes mt (of_nat (length s)) @ s))) = (Inl truncated, d')" by auto
    then show ?thesis by (simp add: dec_bind_Inl [where m = read_header])
  next
    case False
    let ?h = "header_bytes mt (of_nat (length s) :: u64)"
    let ?s = "take (n - length ?h) s"
    have t: "take n (?h @ s) = ?h @ ?s" using False by simp
    have "length (?h @ ?s) < 2 ^ 64" using l header_bytes_not_empty(2) [of mt "of_nat (length s)"] by simp
    from read_header_ok [OF st [OF this]] obtain d1 where
      d1: "read_header (?d (?h @ ?s)) = (Inr (Item_header mt (of_nat (length s))), d1)" "stands d1 (length ?h) ?s"
      by (auto simp: moved_def)
    have u: "unat (of_nat (length s) :: u64) = length s" using l by (intro unat_of_nat_u64) simp
    have "ensure_available (of_nat (length s)) d1 = (Inl truncated, d1)"
      using n False l u header_bytes_not_empty(2) [of mt "of_nat (length s)"]
      by (intro ensure_available_short [OF d1(2)]) simp_all
    then show ?thesis unfolding t
      by (simp add: dec_bind_Inr [where m = read_header, OF d1(1)] dec_bind_Inr [where m = "dec_lift (safe_to_size_t _)", OF dec_lift_safe]
          dec_bind_Inl [where m = "ensure_available _"])
  qed
  show ?thesis
  proof (cases i)
    case (Uint v)
    with n hdr [of UnsignedInt v] show ?thesis
      by (auto simp: write_uint_def read_uint_def dec_bind_Inl dec_bind_assoc simp flip: header_bytes_def)
  next
    case (Sint v)
    with n hdr [of UnsignedInt v] hdr [of NegativeInt "NOT v"] show ?thesis
      by (auto simp: write_int_def write_uint_def read_int_def dec_bind_Inl dec_bind_assoc simp flip: header_bytes_def)
  next
    case (Bool b)
    with n byte show ?thesis by (simp add: write_bool_def read_bool_def dec_bind_Inl dec_bind_assoc)
  next
    case Null
    with n byte show ?thesis by (simp add: write_null_def read_null_def dec_bind_Inl dec_bind_assoc)
  next
    case (Bytes s)
    have "length s < 2 ^ 63" "n < length (header_bytes ByteString (of_nat (length s)) @ s)"
      using n len Bytes by (simp_all add: write_string_header)
    from str [OF this(2,1), of "Runtime_error ''CBOR: expected byte string''"] obtain d' where
      "read_bytes (?d (take n (header_bytes ByteString (of_nat (length s)) @ s))) = (Inl truncated, d')"
      unfolding read_bytes_def by blast
    with Bytes show ?thesis by (simp add: write_string_header dec_bind_Inl)
  next
    case (Text s)
    have "length s < 2 ^ 63" "n < length (header_bytes TextString (of_nat (length s)) @ s)"
      using n len Text by (simp_all add: write_string_header)
    from str [OF this(2,1), of "Runtime_error ''CBOR: expected text string''"] obtain d' where
      "read_text (?d (take n (header_bytes TextString (of_nat (length s)) @ s))) = (Inl truncated, d')"
      unfolding read_text_def by blast
    with Text show ?thesis by (simp add: write_string_header dec_bind_Inl)
  next
    case (Array v)
    with n hdr [of Array_type v] show ?thesis
      by (auto simp: begin_array_def read_array_length_def dec_bind_Inl dec_bind_assoc simp flip: header_bytes_def)
  next
    case (Dict v)
    with n hdr [of Map_type v] show ?thesis
      by (auto simp: begin_map_def read_map_length_def dec_bind_Inl dec_bind_assoc simp flip: header_bytes_def)
  next
    case End_container
    with n show ?thesis by simp
  qed
qed

lemma cbor_truncated_input_witness:
  "fst (read_item Read_text (cbor_decode (take 3 (write_item [] (Text [0x61, 0x62, 0x63]))))) = Inl truncated"
proof -
  have "length (write_item [] (Text [0x61, 0x62, 0x63])) = 4"
    by (simp add: write_text_def write_type_and_argument_def)
  with cbor_truncated_input [of 3 "Text [0x61, 0x62, 0x63]"] show ?thesis by simp
qed

text \<open>C10: on arbitrary bytes, well-formed or not, the readers of headers, integers, booleans, null and
  container sizes never read outside the buffer and leave the position inside it.\<close>

theorem cbor_readers_stay_inside:
  "stays_inside read_header \<and> stays_inside read_uint \<and> stays_inside read_int \<and> stays_inside read_bool
   \<and> stays_inside read_null \<and> stays_inside read_array_length \<and> stays_inside read_map_length"
  unfolding read_uint_def read_int_def read_bool_def read_null_def read_array_length_def read_map_length_def
  by (intro conjI stays_inside_intros) (auto intro!: stays_inside_intros)

text \<open>C11: the bounds check of readText and readBytes is exact as long as the sum of position and length
  fits in 64 bits: it returns the bytes or reports truncation.  Beyond that the sum wraps, the check
  passes, and the range that is copied leaves the buffer.\<close>

theorem cbor_string_bounds_check_wraps:
  assumes "placed d" and "read_header d = (Inr (Item_header TextString n), d')"
  shows "fst (read_text d) =
    (if unat (cd_pos d') + unat n \<le> length (cd_data d') then Inr (take (unat n) (drop (unat (cd_pos d')) (cd_data d')))
     else if unat (cd_pos d') + unat n < 2 ^ 64 then Inl truncated
     else Inl Undefined_behaviour)"
proof -
  have d': "placed d'" using stays_inside_read_header assms unfolding stays_inside_def by (metis snd_conv)
  have t: "read_text d = dec_bind (ensure_available n) (\<lambda>_. take_range n) d'"
    unfolding read_text_def dec_bind_Inr [where m = read_header, OF assms(2)]
    by (simp add: dec_bind_Inr [where m = "dec_lift (safe_to_size_t _)", OF dec_lift_safe])
  note st = placed_stands [OF d']
  have p: "unat (cd_pos d') \<le> length (cd_data d')" "length (cd_data d') < 2 ^ 63"
    using d' by (simp_all add: placed_def)
  consider (fits) "unat (cd_pos d') + unat n \<le> length (cd_data d')"
    | (short) "length (cd_data d') < unat (cd_pos d') + unat n" "unat (cd_pos d') + unat n < 2 ^ 64"
    | (wraps) "2 ^ 64 \<le> unat (cd_pos d') + unat n" by linarith
  then show ?thesis
  proof cases
    case fits
    then have "ensure_available n d' = (Inr (), d')" using p by (intro ensure_available_ok [OF st]) simp
    with fits show ?thesis unfolding t by (simp add: dec_bind_def take_range_def)
  next
    case short
    then have "ensure_available n d' = (Inl truncated, d')" using p by (intro ensure_available_short [OF st]) simp_all
    with short show ?thesis unfolding t by (simp add: dec_bind_def)
  next
    case wraps
    have "unat (cd_pos d' + n) = unat (cd_pos d') + unat n - 2 ^ LENGTH(64)"
      using wraps by (simp add: unat_plus_if')
    also have "\<dots> \<le> unat (cd_size d')"
      using p unat_bound [of n] cd_size_unat [of d'] by simp
    finally have "ensure_available n d' = (Inr (), d')"
      by (simp add: ensure_available_def word_less_nat_alt not_less)
    with wraps p show ?thesis unfolding t by (simp add: dec_bind_def take_range_def)
  qed
qed

lemma cbor_string_bounds_check_wraps_witness:
  "fst (read_text (cbor_decode [0x7B, 0xFF, 0xFF, 0xFF, 0xFF, 0xFF, 0xFF, 0xFF, 0xFF])) = Inl Undefined_behaviour"
proof -
  let ?b = "[0x7B, 0xFF, 0xFF, 0xFF, 0xFF, 0xFF, 0xFF, 0xFF, 0xFF] :: u8 list"
  let ?d = "cbor_decode ?b"
  have h: "header_bytes TextString 0xFFFFFFFFFFFFFFFF = ?b"
    by (simp add: header_bytes_def write_type_and_argument_def arg_byte_def Let_def)
  have "stands ?d 0 (header_bytes TextString 0xFFFFFFFFFFFFFFFF @ [])" unfolding h by (simp add: stands_def cbor_decode_def)
  from read_header_ok [OF this] obtain d' where
    d': "read_header ?d = (Inr (Item_header TextString 0xFFFFFFFFFFFFFFFF), d')" "stands d' (0 + length ?b) []" "cd_data d' = cd_data ?d"
    unfolding h moved_def by blast
  have "placed ?d" by (simp add: placed_def cbor_decode_def)
  then show ?thesis
    using cbor_string_bounds_check_wraps [OF _ d'(1)] stands_pos [OF d'(2)] d'(3) by (simp add: cbor_decode_def)
qed

end
