(* ===== verification/Std_Algorithms.thy ===== *)
theory Std_Algorithms
  imports Interfaces "HOL-Library.Multiset"
begin

text \<open>
  The algorithms of the C++ standard library that the flat containers call, on lists: the binary
  searches \<open>std::lower_bound\<close> and \<open>std::upper_bound\<close>, \<open>std::stable_sort\<close>, \<open>std::inplace_merge\<close>,
  \<open>std::unique\<close> and \<open>std::is_sorted\<close>.  A comparator is a function \<open>lt\<close>; what the library
  requires of it is the predicate \<open>strict_weak_order\<close>.
\<close>

section \<open>Comparators\<close>

definition strict_weak_order :: "('k \<Rightarrow> 'k \<Rightarrow> bool) \<Rightarrow> bool" where
  "strict_weak_order lt \<longleftrightarrow> (\<forall>a. \<not> lt a a) \<and> (\<forall>a b c. lt a b \<longrightarrow> lt b c \<longrightarrow> lt a c)
     \<and> (\<forall>a b c. lt a c \<longrightarrow> lt a b \<or> lt b c)"

definition equivalent :: "('k \<Rightarrow> 'k \<Rightarrow> bool) \<Rightarrow> 'k \<Rightarrow> 'k \<Rightarrow> bool" where
  "equivalent lt a b \<longleftrightarrow> \<not> lt a b \<and> \<not> lt b a"

lemma swoD:
  assumes "strict_weak_order lt"
  shows swo_irrefl: "\<not> lt a a"
    and swo_trans: "lt a b \<Longrightarrow> lt b c \<Longrightarrow> lt a c"
    and swo_cases: "lt a c \<Longrightarrow> lt a b \<or> lt b c"
    and swo_asym: "lt a b \<Longrightarrow> \<not> lt b a"
  using assms unfolding strict_weak_order_def by blast+

lemma swo_equiv:
  assumes "strict_weak_order lt" and "equivalent lt a b"
  shows "lt a c = lt b c" "lt c a = lt c b" "equivalent lt a c = equivalent lt b c" "equivalent lt c a = equivalent lt c b"
proof -
  show 1: "lt a c = lt b c" and 2: "lt c a = lt c b"
    using swo_cases [OF assms(1)] assms(2) unfolding equivalent_def by blast+
  then show "equivalent lt a c = equivalent lt b c" "equivalent lt c a = equivalent lt c b"
    by (simp_all add: equivalent_def)
qed

lemma equivalent_sym: "equivalent lt a b = equivalent lt b a"
  by (auto simp: equivalent_def)

lemma equivalent_refl: "strict_weak_order lt \<Longrightarrow> equivalent lt a a"
  by (simp add: equivalent_def swo_irrefl)

text \<open>\<open>std::less\<close> on a linear order.\<close>

lemma swo_less: "strict_weak_order ((<) :: 'k::linorder \<Rightarrow> 'k \<Rightarrow> bool)"
  unfolding strict_weak_order_def by (metis less_irrefl less_trans not_less order.strict_trans1)

lemma equivalent_less: "equivalent ((<) :: 'k::linorder \<Rightarrow> 'k \<Rightarrow> bool) a b \<longleftrightarrow> a = b"
  by (auto simp: equivalent_def not_less)

section \<open>Binary search\<close>

text \<open>
  The loop of \<open>std::partition_point\<close>, which both searches run: \<open>len\<close> elements from \<open>first\<close> on
  are left, those satisfying \<open>p\<close> come first.
\<close>

function partition_point :: "('a \<Rightarrow> bool) \<Rightarrow> 'a list \<Rightarrow> nat \<Rightarrow> nat \<Rightarrow> nat" where
  "partition_point p xs first len =
    (if len = 0 then first
     else let half = len div 2; mid = first + half in
       if p (xs ! mid) then partition_point p xs (mid + 1) (len - half - 1)
       else partition_point p xs first half)"
  by pat_completeness auto
termination
  by (relation "measure (\<lambda>(p, xs, first, len). len)") auto

declare partition_point.simps [simp del]

definition std_lower_bound :: "('a \<Rightarrow> bool) \<Rightarrow> 'a list \<Rightarrow> nat" where
  "std_lower_bound before xs = partition_point before xs 0 (length xs)"

lemma partition_point_correct:
  "\<lbrakk>first \<le> c; c \<le> first + len; \<forall>i. first \<le> i \<and> i < first + len \<longrightarrow> (p (xs ! i) \<longleftrightarrow> i < c)\<rbrakk> \<Longrightarrow>
   partition_point p xs first len = c"
proof (induction p xs first len rule: partition_point.induct)
  case (1 p xs first len)
  show ?case
  proof (cases "len = 0")
    case True
    with "1.prems" show ?thesis by (simp add: partition_point.simps [of p xs first])
  next
    case False
    let ?half = "len div 2"
    let ?mid = "first + ?half"
    have mid: "?mid < first + len" using False by simp
    then have p: "p (xs ! ?mid) \<longleftrightarrow> ?mid < c" using "1.prems"(3) by simp
    show ?thesis
    proof (cases "p (xs ! ?mid)")
      case True
      have "partition_point p xs (?mid + 1) (len - ?half - 1) = c"
        by (rule "1.IH"(1) [OF False refl refl True]) (use True p "1.prems" mid in auto)
      with True False show ?thesis by (subst partition_point.simps) (simp add: Let_def)
    next
      case nop: False
      have "partition_point p xs first ?half = c"
        by (rule "1.IH"(2) [OF False refl refl nop]) (use nop p "1.prems" mid in auto)
      with nop False show ?thesis by (subst partition_point.simps) (simp add: Let_def)
    qed
  qed
qed

text \<open>On a partitioned list the search finds the boundary.\<close>

lemma std_lower_bound_split:
  assumes "\<forall>x\<in>set pre. before x" and "\<forall>x\<in>set post. \<not> before x"
  shows "std_lower_bound before (pre @ post) = length pre"
  unfolding std_lower_bound_def
proof (rule partition_point_correct)
  show "\<forall>i. 0 \<le> i \<and> i < 0 + length (pre @ post) \<longrightarrow> (before ((pre @ post) ! i) \<longleftrightarrow> i < length pre)"
    using assms by (auto simp: nth_append)
qed simp_all

text \<open>On a sorted list, a predicate that holds downwards is partitioned by it.\<close>

lemma std_lower_bound_closed:
  assumes "sorted_wrt r xs" and "\<And>a b. \<lbrakk>r a b; P b\<rbrakk> \<Longrightarrow> P a"
  shows "std_lower_bound P xs \<le> length xs" and "i < length xs \<Longrightarrow> P (xs ! i) \<longleftrightarrow> i < std_lower_bound P xs"
proof -
  define pre where "pre = takeWhile P xs"
  define post where "post = dropWhile P xs"
  have xs: "xs = pre @ post" by (simp add: pre_def post_def)
  have pre: "\<forall>x\<in>set pre. P x" unfolding pre_def by (meson set_takeWhileD)
  have post: "\<forall>x\<in>set post. \<not> P x"
  proof (cases post)
    case (Cons y ys)
    then have "\<not> P y" using hd_dropWhile [of P xs] by (simp add: post_def)
    moreover have "\<forall>x\<in>set ys. r y x" using assms(1) xs Cons by (simp add: sorted_wrt_append)
    ultimately show ?thesis using Cons assms(2) by auto
  qed simp
  note b = std_lower_bound_split [of pre P post, OF pre post, folded xs]
  show "std_lower_bound P xs \<le> length xs" unfolding b by (simp add: xs)
  show "i < length xs \<Longrightarrow> P (xs ! i) \<longleftrightarrow> i < std_lower_bound P xs"
    unfolding b using pre post by (auto simp: xs nth_append)
qed

section \<open>Sorting, merging, removing duplicates\<close>

fun stable_insert :: "('a \<Rightarrow> 'a \<Rightarrow> bool) \<Rightarrow> 'a \<Rightarrow> 'a list \<Rightarrow> 'a list" where
  "stable_insert lt x [] = [x]"
| "stable_insert lt x (y # ys) = (if lt y x then y # stable_insert lt x ys else x # y # ys)"

definition std_stable_sort :: "('a \<Rightarrow> 'a \<Rightarrow> bool) \<Rightarrow> 'a list \<Rightarrow> 'a list" where
  "std_stable_sort lt xs = foldr (stable_insert lt) xs []"

fun std_merge :: "('a \<Rightarrow> 'a \<Rightarrow> bool) \<Rightarrow> 'a list \<Rightarrow> 'a list \<Rightarrow> 'a list" where
  "std_merge lt [] ys = ys"
| "std_merge lt (x # xs) [] = x # xs"
| "std_merge lt (x # xs) (y # ys) =
    (if lt y x then y # std_merge lt (x # xs) ys else x # std_merge lt xs (y # ys))"

text \<open>\<open>std::unique\<close> compares each element with the last one kept.\<close>

fun unique_after :: "('a \<Rightarrow> 'a \<Rightarrow> bool) \<Rightarrow> 'a \<Rightarrow> 'a list \<Rightarrow> 'a list" where
  "unique_after eq k [] = []"
| "unique_after eq k (x # xs) = (if eq k x then unique_after eq k xs else x # unique_after eq x xs)"

fun std_unique :: "('a \<Rightarrow> 'a \<Rightarrow> bool) \<Rightarrow> 'a list \<Rightarrow> 'a list" where
  "std_unique eq [] = []"
| "std_unique eq (x # xs) = x # unique_after eq x xs"

fun std_is_sorted :: "('a \<Rightarrow> 'a \<Rightarrow> bool) \<Rightarrow> 'a list \<Rightarrow> bool" where
  "std_is_sorted lt (x # y # zs) \<longleftrightarrow> \<not> lt y x \<and> std_is_sorted lt (y # zs)"
| "std_is_sorted lt _ \<longleftrightarrow> True"

text \<open>Weakly ascending: no element comes before an earlier one.\<close>

abbreviation ascending :: "('a \<Rightarrow> 'a \<Rightarrow> bool) \<Rightarrow> 'a list \<Rightarrow> bool" where
  "ascending lt xs \<equiv> sorted_wrt (\<lambda>a b. \<not> lt b a) xs"

lemma swo_neg_trans: "strict_weak_order lt \<Longrightarrow> \<not> lt b a \<Longrightarrow> \<not> lt c b \<Longrightarrow> \<not> lt c a"
  using swo_cases [of lt] by blast

lemma ascending_Cons2:
  assumes "strict_weak_order lt"
  shows "ascending lt (x # y # zs) \<longleftrightarrow> \<not> lt y x \<and> ascending lt (y # zs)"
  by (auto dest: swo_neg_trans [OF assms])

lemma std_is_sorted_iff:
  assumes "strict_weak_order lt"
  shows "std_is_sorted lt xs \<longleftrightarrow> ascending lt xs"
  using assms
proof (induction lt xs rule: std_is_sorted.induct)
  case (1 lt x y zs)
  then show ?case using ascending_Cons2 [OF 1(2), of x y zs] by (simp del: sorted_wrt.simps)
qed simp_all

lemma mset_stable_insert: "mset (stable_insert lt x xs) = add_mset x (mset xs)"
  by (induction xs) auto

lemma mset_stable_sort: "mset (std_stable_sort lt xs) = mset xs"
  by (induction xs) (simp_all add: std_stable_sort_def mset_stable_insert)

lemma mset_std_merge: "mset (std_merge lt xs ys) = mset xs + mset ys"
  by (induction lt xs ys rule: std_merge.induct) auto

lemma set_stable_insert: "set (stable_insert lt x xs) = insert x (set xs)"
  by (metis mset_stable_insert set_mset_add_mset_insert set_mset_mset)

lemma set_std_merge: "set (std_merge lt xs ys) = set xs \<union> set ys"
  by (metis mset_std_merge set_mset_mset set_mset_union)

lemma ascending_stable_insert:
  assumes swo: "strict_weak_order lt"
  shows "ascending lt xs \<Longrightarrow> ascending lt (stable_insert lt x xs)"
proof (induction xs)
  case (Cons y ys)
  then have asc: "ascending lt (stable_insert lt x ys)" "\<forall>z\<in>set ys. \<not> lt z y" by simp_all
  show ?case
  proof (cases "lt y x")
    case True
    with asc swo_asym [OF swo True] show ?thesis by (simp add: set_stable_insert)
  next
    case False
    have "\<not> lt z x" if "z \<in> set ys" for z
      using swo_neg_trans [OF swo False] asc(2) that by blast
    with False Cons.prems show ?thesis by simp
  qed
qed simp

lemma ascending_stable_sort:
  "strict_weak_order lt \<Longrightarrow> ascending lt (std_stable_sort lt xs)"
  by (induction xs) (simp_all add: std_stable_sort_def ascending_stable_insert)

lemma ascending_std_merge:
  assumes "strict_weak_order lt"
  shows "\<lbrakk>ascending lt xs; ascending lt ys\<rbrakk> \<Longrightarrow> ascending lt (std_merge lt xs ys)"
  using assms
proof (induction lt xs ys rule: std_merge.induct)
  case (3 lt x xs y ys)
  note swo = 3(5)
  have xs: "\<forall>z\<in>set xs. \<not> lt z x" "ascending lt xs" and ys: "\<forall>z\<in>set ys. \<not> lt z y" "ascending lt ys"
    using 3(3,4) by simp_all
  show ?case
  proof (cases "lt y x")
    case True
    have "\<not> lt z y" if "z \<in> set xs" for z
      using xs(1) that swo_trans [OF swo _ True, of z] by blast
    with ys(1) swo_asym [OF swo True] 3(1) [OF True 3(3) ys(2) swo] True show ?thesis
      by (auto simp: set_std_merge)
  next
    case False
    have "\<not> lt z x" if "z \<in> set ys" for z
      using ys(1) that swo_neg_trans [OF swo False] by blast
    with xs(1) 3(2) [OF False xs(2) 3(4) swo] False show ?thesis by (auto simp: set_std_merge)
  qed
qed simp_all

text \<open>The first element of a class of equivalent elements, through each algorithm.\<close>

definition one_class :: "('a \<Rightarrow> 'a \<Rightarrow> bool) \<Rightarrow> ('a \<Rightarrow> bool) \<Rightarrow> bool" where
  "one_class lt P \<longleftrightarrow> (\<forall>x y. P x \<longrightarrow> (P y \<longleftrightarrow> equivalent lt x y))"

lemma find_stable_insert:
  assumes "one_class lt P"
  shows "find P (stable_insert lt x xs) = find P (x # xs)"
  using assms by (induction xs) (auto simp: one_class_def equivalent_def)

lemma find_stable_sort:
  assumes "one_class lt P"
  shows "find P (std_stable_sort lt xs) = find P xs"
  by (induction xs) (simp_all add: std_stable_sort_def find_stable_insert [OF assms])

lemma find_std_merge:
  assumes "strict_weak_order lt" and "one_class lt P"
  shows "ascending lt xs \<Longrightarrow> find P (std_merge lt xs ys) = (case find P xs of None \<Rightarrow> find P ys | Some x \<Rightarrow> Some x)"
  using assms
proof (induction lt xs ys rule: std_merge.induct)
  case (2 lt x xs)
  then show ?case by (simp split: option.splits)
next
  case (3 lt x xs y ys)
  show ?case
  proof (cases "lt y x")
    case True
    have "\<not> P z" if "P y" "z \<in> set (x # xs)" for z
    proof
      assume "P z"
      then have e: "equivalent lt y z" using that(1) 3(5) unfolding one_class_def by blast
      have "lt y z" using that(2) True 3(3) swo_cases [OF 3(4) True, of z] by auto
      with e show False by (simp add: equivalent_def)
    qed
    then have "find P (x # xs) = None" if "P y" using that unfolding find_None_iff by blast
    then show ?thesis using 3 True by (auto split: option.splits)
  next
    case False
    then show ?thesis using 3 by (auto split: option.splits)
  qed
qed simp

lemma unique_after_props:
  assumes swo: "strict_weak_order lt"
  shows "ascending lt (k # xs) \<Longrightarrow> sorted_wrt lt (k # unique_after (equivalent lt) k xs)
    \<and> set (unique_after (equivalent lt) k xs) \<subseteq> set xs"
proof (induction xs arbitrary: k)
  case (Cons x xs)
  have asc: "ascending lt (x # xs)" "\<not> lt x k" "ascending lt (k # xs)" using Cons.prems by simp_all
  show ?case
  proof (cases "equivalent lt k x")
    case True
    then show ?thesis using Cons.IH [OF asc(3)] by auto
  next
    case False
    then have kx: "lt k x" using asc(2) by (simp add: equivalent_def)
    note ih = Cons.IH [OF asc(1)]
    then have "\<forall>z\<in>set (unique_after (equivalent lt) x xs). lt k z"
      using kx swo_trans [OF swo] by auto
    with ih kx False show ?thesis by auto
  qed
qed simp

lemma std_unique_sorted:
  assumes "strict_weak_order lt" and "ascending lt xs"
  shows "sorted_wrt lt (std_unique (equivalent lt) xs)"
proof (cases xs)
  case (Cons x ys)
  then have "ascending lt (x # ys)" using assms(2) by simp
  from conjunct1 [OF unique_after_props [OF assms(1) this]] Cons show ?thesis by simp
qed simp

lemma find_unique_after:
  assumes swo: "strict_weak_order lt" and P: "one_class lt P"
  shows "find P (k # unique_after (equivalent lt) k xs) = find P (k # xs)"
proof (induction xs arbitrary: k)
  case (Cons x xs)
  show ?case
  proof (cases "equivalent lt k x")
    case True
    then have "equivalent lt x k" by (simp add: equivalent_sym)
    then have "P x \<Longrightarrow> P k" using P unfolding one_class_def by blast
    with Cons.IH [of k] True show ?thesis by (cases "P k"; cases "P x") simp_all
  next
    case False
    with Cons.IH [of x] show ?thesis by simp
  qed
qed simp

lemma find_std_unique:
  assumes "strict_weak_order lt" and "one_class lt P"
  shows "find P (std_unique (equivalent lt) xs) = find P xs"
  using find_unique_after [OF assms] by (cases xs) simp_all

end
