(* ===== verification/FlatMap.thy ===== *)
theory FlatMap
  imports Std_Algorithms
begin

text \<open>
  \<open>FlatMap\<close> (\<open>include/fat_p/FlatMap.h\<close>): an associative container that keeps its entries in a
  vector sorted by key.  The state is the vector \<open>mData\<close> and the comparator \<open>mComp\<close>, as in the
  class.  An iterator is a position, \<open>end()\<close> is the length of the vector.  The macro
  \<open>FATP_ENFORCE\<close> throws in a debug build and is empty otherwise; the parameter \<open>dbg\<close> says which
  build it is.  Overloads that differ in constness or in moving instead of copying are one
  definition.
\<close>

section \<open>State\<close>

record ('k, 'v) flat_map =
  mData :: "('k \<times> 'v) list"
  mComp :: "'k \<Rightarrow> 'k \<Rightarrow> bool"

definition keyValueComp :: "('k, 'v) flat_map \<Rightarrow> 'k \<times> 'v \<Rightarrow> 'k \<times> 'v \<Rightarrow> bool" where
  "keyValueComp m a b = mComp m (fst a) (fst b)"

definition keysEquivalent :: "('k, 'v) flat_map \<Rightarrow> 'k \<Rightarrow> 'k \<Rightarrow> bool" where
  "keysEquivalent m a b \<longleftrightarrow> \<not> mComp m a b \<and> \<not> mComp m b a"

text \<open>\<open>vector::insert\<close> and \<open>vector::erase\<close> at a position.\<close>

definition vec_insert :: "'a list \<Rightarrow> nat \<Rightarrow> 'a \<Rightarrow> 'a list" where
  "vec_insert xs i x = take i xs @ x # drop i xs"

definition vec_erase :: "'a list \<Rightarrow> nat \<Rightarrow> nat \<Rightarrow> 'a list" where
  "vec_erase xs i j = take i xs @ drop j xs"

section \<open>Lookup\<close>

definition lowerBoundInternal :: "('k, 'v) flat_map \<Rightarrow> 'k \<Rightarrow> nat" where
  "lowerBoundInternal m key = std_lower_bound (\<lambda>e. mComp m (fst e) key) (mData m)"

definition fm_lower_bound :: "('k, 'v) flat_map \<Rightarrow> 'k \<Rightarrow> nat" where
  "fm_lower_bound m key = lowerBoundInternal m key"

text \<open>\<open>std::upper_bound\<close> is the same search for the elements that do not come after the key.\<close>

definition fm_upper_bound :: "('k, 'v) flat_map \<Rightarrow> 'k \<Rightarrow> nat" where
  "fm_upper_bound m key = std_lower_bound (\<lambda>e. \<not> mComp m key (fst e)) (mData m)"

definition fm_equal_range :: "('k, 'v) flat_map \<Rightarrow> 'k \<Rightarrow> nat \<times> nat" where
  "fm_equal_range m key = (fm_lower_bound m key, fm_upper_bound m key)"

definition fm_find :: "('k, 'v) flat_map \<Rightarrow> 'k \<Rightarrow> nat" where
  "fm_find m key = (let it = lowerBoundInternal m key in
     if it \<noteq> length (mData m) \<and> \<not> mComp m key (fst (mData m ! it)) then it else length (mData m))"

definition fm_contains :: "('k, 'v) flat_map \<Rightarrow> 'k \<Rightarrow> bool" where
  "fm_contains m key \<longleftrightarrow> fm_find m key \<noteq> length (mData m)"

definition fm_count :: "('k, 'v) flat_map \<Rightarrow> 'k \<Rightarrow> nat" where
  "fm_count m key = (if fm_find m key \<noteq> length (mData m) then 1 else 0)"

definition fm_at :: "('k, 'v) flat_map \<Rightarrow> 'k \<Rightarrow> 'v result" where
  "fm_at m key = (let it = lowerBoundInternal m key in
     if it = length (mData m) \<or> mComp m key (fst (mData m ! it)) then Inl Out_of_range
     else Inr (snd (mData m ! it)))"

text \<open>
  Heterogeneous lookup: a transparent comparator also compares keys with values of another type.
  \<open>lkey e q\<close> is \<open>mComp(e, q)\<close> and \<open>rkey q e\<close> is \<open>mComp(q, e)\<close>.
\<close>

definition fm_lower_bound_het :: "('k \<Rightarrow> 'q \<Rightarrow> bool) \<Rightarrow> ('k, 'v) flat_map \<Rightarrow> 'q \<Rightarrow> nat" where
  "fm_lower_bound_het lkey m q = std_lower_bound (\<lambda>e. lkey (fst e) q) (mData m)"

definition fm_upper_bound_het :: "('q \<Rightarrow> 'k \<Rightarrow> bool) \<Rightarrow> ('k, 'v) flat_map \<Rightarrow> 'q \<Rightarrow> nat" where
  "fm_upper_bound_het rkey m q = std_lower_bound (\<lambda>e. \<not> rkey q (fst e)) (mData m)"

definition fm_equal_range_het ::
  "('k \<Rightarrow> 'q \<Rightarrow> bool) \<Rightarrow> ('q \<Rightarrow> 'k \<Rightarrow> bool) \<Rightarrow> ('k, 'v) flat_map \<Rightarrow> 'q \<Rightarrow> nat \<times> nat" where
  "fm_equal_range_het lkey rkey m q = (fm_lower_bound_het lkey m q, fm_upper_bound_het rkey m q)"

definition fm_find_het ::
  "('k \<Rightarrow> 'q \<Rightarrow> bool) \<Rightarrow> ('q \<Rightarrow> 'k \<Rightarrow> bool) \<Rightarrow> ('k, 'v) flat_map \<Rightarrow> 'q \<Rightarrow> nat" where
  "fm_find_het lkey rkey m q = (let it = std_lower_bound (\<lambda>e. lkey (fst e) q) (mData m) in
     if it \<noteq> length (mData m) \<and> \<not> rkey q (fst (mData m ! it)) \<and> \<not> lkey (fst (mData m ! it)) q then it
     else length (mData m))"

definition fm_contains_het ::
  "('k \<Rightarrow> 'q \<Rightarrow> bool) \<Rightarrow> ('q \<Rightarrow> 'k \<Rightarrow> bool) \<Rightarrow> ('k, 'v) flat_map \<Rightarrow> 'q \<Rightarrow> bool" where
  "fm_contains_het lkey rkey m q \<longleftrightarrow> fm_find_het lkey rkey m q \<noteq> length (mData m)"

definition fm_count_het ::
  "('k \<Rightarrow> 'q \<Rightarrow> bool) \<Rightarrow> ('q \<Rightarrow> 'k \<Rightarrow> bool) \<Rightarrow> ('k, 'v) flat_map \<Rightarrow> 'q \<Rightarrow> nat" where
  "fm_count_het lkey rkey m q = (if fm_find_het lkey rkey m q \<noteq> length (mData m) then 1 else 0)"

section \<open>Modifiers\<close>

definition fm_clear :: "('k, 'v) flat_map \<Rightarrow> ('k, 'v) flat_map" where
  "fm_clear m = m\<lparr>mData := []\<rparr>"

definition fm_size :: "('k, 'v) flat_map \<Rightarrow> nat" where
  "fm_size m = length (mData m)"

definition fm_empty :: "('k, 'v) flat_map \<Rightarrow> bool" where
  "fm_empty m \<longleftrightarrow> mData m = []"

definition fm_insert :: "('k, 'v) flat_map \<Rightarrow> 'k \<times> 'v \<Rightarrow> ('k, 'v) flat_map \<times> nat \<times> bool" where
  "fm_insert m val = (let it = lowerBoundInternal m (fst val) in
     if it \<noteq> length (mData m) \<and> \<not> mComp m (fst val) (fst (mData m ! it)) then (m, it, False)
     else (m\<lparr>mData := vec_insert (mData m) it (fst val, snd val)\<rparr>, it, True))"

definition fm_insert_or_assign :: "('k, 'v) flat_map \<Rightarrow> 'k \<Rightarrow> 'v \<Rightarrow> ('k, 'v) flat_map \<times> nat \<times> bool" where
  "fm_insert_or_assign m k obj = (let it = lowerBoundInternal m k in
     if it \<noteq> length (mData m) \<and> \<not> mComp m k (fst (mData m ! it))
     then (m\<lparr>mData := (mData m)[it := (fst (mData m ! it), obj)]\<rparr>, it, False)
     else (m\<lparr>mData := vec_insert (mData m) it (k, obj)\<rparr>, it, True))"

text \<open>\<open>emplace\<close> builds the pair \<open>temp\<close> from its arguments first.\<close>

definition fm_emplace :: "('k, 'v) flat_map \<Rightarrow> 'k \<times> 'v \<Rightarrow> ('k, 'v) flat_map \<times> nat \<times> bool" where
  "fm_emplace m temp = (let it = lowerBoundInternal m (fst temp) in
     if it \<noteq> length (mData m) \<and> \<not> mComp m (fst temp) (fst (mData m ! it)) then (m, it, False)
     else (m\<lparr>mData := vec_insert (mData m) it temp\<rparr>, it, True))"

text \<open>\<open>try_emplace\<close> builds the value from its arguments only when the key is new.\<close>

definition fm_try_emplace :: "('k, 'v) flat_map \<Rightarrow> 'k \<Rightarrow> 'args \<Rightarrow> ('args \<Rightarrow> 'v) \<Rightarrow> ('k, 'v) flat_map \<times> nat \<times> bool" where
  "fm_try_emplace m k args construct = (let it = lowerBoundInternal m k in
     if it \<noteq> length (mData m) \<and> \<not> mComp m k (fst (mData m ! it)) then (m, it, False)
     else (m\<lparr>mData := vec_insert (mData m) it (k, construct args)\<rparr>, it, True))"

text \<open>\<open>operator[]\<close>; \<open>dflt\<close> is \<open>T()\<close>, the position is the one the returned reference leads to.\<close>

definition fm_subscript :: "'v \<Rightarrow> ('k, 'v) flat_map \<Rightarrow> 'k \<Rightarrow> ('k, 'v) flat_map \<times> nat" where
  "fm_subscript dflt m key = (let it = lowerBoundInternal m key in
     if it = length (mData m) \<or> mComp m key (fst (mData m ! it))
     then (m\<lparr>mData := vec_insert (mData m) it (key, dflt)\<rparr>, it)
     else (m, it))"

definition fm_erase :: "('k, 'v) flat_map \<Rightarrow> 'k \<Rightarrow> ('k, 'v) flat_map \<times> nat" where
  "fm_erase m key = (let it = lowerBoundInternal m key in
     if it = length (mData m) \<or> mComp m key (fst (mData m ! it)) then (m, 0)
     else (m\<lparr>mData := vec_erase (mData m) it (Suc it)\<rparr>, 1))"

definition fm_erase_at :: "bool \<Rightarrow> ('k, 'v) flat_map \<Rightarrow> nat \<Rightarrow> (('k, 'v) flat_map \<times> nat) result" where
  "fm_erase_at dbg m pos =
     (if dbg \<and> \<not> pos < length (mData m) then Inl Enforce_failed
      else if \<not> pos < length (mData m) then Inl Undefined_behaviour
      else Inr (m\<lparr>mData := vec_erase (mData m) pos (Suc pos)\<rparr>, pos))"

definition fm_erase_range :: "bool \<Rightarrow> ('k, 'v) flat_map \<Rightarrow> nat \<Rightarrow> nat \<Rightarrow> (('k, 'v) flat_map \<times> nat) result" where
  "fm_erase_range dbg m first lst =
     (if dbg \<and> \<not> first \<le> length (mData m) then Inl Enforce_failed
      else if dbg \<and> \<not> lst \<le> length (mData m) then Inl Enforce_failed
      else if dbg \<and> \<not> first \<le> lst then Inl Enforce_failed
      else if \<not> (first \<le> lst \<and> lst \<le> length (mData m)) then Inl Undefined_behaviour
      else Inr (m\<lparr>mData := vec_erase (mData m) first lst\<rparr>, first))"

definition fm_extract :: "bool \<Rightarrow> ('k, 'v) flat_map \<Rightarrow> nat \<Rightarrow> (('k, 'v) flat_map \<times> 'k \<times> 'v) result" where
  "fm_extract dbg m pos =
     (if dbg \<and> \<not> pos < length (mData m) then Inl Enforce_failed
      else case vec_get (mData m) pos of Inl e \<Rightarrow> Inl e
        | Inr res \<Rightarrow> Inr (m\<lparr>mData := vec_erase (mData m) pos (Suc pos)\<rparr>, res))"

text \<open>\<open>insertWithHint\<close>, which the hint overload of \<open>insert\<close> and \<open>emplace_hint\<close> call.\<close>

definition insertWithHint :: "('k, 'v) flat_map \<Rightarrow> nat \<Rightarrow> 'k \<Rightarrow> 'v \<Rightarrow> (('k, 'v) flat_map \<times> nat) result" where
  "insertWithHint m hint key val =
    (let d = mData m; lt = mComp m;
         fall_back = (let it = lowerBoundInternal m key in
           if it \<noteq> length d \<and> \<not> lt key (fst (d ! it)) then (m, it)
           else (m\<lparr>mData := vec_insert d it (key, val)\<rparr>, it))
     in if hint = length d then
          (if d = [] \<or> lt (fst (last d)) key then Inr (m\<lparr>mData := d @ [(key, val)]\<rparr>, length d)
           else if \<not> lt key (fst (last d)) then Inr (m, length d - 1)
           else Inr fall_back)
        else if hint = 0 then
          (if d = [] then Inr (m\<lparr>mData := d @ [(key, val)]\<rparr>, 0)
           else if lt key (fst (hd d)) then Inr (m\<lparr>mData := vec_insert d 0 (key, val)\<rparr>, 0)
           else if \<not> lt (fst (hd d)) key then Inr (m, 0)
           else Inr fall_back)
        else (case (vec_get d (hint - 1), vec_get d hint) of
            (Inr prv, Inr nxt) \<Rightarrow>
              if lt (fst prv) key \<and> lt key (fst nxt)
              then Inr (m\<lparr>mData := vec_insert d hint (key, val)\<rparr>, hint)
              else if \<not> lt (fst prv) key \<and> \<not> lt key (fst prv) then Inr (m, hint - 1)
              else if \<not> lt (fst nxt) key \<and> \<not> lt key (fst nxt) then Inr (m, hint)
              else Inr fall_back
          | _ \<Rightarrow> Inl Undefined_behaviour))"

definition fm_insert_hint :: "('k, 'v) flat_map \<Rightarrow> nat \<Rightarrow> 'k \<times> 'v \<Rightarrow> (('k, 'v) flat_map \<times> nat) result" where
  "fm_insert_hint m hint val = insertWithHint m hint (fst val) (snd val)"

definition fm_emplace_hint :: "('k, 'v) flat_map \<Rightarrow> nat \<Rightarrow> 'k \<times> 'v \<Rightarrow> (('k, 'v) flat_map \<times> nat) result" where
  "fm_emplace_hint m hint temp = insertWithHint m hint (fst temp) (snd temp)"

section \<open>Ranges\<close>

text \<open>The range constructor: append, sort, drop all but the first of equivalent entries.\<close>

definition fm_of_range :: "('k \<Rightarrow> 'k \<Rightarrow> bool) \<Rightarrow> ('k \<times> 'v) list \<Rightarrow> ('k, 'v) flat_map" where
  "fm_of_range cmp ps = (let m = \<lparr>mData = ps, mComp = cmp\<rparr>; in_order = std_stable_sort (keyValueComp m) (mData m)
     in m\<lparr>mData := std_unique (\<lambda>a b. keysEquivalent m (fst a) (fst b)) in_order\<rparr>)"

definition fm_of_ordered_unique :: "bool \<Rightarrow> ('k \<Rightarrow> 'k \<Rightarrow> bool) \<Rightarrow> ('k \<times> 'v) list \<Rightarrow> ('k, 'v) flat_map result" where
  "fm_of_ordered_unique dbg cmp ps = (let m = \<lparr>mData = ps, mComp = cmp\<rparr> in
     if dbg \<and> \<not> std_is_sorted (keyValueComp m) (mData m) then Inl Enforce_failed else Inr m)"

definition fm_of_ordered :: "bool \<Rightarrow> ('k \<Rightarrow> 'k \<Rightarrow> bool) \<Rightarrow> ('k \<times> 'v) list \<Rightarrow> ('k, 'v) flat_map result" where
  "fm_of_ordered dbg cmp ps = (let m = \<lparr>mData = ps, mComp = cmp\<rparr> in
     if dbg \<and> \<not> std_is_sorted (keyValueComp m) (mData m) then Inl Enforce_failed
     else Inr (m\<lparr>mData := std_unique (\<lambda>a b. keysEquivalent m (fst a) (fst b)) (mData m)\<rparr>))"

definition fm_insert_range :: "('k, 'v) flat_map \<Rightarrow> ('k \<times> 'v) list \<Rightarrow> ('k, 'v) flat_map" where
  "fm_insert_range m ps =
    (if ps = [] then m
     else let new_part = std_stable_sort (keyValueComp m) ps;
              merged = std_merge (keyValueComp m) (mData m) new_part
          in m\<lparr>mData := std_unique (\<lambda>a b. keysEquivalent m (fst a) (fst b)) merged\<rparr>)"

text \<open>
  Insertion of a range the caller declares sorted.  The new entries are appended before the check,
  so the exception of a debug build leaves them behind: the operation returns the state next to
  its outcome.  Without the check, \<open>std::inplace_merge\<close> on unsorted input is undefined.
\<close>

definition fm_insert_ordered_unique ::
  "bool \<Rightarrow> ('k, 'v) flat_map \<Rightarrow> ('k \<times> 'v) list \<Rightarrow> ('k, 'v) flat_map \<times> unit result" where
  "fm_insert_ordered_unique dbg m ps =
    (if ps = [] then (m, Inr ())
     else if \<not> std_is_sorted (keyValueComp m) ps
       then (m\<lparr>mData := mData m @ ps\<rparr>, Inl (if dbg then Enforce_failed else Undefined_behaviour))
     else (m\<lparr>mData := std_unique (\<lambda>a b. keysEquivalent m (fst a) (fst b))
                         (std_merge (keyValueComp m) (mData m) ps)\<rparr>, Inr ()))"

definition fm_insert_ordered ::
  "bool \<Rightarrow> ('k, 'v) flat_map \<Rightarrow> ('k \<times> 'v) list \<Rightarrow> ('k, 'v) flat_map \<times> unit result" where
  "fm_insert_ordered dbg m ps = fm_insert_ordered_unique dbg m ps"

section \<open>Whole containers\<close>

definition fm_swap :: "('k, 'v) flat_map \<Rightarrow> ('k, 'v) flat_map \<Rightarrow> ('k, 'v) flat_map \<times> ('k, 'v) flat_map" where
  "fm_swap a b = (a\<lparr>mData := mData b, mComp := mComp b\<rparr>, b\<lparr>mData := mData a, mComp := mComp a\<rparr>)"

text \<open>The loop of \<open>merge\<close> with the two loops after it: \<open>(merged, remaining)\<close>.\<close>

fun merge_loop :: "('k \<Rightarrow> 'k \<Rightarrow> bool) \<Rightarrow> ('k \<times> 'v) list \<Rightarrow> ('k \<times> 'v) list \<Rightarrow> ('k \<times> 'v) list \<times> ('k \<times> 'v) list" where
  "merge_loop lt (x # xs) (y # ys) =
    (if lt (fst x) (fst y) then apfst ((#) x) (merge_loop lt xs (y # ys))
     else if lt (fst y) (fst x) then apfst ((#) y) (merge_loop lt (x # xs) ys)
     else map_prod ((#) x) ((#) y) (merge_loop lt xs ys))"
| "merge_loop lt (x # xs) [] = (x # xs, [])"
| "merge_loop lt [] ys = (ys, [])"

text \<open>\<open>self\<close>: the source is the container itself.\<close>

definition fm_merge :: "bool \<Rightarrow> ('k, 'v) flat_map \<Rightarrow> ('k, 'v) flat_map \<Rightarrow> ('k, 'v) flat_map \<times> ('k, 'v) flat_map" where
  "fm_merge self m source =
    (if self then (m, source)
     else if fm_empty source then (m, source)
     else if fm_empty m then fm_swap m source
     else let (merged, remaining) = merge_loop (mComp m) (mData m) (mData source)
          in (m\<lparr>mData := merged\<rparr>, source\<lparr>mData := remaining\<rparr>))"

fun equal_loop :: "('k \<times> 'v) list \<Rightarrow> ('k \<times> 'v) list \<Rightarrow> bool" where
  "equal_loop (l # ls) (r # rs) = (if fst l \<noteq> fst r \<or> snd l \<noteq> snd r then False else equal_loop ls rs)"
| "equal_loop _ _ = True"

definition fm_equal :: "('k, 'v) flat_map \<Rightarrow> ('k, 'v) flat_map \<Rightarrow> bool" where
  "fm_equal a b = (if fm_size a \<noteq> fm_size b then False else equal_loop (mData a) (mData b))"


section \<open>Invariant and the map a container stands for\<close>

definition fm_inv :: "('k, 'v) flat_map \<Rightarrow> bool" where
  "fm_inv m \<longleftrightarrow> strict_weak_order (mComp m) \<and> sorted_wrt (keyValueComp m) (mData m)"

text \<open>Keys the comparator does not tell apart share an entry.\<close>

definition class_find :: "('k \<Rightarrow> 'k \<Rightarrow> bool) \<Rightarrow> ('k \<times> 'v) list \<Rightarrow> 'k \<Rightarrow> ('k \<times> 'v) option" where
  "class_find lt ps k = find (\<lambda>e. equivalent lt k (fst e)) ps"

definition fm_lookup :: "('k, 'v) flat_map \<Rightarrow> 'k \<Rightarrow> 'v option" where
  "fm_lookup m k = map_option snd (class_find (mComp m) (mData m) k)"

definition class_upd :: "('k \<Rightarrow> 'k \<Rightarrow> bool) \<Rightarrow> ('k \<Rightarrow> 'v option) \<Rightarrow> 'k \<Rightarrow> 'v option \<Rightarrow> 'k \<Rightarrow> 'v option" where
  "class_upd lt f k y = (\<lambda>k'. if equivalent lt k k' then y else f k')"

lemma keysEquivalent_eq: "keysEquivalent m = equivalent (mComp m)"
  by (simp add: fun_eq_iff keysEquivalent_def equivalent_def)

lemma swo_kv: "strict_weak_order (mComp m) \<Longrightarrow> strict_weak_order (keyValueComp m)"
  unfolding strict_weak_order_def keyValueComp_def by blast

lemma equivalent_kv: "equivalent (keyValueComp m) a b = equivalent (mComp m) (fst a) (fst b)"
  by (simp add: equivalent_def keyValueComp_def)

lemma equivalent_kv_fun: "(\<lambda>a b. keysEquivalent m (fst a) (fst b)) = equivalent (keyValueComp m)"
  by (simp add: fun_eq_iff equivalent_kv keysEquivalent_eq)

lemma kv_update [simp]: "keyValueComp (m\<lparr>mData := d\<rparr>) = keyValueComp m"
  by (simp add: fun_eq_iff keyValueComp_def)

lemma vec_insert_at [simp]: "vec_insert (pre @ post) (length pre) x = pre @ x # post"
  by (simp add: vec_insert_def)

lemma vec_erase_at [simp]: "vec_erase (pre @ x # post) (length pre) (Suc (length pre)) = pre @ post"
  by (simp add: vec_erase_def)

lemma class_find_append: "class_find lt (xs @ ys) k = (case class_find lt xs k of None \<Rightarrow> class_find lt ys k | Some e \<Rightarrow> Some e)"
  by (induction xs) (simp_all add: class_find_def)

lemma class_find_Cons: "class_find lt (x # xs) k = (if equivalent lt k (fst x) then Some x else class_find lt xs k)"
  by (simp add: class_find_def)

lemma class_find_none:
  "(\<forall>e\<in>set xs. lt (fst e) k) \<or> (\<forall>e\<in>set xs. lt k (fst e)) \<Longrightarrow> class_find lt xs k = None"
  by (auto simp: class_find_def find_None_iff equivalent_def)

lemma class_find_equiv: "strict_weak_order lt \<Longrightarrow> equivalent lt k k' \<Longrightarrow> class_find lt xs k = class_find lt xs k'"
  by (simp add: class_find_def swo_equiv(3) [of lt k k'])

text \<open>Where a key is, or belongs: the only fact about the binary search that the operations need.\<close>

lemma fm_split:
  assumes "fm_inv m"
  obtains (found) pre p post where "mData m = pre @ p # post" "equivalent (mComp m) k (fst p)"
      "\<forall>e\<in>set pre. mComp m (fst e) k" "\<forall>e\<in>set post. mComp m k (fst e)"
      "lowerBoundInternal m k = length pre" "fm_upper_bound m k = Suc (length pre)"
  | (absent) pre post where "mData m = pre @ post"
      "\<forall>e\<in>set pre. mComp m (fst e) k" "\<forall>e\<in>set post. mComp m k (fst e)"
      "lowerBoundInternal m k = length pre" "fm_upper_bound m k = length pre"
proof -
  let ?lt = "mComp m"
  have swo: "strict_weak_order ?lt" and so: "sorted_wrt (keyValueComp m) (mData m)"
    using assms by (simp_all add: fm_inv_def)
  define pre where "pre = takeWhile (\<lambda>e. ?lt (fst e) k) (mData m)"
  define suf where "suf = dropWhile (\<lambda>e. ?lt (fst e) k) (mData m)"
  have d: "mData m = pre @ suf" by (simp add: pre_def suf_def)
  have pre: "\<forall>e\<in>set pre. ?lt (fst e) k" unfolding pre_def by (meson set_takeWhileD)
  have pre': "\<forall>e\<in>set pre. \<not> ?lt k (fst e)" using pre swo_asym [OF swo] by blast
  have hd: "suf \<noteq> [] \<Longrightarrow> \<not> ?lt (fst (hd suf)) k" unfolding suf_def by (rule hd_dropWhile)
  have so': "sorted_wrt (keyValueComp m) suf" using so d by (simp add: sorted_wrt_append)
  show thesis
  proof (cases suf)
    case Nil
    have "lowerBoundInternal m k = length pre" "fm_upper_bound m k = length pre"
      using std_lower_bound_split [of pre "\<lambda>e. ?lt (fst e) k" "[]"]
        std_lower_bound_split [of pre "\<lambda>e. \<not> ?lt k (fst e)" "[]"] pre pre' d Nil
      by (simp_all add: lowerBoundInternal_def fm_upper_bound_def)
    with d Nil pre show thesis by (intro absent [of pre "[]"]) simp_all
  next
    case (Cons p post)
    have np: "\<not> ?lt (fst p) k" using hd Cons by simp
    have post: "\<forall>e\<in>set post. ?lt (fst p) (fst e)" using so' Cons by (simp add: keyValueComp_def)
    have late: "\<forall>e\<in>set post. ?lt k (fst e)" using post np swo_cases [OF swo] by blast
    then have late': "\<forall>e\<in>set post. \<not> ?lt (fst e) k" using swo_asym [OF swo] by blast
    have lb: "lowerBoundInternal m k = length pre"
      using std_lower_bound_split [of pre "\<lambda>e. ?lt (fst e) k" "p # post"] pre np late' d Cons
      by (simp add: lowerBoundInternal_def)
    show thesis
    proof (cases "?lt k (fst p)")
      case True
      have "fm_upper_bound m k = length pre"
        using std_lower_bound_split [of pre "\<lambda>e. \<not> ?lt k (fst e)" "p # post"] pre' True late d Cons
        by (simp add: fm_upper_bound_def)
      with d Cons pre lb late True show thesis by (intro absent [of pre "p # post"]) simp_all
    next
      case False
      have "fm_upper_bound m k = length (pre @ [p])"
        using std_lower_bound_split [of "pre @ [p]" "\<lambda>e. \<not> ?lt k (fst e)" post] pre' False late d Cons
        by (simp add: fm_upper_bound_def)
      with d Cons pre lb late np False show thesis
        by (intro found [of pre p post]) (simp_all add: equivalent_def)
    qed
  qed
qed

text \<open>The two cases as the operations see them.\<close>

lemma fm_found:
  assumes "fm_inv m" and "mData m = pre @ p # post" and "equivalent (mComp m) k (fst p)"
    and "\<forall>e\<in>set pre. mComp m (fst e) k" and "\<forall>e\<in>set post. mComp m k (fst e)"
  shows "class_find (mComp m) (mData m) k = Some p"
  using assms by (simp add: class_find_append class_find_Cons class_find_none)

lemma fm_absent:
  assumes "mData m = pre @ post"
    and "\<forall>e\<in>set pre. mComp m (fst e) k" and "\<forall>e\<in>set post. mComp m k (fst e)"
  shows "class_find (mComp m) (mData m) k = None"
  using assms by (simp add: class_find_append class_find_none)

text \<open>Inserting at the right place, replacing and deleting.\<close>

lemma fm_inv_insert:
  assumes "fm_inv m" and "mData m = pre @ post"
    and "\<forall>e\<in>set pre. mComp m (fst e) k" and "\<forall>e\<in>set post. mComp m k (fst e)"
  shows "fm_inv (m\<lparr>mData := pre @ (k, v) # post\<rparr>)"
    and "fm_lookup (m\<lparr>mData := pre @ (k, v) # post\<rparr>) = class_upd (mComp m) (fm_lookup m) k (Some v)"
proof -
  have swo: "strict_weak_order (mComp m)" using assms(1) by (simp add: fm_inv_def)
  show "fm_inv (m\<lparr>mData := pre @ (k, v) # post\<rparr>)"
    using assms by (auto simp: fm_inv_def sorted_wrt_append keyValueComp_def)
  show "fm_lookup (m\<lparr>mData := pre @ (k, v) # post\<rparr>) = class_upd (mComp m) (fm_lookup m) k (Some v)"
  proof
    fix k'
    show "fm_lookup (m\<lparr>mData := pre @ (k, v) # post\<rparr>) k' = class_upd (mComp m) (fm_lookup m) k (Some v) k'"
    proof (cases "equivalent (mComp m) k k'")
      case True
      then have "class_find (mComp m) pre k' = None"
        using class_find_equiv [OF swo True, of pre] class_find_none [of pre "mComp m" k] assms(3) by simp
      with True show ?thesis
        by (simp add: fm_lookup_def class_upd_def class_find_append class_find_Cons equivalent_sym)
    next
      case False
      then show ?thesis
        by (simp add: fm_lookup_def class_upd_def class_find_append class_find_Cons equivalent_sym assms(2)
            split: option.splits)
    qed
  qed
qed

lemma fm_inv_update:
  assumes "fm_inv m" and "mData m = pre @ p # post" and "equivalent (mComp m) k (fst p)"
    and "\<forall>e\<in>set pre. mComp m (fst e) k"
  shows "fm_inv (m\<lparr>mData := pre @ (fst p, v) # post\<rparr>)"
    and "fm_lookup (m\<lparr>mData := pre @ (fst p, v) # post\<rparr>) = class_upd (mComp m) (fm_lookup m) k (Some v)"
proof -
  have swo: "strict_weak_order (mComp m)" using assms(1) by (simp add: fm_inv_def)
  show "fm_inv (m\<lparr>mData := pre @ (fst p, v) # post\<rparr>)"
    using assms(1,2) by (simp add: fm_inv_def sorted_wrt_append keyValueComp_def)
  show "fm_lookup (m\<lparr>mData := pre @ (fst p, v) # post\<rparr>) = class_upd (mComp m) (fm_lookup m) k (Some v)"
  proof
    fix k'
    have eqv: "equivalent (mComp m) k' (fst p) \<longleftrightarrow> equivalent (mComp m) k k'"
      using swo_equiv(4) [OF swo assms(3), of k'] by (simp add: equivalent_sym)
    show "fm_lookup (m\<lparr>mData := pre @ (fst p, v) # post\<rparr>) k' = class_upd (mComp m) (fm_lookup m) k (Some v) k'"
    proof (cases "equivalent (mComp m) k k'")
      case True
      then have "class_find (mComp m) pre k' = None"
        using class_find_equiv [OF swo True, of pre] class_find_none [of pre "mComp m" k] assms(4) by simp
      with True show ?thesis
        by (simp add: fm_lookup_def class_upd_def class_find_append class_find_Cons eqv)
    next
      case False
      then show ?thesis
        by (simp add: fm_lookup_def class_upd_def class_find_append class_find_Cons eqv assms(2)
            split: option.splits)
    qed
  qed
qed

lemma fm_inv_erase:
  assumes "fm_inv m" and "mData m = pre @ p # post" and "equivalent (mComp m) k (fst p)"
  shows "fm_inv (m\<lparr>mData := pre @ post\<rparr>)"
    and "fm_lookup (m\<lparr>mData := pre @ post\<rparr>) = class_upd (mComp m) (fm_lookup m) k None"
proof -
  have swo: "strict_weak_order (mComp m)" using assms(1) by (simp add: fm_inv_def)
  show "fm_inv (m\<lparr>mData := pre @ post\<rparr>)"
    using assms(1,2) by (simp add: fm_inv_def sorted_wrt_append)
  have pre: "\<forall>e\<in>set pre. mComp m (fst e) (fst p)" and post: "\<forall>e\<in>set post. mComp m (fst p) (fst e)"
    using assms(1,2) by (simp_all add: fm_inv_def sorted_wrt_append keyValueComp_def)
  show "fm_lookup (m\<lparr>mData := pre @ post\<rparr>) = class_upd (mComp m) (fm_lookup m) k None"
  proof
    fix k'
    have eqv: "equivalent (mComp m) k' (fst p) \<longleftrightarrow> equivalent (mComp m) k k'"
      using swo_equiv(4) [OF swo assms(3), of k'] by (simp add: equivalent_sym)
    show "fm_lookup (m\<lparr>mData := pre @ post\<rparr>) k' = class_upd (mComp m) (fm_lookup m) k None k'"
    proof (cases "equivalent (mComp m) k k'")
      case True
      have "equivalent (mComp m) (fst p) k'" using True eqv equivalent_sym by metis
      note e = class_find_equiv [OF swo this]
      have "class_find (mComp m) pre k' = None" "class_find (mComp m) post k' = None"
        unfolding e [symmetric] using pre post by (auto intro: class_find_none)
      with True show ?thesis by (simp add: fm_lookup_def class_upd_def class_find_append)
    next
      case False
      then show ?thesis
        by (simp add: fm_lookup_def class_upd_def class_find_append class_find_Cons eqv assms(2)
            split: option.splits)
    qed
  qed
qed

end
