(* ===== verification/FlatMap_Laws.thy ===== *)
theory FlatMap_Laws
  imports FlatMap
begin

text \<open>
  What the operations of \<open>FlatMap\<close> do to the map the container stands for, for every comparator
  that is a strict weak order; then the contract of an associative container for \<open>std::less\<close>, and
  the properties.
\<close>

section \<open>Single-key operations\<close>

lemma fm_lookup_found:
  assumes "fm_inv m" and "mData m = pre @ p # post" and "equivalent (mComp m) k (fst p)"
    and "\<forall>e\<in>set pre. mComp m (fst e) k" and "\<forall>e\<in>set post. mComp m k (fst e)"
  shows "fm_lookup m k = Some (snd p)"
  using fm_found [OF assms] by (simp add: fm_lookup_def)

lemma fm_lookup_absent:
  assumes "mData m = pre @ post"
    and "\<forall>e\<in>set pre. mComp m (fst e) k" and "\<forall>e\<in>set post. mComp m k (fst e)"
  shows "fm_lookup m k = None"
  using fm_absent [OF assms] by (simp add: fm_lookup_def)

lemma fm_find_spec:
  assumes "fm_inv m"
  shows "fm_find m k \<noteq> length (mData m) \<longleftrightarrow> fm_lookup m k \<noteq> None"
    and "fm_find m k \<noteq> length (mData m) \<Longrightarrow> fm_find m k < length (mData m)
      \<and> equivalent (mComp m) k (fst (mData m ! fm_find m k))
      \<and> fm_lookup m k = Some (snd (mData m ! fm_find m k))"
proof -
  have "(fm_find m k \<noteq> length (mData m) \<longleftrightarrow> fm_lookup m k \<noteq> None)
    \<and> (fm_find m k \<noteq> length (mData m) \<longrightarrow> fm_find m k < length (mData m)
      \<and> equivalent (mComp m) k (fst (mData m ! fm_find m k))
      \<and> fm_lookup m k = Some (snd (mData m ! fm_find m k)))"
  proof (cases rule: fm_split [OF assms, of k])
    case (1 pre p post)
    note l = fm_lookup_found [OF assms 1(1-4)]
    have "fm_find m k = length pre" using 1(1,2,5) by (simp add: fm_find_def equivalent_def)
    with l 1(1,2) show ?thesis by simp
  next
    case (2 pre post)
    note l = fm_lookup_absent [OF 2(1-3)]
    have "fm_find m k = length (mData m)" using 2 by (cases post) (simp_all add: fm_find_def)
    with l show ?thesis by simp
  qed
  then show "fm_find m k \<noteq> length (mData m) \<longleftrightarrow> fm_lookup m k \<noteq> None"
    and "fm_find m k \<noteq> length (mData m) \<Longrightarrow> fm_find m k < length (mData m)
      \<and> equivalent (mComp m) k (fst (mData m ! fm_find m k))
      \<and> fm_lookup m k = Some (snd (mData m ! fm_find m k))" by blast+
qed

lemma fm_contains_spec: "fm_inv m \<Longrightarrow> fm_contains m k \<longleftrightarrow> fm_lookup m k \<noteq> None"
  using fm_find_spec(1) [of m k] by (simp add: fm_contains_def)

lemma fm_count_spec: "fm_inv m \<Longrightarrow> fm_count m k = (if fm_lookup m k \<noteq> None then 1 else 0)"
  using fm_find_spec(1) [of m k] by (simp add: fm_count_def)

lemma fm_at_spec:
  assumes "fm_inv m"
  shows "fm_at m k = (case fm_lookup m k of None \<Rightarrow> Inl Out_of_range | Some v \<Rightarrow> Inr v)"
proof (cases rule: fm_split [OF assms, of k])
  case (1 pre p post)
  with fm_lookup_found [OF assms 1(1-4)] show ?thesis by (simp add: fm_at_def equivalent_def)
next
  case (2 pre post)
  with fm_lookup_absent [OF 2(1-3)] show ?thesis by (cases post) (simp_all add: fm_at_def)
qed

text \<open>All the insertions take one of two branches.\<close>

lemma fm_insert_cases:
  assumes "fm_inv m"
  obtains (present) p it where "mData m ! it = p" "it < length (mData m)" "equivalent (mComp m) k (fst p)"
      "fm_lookup m k = Some (snd p)" "lowerBoundInternal m k = it" "\<not> mComp m k (fst p)"
      "\<And>v. fm_inv (m\<lparr>mData := (mData m)[it := (fst p, v)]\<rparr>)
        \<and> fm_lookup (m\<lparr>mData := (mData m)[it := (fst p, v)]\<rparr>) = class_upd (mComp m) (fm_lookup m) k (Some v)"
      "fm_inv (m\<lparr>mData := vec_erase (mData m) it (Suc it)\<rparr>)
        \<and> fm_lookup (m\<lparr>mData := vec_erase (mData m) it (Suc it)\<rparr>) = class_upd (mComp m) (fm_lookup m) k None"
  | (new) it where "it \<le> length (mData m)" "fm_lookup m k = None" "lowerBoundInternal m k = it"
      "it = length (mData m) \<or> mComp m k (fst (mData m ! it))"
      "\<And>v. fm_inv (m\<lparr>mData := vec_insert (mData m) it (k, v)\<rparr>)
        \<and> fm_lookup (m\<lparr>mData := vec_insert (mData m) it (k, v)\<rparr>) = class_upd (mComp m) (fm_lookup m) k (Some v)
        \<and> vec_insert (mData m) it (k, v) ! it = (k, v)"
proof (cases rule: fm_split [OF assms, of k])
  case (1 pre p post)
  have u: "fm_inv (m\<lparr>mData := (mData m)[length pre := (fst p, v)]\<rparr>)
        \<and> fm_lookup (m\<lparr>mData := (mData m)[length pre := (fst p, v)]\<rparr>) = class_upd (mComp m) (fm_lookup m) k (Some v)" for v
    using fm_inv_update [OF assms 1(1-3), of v] by (simp add: 1(1))
  have e: "fm_inv (m\<lparr>mData := vec_erase (mData m) (length pre) (Suc (length pre))\<rparr>)
        \<and> fm_lookup (m\<lparr>mData := vec_erase (mData m) (length pre) (Suc (length pre))\<rparr>) = class_upd (mComp m) (fm_lookup m) k None"
    using fm_inv_erase [OF assms 1(1,2)] by (simp add: 1(1))
  show thesis
    by (rule present [of "length pre" p, OF _ _ 1(2) fm_lookup_found [OF assms 1(1-4)] 1(5) _ u e])
      (use 1(1,2) in \<open>simp_all add: equivalent_def\<close>)
next
  case (2 pre post)
  have i: "fm_inv (m\<lparr>mData := vec_insert (mData m) (length pre) (k, v)\<rparr>)
        \<and> fm_lookup (m\<lparr>mData := vec_insert (mData m) (length pre) (k, v)\<rparr>) = class_upd (mComp m) (fm_lookup m) k (Some v)
        \<and> vec_insert (mData m) (length pre) (k, v) ! length pre = (k, v)" for v
    using fm_inv_insert [OF assms 2(1-3), of v] by (simp add: 2(1))
  show thesis
    by (rule new [of "length pre", OF _ fm_lookup_absent [OF 2(1-3)] 2(4) _ i])
      (use 2(1,3) in \<open>cases post; simp\<close>)+
qed

lemma fm_insert_spec:
  assumes "fm_inv m" and "fm_insert m (k, v) = (m', it, b)"
  shows "fm_inv m'" and "mComp m' = mComp m" and "b \<longleftrightarrow> fm_lookup m k = None"
    and "fm_lookup m' = (if b then class_upd (mComp m) (fm_lookup m) k (Some v) else fm_lookup m)"
    and "it < length (mData m') \<and> equivalent (mComp m) k (fst (mData m' ! it))"
proof -
  have swo: "strict_weak_order (mComp m)" using assms(1) by (simp add: fm_inv_def)
  have "fm_inv m' \<and> mComp m' = mComp m \<and> (b \<longleftrightarrow> fm_lookup m k = None)
    \<and> fm_lookup m' = (if b then class_upd (mComp m) (fm_lookup m) k (Some v) else fm_lookup m)
    \<and> it < length (mData m') \<and> equivalent (mComp m) k (fst (mData m' ! it))"
  proof (cases rule: fm_insert_cases [OF assms(1), of k])
    case (1 p i)
    then have "(m', it, b) = (m, i, False)" unfolding assms(2) [symmetric] by (simp add: fm_insert_def)
    with 1 assms(1) show ?thesis by simp
  next
    case (2 i)
    then have e: "(m', it, b) = (m\<lparr>mData := vec_insert (mData m) i (k, v)\<rparr>, i, True)"
      unfolding assms(2) [symmetric] by (auto simp: fm_insert_def)
    have "i < length (vec_insert (mData m) i (k, v))" using 2(1) by (simp add: vec_insert_def)
    with 2 e show ?thesis by (simp add: equivalent_refl [OF swo])
  qed
  then show "fm_inv m'" and "mComp m' = mComp m" and "b \<longleftrightarrow> fm_lookup m k = None"
    and "fm_lookup m' = (if b then class_upd (mComp m) (fm_lookup m) k (Some v) else fm_lookup m)"
    and "it < length (mData m') \<and> equivalent (mComp m) k (fst (mData m' ! it))" by blast+
qed

text \<open>\<open>emplace\<close> and \<open>try_emplace\<close> have the effect of \<open>insert\<close>.\<close>

lemma fm_emplace_eq: "fm_emplace m temp = fm_insert m temp"
  unfolding fm_emplace_def fm_insert_def prod.collapse ..

lemma fm_try_emplace_eq: "fm_try_emplace m k args construct = fm_insert m (k, construct args)"
  unfolding fm_try_emplace_def fm_insert_def fst_conv snd_conv ..

lemma fm_insert_or_assign_spec:
  assumes "fm_inv m" and "fm_insert_or_assign m k v = (m', it, b)"
  shows "fm_inv m'" and "mComp m' = mComp m" and "b \<longleftrightarrow> fm_lookup m k = None"
    and "fm_lookup m' = class_upd (mComp m) (fm_lookup m) k (Some v)"
proof -
  have "fm_inv m' \<and> mComp m' = mComp m \<and> (b \<longleftrightarrow> fm_lookup m k = None)
    \<and> fm_lookup m' = class_upd (mComp m) (fm_lookup m) k (Some v)"
  proof (cases rule: fm_insert_cases [OF assms(1), of k])
    case (1 p i)
    then have "(m', it, b) = (m\<lparr>mData := (mData m)[i := (fst p, v)]\<rparr>, i, False)"
      unfolding assms(2) [symmetric] by (auto simp: fm_insert_or_assign_def)
    with 1 show ?thesis by simp
  next
    case (2 i)
    then have e: "(m', it, b) = (m\<lparr>mData := vec_insert (mData m) i (k, v)\<rparr>, i, True)"
      unfolding assms(2) [symmetric] by (auto simp: fm_insert_or_assign_def)
    with 2 show ?thesis by simp
  qed
  then show "fm_inv m'" and "mComp m' = mComp m" and "b \<longleftrightarrow> fm_lookup m k = None"
    and "fm_lookup m' = class_upd (mComp m) (fm_lookup m) k (Some v)" by blast+
qed

lemma fm_erase_spec:
  assumes "fm_inv m" and "fm_erase m k = (m', n)"
  shows "fm_inv m'" and "mComp m' = mComp m" and "n = (if fm_lookup m k = None then 0 else 1)"
    and "fm_lookup m' = class_upd (mComp m) (fm_lookup m) k None"
proof -
  have swo: "strict_weak_order (mComp m)" using assms(1) by (simp add: fm_inv_def)
  have "fm_inv m' \<and> mComp m' = mComp m \<and> n = (if fm_lookup m k = None then 0 else 1)
    \<and> fm_lookup m' = class_upd (mComp m) (fm_lookup m) k None"
  proof (cases rule: fm_insert_cases [OF assms(1), of k])
    case (1 p i)
    then have "(m', n) = (m\<lparr>mData := vec_erase (mData m) i (Suc i)\<rparr>, 1)"
      unfolding assms(2) [symmetric] by (auto simp: fm_erase_def)
    with 1 show ?thesis by simp
  next
    case (2 i)
    then have "(m', n) = (m, 0)" unfolding assms(2) [symmetric] by (auto simp: fm_erase_def)
    moreover have "class_upd (mComp m) (fm_lookup m) k None = fm_lookup m"
    proof
      fix k'
      show "class_upd (mComp m) (fm_lookup m) k None k' = fm_lookup m k'"
        using 2(2) class_find_equiv [OF swo, of k k' "mData m"] by (auto simp: class_upd_def fm_lookup_def)
    qed
    ultimately show ?thesis using assms(1) 2(2) by simp
  qed
  then show "fm_inv m'" and "mComp m' = mComp m" and "n = (if fm_lookup m k = None then 0 else 1)"
    and "fm_lookup m' = class_upd (mComp m) (fm_lookup m) k None" by blast+
qed

lemma fm_subscript_spec:
  assumes "fm_inv m" and "fm_subscript dflt m k = (m', it)"
  shows "fm_inv m'" and "mComp m' = mComp m" and "fm_lookup m' k = Some (snd (mData m' ! it))"
    and "it < length (mData m') \<and> equivalent (mComp m) k (fst (mData m' ! it))"
    and "fm_lookup m' = (if fm_lookup m k = None then class_upd (mComp m) (fm_lookup m) k (Some dflt) else fm_lookup m)"
proof -
  have swo: "strict_weak_order (mComp m)" using assms(1) by (simp add: fm_inv_def)
  have "fm_inv m' \<and> mComp m' = mComp m \<and> fm_lookup m' k = Some (snd (mData m' ! it)) 
    \<and> it < length (mData m') \<and> equivalent (mComp m) k (fst (mData m' ! it))
    \<and> fm_lookup m' = (if fm_lookup m k = None then class_upd (mComp m) (fm_lookup m) k (Some dflt) else fm_lookup m)"
  proof (cases rule: fm_insert_cases [OF assms(1), of k])
    case (1 p i)
    then have "(m', it) = (m, i)" unfolding assms(2) [symmetric] by (auto simp: fm_subscript_def)
    with 1 assms(1) show ?thesis by simp
  next
    case (2 i)
    then have e: "(m', it) = (m\<lparr>mData := vec_insert (mData m) i (k, dflt)\<rparr>, i)"
      unfolding assms(2) [symmetric] by (auto simp: fm_subscript_def)
    have "i < length (vec_insert (mData m) i (k, dflt))" using 2(1) by (simp add: vec_insert_def)
    with 2 e show ?thesis by (simp add: class_upd_def equivalent_refl [OF swo])
  qed
  then show "fm_inv m'" and "mComp m' = mComp m" and "fm_lookup m' k = Some (snd (mData m' ! it))"
    and "it < length (mData m') \<and> equivalent (mComp m) k (fst (mData m' ! it))"
    and "fm_lookup m' = (if fm_lookup m k = None then class_upd (mComp m) (fm_lookup m) k (Some dflt) else fm_lookup m)"
    by blast+
qed

section \<open>Hints\<close>

text \<open>The comparisons of a key with the entries, as comparisons of positions.\<close>

lemma fm_positions:
  fixes m :: "('k, 'v) flat_map" and k :: 'k
  assumes "fm_inv m"
  defines "l \<equiv> lowerBoundInternal m k" and "u \<equiv> fm_upper_bound m k"
  shows "l \<le> u" and "u \<le> Suc l" and "u \<le> length (mData m)"
    and "i < length (mData m) \<Longrightarrow> mComp m (fst (mData m ! i)) k \<longleftrightarrow> i < l"
    and "i < length (mData m) \<Longrightarrow> mComp m k (fst (mData m ! i)) \<longleftrightarrow> u \<le> i"
proof -
  have swo: "strict_weak_order (mComp m)" using assms(1) by (simp add: fm_inv_def)
  note asym = swo_asym [OF swo]
  have "l \<le> u \<and> u \<le> Suc l \<and> u \<le> length (mData m)
    \<and> (i < length (mData m) \<longrightarrow> (mComp m (fst (mData m ! i)) k \<longleftrightarrow> i < l) \<and> (mComp m k (fst (mData m ! i)) \<longleftrightarrow> u \<le> i))" for i
  proof (cases rule: fm_split [OF assms(1), of k])
    case (1 pre p post)
    have "mComp m (fst (mData m ! i)) k \<longleftrightarrow> i < length pre" "mComp m k (fst (mData m ! i)) \<longleftrightarrow> Suc (length pre) \<le> i"
      if "i < length (mData m)"
    proof -
      consider "i < length pre" | "i = length pre" | j where "i = Suc (length pre + j)" "j < length post"
      proof -
        have "i = Suc (length pre + (i - Suc (length pre))) \<and> i - Suc (length pre) < length post" if "length pre < i"
          using that \<open>i < length (mData m)\<close> 1(1) by simp
        then show thesis using that by (meson linorder_neqE_nat)
      qed
      then have "(mComp m (fst (mData m ! i)) k \<longleftrightarrow> i < length pre) \<and> (mComp m k (fst (mData m ! i)) \<longleftrightarrow> Suc (length pre) \<le> i)"
      proof cases
        case 1
        then have "mComp m (fst (mData m ! i)) k" using \<open>\<forall>e\<in>set pre. _ e\<close> \<open>mData m = _\<close> by (simp add: nth_append)
        with 1 asym show ?thesis by (metis Suc_leD leD)
      next
        case 2
        then have "mData m ! i = p" using \<open>mData m = _\<close> by simp
        then show ?thesis using 2 \<open>equivalent _ _ _\<close> by (simp add: equivalent_def)
      next
        case (3 j)
        then have "mData m ! i = post ! j" using \<open>mData m = _\<close> by (simp add: nth_append)
        then have "mComp m k (fst (mData m ! i))" using \<open>\<forall>e\<in>set post. _ e\<close> 3(2) by simp
        with 3(1) asym show ?thesis by fastforce
      qed
      then show "mComp m (fst (mData m ! i)) k \<longleftrightarrow> i < length pre" "mComp m k (fst (mData m ! i)) \<longleftrightarrow> Suc (length pre) \<le> i" by blast+
    qed
    then show ?thesis using 1(1,5,6) by (simp add: l_def u_def)
  next
    case (2 pre post)
    have "mComp m (fst (mData m ! i)) k \<longleftrightarrow> i < length pre" "mComp m k (fst (mData m ! i)) \<longleftrightarrow> length pre \<le> i"
      if "i < length (mData m)"
    proof -
      have "if i < length pre then mComp m (fst (mData m ! i)) k else mComp m k (fst (mData m ! i))"
        using 2(1-3) that by (simp add: nth_append)
      then show "mComp m (fst (mData m ! i)) k \<longleftrightarrow> i < length pre" "mComp m k (fst (mData m ! i)) \<longleftrightarrow> length pre \<le> i"
        using asym by (metis not_le)+
    qed
    then show ?thesis using 2(1,4,5) by (simp add: l_def u_def)
  qed
  then show "l \<le> u" and "u \<le> Suc l" and "u \<le> length (mData m)"
    and "i < length (mData m) \<Longrightarrow> mComp m (fst (mData m ! i)) k \<longleftrightarrow> i < l"
    and "i < length (mData m) \<Longrightarrow> mComp m k (fst (mData m ! i)) \<longleftrightarrow> u \<le> i" by blast+
qed

lemma fm_insert_positions:
  fixes m :: "('k, 'v) flat_map" and k :: 'k
  assumes "fm_inv m"
  defines "l \<equiv> lowerBoundInternal m k" and "u \<equiv> fm_upper_bound m k"
  shows "fm_insert m (k, v) = (if l < u then (m, l, False) else (m\<lparr>mData := vec_insert (mData m) l (k, v)\<rparr>, l, True))"
proof -
  note p = fm_positions [OF assms(1), where k = k, folded l_def u_def]
  have "l \<noteq> length (mData m) \<and> \<not> mComp m k (fst (mData m ! l)) \<longleftrightarrow> l < u"
    using p(1-3) p(5) [of l] by (metis le_neq_implies_less linorder_not_le order.trans)
  then show ?thesis by (simp add: fm_insert_def Let_def l_def)
qed

lemma insertWithHint_insert:
  assumes "fm_inv m" and "hint \<le> length (mData m)"
  shows "insertWithHint m hint k v = Inr (fst (fm_insert m (k, v)), fst (snd (fm_insert m (k, v))))"
proof -
  define l where "l = lowerBoundInternal m k"
  define u where "u = fm_upper_bound m k"
  define d where "d = mData m"
  note p = fm_positions [OF assms(1), where k = k, folded l_def u_def d_def]
  note ins = fm_insert_positions [OF assms(1), where k = k and v = v, folded l_def u_def d_def]
  let ?fb = "if l \<noteq> length d \<and> \<not> mComp m k (fst (d ! l)) then (m, l) else (m\<lparr>mData := vec_insert d l (k, v)\<rparr>, l)"
  have c: "l \<noteq> length d \<and> \<not> mComp m k (fst (d ! l)) \<longleftrightarrow> l < u"
    using p(1-3) p(5) [of l] by (metis le_neq_implies_less linorder_not_le order.trans)
  have fb: "?fb = (fst (fm_insert m (k, v)), fst (snd (fm_insert m (k, v))))"
    unfolding c by (simp add: ins)
  note defn = insertWithHint_def [of m hint k v, folded d_def l_def, unfolded Let_def, folded l_def, unfolded fb]
  show ?thesis
  proof (cases "hint = length d")
    case True
    show ?thesis
    proof (cases "d = []")
      case True
      with p(1-3) have "l = 0" "u = 0" by simp_all
      with True \<open>hint = length d\<close> show ?thesis unfolding defn by (simp add: ins vec_insert_def)
    next
      case False
      then have len: "length d - 1 < length d" by simp
      note q = p(4) [OF len] p(5) [OF len]
      show ?thesis using p(1-3) len
        unfolding defn unfolding \<open>hint = length d\<close> last_conv_nth [OF False] q ins
        by (auto simp: False vec_insert_def)
    qed
  next
    case ne: False
    show ?thesis
    proof (cases "hint = 0")
      case True
      with ne have d: "d \<noteq> []" "0 < length d" by auto
      note q = p(4) [OF d(2)] p(5) [OF d(2)]
      show ?thesis using p(1-3) d ne
        unfolding defn unfolding True hd_conv_nth [OF d(1)] q ins
        by auto
    next
      case False
      then obtain j where j: "hint = Suc j" by (cases hint) auto
      have h: "j < length d" "Suc j < length d" using ne assms(2) d_def j by auto
      note q = p(4) [OF h(1)] p(5) [OF h(1)] p(4) [OF h(2)] p(5) [OF h(2)]
      show ?thesis using p(1-3) h ne
        unfolding defn unfolding j ins
        by (auto simp: q intro!: arg_cong [where f = "\<lambda>i. m\<lparr>mData := vec_insert d i (k, v)\<rparr>"])
    qed
  qed
qed


section \<open>Ranges\<close>

lemma kv_one_class:
  assumes "strict_weak_order (mComp m)"
  shows "one_class (keyValueComp m) (\<lambda>e. equivalent (mComp m) k (fst e))"
  unfolding one_class_def equivalent_kv using swo_equiv(3) [OF assms] by blast

lemma class_find_merge:
  assumes "strict_weak_order (mComp m)" and "ascending (keyValueComp m) xs"
  shows "class_find (mComp m) (std_merge (keyValueComp m) xs ys) k = class_find (mComp m) (xs @ ys) k"
  unfolding class_find_append
  unfolding class_find_def by (rule find_std_merge [OF swo_kv [OF assms(1)] kv_one_class [OF assms(1)] assms(2)])

lemma class_find_sort:
  assumes "strict_weak_order (mComp m)"
  shows "class_find (mComp m) (std_stable_sort (keyValueComp m) xs) k = class_find (mComp m) xs k"
  unfolding class_find_def by (rule find_stable_sort [OF kv_one_class [OF assms]])

lemma class_find_unique:
  assumes "strict_weak_order (mComp m)"
  shows "class_find (mComp m) (std_unique (equivalent (keyValueComp m)) xs) k = class_find (mComp m) xs k"
  unfolding class_find_def by (rule find_std_unique [OF swo_kv [OF assms] kv_one_class [OF assms]])

lemma sorted_ascending: "strict_weak_order lt \<Longrightarrow> sorted_wrt lt xs \<Longrightarrow> ascending lt xs"
  by (erule sorted_wrt_mono_rel [rotated]) (blast dest: swo_asym)

lemmas range_lookup = class_find_sort class_find_unique

lemma fm_of_range_spec:
  assumes "strict_weak_order cmp"
  shows "fm_inv (fm_of_range cmp ps)" and "mComp (fm_of_range cmp ps) = cmp"
    and "fm_lookup (fm_of_range cmp ps) k = map_option snd (class_find cmp ps k)"
proof -
  define m where "m = \<lparr>mData = ps, mComp = cmp\<rparr>"
  have swo: "strict_weak_order (mComp m)" by (simp add: m_def assms)
  have r: "fm_of_range cmp ps = m\<lparr>mData := std_unique (equivalent (keyValueComp m)) (std_stable_sort (keyValueComp m) ps)\<rparr>"
    by (simp add: fm_of_range_def m_def [symmetric] equivalent_kv_fun) (simp add: m_def)
  show "fm_inv (fm_of_range cmp ps)"
    using std_unique_sorted [OF swo_kv [OF swo] ascending_stable_sort [OF swo_kv [OF swo]], of ps]
    by (simp add: fm_inv_def r swo)
  show "mComp (fm_of_range cmp ps) = cmp" by (simp add: r m_def)
  show "fm_lookup (fm_of_range cmp ps) k = map_option snd (class_find cmp ps k)"
    using range_lookup [OF swo] by (simp add: fm_lookup_def r) (simp add: m_def)
qed

text \<open>Sorting or not, the new entries are merged behind the old ones.\<close>

lemma merge_unique_spec:
  assumes "fm_inv m" and "ascending (keyValueComp m) ys"
  shows "fm_inv (m\<lparr>mData := std_unique (equivalent (keyValueComp m)) (std_merge (keyValueComp m) (mData m) ys)\<rparr>)"
    and "class_find (mComp m) (std_unique (equivalent (keyValueComp m)) (std_merge (keyValueComp m) (mData m) ys)) k
      = class_find (mComp m) (mData m @ ys) k"
proof -
  have swo: "strict_weak_order (mComp m)" and so: "ascending (keyValueComp m) (mData m)"
    using assms(1) sorted_ascending [OF swo_kv] unfolding fm_inv_def by blast+
  show "fm_inv (m\<lparr>mData := std_unique (equivalent (keyValueComp m)) (std_merge (keyValueComp m) (mData m) ys)\<rparr>)"
    using std_unique_sorted [OF swo_kv [OF swo] ascending_std_merge [OF swo_kv [OF swo] so assms(2)]]
    by (simp add: fm_inv_def swo)
  show "class_find (mComp m) (std_unique (equivalent (keyValueComp m)) (std_merge (keyValueComp m) (mData m) ys)) k
      = class_find (mComp m) (mData m @ ys) k"
    unfolding class_find_unique [OF swo] by (rule class_find_merge [OF swo so])
qed

lemma fm_insert_range_spec:
  assumes "fm_inv m"
  shows "fm_inv (fm_insert_range m ps)" and "mComp (fm_insert_range m ps) = mComp m"
    and "fm_lookup (fm_insert_range m ps) k
      = (case fm_lookup m k of None \<Rightarrow> map_option snd (class_find (mComp m) ps k) | Some v \<Rightarrow> Some v)"
proof -
  have swo: "strict_weak_order (mComp m)" using assms by (simp add: fm_inv_def)
  note r = fm_insert_range_def [of m ps, unfolded Let_def equivalent_kv_fun]
  note s = merge_unique_spec [OF assms ascending_stable_sort [OF swo_kv [OF swo]], of ps]
  show "fm_inv (fm_insert_range m ps)" unfolding r using s(1) assms by simp
  show "mComp (fm_insert_range m ps) = mComp m" unfolding r by simp
  have "class_find (mComp m) (mData (fm_insert_range m ps)) k = class_find (mComp m) (mData m @ ps) k"
    unfolding r by (simp add: s(2) [of k] class_find_sort [OF swo, of ps k] class_find_append class_find_def [of _ "[]"] split: option.splits)
  with \<open>mComp (fm_insert_range m ps) = mComp m\<close>
  show "fm_lookup (fm_insert_range m ps) k
      = (case fm_lookup m k of None \<Rightarrow> map_option snd (class_find (mComp m) ps k) | Some v \<Rightarrow> Some v)"
    by (simp add: fm_lookup_def class_find_append split: option.splits)
qed

text \<open>On a range that is sorted, skipping the sort changes nothing.\<close>

lemma stable_insert_sorted: "\<forall>y\<in>set ys. \<not> lt y x \<Longrightarrow> stable_insert lt x ys = x # ys"
  by (cases ys) simp_all

lemma stable_sort_sorted: "ascending lt xs \<Longrightarrow> std_stable_sort lt xs = xs"
  by (induction xs) (simp_all add: std_stable_sort_def stable_insert_sorted)

lemma fm_insert_ordered_eq:
  assumes "fm_inv m" and "std_is_sorted (keyValueComp m) ps"
  shows "fm_insert_ordered_unique dbg m ps = (fm_insert_range m ps, Inr ())"
proof -
  have "strict_weak_order (keyValueComp m)" using assms(1) swo_kv unfolding fm_inv_def by blast
  then have "ascending (keyValueComp m) ps" using assms(2) by (simp add: std_is_sorted_iff)
  then show ?thesis
    using assms(2) by (simp add: fm_insert_ordered_unique_def fm_insert_range_def stable_sort_sorted)
qed

lemma fm_of_ordered_eq:
  assumes "strict_weak_order cmp" and "std_is_sorted (\<lambda>a b. cmp (fst a) (fst b)) ps"
  shows "fm_of_ordered dbg cmp ps = Inr (fm_of_range cmp ps)"
proof -
  define m where "m = \<lparr>mData = ps, mComp = cmp\<rparr>"
  have kv: "keyValueComp m = (\<lambda>a b. cmp (fst a) (fst b))" by (simp add: fun_eq_iff keyValueComp_def m_def)
  have "strict_weak_order (keyValueComp m)" using swo_kv [of m] assms(1) by (simp add: m_def)
  then have "ascending (keyValueComp m) ps" using assms(2) by (simp add: std_is_sorted_iff kv)
  then show ?thesis
    using assms(2) by (simp add: fm_of_ordered_def fm_of_range_def m_def [symmetric] stable_sort_sorted kv)
      (simp add: m_def stable_sort_sorted)
qed

section \<open>merge\<close>

lemma merge_loop_mset: "merge_loop lt xs ys = (ms, rs) \<Longrightarrow> mset ms + mset rs = mset xs + mset ys"
proof (induction lt xs ys arbitrary: ms rs rule: merge_loop.induct)
  case (1 lt x xs y ys)
  show ?case
    using 1 by (cases "merge_loop lt xs (y # ys)"; cases "merge_loop lt (x # xs) ys"; cases "merge_loop lt xs ys")
      (auto split: if_splits)
qed auto

lemma merge_loop_set: "merge_loop lt xs ys = (ms, rs) \<Longrightarrow> set ms \<subseteq> set xs \<union> set ys"
  by (drule merge_loop_mset) (metis Un_upper1 set_mset_mset set_mset_union)

abbreviation key_sorted :: "('k \<Rightarrow> 'k \<Rightarrow> bool) \<Rightarrow> ('k \<times> 'v) list \<Rightarrow> bool" where
  "key_sorted lt xs \<equiv> sorted_wrt (\<lambda>a b. lt (fst a) (fst b)) xs"

text \<open>An entry that comes before both inputs is none of their keys.\<close>

lemma before_none: "\<forall>e\<in>set xs. lt k (fst e) \<Longrightarrow> class_find lt xs k = None"
  by (simp add: class_find_none)

lemma head_before:
  assumes "strict_weak_order lt" and "key_sorted lt (y # ys)" and "lt k (fst y) \<or> equivalent lt k (fst y)"
  shows "\<forall>e\<in>set ys. lt k (fst e)"
  using assms swo_equiv(1) [OF assms(1)] swo_trans [OF assms(1)] by auto

lemma merge_loop_sorted:
  assumes swo: "strict_weak_order lt"
  shows "\<lbrakk>key_sorted lt xs; key_sorted lt ys; merge_loop lt xs ys = (ms, rs)\<rbrakk> \<Longrightarrow> key_sorted lt ms"
  using swo
proof (induction lt xs ys arbitrary: ms rs rule: merge_loop.induct)
  case (1 lt x xs y ys)
  note swo = 1(7)
  show ?case
  proof (cases "lt (fst x) (fst y)")
    case True
    obtain ms' where ml: "merge_loop lt xs (y # ys) = (ms', rs)" "ms = x # ms'"
      using 1(6) True by (cases "merge_loop lt xs (y # ys)") auto
    have "\<forall>z\<in>set ms'. lt (fst x) (fst z)"
      using merge_loop_set [OF ml(1)] 1(4) True head_before [OF swo 1(5)] by auto
    then show ?thesis using 1(1) [OF True _ 1(5) ml(1) swo] 1(4) ml(2) by simp
  next
    case nxy: False
    show ?thesis
    proof (cases "lt (fst y) (fst x)")
      case True
      obtain ms' where ml: "merge_loop lt (x # xs) ys = (ms', rs)" "ms = y # ms'"
        using 1(6) True nxy by (cases "merge_loop lt (x # xs) ys") auto
      have "\<forall>z\<in>set ms'. lt (fst y) (fst z)"
        using merge_loop_set [OF ml(1)] 1(5) True head_before [OF swo 1(4)] by auto
      then show ?thesis using 1(2) [OF nxy True 1(4) _ ml(1) swo] 1(5) ml(2) by simp
    next
      case False
      obtain ms' rs' where ml: "merge_loop lt xs ys = (ms', rs')" "ms = x # ms'"
        using 1(6) False nxy by (cases "merge_loop lt xs ys") auto
      have "equivalent lt (fst x) (fst y)" using nxy False by (simp add: equivalent_def)
      then have "\<forall>z\<in>set ms'. lt (fst x) (fst z)"
        using merge_loop_set [OF ml(1)] 1(4) head_before [OF swo 1(5)] by auto
      then show ?thesis using 1(3) [OF nxy False _ _ ml(1) swo] 1(4,5) ml(2) by simp
    qed
  qed
qed auto

text \<open>What stays in the source is what the container has already.\<close>

lemma merge_loop_remaining:
  assumes swo: "strict_weak_order lt"
  shows "\<lbrakk>key_sorted lt xs; key_sorted lt ys; merge_loop lt xs ys = (ms, rs)\<rbrakk> \<Longrightarrow>
    rs = filter (\<lambda>y. class_find lt xs (fst y) \<noteq> None) ys"
  using swo
proof (induction lt xs ys arbitrary: ms rs rule: merge_loop.induct)
  case (1 lt x xs y ys)
  note swo = 1(7)
  have drop_x: "filter (\<lambda>z. class_find lt xs (fst z) \<noteq> None) zs = filter (\<lambda>z. class_find lt (x # xs) (fst z) \<noteq> None) zs"
    if "\<forall>z\<in>set zs. lt (fst x) (fst z)" for zs
    by (rule filter_cong [OF refl]) (use that in \<open>auto simp: class_find_Cons equivalent_def\<close>)
  show ?case
  proof (cases "lt (fst x) (fst y)")
    case True
    obtain ms' where ml: "merge_loop lt xs (y # ys) = (ms', rs)"
      using 1(6) True by (cases "merge_loop lt xs (y # ys)") auto
    have "\<forall>z\<in>set (y # ys). lt (fst x) (fst z)" using True head_before [OF swo 1(5)] by auto
    from drop_x [OF this] show ?thesis using 1(1) [OF True _ 1(5) ml swo] 1(4) by simp
  next
    case nxy: False
    show ?thesis
    proof (cases "lt (fst y) (fst x)")
      case True
      obtain ms' where ml: "merge_loop lt (x # xs) ys = (ms', rs)"
        using 1(6) True nxy by (cases "merge_loop lt (x # xs) ys") auto
      have "\<forall>z\<in>set (x # xs). lt (fst y) (fst z)" using True head_before [OF swo 1(4)] by auto
      from before_none [of _ lt, OF this] show ?thesis using 1(2) [OF nxy True 1(4) _ ml swo] 1(5) by simp
    next
      case False
      obtain ms' rs' where ml: "merge_loop lt xs ys = (ms', rs')" "rs = y # rs'"
        using 1(6) False nxy by (cases "merge_loop lt xs ys") auto
      have e: "equivalent lt (fst x) (fst y)" using nxy False by (simp add: equivalent_def)
      have "\<forall>z\<in>set ys. lt (fst x) (fst z)" using e head_before [OF swo 1(5)] by blast
      from drop_x [OF this] have "rs' = filter (\<lambda>z. class_find lt (x # xs) (fst z) \<noteq> None) ys"
        using 1(3) [OF nxy False _ _ ml(1) swo] 1(4,5) by simp
      moreover have "class_find lt (x # xs) (fst y) \<noteq> None"
        using e by (simp add: class_find_Cons equivalent_sym)
      ultimately show ?thesis by (simp add: ml(2))
    qed
  qed
qed (auto simp: class_find_def)

lemma merge_loop_find:
  assumes swo: "strict_weak_order lt"
  shows "\<lbrakk>key_sorted lt xs; key_sorted lt ys; merge_loop lt xs ys = (ms, rs)\<rbrakk> \<Longrightarrow>
    class_find lt ms k = class_find lt (xs @ ys) k"
  using swo
proof (induction lt xs ys arbitrary: ms rs rule: merge_loop.induct)
  case (1 lt x xs y ys)
  note swo = 1(7)
  show ?case
  proof (cases "lt (fst x) (fst y)")
    case True
    obtain ms' where ml: "merge_loop lt xs (y # ys) = (ms', rs)" "ms = x # ms'"
      using 1(6) True by (cases "merge_loop lt xs (y # ys)") auto
    show ?thesis using 1(1) [OF True _ 1(5) ml(1) swo] 1(4) ml(2) by (simp add: class_find_Cons)
  next
    case nxy: False
    show ?thesis
    proof (cases "lt (fst y) (fst x)")
      case True
      obtain ms' where ml: "merge_loop lt (x # xs) ys = (ms', rs)" "ms = y # ms'"
        using 1(6) True nxy by (cases "merge_loop lt (x # xs) ys") auto
      have "\<forall>z\<in>set (x # xs). lt (fst y) (fst z)" using True head_before [OF swo 1(4)] by auto
      then have "class_find lt (x # xs) (fst y) = None" by (rule before_none)
      then have "equivalent lt k (fst y) \<Longrightarrow> class_find lt (x # xs) k = None"
        using class_find_equiv [OF swo, of k "fst y" "x # xs"] by simp
      then show ?thesis
        using 1(2) [OF nxy True 1(4) _ ml(1) swo] 1(5) ml(2)
        by (simp add: class_find_Cons [of _ y] class_find_append [of _ "x # xs", simplified] split: option.splits)
    next
      case False
      obtain ms' rs' where ml: "merge_loop lt xs ys = (ms', rs')" "ms = x # ms'"
        using 1(6) False nxy by (cases "merge_loop lt xs ys") auto
      have e: "equivalent lt (fst x) (fst y)" using nxy False by (simp add: equivalent_def)
      have "class_find lt ms' k = class_find lt (xs @ ys) k"
        using 1(3) [OF nxy False _ _ ml(1) swo] 1(4,5) by simp
      then show ?thesis
        using swo_equiv(4) [OF swo e, of k] by (simp add: ml(2) class_find_Cons class_find_append split: option.splits)
    qed
  qed
qed auto

end
