(* ===== verification/FlatMap_Contract.thy ===== *)
theory FlatMap_Contract
  imports FlatMap_Laws
begin

text \<open>
  The contract of an associative container for \<open>FlatMap\<close> with \<open>std::less\<close>, and the properties of
  the class: its operations against those of a map, hints, ranges, merging, positions.
\<close>

section \<open>std::less\<close>

lemma class_upd_less: "class_upd ((<) :: 'k::linorder \<Rightarrow> 'k \<Rightarrow> bool) f k y = f(k := y)"
  by (auto simp: class_upd_def equivalent_less fun_eq_iff)

lemma class_find_less: "map_option snd (class_find ((<) :: 'k::linorder \<Rightarrow> 'k \<Rightarrow> bool) ps k) = map_of ps k"
  by (induction ps) (auto simp: class_find_def equivalent_less)

definition less_map :: "('k::linorder, 'v) flat_map \<Rightarrow> bool" where
  "less_map m \<longleftrightarrow> fm_inv m \<and> mComp m = (<)"

lemma less_map_dom:
  assumes "less_map m"
  shows "finite (dom (fm_lookup m)) \<and> fm_size m = card (dom (fm_lookup m))"
proof -
  have eq: "fm_lookup m = map_of (mData m)" 
  proof -
    have lt: "mComp m = (<)" using assms unfolding less_map_def by blast
    show ?thesis by (rule ext) (simp add: fm_lookup_def lt class_find_less)
  qed
  have "sorted_wrt (keyValueComp m) (mData m)" and lt: "mComp m = (<)"
    using assms unfolding less_map_def fm_inv_def by blast+
  then have "sorted_wrt (<) (map fst (mData m))"
    unfolding keyValueComp_def [abs_def] lt sorted_wrt_map by blast
  then have "distinct (map fst (mData m))" by (simp add: strict_sorted_iff)
  then have "card (fst ` set (mData m)) = length (mData m)" by (metis distinct_card image_set length_map)
  then show ?thesis unfolding eq by (simp add: fm_size_def dom_map_of_conv_image_fst)
qed

lemma less_map_insert:
  assumes "less_map m" and "fm_insert m (k, v) = (m', it, b)"
  shows "less_map m'" and "b \<longleftrightarrow> fm_lookup m k = None"
    and "fm_lookup m' = (if b then (fm_lookup m)(k \<mapsto> v) else fm_lookup m)"
  using fm_insert_spec(1-4) [of m k v m' it b] assms
  by (simp_all add: less_map_def class_upd_less)

lemma less_map_assign:
  assumes "less_map m" and "fm_insert_or_assign m k v = (m', it, b)"
  shows "less_map m'" and "b \<longleftrightarrow> fm_lookup m k = None" and "fm_lookup m' = (fm_lookup m)(k \<mapsto> v)"
  using fm_insert_or_assign_spec [of m k v m' it b] assms
  by (simp_all add: less_map_def class_upd_less)

lemma less_map_erase:
  assumes "less_map m" and "fm_erase m k = (m', n)"
  shows "less_map m'" and "n = (if fm_lookup m k = None then 0 else 1)" and "fm_lookup m' = (fm_lookup m)(k := None)"
  using fm_erase_spec [of m k m' n] assms
  by (simp_all add: less_map_def class_upd_less)

definition insert_flag :: "('k, 'v) flat_map \<Rightarrow> 'k \<Rightarrow> 'v \<Rightarrow> ('k, 'v) flat_map \<times> bool" where
  "insert_flag m k v = (let (m', it, b) = fm_insert m (k, v) in (m', b))"

definition assign_flag :: "('k, 'v) flat_map \<Rightarrow> 'k \<Rightarrow> 'v \<Rightarrow> ('k, 'v) flat_map \<times> bool" where
  "assign_flag m k v = (let (m', it, b) = fm_insert_or_assign m k v in (m', b))"

definition erase_flag :: "('k, 'v) flat_map \<Rightarrow> 'k \<Rightarrow> ('k, 'v) flat_map \<times> bool" where
  "erase_flag m k = (let (m', n) = fm_erase m k in (m', n = 1))"

interpretation flat_less: assign_map less_map "\<lambda>_. True" fm_lookup insert_flag erase_flag fm_size assign_flag
proof
  fix m :: "('k::linorder, 'v) flat_map" and k v m' b
  show "less_map m'" "b = (fm_lookup m k = None) \<and> fm_lookup m' = (if b then (fm_lookup m)(k \<mapsto> v) else fm_lookup m)"
    if "less_map m" "insert_flag m k v = (m', b)"
    using that less_map_insert [of m k v] by (auto simp: insert_flag_def split: prod.splits)
  show "less_map m'" "b = (fm_lookup m k \<noteq> None) \<and> fm_lookup m' = (fm_lookup m)(k := None)"
    if "less_map m" "erase_flag m k = (m', b)"
    using that less_map_erase [of m k] by (auto simp: erase_flag_def split: prod.splits if_splits)
  show "less_map m'" "b = (fm_lookup m k = None) \<and> fm_lookup m' = (fm_lookup m)(k \<mapsto> v)"
    if "less_map m" "assign_flag m k v = (m', b)"
    using that less_map_assign [of m k v] by (auto simp: assign_flag_def split: prod.splits)
qed (rule less_map_dom)

section \<open>Sequences of operations\<close>

text \<open>Writing through the reference that \<open>operator[]\<close> returns.\<close>

definition fm_write :: "('k, 'v) flat_map \<Rightarrow> nat \<Rightarrow> 'v \<Rightarrow> ('k, 'v) flat_map" where
  "fm_write m it v = m\<lparr>mData := (mData m)[it := (fst (mData m ! it), v)]\<rparr>"

lemma fm_write_spec:
  assumes "fm_inv m" and "it < length (mData m)" and "equivalent (mComp m) k (fst (mData m ! it))"
  shows "fm_inv (fm_write m it v)" and "mComp (fm_write m it v) = mComp m"
    and "fm_lookup (fm_write m it v) = class_upd (mComp m) (fm_lookup m) k (Some v)"
proof -
  let ?p = "mData m ! it"
  have swo: "strict_weak_order (mComp m)" using assms(1) by (simp add: fm_inv_def)
  have d: "mData m = take it (mData m) @ ?p # drop (Suc it) (mData m)" by (rule id_take_nth_drop [OF assms(2)])
  have "\<forall>e\<in>set (take it (mData m)). mComp m (fst e) (fst ?p)"
    using assms(1) by (subst (asm) fm_inv_def, subst (asm) d) (simp add: sorted_wrt_append keyValueComp_def)
  then have pre: "\<forall>e\<in>set (take it (mData m)). mComp m (fst e) k"
    using swo_equiv(2) [OF swo assms(3)] by blast
  have w: "fm_write m it v = m\<lparr>mData := take it (mData m) @ (fst ?p, v) # drop (Suc it) (mData m)\<rparr>"
    unfolding fm_write_def by (subst upd_conv_take_nth_drop [OF assms(2)]) (rule refl)
  show "fm_inv (fm_write m it v)" and "fm_lookup (fm_write m it v) = class_upd (mComp m) (fm_lookup m) k (Some v)"
    unfolding w by (rule fm_inv_update [OF assms(1) d assms(3) pre])+
  show "mComp (fm_write m it v) = mComp m" by (simp add: w)
qed

datatype ('k, 'v) fm_op =
    Op_insert 'k 'v
  | Op_insert_or_assign 'k 'v
  | Op_emplace 'k 'v
  | Op_try_emplace 'k 'v
  | Op_subscript_write 'k 'v
  | Op_insert_hint nat 'k 'v
  | Op_insert_range "('k \<times> 'v) list"
  | Op_erase 'k
  | Op_clear
  | Op_at 'k
  | Op_contains 'k
  | Op_count 'k
  | Op_size

datatype 'v fm_answer = Flag bool | Number nat | Got "'v result" | Nothing

text \<open>The hint is any iterator of the container: position \<open>n mod (size() + 1)\<close>.\<close>

fun fm_exec :: "'v \<Rightarrow> ('k, 'v) flat_map \<Rightarrow> ('k, 'v) fm_op \<Rightarrow> ('k, 'v) flat_map \<times> 'v fm_answer" where
  "fm_exec dflt m (Op_insert k v) = (let (m', it, b) = fm_insert m (k, v) in (m', Flag b))"
| "fm_exec dflt m (Op_insert_or_assign k v) = (let (m', it, b) = fm_insert_or_assign m k v in (m', Flag b))"
| "fm_exec dflt m (Op_emplace k v) = (let (m', it, b) = fm_emplace m (k, v) in (m', Flag b))"
| "fm_exec dflt m (Op_try_emplace k v) = (let (m', it, b) = fm_try_emplace m k v id in (m', Flag b))"
| "fm_exec dflt m (Op_subscript_write k v) = (let (m', it) = fm_subscript dflt m k in (fm_write m' it v, Nothing))"
| "fm_exec dflt m (Op_insert_hint n k v) = (case fm_insert_hint m (n mod Suc (fm_size m)) (k, v) of
     Inl e \<Rightarrow> (m, Got (Inl e)) | Inr (m', it) \<Rightarrow> (m', Nothing))"
| "fm_exec dflt m (Op_insert_range ps) = (fm_insert_range m ps, Nothing)"
| "fm_exec dflt m (Op_erase k) = (let (m', n) = fm_erase m k in (m', Number n))"
| "fm_exec dflt m Op_clear = (fm_clear m, Nothing)"
| "fm_exec dflt m (Op_at k) = (m, Got (fm_at m k))"
| "fm_exec dflt m (Op_contains k) = (m, Flag (fm_contains m k))"
| "fm_exec dflt m (Op_count k) = (m, Number (fm_count m k))"
| "fm_exec dflt m Op_size = (m, Number (fm_size m))"

fun fm_run :: "'v \<Rightarrow> ('k, 'v) flat_map \<Rightarrow> ('k, 'v) fm_op list \<Rightarrow> 'v fm_answer list" where
  "fm_run dflt m [] = []"
| "fm_run dflt m (x # xs) = (let (m', a) = fm_exec dflt m x in a # fm_run dflt m' xs)"

text \<open>The same operations on a mathematical map.\<close>

fun map_exec :: "('k \<rightharpoonup> 'v) \<Rightarrow> ('k, 'v) fm_op \<Rightarrow> ('k \<rightharpoonup> 'v) \<times> 'v fm_answer" where
  "map_exec f (Op_insert k v) = (if f k = None then f(k \<mapsto> v) else f, Flag (f k = None))"
| "map_exec f (Op_insert_or_assign k v) = (f(k \<mapsto> v), Flag (f k = None))"
| "map_exec f (Op_emplace k v) = (if f k = None then f(k \<mapsto> v) else f, Flag (f k = None))"
| "map_exec f (Op_try_emplace k v) = (if f k = None then f(k \<mapsto> v) else f, Flag (f k = None))"
| "map_exec f (Op_subscript_write k v) = (f(k \<mapsto> v), Nothing)"
| "map_exec f (Op_insert_hint n k v) = (if f k = None then f(k \<mapsto> v) else f, Nothing)"
| "map_exec f (Op_insert_range ps) = (map_of ps ++ f, Nothing)"
| "map_exec f (Op_erase k) = (f(k := None), Number (if f k = None then 0 else 1))"
| "map_exec f Op_clear = (Map.empty, Nothing)"
| "map_exec f (Op_at k) = (f, Got (case f k of None \<Rightarrow> Inl Out_of_range | Some v \<Rightarrow> Inr v))"
| "map_exec f (Op_contains k) = (f, Flag (f k \<noteq> None))"
| "map_exec f (Op_count k) = (f, Number (if f k = None then 0 else 1))"
| "map_exec f Op_size = (f, Number (card (dom f)))"

fun map_run :: "('k \<rightharpoonup> 'v) \<Rightarrow> ('k, 'v) fm_op list \<Rightarrow> 'v fm_answer list" where
  "map_run f [] = []"
| "map_run f (x # xs) = (let (f', a) = map_exec f x in a # map_run f' xs)"

lemma fm_exec_refines:
  fixes m :: "('k::linorder, 'v) flat_map"
  assumes "less_map m" and "fm_exec dflt m x = (m', a)"
  shows "less_map m' \<and> map_exec (fm_lookup m) x = (fm_lookup m', a)"
proof -
  have inv: "fm_inv m" and lt: "mComp m = (<)" using assms(1) by (simp_all add: less_map_def)
  have ins: "less_map n \<and> (if fm_lookup m k = None then (fm_lookup m)(k \<mapsto> v) else fm_lookup m) = fm_lookup n
      \<and> (fm_lookup m k = None) = b" if "fm_insert m (k, v) = (n, it, b)" for k v n it b
    using less_map_insert [OF assms(1) that] by simp
  show ?thesis
  proof (cases x)
    case (Op_insert k v)
    with assms(2) ins [of k v] show ?thesis by (auto split: prod.splits)
  next
    case (Op_insert_or_assign k v)
    with assms(2) less_map_assign [OF assms(1), of k v] show ?thesis by (auto split: prod.splits)
  next
    case (Op_emplace k v)
    with assms(2) ins [of k v] show ?thesis by (auto simp: fm_emplace_eq split: prod.splits)
  next
    case (Op_try_emplace k v)
    with assms(2) ins [of k v] show ?thesis by (auto simp: fm_try_emplace_eq split: prod.splits)
  next
    case (Op_subscript_write k v)
    obtain m1 it where s: "fm_subscript dflt m k = (m1, it)" by fastforce
    note r = fm_subscript_spec [OF inv s]
    have w: "it < length (mData m1)" "equivalent (mComp m1) k (fst (mData m1 ! it))" using r(2,4) by simp_all
    note q = fm_write_spec [OF r(1) w, of v]
    have "m' = fm_write m1 it v" "a = Nothing" using assms(2) Op_subscript_write s by simp_all
    moreover have "fm_lookup (fm_write m1 it v) = (fm_lookup m)(k \<mapsto> v)"
      unfolding q(3) r(2) lt class_upd_less r(5) by simp
    ultimately show ?thesis using q(1,2) r(2) lt Op_subscript_write by (simp add: less_map_def)
  next
    case (Op_insert_hint n k v)
    obtain m1 it b where i: "fm_insert m (k, v) = (m1, it, b)" by (metis prod_cases3)
    have "n mod Suc (fm_size m) \<le> length (mData m)" by (simp add: fm_size_def less_Suc_eq_le [symmetric])
    from insertWithHint_insert [OF inv this, of k v] i
    have "fm_insert_hint m (n mod Suc (fm_size m)) (k, v) = Inr (m1, it)" by (simp add: fm_insert_hint_def)
    then have "m' = m1" "a = Nothing" using assms(2) Op_insert_hint by simp_all
    moreover have "(if fm_lookup m k = None then (fm_lookup m)(k \<mapsto> v) else fm_lookup m) = fm_lookup m1"
      using ins [OF i] by blast
    ultimately show ?thesis using ins [OF i] unfolding Op_insert_hint map_exec.simps by (metis (full_types))
  next
    case (Op_insert_range ps)
    have "fm_lookup (fm_insert_range m ps) = map_of ps ++ fm_lookup m"
      unfolding fm_insert_range_spec(3) [OF inv, abs_def] fun_eq_iff lt class_find_less map_add_def
      by (simp split: option.splits)
    with assms(2) Op_insert_range fm_insert_range_spec(1,2) [OF inv, of ps] lt show ?thesis
      by (simp add: less_map_def)
  next
    case (Op_erase k)
    with assms(2) less_map_erase [OF assms(1), of k] show ?thesis by (auto split: prod.splits)
  next
    case Op_clear
    have "fm_lookup (fm_clear m) = Map.empty" by (simp add: fm_clear_def fm_lookup_def class_find_def fun_eq_iff)
    with assms Op_clear show ?thesis by (auto simp: less_map_def fm_inv_def fm_clear_def)
  next
    case (Op_at k)
    with assms fm_at_spec [OF inv, of k] show ?thesis by (cases "fm_lookup m k") auto
  next
    case (Op_contains k)
    with assms fm_contains_spec [OF inv, of k] show ?thesis by auto
  next
    case (Op_count k)
    with assms fm_count_spec [OF inv, of k] show ?thesis by auto
  next
    case Op_size
    with assms less_map_dom [OF assms(1)] show ?thesis by auto
  qed
qed

lemma fm_run_refines: "less_map m \<Longrightarrow> fm_run dflt m xs = map_run (fm_lookup m) xs"
proof (induction xs arbitrary: m)
  case (Cons x xs)
  obtain m' a where e: "fm_exec dflt m x = (m', a)" by fastforce
  have "less_map m'" "map_exec (fm_lookup m) x = (fm_lookup m', a)" using fm_exec_refines [OF Cons.prems e] by blast+
  with Cons.IH [of m'] e show ?case by simp
qed simp

section \<open>merge of two containers\<close>

lemma fm_merge_spec:
  assumes "fm_inv a" and "fm_inv s" and "mComp s = mComp a" and "fm_merge False a s = (a', s')"
  shows "fm_inv a' \<and> fm_inv s' \<and> mComp a' = mComp a
    \<and> (\<forall>k. fm_lookup a' k = (case fm_lookup a k of Some v \<Rightarrow> Some v | None \<Rightarrow> fm_lookup s k))
    \<and> mData s' = filter (\<lambda>e. fm_contains a (fst e)) (mData s)
    \<and> mset (mData a') + mset (mData s') = mset (mData a) + mset (mData s)"
proof -
  let ?lt = "mComp a"
  have swo: "strict_weak_order ?lt" using assms(1) by (simp add: fm_inv_def)
  have kv: "keyValueComp x = (\<lambda>p q. mComp x (fst p) (fst q))" for x :: "('a, 'b) flat_map"
    by (simp add: fun_eq_iff keyValueComp_def)
  have so: "key_sorted ?lt (mData a)" "key_sorted ?lt (mData s)"
    using assms(1-3) by (simp_all add: fm_inv_def kv)
  obtain ms rs where ml: "merge_loop ?lt (mData a) (mData s) = (ms, rs)" by fastforce
  have inv': "mComp a' = ?lt \<and> mComp s' = ?lt \<and> mData a' = ms \<and> mData s' = rs"
  proof -
    consider "mData s = []" | "mData s \<noteq> []" "mData a = []" | "mData s \<noteq> []" "mData a \<noteq> []" by blast
    then show ?thesis
    proof cases
      case 1
      then show ?thesis using ml assms(3,4) by (cases "mData a") (auto simp: fm_merge_def fm_empty_def)
    next
      case 2
      then show ?thesis using ml assms(3,4) by (auto simp: fm_merge_def fm_empty_def fm_swap_def)
    next
      case 3
      then show ?thesis using ml assms(3,4) by (auto simp: fm_merge_def fm_empty_def)
    qed
  qed
  have find: "class_find ?lt ms k = class_find ?lt (mData a @ mData s) k" for k
    by (rule merge_loop_find [OF swo so ml])
  have rs: "rs = filter (\<lambda>y. class_find ?lt (mData a) (fst y) \<noteq> None) (mData s)"
    by (rule merge_loop_remaining [OF swo so ml])
  have cont: "fm_contains a k \<longleftrightarrow> class_find ?lt (mData a) k \<noteq> None" for k
    by (simp add: fm_contains_spec [OF assms(1)] fm_lookup_def)
  show ?thesis
  proof (intro conjI allI)
    show "fm_inv a'" using merge_loop_sorted [OF swo so ml] inv' swo by (simp add: fm_inv_def kv)
    show "fm_inv s'" using sorted_wrt_filter [OF so(2)] inv' swo by (simp add: fm_inv_def kv rs)
    show "mComp a' = ?lt" using inv' by blast
    show "fm_lookup a' k = (case fm_lookup a k of Some v \<Rightarrow> Some v | None \<Rightarrow> fm_lookup s k)" for k
      using inv' find assms(3) by (simp add: fm_lookup_def class_find_append split: option.splits)
    show "mData s' = filter (\<lambda>e. fm_contains a (fst e)) (mData s)" using inv' by (simp add: rs cont)
    show "mset (mData a') + mset (mData s') = mset (mData a) + mset (mData s)"
      using merge_loop_mset [OF ml] inv' by simp
  qed
qed

section \<open>Properties\<close>

text \<open>C12: any sequence of operations on an empty \<open>FlatMap\<close> with \<open>std::less\<close> gives the answers of
  the same sequence on a mathematical map.  The operations are \<open>insert\<close> in its forms (also with
  any hint and of a range), \<open>emplace\<close>, \<open>try_emplace\<close>, \<open>insert_or_assign\<close>, assignment through
  \<open>operator[]\<close>, \<open>erase\<close>, \<open>clear\<close>, \<open>at\<close>, \<open>contains\<close>, \<open>count\<close> and \<open>size\<close>.\<close>

theorem flat_map_refines_map:
  fixes xs :: "('k::linorder, 'v) fm_op list"
  shows "fm_run dflt \<lparr>mData = [], mComp = (<)\<rparr> xs = map_run Map.empty xs"
proof -
  let ?m = "\<lparr>mData = [], mComp = (<)\<rparr> :: ('k, 'v) flat_map"
  have "less_map ?m" by (simp add: less_map_def fm_inv_def swo_less)
  moreover have "fm_lookup ?m = Map.empty" by (simp add: fm_lookup_def class_find_def fun_eq_iff)
  ultimately show ?thesis using fm_run_refines [of ?m dflt xs] by simp
qed


theorem flat_map_refines_map_witness:
  "fm_run 0 \<lparr>mData = [], mComp = (<)\<rparr> [Op_insert_range [(3::nat, 1::nat), (1, 2), (3, 9)], Op_insert_hint 0 2 5, Op_at 3, Op_size]
   = [Nothing, Nothing, Got (Inr 1), Number 3]"
  unfolding flat_map_refines_map by simp

text \<open>C13: the position hint of \<open>insert\<close> and \<open>emplace_hint\<close> changes nothing but the cost: with any
  valid iterator as the hint and any comparator, the map and the iterator returned are those of
  the plain \<open>insert\<close>.\<close>

theorem flat_map_hint_irrelevant:
  assumes "fm_inv m" and "hint \<le> fm_size m" and "fm_insert m (k, v) = (m', it, b)"
  shows "fm_insert_hint m hint (k, v) = Inr (m', it) \<and> fm_emplace_hint m hint (k, v) = Inr (m', it)"
  using insertWithHint_insert [of m hint k v] assms
  by (simp_all add: fm_insert_hint_def fm_emplace_hint_def fm_size_def)

text \<open>Construction from a range keeps the first entry of each class of equivalent keys and
  sorts; inserting a range keeps what is there and adds the first entry of each new class.  On
  input that is sorted the \<open>ordered_range\<close> and \<open>ordered_unique_range\<close> overloads give the same
  results in every build, for every comparator.\<close>

theorem flat_map_ranges:
  assumes "strict_weak_order cmp" and "fm_inv m"
  shows "fm_inv (fm_of_range cmp ps)
    \<and> (\<forall>k. fm_lookup (fm_of_range cmp ps) k = map_option snd (find (\<lambda>p. equivalent cmp k (fst p)) ps))
    \<and> fm_inv (fm_insert_range m qs)
    \<and> (\<forall>k. fm_lookup (fm_insert_range m qs) k = (case fm_lookup m k of Some v \<Rightarrow> Some v
         | None \<Rightarrow> map_option snd (find (\<lambda>p. equivalent (mComp m) k (fst p)) qs)))
    \<and> (std_is_sorted (\<lambda>a b. cmp (fst a) (fst b)) ps \<longrightarrow> fm_of_ordered dbg cmp ps = Inr (fm_of_range cmp ps))
    \<and> (std_is_sorted (keyValueComp m) qs \<longrightarrow> fm_insert_ordered dbg m qs = (fm_insert_range m qs, Inr ()))"
proof (intro conjI allI impI)
  show "fm_inv (fm_of_range cmp ps)" by (rule fm_of_range_spec(1) [OF assms(1)])
  show "fm_lookup (fm_of_range cmp ps) k = map_option snd (find (\<lambda>p. equivalent cmp k (fst p)) ps)" for k
    using fm_of_range_spec(3) [OF assms(1)] by (simp add: class_find_def)
  show "fm_inv (fm_insert_range m qs)" by (rule fm_insert_range_spec(1) [OF assms(2)])
  show "fm_lookup (fm_insert_range m qs) k = (case fm_lookup m k of Some v \<Rightarrow> Some v
         | None \<Rightarrow> map_option snd (find (\<lambda>p. equivalent (mComp m) k (fst p)) qs))" for k
    using fm_insert_range_spec(3) [OF assms(2), of qs k] by (simp add: class_find_def split: option.splits)
  show "fm_of_ordered dbg cmp ps = Inr (fm_of_range cmp ps)" if "std_is_sorted (\<lambda>a b. cmp (fst a) (fst b)) ps"
    by (rule fm_of_ordered_eq [OF assms(1) that])
  show "fm_insert_ordered dbg m qs = (fm_insert_range m qs, Inr ())" if "std_is_sorted (keyValueComp m) qs"
    unfolding fm_insert_ordered_def by (rule fm_insert_ordered_eq [OF assms(2) that])
qed

text \<open>\<open>merge\<close> moves into the container every entry of the source whose key it does not have
  and leaves the others in the source.  Both stay sorted, no entry is lost, and the values the
  container had are kept.\<close>

theorem flat_map_merge:
  assumes "fm_inv a" and "fm_inv s" and "mComp s = mComp a" and "fm_merge False a s = (a', s')"
  shows "fm_inv a' \<and> fm_inv s' \<and> mComp a' = mComp a
    \<and> (\<forall>k. fm_lookup a' k = (case fm_lookup a k of Some v \<Rightarrow> Some v | None \<Rightarrow> fm_lookup s k))
    \<and> mData s' = filter (\<lambda>e. fm_contains a (fst e)) (mData s)
    \<and> mset (mData a') + mset (mData s') = mset (mData a) + mset (mData s)"
  by (rule fm_merge_spec [OF assms])

text \<open>C14: when a debug build rejects the unsorted input of \<open>insert(ordered_unique_range, ...)\<close>, the
  entries have been appended already: the exception leaves a map whose vector is not sorted, with
  all the rejected entries in it.\<close>

theorem flat_map_ordered_insert_breaks_invariant:
  assumes "strict_weak_order (mComp m)" and "\<not> std_is_sorted (keyValueComp m) ps"
  shows "\<exists>m'. fm_insert_ordered_unique True m ps = (m', Inl Enforce_failed) \<and> \<not> fm_inv m' \<and> set ps \<subseteq> set (mData m')"
proof -
  have "ps \<noteq> []" using assms(2) by auto
  moreover have "\<not> ascending (keyValueComp m) ps" using assms(2) std_is_sorted_iff [OF swo_kv [OF assms(1)]] by simp
  then have "\<not> sorted_wrt (keyValueComp m) ps" using sorted_ascending [OF swo_kv [OF assms(1)]] by blast
  ultimately show ?thesis using assms(2) by (simp add: fm_insert_ordered_unique_def fm_inv_def sorted_wrt_append)
qed

text \<open>Heterogeneous lookup.  A query that splits the keys into those before it, those equivalent
  to it and those after it (a prefix of strings, say) finds exactly the equivalent ones:
  \<open>equal_range\<close> delimits them, \<open>find\<close> returns the first and \<open>count\<close> says whether there is one.\<close>

theorem flat_map_heterogeneous_lookup:
  assumes "fm_inv m"
    and "\<And>a b. \<lbrakk>mComp m a b; lkey b q\<rbrakk> \<Longrightarrow> lkey a q"
    and "\<And>a b. \<lbrakk>mComp m a b; rkey q a\<rbrakk> \<Longrightarrow> rkey q b"
    and "\<And>a. lkey a q \<Longrightarrow> \<not> rkey q a"
    and "fm_equal_range_het lkey rkey m q = (l, u)"
  shows "l \<le> u \<and> u \<le> fm_size m
    \<and> (\<forall>i < fm_size m. (l \<le> i \<and> i < u) = (\<not> lkey (fst (mData m ! i)) q \<and> \<not> rkey q (fst (mData m ! i))))
    \<and> fm_find_het lkey rkey m q = (if l < u then l else fm_size m)
    \<and> fm_count_het lkey rkey m q = (if l < u then 1 else 0)
    \<and> fm_contains_het lkey rkey m q = (l < u)"
proof -
  let ?d = "mData m"
  have so: "sorted_wrt (keyValueComp m) ?d" using assms(1) by (simp add: fm_inv_def)
  have l: "l = std_lower_bound (\<lambda>e. lkey (fst e) q) ?d" and u: "u = std_lower_bound (\<lambda>e. \<not> rkey q (fst e)) ?d"
    using assms(5) by (simp_all add: fm_equal_range_het_def fm_lower_bound_het_def fm_upper_bound_het_def)
  have L: "l \<le> length ?d" "\<And>i. i < length ?d \<Longrightarrow> lkey (fst (?d ! i)) q \<longleftrightarrow> i < l"
    unfolding l using std_lower_bound_closed [OF so, of "\<lambda>e. lkey (fst e) q"] assms(2)
    by (simp_all add: keyValueComp_def)
  have U: "u \<le> length ?d" "\<And>i. i < length ?d \<Longrightarrow> \<not> rkey q (fst (?d ! i)) \<longleftrightarrow> i < u"
    unfolding u using std_lower_bound_closed [OF so, of "\<lambda>e. \<not> rkey q (fst e)"] assms(3)
    by (auto simp: keyValueComp_def)
  have lu: "l \<le> u"
  proof (rule ccontr)
    assume "\<not> l \<le> u"
    then have "u < l" "u < length ?d" using L(1) by simp_all
    with L(2) [of u] U(2) [of u] assms(4) show False by blast
  qed
  have f: "fm_find_het lkey rkey m q = (if l < u then l else fm_size m)"
    using L(2) [of l] U(2) [of l] L(1) U(1) by (auto simp: fm_find_het_def l [symmetric] fm_size_def Let_def)
  moreover have "l < u \<Longrightarrow> l < fm_size m" using U(1) by (simp add: fm_size_def)
  ultimately show ?thesis
    using lu U L by (auto simp: fm_count_het_def fm_contains_het_def fm_size_def)
qed


definition less_nat_map :: "(nat \<times> nat) list \<Rightarrow> (nat, nat) flat_map" where
  "less_nat_map ps = \<lparr>mData = ps, mComp = (<)\<rparr>"

lemma less_nat_map_inv: "sorted_wrt (<) (map fst ps) \<Longrightarrow> fm_inv (less_nat_map ps)"
  by (simp add: less_nat_map_def fm_inv_def swo_less keyValueComp_def [abs_def] sorted_wrt_map)

theorem flat_map_hint_irrelevant_witness:
  "fm_insert_hint (less_nat_map [(1, 10), (4, 40)]) 2 (3, 30) = Inr (less_nat_map [(1, 10), (3, 30), (4, 40)], 1)"
proof (rule conjunct1 [OF flat_map_hint_irrelevant])
  show "fm_inv (less_nat_map [(1, 10), (4, 40)])" by (rule less_nat_map_inv) simp
  show "2 \<le> fm_size (less_nat_map [(1, 10), (4, 40)])" by (simp add: fm_size_def less_nat_map_def)
  show "fm_insert (less_nat_map [(1, 10), (4, 40)]) (3, 30) = (less_nat_map [(1, 10), (3, 30), (4, 40)], 1, True)"
    by (simp add: less_nat_map_def fm_insert_def lowerBoundInternal_def std_lower_bound_def
        partition_point.simps vec_insert_def)
qed

theorem flat_map_ranges_witness:
  "fm_lookup (fm_of_range (<) [(3::nat, 1::nat), (1, 2), (3, 9)]) 3 = Some 1
   \<and> fm_inv (fm_insert_range (less_nat_map [(2, 20)]) [(2, 5), (1, 4)])"
proof -
  have "fm_inv (less_nat_map [(2, 20)])" by (rule less_nat_map_inv) simp
  from flat_map_ranges [OF swo_less this, of "[(3, 1::nat), (1, 2), (3, 9)]" "[(2, 5), (1, 4)]" True]
  have "\<forall>k. fm_lookup (fm_of_range (<) [(3::nat, 1::nat), (1, 2), (3, 9)]) k
      = map_option snd (find (\<lambda>p. equivalent (<) k (fst p)) [(3::nat, 1::nat), (1, 2), (3, 9)])"
    and "fm_inv (fm_insert_range (less_nat_map [(2, 20)]) [(2, 5), (1, 4)])" by blast+
  then show ?thesis by (simp add: equivalent_def)
qed

theorem flat_map_merge_witness:
  "fst (fm_merge False (less_nat_map [(1, 10), (4, 40)]) (less_nat_map [(2, 20), (4, 41)])) = less_nat_map [(1, 10), (2, 20), (4, 40)]
   \<and> fm_lookup (less_nat_map [(1, 10), (2, 20), (4, 40)]) 4 = Some 40"
proof -
  let ?a = "less_nat_map [(1, 10), (4, 40)]"
  let ?s = "less_nat_map [(2, 20), (4, 41)]"
  have m: "fm_merge False ?a ?s = (less_nat_map [(1, 10), (2, 20), (4, 40)], less_nat_map [(4, 41)])"
    by (simp add: fm_merge_def fm_empty_def less_nat_map_def)
  have inv: "fm_inv ?a" "fm_inv ?s" by (rule less_nat_map_inv, simp)+
  have "mComp ?s = mComp ?a" by (simp add: less_nat_map_def)
  from flat_map_merge [OF inv this m]
  have "\<forall>k. fm_lookup (less_nat_map [(1, 10), (2, 20), (4, 40)]) k
    = (case fm_lookup ?a k of Some v \<Rightarrow> Some v | None \<Rightarrow> fm_lookup ?s k)" by blast
  moreover have "fm_lookup ?a 4 = Some 40"
    by (simp add: fm_lookup_def class_find_def equivalent_def less_nat_map_def)
  ultimately show ?thesis using m by simp
qed

theorem flat_map_ordered_insert_breaks_invariant_witness:
  "\<exists>m'. fm_insert_ordered_unique True (less_nat_map [(5, 50)]) [(2, 0), (1, 0)] = (m', Inl Enforce_failed)
    \<and> \<not> fm_inv m' \<and> set [(2, 0), (1, 0)] \<subseteq> set (mData m')"
  by (rule flat_map_ordered_insert_breaks_invariant) (simp_all add: less_nat_map_def swo_less keyValueComp_def)

text \<open>The query of the witness: the keys with the same tens digit.\<close>

theorem flat_map_heterogeneous_lookup_witness:
  "fm_find_het (\<lambda>k q. k div 10 < q) (\<lambda>q k. q < k div 10) (less_nat_map [(5, 0), (21, 1), (28, 2), (40, 3)]) 2 = 1"
proof -
  let ?m = "less_nat_map [(5, 0), (21, 1), (28, 2), (40, 3)]"
  let ?l = "\<lambda>(k::nat) (q::nat). k div 10 < q" and ?r = "\<lambda>(q::nat) (k::nat). q < k div 10"
  have lt: "mComp ?m = (<)" by (simp add: less_nat_map_def)
  have inv: "fm_inv ?m" by (rule less_nat_map_inv) simp
  have mono: "a div 10 \<le> b div 10" if "mComp ?m a b" for a b
    using that unfolding lt by (simp add: div_le_mono)
  have e: "fm_equal_range_het ?l ?r ?m 2 = (1, 3)"
    by (simp add: fm_equal_range_het_def fm_lower_bound_het_def fm_upper_bound_het_def less_nat_map_def
        std_lower_bound_def partition_point.simps)
  from flat_map_heterogeneous_lookup [of ?m ?l 2 ?r, OF inv _ _ _ e]
  show ?thesis using mono by (auto dest: le_less_trans less_le_trans)
qed

end
