(* ===== verification/FlatSet.thy ===== *)
theory FlatSet
  imports FlatMap_Contract
begin

text \<open>
  \<open>FlatSet\<close> (\<open>include/fat_p/FlatSet.h\<close>): the sorted vector without mapped values.  The class does
  not share code with \<open>FlatMap\<close>; the operations are translated from its own source, and \<open>as_map\<close>
  relates them to those of \<open>FlatMap\<close> with values of the unit type.
\<close>

section \<open>State and operations\<close>

record 'a flat_set =
  sData :: "'a list"
  sComp :: "'a \<Rightarrow> 'a \<Rightarrow> bool"

definition elementsEquivalent :: "'a flat_set \<Rightarrow> 'a \<Rightarrow> 'a \<Rightarrow> bool" where
  "elementsEquivalent s a b \<longleftrightarrow> \<not> sComp s a b \<and> \<not> sComp s b a"

definition fs_lower_bound :: "'a flat_set \<Rightarrow> 'a \<Rightarrow> nat" where
  "fs_lower_bound s key = std_lower_bound (\<lambda>e. sComp s e key) (sData s)"

definition fs_upper_bound :: "'a flat_set \<Rightarrow> 'a \<Rightarrow> nat" where
  "fs_upper_bound s key = std_lower_bound (\<lambda>e. \<not> sComp s key e) (sData s)"

definition fs_equal_range :: "'a flat_set \<Rightarrow> 'a \<Rightarrow> nat \<times> nat" where
  "fs_equal_range s key = (fs_lower_bound s key, fs_upper_bound s key)"

definition fs_find :: "'a flat_set \<Rightarrow> 'a \<Rightarrow> nat" where
  "fs_find s key = (let it = fs_lower_bound s key in
     if it \<noteq> length (sData s) \<and> \<not> sComp s key (sData s ! it) then it else length (sData s))"

definition fs_contains :: "'a flat_set \<Rightarrow> 'a \<Rightarrow> bool" where
  "fs_contains s key \<longleftrightarrow> fs_find s key \<noteq> length (sData s)"

definition fs_count :: "'a flat_set \<Rightarrow> 'a \<Rightarrow> nat" where
  "fs_count s key = (if fs_find s key \<noteq> length (sData s) then 1 else 0)"

text \<open>Heterogeneous lookup, as for \<open>FlatMap\<close>.\<close>

definition fs_lower_bound_het :: "('a \<Rightarrow> 'q \<Rightarrow> bool) \<Rightarrow> 'a flat_set \<Rightarrow> 'q \<Rightarrow> nat" where
  "fs_lower_bound_het lkey s q = std_lower_bound (\<lambda>e. lkey e q) (sData s)"

definition fs_upper_bound_het :: "('q \<Rightarrow> 'a \<Rightarrow> bool) \<Rightarrow> 'a flat_set \<Rightarrow> 'q \<Rightarrow> nat" where
  "fs_upper_bound_het rkey s q = std_lower_bound (\<lambda>e. \<not> rkey q e) (sData s)"

definition fs_equal_range_het :: "('a \<Rightarrow> 'q \<Rightarrow> bool) \<Rightarrow> ('q \<Rightarrow> 'a \<Rightarrow> bool) \<Rightarrow> 'a flat_set \<Rightarrow> 'q \<Rightarrow> nat \<times> nat" where
  "fs_equal_range_het lkey rkey s q = (fs_lower_bound_het lkey s q, fs_upper_bound_het rkey s q)"

definition elementsEquivalentHetero :: "('a \<Rightarrow> 'q \<Rightarrow> bool) \<Rightarrow> ('q \<Rightarrow> 'a \<Rightarrow> bool) \<Rightarrow> 'a \<Rightarrow> 'q \<Rightarrow> bool" where
  "elementsEquivalentHetero lkey rkey a b \<longleftrightarrow> \<not> lkey a b \<and> \<not> rkey b a"

definition fs_find_het :: "('a \<Rightarrow> 'q \<Rightarrow> bool) \<Rightarrow> ('q \<Rightarrow> 'a \<Rightarrow> bool) \<Rightarrow> 'a flat_set \<Rightarrow> 'q \<Rightarrow> nat" where
  "fs_find_het lkey rkey s q = (let it = fs_lower_bound_het lkey s q in
     if it \<noteq> length (sData s) \<and> elementsEquivalentHetero lkey rkey (sData s ! it) q then it
     else length (sData s))"

definition fs_contains_het :: "('a \<Rightarrow> 'q \<Rightarrow> bool) \<Rightarrow> ('q \<Rightarrow> 'a \<Rightarrow> bool) \<Rightarrow> 'a flat_set \<Rightarrow> 'q \<Rightarrow> bool" where
  "fs_contains_het lkey rkey s q \<longleftrightarrow> fs_find_het lkey rkey s q \<noteq> length (sData s)"

definition fs_count_het :: "('a \<Rightarrow> 'q \<Rightarrow> bool) \<Rightarrow> ('q \<Rightarrow> 'a \<Rightarrow> bool) \<Rightarrow> 'a flat_set \<Rightarrow> 'q \<Rightarrow> nat" where
  "fs_count_het lkey rkey s q = (if fs_find_het lkey rkey s q \<noteq> length (sData s) then 1 else 0)"

definition fs_clear :: "'a flat_set \<Rightarrow> 'a flat_set" where
  "fs_clear s = s\<lparr>sData := []\<rparr>"

definition fs_size :: "'a flat_set \<Rightarrow> nat" where
  "fs_size s = length (sData s)"

definition fs_empty :: "'a flat_set \<Rightarrow> bool" where
  "fs_empty s \<longleftrightarrow> sData s = []"

definition fs_insert :: "'a flat_set \<Rightarrow> 'a \<Rightarrow> 'a flat_set \<times> nat \<times> bool" where
  "fs_insert s val = (let it = std_lower_bound (\<lambda>e. sComp s e val) (sData s) in
     if it \<noteq> length (sData s) \<and> \<not> sComp s val (sData s ! it) then (s, it, False)
     else (s\<lparr>sData := vec_insert (sData s) it val\<rparr>, it, True))"

definition fs_emplace :: "'a flat_set \<Rightarrow> 'a \<Rightarrow> 'a flat_set \<times> nat \<times> bool" where
  "fs_emplace s val = fs_insert s val"

definition fs_erase :: "'a flat_set \<Rightarrow> 'a \<Rightarrow> 'a flat_set \<times> nat" where
  "fs_erase s key = (let it = std_lower_bound (\<lambda>e. sComp s e key) (sData s) in
     if it = length (sData s) \<or> sComp s key (sData s ! it) then (s, 0)
     else (s\<lparr>sData := vec_erase (sData s) it (Suc it)\<rparr>, 1))"

definition fs_erase_at :: "bool \<Rightarrow> 'a flat_set \<Rightarrow> nat \<Rightarrow> ('a flat_set \<times> nat) result" where
  "fs_erase_at dbg s pos =
     (if dbg \<and> \<not> pos < length (sData s) then Inl Enforce_failed
      else if \<not> pos < length (sData s) then Inl Undefined_behaviour
      else Inr (s\<lparr>sData := vec_erase (sData s) pos (Suc pos)\<rparr>, pos))"

definition fs_erase_range :: "bool \<Rightarrow> 'a flat_set \<Rightarrow> nat \<Rightarrow> nat \<Rightarrow> ('a flat_set \<times> nat) result" where
  "fs_erase_range dbg s first lst =
     (if dbg \<and> \<not> first \<le> length (sData s) then Inl Enforce_failed
      else if dbg \<and> \<not> lst \<le> length (sData s) then Inl Enforce_failed
      else if dbg \<and> \<not> first \<le> lst then Inl Enforce_failed
      else if \<not> (first \<le> lst \<and> lst \<le> length (sData s)) then Inl Undefined_behaviour
      else Inr (s\<lparr>sData := vec_erase (sData s) first lst\<rparr>, first))"

definition fs_extract :: "bool \<Rightarrow> 'a flat_set \<Rightarrow> nat \<Rightarrow> ('a flat_set \<times> 'a) result" where
  "fs_extract dbg s pos =
     (if dbg \<and> \<not> pos < length (sData s) then Inl Enforce_failed
      else case vec_get (sData s) pos of Inl e \<Rightarrow> Inl e
        | Inr res \<Rightarrow> Inr (s\<lparr>sData := vec_erase (sData s) pos (Suc pos)\<rparr>, res))"

definition fs_insertWithHint :: "'a flat_set \<Rightarrow> nat \<Rightarrow> 'a \<Rightarrow> ('a flat_set \<times> nat) result" where
  "fs_insertWithHint s hint val =
    (let d = sData s; lt = sComp s;
         fall_back = (let it = std_lower_bound (\<lambda>e. lt e val) d in
           if it \<noteq> length d \<and> \<not> lt val (d ! it) then (s, it)
           else (s\<lparr>sData := vec_insert d it val\<rparr>, it))
     in if hint = length d then
          (if d = [] \<or> lt (last d) val then Inr (s\<lparr>sData := d @ [val]\<rparr>, length d)
           else if \<not> lt val (last d) then Inr (s, length d - 1)
           else Inr fall_back)
        else if hint = 0 then
          (if d = [] then Inr (s\<lparr>sData := d @ [val]\<rparr>, 0)
           else if lt val (hd d) then Inr (s\<lparr>sData := vec_insert d 0 val\<rparr>, 0)
           else if \<not> lt (hd d) val then Inr (s, 0)
           else Inr fall_back)
        else (case (vec_get d (hint - 1), vec_get d hint) of
            (Inr prv, Inr nxt) \<Rightarrow>
              if lt prv val \<and> lt val nxt then Inr (s\<lparr>sData := vec_insert d hint val\<rparr>, hint)
              else if \<not> lt prv val \<and> \<not> lt val prv then Inr (s, hint - 1)
              else if \<not> lt nxt val \<and> \<not> lt val nxt then Inr (s, hint)
              else Inr fall_back
          | _ \<Rightarrow> Inl Undefined_behaviour))"

definition fs_insert_hint :: "'a flat_set \<Rightarrow> nat \<Rightarrow> 'a \<Rightarrow> ('a flat_set \<times> nat) result" where
  "fs_insert_hint s hint val = fs_insertWithHint s hint val"

definition fs_emplace_hint :: "'a flat_set \<Rightarrow> nat \<Rightarrow> 'a \<Rightarrow> ('a flat_set \<times> nat) result" where
  "fs_emplace_hint s hint val = fs_insertWithHint s hint val"

definition fs_of_range :: "('a \<Rightarrow> 'a \<Rightarrow> bool) \<Rightarrow> 'a list \<Rightarrow> 'a flat_set" where
  "fs_of_range cmp xs = (let s = \<lparr>sData = xs, sComp = cmp\<rparr>; in_order = std_stable_sort cmp (sData s)
     in s\<lparr>sData := std_unique (elementsEquivalent s) in_order\<rparr>)"

definition fs_of_ordered_unique :: "bool \<Rightarrow> ('a \<Rightarrow> 'a \<Rightarrow> bool) \<Rightarrow> 'a list \<Rightarrow> 'a flat_set result" where
  "fs_of_ordered_unique dbg cmp xs = (let s = \<lparr>sData = xs, sComp = cmp\<rparr> in
     if dbg \<and> \<not> std_is_sorted (sComp s) (sData s) then Inl Enforce_failed else Inr s)"

definition fs_of_ordered :: "bool \<Rightarrow> ('a \<Rightarrow> 'a \<Rightarrow> bool) \<Rightarrow> 'a list \<Rightarrow> 'a flat_set result" where
  "fs_of_ordered dbg cmp xs = (let s = \<lparr>sData = xs, sComp = cmp\<rparr> in
     if dbg \<and> \<not> std_is_sorted (sComp s) (sData s) then Inl Enforce_failed
     else Inr (s\<lparr>sData := std_unique (elementsEquivalent s) (sData s)\<rparr>))"

definition fs_insert_range :: "'a flat_set \<Rightarrow> 'a list \<Rightarrow> 'a flat_set" where
  "fs_insert_range s xs =
    (if xs = [] then s
     else let new_part = std_stable_sort (sComp s) xs;
              merged = std_merge (sComp s) (sData s) new_part
          in s\<lparr>sData := std_unique (elementsEquivalent s) merged\<rparr>)"

definition fs_insert_ordered_unique :: "bool \<Rightarrow> 'a flat_set \<Rightarrow> 'a list \<Rightarrow> 'a flat_set \<times> unit result" where
  "fs_insert_ordered_unique dbg s xs =
    (if xs = [] then (s, Inr ())
     else if \<not> std_is_sorted (sComp s) xs
       then (s\<lparr>sData := sData s @ xs\<rparr>, Inl (if dbg then Enforce_failed else Undefined_behaviour))
     else (s\<lparr>sData := std_unique (elementsEquivalent s) (std_merge (sComp s) (sData s) xs)\<rparr>, Inr ()))"

definition fs_insert_ordered :: "bool \<Rightarrow> 'a flat_set \<Rightarrow> 'a list \<Rightarrow> 'a flat_set \<times> unit result" where
  "fs_insert_ordered dbg s xs = fs_insert_ordered_unique dbg s xs"

definition fs_swap :: "'a flat_set \<Rightarrow> 'a flat_set \<Rightarrow> 'a flat_set \<times> 'a flat_set" where
  "fs_swap a b = (a\<lparr>sData := sData b, sComp := sComp b\<rparr>, b\<lparr>sData := sData a, sComp := sComp a\<rparr>)"

fun set_merge_loop :: "('a \<Rightarrow> 'a \<Rightarrow> bool) \<Rightarrow> 'a list \<Rightarrow> 'a list \<Rightarrow> 'a list \<times> 'a list" where
  "set_merge_loop lt (x # xs) (y # ys) =
    (if lt x y then apfst ((#) x) (set_merge_loop lt xs (y # ys))
     else if lt y x then apfst ((#) y) (set_merge_loop lt (x # xs) ys)
     else map_prod ((#) x) ((#) y) (set_merge_loop lt xs ys))"
| "set_merge_loop lt (x # xs) [] = (x # xs, [])"
| "set_merge_loop lt [] ys = (ys, [])"

definition fs_merge :: "bool \<Rightarrow> 'a flat_set \<Rightarrow> 'a flat_set \<Rightarrow> 'a flat_set \<times> 'a flat_set" where
  "fs_merge self s source =
    (if self then (s, source)
     else if fs_empty source then (s, source)
     else if fs_empty s then fs_swap s source
     else let (merged, remaining) = set_merge_loop (sComp s) (sData s) (sData source)
          in (s\<lparr>sData := merged\<rparr>, source\<lparr>sData := remaining\<rparr>))"

definition fs_equal :: "'a flat_set \<Rightarrow> 'a flat_set \<Rightarrow> bool" where
  "fs_equal a b = (if fs_size a \<noteq> fs_size b then False else list_all2 (=) (sData a) (sData b))"

section \<open>A set as a map to unit values\<close>

definition as_map :: "'a flat_set \<Rightarrow> ('a, unit) flat_map" where
  "as_map s = \<lparr>mData = map (\<lambda>x. (x, ())) (sData s), mComp = sComp s\<rparr>"

lemma as_map_sel [simp]: "mData (as_map s) = map (\<lambda>x. (x, ())) (sData s)" "mComp (as_map s) = sComp s"
  by (simp_all add: as_map_def)

lemma as_map_update: "(as_map s)\<lparr>mData := map (\<lambda>x. (x, ())) d\<rparr> = as_map (s\<lparr>sData := d\<rparr>)"
  by (simp add: as_map_def)

lemma as_map_inj: "as_map s = as_map t \<longleftrightarrow> s = t"
  by (auto simp: as_map_def inj_map_eq_map inj_def)

text \<open>The algorithms of the standard library commute with a map over the elements.\<close>

lemma partition_point_map:
  "first + len \<le> length xs \<Longrightarrow> partition_point p (map f xs) first len = partition_point (\<lambda>x. p (f x)) xs first len"
proof (induction "\<lambda>x. p (f x)" xs first len rule: partition_point.induct)
  case (1 xs first len)
  show ?case
  proof (cases "len = 0")
    case True
    then show ?thesis by (simp add: partition_point.simps [of _ _ first])
  next
    case False
    then have "map f xs ! (first + len div 2) = f (xs ! (first + len div 2))" using 1(3) by simp
    with False 1 show ?thesis by (simp add: partition_point.simps [of _ _ first len] Let_def)
  qed
qed

lemma std_lower_bound_map: "std_lower_bound p (map f xs) = std_lower_bound (\<lambda>x. p (f x)) xs"
  by (simp add: std_lower_bound_def partition_point_map)

lemma stable_insert_map: "stable_insert lt (f x) (map f xs) = map f (stable_insert (\<lambda>a b. lt (f a) (f b)) x xs)"
  by (induction xs) simp_all

lemma stable_sort_map: "std_stable_sort lt (map f xs) = map f (std_stable_sort (\<lambda>a b. lt (f a) (f b)) xs)"
  by (induction xs) (simp_all add: std_stable_sort_def stable_insert_map)

lemma std_merge_map: "std_merge lt (map f xs) (map f ys) = map f (std_merge (\<lambda>a b. lt (f a) (f b)) xs ys)"
  by (induction "\<lambda>a b. lt (f a) (f b)" xs ys rule: std_merge.induct) simp_all

lemma unique_after_map: "unique_after eq (f k) (map f xs) = map f (unique_after (\<lambda>a b. eq (f a) (f b)) k xs)"
  by (induction xs arbitrary: k) simp_all

lemma std_unique_map: "std_unique eq (map f xs) = map f (std_unique (\<lambda>a b. eq (f a) (f b)) xs)"
  by (cases xs) (simp_all add: unique_after_map)

lemma std_is_sorted_map: "std_is_sorted lt (map f xs) = std_is_sorted (\<lambda>a b. lt (f a) (f b)) xs"
  by (induction "\<lambda>a b. lt (f a) (f b)" xs rule: std_is_sorted.induct) simp_all

lemma set_merge_loop_map:
  "merge_loop lt (map (\<lambda>x. (x, ())) xs) (map (\<lambda>x. (x, ())) ys)
   = map_prod (map (\<lambda>x. (x, ()))) (map (\<lambda>x. (x, ()))) (set_merge_loop lt xs ys)"
proof (induction lt xs ys rule: set_merge_loop.induct)
  case (1 lt x xs y ys)
  have p: "apfst ((#) (z, ())) (map_prod (map (\<lambda>x. (x, ()))) (map (\<lambda>x. (x, ()))) q)
    = map_prod (map (\<lambda>x. (x, ()))) (map (\<lambda>x. (x, ()))) (apfst ((#) z) q)" for z :: 'a and q
    by (cases q) simp
  have r: "map_prod ((#) (z, ())) ((#) (w, ())) (map_prod (map (\<lambda>x. (x, ()))) (map (\<lambda>x. (x, ()))) q)
    = map_prod (map (\<lambda>x. (x, ()))) (map (\<lambda>x. (x, ()))) (map_prod ((#) z) ((#) w) q)" for z w :: 'a and q
    by (cases q) simp
  show ?case using 1 by (simp add: p r)
qed simp_all

lemmas vec_map = vec_insert_def vec_erase_def take_map drop_map

lemma vec_insert_map: "vec_insert (map f xs) i (f x) = map f (vec_insert xs i x)"
  by (simp add: vec_map)

lemma vec_erase_map: "vec_erase (map f xs) i j = map f (vec_erase xs i j)"
  by (simp add: vec_map)

lemma kv_as_map: "keyValueComp (as_map s) = (\<lambda>a b. sComp s (fst a) (fst b))"
  by (simp add: fun_eq_iff keyValueComp_def)

lemma keysEquivalent_as_map: "keysEquivalent (as_map s) = elementsEquivalent s"
  by (simp add: fun_eq_iff keysEquivalent_def elementsEquivalent_def)

lemma lowerBound_as_map: "lowerBoundInternal (as_map s) k = fs_lower_bound s k"
  by (simp add: lowerBoundInternal_def fs_lower_bound_def std_lower_bound_map)

lemmas as_map_ops = kv_as_map keysEquivalent_as_map lowerBound_as_map std_lower_bound_map stable_sort_map
  std_merge_map std_unique_map std_is_sorted_map vec_erase_map

lemma lower_bound_le:
  "std_lower_bound p xs \<le> length xs"
proof -
  have "partition_point p xs first len \<le> first + len" for first len
    by (induction p xs first len rule: partition_point.induct)
      (subst partition_point.simps, fastforce simp: Let_def)
  from this [of 0 "length xs"] show ?thesis by (simp add: std_lower_bound_def)
qed

lemma fs_lower_bound_cases:
  obtains "fs_lower_bound s k = length (sData s)" | "fs_lower_bound s k < length (sData s)"
  using lower_bound_le [of "\<lambda>e. sComp s e k" "sData s"] unfolding fs_lower_bound_def by linarith

lemma fs_find_as_map: "fm_find (as_map s) k = fs_find s k"
  by (cases rule: fs_lower_bound_cases [of s k]) (simp_all add: fm_find_def fs_find_def as_map_ops Let_def)

lemma fs_insert_as_map:
  "fm_insert (as_map s) (x, ()) = (as_map (fst (fs_insert s x)), snd (fs_insert s x))"
  using vec_insert_map [of "\<lambda>x. (x, ())" "sData s" _ x]
  by (cases rule: fs_lower_bound_cases [of s x])
    (simp_all add: fm_insert_def fs_insert_def as_map_ops Let_def as_map_update fs_lower_bound_def [symmetric])

lemma fs_erase_as_map:
  "fm_erase (as_map s) x = (as_map (fst (fs_erase s x)), snd (fs_erase s x))"
  by (cases rule: fs_lower_bound_cases [of s x])
    (simp_all add: fm_erase_def fs_erase_def as_map_ops Let_def as_map_update fs_lower_bound_def [symmetric])

lemma fs_hint_as_map:
  assumes "hint \<le> length (sData s)"
  shows "insertWithHint (as_map s) hint x () = map_sum id (map_prod as_map id) (fs_insertWithHint s hint x)"
proof -
  define d where "d = sData s"
  define lt where "lt = sComp s"
  define l where "l = fs_lower_bound s x"
  define fb where "fb = (if l \<noteq> length d \<and> \<not> lt x (d ! l) then (s, l) else (s\<lparr>sData := vec_insert d l x\<rparr>, l))"
  note v = vec_insert_map [of "\<lambda>x. (x, ())" "sData s" _ x, folded d_def]
  have ins: "(as_map s)\<lparr>mData := vec_insert (map (\<lambda>x. (x, ())) d) i (x, ())\<rparr> = as_map (s\<lparr>sData := vec_insert d i x\<rparr>)" for i
    by (simp add: v as_map_update)
  have app: "(as_map s)\<lparr>mData := map (\<lambda>x. (x, ())) d @ [(x, ())]\<rparr> = as_map (s\<lparr>sData := d @ [x]\<rparr>)"
    by (simp add: as_map_def)
  have fb': "(if l \<noteq> length (map (\<lambda>x. (x, ())) d) \<and> \<not> lt x (fst (map (\<lambda>x. (x, ())) d ! l)) then (as_map s, l)
      else ((as_map s)\<lparr>mData := vec_insert (map (\<lambda>x. (x, ())) d) l (x, ())\<rparr>, l)) = map_prod as_map id fb"
    by (cases rule: fs_lower_bound_cases [of s x]) (auto simp: fb_def l_def d_def lt_def ins [unfolded d_def])
  note D = insertWithHint_def [of "as_map s" hint x "()", unfolded lowerBound_as_map as_map_sel, folded d_def lt_def l_def,
      unfolded Let_def, unfolded fb']
  have l2: "std_lower_bound (\<lambda>e. lt e x) d = l" by (simp add: l_def d_def lt_def fs_lower_bound_def)
  note S = fs_insertWithHint_def [of s hint x, folded d_def lt_def, unfolded Let_def, unfolded l2, folded fb_def]
  show ?thesis
  proof (cases "d = []")
    case True
    then show ?thesis using assms unfolding D S ins by (simp add: app [unfolded True] d_def [symmetric])
  next
    case False
    note h = last_map [OF False] hd_map [OF False]
    consider "hint = length d" | "hint \<noteq> length d" "hint = 0" | j where "hint = Suc j" "Suc j < length d"
    proof -
      have "hint \<le> length d" using assms by (simp add: d_def)
      then show thesis using that by (cases hint) (auto simp: le_less)
    qed
    then show ?thesis
    proof cases
      case 1
      then show ?thesis using False unfolding D S ins by (simp add: app h)
    next
      case 2
      then show ?thesis using False unfolding D S ins by (simp add: h)
    next
      case (3 j)
      then show ?thesis using False unfolding D S ins by simp
    qed
  qed
qed


lemma fs_of_range_as_map: "fm_of_range cmp (map (\<lambda>x. (x, ())) xs) = as_map (fs_of_range cmp xs)"
proof -
  define s where "s = \<lparr>sData = xs, sComp = cmp\<rparr>"
  have m: "\<lparr>mData = map (\<lambda>x. (x, ())) xs, mComp = cmp\<rparr> = as_map s" by (simp add: as_map_def s_def)
  show ?thesis
    unfolding fm_of_range_def fs_of_range_def m Let_def s_def [symmetric] as_map_ops as_map_sel
    by (simp add: as_map_ops as_map_update) (simp add: s_def)
qed

lemma fs_of_ordered_as_map: "fm_of_ordered dbg cmp (map (\<lambda>x. (x, ())) xs) = map_sum id as_map (fs_of_ordered dbg cmp xs)"
  and fs_of_ordered_unique_as_map:
    "fm_of_ordered_unique dbg cmp (map (\<lambda>x. (x, ())) xs) = map_sum id as_map (fs_of_ordered_unique dbg cmp xs)"
proof -
  define s where "s = \<lparr>sData = xs, sComp = cmp\<rparr>"
  have m: "\<lparr>mData = map (\<lambda>x. (x, ())) xs, mComp = cmp\<rparr> = as_map s" by (simp add: as_map_def s_def)
  show "fm_of_ordered dbg cmp (map (\<lambda>x. (x, ())) xs) = map_sum id as_map (fs_of_ordered dbg cmp xs)"
    and "fm_of_ordered_unique dbg cmp (map (\<lambda>x. (x, ())) xs) = map_sum id as_map (fs_of_ordered_unique dbg cmp xs)"
    unfolding fm_of_ordered_def fs_of_ordered_def fm_of_ordered_unique_def fs_of_ordered_unique_def
      m Let_def s_def [symmetric]
    by (simp_all add: as_map_ops as_map_update)
qed

lemma fs_insert_range_as_map: "fm_insert_range (as_map s) (map (\<lambda>x. (x, ())) xs) = as_map (fs_insert_range s xs)"
  by (simp add: fm_insert_range_def fs_insert_range_def as_map_ops as_map_update Let_def)

lemma fs_insert_ordered_as_map:
  "fm_insert_ordered dbg (as_map s) (map (\<lambda>x. (x, ())) xs) = map_prod as_map id (fs_insert_ordered dbg s xs)"
proof -
  have "(as_map s)\<lparr>mData := map (\<lambda>x. (x, ())) (sData s) @ map (\<lambda>x. (x, ())) xs\<rparr> = as_map (s\<lparr>sData := sData s @ xs\<rparr>)"
    by (simp add: as_map_def)
  then show ?thesis
    by (simp add: fm_insert_ordered_def fs_insert_ordered_def fm_insert_ordered_unique_def
        fs_insert_ordered_unique_def as_map_ops as_map_update)
qed

lemma fs_merge_as_map: "fm_merge self (as_map s) (as_map t) = map_prod as_map as_map (fs_merge self s t)"
proof -
  have sw: "fm_swap (as_map s) (as_map t) = map_prod as_map as_map (fs_swap s t)"
    by (simp add: fm_swap_def fs_swap_def as_map_def)
  show ?thesis
    by (simp add: fm_merge_def fs_merge_def fm_empty_def fs_empty_def sw set_merge_loop_map as_map_update
        split: prod.split)
qed

lemma fs_equal_as_map: "fm_equal (as_map s) (as_map t) = fs_equal s t"
proof -
  have "length xs = length ys \<Longrightarrow> equal_loop (map (\<lambda>x. (x, ())) xs) (map (\<lambda>x. (x, ())) ys) = list_all2 (=) xs ys"
    for xs ys :: "'a list"
    by (induction xs ys rule: list_induct2) auto
  then show ?thesis by (simp add: fm_equal_def fs_equal_def fm_size_def fs_size_def)
qed

section \<open>Sequences of operations\<close>

text \<open>Merging is with another set of the same order, given as a range.\<close>

datatype 'a fs_op =
    Set_insert 'a
  | Set_emplace 'a
  | Set_insert_hint nat 'a
  | Set_insert_range "'a list"
  | Set_merge "'a list"
  | Set_erase 'a
  | Set_clear

fun fs_exec :: "'a::linorder flat_set \<Rightarrow> 'a fs_op \<Rightarrow> 'a flat_set" where
  "fs_exec s (Set_insert x) = fst (fs_insert s x)"
| "fs_exec s (Set_emplace x) = fst (fs_emplace s x)"
| "fs_exec s (Set_insert_hint n x) = (case fs_insert_hint s (n mod Suc (fs_size s)) x of
     Inl e \<Rightarrow> s | Inr (s', it) \<Rightarrow> s')"
| "fs_exec s (Set_insert_range xs) = fs_insert_range s xs"
| "fs_exec s (Set_merge xs) = fst (fs_merge False s (fs_of_range (<) xs))"
| "fs_exec s (Set_erase x) = fst (fs_erase s x)"
| "fs_exec s Set_clear = fs_clear s"

fun set_exec :: "'a set \<Rightarrow> 'a fs_op \<Rightarrow> 'a set" where
  "set_exec S (Set_insert x) = insert x S"
| "set_exec S (Set_emplace x) = insert x S"
| "set_exec S (Set_insert_hint n x) = insert x S"
| "set_exec S (Set_insert_range xs) = S \<union> set xs"
| "set_exec S (Set_merge xs) = S \<union> set xs"
| "set_exec S (Set_erase x) = S - {x}"
| "set_exec S Set_clear = {}"

definition less_set :: "'a::linorder flat_set \<Rightarrow> bool" where
  "less_set s \<longleftrightarrow> less_map (as_map s)"

lemma map_of_units: "map_of (map (\<lambda>x. (x, ())) xs) x = (if x \<in> set xs then Some () else None)"
  by (induction xs) auto

lemma less_setD:
  assumes "less_set s"
  shows "fm_inv (as_map s)" and "sComp s = (<)" and "sorted_wrt (<) (sData s)"
    and "fm_lookup (as_map s) x = (if x \<in> set (sData s) then Some () else None)"
proof -
  show inv: "fm_inv (as_map s)" and lt: "sComp s = (<)"
    using assms unfolding less_set_def less_map_def as_map_sel by blast+
  show "sorted_wrt (<) (sData s)"
    using inv unfolding fm_inv_def kv_as_map lt as_map_sel sorted_wrt_map fst_conv by simp
  show "fm_lookup (as_map s) x = (if x \<in> set (sData s) then Some () else None)"
    unfolding fm_lookup_def as_map_sel lt class_find_less by (rule map_of_units)
qed

lemma less_set_by_lookup:
  assumes "less_map (as_map s)" and "\<And>x. fm_lookup (as_map s) x = (if x \<in> S then Some () else None)"
  shows "less_set s \<and> set (sData s) = S"
proof -
  have l: "less_set s" using assms(1) by (simp add: less_set_def)
  have "x \<in> set (sData s) \<longleftrightarrow> x \<in> S" for x
    using less_setD(4) [OF l, of x] assms(2) [of x] by (auto split: if_splits)
  with l show ?thesis by blast
qed

lemma less_set_insert:
  assumes "less_set s"
  shows "less_set (fst (fs_insert s x)) \<and> set (sData (fst (fs_insert s x))) = insert x (set (sData s))"
proof -
  have m: "less_map (as_map s)" using assms by (simp add: less_set_def)
  obtain s' it b where i: "fs_insert s x = (s', it, b)" by (metis prod_cases3)
  have "fm_insert (as_map s) (x, ()) = (as_map s', it, b)" by (simp add: fs_insert_as_map i)
  note r = less_map_insert [OF m this]
  have "less_set s' \<and> set (sData s') = insert x (set (sData s))"
    by (rule less_set_by_lookup [OF r(1)]) (use r(2,3) less_setD(4) [OF assms] in \<open>auto split: if_splits\<close>)
  then show ?thesis by (simp add: i)
qed

lemma less_set_range:
  assumes "less_set s"
  shows "less_set (fs_insert_range s xs) \<and> set (sData (fs_insert_range s xs)) = set (sData s) \<union> set xs"
proof (rule less_set_by_lookup)
  note inv = less_setD(1) [OF assms] and lt = less_setD(2) [OF assms]
  note r = fm_insert_range_spec [OF inv, of "map (\<lambda>x. (x, ())) xs", unfolded fs_insert_range_as_map as_map_sel lt]
  show "less_map (as_map (fs_insert_range s xs))" using r(1,2) by (simp add: less_map_def)
  show "fm_lookup (as_map (fs_insert_range s xs)) x = (if x \<in> set (sData s) \<union> set xs then Some () else None)" for x
    unfolding r(3) class_find_less less_setD(4) [OF assms] map_of_units by simp
qed

lemma less_set_of_range: "less_set (fs_of_range (<) xs) \<and> set (sData (fs_of_range (<) xs)) = set xs"
proof (rule less_set_by_lookup)
  note r = fm_of_range_spec [OF swo_less, of "map (\<lambda>x. (x, ())) xs", unfolded fs_of_range_as_map]
  show "less_map (as_map (fs_of_range (<) xs))" using r(1,2) by (simp add: less_map_def)
  show "fm_lookup (as_map (fs_of_range (<) xs)) x = (if x \<in> set xs then Some () else None)" for x
    unfolding r(3) class_find_less by (rule map_of_units)
qed

lemma less_set_merge:
  assumes "less_set s" and "less_set t"
  shows "less_set (fst (fs_merge False s t)) \<and> set (sData (fst (fs_merge False s t))) = set (sData s) \<union> set (sData t)"
proof -
  obtain s' t' where m: "fs_merge False s t = (s', t')" by fastforce
  have "fm_merge False (as_map s) (as_map t) = (as_map s', as_map t')" by (simp add: fs_merge_as_map m)
  moreover have "mComp (as_map t) = mComp (as_map s)" by (simp add: less_setD(2) [OF assms(1)] less_setD(2) [OF assms(2)])
  ultimately have r: "fm_inv (as_map s')" "mComp (as_map s') = mComp (as_map s)"
    "\<And>k. fm_lookup (as_map s') k = (case fm_lookup (as_map s) k of Some v \<Rightarrow> Some v | None \<Rightarrow> fm_lookup (as_map t) k)"
    using fm_merge_spec [OF less_setD(1) [OF assms(1)] less_setD(1) [OF assms(2)]] by blast+
  have "less_set s' \<and> set (sData s') = set (sData s) \<union> set (sData t)"
  proof (rule less_set_by_lookup)
    show "less_map (as_map s')" using r(1,2) less_setD(2) [OF assms(1)] by (simp add: less_map_def)
    show "fm_lookup (as_map s') x = (if x \<in> set (sData s) \<union> set (sData t) then Some () else None)" for x
      by (simp add: r(3) less_setD(4) [OF assms(1)] less_setD(4) [OF assms(2)])
  qed
  then show ?thesis by (simp add: m)
qed

lemma less_set_erase:
  assumes "less_set s"
  shows "less_set (fst (fs_erase s x)) \<and> set (sData (fst (fs_erase s x))) = set (sData s) - {x}"
proof -
  have m: "less_map (as_map s)" using assms by (simp add: less_set_def)
  obtain s' n where e: "fs_erase s x = (s', n)" by fastforce
  have "fm_erase (as_map s) x = (as_map s', n)" by (simp add: fs_erase_as_map e)
  note r = less_map_erase [OF m this]
  have "less_set s' \<and> set (sData s') = set (sData s) - {x}"
    by (rule less_set_by_lookup [OF r(1)]) (use r(3) less_setD(4) [OF assms] in \<open>auto split: if_splits\<close>)
  then show ?thesis by (simp add: e)
qed

lemma fs_insert_hint_insert:
  assumes "less_set s" and "hint \<le> length (sData s)"
  shows "fs_insertWithHint s hint x = Inr (fst (fs_insert s x), fst (snd (fs_insert s x)))"
proof -
  have "map_sum id (map_prod as_map id) (fs_insertWithHint s hint x)
    = Inr (as_map (fst (fs_insert s x)), fst (snd (fs_insert s x)))"
    using insertWithHint_insert [OF less_setD(1) [OF assms(1)], of hint x "()"] assms(2)
    unfolding fs_hint_as_map [OF assms(2)] fs_insert_as_map by simp
  then show ?thesis by (cases "fs_insertWithHint s hint x") (auto simp: as_map_inj)
qed

lemma fs_exec_set:
  assumes "less_set s"
  shows "less_set (fs_exec s x) \<and> set (sData (fs_exec s x)) = set_exec (set (sData s)) x"
proof (cases x)
  case (Set_insert_hint n y)
  have "n mod Suc (fs_size s) \<le> length (sData s)" by (simp add: fs_size_def less_Suc_eq_le [symmetric])
  from fs_insert_hint_insert [OF assms this] Set_insert_hint less_set_insert [OF assms]
  show ?thesis by (simp add: fs_insert_hint_def)
next
  case Set_clear
  have "less_map (as_map (fs_clear s))"
    using less_setD(1,2) [OF assms] by (simp add: less_map_def fm_inv_def fs_clear_def)
  with Set_clear show ?thesis by (simp add: less_set_def fs_clear_def)
qed (simp_all add: fs_emplace_def less_set_insert [OF assms] less_set_range [OF assms]
    less_set_erase [OF assms] less_set_merge [OF assms] less_set_of_range)

section \<open>Properties\<close>

text \<open>C15: whatever sequence of insertions (single, hinted, ranges), merges, erasures and clears is
  run on an empty \<open>FlatSet\<close> with \<open>std::less\<close>, its vector holds exactly the elements of the
  mathematical set, in ascending order and without repetition.\<close>

theorem flat_set_is_sorted_set:
  fixes ops :: "'a::linorder fs_op list"
  shows "sData (foldl fs_exec \<lparr>sData = [], sComp = (<)\<rparr> ops) = sorted_list_of_set (foldl set_exec {} ops)"
proof -
  have "less_set (foldl fs_exec s ops) \<and> set (sData (foldl fs_exec s ops)) = foldl set_exec (set (sData s)) ops"
    if "less_set s" for s :: "'a flat_set"
    using that
  proof (induction ops arbitrary: s)
    case (Cons x xs)
    note e = fs_exec_set [OF Cons.prems, of x]
    from Cons.IH [OF conjunct1 [OF e]] show ?case unfolding foldl_Cons conjunct2 [OF e] .
  qed simp
  moreover have "less_set (\<lparr>sData = [], sComp = (<)\<rparr> :: 'a flat_set)"
    by (simp add: less_set_def less_map_def fm_inv_def swo_less)
  ultimately have "less_set (foldl fs_exec \<lparr>sData = [], sComp = (<)\<rparr> ops)"
    and "set (sData (foldl fs_exec \<lparr>sData = [], sComp = (<)\<rparr> ops)) = foldl set_exec {} ops" by fastforce+
  with less_setD(3) show ?thesis by (metis sorted_list_of_set.idem_if_sorted_distinct strict_sorted_iff)
qed

text \<open>\<open>FlatSet\<close>, written separately from \<open>FlatMap\<close>, behaves as a \<open>FlatMap\<close> with values of the
  unit type: on every state and for every comparator each operation gives the same result, the
  same positions and the same failures.\<close>

theorem flat_set_mirrors_flat_map:
  shows "fm_find (as_map s) x = fs_find s x
    \<and> fm_equal_range (as_map s) x = fs_equal_range s x
    \<and> fm_insert (as_map s) (x, ()) = map_prod as_map id (fs_insert s x)
    \<and> fm_erase (as_map s) x = map_prod as_map id (fs_erase s x)
    \<and> fm_erase_range dbg (as_map s) i j = map_sum id (map_prod as_map id) (fs_erase_range dbg s i j)
    \<and> fm_insert_hint (as_map s) (n mod Suc (fs_size s)) (x, ())
        = map_sum id (map_prod as_map id) (fs_insert_hint s (n mod Suc (fs_size s)) x)
    \<and> fm_of_range cmp (map (\<lambda>x. (x, ())) xs) = as_map (fs_of_range cmp xs)
    \<and> fm_of_ordered dbg cmp (map (\<lambda>x. (x, ())) xs) = map_sum id as_map (fs_of_ordered dbg cmp xs)
    \<and> fm_insert_range (as_map s) (map (\<lambda>x. (x, ())) xs) = as_map (fs_insert_range s xs)
    \<and> fm_insert_ordered dbg (as_map s) (map (\<lambda>x. (x, ())) xs) = map_prod as_map id (fs_insert_ordered dbg s xs)
    \<and> fm_merge self (as_map s) (as_map t) = map_prod as_map as_map (fs_merge self s t)
    \<and> fm_equal (as_map s) (as_map t) = fs_equal s t"
proof (intro conjI)
  have "n mod Suc (fs_size s) \<le> length (sData s)" by (simp add: fs_size_def less_Suc_eq_le [symmetric])
  then show "fm_insert_hint (as_map s) (n mod Suc (fs_size s)) (x, ())
      = map_sum id (map_prod as_map id) (fs_insert_hint s (n mod Suc (fs_size s)) x)"
    by (simp add: fm_insert_hint_def fs_insert_hint_def fs_hint_as_map)
  show "fm_equal_range (as_map s) x = fs_equal_range s x"
    by (simp add: fm_equal_range_def fs_equal_range_def fm_lower_bound_def fm_upper_bound_def fs_upper_bound_def as_map_ops)
  show "fm_erase_range dbg (as_map s) i j = map_sum id (map_prod as_map id) (fs_erase_range dbg s i j)"
    by (simp add: fm_erase_range_def fs_erase_range_def as_map_ops as_map_update)
qed (simp_all add: fs_find_as_map fs_insert_as_map fs_erase_as_map fs_of_range_as_map fs_of_ordered_as_map
    fs_insert_range_as_map fs_insert_ordered_as_map fs_merge_as_map fs_equal_as_map map_prod_def split_beta)

end
