(* ===== verification/CircularBuffer.thy ===== *)
theory CircularBuffer
  imports Interfaces BitOps
begin

text \<open>
  \<open>CircularBuffer\<close> (\<open>include/fat_p/CircularBuffer.h\<close>): a queue for one producer thread and one
  consumer thread.  The operations are modelled twice: as functions on the state, for use by one
  thread, and as threads that take one step per access to a shared location, so that the steps of
  the two threads may interleave in any order.  The indices are 64-bit words that wrap around.

  The steps are sequentially consistent.  The header orders the accesses that matter by
  release stores and acquire loads, and each location is written by one thread only.
\<close>

section \<open>State\<close>

record 'a cb =
  mReadIdx :: size_t
  mWriteIdx :: size_t
  mCachedReadIdx :: size_t
  mCachedWriteIdx :: size_t
  mBuffer :: "'a list"

definition kBufferSize :: "size_t \<Rightarrow> size_t" where
  "kBufferSize cap = next_power_of_two (cap + 1)"

definition kIndexMask :: "size_t \<Rightarrow> size_t" where
  "kIndexMask cap = kBufferSize cap - 1"

text \<open>The static assertions of the class.\<close>

definition cb_valid :: "size_t \<Rightarrow> bool" where
  "cb_valid cap \<longleftrightarrow> cap > 0 \<and> is_power_of_two (kBufferSize cap) \<and> kBufferSize cap > cap"

text \<open>The array is not initialised: \<open>junk\<close> is what the memory holds.\<close>

definition cb_new :: "'a list \<Rightarrow> 'a cb" where
  "cb_new junk = \<lparr>mReadIdx = 0, mWriteIdx = 0, mCachedReadIdx = 0, mCachedWriteIdx = 0, mBuffer = junk\<rparr>"

definition cb_slot :: "size_t \<Rightarrow> size_t \<Rightarrow> nat" where
  "cb_slot cap i = unat (i AND kIndexMask cap)"

section \<open>Operations of one thread\<close>

definition cb_push :: "size_t \<Rightarrow> 'a cb \<Rightarrow> 'a \<Rightarrow> 'a cb \<times> bool" where
  "cb_push cap s v =
    (let write = mWriteIdx s in
     if write - mCachedReadIdx s \<ge> cap then
       (let s1 = s\<lparr>mCachedReadIdx := mReadIdx s\<rparr> in
        if write - mCachedReadIdx s1 \<ge> cap then (s1, False)
        else (s1\<lparr>mBuffer := (mBuffer s1)[cb_slot cap write := v], mWriteIdx := write + 1\<rparr>, True))
     else (s\<lparr>mBuffer := (mBuffer s)[cb_slot cap write := v], mWriteIdx := write + 1\<rparr>, True))"

definition cb_emplace :: "size_t \<Rightarrow> 'a cb \<Rightarrow> 'args \<Rightarrow> ('args \<Rightarrow> 'a) \<Rightarrow> 'a cb \<times> bool" where
  "cb_emplace cap s args construct =
    (let write = mWriteIdx s in
     if write - mCachedReadIdx s \<ge> cap then
       (let s1 = s\<lparr>mCachedReadIdx := mReadIdx s\<rparr> in
        if write - mCachedReadIdx s1 \<ge> cap then (s1, False)
        else (s1\<lparr>mBuffer := (mBuffer s1)[cb_slot cap write := construct args], mWriteIdx := write + 1\<rparr>, True))
     else (s\<lparr>mBuffer := (mBuffer s)[cb_slot cap write := construct args], mWriteIdx := write + 1\<rparr>, True))"

definition cb_pop :: "size_t \<Rightarrow> 'a cb \<Rightarrow> 'a cb \<times> 'a option" where
  "cb_pop cap s =
    (let read = mReadIdx s in
     if read = mCachedWriteIdx s then
       (let s1 = s\<lparr>mCachedWriteIdx := mWriteIdx s\<rparr> in
        if read = mCachedWriteIdx s1 then (s1, None)
        else (s1\<lparr>mReadIdx := read + 1\<rparr>, Some (mBuffer s1 ! cb_slot cap read)))
     else (s\<lparr>mReadIdx := read + 1\<rparr>, Some (mBuffer s ! cb_slot cap read)))"

definition cb_front :: "size_t \<Rightarrow> 'a cb \<Rightarrow> 'a option" where
  "cb_front cap s = (let read = mReadIdx s in
     if read = mWriteIdx s then None else Some (mBuffer s ! cb_slot cap read))"

text \<open>
  The observers may run in any thread, so each of their loads may see another state:
  \<open>st k\<close> is the state that the load number \<open>k\<close> of the call sees.
\<close>

definition cb_empty :: "(nat \<Rightarrow> 'a cb) \<Rightarrow> bool" where
  "cb_empty st \<longleftrightarrow> mReadIdx (st 0) = mWriteIdx (st 1)"

definition cb_full :: "size_t \<Rightarrow> (nat \<Rightarrow> 'a cb) \<Rightarrow> bool" where
  "cb_full cap st \<longleftrightarrow> (let write = mWriteIdx (st 0); read = mReadIdx (st 1) in write - read \<ge> cap)"

fun size_attempts :: "nat \<Rightarrow> size_t \<Rightarrow> (nat \<Rightarrow> 'a cb) \<Rightarrow> nat \<Rightarrow> size_t" where
  "size_attempts 0 cap st attempt =
    (let r = mReadIdx (st (3 * attempt)); w = mWriteIdx (st (3 * attempt + 1)); d = w - r
     in if d \<le> cap then d else cap)"
| "size_attempts (Suc n) cap st attempt =
    (if even attempt then
       (let w1 = mWriteIdx (st (3 * attempt)); r = mReadIdx (st (3 * attempt + 1)); w2 = mWriteIdx (st (3 * attempt + 2))
        in if w1 = w2 then w1 - r else size_attempts n cap st (attempt + 1))
     else
       (let r1 = mReadIdx (st (3 * attempt)); w = mWriteIdx (st (3 * attempt + 1)); r2 = mReadIdx (st (3 * attempt + 2))
        in if r1 = r2 then w - r1 else size_attempts n cap st (attempt + 1)))"

definition cb_size :: "size_t \<Rightarrow> (nat \<Rightarrow> 'a cb) \<Rightarrow> size_t" where
  "cb_size cap st = size_attempts 4 cap st 0"

text \<open>\<open>clearAndDestruct\<close> pops until the buffer is empty.\<close>

partial_function (option) pop_all :: "size_t \<Rightarrow> 'a cb \<Rightarrow> 'a cb option" where
  "pop_all cap s = (case snd (cb_pop cap s) of None \<Rightarrow> Some (fst (cb_pop cap s))
     | Some v \<Rightarrow> pop_all cap (fst (cb_pop cap s)))"

definition cb_reset :: "'a cb \<Rightarrow> 'a cb" where
  "cb_reset s = s\<lparr>mReadIdx := 0, mWriteIdx := 0, mCachedReadIdx := 0, mCachedWriteIdx := 0\<rparr>"

definition cb_clearAndDestruct :: "size_t \<Rightarrow> 'a cb \<Rightarrow> 'a cb option" where
  "cb_clearAndDestruct cap s = map_option cb_reset (pop_all cap s)"

definition cb_clear :: "bool \<Rightarrow> size_t \<Rightarrow> 'a cb \<Rightarrow> 'a cb option" where
  "cb_clear trivially_destructible cap s =
    (if \<not> trivially_destructible then cb_clearAndDestruct cap s else Some (cb_reset s))"

section \<open>Threads\<close>

text \<open>
  Where a thread is in \<open>push\<close>, in \<open>pop\<close> or in \<open>front\<close>: the constructors carry the local
  variables.  \<open>P_done\<close>, \<open>C_done\<close> and \<open>F_done\<close> hold what the call returned.
\<close>

datatype 'a producer =
    P_idle
  | P_load 'a
  | P_check 'a size_t
  | P_refresh 'a size_t
  | P_recheck 'a size_t
  | P_store 'a size_t
  | P_publish 'a size_t
  | P_done bool

datatype 'a consumer =
    C_idle
  | C_load
  | C_check size_t
  | C_refresh size_t
  | C_recheck size_t
  | C_take size_t
  | C_publish size_t 'a
  | C_done "'a option"
  | F_load
  | F_compare size_t
  | F_read size_t
  | F_done "'a option"

fun producer_step :: "size_t \<Rightarrow> 'a cb \<Rightarrow> 'a producer \<Rightarrow> 'a cb \<times> 'a producer" where
  "producer_step cap s (P_load v) = (s, P_check v (mWriteIdx s))"
| "producer_step cap s (P_check v write) =
    (s, if write - mCachedReadIdx s \<ge> cap then P_refresh v write else P_store v write)"
| "producer_step cap s (P_refresh v write) = (s\<lparr>mCachedReadIdx := mReadIdx s\<rparr>, P_recheck v write)"
| "producer_step cap s (P_recheck v write) =
    (s, if write - mCachedReadIdx s \<ge> cap then P_done False else P_store v write)"
| "producer_step cap s (P_store v write) =
    (s\<lparr>mBuffer := (mBuffer s)[cb_slot cap write := v]\<rparr>, P_publish v write)"
| "producer_step cap s (P_publish v write) = (s\<lparr>mWriteIdx := write + 1\<rparr>, P_done True)"
| "producer_step cap s p = (s, p)"

fun consumer_step :: "size_t \<Rightarrow> 'a cb \<Rightarrow> 'a consumer \<Rightarrow> 'a cb \<times> 'a consumer" where
  "consumer_step cap s C_load = (s, C_check (mReadIdx s))"
| "consumer_step cap s (C_check read) =
    (s, if read = mCachedWriteIdx s then C_refresh read else C_take read)"
| "consumer_step cap s (C_refresh read) = (s\<lparr>mCachedWriteIdx := mWriteIdx s\<rparr>, C_recheck read)"
| "consumer_step cap s (C_recheck read) =
    (s, if read = mCachedWriteIdx s then C_done None else C_take read)"
| "consumer_step cap s (C_take read) = (s, C_publish read (mBuffer s ! cb_slot cap read))"
| "consumer_step cap s (C_publish read v) = (s\<lparr>mReadIdx := read + 1\<rparr>, C_done (Some v))"
| "consumer_step cap s F_load = (s, F_compare (mReadIdx s))"
| "consumer_step cap s (F_compare read) = (s, if read = mWriteIdx s then F_done None else F_read read)"
| "consumer_step cap s (F_read read) = (s, F_done (Some (mBuffer s ! cb_slot cap read)))"
| "consumer_step cap s c = (s, c)"

text \<open>
  The two threads together.  \<open>pushed\<close> and \<open>popped\<close> are history variables: the values whose
  \<open>push\<close> has taken effect, and those that \<open>pop\<close> has taken out.
\<close>

record 'a spsc =
  buf :: "'a cb"
  prod_at :: "'a producer"
  cons_at :: "'a consumer"
  pushed :: "'a list"
  popped :: "'a list"

definition spsc_init :: "'a list \<Rightarrow> 'a spsc" where
  "spsc_init junk = \<lparr>buf = cb_new junk, prod_at = P_idle, cons_at = C_idle, pushed = [], popped = []\<rparr>"

text \<open>A thread makes a call when it is not inside one.\<close>

definition producer_free :: "'a producer \<Rightarrow> bool" where
  "producer_free p = (case p of P_idle \<Rightarrow> True | P_done b \<Rightarrow> True | _ \<Rightarrow> False)"

definition consumer_free :: "'a consumer \<Rightarrow> bool" where
  "consumer_free c = (case c of C_idle \<Rightarrow> True | C_done v \<Rightarrow> True | F_done v \<Rightarrow> True | _ \<Rightarrow> False)"

datatype 'a action = Call_push 'a | Run_producer | Call_pop | Call_front | Run_consumer

fun spsc_act :: "size_t \<Rightarrow> 'a spsc \<Rightarrow> 'a action \<Rightarrow> 'a spsc" where
  "spsc_act cap m (Call_push v) = (if producer_free (prod_at m) then m\<lparr>prod_at := P_load v\<rparr> else m)"
| "spsc_act cap m Call_pop = (if consumer_free (cons_at m) then m\<lparr>cons_at := C_load\<rparr> else m)"
| "spsc_act cap m Call_front = (if consumer_free (cons_at m) then m\<lparr>cons_at := F_load\<rparr> else m)"
| "spsc_act cap m Run_producer =
    (let (s, p) = producer_step cap (buf m) (prod_at m)
     in m\<lparr>buf := s, prod_at := p,
          pushed := pushed m @ (case prod_at m of P_publish v write \<Rightarrow> [v] | _ \<Rightarrow> [])\<rparr>)"
| "spsc_act cap m Run_consumer =
    (let (s, c) = consumer_step cap (buf m) (cons_at m)
     in m\<lparr>buf := s, cons_at := c,
          popped := popped m @ (case cons_at m of C_publish read v \<Rightarrow> [v] | _ \<Rightarrow> [])\<rparr>)"

definition spsc_run :: "size_t \<Rightarrow> 'a spsc \<Rightarrow> 'a action list \<Rightarrow> 'a spsc" where
  "spsc_run cap = foldl (spsc_act cap)"

inductive spsc_reachable :: "size_t \<Rightarrow> 'a spsc \<Rightarrow> bool" for cap where
  start: "length junk = unat (kBufferSize cap) \<Longrightarrow> spsc_reachable cap (spsc_init junk)"
| act: "spsc_reachable cap m \<Longrightarrow> spsc_reachable cap (spsc_act cap m a)"

text \<open>The number of elements in the buffer.\<close>

definition held :: "'a spsc \<Rightarrow> nat" where
  "held m = length (pushed m) - length (popped m)"

section \<open>Indices that wrap around\<close>

lemma cb_valid_size:
  assumes "cb_valid cap"
  obtains k where "unat (kBufferSize cap) = 2 ^ k" and "k < 64" and "kIndexMask cap = mask k"
proof -
  obtain k where k: "unat (kBufferSize cap) = 2 ^ k"
    using assms by (auto simp: cb_valid_def is_power_of_two_iff)
  have "(2::nat) ^ k < 2 ^ LENGTH(64)" using unat_bound [of "kBufferSize cap"] unfolding k .
  then have k64: "k < 64" using power_less_imp_less_exp [of "2::nat" k "LENGTH(64)"] by simp
  have "kBufferSize cap = of_nat (2 ^ k)" using k(1) [symmetric] by simp
  then have "kIndexMask cap = mask k" by (simp add: kIndexMask_def mask_eq_exp_minus_1)
  with k k64 show thesis by (rule that)
qed

lemma slot_of_nat:
  assumes "cb_valid cap"
  shows "cb_slot cap (of_nat i) = i mod unat (kBufferSize cap)"
proof -
  obtain k where k: "unat (kBufferSize cap) = 2 ^ k" "k < 64" "kIndexMask cap = mask k"
    using cb_valid_size [OF assms] .
  have "unat (of_nat i AND mask k :: size_t) = take_bit k (take_bit 64 i)"
    by (simp only: take_bit_eq_mask [symmetric] unsigned_take_bit_eq unsigned_of_nat len_bit0 len_num1 of_nat_id) simp
  also have "\<dots> = take_bit k i" using k(2) by (simp only: take_bit_take_bit min.absorb1 less_imp_le)
  also have "\<dots> = i mod 2 ^ k" by (rule take_bit_eq_mod)
  finally show ?thesis by (simp add: cb_slot_def k)
qed

lemma unat_index_diff:
  assumes "a \<le> b" and "b - a < 2 ^ 64"
  shows "unat (of_nat b - of_nat a :: size_t) = b - a"
proof -
  have "of_nat b - of_nat a = (of_nat (b - a) :: size_t)" using assms(1) by (simp add: of_nat_diff)
  with unat_of_nat_u64 [OF assms(2)] show ?thesis by simp
qed

lemma index_eq_iff:
  assumes "a \<le> b" and "b - a < 2 ^ 64"
  shows "(of_nat a :: size_t) = of_nat b \<longleftrightarrow> a = b"
  using unat_index_diff [OF assms] assms(1) by auto

lemma cap_less_size: "cb_valid cap \<Longrightarrow> unat cap < unat (kBufferSize cap)"
  by (simp add: cb_valid_def word_less_nat_alt)

end
