(* ===== verification/CircularBuffer_SPSC.thy ===== *)
theory CircularBuffer_SPSC
  imports CircularBuffer
begin

text \<open>
  The proofs on \<open>CircularBuffer\<close>: the contract of a bounded queue in one thread, the invariant of
  the interleaved threads, and the properties.
\<close>

section \<open>Invariant\<close>

text \<open>
  \<open>xs\<close> are the values pushed so far, \<open>C\<close> the number popped; the caches hold values \<open>cr\<close> and
  \<open>cw\<close> that the indices had at some earlier time.
\<close>

definition shared_inv :: "size_t \<Rightarrow> 'a cb \<Rightarrow> 'a list \<Rightarrow> nat \<Rightarrow> nat \<Rightarrow> nat \<Rightarrow> bool" where
  "shared_inv cap s xs C cr cw \<longleftrightarrow>
     cb_valid cap \<and> length (mBuffer s) = unat (kBufferSize cap)
     \<and> cr \<le> C \<and> C \<le> cw \<and> cw \<le> length xs \<and> length xs \<le> cr + unat cap
     \<and> mWriteIdx s = of_nat (length xs) \<and> mReadIdx s = of_nat C
     \<and> mCachedReadIdx s = of_nat cr \<and> mCachedWriteIdx s = of_nat cw
     \<and> (\<forall>i. C \<le> i \<and> i < length xs \<longrightarrow> mBuffer s ! (i mod unat (kBufferSize cap)) = xs ! i)"

lemma shared_invD:
  assumes "shared_inv cap s xs C cr cw"
  shows "cb_valid cap" "length (mBuffer s) = unat (kBufferSize cap)" "cr \<le> C" "C \<le> cw" "cw \<le> length xs"
    "length xs \<le> cr + unat cap" "mWriteIdx s = of_nat (length xs)" "mReadIdx s = of_nat C"
    "mCachedReadIdx s = of_nat cr" "mCachedWriteIdx s = of_nat cw"
    "\<lbrakk>C \<le> i; i < length xs\<rbrakk> \<Longrightarrow> mBuffer s ! (i mod unat (kBufferSize cap)) = xs ! i"
  using assms unfolding shared_inv_def by blast+

lemma cap_small: "unat (cap :: size_t) < 2 ^ 64"
  using unat_bound [of cap] by simp

lemma push_check:
  assumes "shared_inv cap s xs C cr cw"
  shows "mWriteIdx s - mCachedReadIdx s \<ge> cap \<longleftrightarrow> length xs = cr + unat cap"
proof -
  note d = shared_invD [OF assms]
  have "unat (of_nat (length xs) - of_nat cr :: size_t) = length xs - cr"
    using d(3-6) cap_small [of cap] by (intro unat_index_diff) linarith+
  then show ?thesis unfolding d word_le_nat_alt using d(3-6) by (simp add: le_diff_conv2) linarith
qed

lemma pop_check:
  assumes "shared_inv cap s xs C cr cw"
  shows "mReadIdx s = mCachedWriteIdx s \<longleftrightarrow> C = cw"
  unfolding shared_invD(8,10) [OF assms]
  using shared_invD(3-6) [OF assms] cap_small [of cap] by (intro index_eq_iff) linarith+

lemma empty_check:
  assumes "shared_inv cap s xs C cr cw"
  shows "mReadIdx s = mWriteIdx s \<longleftrightarrow> C = length xs"
  unfolding shared_invD(7,8) [OF assms]
  using shared_invD(3-6) [OF assms] cap_small [of cap] by (intro index_eq_iff) linarith+

lemma refresh_read:
  assumes "shared_inv cap s xs C cr cw"
  shows "shared_inv cap (s\<lparr>mCachedReadIdx := mReadIdx s\<rparr>) xs C C cw"
  using assms by (auto simp: shared_inv_def)

lemma refresh_write:
  assumes "shared_inv cap s xs C cr cw"
  shows "shared_inv cap (s\<lparr>mCachedWriteIdx := mWriteIdx s\<rparr>) xs C cr (length xs)"
  using assms by (auto simp: shared_inv_def)

lemma slot_bound: "cb_valid cap \<Longrightarrow> cb_slot cap (of_nat i) < unat (kBufferSize cap)"
  using cap_less_size [of cap] by (simp add: slot_of_nat)

lemma store_value:
  fixes s :: "'a cb" and v :: 'a and xs :: "'a list"
  assumes "shared_inv cap s xs C cr cw" and "length xs < cr + unat cap"
  defines "s' \<equiv> s\<lparr>mBuffer := (mBuffer s)[cb_slot cap (of_nat (length xs)) := v]\<rparr>"
  shows "shared_inv cap s' xs C cr cw" and "mBuffer s' ! (length xs mod unat (kBufferSize cap)) = v"
proof -
  note d = shared_invD [OF assms(1)]
  note b = slot_bound [OF d(1), of "length xs"]
  have other: "i mod unat (kBufferSize cap) \<noteq> length xs mod unat (kBufferSize cap)" if "C \<le> i" "i < length xs" for i
    using that d(3) assms(2) cap_less_size [OF d(1)] by (intro mod_inject_window) linarith+
  have "mBuffer s' ! (i mod unat (kBufferSize cap)) = xs ! i" if "C \<le> i" "i < length xs" for i
    using d(11) [OF that] other [OF that] by (simp add: s'_def slot_of_nat [OF d(1)])
  then show "shared_inv cap s' xs C cr cw"
    using d(1-10) by (auto simp: shared_inv_def s'_def)
  show "mBuffer s' ! (length xs mod unat (kBufferSize cap)) = v"
    using b d(2) by (simp add: s'_def slot_of_nat [OF d(1)])
qed

lemma publish_write:
  assumes "shared_inv cap s xs C cr cw" and "length xs < cr + unat cap"
    and "mBuffer s ! (length xs mod unat (kBufferSize cap)) = v"
  shows "shared_inv cap (s\<lparr>mWriteIdx := of_nat (length xs) + 1\<rparr>) (xs @ [v]) C cr cw"
proof -
  note d = shared_invD [OF assms(1)]
  have "mBuffer s ! (i mod unat (kBufferSize cap)) = (xs @ [v]) ! i" if "C \<le> i" "i < Suc (length xs)" for i
    using d(11) [of i] assms(3) that by (cases "i = length xs") (simp_all add: nth_append)
  then show ?thesis using d(1-10) assms(2) unfolding shared_inv_def by (simp add: add.commute)
qed

lemma take_value:
  assumes "shared_inv cap s xs C cr cw" and "C < length xs"
  shows "mBuffer s ! cb_slot cap (of_nat C) = xs ! C"
  using shared_invD(1,11) [OF assms(1)] assms(2) by (simp add: slot_of_nat)

lemma publish_read:
  assumes "shared_inv cap s xs C cr cw" and "C < cw"
  shows "shared_inv cap (s\<lparr>mReadIdx := of_nat C + 1\<rparr>) xs (Suc C) cr cw"
proof -
  note d = shared_invD [OF assms(1)]
  show ?thesis using d assms(2) unfolding shared_inv_def by (simp add: add.commute)
qed

section \<open>The operations in one thread\<close>

definition cb_inv :: "size_t \<Rightarrow> 'a cb \<Rightarrow> bool" where
  "cb_inv cap s \<longleftrightarrow> (\<exists>xs C cr cw. shared_inv cap s xs C cr cw)"

definition cb_contents :: "size_t \<Rightarrow> 'a cb \<Rightarrow> 'a list" where
  "cb_contents cap s = map (\<lambda>j. mBuffer s ! cb_slot cap (mReadIdx s + of_nat j)) [0..<unat (mWriteIdx s - mReadIdx s)]"

lemma cb_contents_eq:
  assumes "shared_inv cap s xs C cr cw"
  shows "cb_contents cap s = drop C xs"
proof -
  note d = shared_invD [OF assms]
  have n: "unat (mWriteIdx s - mReadIdx s) = length xs - C"
    unfolding d(7,8) using d(3-6) cap_small [of cap] by (intro unat_index_diff) linarith+
  show ?thesis
  proof (rule nth_equalityI)
    show "length (cb_contents cap s) = length (drop C xs)" by (simp add: cb_contents_def n)
    fix j
    assume "j < length (cb_contents cap s)"
    then have j: "j < length xs - C" by (simp add: cb_contents_def n)
    have "cb_slot cap (mReadIdx s + of_nat j) = (C + j) mod unat (kBufferSize cap)"
      using slot_of_nat [OF d(1), of "C + j"] by (simp add: d(8))
    then show "cb_contents cap s ! j = drop C xs ! j"
      using d(11) [of "C + j"] j by (simp add: cb_contents_def n)
  qed
qed

lemma cb_push_cases:
  assumes "shared_inv cap s xs C cr cw"
  obtains (full) "cb_push cap s v = (s\<lparr>mCachedReadIdx := mReadIdx s\<rparr>, False)" "length xs = C + unat cap"
      "shared_inv cap (s\<lparr>mCachedReadIdx := mReadIdx s\<rparr>) xs C C cw"
  | (room) s' cr' where "cb_push cap s v = (s', True)" "shared_inv cap s' (xs @ [v]) C cr' cw" "length xs < C + unat cap"
proof -
  note d = shared_invD [OF assms]
  define s1 where "s1 = s\<lparr>mCachedReadIdx := mReadIdx s\<rparr>"
  note i1 = refresh_read [OF assms, folded s1_def]
  have w: "mWriteIdx s1 = mWriteIdx s" by (simp add: s1_def)
  have put: "shared_inv cap (t\<lparr>mBuffer := (mBuffer t)[cb_slot cap (mWriteIdx t) := v], mWriteIdx := mWriteIdx t + 1\<rparr>)
      (xs @ [v]) C r cw" if "shared_inv cap t xs C r cw" "length xs < r + unat cap" for t :: "'a cb" and r
    using publish_write [OF store_value(1) [OF that, of v] that(2) store_value(2) [OF that, of v]]
    by (simp add: shared_invD(7) [OF that(1)])
  consider "length xs = cr + unat cap" "length xs = C + unat cap" | "length xs = cr + unat cap" "length xs < C + unat cap"
    | "length xs < cr + unat cap" using d(3-6) by linarith
  then show thesis
  proof cases
    case 1
    then have "cb_push cap s v = (s1, False)"
      using push_check [OF assms] push_check [OF i1] by (simp add: cb_push_def Let_def s1_def)
    with full 1 i1 show thesis by (simp add: s1_def)
  next
    case 2
    then have "cb_push cap s v = (s1\<lparr>mBuffer := (mBuffer s1)[cb_slot cap (mWriteIdx s1) := v], mWriteIdx := mWriteIdx s1 + 1\<rparr>, True)"
      using push_check [OF assms] push_check [OF i1] by (simp add: cb_push_def Let_def s1_def)
    with room put [OF i1 2(2)] 2(2) show thesis by blast
  next
    case 3
    then have "cb_push cap s v = (s\<lparr>mBuffer := (mBuffer s)[cb_slot cap (mWriteIdx s) := v], mWriteIdx := mWriteIdx s + 1\<rparr>, True)"
      using push_check [OF assms] by (simp add: cb_push_def Let_def)
    moreover have "length xs < C + unat cap" using 3 d(3) by linarith
    ultimately show thesis using room put [OF assms 3] by blast
  qed
qed

lemma cb_pop_cases:
  assumes "shared_inv cap s xs C cr cw"
  obtains (empty) s' where "cb_pop cap s = (s', None)" "C = length xs" "shared_inv cap s' xs C cr (length xs)"
  | (some) s' cw' where "cb_pop cap s = (s', Some (xs ! C))" "C < length xs" "shared_inv cap s' xs (Suc C) cr cw'"
proof -
  note d = shared_invD [OF assms]
  define s1 where "s1 = s\<lparr>mCachedWriteIdx := mWriteIdx s\<rparr>"
  note i1 = refresh_write [OF assms, folded s1_def]
  have r: "mReadIdx s1 = mReadIdx s" "mBuffer s1 = mBuffer s" by (simp_all add: s1_def)
  consider "C = cw" "C = length xs" | "C = cw" "C < length xs" | "C < cw" using d(4,5) by linarith
  then show thesis
  proof cases
    case 1
    then have "cb_pop cap s = (s1, None)"
      using pop_check [OF assms] pop_check [OF i1] by (simp add: cb_pop_def Let_def s1_def)
    with empty 1(2) i1 show thesis by blast
  next
    case 2
    then have "cb_pop cap s = (s1\<lparr>mReadIdx := of_nat C + 1\<rparr>, Some (mBuffer s ! cb_slot cap (of_nat C)))"
      using pop_check [OF assms] pop_check [OF i1] by (simp add: cb_pop_def Let_def s1_def d(8))
    with some [OF _ 2(2) publish_read [OF i1 2(2)]] take_value [OF assms 2(2)] show thesis by simp
  next
    case 3
    then have len: "C < length xs" using d(5) by linarith
    from 3 have "cb_pop cap s = (s\<lparr>mReadIdx := of_nat C + 1\<rparr>, Some (mBuffer s ! cb_slot cap (of_nat C)))"
      using pop_check [OF assms] by (simp add: cb_pop_def Let_def d(8))
    with some [OF _ len publish_read [OF assms 3]] take_value [OF assms len] show thesis by simp
  qed
qed

text \<open>The contract of a bounded queue.\<close>

definition cb_enq :: "size_t \<Rightarrow> 'a cb \<Rightarrow> 'a \<Rightarrow> 'a cb option" where
  "cb_enq cap s v = (let (s', ok) = cb_push cap s v in if ok then Some s' else None)"

definition cb_deq :: "size_t \<Rightarrow> 'a cb \<Rightarrow> ('a \<times> 'a cb) option" where
  "cb_deq cap s = (case cb_pop cap s of (s', None) \<Rightarrow> None | (s', Some v) \<Rightarrow> Some (v, s'))"


interpretation cb_fifo: bounded_fifo "cb_inv cap" "cb_contents cap" "\<lambda>_. unat cap" "cb_enq cap" "cb_deq cap"
  for cap :: size_t
proof
  fix q q' :: "'a cb" and x
  assume q: "cb_inv cap q"
  then obtain xs C cr cw where i: "shared_inv cap q xs C cr cw" by (auto simp: cb_inv_def)
  note d = shared_invD [OF i] and c = cb_contents_eq [OF i]
  show "cb_enq cap q x = None \<longleftrightarrow> unat cap \<le> length (cb_contents cap q)"
    unfolding c using d(3-6) by (cases rule: cb_push_cases [OF i, of x]) (auto simp: cb_enq_def)
  show "cb_inv cap q' \<and> unat cap = unat cap \<and> cb_contents cap q' = cb_contents cap q @ [x]"
    if "cb_enq cap q x = Some q'"
  proof (cases rule: cb_push_cases [OF i, of x])
    case 1
    with that show ?thesis by (simp add: cb_enq_def)
  next
    case (2 s' cr')
    with that have "q' = s'" by (simp add: cb_enq_def)
    with 2 cb_contents_eq [OF 2(2)] c d(4,5) show ?thesis by (auto simp: cb_inv_def)
  qed
  show "cb_deq cap q = None \<longleftrightarrow> cb_contents cap q = []"
    unfolding c by (cases rule: cb_pop_cases [OF i]) (auto simp: cb_deq_def)
  show "cb_inv cap q' \<and> unat cap = unat cap \<and> cb_contents cap q = x # cb_contents cap q'"
    if "cb_deq cap q = Some (x, q')"
  proof (cases rule: cb_pop_cases [OF i])
    case (1 s')
    with that show ?thesis by (simp add: cb_deq_def)
  next
    case (2 s' cw')
    with that have e: "q' = s'" "x = xs ! C" by (simp_all add: cb_deq_def)
    have "drop C xs = xs ! C # drop (Suc C) xs" using 2(2) by (rule Cons_nth_drop_Suc [symmetric])
    with 2(3) cb_contents_eq [OF 2(3)] c e show ?thesis by (auto simp: cb_inv_def)
  qed
qed

lemma cb_new_inv:
  assumes "cb_valid cap" and "length junk = unat (kBufferSize cap)"
  shows "shared_inv cap (cb_new junk) [] 0 0 0"
  using assms by (simp add: shared_inv_def cb_new_def)

text \<open>The remaining operations.\<close>

lemma cb_emplace_eq: "cb_emplace cap s args construct = cb_push cap s (construct args)"
  by (simp add: cb_emplace_def cb_push_def)

lemma cb_front_spec:
  assumes "cb_inv cap s"
  shows "cb_front cap s = (case cb_contents cap s of [] \<Rightarrow> None | x # xs \<Rightarrow> Some x)"
proof -
  obtain xs C cr cw where i: "shared_inv cap s xs C cr cw" using assms by (auto simp: cb_inv_def)
  note d = shared_invD [OF i]
  show ?thesis
  proof (cases "C = length xs")
    case True
    with empty_check [OF i] cb_contents_eq [OF i] show ?thesis by (simp add: cb_front_def)
  next
    case False
    then have len: "C < length xs" using d(4,5) by simp
    then have "drop C xs = xs ! C # drop (Suc C) xs" by (rule Cons_nth_drop_Suc [symmetric])
    with False empty_check [OF i] cb_contents_eq [OF i] take_value [OF i len] show ?thesis
      by (simp add: cb_front_def d(8))
  qed
qed

lemma pop_all_returns:
  "shared_inv cap s xs C cr cw \<Longrightarrow> \<exists>s' cr' cw'. pop_all cap s = Some s' \<and> shared_inv cap s' xs (length xs) cr' cw'"
proof (induction "length xs - C" arbitrary: s C cw)
  case 0
  then show ?case
    by (cases rule: cb_pop_cases [OF 0(2)]) (subst pop_all.simps, auto)+
next
  case (Suc n)
  show ?case
  proof (cases rule: cb_pop_cases [OF Suc.prems])
    case (1 s')
    with Suc(2) show ?thesis by simp
  next
    case (2 s' cw')
    have "n = length xs - Suc C" using Suc(2) by simp
    from Suc.hyps(1) [OF this 2(3)] 2(1) show ?thesis by (subst pop_all.simps) simp
  qed
qed

text \<open>\<open>clear\<close> returns, and leaves an empty buffer.\<close>

lemma cb_clear_spec:
  assumes "cb_inv cap s"
  shows "\<exists>s'. cb_clear triv cap s = Some s' \<and> cb_inv cap s' \<and> cb_contents cap s' = []"
proof -
  obtain xs C cr cw where i: "shared_inv cap s xs C cr cw" using assms by (auto simp: cb_inv_def)
  have r: "cb_inv cap (cb_reset t) \<and> cb_contents cap (cb_reset t) = []" if "shared_inv cap t ys D r w" for t :: "'a cb" and ys D r w
  proof -
    have "shared_inv cap (cb_reset t) [] 0 0 0" using that by (simp add: shared_inv_def cb_reset_def)
    from cb_contents_eq [OF this] this show ?thesis by (auto simp: cb_inv_def)
  qed
  obtain t r' w' where "pop_all cap s = Some t" "shared_inv cap t xs (length xs) r' w'"
    using pop_all_returns [OF i] by blast
  with r i show ?thesis by (auto simp: cb_clear_def cb_clearAndDestruct_def)
qed

section \<open>Interleaved threads\<close>

definition producer_inv :: "size_t \<Rightarrow> 'a cb \<Rightarrow> 'a list \<Rightarrow> nat \<Rightarrow> 'a producer \<Rightarrow> bool" where
  "producer_inv cap s xs cr p = (case p of
     P_check v w \<Rightarrow> w = of_nat (length xs) | P_refresh v w \<Rightarrow> w = of_nat (length xs)
   | P_recheck v w \<Rightarrow> w = of_nat (length xs)
   | P_store v w \<Rightarrow> w = of_nat (length xs) \<and> length xs < cr + unat cap
   | P_publish v w \<Rightarrow> w = of_nat (length xs) \<and> length xs < cr + unat cap
       \<and> mBuffer s ! (length xs mod unat (kBufferSize cap)) = v
   | _ \<Rightarrow> True)"

definition consumer_inv :: "'a list \<Rightarrow> nat \<Rightarrow> nat \<Rightarrow> 'a consumer \<Rightarrow> bool" where
  "consumer_inv xs C cw c = (case c of
     C_check r \<Rightarrow> r = of_nat C | C_refresh r \<Rightarrow> r = of_nat C | C_recheck r \<Rightarrow> r = of_nat C
   | C_take r \<Rightarrow> r = of_nat C \<and> C < cw
   | C_publish r v \<Rightarrow> r = of_nat C \<and> C < cw \<and> v = xs ! C
   | C_done (Some v) \<Rightarrow> 0 < C \<and> v = xs ! (C - 1)
   | F_compare r \<Rightarrow> r = of_nat C
   | F_read r \<Rightarrow> r = of_nat C \<and> C < length xs
   | F_done (Some v) \<Rightarrow> C < length xs \<and> v = xs ! C
   | _ \<Rightarrow> True)"

lemma producer_step_inv:
  assumes "shared_inv cap s xs C cr cw" and "producer_inv cap s xs cr p" and "producer_step cap s p = (s', p')"
  shows "\<exists>cr'. shared_inv cap s' (xs @ (case p of P_publish v w \<Rightarrow> [v] | _ \<Rightarrow> [])) C cr' cw
    \<and> producer_inv cap s' (xs @ (case p of P_publish v w \<Rightarrow> [v] | _ \<Rightarrow> [])) cr' p'"
proof -
  note d = shared_invD [OF assms(1)] and chk = push_check [OF assms(1)]
  show ?thesis
  proof (cases p)
    case (P_check v w)
    with assms chk d(6,7) show ?thesis by (intro exI [of _ cr]) (auto simp: producer_inv_def)
  next
    case (P_refresh v w)
    with assms refresh_read [OF assms(1)] show ?thesis by (intro exI [of _ C]) (auto simp: producer_inv_def)
  next
    case (P_recheck v w)
    with assms chk d(6,7) show ?thesis by (intro exI [of _ cr]) (auto simp: producer_inv_def)
  next
    case (P_store v w)
    with assms(2) have w: "w = of_nat (length xs)" "length xs < cr + unat cap" by (simp_all add: producer_inv_def)
    from store_value [OF assms(1) w(2), of v] P_store assms(3) w show ?thesis
      by (intro exI [of _ cr]) (auto simp: producer_inv_def)
  next
    case (P_publish v w)
    with assms(2) have w: "w = of_nat (length xs)" "length xs < cr + unat cap"
      "mBuffer s ! (length xs mod unat (kBufferSize cap)) = v" by (simp_all add: producer_inv_def)
    from publish_write [OF assms(1) w(2,3)] P_publish assms(3) w(1) show ?thesis
      by (intro exI [of _ cr]) (auto simp: producer_inv_def)
  qed (use assms d(7) in \<open>auto simp: producer_inv_def\<close>)
qed

lemma consumer_step_inv:
  assumes "shared_inv cap s xs C cr cw" and "consumer_inv xs C cw c" and "consumer_step cap s c = (s', c')"
  shows "\<exists>cw'. shared_inv cap s' xs (C + length (case c of C_publish r v \<Rightarrow> [v] | _ \<Rightarrow> [])) cr cw'
    \<and> consumer_inv xs (C + length (case c of C_publish r v \<Rightarrow> [v] | _ \<Rightarrow> [])) cw' c'
    \<and> mBuffer s' = mBuffer s"
proof -
  note d = shared_invD [OF assms(1)] and chk = pop_check [OF assms(1)]
  show ?thesis
  proof (cases c)
    case (C_check r)
    with assms chk d(4,8) show ?thesis by (intro exI [of _ cw]) (auto simp: consumer_inv_def)
  next
    case (C_refresh r)
    with assms refresh_write [OF assms(1)] show ?thesis
      by (intro exI [of _ "length xs"]) (auto simp: consumer_inv_def)
  next
    case (C_recheck r)
    with assms chk d(4,8) show ?thesis by (intro exI [of _ cw]) (auto simp: consumer_inv_def)
  next
    case (C_take r)
    with assms take_value [OF assms(1)] d(5) show ?thesis
      by (intro exI [of _ cw]) (auto simp: consumer_inv_def)
  next
    case (C_publish r v)
    with assms(2) have r: "r = of_nat C" "C < cw" "v = xs ! C" by (simp_all add: consumer_inv_def)
    from publish_read [OF assms(1) r(2)] C_publish assms(3) r show ?thesis
      by (intro exI [of _ cw]) (auto simp: consumer_inv_def)
  next
    case (F_compare r)
    with assms empty_check [OF assms(1)] d(4,5,8) show ?thesis
      by (intro exI [of _ cw]) (auto simp: consumer_inv_def)
  next
    case (F_read r)
    with assms take_value [OF assms(1)] show ?thesis
      by (intro exI [of _ cw]) (auto simp: consumer_inv_def)
  next
    case (C_done v)
    with assms show ?thesis by (intro exI [of _ cw]) auto
  next
    case (F_done v)
    with assms show ?thesis by (intro exI [of _ cw]) auto
  qed (use assms d(8) in \<open>auto simp: consumer_inv_def\<close>)
qed

text \<open>A step of one thread keeps what the other thread knows.\<close>

lemma producer_inv_frame:
  assumes "producer_inv cap s xs cr p" and "mBuffer s' = mBuffer s"
  shows "producer_inv cap s' xs cr p"
  using assms by (auto simp: producer_inv_def split: producer.splits)

lemma consumer_inv_frame:
  assumes "consumer_inv xs C cw c" and "C \<le> length xs" and "cw \<le> length xs"
  shows "consumer_inv (xs @ ys) C cw c"
  using assms by (auto simp: consumer_inv_def nth_append split: consumer.splits option.splits)

definition spsc_inv :: "size_t \<Rightarrow> 'a spsc \<Rightarrow> bool" where
  "spsc_inv cap m \<longleftrightarrow> (\<exists>cr cw. shared_inv cap (buf m) (pushed m) (length (popped m)) cr cw
     \<and> producer_inv cap (buf m) (pushed m) cr (prod_at m)
     \<and> consumer_inv (pushed m) (length (popped m)) cw (cons_at m)
     \<and> popped m = take (length (popped m)) (pushed m))"

lemma spsc_init_inv:
  assumes "cb_valid cap" and "length junk = unat (kBufferSize cap)"
  shows "spsc_inv cap (spsc_init junk)"
  using cb_new_inv [OF assms] unfolding spsc_inv_def
  by (intro exI [of _ 0]) (simp add: spsc_init_def producer_inv_def consumer_inv_def)

lemma spsc_act_inv:
  assumes "spsc_inv cap m"
  shows "spsc_inv cap (spsc_act cap m a)"
proof -
  obtain cr cw where i: "shared_inv cap (buf m) (pushed m) (length (popped m)) cr cw"
    and p: "producer_inv cap (buf m) (pushed m) cr (prod_at m)"
    and c: "consumer_inv (pushed m) (length (popped m)) cw (cons_at m)"
    and pp: "popped m = take (length (popped m)) (pushed m)"
    using assms unfolding spsc_inv_def by blast
  note d = shared_invD [OF i]
  show ?thesis
  proof (cases a)
    case (Call_push v)
    with i c pp p show ?thesis unfolding spsc_inv_def
      by (intro exI [of _ cr] exI [of _ cw]) (auto simp: producer_inv_def)
  next
    case Call_pop
    with i c pp p show ?thesis unfolding spsc_inv_def
      by (intro exI [of _ cr] exI [of _ cw]) (auto simp: consumer_inv_def)
  next
    case Call_front
    with i c pp p show ?thesis unfolding spsc_inv_def
      by (intro exI [of _ cr] exI [of _ cw]) (auto simp: consumer_inv_def)
  next
    case Run_producer
    obtain s' p' where st: "producer_step cap (buf m) (prod_at m) = (s', p')" by fastforce
    define new where "new = (case prod_at m of P_publish v write \<Rightarrow> [v] | _ \<Rightarrow> [])"
    obtain cr' where r: "shared_inv cap s' (pushed m @ new) (length (popped m)) cr' cw"
      "producer_inv cap s' (pushed m @ new) cr' p'"
      using producer_step_inv [OF i p st] unfolding new_def by blast
    have c': "consumer_inv (pushed m @ new) (length (popped m)) cw (cons_at m)"
      using c d(4,5) by (intro consumer_inv_frame) simp_all
    have pp': "popped m = take (length (popped m)) (pushed m @ new)" using pp d(4,5) by simp
    have "spsc_act cap m Run_producer = m\<lparr>buf := s', prod_at := p', pushed := pushed m @ new\<rparr>"
      by (simp add: st new_def)
    with Run_producer r c' pp' show ?thesis unfolding spsc_inv_def
      by (intro exI [of _ cr'] exI [of _ cw]) simp
  next
    case Run_consumer
    obtain s' c' where st: "consumer_step cap (buf m) (cons_at m) = (s', c')" by fastforce
    define new where "new = (case cons_at m of C_publish r v \<Rightarrow> [v] | _ \<Rightarrow> [])"
    obtain cw' where r: "shared_inv cap s' (pushed m) (length (popped m) + length new) cr cw'"
      "consumer_inv (pushed m) (length (popped m) + length new) cw' c'" "mBuffer s' = mBuffer (buf m)"
      using consumer_step_inv [OF i c st] unfolding new_def by blast
    have p': "producer_inv cap s' (pushed m) cr (prod_at m)" by (rule producer_inv_frame [OF p r(3)])
    have pp': "popped m @ new = take (length (popped m) + length new) (pushed m)"
    proof (cases "cons_at m")
      case (C_publish r v)
      then have "v = pushed m ! length (popped m)" "length (popped m) < length (pushed m)"
        using c d(5) by (simp_all add: consumer_inv_def)
      with C_publish pp show ?thesis by (simp add: new_def take_Suc_conv_app_nth)
    qed (use pp in \<open>simp_all add: new_def\<close>)
    have "spsc_act cap m Run_consumer = m\<lparr>buf := s', cons_at := c', popped := popped m @ new\<rparr>"
      by (simp add: st new_def)
    with Run_consumer show ?thesis unfolding spsc_inv_def
      by (intro exI [of _ cr] exI [of _ cw']) (simp add: r p' pp' [symmetric])
  qed
qed

lemma spsc_reachable_inv:
  assumes "cb_valid cap"
  shows "spsc_reachable cap m \<Longrightarrow> spsc_inv cap m"
  by (induction rule: spsc_reachable.induct) (simp_all add: spsc_init_inv [OF assms] spsc_act_inv)

end
