(* ===== verification/CircularBuffer_Threads.thy ===== *)
theory CircularBuffer_Threads
  imports CircularBuffer_SPSC
begin

text \<open>
  Runs of the two threads of a \<open>CircularBuffer\<close>, observers in a third thread, and the properties.
\<close>

section \<open>Runs\<close>

lemma spsc_run_reachable: "spsc_reachable cap m \<Longrightarrow> spsc_reachable cap (spsc_run cap m as)"
  by (induction as arbitrary: m) (simp_all add: spsc_run_def spsc_reachable.act)

lemma spsc_run_append: "spsc_run cap m (as @ bs) = spsc_run cap (spsc_run cap m as) bs"
  by (simp add: spsc_run_def)

lemma spsc_act_grows:
  "\<exists>ys zs. pushed (spsc_act cap m a) = pushed m @ ys \<and> popped (spsc_act cap m a) = popped m @ zs"
  by (cases a) (auto split: prod.splits)

lemma spsc_run_grows:
  "length (pushed m) \<le> length (pushed (spsc_run cap m as)) \<and> length (popped m) \<le> length (popped (spsc_run cap m as))"
proof (induction as arbitrary: m)
  case (Cons a as)
  obtain ys zs where "pushed (spsc_act cap m a) = pushed m @ ys" "popped (spsc_act cap m a) = popped m @ zs"
    using spsc_act_grows [of cap m a] by blast
  with Cons [of "spsc_act cap m a"] show ?case by (simp add: spsc_run_def)
qed (simp add: spsc_run_def)

lemma spsc_inv_held:
  assumes "spsc_inv cap m"
  shows "held m \<le> unat cap" and "length (popped m) \<le> length (pushed m)"
    and "mWriteIdx (buf m) = of_nat (length (pushed m))" and "mReadIdx (buf m) = of_nat (length (popped m))"
    and "popped m = take (length (popped m)) (pushed m)"
proof -
  obtain cr cw where i: "shared_inv cap (buf m) (pushed m) (length (popped m)) cr cw"
    and pp: "popped m = take (length (popped m)) (pushed m)"
    using assms unfolding spsc_inv_def by blast
  note d = shared_invD [OF i]
  show "held m \<le> unat cap" using d(3-6) by (simp add: held_def)
  show "length (popped m) \<le> length (pushed m)" using d(4,5) by simp
  show "mWriteIdx (buf m) = of_nat (length (pushed m))" "mReadIdx (buf m) = of_nat (length (popped m))"
    by (rule d)+
  show "popped m = take (length (popped m)) (pushed m)" by (rule pp)
qed

text \<open>A refresh of a cache decides the call by the true contents of the buffer.\<close>

lemma refresh_decides:
  assumes "spsc_inv cap m"
  shows "prod_at m = P_refresh v w \<Longrightarrow>
      prod_at (spsc_run cap m [Run_producer, Run_producer]) = (if held m = unat cap then P_done False else P_store v w)"
    and "cons_at m = C_refresh r \<Longrightarrow>
      cons_at (spsc_run cap m [Run_consumer, Run_consumer]) = (if held m = 0 then C_done None else C_take r)"
proof -
  obtain cr cw where i: "shared_inv cap (buf m) (pushed m) (length (popped m)) cr cw"
    and p: "producer_inv cap (buf m) (pushed m) cr (prod_at m)"
    and c: "consumer_inv (pushed m) (length (popped m)) cw (cons_at m)"
    using assms unfolding spsc_inv_def by blast
  note d = shared_invD [OF i]
  show "prod_at (spsc_run cap m [Run_producer, Run_producer]) = (if held m = unat cap then P_done False else P_store v w)"
    if at: "prod_at m = P_refresh v w"
  proof -
    have w: "w = mWriteIdx (buf m)" using p at d(7) by (simp add: producer_inv_def)
    have "mWriteIdx (buf m) - mReadIdx (buf m) \<ge> cap \<longleftrightarrow> length (pushed m) = length (popped m) + unat cap"
      using push_check [OF refresh_read [OF i]] by simp
    moreover have "held m = unat cap \<longleftrightarrow> length (pushed m) = length (popped m) + unat cap"
      using d(3-6) by (auto simp: held_def)
    ultimately show ?thesis using at w by (simp add: spsc_run_def)
  qed
  show "cons_at (spsc_run cap m [Run_consumer, Run_consumer]) = (if held m = 0 then C_done None else C_take r)"
    if at: "cons_at m = C_refresh r"
  proof -
    have r: "r = mReadIdx (buf m)" using c at d(8) by (simp add: consumer_inv_def)
    have "held m = 0 \<longleftrightarrow> length (popped m) = length (pushed m)" using d(4,5) by (auto simp: held_def)
    then show ?thesis using at r empty_check [OF i] by (simp add: spsc_run_def)
  qed
qed

text \<open>The producer writes a slot that the consumer is not reading.\<close>

lemma slots_apart:
  assumes "spsc_inv cap m" and "prod_at m = P_store v w" and "cons_at m \<in> {C_take r, F_read r}"
  shows "cb_slot cap w \<noteq> cb_slot cap r"
proof -
  obtain cr cw where i: "shared_inv cap (buf m) (pushed m) (length (popped m)) cr cw"
    and p: "producer_inv cap (buf m) (pushed m) cr (prod_at m)"
    and c: "consumer_inv (pushed m) (length (popped m)) cw (cons_at m)"
    using assms(1) unfolding spsc_inv_def by blast
  note d = shared_invD [OF i]
  have w: "w = of_nat (length (pushed m))" "length (pushed m) < cr + unat cap"
    using p assms(2) by (simp_all add: producer_inv_def)
  have r: "r = of_nat (length (popped m))" "length (popped m) < length (pushed m)"
    using c assms(3) d(5) by (auto simp: consumer_inv_def)
  have "length (pushed m) - length (popped m) < unat (kBufferSize cap)"
    using d(3) w(2) cap_less_size [OF d(1)] by linarith
  from mod_inject_window [OF r(2) this] show ?thesis unfolding w r slot_of_nat [OF d(1)] by simp
qed

text \<open>How many of its own steps a thread has left in a call.\<close>

fun producer_left :: "'a producer \<Rightarrow> nat" where
  "producer_left (P_load v) = 6"
| "producer_left (P_check v w) = 5"
| "producer_left (P_refresh v w) = 4"
| "producer_left (P_recheck v w) = 3"
| "producer_left (P_store v w) = 2"
| "producer_left (P_publish v w) = 1"
| "producer_left p = 0"

fun consumer_left :: "'a consumer \<Rightarrow> nat" where
  "consumer_left C_load = 6"
| "consumer_left (C_check r) = 5"
| "consumer_left (C_refresh r) = 4"
| "consumer_left (C_recheck r) = 3"
| "consumer_left (C_take r) = 2"
| "consumer_left (C_publish r v) = 1"
| "consumer_left F_load = 3"
| "consumer_left (F_compare r) = 2"
| "consumer_left (F_read r) = 1"
| "consumer_left c = 0"

lemma producer_free_iff: "producer_free p \<longleftrightarrow> producer_left p = 0"
  by (cases p) (simp_all add: producer_free_def)

lemma consumer_free_iff: "consumer_free c \<longleftrightarrow> consumer_left c = 0"
  by (cases c) (simp_all add: consumer_free_def)

lemma producer_step_left: "producer_step cap s p = (s', p') \<Longrightarrow> producer_left p' \<le> producer_left p - 1"
  by (cases p) (auto split: if_splits)

lemma consumer_step_left: "consumer_step cap s c = (s', c') \<Longrightarrow> consumer_left c' \<le> consumer_left c - 1"
  by (cases c) (auto split: if_splits)

lemma spsc_act_left:
  "producer_left (prod_at m) \<noteq> 0 \<Longrightarrow>
     producer_left (prod_at (spsc_act cap m a)) \<le> producer_left (prod_at m) - (if a = Run_producer then 1 else 0)"
  "consumer_left (cons_at m) \<noteq> 0 \<Longrightarrow>
     consumer_left (cons_at (spsc_act cap m a)) \<le> consumer_left (cons_at m) - (if a = Run_consumer then 1 else 0)"
  by (cases a; auto simp: producer_free_iff consumer_free_iff split: prod.splits dest: producer_step_left consumer_step_left)+

lemma producer_returns:
  "producer_left (prod_at m) \<le> count_list as Run_producer \<Longrightarrow>
   \<exists>n\<le>length as. producer_free (prod_at (spsc_run cap m (take n as)))"
proof (induction as arbitrary: m)
  case Nil
  then show ?case by (simp add: producer_free_iff spsc_run_def)
next
  case (Cons a as)
  show ?case
  proof (cases "producer_left (prod_at m) = 0")
    case True
    then show ?thesis by (intro exI [of _ 0]) (simp add: producer_free_iff spsc_run_def)
  next
    case False
    then have "producer_left (prod_at (spsc_act cap m a)) \<le> count_list as Run_producer"
      using spsc_act_left(1) [OF False, of cap a] Cons.prems by (auto split: if_splits)
    from Cons.IH [OF this] obtain n where "n \<le> length as"
      "producer_free (prod_at (spsc_run cap (spsc_act cap m a) (take n as)))" by blast
    then show ?thesis by (intro exI [of _ "Suc n"]) (simp add: spsc_run_def)
  qed
qed

lemma consumer_returns:
  "consumer_left (cons_at m) \<le> count_list as Run_consumer \<Longrightarrow>
   \<exists>n\<le>length as. consumer_free (cons_at (spsc_run cap m (take n as)))"
proof (induction as arbitrary: m)
  case Nil
  then show ?case by (simp add: consumer_free_iff spsc_run_def)
next
  case (Cons a as)
  show ?case
  proof (cases "consumer_left (cons_at m) = 0")
    case True
    then show ?thesis by (intro exI [of _ 0]) (simp add: consumer_free_iff spsc_run_def)
  next
    case False
    then have "consumer_left (cons_at (spsc_act cap m a)) \<le> count_list as Run_consumer"
      using spsc_act_left(2) [OF False, of cap a] Cons.prems by (auto split: if_splits)
    from Cons.IH [OF this] obtain n where "n \<le> length as"
      "consumer_free (cons_at (spsc_run cap (spsc_act cap m a) (take n as)))" by blast
    then show ?thesis by (intro exI [of _ "Suc n"]) (simp add: spsc_run_def)
  qed
qed

lemma cb_size_unfold:
  "cb_size cap st =
    (if mWriteIdx (st 0) = mWriteIdx (st 2) then mWriteIdx (st 0) - mReadIdx (st 1)
     else if mReadIdx (st 3) = mReadIdx (st 5) then mWriteIdx (st 4) - mReadIdx (st 3)
     else if mWriteIdx (st 6) = mWriteIdx (st 8) then mWriteIdx (st 6) - mReadIdx (st 7)
     else if mReadIdx (st 9) = mReadIdx (st 11) then mWriteIdx (st 10) - mReadIdx (st 9)
     else if mWriteIdx (st 13) - mReadIdx (st 12) \<le> cap then mWriteIdx (st 13) - mReadIdx (st 12) else cap)"
proof -
  let ?W = "\<lambda>k. mWriteIdx (st k)" and ?R = "\<lambda>k. mReadIdx (st k)"
  have even_step: "size_attempts m cap st a = (if ?W i = ?W k then ?W i - ?R j else size_attempts n cap st b)"
    if "even a" "m = Suc n" "i = 3 * a" "j = 3 * a + 1" "k = 3 * a + 2" "b = a + 1" for n m a b i j k
    using that by simp
  have odd_step: "size_attempts m cap st a = (if ?R i = ?R k then ?W j - ?R i else size_attempts n cap st b)"
    if "odd a" "m = Suc n" "i = 3 * a" "j = 3 * a + 1" "k = 3 * a + 2" "b = a + 1" for n m a b i j k
    using that by simp
  have "size_attempts 4 cap st 0 = (if ?W 0 = ?W 2 then ?W 0 - ?R 1 else size_attempts 3 cap st 1)"
    by (rule even_step) simp_all
  also have "size_attempts 3 cap st 1 = (if ?R 3 = ?R 5 then ?W 4 - ?R 3 else size_attempts 2 cap st 2)"
    by (rule odd_step) simp_all
  also have "size_attempts 2 cap st 2 = (if ?W 6 = ?W 8 then ?W 6 - ?R 7 else size_attempts 1 cap st 3)"
    by (rule even_step) simp_all
  also have "size_attempts 1 cap st 3 = (if ?R 9 = ?R 11 then ?W 10 - ?R 9 else size_attempts 0 cap st 4)"
    by (rule odd_step) simp_all
  also have "size_attempts 0 cap st 4 = (if ?W 13 - ?R 12 \<le> cap then ?W 13 - ?R 12 else cap)"
    by (simp add: Let_def)
  finally show ?thesis unfolding cb_size_def .
qed

text \<open>An observer that sees the states \<open>st 0, st 1, ...\<close> of a run.\<close>

definition observes :: "size_t \<Rightarrow> (nat \<Rightarrow> 'a spsc) \<Rightarrow> (nat \<Rightarrow> 'a action list) \<Rightarrow> bool" where
  "observes cap st acts \<longleftrightarrow> spsc_reachable cap (st 0) \<and> (\<forall>k. st (Suc k) = spsc_run cap (st k) (acts k))"

lemma observes_facts:
  assumes "cb_valid cap" and "observes cap st acts"
  shows "spsc_inv cap (st k)" and "i \<le> j \<Longrightarrow> length (pushed (st i)) \<le> length (pushed (st j))"
    and "i \<le> j \<Longrightarrow> length (popped (st i)) \<le> length (popped (st j))"
proof -
  have step: "st (Suc k) = spsc_run cap (st k) (acts k)" for k using assms(2) by (simp add: observes_def)
  have "spsc_reachable cap (st k)" for k
    by (induction k) (use assms(2) in \<open>simp_all add: observes_def spsc_run_reachable\<close>)
  then show "spsc_inv cap (st k)" by (rule spsc_reachable_inv [OF assms(1)])
  have g: "length (pushed (st k)) \<le> length (pushed (st (Suc k))) \<and> length (popped (st k)) \<le> length (popped (st (Suc k)))" for k
    unfolding step by (rule spsc_run_grows)
  show "i \<le> j \<Longrightarrow> length (pushed (st i)) \<le> length (pushed (st j))"
    by (rule lift_Suc_mono_le [of "\<lambda>k. length (pushed (st k))"]) (use g in blast)+
  show "i \<le> j \<Longrightarrow> length (popped (st i)) \<le> length (popped (st j))"
    by (rule lift_Suc_mono_le [of "\<lambda>k. length (popped (st k))"]) (use g in blast)+
qed

text \<open>Two loads of the indices, the write index not before the read index.\<close>

lemma observed_distance:
  assumes "cb_valid cap" and "observes cap st acts" and "j \<le> i" and "i \<le> 13"
    and "length (pushed (st 13)) - length (popped (st 0)) < 2 ^ 64"
  shows "unat (mWriteIdx (buf (st i)) - mReadIdx (buf (st j))) = length (pushed (st i)) - length (popped (st j))"
proof -
  note o = observes_facts [OF assms(1,2)] and h = spsc_inv_held [OF observes_facts(1) [OF assms(1,2)]]
  have "length (popped (st j)) \<le> length (pushed (st i))" using o(3) [OF assms(3)] h(2) [of i] by linarith
  moreover have "length (pushed (st i)) - length (popped (st j)) < 2 ^ 64"
    using o(2) [OF assms(4)] o(3) [of 0 j] assms(5) by linarith
  ultimately show ?thesis unfolding h(3,4) by (rule unat_index_diff)
qed

text \<open>An index that has not changed between two loads was the same in between.\<close>

lemma observed_stable:
  assumes "cb_valid cap" and "observes cap st acts" and "i \<le> j" and "j \<le> k" and "k \<le> 13"
    and "length (pushed (st 13)) - length (popped (st 0)) < 2 ^ 64"
  shows "mWriteIdx (buf (st i)) = mWriteIdx (buf (st k)) \<Longrightarrow> length (pushed (st j)) = length (pushed (st i))"
    and "mReadIdx (buf (st i)) = mReadIdx (buf (st k)) \<Longrightarrow> length (popped (st j)) = length (popped (st i))"
proof -
  note o = observes_facts [OF assms(1,2)] and h = spsc_inv_held [OF observes_facts(1) [OF assms(1,2)]]
  have ik: "i \<le> k" using assms(3,4) by simp
  note m = o(2) [OF ik] o(3) [OF ik] o(2) [OF assms(3)] o(2) [OF assms(4)] o(3) [OF assms(3)] o(3) [OF assms(4)]
    o(2) [OF assms(5)] o(3) [of 0 i] h(2) [of i] h(2) [of k]
  have w: "length (pushed (st k)) - length (pushed (st i)) < 2 ^ 64" using m assms(6) by linarith
  have r: "length (popped (st k)) - length (popped (st i)) < 2 ^ 64" using m assms(6) by linarith
  show "length (pushed (st j)) = length (pushed (st i))" if "mWriteIdx (buf (st i)) = mWriteIdx (buf (st k))"
    using that m index_eq_iff [OF m(1) w] unfolding h(3) by linarith
  show "length (popped (st j)) = length (popped (st i))" if "mReadIdx (buf (st i)) = mReadIdx (buf (st k))"
    using that m index_eq_iff [OF m(2) r] unfolding h(4) by linarith
qed

lemma size_attempt:
  assumes "cb_valid cap" and "observes cap st acts" and "i \<le> 11"
    and "length (pushed (st 13)) - length (popped (st 0)) < 2 ^ 64"
  shows "mWriteIdx (buf (st i)) = mWriteIdx (buf (st (i + 2))) \<Longrightarrow>
      unat (mWriteIdx (buf (st i)) - mReadIdx (buf (st (i + 1)))) = held (st (i + 1))"
    and "mReadIdx (buf (st i)) = mReadIdx (buf (st (i + 2))) \<Longrightarrow>
      unat (mWriteIdx (buf (st (i + 1))) - mReadIdx (buf (st i))) = held (st (i + 1))"
proof -
  note h = spsc_inv_held [OF observes_facts(1) [OF assms(1,2)]]
  have b: "i \<le> i + 1" "i + 1 \<le> i + 2" "i + 2 \<le> 13" "i + 1 \<le> 13" using assms(3) by simp_all
  note s = observed_stable [OF assms(1,2) b(1-3) assms(4)]
  note e = observed_distance [OF assms(1,2) order_refl b(4) assms(4)]
  note e' = observed_distance [OF assms(1,2) b(1) b(4) assms(4)]
  show "unat (mWriteIdx (buf (st i)) - mReadIdx (buf (st (i + 1)))) = held (st (i + 1))"
    if "mWriteIdx (buf (st i)) = mWriteIdx (buf (st (i + 2)))"
  proof -
    have "mWriteIdx (buf (st i)) = mWriteIdx (buf (st (i + 1)))" unfolding h(3) s(1) [OF that] ..
    then show ?thesis using e by (simp only: held_def)
  qed
  show "unat (mWriteIdx (buf (st (i + 1))) - mReadIdx (buf (st i))) = held (st (i + 1))"
    if "mReadIdx (buf (st i)) = mReadIdx (buf (st (i + 2)))"
    unfolding e' held_def s(2) [OF that] ..
qed

section \<open>Properties\<close>


text \<open>C17: \<open>push\<close>, \<open>pop\<close> and \<open>front\<close> are wait-free: in any schedule in which a thread that has just
  made a call gets enough steps of its own (six, or three for \<open>front\<close>) the call returns, whatever
  the other thread does in between.\<close>

theorem circular_buffer_wait_free:
  "(prod_at m = P_load v \<and> 6 \<le> count_list as Run_producer
      \<longrightarrow> (\<exists>n\<le>length as. producer_free (prod_at (spsc_run cap m (take n as)))))
   \<and> (cons_at m = C_load \<and> 6 \<le> count_list as Run_consumer
      \<longrightarrow> (\<exists>n\<le>length as. consumer_free (cons_at (spsc_run cap m (take n as)))))
   \<and> (cons_at m = F_load \<and> 3 \<le> count_list as Run_consumer
      \<longrightarrow> (\<exists>n\<le>length as. consumer_free (cons_at (spsc_run cap m (take n as)))))"
  using producer_returns [of m as cap] consumer_returns [of m as cap] by auto

text \<open>\<open>size\<close>, called from any thread while the two others run, stays within the capacity.  When
  one of its four attempts sees no change it returns the number of elements at the moment of its
  middle load, otherwise the distance of the last two loads cut off at the capacity.  (The indices
  must not run through all their values during the call.)\<close>

theorem circular_buffer_size_bounded:
  assumes "cb_valid cap" and "observes cap st acts"
    and "length (pushed (st 13)) - length (popped (st 0)) < 2 ^ 64"
  shows "unat (cb_size cap (\<lambda>k. buf (st k))) \<le> unat cap
    \<and> ((\<exists>k<14. unat (cb_size cap (\<lambda>k. buf (st k))) = held (st k))
       \<or> unat (cb_size cap (\<lambda>k. buf (st k))) = min (unat cap) (length (pushed (st 13)) - length (popped (st 12))))"
  (is "unat ?size \<le> _ \<and> (?found \<or> ?none)")
proof -
  note u = cb_size_unfold [of cap "\<lambda>k. buf (st k)"]
  note a = size_attempt [OF assms(1,2) _ assms(3)]
  have ev: "\<exists>k<14. unat (mWriteIdx (buf (st i)) - mReadIdx (buf (st j))) = held (st k)"
    if "mWriteIdx (buf (st i)) = mWriteIdx (buf (st k))" "i \<le> 11" "j = i + 1" "k = i + 2" for i j k
    using a(1) [of i] that by (intro exI [of _ j]) simp
  have od: "\<exists>k<14. unat (mWriteIdx (buf (st j)) - mReadIdx (buf (st i))) = held (st k)"
    if "mReadIdx (buf (st i)) = mReadIdx (buf (st k))" "i \<le> 11" "j = i + 1" "k = i + 2" for i j k
    using a(2) [of i] that by (intro exI [of _ j]) simp
  have last: "unat (if mWriteIdx (buf (st 13)) - mReadIdx (buf (st 12)) \<le> cap
      then mWriteIdx (buf (st 13)) - mReadIdx (buf (st 12)) else cap)
      = min (unat cap) (length (pushed (st 13)) - length (popped (st 12)))"
    using observed_distance [OF assms(1,2), of 12 13] assms(3) by (simp add: word_le_nat_alt)
  have "?found \<or> ?none"
  proof (cases "mWriteIdx (buf (st 0)) = mWriteIdx (buf (st 2))")
    case True
    then show ?thesis unfolding u if_P [OF True] by (intro disjI1 ev [where i = 0 and j = 1 and k = 2]) simp_all
  next
    case n1: False
    note u1 = u [unfolded if_not_P [OF n1]]
    show ?thesis
    proof (cases "mReadIdx (buf (st 3)) = mReadIdx (buf (st 5))")
      case True
      then show ?thesis unfolding u1 if_P [OF True] by (intro disjI1 od [where i = 3 and j = 4 and k = 5]) simp_all
    next
      case n2: False
      note u2 = u1 [unfolded if_not_P [OF n2]]
      show ?thesis
      proof (cases "mWriteIdx (buf (st 6)) = mWriteIdx (buf (st 8))")
        case True
        then show ?thesis unfolding u2 if_P [OF True] by (intro disjI1 ev [where i = 6 and j = 7 and k = 8]) simp_all
      next
        case n3: False
        note u3 = u2 [unfolded if_not_P [OF n3]]
        show ?thesis
        proof (cases "mReadIdx (buf (st 9)) = mReadIdx (buf (st 11))")
          case True
          then show ?thesis unfolding u3 if_P [OF True] by (intro disjI1 od [where i = 9 and j = 10 and k = 11]) simp_all
        next
          case False
          show ?thesis unfolding u3 if_not_P [OF False] last by blast
        qed
      qed
    qed
  qed
  moreover have "held (st k) \<le> unat cap" for k
    by (rule spsc_inv_held(1) [OF observes_facts(1) [OF assms(1,2)]])
  ultimately show ?thesis by (metis min.cobounded1)
qed

text \<open>C18: \<open>full\<close> may return true although the buffer was never full: it loads the write index before
  the read index, so an element pushed and popped between the two loads makes their difference
  wrap around.  The run below starts with an empty buffer, which never holds more than one
  element.\<close>

theorem circular_buffer_full_spurious:
  assumes "cb_valid cap" and "1 < cap"
  shows "\<exists>as. (\<forall>n. held (spsc_run cap (spsc_init junk) (take n as)) \<le> 1)
    \<and> cb_full cap (\<lambda>k. buf (if k = 0 then spsc_init junk else spsc_run cap (spsc_init junk) as))"
proof -
  let ?as = "[Call_push undefined, Run_producer, Run_producer, Run_producer, Run_producer,
    Call_pop, Run_consumer, Run_consumer, Run_consumer, Run_consumer, Run_consumer, Run_consumer]"
  let ?m = "spsc_run cap (spsc_init junk)"
  have pos: "\<not> cap \<le> 0" using assms(2) by (metis word_le_0_iff word_less_nat_alt word_not_simps(1))
  have run: "mReadIdx (buf (?m ?as)) = 1" "length (pushed (?m ?as)) = 1"
    using pos by (simp_all add: spsc_run_def spsc_init_def cb_new_def producer_free_def consumer_free_def Let_def)
  have "held (?m (take n ?as)) \<le> 1" for n
  proof -
    have "?m ?as = spsc_run cap (?m (take n ?as)) (drop n ?as)"
      unfolding spsc_run_append [symmetric] append_take_drop_id ..
    then have "length (pushed (?m (take n ?as))) \<le> 1"
      using spsc_run_grows [of "?m (take n ?as)" cap "drop n ?as"] run(2) by metis
    then show ?thesis by (simp add: held_def)
  qed
  moreover have "cb_full cap (\<lambda>k. buf (if k = 0 then spsc_init junk else ?m ?as))"
    using run(1) by (simp add: cb_full_def spsc_init_def cb_new_def)
  ultimately show ?thesis by blast
qed

text \<open>In one thread, with room for all of them, the values pushed come out of \<open>pop\<close> in the order
  they went in, and the buffer is empty again; \<open>clear\<close> always returns and empties the buffer.\<close>

theorem circular_buffer_sequential:
  assumes "cb_inv cap s" and "cb_contents cap s = []" and "length xs \<le> unat cap"
  shows "(\<exists>s1 s2. cb_fifo.enq_all cap s xs = Some s1 \<and> cb_fifo.deq_n cap (length xs) s1 = Some (xs, s2)
      \<and> cb_contents cap s2 = [] \<and> cb_front cap s2 = None)
    \<and> (\<exists>s'. cb_clear triv cap s = Some s' \<and> cb_contents cap s' = [])"
proof -
  obtain s1 s2 where r: "cb_fifo.enq_all cap s xs = Some s1" "cb_fifo.deq_n cap (length xs) s1 = Some (xs, s2)"
      "cb_contents cap s2 = []" "cb_inv cap s2"
  proof -
    obtain s1 where s1: "cb_fifo.enq_all cap s xs = Some s1" "cb_inv cap s1" "cb_contents cap s1 = xs"
      using cb_fifo.enq_all_contents [OF assms(1), of xs] assms(2,3) by auto
    with cb_fifo.deq_n_contents [OF s1(2), of "length xs"] that show thesis by auto
  qed
  with cb_front_spec [OF r(4)] cb_clear_spec [OF assms(1), of triv] show ?thesis by auto
qed

section \<open>Witnesses\<close>

definition three_slots :: "nat spsc" where
  "three_slots = spsc_init [0, 0, 0, 0]"

lemma size_three: "kBufferSize 3 = 4"
  by (simp add: kBufferSize_def next_power_of_two_def is_power_of_two_def)

lemma valid_three: "cb_valid 3"
  by (simp add: cb_valid_def size_three is_power_of_two_def)

lemma reach_three: "spsc_reachable 3 three_slots"
  unfolding three_slots_def by (rule spsc_reachable.start) (simp add: size_three)


theorem circular_buffer_wait_free_witness:
  "\<exists>n\<le>9. producer_free (prod_at (spsc_run 3 (three_slots\<lparr>prod_at := P_load 5\<rparr>) (take n
     [Run_producer, Run_producer, Call_pop, Run_producer, Run_consumer, Run_producer, Run_consumer, Run_producer, Run_producer])))"
  using circular_buffer_wait_free [of "three_slots\<lparr>prod_at := P_load 5\<rparr>" 5
      "[Run_producer, Run_producer, Call_pop, Run_producer, Run_consumer, Run_producer, Run_consumer, Run_producer, Run_producer]" 3]
  by (simp add: numeral_eq_Suc del: take_Suc_Cons)

theorem circular_buffer_size_bounded_witness:
  "unat (cb_size 3 (\<lambda>k. buf three_slots)) \<le> 3"
proof -
  have "observes 3 (\<lambda>_. three_slots) (\<lambda>_. [])" using reach_three by (simp add: observes_def spsc_run_def)
  from circular_buffer_size_bounded [OF valid_three this] show ?thesis
    by (simp add: three_slots_def spsc_init_def)
qed

theorem circular_buffer_full_spurious_witness:
  "\<exists>as. (\<forall>n. held (spsc_run 3 three_slots (take n as)) \<le> 1)
    \<and> cb_full 3 (\<lambda>k. buf (if k = 0 then three_slots else spsc_run 3 three_slots as))"
  unfolding three_slots_def by (rule circular_buffer_full_spurious [OF valid_three]) simp

theorem circular_buffer_sequential_witness:
  "\<exists>s1 s2. cb_fifo.enq_all 3 (cb_new [0, 0, 0, 0]) [4, 5::nat] = Some s1 \<and> cb_fifo.deq_n 3 2 s1 = Some ([4, 5], s2)"
proof -
  have i: "shared_inv 3 (cb_new [0, 0, 0, 0 :: nat]) [] 0 0 0"
    by (rule cb_new_inv [OF valid_three]) (simp add: size_three)
  have "cb_inv 3 (cb_new [0, 0, 0, 0 :: nat])" "cb_contents 3 (cb_new [0, 0, 0, 0 :: nat]) = []"
    using i cb_contents_eq [OF i] by (auto simp: cb_inv_def)
  from circular_buffer_sequential [OF this, of "[4, 5]" True]
  have "\<exists>s1 s2. cb_fifo.enq_all 3 (cb_new [0, 0, 0, 0]) [4, 5::nat] = Some s1
      \<and> cb_fifo.deq_n 3 (length [4, 5::nat]) s1 = Some ([4, 5], s2)" by fastforce
  moreover have "length [4, 5::nat] = 2" by simp
  ultimately show ?thesis by metis
qed

end
