(* ===== verification/LockFreeQueue.thy ===== *)
theory LockFreeQueue
  imports BitOps Interfaces
begin

text \<open>
  \<open>LockFreeQueue.h\<close>: the bounded queue for any number of producers and consumers.  Every slot
  carries a sequence number that says whose turn it is.  A call is a sequence of atomic steps of
  its thread; the steps of the threads interleave in any order.

  \<^item> \<open>ring\<close> is the array of slots with the two positions (the sequence numbers and the data are
    two lists), \<open>queue_stats\<close> the counters, \<open>lfq\<close> the whole system with a program point for each
    thread.  \<open>h_in\<close> and \<open>outs\<close> are history variables: the values in the order in which their
    producers claimed a position, and the pairs of position and value that consumers took out.
  \<^item> The model covers the memory orders of the code: a load of a position or of a sequence number may
    return an older value (\<open>Older\<close>), and \<open>compare_exchange_weak\<close> may fail spuriously.  The data of a
    slot is not atomic; that no two threads access it at the same time is proved.
  \<^item> The code subtracts the positions as \<open>int64_t\<close>; where that overflows the model stops in \<open>Fault\<close>.
\<close>

section \<open>State\<close>

record 'a ring =
  sequences :: "u64 list"
  datas :: "'a list"
  mEnqueuePos :: u64
  mDequeuePos :: u64

record queue_stats =
  totalEnqueues :: u64
  totalDequeues :: u64
  failedEnqueues :: u64
  failedDequeues :: u64

definition no_stats :: queue_stats where
  "no_stats = \<lparr>totalEnqueues = 0, totalDequeues = 0, failedEnqueues = 0, failedDequeues = 0\<rparr>"

text \<open>The static assertions on \<open>MaxSize\<close>, and \<open>pos & kMask\<close>.\<close>

definition lfq_valid :: "u64 \<Rightarrow> bool" where
  "lfq_valid maxsize \<longleftrightarrow> maxsize AND (maxsize - 1) = 0 \<and> maxsize > 0"

definition lfq_slot :: "u64 \<Rightarrow> u64 \<Rightarrow> nat" where
  "lfq_slot maxsize pos = unat (pos AND (maxsize - 1))"

text \<open>
  The constructor: every slot \<open>i\<close> gets the sequence number \<open>i\<close>.  The data is not initialised:
  \<open>junk\<close> is what the memory holds.
\<close>

definition ring_new :: "u64 \<Rightarrow> 'a list \<Rightarrow> 'a ring" where
  "ring_new maxsize junk =
    \<lparr>sequences = map of_nat [0..<unat maxsize], datas = junk, mEnqueuePos = 0, mDequeuePos = 0\<rparr>"

text \<open>\<open>static_cast<int64_t>(a) - static_cast<int64_t>(b)\<close>: overflow is undefined behaviour.\<close>

definition int64_diff :: "u64 \<Rightarrow> u64 \<Rightarrow> int option" where
  "int64_diff a b = (let d = sint a - sint b in if - (2 ^ 63) \<le> d \<and> d < 2 ^ 63 then Some d else None)"

section \<open>Steps\<close>

text \<open>
  The program points of \<open>enqueueImpl\<close> and of \<open>dequeue\<close>, with the local variables.  \<open>E_load\<close> and
  \<open>D_load\<close> are the loads of the position, at the start and before a retry; \<open>E_stat\<close> and \<open>D_stat\<close>
  the increments of the counters; \<open>E_done\<close> and \<open>D_done\<close> hold what the call returned.
\<close>

datatype 'a pc =
    Idle
  | E_load 'a
  | E_seq 'a u64
  | E_cas 'a u64
  | E_write 'a u64
  | E_publish 'a u64
  | E_stat bool
  | E_done bool
  | D_load
  | D_seq u64
  | D_cas u64
  | D_read u64
  | D_release u64 'a
  | D_stat "'a option"
  | D_done "'a option"
  | Fault

text \<open>What an atomic load returns: the newest value, or one stored earlier.  Positions and sequence
  numbers only grow, so that is a smaller one.\<close>

datatype view = Newest | Older u64

fun seen :: "view \<Rightarrow> u64 \<Rightarrow> u64" where
  "seen Newest x = x"
| "seen (Older p) x = (if p \<le> x then p else x)"

definition incrementStat :: "bool \<Rightarrow> (queue_stats \<Rightarrow> queue_stats) \<Rightarrow> queue_stats \<Rightarrow> queue_stats" where
  "incrementStat enable_stats f st = (if enable_stats then f st else st)"

record 'a lfq =
  ring :: "'a ring"
  mStats :: queue_stats
  pcs :: "nat \<Rightarrow> 'a pc"
  h_in :: "'a list"
  outs :: "(nat \<times> 'a) list"

definition lfq_init :: "u64 \<Rightarrow> 'a list \<Rightarrow> 'a lfq" where
  "lfq_init maxsize junk =
    \<lparr>ring = ring_new maxsize junk, mStats = no_stats, pcs = (\<lambda>_. Idle), h_in = [], outs = []\<rparr>"

definition goto :: "nat \<Rightarrow> 'a pc \<Rightarrow> 'a lfq \<Rightarrow> 'a lfq" where
  "goto t p s = s\<lparr>pcs := (pcs s)(t := p)\<rparr>"

text \<open>One step of thread \<open>t\<close> inside \<open>enqueueImpl\<close>.\<close>

definition enqueue_step :: "u64 \<Rightarrow> bool \<Rightarrow> nat \<Rightarrow> view \<Rightarrow> bool \<Rightarrow> 'a lfq \<Rightarrow> 'a lfq" where
  "enqueue_step maxsize enable_stats t view spurious s = (let r = ring s in case pcs s t of
      E_load v \<Rightarrow> goto t (E_seq v (seen view (mEnqueuePos r))) s
    | E_seq v pos \<Rightarrow>
        (case int64_diff (seen view (sequences r ! lfq_slot maxsize pos)) pos of
           None \<Rightarrow> goto t Fault s
         | Some diff \<Rightarrow>
             if diff = 0 then goto t (E_cas v pos) s
             else if diff < 0 then goto t (E_stat False) s
             else goto t (E_load v) s)
    | E_cas v pos \<Rightarrow>
        if mEnqueuePos r = pos \<and> \<not> spurious
        then goto t (E_write v pos) (s\<lparr>ring := r\<lparr>mEnqueuePos := pos + 1\<rparr>, h_in := h_in s @ [v]\<rparr>)
        else goto t (E_seq v (seen view (mEnqueuePos r))) s
    | E_write v pos \<Rightarrow>
        goto t (E_publish v pos) (s\<lparr>ring := r\<lparr>datas := (datas r)[lfq_slot maxsize pos := v]\<rparr>\<rparr>)
    | E_publish v pos \<Rightarrow>
        goto t (E_stat True) (s\<lparr>ring := r\<lparr>sequences := (sequences r)[lfq_slot maxsize pos := pos + 1]\<rparr>\<rparr>)
    | E_stat b \<Rightarrow> goto t (E_done b) (s\<lparr>mStats := incrementStat enable_stats (\<lambda>st.
        if b then st\<lparr>totalEnqueues := totalEnqueues st + 1\<rparr>
        else st\<lparr>failedEnqueues := failedEnqueues st + 1\<rparr>) (mStats s)\<rparr>)
    | _ \<Rightarrow> s)"

text \<open>One step of thread \<open>t\<close> inside \<open>dequeue\<close>.\<close>

definition dequeue_step :: "u64 \<Rightarrow> bool \<Rightarrow> nat \<Rightarrow> view \<Rightarrow> bool \<Rightarrow> 'a lfq \<Rightarrow> 'a lfq" where
  "dequeue_step maxsize enable_stats t view spurious s = (let r = ring s in case pcs s t of
      D_load \<Rightarrow> goto t (D_seq (seen view (mDequeuePos r))) s
    | D_seq pos \<Rightarrow>
        (case int64_diff (seen view (sequences r ! lfq_slot maxsize pos)) (pos + 1) of
           None \<Rightarrow> goto t Fault s
         | Some diff \<Rightarrow>
             if diff = 0 then goto t (D_cas pos) s
             else if diff < 0 then goto t (D_stat None) s
             else goto t D_load s)
    | D_cas pos \<Rightarrow>
        if mDequeuePos r = pos \<and> \<not> spurious
        then goto t (D_read pos) (s\<lparr>ring := r\<lparr>mDequeuePos := pos + 1\<rparr>\<rparr>)
        else goto t (D_seq (seen view (mDequeuePos r))) s
    | D_read pos \<Rightarrow> goto t (D_release pos (datas r ! lfq_slot maxsize pos)) s
    | D_release pos v \<Rightarrow>
        goto t (D_stat (Some v))
          (s\<lparr>ring := r\<lparr>sequences := (sequences r)[lfq_slot maxsize pos := pos + maxsize]\<rparr>,
             outs := outs s @ [(unat pos, v)]\<rparr>)
    | D_stat v \<Rightarrow> goto t (D_done v) (s\<lparr>mStats := incrementStat enable_stats (\<lambda>st.
        if v \<noteq> None then st\<lparr>totalDequeues := totalDequeues st + 1\<rparr>
        else st\<lparr>failedDequeues := failedDequeues st + 1\<rparr>) (mStats s)\<rparr>)
    | _ \<Rightarrow> s)"

text \<open>A thread makes a call when it is not inside one.\<close>

definition pc_free :: "'a pc \<Rightarrow> bool" where
  "pc_free p = (case p of Idle \<Rightarrow> True | E_done b \<Rightarrow> True | D_done v \<Rightarrow> True | _ \<Rightarrow> False)"

definition in_enqueue :: "'a pc \<Rightarrow> bool" where
  "in_enqueue p = (case p of E_load v \<Rightarrow> True | E_seq v pos \<Rightarrow> True | E_cas v pos \<Rightarrow> True | E_write v pos \<Rightarrow> True
     | E_publish v pos \<Rightarrow> True | E_stat b \<Rightarrow> True | _ \<Rightarrow> False)"

datatype 'a lfq_action = Call_enqueue nat 'a | Call_dequeue nat | Run nat view bool

fun lfq_act :: "u64 \<Rightarrow> bool \<Rightarrow> 'a lfq \<Rightarrow> 'a lfq_action \<Rightarrow> 'a lfq" where
  "lfq_act maxsize es s (Call_enqueue t v) = (if pc_free (pcs s t) then goto t (E_load v) s else s)"
| "lfq_act maxsize es s (Call_dequeue t) = (if pc_free (pcs s t) then goto t D_load s else s)"
| "lfq_act maxsize es s (Run t view spurious) =
    (if in_enqueue (pcs s t) then enqueue_step maxsize es t view spurious s
     else dequeue_step maxsize es t view spurious s)"

definition lfq_run :: "u64 \<Rightarrow> bool \<Rightarrow> 'a lfq \<Rightarrow> 'a lfq_action list \<Rightarrow> 'a lfq" where
  "lfq_run maxsize es = foldl (lfq_act maxsize es)"

inductive lfq_reachable :: "u64 \<Rightarrow> bool \<Rightarrow> 'a lfq \<Rightarrow> bool" for maxsize es where
  start: "length junk = unat maxsize \<Longrightarrow> lfq_reachable maxsize es (lfq_init maxsize junk)"
| act: "lfq_reachable maxsize es s \<Longrightarrow> lfq_reachable maxsize es (lfq_act maxsize es s a)"

text \<open>
  \<open>tryDequeue\<close> calls \<open>dequeue\<close> until it succeeds: \<open>results i\<close> is what the call number \<open>i\<close>
  returns.  The observers load the positions in two different states, \<open>st 0\<close> and \<open>st 1\<close>, and
  \<open>stats\<close> its counters in the states \<open>ms k\<close>.
\<close>

function tryDequeue :: "(nat \<Rightarrow> 'a option) \<Rightarrow> nat \<Rightarrow> nat \<Rightarrow> 'a option" where
  "tryDequeue results i maxAttempts =
    (if i < maxAttempts then
       (case results i of Some v \<Rightarrow> Some v | None \<Rightarrow> tryDequeue results (i + 1) maxAttempts)
     else None)"
  by pat_completeness auto
termination by (relation "measure (\<lambda>(results, i, maxAttempts). maxAttempts - i)") auto

declare tryDequeue.simps [simp del]

definition lfq_empty :: "(nat \<Rightarrow> 'a ring) \<Rightarrow> bool" where
  "lfq_empty st \<longleftrightarrow> mEnqueuePos (st 0) = mDequeuePos (st 1)"

definition lfq_size :: "u64 \<Rightarrow> (nat \<Rightarrow> 'a ring) \<Rightarrow> u64" where
  "lfq_size maxsize st = (let distance = mEnqueuePos (st 0) - mDequeuePos (st 1) in
     if distance \<le> maxsize then distance else maxsize)"

record queue_report = queue_stats +
  currentSize :: u64
  queue_capacity :: u64

definition lfq_stats :: "u64 \<Rightarrow> (nat \<Rightarrow> queue_stats) \<Rightarrow> (nat \<Rightarrow> 'a ring) \<Rightarrow> queue_report" where
  "lfq_stats maxsize ms st =
    \<lparr>totalEnqueues = totalEnqueues (ms 0), totalDequeues = totalDequeues (ms 1),
     failedEnqueues = failedEnqueues (ms 2), failedDequeues = failedDequeues (ms 3),
     currentSize = lfq_size maxsize st, queue_capacity = maxsize\<rparr>"

definition lfq_resetStats :: "queue_stats \<Rightarrow> queue_stats" where
  "lfq_resetStats st = st\<lparr>totalEnqueues := 0, totalDequeues := 0, failedEnqueues := 0, failedDequeues := 0\<rparr>"

end
