(* ===== verification/LockFreeQueue_Inv.thy ===== *)
theory LockFreeQueue_Inv
  imports LockFreeQueue
begin

text \<open>
  The invariant of the system of \<open>LockFreeQueue\<close> for two slots or more, and its preservation by
  every step of every thread, as long as fewer than \<open>2 ^ 63\<close> values have been enqueued.
\<close>

section \<open>Words and slots\<close>

abbreviation enq_pos :: "'a lfq \<Rightarrow> nat" where "enq_pos s \<equiv> unat (mEnqueuePos (ring s))"
abbreviation deq_pos :: "'a lfq \<Rightarrow> nat" where "deq_pos s \<equiv> unat (mDequeuePos (ring s))"

definition seq_at :: "u64 \<Rightarrow> 'a lfq \<Rightarrow> nat \<Rightarrow> nat" where
  "seq_at maxsize s p = unat (sequences (ring s) ! (p mod unat maxsize))"

definition data_at :: "u64 \<Rightarrow> 'a lfq \<Rightarrow> nat \<Rightarrow> 'a" where
  "data_at maxsize s p = datas (ring s) ! (p mod unat maxsize)"

lemma lfq_valid_iff: "lfq_valid maxsize \<longleftrightarrow> is_power_of_two maxsize"
  by (auto simp: lfq_valid_def is_power_of_two_def)

lemma lfq_slot_mod:
  assumes "lfq_valid maxsize"
  shows "lfq_slot maxsize pos = unat pos mod unat maxsize"
proof -
  obtain k where k: "unat maxsize = 2 ^ k" using assms by (auto simp: lfq_valid_iff is_power_of_two_iff)
  have "maxsize = of_nat (2 ^ k)" using k [symmetric] by simp
  then have "maxsize - 1 = mask k" by (simp add: mask_eq_exp_minus_1)
  then have "lfq_slot maxsize pos = unat (take_bit k pos)" by (simp add: lfq_slot_def take_bit_eq_mask)
  also have "\<dots> = take_bit k (unat pos)" by (rule unsigned_take_bit_eq)
  also have "\<dots> = unat pos mod 2 ^ k" by (rule take_bit_eq_mod)
  finally show ?thesis by (simp add: k)
qed

lemma int64_diff_small:
  assumes "unat a < 2 ^ 63" and "unat b < 2 ^ 63"
  shows "int64_diff a b = Some (int (unat a) - int (unat b))"
proof -
  have s: "sint x = int (unat x)" if "unat x < 2 ^ 63" for x :: u64
  proof -
    have "int (unat x) < int (2 ^ 63)" using that by (simp only: of_nat_less_iff)
    then have hi: "uint x < 2 ^ 63" by simp
    have lo: "- (2 ^ 63) \<le> uint x" by (rule order_trans [OF _ uint_ge_0]) simp
    have "signed_take_bit 63 (uint x) = uint x" by (rule signed_take_bit_int_eq_self [OF lo hi])
    moreover have "sint x = signed_take_bit 63 (uint x)" by (simp add: sint_uint)
    moreover have "int (unat x) = uint x" by simp
    ultimately show ?thesis by (simp only:)
  qed
  have "- (2 ^ 63) \<le> int m - int n \<and> int m - int n < 2 ^ 63" if "m < 2 ^ 63" "n < 2 ^ 63" for m n :: nat
    using that by simp
  from this [OF assms]
  show ?thesis unfolding int64_diff_def Let_def s [OF assms(1)] s [OF assms(2)] by (simp only: simp_thms if_True)
qed

lemma unat_plus_small: "unat a + unat b < 2 ^ 63 \<Longrightarrow> unat (a + b :: u64) = unat a + unat b"
  by (subst unat_plus_if') simp

lemma unat_Suc_small: "unat a + 1 < 2 ^ 63 \<Longrightarrow> unat (a + 1 :: u64) = unat a + 1"
  by (subst unat_plus_if') simp

lemma seen_le: "unat (seen view x) \<le> unat x"
  by (cases view) (simp_all add: word_le_nat_alt)

section \<open>The invariant\<close>

text \<open>Which thread owns the data of a slot: the one that claimed the position and has not yet handed
  the slot on.\<close>

definition writes :: "'a pc \<Rightarrow> nat \<Rightarrow> bool" where
  "writes c p \<longleftrightarrow> (case c of E_write v pos \<Rightarrow> unat pos = p | E_publish v pos \<Rightarrow> unat pos = p | _ \<Rightarrow> False)"

definition reads :: "'a pc \<Rightarrow> nat \<Rightarrow> bool" where
  "reads c p \<longleftrightarrow> (case c of D_read pos \<Rightarrow> unat pos = p | D_release pos v \<Rightarrow> unat pos = p | _ \<Rightarrow> False)"

text \<open>
  The slot of a position \<open>p\<close> claimed in the last lap: being written, holding a value, being read,
  or free for the next lap.
\<close>

definition slot_cell :: "u64 \<Rightarrow> 'a lfq \<Rightarrow> nat \<Rightarrow> bool" where
  "slot_cell maxsize s p \<longleftrightarrow>
     seq_at maxsize s p = p \<and> deq_pos s \<le> p \<and> (\<exists>t. writes (pcs s t) p)
   \<or> seq_at maxsize s p = p + 1 \<and> deq_pos s \<le> p \<and> data_at maxsize s p = h_in s ! p
   \<or> seq_at maxsize s p = p + 1 \<and> p < deq_pos s \<and> data_at maxsize s p = h_in s ! p \<and> (\<exists>t. reads (pcs s t) p)
   \<or> seq_at maxsize s p = p + unat maxsize \<and> p < deq_pos s"

definition in_lap :: "u64 \<Rightarrow> 'a lfq \<Rightarrow> nat \<Rightarrow> bool" where
  "in_lap maxsize s p \<longleftrightarrow> p < enq_pos s \<and> enq_pos s \<le> p + unat maxsize"

definition ring_inv :: "u64 \<Rightarrow> 'a lfq \<Rightarrow> bool" where
  "ring_inv maxsize s \<longleftrightarrow> length (sequences (ring s)) = unat maxsize \<and> length (datas (ring s)) = unat maxsize
   \<and> deq_pos s \<le> enq_pos s \<and> enq_pos s \<le> deq_pos s + unat maxsize \<and> length (h_in s) = enq_pos s
   \<and> (\<forall>p. enq_pos s \<le> p \<and> p < unat maxsize \<longrightarrow> seq_at maxsize s p = p)
   \<and> (\<forall>p. in_lap maxsize s p \<longrightarrow> slot_cell maxsize s p)"

definition thread_ok :: "u64 \<Rightarrow> 'a lfq \<Rightarrow> 'a pc \<Rightarrow> bool" where
  "thread_ok maxsize s c = (case c of
      E_seq v pos \<Rightarrow> unat pos \<le> enq_pos s
    | E_cas v pos \<Rightarrow> unat pos \<le> enq_pos s \<and> (unat pos = enq_pos s \<longrightarrow> seq_at maxsize s (unat pos) = unat pos)
    | E_write v pos \<Rightarrow> in_lap maxsize s (unat pos) \<and> seq_at maxsize s (unat pos) = unat pos \<and> h_in s ! unat pos = v
    | E_publish v pos \<Rightarrow> in_lap maxsize s (unat pos) \<and> seq_at maxsize s (unat pos) = unat pos
        \<and> h_in s ! unat pos = v \<and> data_at maxsize s (unat pos) = v
    | D_seq pos \<Rightarrow> unat pos \<le> deq_pos s
    | D_cas pos \<Rightarrow> unat pos \<le> deq_pos s \<and>
        (unat pos = deq_pos s \<longrightarrow> in_lap maxsize s (unat pos) \<and> seq_at maxsize s (unat pos) = unat pos + 1)
    | D_read pos \<Rightarrow> in_lap maxsize s (unat pos) \<and> seq_at maxsize s (unat pos) = unat pos + 1 \<and> unat pos < deq_pos s
    | D_release pos v \<Rightarrow> in_lap maxsize s (unat pos) \<and> seq_at maxsize s (unat pos) = unat pos + 1
        \<and> unat pos < deq_pos s \<and> h_in s ! unat pos = v
    | Fault \<Rightarrow> False
    | _ \<Rightarrow> True)"

definition lfq_inv :: "u64 \<Rightarrow> 'a lfq \<Rightarrow> bool" where
  "lfq_inv maxsize s \<longleftrightarrow> lfq_valid maxsize \<and> 1 < unat maxsize \<and> ring_inv maxsize s
   \<and> (\<forall>t. thread_ok maxsize s (pcs s t))
   \<and> (\<forall>t u p. writes (pcs s t) p \<and> writes (pcs s u) p \<longrightarrow> t = u)
   \<and> (\<forall>t u p. reads (pcs s t) p \<and> reads (pcs s u) p \<longrightarrow> t = u)
   \<and> distinct (map fst (outs s))
   \<and> (\<forall>p. p \<in> fst ` set (outs s) \<longleftrightarrow> p < deq_pos s \<and> \<not> (\<exists>t. reads (pcs s t) p))
   \<and> (\<forall>(p, v)\<in>set (outs s). v = h_in s ! p)"

lemma goto_simps [simp]:
  "ring (goto t c s) = ring s" "mStats (goto t c s) = mStats s" "h_in (goto t c s) = h_in s"
  "outs (goto t c s) = outs s" "pcs (goto t c s) u = (if u = t then c else pcs s u)"
  by (simp_all add: goto_def)

lemma writes_simps [simp]:
  "writes (E_write v pos) p \<longleftrightarrow> unat pos = p" "writes (E_publish v pos) p \<longleftrightarrow> unat pos = p"
  "\<not> writes Idle p" "\<not> writes (E_load v) p" "\<not> writes (E_seq v pos) p" "\<not> writes (E_cas v pos) p"
  "\<not> writes (E_stat b) p" "\<not> writes (E_done b) p" "\<not> writes D_load p" "\<not> writes (D_seq pos) p" "\<not> writes (D_cas pos) p"
  "\<not> writes (D_read pos) p" "\<not> writes (D_release pos v) p" "\<not> writes (D_stat r) p" "\<not> writes (D_done r) p" "\<not> writes Fault p"
  by (simp_all add: writes_def)

lemma reads_simps [simp]:
  "reads (D_read pos) p \<longleftrightarrow> unat pos = p" "reads (D_release pos v) p \<longleftrightarrow> unat pos = p"
  "\<not> reads Idle p" "\<not> reads (E_load v) p" "\<not> reads (E_seq v pos) p" "\<not> reads (E_cas v pos) p"
  "\<not> reads (E_stat b) p" "\<not> reads (E_done b) p" "\<not> reads D_load p" "\<not> reads (D_seq pos) p" "\<not> reads (D_cas pos) p"
  "\<not> reads (E_write v pos) p" "\<not> reads (E_publish v pos) p" "\<not> reads (D_stat r) p" "\<not> reads (D_done r) p" "\<not> reads Fault p"
  by (simp_all add: reads_def)

lemma same_slot_lap:
  fixes i j K :: nat
  shows "i < j \<Longrightarrow> i mod K = j mod K \<Longrightarrow> i + K \<le> j"
  using mod_inject_window [of i j K] by linarith

lemma lap_mod_inject:
  assumes "in_lap maxsize s p" and "in_lap maxsize s q" and "p mod unat maxsize = q mod unat maxsize"
  shows "p = q"
  using same_slot_lap [OF _ assms(3)] same_slot_lap [OF _ assms(3) [symmetric]] assms(1,2)
  unfolding in_lap_def by (cases p q rule: linorder_cases) force+

lemma lap_mod_next: "\<lbrakk>in_lap maxsize s p; p mod unat maxsize = enq_pos s mod unat maxsize\<rbrakk> \<Longrightarrow> enq_pos s = p + unat maxsize"
  using same_slot_lap [of p "enq_pos s" "unat maxsize"] unfolding in_lap_def by simp

text \<open>What the invariant says of one thread and of one slot.\<close>

lemma lfq_invD:
  assumes "lfq_inv maxsize s"
  shows "lfq_valid maxsize" "1 < unat maxsize" "ring_inv maxsize s" "thread_ok maxsize s (pcs s t)"
    "writes (pcs s t) p \<Longrightarrow> writes (pcs s u) p \<Longrightarrow> t = u" "reads (pcs s t) p \<Longrightarrow> reads (pcs s u) p \<Longrightarrow> t = u"
  using assms unfolding lfq_inv_def by blast+

lemma ring_invD:
  assumes "ring_inv maxsize s"
  shows "length (sequences (ring s)) = unat maxsize" "length (datas (ring s)) = unat maxsize"
    "deq_pos s \<le> enq_pos s" "enq_pos s \<le> deq_pos s + unat maxsize" "length (h_in s) = enq_pos s"
    "enq_pos s \<le> p \<Longrightarrow> p < unat maxsize \<Longrightarrow> seq_at maxsize s p = p" "in_lap maxsize s p \<Longrightarrow> slot_cell maxsize s p"
  using assms unfolding ring_inv_def by blast+

lemma writes_lap:
  assumes "lfq_inv maxsize s" and "writes (pcs s t) p"
  shows "in_lap maxsize s p" "seq_at maxsize s p = p"
  using lfq_invD(4) [OF assms(1), of t] assms(2) by (auto simp: thread_ok_def writes_def split: pc.splits)

lemma reads_lap:
  assumes "lfq_inv maxsize s" and "reads (pcs s t) p"
  shows "in_lap maxsize s p" "seq_at maxsize s p = p + 1" "p < deq_pos s"
  using lfq_invD(4) [OF assms(1), of t] assms(2) by (auto simp: thread_ok_def reads_def split: pc.splits)

text \<open>A sequence number not older than the position to be claimed is that position.\<close>

lemma enqueue_ready:
  assumes inv: "lfq_inv maxsize s" and "enq_pos s \<le> seq_at maxsize s (enq_pos s)"
  shows "seq_at maxsize s (enq_pos s) = enq_pos s" and "enq_pos s < deq_pos s + unat maxsize"
proof -
  let ?e = "enq_pos s" and ?N = "unat maxsize"
  note r = ring_invD [OF lfq_invD(3) [OF inv]] and N = lfq_invD(2) [OF inv]
  have "seq_at maxsize s ?e = ?e \<and> ?e < deq_pos s + ?N"
  proof (cases "?e < ?N")
    case True
    then show ?thesis using r(6) [of ?e] by simp
  next
    case False
    then obtain p where p: "?e = p + ?N" by (metis le_add_diff_inverse2 not_less)
    then have lap: "in_lap maxsize s p" using N by (simp add: in_lap_def)
    have same: "seq_at maxsize s ?e = seq_at maxsize s p" by (simp add: seq_at_def p)
    show ?thesis using r(7) [OF lap] assms(2) N unfolding same slot_cell_def by (auto simp: p)
  qed
  then show "seq_at maxsize s ?e = ?e" "?e < deq_pos s + ?N" by blast+
qed

lemma dequeue_ready:
  assumes inv: "lfq_inv maxsize s" and "deq_pos s + 1 \<le> seq_at maxsize s (deq_pos s)"
  shows "seq_at maxsize s (deq_pos s) = deq_pos s + 1" and "in_lap maxsize s (deq_pos s)"
    and "data_at maxsize s (deq_pos s) = h_in s ! deq_pos s"
proof -
  let ?d = "deq_pos s" and ?N = "unat maxsize"
  note r = ring_invD [OF lfq_invD(3) [OF inv]] and N = lfq_invD(2) [OF inv]
  have "?d \<noteq> enq_pos s"
  proof
    assume "?d = enq_pos s"
    with enqueue_ready(1) [OF inv] assms(2) show False by simp
  qed
  then have lap: "in_lap maxsize s ?d" using r(3,4) by (simp add: in_lap_def)
  then show "in_lap maxsize s ?d" .
  show "seq_at maxsize s ?d = ?d + 1" "data_at maxsize s ?d = h_in s ! ?d"
    using r(7) [OF lap] assms(2) unfolding slot_cell_def by auto
qed


section \<open>Every step keeps the invariant\<close>

lemma lfq_invI:
  assumes "lfq_valid maxsize" "1 < unat maxsize" "ring_inv maxsize s" "\<And>u. thread_ok maxsize s (pcs s u)"
    and "\<And>t u p. writes (pcs s t) p \<Longrightarrow> writes (pcs s u) p \<Longrightarrow> t = u"
    and "\<And>t u p. reads (pcs s t) p \<Longrightarrow> reads (pcs s u) p \<Longrightarrow> t = u"
    and "distinct (map fst (outs s))"
    and "\<And>p. p \<in> fst ` set (outs s) \<longleftrightarrow> p < deq_pos s \<and> \<not> (\<exists>t. reads (pcs s t) p)"
    and "\<And>p v. (p, v) \<in> set (outs s) \<Longrightarrow> v = h_in s ! p"
  shows "lfq_inv maxsize s"
  using assms unfolding lfq_inv_def by blast

lemma lfq_inv_outs:
  assumes "lfq_inv maxsize s"
  shows "distinct (map fst (outs s))" "p \<in> fst ` set (outs s) \<longleftrightarrow> p < deq_pos s \<and> \<not> (\<exists>t. reads (pcs s t) p)"
    "(p, v) \<in> set (outs s) \<Longrightarrow> v = h_in s ! p" "(p, v) \<in> set (outs s) \<Longrightarrow> p < deq_pos s"
proof -
  show "distinct (map fst (outs s))" using assms unfolding lfq_inv_def by blast
  show *: "p \<in> fst ` set (outs s) \<longleftrightarrow> p < deq_pos s \<and> \<not> (\<exists>t. reads (pcs s t) p)" for p
    using assms unfolding lfq_inv_def by blast
  show "(p, v) \<in> set (outs s) \<Longrightarrow> v = h_in s ! p" using assms unfolding lfq_inv_def by blast
  show "p < deq_pos s" if "(p, v) \<in> set (outs s)"
  proof -
    have "p \<in> fst ` set (outs s)" using that by (rule image_eqI [rotated]) simp
    then show ?thesis unfolding * by blast
  qed
qed

lemma lfq_inv_goto:
  assumes inv: "lfq_inv maxsize s" and "\<And>p. writes c p = writes (pcs s t) p" and "\<And>p. reads c p = reads (pcs s t) p"
    and "thread_ok maxsize s c"
  shows "lfq_inv maxsize (goto t c s)"
proof -
  have w: "writes (if u = t then c else pcs s u) p = writes (pcs s u) p" for u p using assms(2) by simp
  have r: "reads (if u = t then c else pcs s u) p = reads (pcs s u) p" for u p using assms(3) by simp
  have same: "seq_at maxsize (goto t c s) p = seq_at maxsize s p" "data_at maxsize (goto t c s) p = data_at maxsize s p"
    "in_lap maxsize (goto t c s) p = in_lap maxsize s p" for p by (simp_all add: seq_at_def data_at_def in_lap_def)
  have "thread_ok maxsize (goto t c s) d = thread_ok maxsize s d" for d by (cases d) (simp_all add: thread_ok_def same)
  moreover have "slot_cell maxsize (goto t c s) p = slot_cell maxsize s p" for p by (simp add: slot_cell_def same w r)
  ultimately show ?thesis using inv assms(4) unfolding lfq_inv_def ring_inv_def by (simp add: same w r)
qed

lemma goto_someone:
  assumes "pcs s' = pcs s"
  shows "\<not> writes (pcs s t) p \<or> writes c p \<Longrightarrow>
      (\<exists>u. writes (pcs (goto t c s') u) p) \<longleftrightarrow> writes c p \<or> (\<exists>u. writes (pcs s u) p)"
    and "\<not> reads (pcs s t) p \<or> reads c p \<Longrightarrow>
      (\<exists>u. reads (pcs (goto t c s') u) p) \<longleftrightarrow> reads c p \<or> (\<exists>u. reads (pcs s u) p)"
  using assms by (simp; metis)+

lemma lfq_inv_stats [simp]: "lfq_inv maxsize (s\<lparr>mStats := st\<rparr>) = lfq_inv maxsize s"
proof -
  have same: "seq_at maxsize (s\<lparr>mStats := st\<rparr>) p = seq_at maxsize s p" "data_at maxsize (s\<lparr>mStats := st\<rparr>) p = data_at maxsize s p"
    "in_lap maxsize (s\<lparr>mStats := st\<rparr>) p = in_lap maxsize s p" for p by (simp_all add: seq_at_def data_at_def in_lap_def)
  have "thread_ok maxsize (s\<lparr>mStats := st\<rparr>) d = thread_ok maxsize s d" for d by (cases d) (simp_all add: thread_ok_def same)
  then show ?thesis by (simp add: lfq_inv_def ring_inv_def slot_cell_def same)
qed

text \<open>A slot handed on in the last lap is not the next one to claim.\<close>

lemma lap_next_seq: "in_lap maxsize s p \<Longrightarrow> enq_pos s = p + unat maxsize \<Longrightarrow> seq_at maxsize s (enq_pos s) = seq_at maxsize s p"
  by (simp add: seq_at_def)

lemma lfq_inv_claim_enqueue:
  assumes inv: "lfq_inv maxsize s" and at: "pcs s t = E_cas v pos" and pos: "mEnqueuePos (ring s) = pos"
    and bound: "enq_pos s + unat maxsize < 2 ^ 63"
  shows "lfq_inv maxsize (goto t (E_write v pos) (s\<lparr>ring := (ring s)\<lparr>mEnqueuePos := pos + 1\<rparr>, h_in := h_in s @ [v]\<rparr>))"
    (is "lfq_inv maxsize ?s'")
proof -
  note I = lfq_invD [OF inv] and R = ring_invD [OF lfq_invD(3) [OF inv]]
  let ?N = "unat maxsize"
  have seqE: "seq_at maxsize s (enq_pos s) = enq_pos s"
    using I(4) [of t] by (simp add: at thread_ok_def pos)
  have room: "enq_pos s < deq_pos s + ?N" by (rule enqueue_ready(2) [OF inv]) (simp add: seqE)
  have E': "enq_pos ?s' = enq_pos s + 1" using bound I(2) by (simp add: pos unat_Suc_small)
  have D': "deq_pos ?s' = deq_pos s" by simp
  have same: "seq_at maxsize ?s' p = seq_at maxsize s p" "data_at maxsize ?s' p = data_at maxsize s p" for p
    by (simp_all add: seq_at_def data_at_def)
  have h: "h_in ?s' = h_in s @ [v]" by simp
  have hn: "(h_in s @ [v]) ! p = h_in s ! p" if "p < enq_pos s" for p using that R(5) by (simp add: nth_append)
  have hE: "h_in ?s' ! enq_pos s = v" using R(5) by (simp add: nth_append)
  have lapD: "p = enq_pos s \<or> in_lap maxsize s p" if "in_lap maxsize ?s' p" for p
    using that unfolding in_lap_def E' by auto
  have lapI: "in_lap maxsize ?s' p" if "in_lap maxsize s p" "seq_at maxsize s p \<le> p + 1" for p
    using lap_next_seq [OF that(1)] that seqE I(2) unfolding in_lap_def E' by fastforce
  have lapE: "in_lap maxsize ?s' (enq_pos s)" using I(2) unfolding in_lap_def E' by simp
  have wt: "\<not> writes (pcs s t) p" "\<not> reads (pcs s t) p" for p by (simp_all add: at)
  have we: "(\<exists>u. writes (pcs ?s' u) p) \<longleftrightarrow> p = enq_pos s \<or> (\<exists>u. writes (pcs s u) p)" for p
    by (subst goto_someone(1) [of _ s]) (auto simp: wt pos)
  have re: "(\<exists>u. reads (pcs ?s' u) p) \<longleftrightarrow> (\<exists>u. reads (pcs s u) p)" for p
    by (subst goto_someone(2) [of _ s]) (auto simp: wt)
  have cells: "slot_cell maxsize ?s' p" if "in_lap maxsize ?s' p" for p
    using lapD [OF that]
  proof
    assume p: "p = enq_pos s"
    show ?thesis using R(3) seqE unfolding slot_cell_def same D' we by (simp add: p)
  next
    assume lap: "in_lap maxsize s p"
    then have p: "p < enq_pos s" by (simp add: in_lap_def)
    show ?thesis using R(7) [OF lap] p unfolding slot_cell_def same D' we re h hn [OF p] by blast
  qed
  show ?thesis
  proof (rule lfq_invI)
    show "ring_inv maxsize ?s'"
      using R(1-6) room cells unfolding ring_inv_def E' D' same h by simp
    show "thread_ok maxsize ?s' (pcs ?s' u)" for u
    proof (cases "u = t")
      case True
      then show ?thesis using lapE seqE hE same pos by (simp add: thread_ok_def)
    next
      case False
      then have pu: "pcs ?s' u = pcs s u" by simp
      show ?thesis using I(4) [of u] unfolding thread_ok_def pu same D' E' h
        by (cases "pcs s u") (simp_all add: lapI hn in_lap_def [of maxsize s])
    qed
    show "t' = u" if "writes (pcs ?s' t') p" "writes (pcs ?s' u) p" for t' u p
    proof -
      have "\<not> writes (pcs s w) (unat pos)" for w using writes_lap(1) [OF inv, of w "unat pos"] by (auto simp: pos in_lap_def)
      then show ?thesis using that I(5) [of t' p u] by (auto split: if_splits)
    qed
    show "t' = u" if "reads (pcs ?s' t') p" "reads (pcs ?s' u) p" for t' u p
      using that I(6) [of t' p u] by (auto split: if_splits)
    show "distinct (map fst (outs ?s'))" using lfq_inv_outs(1) [OF inv] by simp
    show "p \<in> fst ` set (outs ?s') \<longleftrightarrow> p < deq_pos ?s' \<and> \<not> (\<exists>t. reads (pcs ?s' t) p)" for p
      unfolding re D' using lfq_inv_outs(2) [OF inv, of p] by simp
    show "w = h_in ?s' ! p" if "(p, w) \<in> set (outs ?s')" for p w
    proof -
      have "(p, w) \<in> set (outs s)" using that by simp
      from lfq_inv_outs(3,4) [OF inv this] R(3) show ?thesis unfolding h by (simp add: hn)
    qed
  qed (rule I)+
qed

text \<open>The other steps leave the history of enqueued values and the enqueue position alone.\<close>

lemma lfq_inv_write:
  assumes inv: "lfq_inv maxsize s" and at: "pcs s t = E_write v pos"
  shows "lfq_inv maxsize (goto t (E_publish v pos)
    (s\<lparr>ring := (ring s)\<lparr>datas := (datas (ring s))[lfq_slot maxsize pos := v]\<rparr>\<rparr>))" (is "lfq_inv maxsize ?s'")
proof -
  note I = lfq_invD [OF inv] and R = ring_invD [OF lfq_invD(3) [OF inv]]
  let ?N = "unat maxsize"
  have slot: "lfq_slot maxsize pos = unat pos mod ?N" by (rule lfq_slot_mod [OF I(1)])
  have pos: "in_lap maxsize s (unat pos)" "seq_at maxsize s (unat pos) = unat pos" "h_in s ! unat pos = v"
    using I(4) [of t] by (simp_all add: at thread_ok_def)
  have same: "seq_at maxsize ?s' p = seq_at maxsize s p" "in_lap maxsize ?s' p = in_lap maxsize s p" for p
    by (simp_all add: seq_at_def in_lap_def)
  have ED: "enq_pos ?s' = enq_pos s" "deq_pos ?s' = deq_pos s" "h_in ?s' = h_in s" by simp_all
  have data: "data_at maxsize ?s' p = data_at maxsize s p" if "in_lap maxsize s p" "p \<noteq> unat pos" for p
  proof -
    have "p mod ?N \<noteq> unat pos mod ?N" using lap_mod_inject [OF that(1) pos(1)] that(2) by blast
    then show ?thesis by (simp add: data_at_def slot)
  qed
  have datap: "data_at maxsize ?s' (unat pos) = v"
    using I(2) R(2) by (simp add: data_at_def slot)
  have we: "(\<exists>u. writes (pcs ?s' u) p) \<longleftrightarrow> (\<exists>u. writes (pcs s u) p)" for p
    using at by (subst goto_someone(1) [of _ s]) (simp_all, metis writes_simps(1))
  have re: "(\<exists>u. reads (pcs ?s' u) p) \<longleftrightarrow> (\<exists>u. reads (pcs s u) p)" for p
    using at by (subst goto_someone(2) [of _ s]) simp_all
  have cells: "slot_cell maxsize ?s' p" if "in_lap maxsize s p" for p
  proof (cases "p = unat pos")
    case True
    have "slot_cell maxsize s (unat pos)" by (rule R(7) [OF pos(1)])
    then have "deq_pos s \<le> unat pos" using pos(2) I(2) by (auto simp: slot_cell_def)
    moreover have "\<exists>u. writes (pcs ?s' u) p" unfolding we using at True by (intro exI [of _ t]) simp
    ultimately show ?thesis using True pos(2) unfolding slot_cell_def same ED by blast
  next
    case False
    show ?thesis using R(7) [OF that] unfolding slot_cell_def same ED we re data [OF that False] .
  qed
  show ?thesis
  proof (rule lfq_invI)
    show "ring_inv maxsize ?s'"
      using R(1-6) cells unfolding ring_inv_def ED same by simp
    show "thread_ok maxsize ?s' (pcs ?s' u)" for u
    proof (cases "u = t")
      case True
      then show ?thesis using pos datap same by (simp add: thread_ok_def)
    next
      case False
      then have pu: "pcs ?s' u = pcs s u" by simp
      have "unat p \<noteq> unat pos" if "pcs s u = E_publish w p" for w p
        using I(5) [of u "unat pos" t] False at that by auto
      then show ?thesis using I(4) [of u] unfolding thread_ok_def pu same ED
        by (cases "pcs s u") (simp_all add: data)
    qed
    show "t' = u" if "writes (pcs ?s' t') p" "writes (pcs ?s' u) p" for t' u p
      using that I(5) [of t' p u] at by (auto split: if_splits)
    show "t' = u" if "reads (pcs ?s' t') p" "reads (pcs ?s' u) p" for t' u p
      using that I(6) [of t' p u] by (auto split: if_splits)
    show "distinct (map fst (outs ?s'))" using lfq_inv_outs(1) [OF inv] by simp
    show "p \<in> fst ` set (outs ?s') \<longleftrightarrow> p < deq_pos ?s' \<and> \<not> (\<exists>t. reads (pcs ?s' t) p)" for p
      unfolding re ED using lfq_inv_outs(2) [OF inv, of p] by simp
    show "w = h_in ?s' ! p" if "(p, w) \<in> set (outs ?s')" for p w
      using lfq_inv_outs(3) [OF inv, of p w] that by simp
  qed (rule I)+
qed

lemma lfq_inv_publish:
  assumes inv: "lfq_inv maxsize s" and at: "pcs s t = E_publish v pos" and bound: "enq_pos s + unat maxsize < 2 ^ 63"
  shows "lfq_inv maxsize (goto t (E_stat True)
    (s\<lparr>ring := (ring s)\<lparr>sequences := (sequences (ring s))[lfq_slot maxsize pos := pos + 1]\<rparr>\<rparr>))" (is "lfq_inv maxsize ?s'")
proof -
  note I = lfq_invD [OF inv] and R = ring_invD [OF lfq_invD(3) [OF inv]]
  let ?N = "unat maxsize"
  have slot: "lfq_slot maxsize pos = unat pos mod ?N" by (rule lfq_slot_mod [OF I(1)])
  have pos: "in_lap maxsize s (unat pos)" "seq_at maxsize s (unat pos) = unat pos" "h_in s ! unat pos = v"
      "data_at maxsize s (unat pos) = v"
    using I(4) [of t] by (simp_all add: at thread_ok_def)
  have same: "data_at maxsize ?s' p = data_at maxsize s p" "in_lap maxsize ?s' p = in_lap maxsize s p" for p
    by (simp_all add: data_at_def in_lap_def)
  have ED: "enq_pos ?s' = enq_pos s" "deq_pos ?s' = deq_pos s" "h_in ?s' = h_in s" by simp_all
  have sq: "seq_at maxsize ?s' p = seq_at maxsize s p" if "p mod ?N \<noteq> unat pos mod ?N" for p
    using that by (simp add: seq_at_def slot)
  have sql: "seq_at maxsize ?s' p = seq_at maxsize s p" if "in_lap maxsize s p" "p \<noteq> unat pos" for p
    using lap_mod_inject [OF that(1) pos(1)] that(2) by (intro sq) blast
  have u1: "unat (pos + 1) = unat pos + 1" using bound pos(1) I(2) by (intro unat_Suc_small) (simp add: in_lap_def)
  have sqp: "seq_at maxsize ?s' (unat pos) = unat pos + 1"
    using I(2) R(1) u1 by (simp add: seq_at_def slot)
  have sqE: "seq_at maxsize ?s' (enq_pos s) = enq_pos s" if "seq_at maxsize s (enq_pos s) = enq_pos s"
  proof -
    have "enq_pos s mod ?N \<noteq> unat pos mod ?N"
    proof
      assume "enq_pos s mod ?N = unat pos mod ?N"
      with that pos(1,2) show False by (simp add: seq_at_def in_lap_def)
    qed
    with that show ?thesis by (simp add: sq)
  qed
  have re: "(\<exists>u. reads (pcs ?s' u) p) \<longleftrightarrow> (\<exists>u. reads (pcs s u) p)" for p
    using at by (subst goto_someone(2) [of _ s]) simp_all
  have we: "(\<exists>u. writes (pcs ?s' u) p) \<longleftrightarrow> (\<exists>u. writes (pcs s u) p)" if "p \<noteq> unat pos" for p
    using at that by (subst goto_someone(1) [of _ s]) simp_all
  have cells: "slot_cell maxsize ?s' p" if "in_lap maxsize s p" for p
  proof (cases "p = unat pos")
    case True
    have "slot_cell maxsize s (unat pos)" by (rule R(7) [OF pos(1)])
    then have "deq_pos s \<le> unat pos" using pos(2) I(2) by (auto simp: slot_cell_def)
    then show ?thesis using pos(3,4) sqp unfolding True slot_cell_def same ED by blast
  next
    case False
    show ?thesis using R(7) [OF that] unfolding slot_cell_def same ED re we [OF False] sql [OF that False] .
  qed
  have init: "seq_at maxsize ?s' p = p" if "enq_pos s \<le> p" "p < ?N" for p
  proof -
    have "p mod ?N \<noteq> unat pos mod ?N" using that pos(1) by (simp add: in_lap_def)
    then show ?thesis using R(6) [OF that] by (simp add: sq)
  qed
  show ?thesis
  proof (rule lfq_invI)
    show "ring_inv maxsize ?s'"
      using R(1-5) cells init unfolding ring_inv_def ED same by simp
    show "thread_ok maxsize ?s' (pcs ?s' u)" for u
    proof (cases "u = t")
      case True
      then show ?thesis by (simp add: thread_ok_def)
    next
      case False
      then have pu: "pcs ?s' u = pcs s u" by simp
      have ne: "p \<noteq> unat pos" if "writes (pcs s u) p" for p
        using I(5) [of u "unat pos" t] False at that by auto
      have sqn: "seq_at maxsize ?s' p = seq_at maxsize s p" if "in_lap maxsize s p" "seq_at maxsize s p = Suc p" for p
        using sql [OF that(1)] that(2) pos(2) by (cases "p = unat pos") auto
      show ?thesis using I(4) [of u] ne unfolding thread_ok_def pu same ED
        by (cases "pcs s u") (simp_all add: sql sqE sqn)
    qed
    show "t' = u" if "writes (pcs ?s' t') p" "writes (pcs ?s' u) p" for t' u p
      using that I(5) [of t' p u] by (auto split: if_splits)
    show "t' = u" if "reads (pcs ?s' t') p" "reads (pcs ?s' u) p" for t' u p
      using that I(6) [of t' p u] by (auto split: if_splits)
    show "distinct (map fst (outs ?s'))" using lfq_inv_outs(1) [OF inv] by simp
    show "p \<in> fst ` set (outs ?s') \<longleftrightarrow> p < deq_pos ?s' \<and> \<not> (\<exists>t. reads (pcs ?s' t) p)" for p
      unfolding re ED using lfq_inv_outs(2) [OF inv, of p] by simp
    show "w = h_in ?s' ! p" if "(p, w) \<in> set (outs ?s')" for p w
      using lfq_inv_outs(3) [OF inv, of p w] that by simp
  qed (rule I)+
qed

lemma lfq_inv_claim_dequeue:
  assumes inv: "lfq_inv maxsize s" and at: "pcs s t = D_cas pos" and pos: "mDequeuePos (ring s) = pos"
    and bound: "enq_pos s + unat maxsize < 2 ^ 63"
  shows "lfq_inv maxsize (goto t (D_read pos) (s\<lparr>ring := (ring s)\<lparr>mDequeuePos := pos + 1\<rparr>\<rparr>))" (is "lfq_inv maxsize ?s'")
proof -
  note I = lfq_invD [OF inv] and R = ring_invD [OF lfq_invD(3) [OF inv]]
  let ?N = "unat maxsize"
  have lapD: "in_lap maxsize s (deq_pos s)" and sD: "seq_at maxsize s (deq_pos s) = deq_pos s + 1"
    using I(4) [of t] by (simp_all add: at thread_ok_def pos)
  have dataD: "data_at maxsize s (deq_pos s) = h_in s ! deq_pos s" by (rule dequeue_ready(3) [OF inv]) (simp add: sD)
  have same: "seq_at maxsize ?s' p = seq_at maxsize s p" "data_at maxsize ?s' p = data_at maxsize s p"
      "in_lap maxsize ?s' p = in_lap maxsize s p" for p
    by (simp_all add: seq_at_def data_at_def in_lap_def)
  have D': "deq_pos ?s' = deq_pos s + 1"
    using bound lapD I(2) by (simp add: pos in_lap_def unat_Suc_small)
  have ED: "enq_pos ?s' = enq_pos s" "h_in ?s' = h_in s" by simp_all
  have we: "(\<exists>u. writes (pcs ?s' u) p) \<longleftrightarrow> (\<exists>u. writes (pcs s u) p)" for p
    using at by (subst goto_someone(1) [of _ s]) simp_all
  have re: "(\<exists>u. reads (pcs ?s' u) p) \<longleftrightarrow> p = deq_pos s \<or> (\<exists>u. reads (pcs s u) p)" for p
    using at by (subst goto_someone(2) [of _ s]) (auto simp: pos)
  have cells: "slot_cell maxsize ?s' p" if "in_lap maxsize s p" for p
  proof (cases "p = deq_pos s")
    case True
    show ?thesis unfolding slot_cell_def same ED D' re True using sD dataD by simp
  next
    case False
    show ?thesis using R(7) [OF that] False unfolding slot_cell_def same ED D' re we by auto
  qed
  show ?thesis
  proof (rule lfq_invI)
    show "ring_inv maxsize ?s'"
      using R(1-6) cells lapD unfolding ring_inv_def ED D' same by (simp add: in_lap_def)
    show "thread_ok maxsize ?s' (pcs ?s' u)" for u
    proof (cases "u = t")
      case True
      then show ?thesis using lapD sD same D' pos by (simp add: thread_ok_def)
    next
      case False
      then have pu: "pcs ?s' u = pcs s u" by simp
      show ?thesis using I(4) [of u] unfolding thread_ok_def pu same ED D'
        by (cases "pcs s u") simp_all
    qed
    show "t' = u" if "writes (pcs ?s' t') p" "writes (pcs ?s' u) p" for t' u p
      using that I(5) [of t' p u] by (auto split: if_splits)
    show "t' = u" if "reads (pcs ?s' t') p" "reads (pcs ?s' u) p" for t' u p
    proof -
      have "\<not> reads (pcs s w) (unat pos)" for w using reads_lap(3) [OF inv, of w "unat pos"] pos by auto
      then show ?thesis using that I(6) [of t' p u] by (auto split: if_splits)
    qed
    show "distinct (map fst (outs ?s'))" using lfq_inv_outs(1) [OF inv] by simp
    show "p \<in> fst ` set (outs ?s') \<longleftrightarrow> p < deq_pos ?s' \<and> \<not> (\<exists>t. reads (pcs ?s' t) p)" for p
      unfolding re D' using lfq_inv_outs(2) [OF inv, of p] by auto
    show "w = h_in ?s' ! p" if "(p, w) \<in> set (outs ?s')" for p w
      using lfq_inv_outs(3) [OF inv, of p w] that by simp
  qed (rule I)+
qed


lemma lfq_inv_read:
  assumes inv: "lfq_inv maxsize s" and at: "pcs s t = D_read pos"
  shows "lfq_inv maxsize (goto t (D_release pos (datas (ring s) ! lfq_slot maxsize pos)) s)"
proof (rule lfq_inv_goto [OF inv])
  have ok: "in_lap maxsize s (unat pos)" "seq_at maxsize s (unat pos) = unat pos + 1" "unat pos < deq_pos s"
    using lfq_invD(4) [OF inv, of t] by (simp_all add: at thread_ok_def)
  have "slot_cell maxsize s (unat pos)" by (rule ring_invD(7) [OF lfq_invD(3) [OF inv] ok(1)])
  then have "data_at maxsize s (unat pos) = h_in s ! unat pos"
    using ok(2,3) lfq_invD(2) [OF inv] by (auto simp: slot_cell_def)
  with ok show "thread_ok maxsize s (D_release pos (datas (ring s) ! lfq_slot maxsize pos))"
    by (simp add: thread_ok_def data_at_def lfq_slot_mod [OF lfq_invD(1) [OF inv]])
qed (simp_all add: at)

lemma lfq_inv_release:
  assumes inv: "lfq_inv maxsize s" and at: "pcs s t = D_release pos v" and bound: "enq_pos s + unat maxsize < 2 ^ 63"
  shows "lfq_inv maxsize (goto t (D_stat (Some v))
    (s\<lparr>ring := (ring s)\<lparr>sequences := (sequences (ring s))[lfq_slot maxsize pos := pos + maxsize]\<rparr>,
       outs := outs s @ [(unat pos, v)]\<rparr>))" (is "lfq_inv maxsize ?s'")
proof -
  note I = lfq_invD [OF inv] and R = ring_invD [OF lfq_invD(3) [OF inv]]
  let ?N = "unat maxsize"
  have slot: "lfq_slot maxsize pos = unat pos mod ?N" by (rule lfq_slot_mod [OF I(1)])
  have pos: "in_lap maxsize s (unat pos)" "seq_at maxsize s (unat pos) = unat pos + 1" "h_in s ! unat pos = v"
      "unat pos < deq_pos s"
    using I(4) [of t] by (simp_all add: at thread_ok_def)
  have same: "data_at maxsize ?s' p = data_at maxsize s p" "in_lap maxsize ?s' p = in_lap maxsize s p" for p
    by (simp_all add: data_at_def in_lap_def)
  have ED: "enq_pos ?s' = enq_pos s" "deq_pos ?s' = deq_pos s" "h_in ?s' = h_in s" by simp_all
  have sq: "seq_at maxsize ?s' p = seq_at maxsize s p" if "p mod ?N \<noteq> unat pos mod ?N" for p
    using that by (simp add: seq_at_def slot)
  have sql: "seq_at maxsize ?s' p = seq_at maxsize s p" if "in_lap maxsize s p" "p \<noteq> unat pos" for p
    using lap_mod_inject [OF that(1) pos(1)] that(2) by (intro sq) blast
  have uN: "unat (pos + maxsize) = unat pos + ?N"
    using bound pos(1) by (intro unat_plus_small) (simp add: in_lap_def)
  have sqp: "seq_at maxsize ?s' (unat pos) = unat pos + ?N"
    using I(2) R(1) uN by (simp add: seq_at_def slot)
  have sqE: "seq_at maxsize ?s' (enq_pos s) = enq_pos s" if "seq_at maxsize s (enq_pos s) = enq_pos s"
  proof (cases "enq_pos s mod ?N = unat pos mod ?N")
    case True
    then show ?thesis using lap_mod_next [OF pos(1)] sqp by (simp add: seq_at_def)
  next
    case False
    with that show ?thesis by (simp add: sq)
  qed
  have re: "(\<exists>u. reads (pcs ?s' u) p) \<longleftrightarrow> (\<exists>u. reads (pcs s u) p)" if "p \<noteq> unat pos" for p
    using at that by (subst goto_someone(2) [of _ s]) simp_all
  have we: "(\<exists>u. writes (pcs ?s' u) p) \<longleftrightarrow> (\<exists>u. writes (pcs s u) p)" for p
    using at by (subst goto_someone(1) [of _ s]) simp_all
  have gone: "\<not> (\<exists>u. reads (pcs ?s' u) (unat pos))"
    using I(6) [of _ "unat pos" t] at by auto
  have new: "unat pos \<notin> fst ` set (outs s)"
    unfolding lfq_inv_outs(2) [OF inv] using at by (metis reads_simps(2))
  have cells: "slot_cell maxsize ?s' p" if "in_lap maxsize s p" for p
  proof (cases "p = unat pos")
    case True
    show ?thesis using pos(4) sqp unfolding True slot_cell_def same ED by blast
  next
    case False
    show ?thesis using R(7) [OF that] unfolding slot_cell_def same ED re [OF False] we sql [OF that False] .
  qed
  have init: "seq_at maxsize ?s' p = p" if "enq_pos s \<le> p" "p < ?N" for p
  proof -
    have "p mod ?N \<noteq> unat pos mod ?N" using that pos(1) by (simp add: in_lap_def)
    then show ?thesis using R(6) [OF that] by (simp add: sq)
  qed
  show ?thesis
  proof (rule lfq_invI)
    show "ring_inv maxsize ?s'"
      using R(1-5) cells init unfolding ring_inv_def ED same by simp
    show "thread_ok maxsize ?s' (pcs ?s' u)" for u
    proof (cases "u = t")
      case True
      then show ?thesis by (simp add: thread_ok_def)
    next
      case False
      then have pu: "pcs ?s' u = pcs s u" by simp
      have ne: "p \<noteq> unat pos" if "reads (pcs s u) p" for p
        using I(6) [of u "unat pos" t] False at that by auto
      have sqn: "seq_at maxsize ?s' p = seq_at maxsize s p" if "in_lap maxsize s p" "seq_at maxsize s p = p" for p
        using sql [OF that(1)] that(2) pos(2) by (cases "p = unat pos") auto
      have sqD: "seq_at maxsize ?s' (deq_pos s) = seq_at maxsize s (deq_pos s)" if "in_lap maxsize s (deq_pos s)"
        using sql [OF that] pos(4) by simp
      show ?thesis using I(4) [of u] ne unfolding thread_ok_def pu same ED
        by (cases "pcs s u") (simp_all add: sql sqE sqn sqD)
    qed
    show "t' = u" if "writes (pcs ?s' t') p" "writes (pcs ?s' u) p" for t' u p
      using that I(5) [of t' p u] by (auto split: if_splits)
    show "t' = u" if "reads (pcs ?s' t') p" "reads (pcs ?s' u) p" for t' u p
      using that I(6) [of t' p u] by (auto split: if_splits)
    show "distinct (map fst (outs ?s'))" using lfq_inv_outs(1) [OF inv] new by simp
    show "p \<in> fst ` set (outs ?s') \<longleftrightarrow> p < deq_pos ?s' \<and> \<not> (\<exists>t. reads (pcs ?s' t) p)" for p
    proof (cases "p = unat pos")
      case True
      show ?thesis using gone pos(4) unfolding True ED by simp
    next
      case False
      show ?thesis using lfq_inv_outs(2) [OF inv, of p] False unfolding re [OF False] ED by simp
    qed
    show "w = h_in ?s' ! p" if "(p, w) \<in> set (outs ?s')" for p w
      using lfq_inv_outs(3) [OF inv, of p w] that pos(3) by auto
  qed (rule I)+
qed

text \<open>The loads and the tests of the sequence number.\<close>

lemma seq_bound:
  assumes "lfq_inv maxsize s"
  shows "seq_at maxsize s p \<le> enq_pos s + unat maxsize"
proof -
  let ?N = "unat maxsize" and ?e = "enq_pos s"
  note R = ring_invD [OF lfq_invD(3) [OF assms]] and N = lfq_invD(2) [OF assms]
  have p: "p mod ?N < ?N" using N by simp
  show ?thesis
  proof (cases "?e \<le> p mod ?N")
    case True
    then show ?thesis using R(6) [OF True p] p by (simp add: seq_at_def)
  next
    case False
    define q where "q = ?e - 1 - (?e - 1 - p mod ?N) mod ?N"
    have m: "(?e - 1 - p mod ?N) mod ?N < ?N" "(?e - 1 - p mod ?N) mod ?N \<le> ?e - 1 - p mod ?N" using N by simp_all
    have lap: "in_lap maxsize s q" using m False unfolding in_lap_def q_def by linarith
    have "q = p mod ?N + (?e - 1 - p mod ?N) div ?N * ?N"
      using False m(2) div_mult_mod_eq [of "?e - 1 - p mod ?N" ?N] unfolding q_def by linarith
    then have "q mod ?N = p mod ?N" by simp
    then have "seq_at maxsize s p = seq_at maxsize s q" by (simp add: seq_at_def)
    moreover have "seq_at maxsize s q \<le> q + ?N" using R(7) [OF lap] N by (auto simp: slot_cell_def)
    ultimately show ?thesis using lap by (simp add: in_lap_def)
  qed
qed

lemma int64_diff_cases:
  assumes "unat a < 2 ^ 63" and "unat b < 2 ^ 63"
  obtains d where "int64_diff a b = Some d" "d = 0 \<longleftrightarrow> unat a = unat b" "d < 0 \<longleftrightarrow> unat a < unat b"
proof -
  have "(int m - int n = 0) = (m = n)" "(int m - int n < 0) = (m < n)" for m n by linarith+
  from that [OF int64_diff_small [OF assms] this] show thesis .
qed

lemma enqueue_diff:
  assumes inv: "lfq_inv maxsize s" and "unat pos \<le> enq_pos s" and bound: "enq_pos s + unat maxsize < 2 ^ 63"
    and x: "x = seen view (sequences (ring s) ! lfq_slot maxsize pos)"
  obtains d where "int64_diff x pos = Some d" "d = 0 \<longleftrightarrow> unat x = unat pos" "d < 0 \<longleftrightarrow> unat x < unat pos"
    "unat x \<le> seq_at maxsize s (unat pos)"
proof -
  have slot: "lfq_slot maxsize pos = unat pos mod unat maxsize" by (rule lfq_slot_mod [OF lfq_invD(1) [OF inv]])
  have le: "unat x \<le> seq_at maxsize s (unat pos)" unfolding seq_at_def x slot by (rule seen_le)
  have b: "unat x < 2 ^ 63" "unat pos < 2 ^ 63"
    using le seq_bound [OF inv, of "unat pos"] assms(2) bound by linarith+
  from int64_diff_cases [OF b] that le show thesis by metis
qed

lemma dequeue_diff:
  assumes inv: "lfq_inv maxsize s" and "unat pos \<le> deq_pos s" and bound: "enq_pos s + unat maxsize < 2 ^ 63"
    and x: "x = seen view (sequences (ring s) ! lfq_slot maxsize pos)"
  obtains d where "int64_diff x (pos + 1) = Some d" "d = 0 \<longleftrightarrow> unat x = unat pos + 1" "d < 0 \<longleftrightarrow> unat x < unat pos + 1"
    "unat x \<le> seq_at maxsize s (unat pos)"
proof -
  have slot: "lfq_slot maxsize pos = unat pos mod unat maxsize" by (rule lfq_slot_mod [OF lfq_invD(1) [OF inv]])
  have le: "unat x \<le> seq_at maxsize s (unat pos)" unfolding seq_at_def x slot by (rule seen_le)
  have p: "unat pos + 1 < 2 ^ 63"
    using ring_invD(3) [OF lfq_invD(3) [OF inv]] lfq_invD(2) [OF inv] assms(2) bound by linarith
  note u1 = unat_Suc_small [OF p]
  have b: "unat x < 2 ^ 63" "unat (pos + 1) < 2 ^ 63"
    using le seq_bound [OF inv, of "unat pos"] bound p unfolding u1 by linarith+
  from int64_diff_cases [OF b] that le show thesis unfolding u1 by metis
qed

lemma lfq_inv_enqueue_step:
  assumes inv: "lfq_inv maxsize s" and bound: "enq_pos s + unat maxsize < 2 ^ 63"
  shows "lfq_inv maxsize (enqueue_step maxsize es t view spurious s)"
proof (cases "pcs s t")
  case (E_load v)
  then show ?thesis unfolding enqueue_step_def Let_def
    by (simp add: lfq_inv_goto [OF inv] thread_ok_def seen_le)
next
  case (E_seq v pos)
  have le: "unat pos \<le> enq_pos s" using lfq_invD(4) [OF inv, of t] by (simp add: E_seq thread_ok_def)
  let ?x = "seen view (sequences (ring s) ! lfq_slot maxsize pos)"
  obtain d where d: "int64_diff ?x pos = Some d" "d = 0 \<longleftrightarrow> unat ?x = unat pos" "d < 0 \<longleftrightarrow> unat ?x < unat pos"
    "unat ?x \<le> seq_at maxsize s (unat pos)" using enqueue_diff [OF inv le bound refl] .
  have "thread_ok maxsize s (E_cas v pos)" if "d = 0"
    using enqueue_ready(1) [OF inv] d(2,4) le that by (auto simp: thread_ok_def)
  then show ?thesis unfolding enqueue_step_def Let_def
    by (simp add: E_seq d(1) lfq_inv_goto [OF inv] thread_ok_def [of _ _ "E_load v"] thread_ok_def [of _ _ "E_stat False"])
next
  case (E_cas v pos)
  then show ?thesis unfolding enqueue_step_def Let_def
    using lfq_inv_claim_enqueue [OF inv E_cas _ bound]
    by (simp add: lfq_inv_goto [OF inv] thread_ok_def seen_le)
next
  case (E_write v pos)
  then show ?thesis unfolding enqueue_step_def Let_def using lfq_inv_write [OF inv E_write] by simp
next
  case (E_publish v pos)
  then show ?thesis unfolding enqueue_step_def Let_def using lfq_inv_publish [OF inv E_publish bound] by simp
next
  case (E_stat b)
  have "lfq_inv maxsize (goto t (E_done b) (s\<lparr>mStats := st\<rparr>))" for st
    by (rule lfq_inv_goto) (simp_all add: inv E_stat thread_ok_def)
  then show ?thesis unfolding enqueue_step_def Let_def by (simp add: E_stat)
qed (use inv in \<open>simp_all add: enqueue_step_def Let_def\<close>)

lemma lfq_inv_dequeue_step:
  assumes inv: "lfq_inv maxsize s" and bound: "enq_pos s + unat maxsize < 2 ^ 63"
  shows "lfq_inv maxsize (dequeue_step maxsize es t view spurious s)"
proof (cases "pcs s t")
  case D_load
  then show ?thesis unfolding dequeue_step_def Let_def
    by (simp add: lfq_inv_goto [OF inv] thread_ok_def seen_le)
next
  case (D_seq pos)
  have le: "unat pos \<le> deq_pos s" using lfq_invD(4) [OF inv, of t] by (simp add: D_seq thread_ok_def)
  let ?x = "seen view (sequences (ring s) ! lfq_slot maxsize pos)"
  obtain d where d: "int64_diff ?x (pos + 1) = Some d" "d = 0 \<longleftrightarrow> unat ?x = unat pos + 1"
    "d < 0 \<longleftrightarrow> unat ?x < unat pos + 1" "unat ?x \<le> seq_at maxsize s (unat pos)"
    using dequeue_diff [OF inv le bound refl] .
  have "thread_ok maxsize s (D_cas pos)" if "d = 0"
    using dequeue_ready(1,2) [OF inv] d(2,4) le that by (auto simp: thread_ok_def)
  then show ?thesis unfolding dequeue_step_def Let_def
    by (simp add: D_seq d(1) lfq_inv_goto [OF inv] thread_ok_def [of _ _ "D_load"] thread_ok_def [of _ _ "D_stat None"])
next
  case (D_cas pos)
  then show ?thesis unfolding dequeue_step_def Let_def
    using lfq_inv_claim_dequeue [OF inv D_cas _ bound]
    by (simp add: lfq_inv_goto [OF inv] thread_ok_def seen_le)
next
  case (D_read pos)
  then show ?thesis unfolding dequeue_step_def Let_def using lfq_inv_read [OF inv D_read] by simp
next
  case (D_release pos v)
  then show ?thesis unfolding dequeue_step_def Let_def using lfq_inv_release [OF inv D_release bound] by simp
next
  case (D_stat b)
  have "lfq_inv maxsize (goto t (D_done b) (s\<lparr>mStats := st\<rparr>))" for st
    by (rule lfq_inv_goto) (simp_all add: inv D_stat thread_ok_def)
  then show ?thesis unfolding dequeue_step_def Let_def by (simp add: D_stat)
qed (use inv in \<open>simp_all add: dequeue_step_def Let_def\<close>)

end
