(* ===== verification/LockFreeQueue_Progress.thy ===== *)
theory LockFreeQueue_Progress
  imports LockFreeQueue_Inv "HOL-Library.Multiset"
begin

text \<open>
  Runs of the system of \<open>LockFreeQueue\<close>: what has been taken out, what a failed call means, how
  many steps a call takes, and the queue of a single slot.
\<close>

section \<open>Runs\<close>

lemma lfq_act_grows: "length (h_in s) \<le> length (h_in (lfq_act maxsize es s a))"
  by (cases a) (simp_all add: enqueue_step_def dequeue_step_def Let_def split: pc.splits option.splits)

lemma lfq_inv_call:
  assumes inv: "lfq_inv maxsize s" and "pc_free (pcs s t)"
  shows "lfq_inv maxsize (goto t (E_load v) s)" and "lfq_inv maxsize (goto t D_load s)"
  using assms(2) by (auto simp: pc_free_def thread_ok_def split: pc.splits intro!: lfq_inv_goto [OF inv])

lemma lfq_inv_act:
  assumes "lfq_inv maxsize s" and "length (h_in s) + unat maxsize < 2 ^ 63"
  shows "lfq_inv maxsize (lfq_act maxsize es s a)"
proof -
  have b: "enq_pos s + unat maxsize < 2 ^ 63" using assms(2) ring_invD(5) [OF lfq_invD(3) [OF assms(1)]] by simp
  show ?thesis
    by (cases a) (simp_all add: lfq_inv_call assms(1) lfq_inv_enqueue_step [OF assms(1) b] lfq_inv_dequeue_step [OF assms(1) b])
qed

lemma lfq_inv_init:
  assumes "lfq_valid maxsize" and "1 < unat maxsize" and "length junk = unat maxsize"
  shows "lfq_inv maxsize (lfq_init maxsize junk)"
proof -
  have "unat (of_nat p :: u64) = p" if "p < unat maxsize" for p
    using that unat_bound [of maxsize] by (intro unat_of_nat_below) simp
  then have "ring_inv maxsize (lfq_init maxsize junk)"
    using assms(3) by (simp add: ring_inv_def lfq_init_def ring_new_def seq_at_def in_lap_def)
  then show ?thesis using assms(1,2) by (simp add: lfq_inv_def lfq_init_def thread_ok_def ring_new_def)
qed

lemma lfq_reachable_inv:
  assumes "lfq_reachable maxsize es s" and "lfq_valid maxsize" and "1 < unat maxsize"
    and "length (h_in s) + unat maxsize < 2 ^ 63"
  shows "lfq_inv maxsize s"
  using assms(1,4)
proof (induction rule: lfq_reachable.induct)
  case (start junk)
  then show ?case by (intro lfq_inv_init assms)
next
  case (act s a)
  have "length (h_in s) + unat maxsize < 2 ^ 63" using act.prems lfq_act_grows [of s maxsize es a] by linarith
  with act.IH show ?case by (intro lfq_inv_act)
qed

lemma lfq_run_reachable: "lfq_reachable maxsize es s \<Longrightarrow> lfq_reachable maxsize es (lfq_run maxsize es s as)"
  by (induction as arbitrary: s) (simp_all add: lfq_run_def lfq_reachable.act)

lemma lfq_run_Cons: "lfq_run maxsize es s (a # as) = lfq_run maxsize es (lfq_act maxsize es s a) as"
  by (simp add: lfq_run_def)

lemma lfq_run_grows: "length (h_in s) \<le> length (h_in (lfq_run maxsize es s as))"
proof (induction as arbitrary: s)
  case (Cons a as)
  show ?case unfolding lfq_run_Cons using Cons [of "lfq_act maxsize es s a"] lfq_act_grows [of s maxsize es a] by linarith
qed (simp add: lfq_run_def)

section \<open>What has been taken out\<close>

text \<open>The data of a slot is accessed at these program points only.\<close>

definition data_access :: "u64 \<Rightarrow> 'a pc \<Rightarrow> nat \<Rightarrow> bool" where
  "data_access maxsize c i \<longleftrightarrow> (case c of E_write v pos \<Rightarrow> lfq_slot maxsize pos = i
     | D_read pos \<Rightarrow> lfq_slot maxsize pos = i | _ \<Rightarrow> False)"

lemma data_access_owner:
  assumes "lfq_inv maxsize s" and "data_access maxsize (pcs s t) i"
  obtains p where "in_lap maxsize s p" "p mod unat maxsize = i" "writes (pcs s t) p \<or> reads (pcs s t) p"
proof -
  note slot = lfq_slot_mod [OF lfq_invD(1) [OF assms(1)]] and ok = lfq_invD(4) [OF assms(1), of t]
  show thesis using assms(2) ok that
    by (cases "pcs s t") (auto simp: data_access_def slot thread_ok_def)
qed

lemma data_access_exclusive:
  assumes inv: "lfq_inv maxsize s" and t: "data_access maxsize (pcs s t) i" and u: "data_access maxsize (pcs s u) i"
  shows "t = u"
proof -
  obtain p where p: "in_lap maxsize s p" "p mod unat maxsize = i" "writes (pcs s t) p \<or> reads (pcs s t) p"
    using data_access_owner [OF inv t] .
  obtain q where q: "in_lap maxsize s q" "q mod unat maxsize = i" "writes (pcs s u) q \<or> reads (pcs s u) q"
    using data_access_owner [OF inv u] .
  have "p = q" using lap_mod_inject [OF p(1) q(1)] p(2) q(2) by simp
  then show ?thesis
    using p(3) q(3) lfq_invD(5,6) [OF inv, of t p u] writes_lap(2) [OF inv, of _ p] reads_lap(2) [OF inv, of _ p] by force
qed

lemma outs_conserved:
  assumes inv: "lfq_inv maxsize s" and quiet: "\<And>t. pc_free (pcs s t)"
  shows "mset (map snd (outs s)) + mset (drop (length (outs s)) (h_in s)) = mset (h_in s)"
    and "length (outs s) = deq_pos s"
proof -
  have noread: "\<not> reads (pcs s t) p" for t p using quiet [of t] by (auto simp: pc_free_def split: pc.splits)
  have "set (map fst (outs s)) = {..<deq_pos s}" using lfq_inv_outs(2) [OF inv] noread by auto
  then have fst: "mset (map fst (outs s)) = mset [0..<deq_pos s]"
    using lfq_inv_outs(1) [OF inv] by (intro set_eq_iff_mset_eq_distinct [THEN iffD1]) auto
  then show len: "length (outs s) = deq_pos s" by (metis length_map length_upt mset_eq_length diff_zero)
  have le: "deq_pos s \<le> length (h_in s)" using ring_invD(3,5) [OF lfq_invD(3) [OF inv]] by simp
  have "snd x = h_in s ! fst x" if "x \<in> set (outs s)" for x
    using lfq_inv_outs(3) [OF inv, of "fst x" "snd x"] that by simp
  then have "map snd (outs s) = map ((!) (h_in s)) (map fst (outs s))" by simp
  then have "mset (map snd (outs s)) = image_mset ((!) (h_in s)) (mset (map fst (outs s)))"
    by (simp only: mset_map)
  also have "\<dots> = mset (map ((!) (h_in s)) [0..<deq_pos s])" unfolding fst by simp
  also have "map ((!) (h_in s)) [0..<deq_pos s] = take (deq_pos s) (h_in s)"
    using le by (simp add: list_eq_iff_nth_eq)
  finally show "mset (map snd (outs s)) + mset (drop (length (outs s)) (h_in s)) = mset (h_in s)"
    unfolding len by (metis append_take_drop_id mset_append)
qed

section \<open>What a failed call means\<close>

lemma next_not_free_iff:
  assumes inv: "lfq_inv maxsize s"
  shows "seq_at maxsize s (enq_pos s) < enq_pos s \<longleftrightarrow>
    enq_pos s = deq_pos s + unat maxsize \<or> (\<exists>t p. reads (pcs s t) p \<and> enq_pos s = p + unat maxsize)"
proof -
  let ?N = "unat maxsize" and ?e = "enq_pos s"
  note R = ring_invD [OF lfq_invD(3) [OF inv]] and N = lfq_invD(2) [OF inv]
  show ?thesis
  proof (cases "?e < ?N")
    case True
    then show ?thesis using R(6) [of ?e] by simp
  next
    case False
    then obtain p where p: "?e = p + ?N" by (metis le_add_diff_inverse2 not_less)
    then have lap: "in_lap maxsize s p" using N by (simp add: in_lap_def)
    have same: "seq_at maxsize s (p + ?N) = seq_at maxsize s p" by (simp add: seq_at_def)
    have rd: "seq_at maxsize s p = p + 1" if "reads (pcs s t) p" for t using reads_lap(2) [OF inv that] .
    show ?thesis using R(7) [OF lap] R(4) N rd unfolding slot_cell_def p same by auto
  qed
qed

lemma first_not_ready_iff:
  assumes inv: "lfq_inv maxsize s"
  shows "seq_at maxsize s (deq_pos s) < deq_pos s + 1 \<longleftrightarrow> deq_pos s = enq_pos s \<or> (\<exists>t. writes (pcs s t) (deq_pos s))"
proof -
  note R = ring_invD [OF lfq_invD(3) [OF inv]] and N = lfq_invD(2) [OF inv]
  show ?thesis
  proof (cases "deq_pos s = enq_pos s")
    case True
    then show ?thesis using enqueue_ready(1) [OF inv] by force
  next
    case False
    then have lap: "in_lap maxsize s (deq_pos s)" using R(3,4) by (simp add: in_lap_def)
    have "seq_at maxsize s (deq_pos s) = deq_pos s" if "writes (pcs s t) (deq_pos s)" for t
      using writes_lap(2) [OF inv that] .
    then show ?thesis using False R(7) [OF lap] unfolding slot_cell_def by auto
  qed
qed

text \<open>A position already claimed has moved on, or is being written.\<close>

lemma claimed_seq:
  assumes inv: "lfq_inv maxsize s" and "p < enq_pos s"
  shows "p \<le> seq_at maxsize s p"
proof -
  let ?N = "unat maxsize" and ?e = "enq_pos s"
  note R = ring_invD [OF lfq_invD(3) [OF inv]] and N = lfq_invD(2) [OF inv]
  define q where "q = p + (?e - 1 - p) div ?N * ?N"
  have "q + (?e - 1 - p) mod ?N = ?e - 1"
    using div_mult_mod_eq [of "?e - 1 - p" ?N] assms(2) unfolding q_def by linarith
  moreover have "(?e - 1 - p) mod ?N < ?N" using N by simp
  ultimately have lap: "in_lap maxsize s q" using assms(2) unfolding in_lap_def by linarith
  have "seq_at maxsize s p = seq_at maxsize s q" by (simp add: seq_at_def q_def)
  moreover have "q \<le> seq_at maxsize s q" using R(7) [OF lap] by (auto simp: slot_cell_def)
  ultimately show ?thesis by (simp add: q_def)
qed

text \<open>The tests of a call that reads the newest sequence number.\<close>

lemma enqueue_test:
  assumes inv: "lfq_inv maxsize s" and at: "pcs s t = E_seq v pos" and bound: "enq_pos s + unat maxsize < 2 ^ 63"
  shows "enqueue_step maxsize es t Newest spurious s =
    goto t (if seq_at maxsize s (unat pos) = unat pos then E_cas v pos
      else if unat pos < enq_pos s then E_load v else E_stat False) s"
proof -
  let ?x = "sequences (ring s) ! lfq_slot maxsize pos"
  have le: "unat pos \<le> enq_pos s" using lfq_invD(4) [OF inv, of t] by (simp add: at thread_ok_def)
  have slot: "lfq_slot maxsize pos = unat pos mod unat maxsize" by (rule lfq_slot_mod [OF lfq_invD(1) [OF inv]])
  obtain d where d: "int64_diff ?x pos = Some d" "d = 0 \<longleftrightarrow> unat ?x = unat pos" "d < 0 \<longleftrightarrow> unat ?x < unat pos"
    using enqueue_diff [OF inv le bound, of "seen Newest ?x" Newest] by auto
  have x: "unat ?x = seq_at maxsize s (unat pos)" by (simp add: seq_at_def slot)
  have "seq_at maxsize s (unat pos) < unat pos \<longleftrightarrow> \<not> unat pos < enq_pos s" if "seq_at maxsize s (unat pos) \<noteq> unat pos"
    using that claimed_seq [OF inv, of "unat pos"] enqueue_ready(1) [OF inv] le by force
  then show ?thesis using d unfolding x enqueue_step_def Let_def by (auto simp: at)
qed

lemma dequeue_test:
  assumes inv: "lfq_inv maxsize s" and at: "pcs s t = D_seq pos" and bound: "enq_pos s + unat maxsize < 2 ^ 63"
  shows "dequeue_step maxsize es t Newest spurious s =
    goto t (if seq_at maxsize s (unat pos) = unat pos + 1 then D_cas pos
      else if unat pos < deq_pos s then D_load else D_stat None) s"
proof -
  let ?x = "sequences (ring s) ! lfq_slot maxsize pos"
  note R = ring_invD [OF lfq_invD(3) [OF inv]] and N = lfq_invD(2) [OF inv]
  have le: "unat pos \<le> deq_pos s" using lfq_invD(4) [OF inv, of t] by (simp add: at thread_ok_def)
  have slot: "lfq_slot maxsize pos = unat pos mod unat maxsize" by (rule lfq_slot_mod [OF lfq_invD(1) [OF inv]])
  obtain d where d: "int64_diff ?x (pos + 1) = Some d" "d = 0 \<longleftrightarrow> unat ?x = unat pos + 1"
      "d < 0 \<longleftrightarrow> unat ?x < unat pos + 1"
    using dequeue_diff [OF inv le bound, of "seen Newest ?x" Newest] by auto
  have x: "unat ?x = seq_at maxsize s (unat pos)" by (simp add: seq_at_def slot)
  have moved: "unat pos + 1 \<le> seq_at maxsize s (unat pos)" if "unat pos < deq_pos s"
  proof -
    have "unat pos \<le> seq_at maxsize s (unat pos)" using claimed_seq [OF inv, of "unat pos"] that R(3) by simp
    moreover have "seq_at maxsize s (unat pos) \<noteq> unat pos"
    proof
      assume eq: "seq_at maxsize s (unat pos) = unat pos"
      show False
      proof (cases "in_lap maxsize s (unat pos)")
        case True
        then show False using R(7) [OF True] eq that N by (auto simp: slot_cell_def)
      next
        case False
        then have "unat pos + unat maxsize < enq_pos s" using that R(3) by (simp add: in_lap_def)
        then have "unat pos + unat maxsize \<le> seq_at maxsize s (unat pos + unat maxsize)" by (rule claimed_seq [OF inv])
        then show False using eq N by (simp add: seq_at_def)
      qed
    qed
    ultimately show ?thesis by simp
  qed
  have "seq_at maxsize s (unat pos) < unat pos + 1 \<longleftrightarrow> \<not> unat pos < deq_pos s" if "seq_at maxsize s (unat pos) \<noteq> unat pos + 1"
    using that moved dequeue_ready(1) [OF inv] le by force
  then show ?thesis using d unfolding x dequeue_step_def Let_def by (auto simp: at)
qed


section \<open>How many steps a call takes\<close>

definition in_dequeue :: "'a pc \<Rightarrow> bool" where
  "in_dequeue p = (case p of D_load \<Rightarrow> True | D_seq pos \<Rightarrow> True | D_cas pos \<Rightarrow> True | D_read pos \<Rightarrow> True
     | D_release pos v \<Rightarrow> True | D_stat v \<Rightarrow> True | _ \<Rightarrow> False)"

definition enqueue_left :: "nat \<Rightarrow> 'a lfq \<Rightarrow> nat" where
  "enqueue_left t s = (case pcs s t of
      E_load v \<Rightarrow> 6 | E_seq v pos \<Rightarrow> if unat pos = enq_pos s then 5 else 7
    | E_cas v pos \<Rightarrow> if unat pos = enq_pos s then 4 else 6
    | E_write v pos \<Rightarrow> 3 | E_publish v pos \<Rightarrow> 2 | E_stat b \<Rightarrow> 1 | _ \<Rightarrow> 0)"

definition dequeue_left :: "nat \<Rightarrow> 'a lfq \<Rightarrow> nat" where
  "dequeue_left t s = (case pcs s t of
      D_load \<Rightarrow> 6 | D_seq pos \<Rightarrow> if unat pos = deq_pos s then 5 else 7
    | D_cas pos \<Rightarrow> if unat pos = deq_pos s then 4 else 6
    | D_read pos \<Rightarrow> 3 | D_release pos v \<Rightarrow> 2 | D_stat v \<Rightarrow> 1 | _ \<Rightarrow> 0)"

text \<open>
  The steps of thread \<open>t\<close> in such a run read the newest values, and its \<open>compare_exchange_weak\<close> does
  not fail spuriously; nothing is asked of the other threads.
\<close>

definition own_run :: "nat \<Rightarrow> 'a lfq_action \<Rightarrow> bool" where
  "own_run t a \<longleftrightarrow> (case a of Run u view spurious \<Rightarrow> u = t \<and> view = Newest \<and> \<not> spurious | _ \<Rightarrow> False)"

definition other_run :: "nat \<Rightarrow> 'a lfq_action \<Rightarrow> bool" where
  "other_run t a \<longleftrightarrow> (case a of Run u view spurious \<Rightarrow> u \<noteq> t | _ \<Rightarrow> True)"

definition lfq_fine :: "u64 \<Rightarrow> 'a lfq \<Rightarrow> bool" where
  "lfq_fine maxsize s \<longleftrightarrow> lfq_inv maxsize s \<and> length (h_in s) + unat maxsize < 2 ^ 63"

lemma lfq_fineD:
  assumes "lfq_fine maxsize s"
  shows "lfq_inv maxsize s" "enq_pos s + unat maxsize < 2 ^ 63" "unat (mEnqueuePos (ring s) + 1) = enq_pos s + 1"
    "unat (mDequeuePos (ring s) + 1) = deq_pos s + 1"
proof -
  show inv: "lfq_inv maxsize s" using assms by (simp add: lfq_fine_def)
  note R = ring_invD [OF lfq_invD(3) [OF inv]] and N = lfq_invD(2) [OF inv]
  show b: "enq_pos s + unat maxsize < 2 ^ 63" using assms R(5) by (simp add: lfq_fine_def)
  show "unat (mEnqueuePos (ring s) + 1) = enq_pos s + 1" "unat (mDequeuePos (ring s) + 1) = deq_pos s + 1"
    using b N R(3) by (intro unat_Suc_small; linarith)+
qed

lemma pcs_unaffected:
  assumes "other_run t a" and "in_enqueue (pcs s t) \<or> in_dequeue (pcs s t)"
  shows "pcs (lfq_act maxsize es s a) t = pcs s t"
  using assms by (cases a) (auto simp: other_run_def enqueue_step_def dequeue_step_def Let_def in_enqueue_def in_dequeue_def
      pc_free_def split: pc.splits option.splits)

lemma positions_move:
  assumes "lfq_fine maxsize s"
  shows "enq_pos (lfq_act maxsize es s a) = enq_pos s \<or> enq_pos (lfq_act maxsize es s a) = enq_pos s + 1"
    and "deq_pos (lfq_act maxsize es s a) = deq_pos s \<or> deq_pos (lfq_act maxsize es s a) = deq_pos s + 1"
  using lfq_fineD(3,4) [OF assms]
  by (cases a; simp add: enqueue_step_def dequeue_step_def Let_def split: pc.splits option.splits)+

interpretation enqueue_call: lock_free_calls "lfq_act maxsize es" "lfq_fine maxsize" "own_run t" "other_run t"
    "\<lambda>s. in_enqueue (pcs s t)" "\<lambda>s. pc_free (pcs s t)" "enqueue_left t" "enq_pos" 2 for maxsize es t
proof
  fix s :: "'a lfq" and a
  assume f: "lfq_fine maxsize s" and i: "in_enqueue (pcs s t)"
  note F = lfq_fineD [OF f]
  show "0 < enqueue_left t s" using i by (auto simp: in_enqueue_def enqueue_left_def split: pc.splits)
  show "enqueue_left t (lfq_act maxsize es s a) < enqueue_left t s \<and> enq_pos s \<le> enq_pos (lfq_act maxsize es s a)"
    if "own_run t a" "in_enqueue (pcs (lfq_act maxsize es s a) t)"
  proof
    have a: "a = Run t Newest False" using that(1) by (cases a) (auto simp: own_run_def)
    show "enq_pos s \<le> enq_pos (lfq_act maxsize es s a)" using positions_move(1) [OF f, of es a] by linarith
    show "enqueue_left t (lfq_act maxsize es s a) < enqueue_left t s"
    proof (cases "pcs s t")
      case (E_seq v pos)
      then show ?thesis using enqueue_test [OF F(1) E_seq F(2), of es False] lfq_invD(4) [OF F(1), of t]
        by (simp add: a in_enqueue_def enqueue_left_def thread_ok_def)
    next
      case (E_cas v pos)
      then show ?thesis using word_unat_eq_iff [of "mEnqueuePos (ring s)" pos]
        by (auto simp: a enqueue_step_def Let_def in_enqueue_def enqueue_left_def)
    qed (use i in \<open>simp_all add: a enqueue_step_def Let_def in_enqueue_def enqueue_left_def\<close>)
  qed
  show "pc_free (pcs (lfq_act maxsize es s a) t)" if "own_run t a" "\<not> in_enqueue (pcs (lfq_act maxsize es s a) t)"
  proof -
    have a: "a = Run t Newest False" using that(1) by (cases a) (auto simp: own_run_def)
    have "pcs (lfq_act maxsize es s a) t \<noteq> Fault" using lfq_invD(4) [OF lfq_inv_act [OF F(1)], of es a t] f
      by (auto simp: thread_ok_def lfq_fine_def)
    then show ?thesis using i that(2)
      by (cases "pcs s t") (auto simp: a in_enqueue_def in_dequeue_def enqueue_step_def dequeue_step_def Let_def pc_free_def
          split: option.splits if_splits)
  qed
  show "in_enqueue (pcs (lfq_act maxsize es s a) t) \<and> enq_pos s \<le> enq_pos (lfq_act maxsize es s a)
      \<and> enqueue_left t (lfq_act maxsize es s a) + 2 * enq_pos s \<le> enqueue_left t s + 2 * enq_pos (lfq_act maxsize es s a)"
    if "other_run t a"
    using i pcs_unaffected [OF that, of s maxsize es] positions_move(1) [OF f, of es a]
    by (auto simp: enqueue_left_def split: pc.splits)
qed

interpretation dequeue_call: lock_free_calls "lfq_act maxsize es" "lfq_fine maxsize" "own_run t" "other_run t"
    "\<lambda>s. in_dequeue (pcs s t)" "\<lambda>s. pc_free (pcs s t)" "dequeue_left t" "deq_pos" 2 for maxsize es t
proof
  fix s :: "'a lfq" and a
  assume f: "lfq_fine maxsize s" and i: "in_dequeue (pcs s t)"
  note F = lfq_fineD [OF f]
  have ne: "\<not> in_enqueue (pcs s t)" using i by (auto simp: in_enqueue_def in_dequeue_def split: pc.splits)
  show "0 < dequeue_left t s" using i by (auto simp: in_dequeue_def dequeue_left_def split: pc.splits)
  show "dequeue_left t (lfq_act maxsize es s a) < dequeue_left t s \<and> deq_pos s \<le> deq_pos (lfq_act maxsize es s a)"
    if "own_run t a" "in_dequeue (pcs (lfq_act maxsize es s a) t)"
  proof
    have a: "a = Run t Newest False" using that(1) by (cases a) (auto simp: own_run_def)
    show "deq_pos s \<le> deq_pos (lfq_act maxsize es s a)" using positions_move(2) [OF f, of es a] by linarith
    show "dequeue_left t (lfq_act maxsize es s a) < dequeue_left t s"
    proof (cases "pcs s t")
      case (D_seq pos)
      then show ?thesis using dequeue_test [OF F(1) D_seq F(2), of es False] lfq_invD(4) [OF F(1), of t]
        by (simp add: a in_enqueue_def in_dequeue_def dequeue_left_def thread_ok_def)
    next
      case (D_cas pos)
      then show ?thesis using word_unat_eq_iff [of "mDequeuePos (ring s)" pos]
        by (auto simp: a dequeue_step_def Let_def in_enqueue_def in_dequeue_def dequeue_left_def)
    qed (use i in \<open>simp_all add: a dequeue_step_def Let_def in_enqueue_def in_dequeue_def dequeue_left_def\<close>)
  qed
  show "pc_free (pcs (lfq_act maxsize es s a) t)" if "own_run t a" "\<not> in_dequeue (pcs (lfq_act maxsize es s a) t)"
  proof -
    have a: "a = Run t Newest False" using that(1) by (cases a) (auto simp: own_run_def)
    have "pcs (lfq_act maxsize es s a) t \<noteq> Fault" using lfq_invD(4) [OF lfq_inv_act [OF F(1)], of es a t] f
      by (auto simp: thread_ok_def lfq_fine_def)
    then show ?thesis using i that(2)
      by (cases "pcs s t") (auto simp: a in_enqueue_def in_dequeue_def enqueue_step_def dequeue_step_def Let_def pc_free_def
          split: option.splits if_splits)
  qed
  show "in_dequeue (pcs (lfq_act maxsize es s a) t) \<and> deq_pos s \<le> deq_pos (lfq_act maxsize es s a)
      \<and> dequeue_left t (lfq_act maxsize es s a) + 2 * deq_pos s \<le> dequeue_left t s + 2 * deq_pos (lfq_act maxsize es s a)"
    if "other_run t a"
    using i pcs_unaffected [OF that, of s maxsize es] positions_move(2) [OF f, of es a]
    by (auto simp: dequeue_left_def split: pc.splits)
qed

section \<open>One slot\<close>

text \<open>
  With \<open>MaxSize = 1\<close> the sequence number of a slot handed on to the consumers is also that of a slot
  free for the next lap.
\<close>

abbreviation alone :: "nat \<Rightarrow> nat \<Rightarrow> 'a lfq_action list" where
  "alone n t \<equiv> replicate n (Run t Newest False)"

definition one_slot_full :: "'a \<Rightarrow> 'a \<Rightarrow> 'a lfq" where
  "one_slot_full junk v = lfq_run 1 False (lfq_init 1 [junk]) (Call_enqueue 0 v # alone 6 0)"

lemmas run_eval = lfq_run_def lfq_init_def ring_new_def no_stats_def enqueue_step_def dequeue_step_def Let_def
  goto_def pc_free_def in_enqueue_def incrementStat_def lfq_slot_def int64_diff_def numeral_eq_Suc

lemma one_slot_full_eq:
  "one_slot_full junk v = \<lparr>ring = \<lparr>sequences = [1], datas = [v], mEnqueuePos = 1, mDequeuePos = 0\<rparr>, mStats = no_stats,
     pcs = (\<lambda>_. Idle)(0 := E_done True), h_in = [v], outs = []\<rparr>"
  unfolding one_slot_full_def by (simp add: run_eval)

lemma one_slot_overwrites:
  "lfq_run 1 False (one_slot_full junk v) (Call_enqueue 0 w # alone 6 0)
   = \<lparr>ring = \<lparr>sequences = [2], datas = [w], mEnqueuePos = 2, mDequeuePos = 0\<rparr>, mStats = no_stats,
     pcs = (\<lambda>_. Idle)(0 := E_done True), h_in = [v, w], outs = []\<rparr>"
  unfolding one_slot_full_eq by (simp add: run_eval)


lemma one_slot_spins:
  assumes "sequences (ring s) = [2]" and "mDequeuePos (ring s) = 0" and "pcs s t = D_load \<or> pcs s t = D_seq 0"
  shows "pcs (lfq_run 1 es s (alone n t)) t = D_load \<or> pcs (lfq_run 1 es s (alone n t)) t = D_seq 0"
  using assms
proof (induction n arbitrary: s)
  case 0
  then show ?case by (simp add: lfq_run_def)
next
  case (Suc n)
  let ?s = "lfq_act 1 es s (Run t Newest False)"
  have "sequences (ring ?s) = [2]" "mDequeuePos (ring ?s) = 0" "pcs ?s t = D_load \<or> pcs ?s t = D_seq 0"
    using Suc.prems by (auto simp: run_eval)
  from Suc.IH [OF this] show ?case by (simp add: lfq_run_Cons)
qed

section \<open>Properties\<close>

text \<open>C19: any number of threads may enqueue and dequeue, in any interleaving, with stale loads and
  spurious failures.  Every value taken out is the one that was enqueued at the position its
  consumer claimed; no position is taken out twice, and none below the dequeue position is lost
  (it has been taken out, or a consumer is about to); the queue never holds more than its capacity;
  no two threads access the data of a slot at the same time; no computation overflows.  When no
  call is running, the values taken out and the values left are together the values put in.\<close>

theorem lock_free_queue_conserves:
  assumes "lfq_valid maxsize" and "1 < unat maxsize" and "lfq_reachable maxsize es s"
    and "length (h_in s) + unat maxsize < 2 ^ 63"
  shows "distinct (map fst (outs s)) \<and> (\<forall>(p, v)\<in>set (outs s). p < length (h_in s) \<and> v = h_in s ! p)
    \<and> (\<forall>p<deq_pos s. p \<in> fst ` set (outs s) \<or> (\<exists>t. reads (pcs s t) p))
    \<and> enq_pos s = length (h_in s) \<and> deq_pos s \<le> enq_pos s \<and> enq_pos s \<le> deq_pos s + unat maxsize
    \<and> (\<forall>t u i. data_access maxsize (pcs s t) i \<and> data_access maxsize (pcs s u) i \<longrightarrow> t = u)
    \<and> (\<forall>t. pcs s t \<noteq> Fault)
    \<and> ((\<forall>t. pc_free (pcs s t)) \<longrightarrow>
        length (outs s) = deq_pos s \<and> mset (map snd (outs s)) + mset (drop (length (outs s)) (h_in s)) = mset (h_in s))"
proof -
  have inv: "lfq_inv maxsize s" by (rule lfq_reachable_inv [OF assms(3,1,2,4)])
  note R = ring_invD [OF lfq_invD(3) [OF inv]]
  have "p < length (h_in s) \<and> v = h_in s ! p" if "(p, v) \<in> set (outs s)" for p v
    using lfq_inv_outs(3,4) [OF inv that] R(3,5) by simp
  moreover have "pcs s t \<noteq> Fault" for t using lfq_invD(4) [OF inv, of t] by (auto simp: thread_ok_def)
  moreover have "\<forall>p<deq_pos s. p \<in> fst ` set (outs s) \<or> (\<exists>t. reads (pcs s t) p)"
    using lfq_inv_outs(2) [OF inv] by blast
  ultimately show ?thesis
    using lfq_inv_outs(1) [OF inv] R(3-5) data_access_exclusive [OF inv] outs_conserved [OF inv]
    by (intro conjI) (simp_all, blast+)
qed



text \<open>C22: the queue of one slot, which the static assertions accept, is broken: the second \<open>enqueue\<close> is
  accepted although the queue is full and overwrites the value, and after that \<open>dequeue\<close> never
  returns, although the queue is not empty.\<close>

theorem lock_free_queue_one_slot:
  "lfq_valid 1 \<and> h_in (one_slot_full junk v) = [v] \<and> outs (one_slot_full junk v) = []
   \<and> (let s = lfq_run 1 False (one_slot_full junk v) (Call_enqueue 0 w # alone 6 0) in
        pcs s 0 = E_done True \<and> h_in s = [v, w] \<and> datas (ring s) = [w]
        \<and> \<not> pc_free (pcs (lfq_run 1 False s (Call_dequeue 1 # alone n 1)) 1))"
proof -
  let ?s = "lfq_run 1 False (one_slot_full junk v) (Call_enqueue 0 w # alone 6 0)"
  let ?d = "lfq_act 1 False ?s (Call_dequeue 1)"
  have "sequences (ring ?d) = [2]" "mDequeuePos (ring ?d) = 0" "pcs ?d 1 = D_load"
    unfolding one_slot_overwrites by (simp_all add: pc_free_def goto_def)
  then have "pcs (lfq_run 1 False ?d (alone n 1)) 1 = D_load \<or> pcs (lfq_run 1 False ?d (alone n 1)) 1 = D_seq 0"
    by (intro one_slot_spins) simp_all
  then have "\<not> pc_free (pcs (lfq_run 1 False ?s (Call_dequeue 1 # alone n 1)) 1)"
    unfolding lfq_run_Cons [of _ _ ?s] by (auto simp: pc_free_def)
  moreover have "lfq_valid 1" by (simp add: lfq_valid_def)
  ultimately show ?thesis unfolding Let_def by (simp add: one_slot_full_eq) (simp add: one_slot_overwrites [unfolded one_slot_full_eq])
qed

section \<open>Witnesses\<close>

definition two_slots :: "nat lfq_action list \<Rightarrow> nat lfq" where
  "two_slots as = lfq_run 2 True (lfq_init 2 [0, 0]) as"

lemma two_slots_valid: "lfq_valid 2" "1 < unat (2 :: u64)"
  by (simp_all add: lfq_valid_def)

lemma two_slots_reachable: "lfq_reachable 2 True (two_slots as)"
  unfolding two_slots_def by (intro lfq_run_reachable lfq_reachable.start) simp

theorem lock_free_queue_conserves_witness:
  "let s = two_slots ((Call_enqueue 0 7 # alone 6 0) @ (Call_dequeue 1 # alone 6 1)) in
     outs s = [(0, 7)] \<and> enq_pos s = length (h_in s) \<and> (\<forall>t u i. data_access 2 (pcs s t) i \<and> data_access 2 (pcs s u) i \<longrightarrow> t = u)"
proof -
  let ?s = "two_slots ((Call_enqueue 0 7 # alone 6 0) @ (Call_dequeue 1 # alone 6 1))"
  have e: "outs ?s = [(0, 7)]" "length (h_in ?s) = 1" by code_simp+
  have b: "length (h_in ?s) + unat (2 :: u64) < 2 ^ 63" unfolding e(2) by simp
  note C = lock_free_queue_conserves [OF two_slots_valid two_slots_reachable b]
  show ?thesis unfolding Let_def using C e(1) by (intro conjI) blast+
qed



end
