(* ===== verification/LockFreeRingBuffer.thy ===== *)
theory LockFreeRingBuffer
  imports LockFreeQueue_Progress
begin

text \<open>
  \<open>LockFreeRingBuffer.h\<close>: the capacity of a buffer, rounded up to a power of two; the buffer for one
  producer and one consumer; and the buffer for several of both, whose \<open>push\<close> and \<open>pop\<close> are the
  algorithm of \<open>LockFreeQueue\<close> on a capacity chosen at run time.

  The calls are modelled here as they run when no other thread interferes, the loops included; the
  interleavings of the algorithm with several producers and consumers are those of theory
  \<open>LockFreeQueue\<close>, whose invariant carries the proofs.  The allocator is a parameter: \<open>memory bytes\<close>
  says whether it has room.
\<close>

section \<open>Capacity\<close>

definition roundUpPowerOfTwo :: "size_t \<Rightarrow> size_t" where
  "roundUpPowerOfTwo n =
    (if n = 0 then 1
     else let kMaxPowerOf2 = push_bit 63 1 in
       if n > kMaxPowerOf2 then kMaxPowerOf2
       else let n = n - 1; n = n OR drop_bit 1 n; n = n OR drop_bit 2 n; n = n OR drop_bit 4 n;
                n = n OR drop_bit 8 n; n = n OR drop_bit 16 n; n = n OR drop_bit 32 n
            in n + 1)"

text \<open>\<open>allocateAligned\<close>: the number of bytes asked for.\<close>

definition allocateAligned :: "(size_t \<Rightarrow> bool) \<Rightarrow> size_t \<Rightarrow> size_t \<Rightarrow> size_t result" where
  "allocateAligned memory sizeof_t n =
    (if sizeof_t > 0 \<and> n > (- 1) div sizeof_t then Inl Bad_alloc
     else if memory (n * sizeof_t) then Inr (n * sizeof_t) else Inl Bad_alloc)"

section \<open>One producer, one consumer\<close>

record 'a spsc_ring =
  mBuffer :: "'a list"
  mWritePos :: size_t
  mReadPos :: size_t
  mCachedRead :: size_t
  mCachedWrite :: size_t

definition rb_isEmpty :: "size_t \<Rightarrow> size_t \<Rightarrow> bool" where
  "rb_isEmpty write read \<longleftrightarrow> write = read"

definition rb_isFull :: "size_t \<Rightarrow> size_t \<Rightarrow> size_t \<Rightarrow> bool" where
  "rb_isFull mCapacity write read \<longleftrightarrow> write - read \<ge> mCapacity"

definition rb_slot :: "size_t \<Rightarrow> size_t \<Rightarrow> nat" where
  "rb_slot mCapacity pos = unat (pos AND (mCapacity - 1))"

text \<open>The constructor: \<open>junk\<close> is what the allocated memory holds.\<close>

definition rb_new :: "(size_t \<Rightarrow> bool) \<Rightarrow> size_t \<Rightarrow> 'a list \<Rightarrow> size_t \<Rightarrow> (size_t \<times> 'a spsc_ring) result" where
  "rb_new memory sizeof_t junk capacity =
    (let mCapacity = roundUpPowerOfTwo capacity in
     case allocateAligned memory sizeof_t mCapacity of
       Inl e \<Rightarrow> Inl e
     | Inr _ \<Rightarrow> Inr (mCapacity, \<lparr>mBuffer = junk, mWritePos = 0, mReadPos = 0, mCachedRead = 0, mCachedWrite = 0\<rparr>))"

definition rb_push :: "size_t \<Rightarrow> 'a spsc_ring \<Rightarrow> 'a \<Rightarrow> 'a spsc_ring \<times> bool" where
  "rb_push mCapacity s v =
    (let write = mWritePos s;
         s1 = (if rb_isFull mCapacity write (mCachedRead s) then s\<lparr>mCachedRead := mReadPos s\<rparr> else s)
     in if rb_isFull mCapacity write (mCachedRead s) \<and> rb_isFull mCapacity write (mCachedRead s1) then (s1, False)
        else (s1\<lparr>mBuffer := (mBuffer s1)[rb_slot mCapacity write := v], mWritePos := write + 1\<rparr>, True))"

definition rb_pop :: "size_t \<Rightarrow> 'a spsc_ring \<Rightarrow> 'a spsc_ring \<times> 'a option" where
  "rb_pop mCapacity s =
    (let read = mReadPos s;
         s1 = (if rb_isEmpty (mCachedWrite s) read then s\<lparr>mCachedWrite := mWritePos s\<rparr> else s)
     in if rb_isEmpty (mCachedWrite s) read \<and> rb_isEmpty (mCachedWrite s1) read then (s1, None)
        else (s1\<lparr>mReadPos := read + 1\<rparr>, Some (mBuffer s1 ! rb_slot mCapacity read)))"

definition rb_peek :: "size_t \<Rightarrow> 'a spsc_ring \<Rightarrow> 'a spsc_ring \<times> 'a option" where
  "rb_peek mCapacity s =
    (let read = mReadPos s;
         s1 = (if rb_isEmpty (mCachedWrite s) read then s\<lparr>mCachedWrite := mWritePos s\<rparr> else s)
     in if rb_isEmpty (mCachedWrite s) read \<and> rb_isEmpty (mCachedWrite s1) read then (s1, None)
        else (s1, Some (mBuffer s1 ! rb_slot mCapacity read)))"

text \<open>The observers may run in any thread: \<open>st k\<close> is the state that their load number \<open>k\<close> sees.\<close>

definition rb_empty :: "(nat \<Rightarrow> 'a spsc_ring) \<Rightarrow> bool" where
  "rb_empty st \<longleftrightarrow> rb_isEmpty (mWritePos (st 0)) (mReadPos (st 1))"

definition rb_full :: "size_t \<Rightarrow> (nat \<Rightarrow> 'a spsc_ring) \<Rightarrow> bool" where
  "rb_full mCapacity st \<longleftrightarrow> rb_isFull mCapacity (mWritePos (st 0)) (mReadPos (st 1))"

definition rb_size :: "size_t \<Rightarrow> (nat \<Rightarrow> 'a spsc_ring) \<Rightarrow> size_t" where
  "rb_size mCapacity st = (let distance = mWritePos (st 0) - mReadPos (st 1) in
     if distance \<le> mCapacity then distance else mCapacity)"

section \<open>Several producers, several consumers\<close>

definition mpmc_new :: "(size_t \<Rightarrow> bool) \<Rightarrow> size_t \<Rightarrow> 'a list \<Rightarrow> size_t \<Rightarrow> (size_t \<times> 'a ring) result" where
  "mpmc_new memory sizeof_slot junk capacity =
    (let mCapacity = roundUpPowerOfTwo capacity in
     case allocateAligned memory sizeof_slot mCapacity of
       Inl e \<Rightarrow> Inl e
     | Inr _ \<Rightarrow> Inr (mCapacity, \<lparr>sequences = map of_nat [0..<unat mCapacity], datas = junk,
         mEnqueuePos = 0, mDequeuePos = 0\<rparr>))"

text \<open>
  The loop of \<open>push\<close> from the position \<open>pos\<close> on, in one thread: \<open>compare_exchange_weak\<close> succeeds when
  the position is the expected one.  \<^const>\<open>None\<close> is a call that does not return.
\<close>

partial_function (option) mpmc_push_loop :: "size_t \<Rightarrow> 'a \<Rightarrow> size_t \<Rightarrow> 'a ring \<Rightarrow> ('a ring \<times> bool) result option" where
  "mpmc_push_loop mCapacity v pos r =
    (case int64_diff (sequences r ! rb_slot mCapacity pos) pos of
       None \<Rightarrow> Some (Inl Undefined_behaviour)
     | Some diff \<Rightarrow>
         if diff = 0 then
           if mEnqueuePos r = pos then
             Some (Inr (r\<lparr>mEnqueuePos := pos + 1, datas := (datas r)[rb_slot mCapacity pos := v],
               sequences := (sequences r)[rb_slot mCapacity pos := pos + 1]\<rparr>, True))
           else mpmc_push_loop mCapacity v (mEnqueuePos r) r
         else if diff < 0 then Some (Inr (r, False))
         else mpmc_push_loop mCapacity v (mEnqueuePos r) r)"

partial_function (option) mpmc_pop_loop :: "size_t \<Rightarrow> size_t \<Rightarrow> 'a ring \<Rightarrow> ('a ring \<times> 'a option) result option" where
  "mpmc_pop_loop mCapacity pos r =
    (case int64_diff (sequences r ! rb_slot mCapacity pos) (pos + 1) of
       None \<Rightarrow> Some (Inl Undefined_behaviour)
     | Some diff \<Rightarrow>
         if diff = 0 then
           if mDequeuePos r = pos then
             Some (Inr (r\<lparr>mDequeuePos := pos + 1,
               sequences := (sequences r)[rb_slot mCapacity pos := pos + mCapacity]\<rparr>, Some (datas r ! rb_slot mCapacity pos)))
           else mpmc_pop_loop mCapacity (mDequeuePos r) r
         else if diff < 0 then Some (Inr (r, None))
         else mpmc_pop_loop mCapacity (mDequeuePos r) r)"

definition mpmc_push :: "size_t \<Rightarrow> 'a \<Rightarrow> 'a ring \<Rightarrow> ('a ring \<times> bool) result option" where
  "mpmc_push mCapacity v r = mpmc_push_loop mCapacity v (mEnqueuePos r) r"

definition mpmc_pop :: "size_t \<Rightarrow> 'a ring \<Rightarrow> ('a ring \<times> 'a option) result option" where
  "mpmc_pop mCapacity r = mpmc_pop_loop mCapacity (mDequeuePos r) r"

definition mpmc_empty :: "(nat \<Rightarrow> 'a ring) \<Rightarrow> bool" where
  "mpmc_empty st \<longleftrightarrow> mEnqueuePos (st 0) = mDequeuePos (st 1)"

definition mpmc_full :: "size_t \<Rightarrow> (nat \<Rightarrow> 'a ring) \<Rightarrow> bool" where
  "mpmc_full mCapacity st \<longleftrightarrow> mEnqueuePos (st 0) - mDequeuePos (st 1) \<ge> mCapacity"

definition mpmc_size :: "size_t \<Rightarrow> (nat \<Rightarrow> 'a ring) \<Rightarrow> size_t" where
  "mpmc_size mCapacity st = (let distance = mEnqueuePos (st 0) - mDequeuePos (st 1) in
     if distance \<le> mCapacity then distance else mCapacity)"

section \<open>Rounding up\<close>

lemma roundUp_smear:
  "roundUpPowerOfTwo n = (if n = 0 then 1 else if n > 2 ^ 63 then 2 ^ 63 else smear_all (n - 1) + 1)"
  unfolding roundUpPowerOfTwo_def smear_all_def smear_def Let_def by (simp add: push_bit_eq_mult)

lemma unat_2_63: "unat (2 ^ 63 :: size_t) = 2 ^ 63"
  by (rule unat_two_power) simp

lemma roundUp_between:
  assumes "1 < n" and "n \<le> 2 ^ 63"
  shows "\<exists>k. unat (roundUpPowerOfTwo n) = 2 ^ k \<and> unat n \<le> 2 ^ k \<and> 2 ^ k < 2 * unat n"
proof -
  have n0: "n \<noteq> 0" "n - 1 \<noteq> 0" using assms(1) by auto
  have u1: "unat (n - 1) = unat n - 1" using n0(1) by (rule unat_minus_one)
  obtain j where j: "LENGTH(64) \<le> j" "spread j (n - 1) (smear_all (n - 1))"
    using spread_smear_all [of "n - 1"] by auto
  obtain h where h: "2 ^ h \<le> unat (n - 1)" "unat (n - 1) < 2 ^ Suc h" "unat (smear_all (n - 1)) = 2 ^ Suc h - 1"
    using spread_full_bounds [OF j(2,1) n0(2)] by blast
  have "unat n \<le> 2 ^ 63" using assms(2) unfolding word_le_nat_alt unat_2_63 .
  then have "(2::nat) ^ h < 2 ^ 63" using h(1) u1 n0(1) by (metis le_less_trans less_le_trans diff_less unat_gt_0 zero_less_one)
  then have "h < 63" by (rule power_less_imp_less_exp [rotated]) simp
  then have "(2::nat) ^ Suc h \<le> 2 ^ 63" by (intro power_increasing) simp_all
  then have "unat (smear_all (n - 1) + 1) = 2 ^ Suc h" using h(3) by (subst unat_plus_if') simp
  moreover have "unat n \<le> 2 ^ Suc h" "2 ^ Suc h < 2 * unat n" using h(1,2) u1 n0(1) unat_gt_0 [of n] by simp_all
  ultimately show ?thesis using n0(1) assms(2) unfolding roundUp_smear by (intro exI [of _ "Suc h"]) auto
qed

lemma roundUp_power: "is_power_of_two (roundUpPowerOfTwo n)"
proof -
  consider "n = 0" | "n = 1" | "1 < n" "n \<le> 2 ^ 63" | "2 ^ 63 < n"
    by (metis linorder_not_le word_le_0_iff word_less_1 le_less)
  then show ?thesis
  proof cases
    case 3
    from roundUp_between [OF this] show ?thesis unfolding is_power_of_two_iff by blast
  qed (simp_all add: roundUp_smear is_power_of_two_def smear_all_def smear_def)
qed

lemma roundUp_least:
  assumes "n \<le> 2 ^ 63" and m: "is_power_of_two m" and nm: "n \<le> m"
  shows "n \<le> roundUpPowerOfTwo n \<and> roundUpPowerOfTwo n \<le> m"
proof (cases "1 < n")
  case True
  obtain k where k: "unat (roundUpPowerOfTwo n) = 2 ^ k" "unat n \<le> 2 ^ k" "2 ^ k < 2 * unat n"
    using roundUp_between [OF True assms(1)] by blast
  obtain j where j: "unat m = 2 ^ j" using m by (auto simp: is_power_of_two_iff)
  have "(2::nat) ^ k < 2 ^ Suc j" using k(3) nm by (simp add: word_le_nat_alt j)
  then have "k < Suc j" by (rule power_less_imp_less_exp [rotated]) simp
  then have "(2::nat) ^ k \<le> 2 ^ j" by (intro power_increasing) simp_all
  then show ?thesis using k by (simp add: word_le_nat_alt j del: power_increasing_iff)
next
  case False
  have m0: "m \<noteq> 0" using m by (auto simp: is_power_of_two_def)
  from False consider "n = 0" | "n = 1" by (metis linorder_not_le word_less_1 le_less)
  then show ?thesis
  proof cases
    case 1
    then show ?thesis using m0 by (simp add: roundUp_smear word_le_nat_alt unat_gt_0 Suc_le_eq)
  next
    case 2
    then have "roundUpPowerOfTwo n = 1" by (simp add: roundUp_smear smear_all_def smear_def)
    then show ?thesis using nm 2 by simp
  qed
qed

section \<open>The buffer for one producer and one consumer\<close>

text \<open>\<open>xs\<close> are the values pushed so far and \<open>C\<close> the number popped; the caches hold earlier positions.\<close>

definition rb_shared :: "size_t \<Rightarrow> 'a spsc_ring \<Rightarrow> 'a list \<Rightarrow> nat \<Rightarrow> nat \<Rightarrow> nat \<Rightarrow> bool" where
  "rb_shared cap s xs C cr cw \<longleftrightarrow>
     lfq_valid cap \<and> length (mBuffer s) = unat cap
     \<and> cr \<le> C \<and> C \<le> cw \<and> cw \<le> length xs \<and> length xs \<le> cr + unat cap
     \<and> mWritePos s = of_nat (length xs) \<and> mReadPos s = of_nat C
     \<and> mCachedRead s = of_nat cr \<and> mCachedWrite s = of_nat cw
     \<and> (\<forall>i. C \<le> i \<and> i < length xs \<longrightarrow> mBuffer s ! (i mod unat cap) = xs ! i)"

lemma rb_sharedD:
  assumes "rb_shared cap s xs C cr cw"
  shows "lfq_valid cap" "length (mBuffer s) = unat cap" "cr \<le> C" "C \<le> cw" "cw \<le> length xs"
    "length xs \<le> cr + unat cap" "mWritePos s = of_nat (length xs)" "mReadPos s = of_nat C"
    "mCachedRead s = of_nat cr" "mCachedWrite s = of_nat cw"
    "\<lbrakk>C \<le> i; i < length xs\<rbrakk> \<Longrightarrow> mBuffer s ! (i mod unat cap) = xs ! i"
  using assms unfolding rb_shared_def by blast+

lemma distance_of_nat:
  assumes "a \<le> b" and "b - a < 2 ^ 64"
  shows "unat (of_nat b - of_nat a :: size_t) = b - a"
proof -
  have "of_nat b - of_nat a = (of_nat (b - a) :: size_t)" using assms(1) by (simp add: of_nat_diff)
  with unat_of_nat_u64 [OF assms(2)] show ?thesis by simp
qed

lemma cap_bound: "unat (cap :: size_t) < 2 ^ 64"
  using unat_bound [of cap] by simp

lemma rb_slot_of_nat:
  assumes "lfq_valid cap"
  shows "rb_slot cap (of_nat i) = i mod unat cap"
proof -
  obtain k where k: "unat cap = 2 ^ k" using assms by (auto simp: lfq_valid_iff is_power_of_two_iff)
  have "(2::nat) ^ k < 2 ^ 64" using cap_bound [of cap] k by simp
  then have k64: "k < 64" by (rule power_less_imp_less_exp [rotated]) simp
  have "rb_slot cap (of_nat i) = unat (of_nat i :: size_t) mod unat cap"
    using lfq_slot_mod [OF assms, of "of_nat i"] by (simp add: rb_slot_def lfq_slot_def)
  also have "\<dots> = take_bit k (take_bit 64 i)" by (simp add: k unsigned_of_nat take_bit_eq_mod)
  also have "\<dots> = take_bit k i" using k64 by (simp only: take_bit_take_bit min.absorb1 less_imp_le)
  finally show ?thesis by (simp add: k take_bit_eq_mod)
qed

lemma rb_isFull_iff:
  assumes "c \<le> w" and "w \<le> c + unat cap"
  shows "rb_isFull cap (of_nat w) (of_nat c) \<longleftrightarrow> w = c + unat cap"
proof -
  have "unat (of_nat w - of_nat c :: size_t) = w - c" using assms cap_bound [of cap] by (intro distance_of_nat) linarith+
  then show ?thesis unfolding rb_isFull_def word_le_nat_alt using assms by linarith
qed

lemma rb_isEmpty_iff:
  assumes "c \<le> w" and "w \<le> c + unat (cap :: size_t)"
  shows "rb_isEmpty (of_nat w) (of_nat c) \<longleftrightarrow> w = c"
proof -
  have "unat (of_nat w - of_nat c :: size_t) = w - c" using assms cap_bound [of cap] by (intro distance_of_nat) linarith+
  then have "(of_nat w :: size_t) = of_nat c \<Longrightarrow> w = c" using assms(1) by simp
  then show ?thesis by (auto simp: rb_isEmpty_def)
qed

lemma rb_put:
  assumes i: "rb_shared cap s xs C cr cw" and room: "length xs < cr + unat cap"
  shows "rb_shared cap (s\<lparr>mBuffer := (mBuffer s)[rb_slot cap (mWritePos s) := v], mWritePos := mWritePos s + 1\<rparr>) (xs @ [v]) C cr cw"
proof -
  note d = rb_sharedD [OF i]
  have slot: "rb_slot cap (mWritePos s) = length xs mod unat cap" unfolding d(7) by (rule rb_slot_of_nat [OF d(1)])
  have pos: "0 < unat cap" using room d(3-5) by linarith
  have "((mBuffer s)[rb_slot cap (mWritePos s) := v]) ! (i mod unat cap) = (xs @ [v]) ! i" if "C \<le> i" "i < Suc (length xs)" for i
  proof (cases "i = length xs")
    case True
    then show ?thesis using d(2) pos by (simp add: slot)
  next
    case False
    then have len: "i < length xs" using that(2) by simp
    have "length xs - i < unat cap" using that(1) room d(3) len by linarith
    then have "i mod unat cap \<noteq> length xs mod unat cap" by (rule mod_inject_window [OF len])
    then show ?thesis using d(11) [OF that(1) len] len by (simp add: slot nth_append)
  qed
  then show ?thesis using d(1-10) room unfolding rb_shared_def by (simp add: add.commute)
qed

lemma rb_take:
  assumes i: "rb_shared cap s xs C cr cw" and "C < cw"
  shows "rb_shared cap (s\<lparr>mReadPos := mReadPos s + 1\<rparr>) xs (Suc C) cr cw"
    and "mBuffer s ! rb_slot cap (mReadPos s) = xs ! C"
proof -
  note d = rb_sharedD [OF i]
  show "rb_shared cap (s\<lparr>mReadPos := mReadPos s + 1\<rparr>) xs (Suc C) cr cw"
    using d assms(2) unfolding rb_shared_def by (simp add: add.commute)
  show "mBuffer s ! rb_slot cap (mReadPos s) = xs ! C"
    using d(11) [of C] assms(2) d(5) unfolding d(8) rb_slot_of_nat [OF d(1)] by simp
qed

lemma rb_push_cases:
  assumes i: "rb_shared cap s xs C cr cw"
  obtains (full) s' where "rb_push cap s v = (s', False)" "length xs = C + unat cap" "rb_shared cap s' xs C C cw"
  | (room) s' cr' where "rb_push cap s v = (s', True)" "length xs < C + unat cap" "rb_shared cap s' (xs @ [v]) C cr' cw"
proof -
  note d = rb_sharedD [OF i]
  let ?s1 = "s\<lparr>mCachedRead := mReadPos s\<rparr>"
  have i1: "rb_shared cap ?s1 xs C C cw" using i by (auto simp: rb_shared_def)
  have f: "rb_isFull cap (mWritePos s) (mCachedRead s) \<longleftrightarrow> length xs = cr + unat cap"
    "rb_isFull cap (mWritePos s) (mReadPos s) \<longleftrightarrow> length xs = C + unat cap"
    unfolding d(7-9) using d(3-6) by (intro rb_isFull_iff; linarith)+
  consider "length xs = cr + unat cap" "length xs = C + unat cap" | "length xs = cr + unat cap" "length xs < C + unat cap"
    | "length xs < cr + unat cap" "length xs < C + unat cap" using d(3-6) by linarith
  then show thesis
  proof cases
    case 1
    then show thesis using full [of ?s1] i1 f by (simp add: rb_push_def Let_def)
  next
    case 2
    then show thesis using room [OF _ 2(2) rb_put [OF i1 2(2), of v]] f by (simp add: rb_push_def Let_def)
  next
    case 3
    then show thesis using room [OF _ 3(2) rb_put [OF i 3(1), of v]] f by (simp add: rb_push_def Let_def)
  qed
qed

lemma rb_pop_cases:
  assumes i: "rb_shared cap s xs C cr cw"
  obtains (empty) s' where "rb_pop cap s = (s', None)" "rb_peek cap s = (s', None)" "C = length xs"
      "rb_shared cap s' xs C cr (length xs)"
  | (some) s' s'' cw' where "rb_pop cap s = (s', Some (xs ! C))" "rb_peek cap s = (s'', Some (xs ! C))" "C < length xs"
      "rb_shared cap s' xs (Suc C) cr cw'" "rb_shared cap s'' xs C cr cw'"
proof -
  note d = rb_sharedD [OF i]
  let ?s1 = "s\<lparr>mCachedWrite := mWritePos s\<rparr>"
  have i1: "rb_shared cap ?s1 xs C cr (length xs)" using i by (auto simp: rb_shared_def)
  have f: "rb_isEmpty (mCachedWrite s) (mReadPos s) \<longleftrightarrow> cw = C" "rb_isEmpty (mWritePos s) (mReadPos s) \<longleftrightarrow> length xs = C"
    unfolding d(7,8,10) using d(3-6) by (intro rb_isEmpty_iff [where cap = cap]; linarith)+
  consider "cw = C" "length xs = C" | "cw = C" "C < length xs" | "C < cw" "C < length xs" using d(4,5) by linarith
  then show thesis
  proof cases
    case 1
    then have "rb_pop cap s = (?s1, None)" "rb_peek cap s = (?s1, None)"
      using f by (simp_all add: rb_pop_def rb_peek_def Let_def)
    from empty [OF this _ i1] 1(2) show thesis by blast
  next
    case 2
    note t = rb_take [OF i1 2(2)]
    have "rb_pop cap s = (?s1\<lparr>mReadPos := mReadPos ?s1 + 1\<rparr>, Some (xs ! C))" "rb_peek cap s = (?s1, Some (xs ! C))"
      using 2 f t(2) by (simp_all add: rb_pop_def rb_peek_def Let_def)
    then show thesis by (rule some [OF _ _ 2(2) t(1) i1])
  next
    case 3
    note t = rb_take [OF i 3(1)]
    have "rb_pop cap s = (s\<lparr>mReadPos := mReadPos s + 1\<rparr>, Some (xs ! C))" "rb_peek cap s = (s, Some (xs ! C))"
      using 3 f t(2) by (simp_all add: rb_pop_def rb_peek_def Let_def)
    then show thesis by (rule some [OF _ _ 3(2) t(1) i])
  qed
qed

definition rb_inv :: "size_t \<Rightarrow> 'a spsc_ring \<Rightarrow> bool" where
  "rb_inv cap s \<longleftrightarrow> (\<exists>xs C cr cw. rb_shared cap s xs C cr cw)"

definition rb_contents :: "size_t \<Rightarrow> 'a spsc_ring \<Rightarrow> 'a list" where
  "rb_contents cap s = map (\<lambda>j. mBuffer s ! rb_slot cap (mReadPos s + of_nat j)) [0..<unat (mWritePos s - mReadPos s)]"

lemma rb_contents_eq:
  assumes i: "rb_shared cap s xs C cr cw"
  shows "rb_contents cap s = drop C xs" and "unat (mWritePos s - mReadPos s) = length xs - C"
proof -
  note d = rb_sharedD [OF i]
  show n: "unat (mWritePos s - mReadPos s) = length xs - C"
    unfolding d(7,8) using d(3-6) cap_bound [of cap] by (intro distance_of_nat) linarith+
  have "mBuffer s ! rb_slot cap (mReadPos s + of_nat j) = drop C xs ! j" if "j < length xs - C" for j
    using that d(11) [of "C + j"] rb_slot_of_nat [OF d(1), of "C + j"] by (simp add: d(8))
  then show "rb_contents cap s = drop C xs" by (intro nth_equalityI) (simp_all add: rb_contents_def n)
qed

definition rb_enq :: "size_t \<Rightarrow> 'a spsc_ring \<Rightarrow> 'a \<Rightarrow> 'a spsc_ring option" where
  "rb_enq cap s v = (let (s', ok) = rb_push cap s v in if ok then Some s' else None)"

definition rb_deq :: "size_t \<Rightarrow> 'a spsc_ring \<Rightarrow> ('a \<times> 'a spsc_ring) option" where
  "rb_deq cap s = (case rb_pop cap s of (s', None) \<Rightarrow> None | (s', Some v) \<Rightarrow> Some (v, s'))"

interpretation rb_fifo: bounded_fifo "rb_inv cap" "rb_contents cap" "\<lambda>_. unat cap" "rb_enq cap" "rb_deq cap"
  for cap :: size_t
proof
  fix q q' :: "'a spsc_ring" and x
  assume "rb_inv cap q"
  then obtain xs C cr cw where i: "rb_shared cap q xs C cr cw" by (auto simp: rb_inv_def)
  note d = rb_sharedD [OF i] and c = rb_contents_eq(1) [OF i]
  show "rb_enq cap q x = None \<longleftrightarrow> unat cap \<le> length (rb_contents cap q)"
    unfolding c using d(3-6) by (cases rule: rb_push_cases [OF i, of x]) (auto simp: rb_enq_def)
  show "rb_inv cap q' \<and> unat cap = unat cap \<and> rb_contents cap q' = rb_contents cap q @ [x]"
    if e: "rb_enq cap q x = Some q'"
  proof (cases rule: rb_push_cases [OF i, of x])
    case (1 s')
    with e show ?thesis by (simp add: rb_enq_def)
  next
    case (2 s' cr')
    with e have "q' = s'" by (simp add: rb_enq_def)
    with 2 rb_contents_eq(1) [OF 2(3)] c d(4,5) show ?thesis by (auto simp: rb_inv_def)
  qed
  show "rb_deq cap q = None \<longleftrightarrow> rb_contents cap q = []"
    unfolding c by (cases rule: rb_pop_cases [OF i]) (auto simp: rb_deq_def)
  show "rb_inv cap q' \<and> unat cap = unat cap \<and> rb_contents cap q = x # rb_contents cap q'"
    if e: "rb_deq cap q = Some (x, q')"
  proof (cases rule: rb_pop_cases [OF i])
    case (1 s')
    with e show ?thesis by (simp add: rb_deq_def)
  next
    case (2 s' s'' cw')
    with e have q: "q' = s'" "x = xs ! C" by (simp_all add: rb_deq_def)
    have "drop C xs = xs ! C # drop (Suc C) xs" using 2(3) by (rule Cons_nth_drop_Suc [symmetric])
    with 2(4) rb_contents_eq(1) [OF 2(4)] c q show ?thesis by (auto simp: rb_inv_def)
  qed
qed

lemma rb_observers:
  assumes "rb_inv cap s"
  shows "snd (rb_peek cap s) = (case rb_contents cap s of [] \<Rightarrow> None | x # xs \<Rightarrow> Some x)"
    and "rb_empty (\<lambda>_. s) \<longleftrightarrow> rb_contents cap s = []" and "rb_full cap (\<lambda>_. s) \<longleftrightarrow> length (rb_contents cap s) = unat cap"
    and "unat (rb_size cap (\<lambda>_. s)) = length (rb_contents cap s)"
proof -
  obtain xs C cr cw where i: "rb_shared cap s xs C cr cw" using assms by (auto simp: rb_inv_def)
  note d = rb_sharedD [OF i] and c = rb_contents_eq [OF i]
  show "snd (rb_peek cap s) = (case rb_contents cap s of [] \<Rightarrow> None | x # xs \<Rightarrow> Some x)"
    unfolding c(1) by (cases rule: rb_pop_cases [OF i]) (auto simp: Cons_nth_drop_Suc [symmetric])
  have "rb_isEmpty (mWritePos s) (mReadPos s) \<longleftrightarrow> length xs = C" "rb_isFull cap (mWritePos s) (mReadPos s) \<longleftrightarrow> length xs = C + unat cap"
    unfolding d(7,8) using d(3-6) by (intro rb_isEmpty_iff [where cap = cap] rb_isFull_iff; linarith)+
  then show "rb_empty (\<lambda>_. s) \<longleftrightarrow> rb_contents cap s = []" "rb_full cap (\<lambda>_. s) \<longleftrightarrow> length (rb_contents cap s) = unat cap"
    using d(3-6) by (auto simp: rb_empty_def rb_full_def c(1))
  have "mWritePos s - mReadPos s \<le> cap" using d(3-6) by (simp add: word_le_nat_alt c(2))
  then show "unat (rb_size cap (\<lambda>_. s)) = length (rb_contents cap s)" by (simp add: rb_size_def Let_def c)
qed

end
