(* ===== verification/LockFreeRingBuffer_Contract.thy ===== *)
theory LockFreeRingBuffer_Contract
  imports LockFreeRingBuffer
begin

text \<open>
  \<open>LockFreeRingBufferMPMC\<close> in one thread against a bounded queue, from the invariant of the threads,
  and the properties of \<open>LockFreeRingBuffer.h\<close>.
\<close>

section \<open>The buffer for several producers and consumers, at rest\<close>

definition quiet :: "'a ring \<Rightarrow> 'a list \<Rightarrow> (nat \<times> 'a) list \<Rightarrow> 'a lfq" where
  "quiet r h os = \<lparr>ring = r, mStats = no_stats, pcs = (\<lambda>_. Idle), h_in = h, outs = os\<rparr>"

text \<open>\<open>n\<close> values have been pushed, of which \<open>xs\<close> are left.\<close>

definition mpmc_holds :: "size_t \<Rightarrow> 'a ring \<Rightarrow> 'a list \<Rightarrow> nat \<Rightarrow> bool" where
  "mpmc_holds cap r xs n \<longleftrightarrow> (\<exists>h os. lfq_inv cap (quiet r h os) \<and> xs = drop (unat (mDequeuePos r)) h \<and> n = length h)"

lemma rb_slot_lfq: "rb_slot = lfq_slot"
  by (intro ext) (simp add: rb_slot_def lfq_slot_def)

lemma quiet_goto: "lfq_inv cap (goto t c s) \<Longrightarrow> \<forall>u. u \<noteq> t \<longrightarrow> pcs s u = Idle \<Longrightarrow> (\<And>p. \<not> writes c p) \<Longrightarrow> (\<And>p. \<not> reads c p) \<Longrightarrow>
    lfq_inv cap (quiet (ring s) (h_in s) (outs s))"
proof -
  assume inv: "lfq_inv cap (goto t c s)" and idle: "\<forall>u. u \<noteq> t \<longrightarrow> pcs s u = Idle"
    and free: "\<And>p. \<not> writes c p" "\<And>p. \<not> reads c p"
  have "lfq_inv cap (goto t Idle (goto t c s))"
    by (rule lfq_inv_goto [OF inv]) (simp_all add: free thread_ok_def)
  then have "lfq_inv cap ((goto t Idle (goto t c s))\<lparr>mStats := no_stats\<rparr>)" by simp
  moreover have "(goto t Idle (goto t c s))\<lparr>mStats := no_stats\<rparr> = quiet (ring s) (h_in s) (outs s)"
    using idle by (auto simp: goto_def quiet_def fun_eq_iff)
  ultimately show ?thesis by simp
qed

lemma mpmc_push_spec:
  assumes "mpmc_holds cap r xs n" and "n + 1 + unat cap < 2 ^ 63"
  shows "if length xs < unat cap
    then \<exists>r'. mpmc_push cap v r = Some (Inr (r', True)) \<and> mpmc_holds cap r' (xs @ [v]) (n + 1)
    else mpmc_push cap v r = Some (Inr (r, False))"
proof -
  obtain h os where inv: "lfq_inv cap (quiet r h os)" and xs: "xs = drop (unat (mDequeuePos r)) h" and n: "n = length h"
    using assms(1) unfolding mpmc_holds_def by blast
  let ?S = "quiet r h os"
  let ?pos = "mEnqueuePos r"
  note I = lfq_invD [OF inv] and R = ring_invD [OF lfq_invD(3) [OF inv]]
  have S: "ring ?S = r" "h_in ?S = h" "outs ?S = os" "pcs ?S t = Idle" for t by (simp_all add: quiet_def)
  have len: "length h = enq_pos ?S" "length xs = enq_pos ?S - deq_pos ?S" using R(5) by (simp_all add: S xs)
  have b: "enq_pos ?S + unat cap < 2 ^ 63" using assms(2) len(1) n by simp
  let ?x = "sequences r ! lfq_slot cap ?pos"
  have x: "unat ?x = seq_at cap ?S (enq_pos ?S)" by (simp add: seq_at_def lfq_slot_mod [OF I(1)] S)
  obtain d where d: "int64_diff ?x ?pos = Some d" "d = 0 \<longleftrightarrow> unat ?x = unat ?pos" "d < 0 \<longleftrightarrow> unat ?x < unat ?pos"
    using enqueue_diff [OF inv _ b, of ?pos "seen Newest ?x" Newest] by (auto simp: S)
  have lt: "seq_at cap ?S (enq_pos ?S) < enq_pos ?S \<longleftrightarrow> enq_pos ?S = deq_pos ?S + unat cap"
    unfolding next_not_free_iff [OF inv] by (simp add: S)
  show ?thesis
  proof (cases "length xs < unat cap")
    case False
    then have "enq_pos ?S = deq_pos ?S + unat cap" using len R(3,4) by simp
    then have "d < 0" "d \<noteq> 0" using lt d(3) by (simp_all add: x S)
    then have "mpmc_push cap v r = Some (Inr (r, False))"
      unfolding mpmc_push_def by (subst mpmc_push_loop.simps) (simp add: rb_slot_lfq d(1))
    with False show ?thesis by simp
  next
    case True
    then have "enq_pos ?S \<noteq> deq_pos ?S + unat cap" using len R(3) by simp
    then have "enq_pos ?S \<le> seq_at cap ?S (enq_pos ?S)" using lt by simp
    note ready = enqueue_ready(1) [OF inv this]
    then have d0: "d = 0" using d(2) by (simp add: x S)
    let ?r' = "r\<lparr>mEnqueuePos := ?pos + 1, datas := (datas r)[rb_slot cap ?pos := v],
      sequences := (sequences r)[rb_slot cap ?pos := ?pos + 1]\<rparr>"
    have run: "mpmc_push cap v r = Some (Inr (?r', True))"
      unfolding mpmc_push_def by (subst mpmc_push_loop.simps) (simp add: rb_slot_lfq d(1) d0)
    let ?S1 = "goto 0 (E_cas v ?pos) ?S"
    have i1: "lfq_inv cap ?S1" by (rule lfq_inv_goto [OF inv]) (use ready in \<open>simp_all add: S thread_ok_def\<close>)
    let ?S2 = "goto 0 (E_write v ?pos) (?S1\<lparr>ring := (ring ?S1)\<lparr>mEnqueuePos := ?pos + 1\<rparr>, h_in := h_in ?S1 @ [v]\<rparr>)"
    have i2: "lfq_inv cap ?S2" by (rule lfq_inv_claim_enqueue [OF i1]) (use b in \<open>simp_all add: S\<close>)
    let ?S3 = "goto 0 (E_publish v ?pos) (?S2\<lparr>ring := (ring ?S2)\<lparr>datas := (datas (ring ?S2))[lfq_slot cap ?pos := v]\<rparr>\<rparr>)"
    have i3: "lfq_inv cap ?S3" by (rule lfq_inv_write [OF i2]) simp
    let ?S4 = "?S3\<lparr>ring := (ring ?S3)\<lparr>sequences := (sequences (ring ?S3))[lfq_slot cap ?pos := ?pos + 1]\<rparr>\<rparr>"
    have e: "unat (?pos + 1) = unat ?pos + 1" using b I(2) by (intro unat_Suc_small) (simp add: S)
    have b3: "enq_pos ?S3 + unat cap < 2 ^ 63" using assms(2) e len(1) n by (simp add: S)
    have i4: "lfq_inv cap (goto 0 (E_stat True) ?S4)" by (rule lfq_inv_publish [OF i3 _ b3]) simp
    have "lfq_inv cap (quiet (ring ?S4) (h_in ?S4) (outs ?S4))"
      by (rule quiet_goto [OF i4]) (simp_all add: S)
    moreover have "ring ?S4 = ?r'" "h_in ?S4 = h @ [v]" "outs ?S4 = os" by (simp_all add: S rb_slot_lfq)
    ultimately have "mpmc_holds cap ?r' (drop (unat (mDequeuePos r)) (h @ [v])) (n + 1)"
      unfolding mpmc_holds_def n by (intro exI [of _ "h @ [v]"] exI [of _ os]) simp
    moreover have "drop (unat (mDequeuePos r)) (h @ [v]) = xs @ [v]" using R(3,5) by (simp add: S xs)
    ultimately show ?thesis using run True by auto
  qed
qed

lemma mpmc_pop_spec:
  assumes "mpmc_holds cap r xs n" and "n + unat cap < 2 ^ 63"
  shows "case xs of [] \<Rightarrow> mpmc_pop cap r = Some (Inr (r, None))
    | x # ys \<Rightarrow> \<exists>r'. mpmc_pop cap r = Some (Inr (r', Some x)) \<and> mpmc_holds cap r' ys n"
proof -
  obtain h os where inv: "lfq_inv cap (quiet r h os)" and xs: "xs = drop (unat (mDequeuePos r)) h" and n: "n = length h"
    using assms(1) unfolding mpmc_holds_def by blast
  let ?S = "quiet r h os"
  let ?pos = "mDequeuePos r"
  note I = lfq_invD [OF inv] and R = ring_invD [OF lfq_invD(3) [OF inv]]
  have S: "ring ?S = r" "h_in ?S = h" "outs ?S = os" "pcs ?S t = Idle" for t by (simp_all add: quiet_def)
  have len: "length h = enq_pos ?S" using R(5) by (simp add: S)
  have b: "enq_pos ?S + unat cap < 2 ^ 63" using assms(2) len n by simp
  let ?x = "sequences r ! lfq_slot cap ?pos"
  have x: "unat ?x = seq_at cap ?S (deq_pos ?S)" by (simp add: seq_at_def lfq_slot_mod [OF I(1)] S)
  obtain d where d: "int64_diff ?x (?pos + 1) = Some d" "d = 0 \<longleftrightarrow> unat ?x = unat ?pos + 1" "d < 0 \<longleftrightarrow> unat ?x < unat ?pos + 1"
    using dequeue_diff [OF inv _ b, of ?pos "seen Newest ?x" Newest] by (auto simp: S)
  have lt: "seq_at cap ?S (deq_pos ?S) < deq_pos ?S + 1 \<longleftrightarrow> deq_pos ?S = enq_pos ?S"
    unfolding first_not_ready_iff [OF inv] by (simp add: S)
  show ?thesis
  proof (cases xs)
    case Nil
    then have "deq_pos ?S = enq_pos ?S" using len R(3) by (simp add: S xs)
    then have "d < 0" "d \<noteq> 0" using lt d(3) by (simp_all add: x S)
    then have "mpmc_pop cap r = Some (Inr (r, None))"
      unfolding mpmc_pop_def by (subst mpmc_pop_loop.simps) (simp add: rb_slot_lfq d(1))
    with Nil show ?thesis by simp
  next
    case (Cons y ys)
    then have "deq_pos ?S \<noteq> enq_pos ?S" using len by (auto simp: S xs)
    then have "deq_pos ?S + 1 \<le> seq_at cap ?S (deq_pos ?S)" using lt by simp
    note ready = dequeue_ready [OF inv this]
    then have d0: "d = 0" using d(2) by (simp add: x S)
    have lt_h: "unat ?pos < length h" using ready(2) len by (simp add: in_lap_def S)
    have y: "h ! unat ?pos = y" "drop (Suc (unat ?pos)) h = ys"
      using Cons Cons_nth_drop_Suc [OF lt_h] unfolding xs by auto
    have dat: "datas r ! lfq_slot cap ?pos = y" using ready(3) y(1) by (simp add: data_at_def lfq_slot_mod [OF I(1)] S)
    let ?r' = "r\<lparr>mDequeuePos := ?pos + 1, sequences := (sequences r)[rb_slot cap ?pos := ?pos + cap]\<rparr>"
    have run: "mpmc_pop cap r = Some (Inr (?r', Some y))"
      unfolding mpmc_pop_def by (subst mpmc_pop_loop.simps) (simp add: rb_slot_lfq d(1) d0 dat)
    let ?S1 = "goto 0 (D_cas ?pos) ?S"
    have i1: "lfq_inv cap ?S1" by (rule lfq_inv_goto [OF inv]) (use ready in \<open>simp_all add: S thread_ok_def\<close>)
    let ?S2 = "goto 0 (D_read ?pos) (?S1\<lparr>ring := (ring ?S1)\<lparr>mDequeuePos := ?pos + 1\<rparr>\<rparr>)"
    have i2: "lfq_inv cap ?S2" by (rule lfq_inv_claim_dequeue [OF i1]) (use b in \<open>simp_all add: S\<close>)
    let ?S3 = "goto 0 (D_release ?pos (datas (ring ?S2) ! lfq_slot cap ?pos)) ?S2"
    have i3: "lfq_inv cap ?S3" by (rule lfq_inv_read [OF i2]) simp
    let ?S4 = "?S3\<lparr>ring := (ring ?S3)\<lparr>sequences := (sequences (ring ?S3))[lfq_slot cap ?pos := ?pos + cap]\<rparr>,
      outs := outs ?S3 @ [(unat ?pos, datas (ring ?S2) ! lfq_slot cap ?pos)]\<rparr>"
    have i4: "lfq_inv cap (goto 0 (D_stat (Some (datas (ring ?S2) ! lfq_slot cap ?pos))) ?S4)"
      by (rule lfq_inv_release [OF i3]) (use b in \<open>simp_all add: S\<close>)
    have "lfq_inv cap (quiet (ring ?S4) (h_in ?S4) (outs ?S4))"
      by (rule quiet_goto [OF i4]) (simp_all add: S)
    moreover have "ring ?S4 = ?r'" "h_in ?S4 = h" by (simp_all add: S rb_slot_lfq)
    ultimately have "mpmc_holds cap ?r' (drop (unat (?pos + 1)) h) n"
      unfolding mpmc_holds_def n by (intro exI [of _ h] exI [of _ "outs ?S4"]) simp
    moreover have "unat (?pos + 1) = Suc (unat ?pos)" using b lt_h len I(2) by (subst unat_Suc_small) (simp_all add: S)
    ultimately show ?thesis using run y(2) Cons by auto
  qed
qed

section \<open>Sequences of calls\<close>

datatype 'a ring_call = Push 'a | Pop

datatype 'a ring_answer = Pushed bool | Popped "'a option"

definition mpmc_exec :: "size_t \<Rightarrow> 'a ring_call \<Rightarrow> 'a ring \<Rightarrow> ('a ring \<times> 'a ring_answer) option" where
  "mpmc_exec cap c r = (case c of
      Push v \<Rightarrow> (case mpmc_push cap v r of Some (Inr (r', b)) \<Rightarrow> Some (r', Pushed b) | _ \<Rightarrow> None)
    | Pop \<Rightarrow> (case mpmc_pop cap r of Some (Inr (r', x)) \<Rightarrow> Some (r', Popped x) | _ \<Rightarrow> None))"

text \<open>The specification: a queue that holds at most \<open>cap\<close> values.\<close>

fun bounded_queue :: "nat \<Rightarrow> 'a list \<Rightarrow> 'a ring_call list \<Rightarrow> 'a ring_answer list" where
  "bounded_queue cap xs [] = []"
| "bounded_queue cap xs (Push v # cs) =
    (if length xs < cap then Pushed True # bounded_queue cap (xs @ [v]) cs else Pushed False # bounded_queue cap xs cs)"
| "bounded_queue cap [] (Pop # cs) = Popped None # bounded_queue cap [] cs"
| "bounded_queue cap (x # xs) (Pop # cs) = Popped (Some x) # bounded_queue cap xs cs"

lemma mpmc_run:
  assumes "mpmc_holds cap r xs n" and "n + length cs + unat cap < 2 ^ 63"
  shows "\<exists>r'. exec_all (mpmc_exec cap) cs r = Some (r', bounded_queue (unat cap) xs cs)"
  using assms
proof (induction "unat cap" xs cs arbitrary: r n rule: bounded_queue.induct)
  case (1 xs)
  then show ?case by simp
next
  case (2 xs v cs)
  note p = mpmc_push_spec [OF 2(3), of v]
  have b: "n + 1 + unat cap < 2 ^ 63" "n + 1 + length cs + unat cap < 2 ^ 63" "n + length cs + unat cap < 2 ^ 63"
    using 2(4) by simp_all
  show ?case
  proof (cases "length xs < unat cap")
    case True
    obtain r1 where r1: "mpmc_push cap v r = Some (Inr (r1, True))" "mpmc_holds cap r1 (xs @ [v]) (n + 1)"
      using p b(1) True by auto
    from 2(1) [OF True r1(2) b(2)] r1(1) True show ?thesis by (auto simp: mpmc_exec_def)
  next
    case False
    then have "mpmc_push cap v r = Some (Inr (r, False))" using p b(1) by simp
    with 2(2) [OF False 2(3) b(3)] False show ?thesis by (auto simp: mpmc_exec_def)
  qed
next
  case (3 cs)
  then have "mpmc_pop cap r = Some (Inr (r, None))" using mpmc_pop_spec [OF 3(2)] by simp
  with 3(1) [OF 3(2)] 3(3) show ?case by (auto simp: mpmc_exec_def)
next
  case (4 x xs cs)
  obtain r1 where r1: "mpmc_pop cap r = Some (Inr (r1, Some x))" "mpmc_holds cap r1 xs n"
    using mpmc_pop_spec [OF 4(2)] 4(3) by auto
  from 4(1) [OF r1(2)] 4(3) r1(1) show ?case by (auto simp: mpmc_exec_def)
qed

lemma mpmc_new_holds:
  assumes new: "mpmc_new memory sizeof_slot junk capacity = Inr (cap, r)" and "length junk = unat cap" and "1 < capacity"
  shows "mpmc_holds cap r [] 0"
proof -
  have cap: "cap = roundUpPowerOfTwo capacity" and r: "r = ring_new cap junk"
    using new by (auto simp: mpmc_new_def ring_new_def Let_def split: sum.splits)
  have two: "1 < unat cap"
  proof (cases "capacity \<le> 2 ^ 63")
    case True
    obtain k where "unat cap = 2 ^ k" "unat capacity \<le> 2 ^ k" using roundUp_between [OF assms(3) True] cap by auto
    with assms(3) show ?thesis by (simp add: word_less_nat_alt)
  next
    case False
    then have "cap = 2 ^ 63" using assms(3) by (auto simp: cap roundUp_smear)
    then show ?thesis by (simp add: unat_2_63)
  qed
  have "lfq_valid cap" unfolding lfq_valid_iff cap by (rule roundUp_power)
  from lfq_inv_init [OF this two assms(2)] have "lfq_inv cap (quiet r [] [])"
    by (simp add: lfq_init_def quiet_def r)
  then show ?thesis unfolding mpmc_holds_def by (intro exI [of _ "[]"]) (auto simp: r ring_new_def)
qed

lemma mpmc_pop_spins:
  fixes r :: "'a ring"
  assumes "sequences r = [2]" and "mDequeuePos r = 0"
  shows "mpmc_pop 1 r = None"
proof (rule ccontr)
  let ?P = "\<lambda>(cap :: size_t) (pos :: size_t) r' (y :: ('a ring \<times> 'a option) result). \<not> (cap = 1 \<and> pos = 0 \<and> r' = r)"
  assume "mpmc_pop 1 r \<noteq> None"
  then obtain y where y: "mpmc_pop_loop 1 0 r = Some y" unfolding mpmc_pop_def assms(2) by blast
  have "?P 1 0 r y"
  proof (rule mpmc_pop_loop.raw_induct [where P = ?P, OF _ y], rule notI)
    fix loop :: "size_t \<Rightarrow> size_t \<Rightarrow> 'a ring \<Rightarrow> ('a ring \<times> 'a option) result option" and cap pos r' y
    assume IH: "\<And>cap pos r' y. loop cap pos r' = Some y \<Longrightarrow> ?P cap pos r' y"
      and body: "(case int64_diff (sequences r' ! rb_slot cap pos) (pos + 1) of
          None \<Rightarrow> Some (Inl Undefined_behaviour)
        | Some diff \<Rightarrow>
            if diff = 0 then
              if mDequeuePos r' = pos then
                Some (Inr (r'\<lparr>mDequeuePos := pos + 1,
                  sequences := (sequences r')[rb_slot cap pos := pos + cap]\<rparr>, Some (datas r' ! rb_slot cap pos)))
              else loop cap (mDequeuePos r') r'
            else if diff < 0 then Some (Inr (r', None))
            else loop cap (mDequeuePos r') r') = Some y"
      and eq: "cap = 1 \<and> pos = 0 \<and> r' = r"
    have "rb_slot 1 0 = 0" "int64_diff 2 (0 + 1) = Some 1" by (simp_all add: rb_slot_def int64_diff_def)
    with body eq assms have "loop 1 0 r = Some y" by simp
    with IH show False by blast
  qed
  then show False by blast
qed

section \<open>Properties\<close>

text \<open>C23: a \<open>LockFreeRingBufferMPMC\<close> constructed for two elements or more answers every sequence of
  calls, made one after the other, as a queue of its capacity does: the loops return, \<open>push\<close> fails
  exactly when the queue is full and \<open>pop\<close> exactly when it is empty.\<close>

theorem ring_buffer_mpmc_refines_queue:
  assumes "mpmc_new memory sizeof_slot junk capacity = Inr (cap, r)" and "length junk = unat cap" and "1 < capacity"
    and "length cs + unat cap < 2 ^ 63"
  shows "\<exists>r'. exec_all (mpmc_exec cap) cs r = Some (r', bounded_queue (unat cap) [] cs)"
  using mpmc_run [OF mpmc_new_holds [OF assms(1-3)], of cs] assms(4) by simp

text \<open>Constructed for one element, or for none, the buffer is broken: it accepts a second value
  while it is full, which overwrites the first, and then \<open>pop\<close> does not return.\<close>

theorem ring_buffer_mpmc_one_slot:
  assumes "capacity \<le> 1" and "sizeof_slot > 0" and "memory sizeof_slot"
  shows "\<exists>r r1 r2. mpmc_new memory sizeof_slot [junk] capacity = Inr (1, r)
    \<and> mpmc_push 1 v r = Some (Inr (r1, True)) \<and> mpmc_full 1 (\<lambda>_. r1)
    \<and> mpmc_push 1 w r1 = Some (Inr (r2, True)) \<and> datas r2 = [w] \<and> mpmc_pop 1 r2 = None"
proof -
  have "capacity = 0 \<or> capacity = 1" using assms(1) by (metis word_less_1 le_less)
  then have cap: "roundUpPowerOfTwo capacity = 1" by (auto simp: roundUp_smear smear_all_def smear_def)
  have "(1 :: size_t) \<le> (- 1) div sizeof_slot"
    using assms(2) by (simp add: word_le_nat_alt unat_div Suc_le_eq div_greater_zero_iff unat_gt_0 word_greater_zero_iff
        flip: word_less_nat_alt) (metis word_n1_ge word_le_nat_alt)
  then have alloc: "allocateAligned memory sizeof_slot 1 = Inr sizeof_slot"
    using assms(2,3) by (simp add: allocateAligned_def not_less [symmetric])
  let ?r = "\<lparr>sequences = [0], datas = [junk], mEnqueuePos = 0, mDequeuePos = 0\<rparr>"
  let ?r1 = "\<lparr>sequences = [1], datas = [v], mEnqueuePos = 1, mDequeuePos = 0\<rparr>"
  let ?r2 = "\<lparr>sequences = [2], datas = [w], mEnqueuePos = 2, mDequeuePos = 0\<rparr>"
  have "mpmc_new memory sizeof_slot [junk] capacity = Inr (1, ?r)"
    by (simp add: mpmc_new_def cap alloc)
  moreover have "mpmc_push 1 v ?r = Some (Inr (?r1, True))" "mpmc_push 1 w ?r1 = Some (Inr (?r2, True))"
    unfolding mpmc_push_def by (subst mpmc_push_loop.simps, simp add: rb_slot_def int64_diff_def)+
  moreover have "mpmc_pop 1 ?r2 = None" by (rule mpmc_pop_spins) simp_all
  moreover have "mpmc_full 1 (\<lambda>_. ?r1)" by (simp add: mpmc_full_def)
  ultimately show ?thesis by (intro exI [of _ ?r] exI [of _ ?r1] exI [of _ ?r2]) simp
qed


section \<open>Witnesses\<close>

lemma round_up_three: "roundUpPowerOfTwo 3 = 4"
  by code_simp

theorem ring_buffer_mpmc_refines_queue_witness:
  "\<exists>r r'. mpmc_new (\<lambda>_. True) 64 [0, 0, 0, 0 :: nat] 3 = Inr (4, r)
    \<and> exec_all (mpmc_exec 4) [Push 1, Push 2, Pop, Push 3, Pop, Pop, Pop] r
      = Some (r', [Pushed True, Pushed True, Popped (Some 1), Pushed True, Popped (Some 2), Popped (Some 3), Popped None])"
proof -
  have "allocateAligned (\<lambda>_. True) 64 4 = Inr 256" by code_simp
  then obtain r where r: "mpmc_new (\<lambda>_. True) 64 [0, 0, 0, 0 :: nat] 3 = Inr (4, r)"
    by (simp add: mpmc_new_def Let_def round_up_three)
  from ring_buffer_mpmc_refines_queue [OF this, of "[Push 1, Push 2, Pop, Push 3, Pop, Pop, Pop]"] r
  show ?thesis by simp
qed

theorem ring_buffer_mpmc_one_slot_witness:
  "\<exists>r r1 r2. mpmc_new (\<lambda>_. True) 64 [0 :: nat] 0 = Inr (1, r) \<and> mpmc_push 1 5 r = Some (Inr (r1, True))
    \<and> mpmc_push 1 6 r1 = Some (Inr (r2, True)) \<and> mpmc_pop 1 r2 = None"
  using ring_buffer_mpmc_one_slot [of 0 64 "\<lambda>_. True" 0 5 6] by auto


end
