(* ===== verification/WorkQueue.thy ===== *)
theory WorkQueue
  imports LockFreeRingBuffer_Contract
begin

text \<open>
  \<open>WorkQueue.h\<close>: a work queue made of \<open>ShardCount\<close> bounded queues (\<open>LockFreeQueue\<close>).  A call tries
  the shard of its token, then some shards chosen by the routing policy, then all of them.

  The calls are modelled as they run when no other thread interferes: \<open>shard_enqueue\<close> and
  \<open>shard_dequeue\<close> are the calls of a shard, whose loop is that of \<^const>\<open>mpmc_push_loop\<close> and
  \<^const>\<open>mpmc_pop_loop\<close>; what a shard does when threads interleave is the subject of \<open>LockFreeQueue\<close>.
  The routing policy is a record of the constants and the optional functions that the template
  looks for; the hash of the thread is a parameter.
\<close>

section \<open>Routing\<close>

definition mix64 :: "u64 \<Rightarrow> u64" where
  "mix64 x = (let x = x + 0x9e3779b97f4a7c15;
     x = (x XOR drop_bit 30 x) * 0xbf58476d1ce4e5b9;
     x = (x XOR drop_bit 27 x) * 0x94d049bb133111eb
   in x XOR drop_bit 31 x)"

text \<open>\<open>xorshift32\<close> returns the new state.\<close>

definition xorshift32 :: "u32 \<Rightarrow> u32" where
  "xorshift32 state = (let x = state; x = x XOR push_bit 13 x; x = x XOR drop_bit 17 x; x = x XOR push_bit 5 x
   in if x = 0 then 0x9e3779b9 else x)"

record routing_policy =
  kEnqueueProbeCount :: nat
  kDequeueProbeCount :: nat
  kEnqueueScanCount :: size_t
  kDequeueScanCount :: size_t
  kScanAllOnEnqueueFail :: bool
  kScanAllOnDequeueFail :: bool
  enqueue_probe :: "(size_t \<Rightarrow> size_t \<Rightarrow> size_t \<Rightarrow> u32 \<Rightarrow> size_t \<times> u32) option"
  dequeue_probe :: "(size_t \<Rightarrow> size_t \<Rightarrow> size_t \<Rightarrow> u32 \<Rightarrow> size_t \<times> u32) option"
  enqueue_scan_start :: "(size_t \<Rightarrow> size_t \<Rightarrow> u32 \<Rightarrow> size_t \<times> u32) option"
  dequeue_scan_start :: "(size_t \<Rightarrow> size_t \<Rightarrow> u32 \<Rightarrow> size_t \<times> u32) option"

definition DefaultRoutingPolicy :: routing_policy where
  "DefaultRoutingPolicy = \<lparr>kEnqueueProbeCount = 4, kDequeueProbeCount = 8, kEnqueueScanCount = 0, kDequeueScanCount = 0,
     kScanAllOnEnqueueFail = True, kScanAllOnDequeueFail = True, enqueue_probe = None, dequeue_probe = None,
     enqueue_scan_start = None, dequeue_scan_start = None\<rparr>"

definition round_robin_probe :: "size_t \<Rightarrow> size_t \<Rightarrow> size_t \<Rightarrow> u32 \<Rightarrow> size_t \<times> u32" where
  "round_robin_probe currentShard attempt shardCount rng = ((currentShard + 1 + attempt) mod shardCount, rng)"

definition RoundRobinRoutingPolicy :: routing_policy where
  "RoundRobinRoutingPolicy = DefaultRoutingPolicy\<lparr>
     enqueue_probe := Some round_robin_probe, dequeue_probe := Some round_robin_probe,
     enqueue_scan_start := Some (\<lambda>currentShard shardCount rng. (currentShard, rng)),
     dequeue_scan_start := Some (\<lambda>currentShard shardCount rng. (currentShard, rng))\<rparr>"

definition stride_probe :: "size_t \<Rightarrow> size_t \<Rightarrow> size_t \<Rightarrow> size_t \<Rightarrow> u32 \<Rightarrow> size_t \<times> u32" where
  "stride_probe stride currentShard attempt shardCount rng = ((currentShard + stride * (attempt + 1)) mod shardCount, rng)"

definition StrideRoutingPolicy :: "size_t \<Rightarrow> routing_policy" where
  "StrideRoutingPolicy stride = DefaultRoutingPolicy\<lparr>
     enqueue_probe := Some (stride_probe stride), dequeue_probe := Some (stride_probe stride),
     enqueue_scan_start := Some (\<lambda>currentShard shardCount rng. (currentShard, rng)),
     dequeue_scan_start := Some (\<lambda>currentShard shardCount rng. (currentShard, rng))\<rparr>"

text \<open>\<open>enqueueProbeShard\<close>, \<open>dequeueProbeShard\<close>, \<open>enqueueScanStart\<close> and \<open>dequeueScanStart\<close>: the function
  of the policy if it has one, otherwise a random shard.\<close>

definition probe_shard :: "(size_t \<Rightarrow> size_t \<Rightarrow> size_t \<Rightarrow> u32 \<Rightarrow> size_t \<times> u32) option \<Rightarrow> size_t \<Rightarrow> size_t \<Rightarrow> size_t \<Rightarrow> u32 \<Rightarrow> size_t \<times> u32" where
  "probe_shard f shardCount current attempt rng = (case f of
      Some probe \<Rightarrow> probe current attempt shardCount rng
    | None \<Rightarrow> (let rng = xorshift32 rng in (ucast rng mod shardCount, rng)))"

definition scan_start :: "(size_t \<Rightarrow> size_t \<Rightarrow> u32 \<Rightarrow> size_t \<times> u32) option \<Rightarrow> size_t \<Rightarrow> size_t \<Rightarrow> u32 \<Rightarrow> size_t \<times> u32" where
  "scan_start f shardCount current rng = (case f of
      Some start \<Rightarrow> start current shardCount rng
    | None \<Rightarrow> (let rng = xorshift32 rng in (ucast rng mod shardCount, rng)))"

text \<open>\<open>effectiveEnqueueScanCount\<close> and \<open>effectiveDequeueScanCount\<close>.\<close>

definition effective_scan_count :: "size_t \<Rightarrow> size_t \<Rightarrow> size_t" where
  "effective_scan_count cap shardCount = (if cap = 0 then shardCount else if cap > shardCount then shardCount else cap)"

record token =
  mShardIndex :: size_t
  mRngState :: u32

definition makeProducerToken :: "u64 \<Rightarrow> size_t \<Rightarrow> token" where
  "makeProducerToken thread_id_hash shardCount = (let h = mix64 thread_id_hash in
     \<lparr>mShardIndex = h mod shardCount, mRngState = ucast h OR 1\<rparr>)"

definition makeConsumerToken :: "u64 \<Rightarrow> size_t \<Rightarrow> token" where
  "makeConsumerToken thread_id_hash shardCount = (let h = mix64 thread_id_hash in
     \<lparr>mShardIndex = drop_bit 32 h mod shardCount, mRngState = ucast (drop_bit 32 h) OR 1\<rparr>)"

section \<open>Calls\<close>

text \<open>The static assertions.\<close>

definition wq_valid :: "size_t \<Rightarrow> size_t \<Rightarrow> bool" where
  "wq_valid shardCount shardCapacity \<longleftrightarrow> shardCount > 0 \<and> shardCapacity > 0
     \<and> shardCapacity AND (shardCapacity - 1) = 0 \<and> shardCount \<le> (- 1) div shardCapacity"

definition wq_new :: "size_t \<Rightarrow> size_t \<Rightarrow> 'a list list \<Rightarrow> 'a ring list" where
  "wq_new shardCount shardCapacity junk = map (\<lambda>i. ring_new shardCapacity (junk ! i)) [0..<unat shardCount]"

text \<open>\<open>mShards[s].enqueue(value)\<close> and \<open>mShards[s].dequeue(value)\<close>; an index past the end of the array is undefined.\<close>

type_synonym ('q, 'r) shard_call = "'q \<Rightarrow> ('q \<times> 'r option) result option"

definition shard_enqueue :: "size_t \<Rightarrow> 'a \<Rightarrow> ('a ring, unit) shard_call" where
  "shard_enqueue shardCapacity v r = map_option (map_sum id (map_prod id (\<lambda>b. if b then Some () else None)))
     (mpmc_push_loop shardCapacity v (mEnqueuePos r) r)"

definition shard_dequeue :: "size_t \<Rightarrow> ('a ring, 'a) shard_call" where
  "shard_dequeue shardCapacity r = mpmc_pop_loop shardCapacity (mDequeuePos r) r"

definition on_shard :: "('q, 'r) shard_call \<Rightarrow> size_t \<Rightarrow> ('q list, 'r) shard_call" where
  "on_shard call s shards = (case vec_get shards (unat s) of
      Inl e \<Rightarrow> Some (Inl e)
    | Inr q \<Rightarrow> map_option (map_sum id (map_prod (\<lambda>q'. shards[unat s := q']) id)) (call q))"

text \<open>An outcome of a call that may not return or may be undefined, handed on to the rest.\<close>

definition and_then :: "'b result option \<Rightarrow> ('b \<Rightarrow> 'c result option) \<Rightarrow> 'c result option" where
  "and_then m f = (case m of None \<Rightarrow> None | Some (Inl e) \<Rightarrow> Some (Inl e) | Some (Inr x) \<Rightarrow> f x)"

lemma and_then_Inr [simp]: "and_then (Some (Inr x)) f = f x"
  by (simp add: and_then_def)

text \<open>
  The probe and the scan loop, \<open>n\<close> iterations to go: the shard and the value of the first call that
  succeeds, with the state of the generator.
\<close>

fun probe_loop :: "('q, 'r) shard_call \<Rightarrow> (size_t \<Rightarrow> u32 \<Rightarrow> size_t \<times> u32) \<Rightarrow> nat \<Rightarrow> size_t \<Rightarrow> u32 \<Rightarrow> 'q list
    \<Rightarrow> ('q list \<times> u32 \<times> (size_t \<times> 'r) option) result option" where
  "probe_loop call probe 0 i rng shards = Some (Inr (shards, rng, None))"
| "probe_loop call probe (Suc n) i rng shards =
    (let (s, rng) = probe i rng in
     and_then (on_shard call s shards) (\<lambda>(shards', r). case r of
       Some x \<Rightarrow> Some (Inr (shards', rng, Some (s, x)))
     | None \<Rightarrow> probe_loop call probe n (i + 1) rng shards'))"

fun scan_loop :: "('q, 'r) shard_call \<Rightarrow> size_t \<Rightarrow> size_t \<Rightarrow> nat \<Rightarrow> size_t \<Rightarrow> 'q list
    \<Rightarrow> ('q list \<times> (size_t \<times> 'r) option) result option" where
  "scan_loop call shardCount start 0 i shards = Some (Inr (shards, None))"
| "scan_loop call shardCount start (Suc n) i shards =
    (let s = (start + i) mod shardCount in
     and_then (on_shard call s shards) (\<lambda>(shards', r). case r of
       Some x \<Rightarrow> Some (Inr (shards', Some (s, x)))
     | None \<Rightarrow> scan_loop call shardCount start n (i + 1) shards'))"

text \<open>The body that \<open>enqueueImpl\<close> and \<open>dequeueImpl\<close> have in common.\<close>

definition route :: "('q, 'r) shard_call \<Rightarrow> size_t \<Rightarrow> (size_t \<Rightarrow> size_t \<Rightarrow> u32 \<Rightarrow> size_t \<times> u32) \<Rightarrow> nat \<Rightarrow> bool
    \<Rightarrow> (size_t \<Rightarrow> u32 \<Rightarrow> size_t \<times> u32) \<Rightarrow> size_t \<Rightarrow> token \<Rightarrow> 'q list \<Rightarrow> ('q list \<times> token \<times> 'r option) result option" where
  "route call shardCount probe probes scan_all start scans tok shards =
    (let shardIndex = mShardIndex tok mod shardCount in
     and_then (on_shard call shardIndex shards) (\<lambda>(shards1, r1). case r1 of
       Some x \<Rightarrow> Some (Inr (shards1, tok\<lparr>mShardIndex := shardIndex\<rparr>, Some x))
     | None \<Rightarrow>
         and_then (probe_loop call (probe shardIndex) probes 0 (mRngState tok) shards1) (\<lambda>(shards2, rng, r2). case r2 of
           Some (s, x) \<Rightarrow> Some (Inr (shards2, tok\<lparr>mShardIndex := s, mRngState := rng\<rparr>, Some x))
         | None \<Rightarrow>
             if scan_all then
               let (st, rng) = start shardIndex rng in
               and_then (scan_loop call shardCount st (unat scans) 0 shards2) (\<lambda>(shards3, r3). case r3 of
                 Some (s, x) \<Rightarrow> Some (Inr (shards3, tok\<lparr>mShardIndex := s, mRngState := rng\<rparr>, Some x))
               | None \<Rightarrow> Some (Inr (shards3, tok\<lparr>mRngState := rng\<rparr>, None)))
             else Some (Inr (shards2, tok\<lparr>mRngState := rng\<rparr>, None)))))"

definition wq_enqueueImpl :: "routing_policy \<Rightarrow> size_t \<Rightarrow> size_t \<Rightarrow> token \<Rightarrow> 'a \<Rightarrow> 'a ring list
    \<Rightarrow> ('a ring list \<times> token \<times> unit option) result option" where
  "wq_enqueueImpl pol shardCount shardCapacity tok value shards =
    route (shard_enqueue shardCapacity value) shardCount (probe_shard (enqueue_probe pol) shardCount) (kEnqueueProbeCount pol)
      (kScanAllOnEnqueueFail pol) (scan_start (enqueue_scan_start pol) shardCount)
      (effective_scan_count (kEnqueueScanCount pol) shardCount) tok shards"

definition wq_dequeueImpl :: "routing_policy \<Rightarrow> size_t \<Rightarrow> size_t \<Rightarrow> token \<Rightarrow> 'a ring list
    \<Rightarrow> ('a ring list \<times> token \<times> 'a option) result option" where
  "wq_dequeueImpl pol shardCount shardCapacity tok shards =
    route (shard_dequeue shardCapacity) shardCount (probe_shard (dequeue_probe pol) shardCount) (kDequeueProbeCount pol)
      (kScanAllOnDequeueFail pol) (scan_start (dequeue_scan_start pol) shardCount)
      (effective_scan_count (kDequeueScanCount pol) shardCount) tok shards"

text \<open>\<open>tryDequeue\<close>, with \<open>n\<close> attempts to go.\<close>

fun wq_tryDequeue :: "routing_policy \<Rightarrow> size_t \<Rightarrow> size_t \<Rightarrow> nat \<Rightarrow> token \<Rightarrow> 'a ring list
    \<Rightarrow> ('a ring list \<times> token \<times> 'a option) result option" where
  "wq_tryDequeue pol shardCount shardCapacity 0 tok shards = Some (Inr (shards, tok, None))"
| "wq_tryDequeue pol shardCount shardCapacity (Suc n) tok shards =
    and_then (wq_dequeueImpl pol shardCount shardCapacity tok shards) (\<lambda>(shards', tok', r). case r of
      Some x \<Rightarrow> Some (Inr (shards', tok', Some x))
    | None \<Rightarrow> wq_tryDequeue pol shardCount shardCapacity n tok' shards')"

definition wq_empty :: "'a ring list \<Rightarrow> bool" where
  "wq_empty shards \<longleftrightarrow> list_all (\<lambda>r. lfq_empty (\<lambda>_. r)) shards"

definition wq_size :: "size_t \<Rightarrow> 'a ring list \<Rightarrow> size_t" where
  "wq_size shardCapacity shards = foldl (\<lambda>total r. total + lfq_size shardCapacity (\<lambda>_. r)) 0 shards"

definition wq_capacity :: "size_t \<Rightarrow> size_t \<Rightarrow> size_t" where
  "wq_capacity shardCount shardCapacity = shardCount * shardCapacity"

section \<open>Routing reaches every shard\<close>

text \<open>
  The contract between the routing and the calls of a shard: a call on a shard in order returns, and
  a call that fails leaves the shard as it was.
\<close>

locale shard_contract =
  fixes call :: "'q \<Rightarrow> ('q \<times> 'r option) result option"
    and fine :: "'q \<Rightarrow> bool"
    and refuses :: "'q \<Rightarrow> bool"
    and takes :: "'q \<Rightarrow> 'r \<Rightarrow> 'q \<Rightarrow> bool"
  assumes call_cases: "fine q \<Longrightarrow> call q = Some (Inr (q, None)) \<and> refuses q
    \<or> (\<exists>q' r. call q = Some (Inr (q', Some r)) \<and> takes q r q')"
begin

definition served :: "'q list \<Rightarrow> size_t \<Rightarrow> 'r \<Rightarrow> 'q list \<Rightarrow> bool" where
  "served shards s r shards' \<longleftrightarrow> unat s < length shards
     \<and> (\<exists>q'. takes (shards ! unat s) r q' \<and> shards' = shards[unat s := q'])"

lemma on_shard_cases:
  assumes "\<forall>q\<in>set shards. fine q" and "unat s < length shards"
  shows "on_shard call s shards = Some (Inr (shards, None)) \<and> refuses (shards ! unat s)
    \<or> (\<exists>shards' r. on_shard call s shards = Some (Inr (shards', Some r)) \<and> served shards s r shards')"
  using call_cases [of "shards ! unat s"] assms by (auto simp: on_shard_def served_def)

lemma probe_loop_cases:
  assumes "\<forall>q\<in>set shards. fine q" and "\<And>i rng. unat (fst (probe i rng)) < length shards"
  shows "\<exists>rng'. probe_loop call probe n i rng shards = Some (Inr (shards, rng', None))
    \<or> (\<exists>shards' s r. probe_loop call probe n i rng shards = Some (Inr (shards', rng', Some (s, r))) \<and> served shards s r shards')"
proof (induction n arbitrary: i rng)
  case (Suc n)
  obtain s rng1 where p: "probe i rng = (s, rng1)" by fastforce
  then have s: "unat s < length shards" using assms(2) [of i rng] by simp
  show ?case using on_shard_cases [OF assms(1) s] Suc [of "i + 1" rng1] by (auto simp: p)
qed simp

lemma scan_loop_cases:
  assumes "\<forall>q\<in>set shards. fine q" and "length shards = unat shardCount" and "0 < shardCount"
  shows "scan_loop call shardCount start n i shards = Some (Inr (shards, None))
      \<and> (\<forall>j<n. refuses (shards ! unat ((start + i + of_nat j) mod shardCount)))
    \<or> (\<exists>shards' s r. scan_loop call shardCount start n i shards = Some (Inr (shards', Some (s, r))) \<and> served shards s r shards')"
proof (induction n arbitrary: i)
  case (Suc n)
  let ?s = "(start + i) mod shardCount"
  have s: "unat ?s < length shards" using assms(2,3) by (simp add: unat_mod word_less_nat_alt)
  have "(\<forall>j<Suc n. refuses (shards ! unat ((start + i + of_nat j) mod shardCount)))"
    if "refuses (shards ! unat ?s)" "\<forall>j<n. refuses (shards ! unat ((start + (i + 1) + of_nat j) mod shardCount))"
    using that by (auto simp: less_Suc_eq_0_disj algebra_simps)
  then show ?case using on_shard_cases [OF assms(1) s] Suc [of "i + 1"] by (auto simp: Let_def)
qed simp

lemma scan_reaches:
  fixes start shardCount :: size_t
  assumes "start < shardCount" and "unat shardCount < 2 ^ 63" and "k < unat shardCount"
  shows "\<exists>j<unat shardCount. unat ((start + 0 + of_nat j) mod shardCount) = k"
proof -
  let ?S = "unat shardCount"
  define j where "j = (k + ?S - unat start) mod ?S"
  have st: "unat start < ?S" using assms(1) by (simp add: word_less_nat_alt)
  have j: "j < ?S" using st by (simp add: j_def)
  have "unat (of_nat j :: size_t) = j" using j assms(2) by (intro unat_of_nat_u64) simp
  then have "unat (start + of_nat j) = unat start + j" using unat_plus_small [of start "of_nat j"] st j assms(2) by (simp add: unat_plus_if')
  then have "unat ((start + of_nat j) mod shardCount) = (unat start + j) mod ?S" by (simp add: unat_mod)
  also have "\<dots> = (unat start + (k + ?S - unat start)) mod ?S" by (simp add: j_def mod_add_right_eq)
  also have "\<dots> = k" using st assms(3) by simp
  finally show ?thesis using j by (intro exI [of _ j]) simp
qed

text \<open>A call is served by one shard, or refused by all of them.\<close>

lemma route_cases:
  assumes fine: "\<forall>q\<in>set shards. fine q" and len: "length shards = unat shardCount" "0 < shardCount" "unat shardCount < 2 ^ 63"
    and probe: "\<And>c i rng. c < shardCount \<Longrightarrow> unat (fst (probe c i rng)) < unat shardCount"
    and start: "\<And>c rng. c < shardCount \<Longrightarrow> fst (start c rng) < shardCount"
  shows "(\<exists>tok'. route call shardCount probe probes True start shardCount tok shards = Some (Inr (shards, tok', None))
      \<and> (\<forall>q\<in>set shards. refuses q))
    \<or> (\<exists>tok' shards' s r. route call shardCount probe probes True start shardCount tok shards = Some (Inr (shards', tok', Some r))
      \<and> served shards s r shards')"
proof -
  let ?c = "mShardIndex tok mod shardCount"
  have c: "?c < shardCount" using len(2) by (simp add: word_less_nat_alt unat_mod)
  then have cl: "unat ?c < length shards" by (simp add: len word_less_nat_alt)
  obtain st rng2 where st: "\<And>rng. start ?c rng = (st rng, rng2 rng)"
    using that [of "\<lambda>rng. fst (start ?c rng)" "\<lambda>rng. snd (start ?c rng)"] by simp
  let ?route = "route call shardCount probe probes True start shardCount tok shards"
  consider (first) shards' r where "on_shard call ?c shards = Some (Inr (shards', Some r))" "served shards ?c r shards'"
    | (other) "on_shard call ?c shards = Some (Inr (shards, None))"
    using on_shard_cases [OF fine cl] by blast
  then show ?thesis
  proof cases
    case first
    then have "?route = Some (Inr (shards', tok\<lparr>mShardIndex := ?c\<rparr>, Some r))" by (simp add: route_def Let_def)
    with first(2) show ?thesis by blast
  next
    case other
    have "\<And>i rng. unat (fst (probe ?c i rng)) < length shards" using probe [OF c] by (simp add: len)
    from probe_loop_cases [where probe = "probe ?c" and n = probes and i = 0 and rng = "mRngState tok", OF fine this]
    consider (probed) rng shards' s r where
        "probe_loop call (probe ?c) probes 0 (mRngState tok) shards = Some (Inr (shards', rng, Some (s, r)))" "served shards s r shards'"
      | (not_probed) rng where "probe_loop call (probe ?c) probes 0 (mRngState tok) shards = Some (Inr (shards, rng, None))"
      by blast
    then show ?thesis
    proof cases
      case probed
      then have "?route = Some (Inr (shards', tok\<lparr>mShardIndex := s, mRngState := rng\<rparr>, Some r))"
        by (simp add: route_def Let_def other)
      with probed(2) show ?thesis by blast
    next
      case not_probed
      have lt: "st rng < shardCount" using start [OF c, of rng] by (simp add: st)
      from scan_loop_cases [OF fine len(1,2), of "st rng" "unat shardCount" 0]
      consider (scanned) shards' s r where
          "scan_loop call shardCount (st rng) (unat shardCount) 0 shards = Some (Inr (shards', Some (s, r)))" "served shards s r shards'"
        | (none) "scan_loop call shardCount (st rng) (unat shardCount) 0 shards = Some (Inr (shards, None))"
          "\<forall>j<unat shardCount. refuses (shards ! unat ((st rng + 0 + of_nat j) mod shardCount))"
        by blast
      then show ?thesis
      proof cases
        case scanned
        then have "?route = Some (Inr (shards', tok\<lparr>mShardIndex := s, mRngState := rng2 rng\<rparr>, Some r))"
          by (simp add: route_def Let_def other not_probed st)
        with scanned(2) show ?thesis by blast
      next
        case none
        have "refuses q" if qs: "q \<in> set shards" for q
        proof -
          obtain k where k: "k < unat shardCount" "q = shards ! k" using qs unfolding in_set_conv_nth len(1) by blast
          obtain j where j: "j < unat shardCount" "unat ((st rng + 0 + of_nat j) mod shardCount) = k"
            using scan_reaches [OF lt len(3) k(1)] by blast
          have "refuses (shards ! unat ((st rng + 0 + of_nat j) mod shardCount))" using none(2) j(1) by blast
          then show ?thesis unfolding j(2) k(2) .
        qed
        moreover have "?route = Some (Inr (shards, tok\<lparr>mRngState := rng2 rng\<rparr>, None))"
          using none(1) by (simp add: route_def Let_def other not_probed st)
        ultimately show ?thesis by blast
      qed
    qed
  qed
qed

end

text \<open>The calls of a shard keep this contract.\<close>

definition shard_fine :: "size_t \<Rightarrow> 'a ring \<Rightarrow> bool" where
  "shard_fine cap q \<longleftrightarrow> (\<exists>xs n. mpmc_holds cap q xs n \<and> n + 1 + unat cap < 2 ^ 63)"

interpretation shard_put: shard_contract "shard_enqueue cap v" "shard_fine cap"
    "\<lambda>q. \<forall>xs n. mpmc_holds cap q xs n \<and> n + 1 + unat cap < 2 ^ 63 \<longrightarrow> unat cap \<le> length xs"
    "\<lambda>q r q'. \<forall>xs n. mpmc_holds cap q xs n \<and> n + 1 + unat cap < 2 ^ 63 \<longrightarrow> length xs < unat cap \<and> mpmc_holds cap q' (xs @ [v]) (n + 1)"
  for cap v
proof
  fix q :: "'a ring"
  assume "shard_fine cap q"
  then obtain ys m where m: "mpmc_holds cap q ys m" "m + 1 + unat cap < 2 ^ 63" by (auto simp: shard_fine_def)
  note spec = mpmc_push_spec [of cap q _ _ v, unfolded mpmc_push_def]
  show "shard_enqueue cap v q = Some (Inr (q, None)) \<and> (\<forall>xs n. mpmc_holds cap q xs n \<and> n + 1 + unat cap < 2 ^ 63 \<longrightarrow> unat cap \<le> length xs)
    \<or> (\<exists>q' r. shard_enqueue cap v q = Some (Inr (q', Some r)) \<and> (\<forall>xs n. mpmc_holds cap q xs n \<and> n + 1 + unat cap < 2 ^ 63
        \<longrightarrow> length xs < unat cap \<and> mpmc_holds cap q' (xs @ [v]) (n + 1)))"
  proof (cases "length ys < unat cap")
    case True
    then obtain q' where q': "mpmc_push_loop cap v (mEnqueuePos q) q = Some (Inr (q', True))" using spec [OF m] by auto
    have "length xs < unat cap \<and> mpmc_holds cap q' (xs @ [v]) (n + 1)" if "mpmc_holds cap q xs n" "n + 1 + unat cap < 2 ^ 63" for xs n
      using spec [OF that] q' by (auto split: if_splits)
    with q' show ?thesis by (auto simp: shard_enqueue_def)
  next
    case False
    then have q': "mpmc_push_loop cap v (mEnqueuePos q) q = Some (Inr (q, False))" using spec [OF m] by auto
    have "unat cap \<le> length xs" if "mpmc_holds cap q xs n" "n + 1 + unat cap < 2 ^ 63" for xs n
      using spec [OF that] q' by (auto split: if_splits)
    with q' show ?thesis by (auto simp: shard_enqueue_def)
  qed
qed

interpretation shard_take: shard_contract "shard_dequeue cap" "shard_fine cap"
    "\<lambda>q. \<forall>xs n. mpmc_holds cap q xs n \<and> n + 1 + unat cap < 2 ^ 63 \<longrightarrow> xs = []"
    "\<lambda>q x q'. \<forall>xs n. mpmc_holds cap q xs n \<and> n + 1 + unat cap < 2 ^ 63 \<longrightarrow> (\<exists>ys. xs = x # ys \<and> mpmc_holds cap q' ys n)"
  for cap
proof
  fix q :: "'a ring"
  assume "shard_fine cap q"
  then obtain ys m where m: "mpmc_holds cap q ys m" "m + 1 + unat cap < 2 ^ 63" by (auto simp: shard_fine_def)
  have spec: "case xs of [] \<Rightarrow> mpmc_pop_loop cap (mDequeuePos q) q = Some (Inr (q, None))
    | x # ys \<Rightarrow> \<exists>r'. mpmc_pop_loop cap (mDequeuePos q) q = Some (Inr (r', Some x)) \<and> mpmc_holds cap r' ys n"
    if "mpmc_holds cap q xs n" "n + 1 + unat cap < 2 ^ 63" for xs n
    using mpmc_pop_spec [OF that(1)] that(2) unfolding mpmc_pop_def by simp
  show "shard_dequeue cap q = Some (Inr (q, None)) \<and> (\<forall>xs n. mpmc_holds cap q xs n \<and> n + 1 + unat cap < 2 ^ 63 \<longrightarrow> xs = [])
    \<or> (\<exists>q' r. shard_dequeue cap q = Some (Inr (q', Some r)) \<and> (\<forall>xs n. mpmc_holds cap q xs n \<and> n + 1 + unat cap < 2 ^ 63
        \<longrightarrow> (\<exists>ys. xs = r # ys \<and> mpmc_holds cap q' ys n)))"
  proof (cases ys)
    case Nil
    then have q': "mpmc_pop_loop cap (mDequeuePos q) q = Some (Inr (q, None))" using spec [OF m] by simp
    have "xs = []" if "mpmc_holds cap q xs n" "n + 1 + unat cap < 2 ^ 63" for xs n
      using spec [OF that] q' by (auto split: list.splits)
    with q' show ?thesis by (auto simp: shard_dequeue_def)
  next
    case (Cons x zs)
    then obtain q' where q': "mpmc_pop_loop cap (mDequeuePos q) q = Some (Inr (q', Some x))" using spec [OF m] by auto
    have "\<exists>ys. xs = x # ys \<and> mpmc_holds cap q' ys n" if "mpmc_holds cap q xs n" "n + 1 + unat cap < 2 ^ 63" for xs n
      using spec [OF that] q' by (auto split: list.splits)
    with q' show ?thesis by (auto simp: shard_dequeue_def)
  qed
qed

section \<open>A bounded bag\<close>

text \<open>\<open>xss\<close> are the values in the shards; no shard has taken in more than \<open>n\<close>.\<close>

definition wq_holds :: "size_t \<Rightarrow> 'a ring list \<Rightarrow> 'a list list \<Rightarrow> nat \<Rightarrow> bool" where
  "wq_holds cap shards xss n \<longleftrightarrow> length xss = length shards
     \<and> (\<forall>i<length shards. \<exists>m\<le>n. mpmc_holds cap (shards ! i) (xss ! i) m)"

lemma wq_holds_fine:
  assumes "wq_holds cap shards xss n" and "n + 1 + unat cap < 2 ^ 63"
  shows "\<forall>q\<in>set shards. shard_fine cap q"
proof
  fix q assume "q \<in> set shards"
  then obtain i where i: "i < length shards" "q = shards ! i" by (auto simp: in_set_conv_nth)
  then obtain m where m: "m \<le> n" "mpmc_holds cap q (xss ! i) m" using assms(1) by (auto simp: wq_holds_def)
  then have "m + 1 + unat cap < 2 ^ 63" using assms(2) by simp
  with m(2) show "shard_fine cap q" by (auto simp: shard_fine_def)
qed

lemma wq_holds_update:
  assumes "wq_holds cap shards xss n" and "i < length shards" and "mpmc_holds cap q xs m" and "m \<le> k" and "n \<le> k"
  shows "wq_holds cap (shards[i := q]) (xss[i := xs]) k"
  using assms unfolding wq_holds_def by (auto simp: nth_list_update) (meson le_trans)

lemma wq_holds_mono: "wq_holds cap shards xss n \<Longrightarrow> n \<le> k \<Longrightarrow> wq_holds cap shards xss k"
  unfolding wq_holds_def by (meson le_trans)

lemma mpmc_holds_length: "mpmc_holds cap r xs n \<Longrightarrow> length xs \<le> unat cap"
  by (auto simp: mpmc_holds_def quiet_def lfq_inv_def ring_inv_def)

lemma wq_holds_length: "wq_holds cap shards xss n \<Longrightarrow> xs \<in> set xss \<Longrightarrow> length xs \<le> unat cap"
  by (auto simp: wq_holds_def in_set_conv_nth dest: mpmc_holds_length)

lemma length_concat_full:
  "(\<forall>xs\<in>set xss. length xs \<le> c) \<Longrightarrow>
    length (concat xss) \<le> length xss * c \<and> (length (concat xss) = length xss * c \<longleftrightarrow> (\<forall>xs\<in>set xss. length xs = c))"
  by (induction xss) auto

lemma mset_concat_update:
  assumes "i < length xss"
  shows "mset (concat (xss[i := ys])) + mset (xss ! i) = mset (concat xss) + mset ys"
proof -
  have x: "xss = take i xss @ xss ! i # drop (Suc i) xss" using assms by (rule id_take_nth_drop)
  show ?thesis unfolding upd_conv_take_nth_drop [OF assms] by (subst (4) x) simp
qed

text \<open>Policies whose functions stay inside the shards and that end with a scan of all of them.\<close>

definition routes :: "routing_policy \<Rightarrow> size_t \<Rightarrow> bool" where
  "routes pol shardCount \<longleftrightarrow> kScanAllOnEnqueueFail pol \<and> kScanAllOnDequeueFail pol
     \<and> effective_scan_count (kEnqueueScanCount pol) shardCount = shardCount
     \<and> effective_scan_count (kDequeueScanCount pol) shardCount = shardCount
     \<and> (\<forall>c i rng. c < shardCount \<longrightarrow> fst (probe_shard (enqueue_probe pol) shardCount c i rng) < shardCount
         \<and> fst (probe_shard (dequeue_probe pol) shardCount c i rng) < shardCount
         \<and> fst (scan_start (enqueue_scan_start pol) shardCount c rng) < shardCount
         \<and> fst (scan_start (dequeue_scan_start pol) shardCount c rng) < shardCount)"

lemma mod_below: "0 < n \<Longrightarrow> (a :: size_t) mod n < n"
  by (simp add: word_less_nat_alt unat_mod)

lemma policies_route:
  assumes "0 < shardCount"
  shows "routes DefaultRoutingPolicy shardCount" "routes RoundRobinRoutingPolicy shardCount" "routes (StrideRoutingPolicy stride) shardCount"
  using mod_below [OF assms] by (simp_all add: routes_def DefaultRoutingPolicy_def RoundRobinRoutingPolicy_def StrideRoutingPolicy_def
      effective_scan_count_def probe_shard_def scan_start_def round_robin_probe_def stride_probe_def Let_def)

lemma wq_enqueue_spec:
  assumes h: "wq_holds cap shards xss n" and b: "n + 1 + unat cap < 2 ^ 63" and S: "length shards = unat S" "0 < S" "unat S < 2 ^ 63"
    and pol: "routes pol S"
  shows "\<exists>tok' shards' r xss'. wq_enqueueImpl pol S cap tok v shards = Some (Inr (shards', tok', r)) \<and> wq_holds cap shards' xss' (n + 1)
    \<and> length shards' = unat S
    \<and> (if length (concat xss) < unat S * unat cap then r = Some () \<and> mset (concat xss') = add_mset v (mset (concat xss))
       else r = None \<and> xss' = xss)"
proof -
  note full = length_concat_full [of xss "unat cap"]
  have lens: "\<forall>xs\<in>set xss. length xs \<le> unat cap" using wq_holds_length [OF h] by blast
  have len: "length xss = unat S" using h S(1) by (simp add: wq_holds_def)
  have rp: "unat (fst (probe_shard (enqueue_probe pol) S c i rng)) < unat S" if "c < S" for c i rng
    using pol that by (simp add: routes_def word_less_nat_alt)
  have rs: "fst (scan_start (enqueue_scan_start pol) S c rng) < S" if "c < S" for c rng
    using pol that by (simp add: routes_def)
  have pk: "kScanAllOnEnqueueFail pol = True" "effective_scan_count (kEnqueueScanCount pol) S = S" using pol by (simp_all add: routes_def)
  have holds: "\<exists>m\<le>n. mpmc_holds cap (shards ! i) (xss ! i) m \<and> m + 1 + unat cap < 2 ^ 63" if "i < length shards" for i
    using h that b by (fastforce simp: wq_holds_def)
  from shard_put.route_cases [OF wq_holds_fine [OF h b] S rp rs, where v = v and tok = tok and probes = "kEnqueueProbeCount pol"]
  show ?thesis
  proof
    assume "\<exists>tok'. route (shard_enqueue cap v) S (probe_shard (enqueue_probe pol) S) (kEnqueueProbeCount pol) True
          (scan_start (enqueue_scan_start pol) S) S tok shards = Some (Inr (shards, tok', None))
        \<and> (\<forall>q\<in>set shards. \<forall>xs n. mpmc_holds cap q xs n \<and> n + 1 + unat cap < 2 ^ 63 \<longrightarrow> unat cap \<le> length xs)"
    then obtain tok' where r: "wq_enqueueImpl pol S cap tok v shards = Some (Inr (shards, tok', None))"
      "\<forall>q\<in>set shards. \<forall>xs n. mpmc_holds cap q xs n \<and> n + 1 + unat cap < 2 ^ 63 \<longrightarrow> unat cap \<le> length xs"
      by (auto simp: wq_enqueueImpl_def pk)
    have "length xs = unat cap" if "xs \<in> set xss" for xs
    proof -
      obtain i where i: "i < length shards" "xs = xss ! i" using \<open>xs \<in> set xss\<close> len S(1) by (metis in_set_conv_nth)
      then have "unat cap \<le> length xs" using holds [OF i(1)] r(2) by (meson nth_mem)
      with lens that show ?thesis by (simp add: le_antisym)
    qed
    then have "\<not> length (concat xss) < unat S * unat cap" using full lens len by simp
    moreover have "wq_holds cap shards xss (n + 1)" by (rule wq_holds_mono [OF h]) simp
    ultimately show ?thesis using r(1) S(1) by (intro exI [of _ tok'] exI [of _ shards] exI [of _ None] exI [of _ xss]) simp
  next
    assume "\<exists>tok' shards' s r. route (shard_enqueue cap v) S (probe_shard (enqueue_probe pol) S) (kEnqueueProbeCount pol) True
          (scan_start (enqueue_scan_start pol) S) S tok shards = Some (Inr (shards', tok', Some r)) \<and> shard_put.served cap v shards s r shards'"
    then obtain tok' shards' s u where ro: "route (shard_enqueue cap v) S (probe_shard (enqueue_probe pol) S) (kEnqueueProbeCount pol) True
          (scan_start (enqueue_scan_start pol) S) S tok shards = Some (Inr (shards', tok', Some u))"
        and sv: "shard_put.served cap v shards s u shards'" by blast
    have r: "wq_enqueueImpl pol S cap tok v shards = Some (Inr (shards', tok', Some ()))"
      using ro by (simp add: wq_enqueueImpl_def pk)
    obtain q' where s: "unat s < length shards" "shards' = shards[unat s := q']"
      and t: "\<forall>xs n. mpmc_holds cap (shards ! unat s) xs n \<and> n + 1 + unat cap < 2 ^ 63
        \<longrightarrow> length xs < unat cap \<and> mpmc_holds cap q' (xs @ [v]) (n + 1)"
      using sv unfolding shard_put.served_def by blast
    let ?xs = "xss ! unat s"
    obtain m where m: "m \<le> n" "mpmc_holds cap (shards ! unat s) ?xs m" "m + 1 + unat cap < 2 ^ 63" using holds [OF s(1)] by blast
    then have q: "length ?xs < unat cap" "mpmc_holds cap q' (?xs @ [v]) (m + 1)" using t by blast+
    have sl: "unat s < length xss" using s(1) len S(1) by simp
    have "\<not> (\<forall>xs\<in>set xss. length xs = unat cap)" using q(1) sl by (metis nth_mem less_irrefl)
    then have room: "length (concat xss) < unat S * unat cap" using full lens len by (metis le_neq_implies_less)
    have "wq_holds cap shards' (xss[unat s := ?xs @ [v]]) (n + 1)"
      unfolding s(2) by (rule wq_holds_update [OF h s(1) q(2)]) (use m(1) in simp_all)
    moreover have "mset (concat (xss[unat s := ?xs @ [v]])) = add_mset v (mset (concat xss))"
      using mset_concat_update [OF sl, of "?xs @ [v]"] by simp
    ultimately show ?thesis using r s room S(1)
      by (intro exI [of _ tok'] exI [of _ shards'] exI [of _ "Some ()"] exI [of _ "xss[unat s := ?xs @ [v]]"]) simp
  qed
qed

lemma wq_dequeue_spec:
  assumes h: "wq_holds cap shards xss n" and b: "n + 1 + unat cap < 2 ^ 63" and S: "length shards = unat S" "0 < S" "unat S < 2 ^ 63"
    and pol: "routes pol S"
  shows "\<exists>tok' shards' r xss'. wq_dequeueImpl pol S cap tok shards = Some (Inr (shards', tok', r)) \<and> wq_holds cap shards' xss' n
    \<and> length shards' = unat S
    \<and> (case r of None \<Rightarrow> mset (concat xss) = {#} \<and> xss' = xss
       | Some v \<Rightarrow> mset (concat xss) = add_mset v (mset (concat xss')))"
proof -
  have len: "length xss = unat S" using h S(1) by (simp add: wq_holds_def)
  have rp: "unat (fst (probe_shard (dequeue_probe pol) S c i rng)) < unat S" if "c < S" for c i rng
    using pol that by (simp add: routes_def word_less_nat_alt)
  have rs: "fst (scan_start (dequeue_scan_start pol) S c rng) < S" if "c < S" for c rng
    using pol that by (simp add: routes_def)
  have pk: "kScanAllOnDequeueFail pol = True" "effective_scan_count (kDequeueScanCount pol) S = S" using pol by (simp_all add: routes_def)
  have holds: "\<exists>m\<le>n. mpmc_holds cap (shards ! i) (xss ! i) m \<and> m + 1 + unat cap < 2 ^ 63" if "i < length shards" for i
    using h that b by (fastforce simp: wq_holds_def)
  from shard_take.route_cases [OF wq_holds_fine [OF h b] S rp rs, where tok = tok and probes = "kDequeueProbeCount pol"]
  show ?thesis
  proof
    assume "\<exists>tok'. route (shard_dequeue cap) S (probe_shard (dequeue_probe pol) S) (kDequeueProbeCount pol) True
          (scan_start (dequeue_scan_start pol) S) S tok shards = Some (Inr (shards, tok', None))
        \<and> (\<forall>q\<in>set shards. \<forall>xs n. mpmc_holds cap q xs n \<and> n + 1 + unat cap < 2 ^ 63 \<longrightarrow> xs = [])"
    then obtain tok' where r: "wq_dequeueImpl pol S cap tok shards = Some (Inr (shards, tok', None))"
      "\<forall>q\<in>set shards. \<forall>xs n. mpmc_holds cap q xs n \<and> n + 1 + unat cap < 2 ^ 63 \<longrightarrow> xs = []"
      by (auto simp: wq_dequeueImpl_def pk)
    have "xs = []" if xs: "xs \<in> set xss" for xs
    proof -
      obtain i where i: "i < length shards" "xs = xss ! i" using xs len S(1) by (metis in_set_conv_nth)
      then show ?thesis using holds [OF i(1)] r(2) by (meson nth_mem)
    qed
    then have "mset (concat xss) = {#}" by simp
    then show ?thesis using r(1) h S(1) by (intro exI [of _ tok'] exI [of _ shards] exI [of _ None] exI [of _ xss]) simp
  next
    assume "\<exists>tok' shards' s r. route (shard_dequeue cap) S (probe_shard (dequeue_probe pol) S) (kDequeueProbeCount pol) True
          (scan_start (dequeue_scan_start pol) S) S tok shards = Some (Inr (shards', tok', Some r)) \<and> shard_take.served cap shards s r shards'"
    then obtain tok' shards' s x where ro: "route (shard_dequeue cap) S (probe_shard (dequeue_probe pol) S) (kDequeueProbeCount pol) True
          (scan_start (dequeue_scan_start pol) S) S tok shards = Some (Inr (shards', tok', Some x))"
        and sv: "shard_take.served cap shards s x shards'" by blast
    have r: "wq_dequeueImpl pol S cap tok shards = Some (Inr (shards', tok', Some x))"
      using ro by (simp add: wq_dequeueImpl_def pk)
    obtain q' where s: "unat s < length shards" "shards' = shards[unat s := q']"
      and t: "\<forall>xs n. mpmc_holds cap (shards ! unat s) xs n \<and> n + 1 + unat cap < 2 ^ 63
        \<longrightarrow> (\<exists>ys. xs = x # ys \<and> mpmc_holds cap q' ys n)"
      using sv unfolding shard_take.served_def by blast
    obtain m where m: "m \<le> n" "mpmc_holds cap (shards ! unat s) (xss ! unat s) m" "m + 1 + unat cap < 2 ^ 63"
      using holds [OF s(1)] by blast
    then obtain ys where ys: "xss ! unat s = x # ys" "mpmc_holds cap q' ys m" using t by blast
    have sl: "unat s < length xss" using s(1) len S(1) by simp
    have "wq_holds cap shards' (xss[unat s := ys]) n"
      unfolding s(2) by (rule wq_holds_update [OF h s(1) ys(2) m(1) order_refl])
    moreover have "mset (concat xss) = add_mset x (mset (concat (xss[unat s := ys])))"
      using mset_concat_update [OF sl, of ys] ys(1) by (simp add: add.commute)
    ultimately show ?thesis using r s S(1)
      by (intro exI [of _ tok'] exI [of _ shards'] exI [of _ "Some x"] exI [of _ "xss[unat s := ys]"]) simp
  qed
qed

text \<open>The observers count the values.\<close>

lemma mpmc_holds_size:
  assumes "mpmc_holds cap r xs n"
  shows "unat (lfq_size cap (\<lambda>_. r)) = length xs" and "lfq_empty (\<lambda>_. r) \<longleftrightarrow> xs = []"
proof -
  obtain h os where inv: "lfq_inv cap (quiet r h os)" and xs: "xs = drop (unat (mDequeuePos r)) h"
    using assms unfolding mpmc_holds_def by blast
  note R = ring_invD [OF lfq_invD(3) [OF inv]]
  have le: "unat (mDequeuePos r) \<le> unat (mEnqueuePos r)" "unat (mEnqueuePos r) \<le> unat (mDequeuePos r) + unat cap"
    "length h = unat (mEnqueuePos r)" using R(3-5) by (simp_all add: quiet_def)
  have d: "unat (mEnqueuePos r - mDequeuePos r) = unat (mEnqueuePos r) - unat (mDequeuePos r)"
    using le(1) by (simp add: unat_sub word_le_nat_alt)
  then have "mEnqueuePos r - mDequeuePos r \<le> cap" using le(2) by (simp add: word_le_nat_alt)
  then show "unat (lfq_size cap (\<lambda>_. r)) = length xs" using d le(3) by (simp add: lfq_size_def Let_def xs)
  show "lfq_empty (\<lambda>_. r) \<longleftrightarrow> xs = []"
    using le by (auto simp: lfq_empty_def xs word_unat_eq_iff)
qed

lemma wq_size_foldl:
  assumes "\<forall>i<length shards. unat (lfq_size cap (\<lambda>_. shards ! i)) = length (xss ! i)" and "length xss = length shards"
    and "unat a + length (concat xss) < 2 ^ 64"
  shows "unat (foldl (\<lambda>total r. total + lfq_size cap (\<lambda>_. r)) a shards) = unat a + length (concat xss)"
  using assms
proof (induction shards arbitrary: xss a)
  case (Cons r shards)
  then obtain xs yss where x: "xss = xs # yss" by (cases xss) auto
  have 0: "unat (lfq_size cap (\<lambda>_. r)) = length xs" using Cons.prems(1) x by (metis length_Cons nth_Cons_0 zero_less_Suc)
  have u: "unat (a + lfq_size cap (\<lambda>_. r)) = unat a + length xs"
    using Cons.prems(3) x by (subst unat_plus_if') (simp add: 0)
  have "\<forall>i<length shards. unat (lfq_size cap (\<lambda>_. shards ! i)) = length (yss ! i)"
    using Cons.prems(1) x by auto
  from Cons.IH [OF this, of "a + lfq_size cap (\<lambda>_. r)"] Cons.prems(2,3) u x show ?case by simp
qed simp

lemma wq_observers:
  assumes h: "wq_holds cap shards xss n" and "length shards = unat S" and "unat S * unat cap < 2 ^ 64"
  shows "unat (wq_size cap shards) = length (concat xss)" and "wq_empty shards \<longleftrightarrow> concat xss = []"
proof -
  have len: "length xss = length shards" using h by (simp add: wq_holds_def)
  have "\<forall>xs\<in>set xss. length xs \<le> unat cap" using wq_holds_length [OF h] by blast
  then have le: "length (concat xss) \<le> unat S * unat cap" using length_concat_full [of xss "unat cap"] len assms(2) by simp
  have s: "unat (lfq_size cap (\<lambda>_. shards ! i)) = length (xss ! i)" "lfq_empty (\<lambda>_. shards ! i) \<longleftrightarrow> xss ! i = []"
    if "i < length shards" for i
    using h that mpmc_holds_size unfolding wq_holds_def by blast+
  show "unat (wq_size cap shards) = length (concat xss)"
    unfolding wq_size_def using wq_size_foldl [of shards cap xss 0] s(1) len le assms(3) by simp
  have "wq_empty shards \<longleftrightarrow> (\<forall>i<length shards. xss ! i = [])" using s(2) by (auto simp: wq_empty_def list_all_length)
  also have "\<dots> \<longleftrightarrow> (\<forall>xs\<in>set xss. xs = [])" by (simp add: all_set_conv_all_nth len)
  finally show "wq_empty shards \<longleftrightarrow> concat xss = []" by simp
qed

section \<open>Sequences of calls\<close>

datatype 'a wq_call = Put token 'a | Take token

definition wq_exec :: "routing_policy \<Rightarrow> size_t \<Rightarrow> size_t \<Rightarrow> 'a wq_call \<Rightarrow> 'a ring list \<Rightarrow> ('a ring list \<times> 'a ring_answer) option" where
  "wq_exec pol S cap c shards = (case c of
      Put tok v \<Rightarrow> (case wq_enqueueImpl pol S cap tok v shards of
          Some (Inr (shards', tok', r)) \<Rightarrow> Some (shards', Pushed (r = Some ())) | _ \<Rightarrow> None)
    | Take tok \<Rightarrow> (case wq_dequeueImpl pol S cap tok shards of
          Some (Inr (shards', tok', r)) \<Rightarrow> Some (shards', Popped r) | _ \<Rightarrow> None))"

text \<open>The specification: a bag of at most \<open>room\<close> values, without an order.\<close>

fun bag_allows :: "nat \<Rightarrow> 'a multiset \<Rightarrow> 'a wq_call list \<Rightarrow> 'a ring_answer list \<Rightarrow> bool" where
  "bag_allows room bag [] as \<longleftrightarrow> as = []"
| "bag_allows room bag (Put tok v # cs) (Pushed b # as) \<longleftrightarrow>
    b = (size bag < room) \<and> bag_allows room (if b then add_mset v bag else bag) cs as"
| "bag_allows room bag (Take tok # cs) (Popped None # as) \<longleftrightarrow> bag = {#} \<and> bag_allows room bag cs as"
| "bag_allows room bag (Take tok # cs) (Popped (Some v) # as) \<longleftrightarrow> v \<in># bag \<and> bag_allows room (bag - {#v#}) cs as"
| "bag_allows room bag cs as \<longleftrightarrow> False"

lemma wq_run:
  assumes "wq_holds cap shards xss n" and "n + length cs + 1 + unat cap < 2 ^ 63"
    and "length shards = unat S" "0 < S" "unat S < 2 ^ 63" "routes pol S"
  shows "\<exists>shards' xss' as. exec_all (wq_exec pol S cap) cs shards = Some (shards', as) \<and> length shards' = unat S
    \<and> bag_allows (unat S * unat cap) (mset (concat xss)) cs as \<and> wq_holds cap shards' xss' (n + length cs)"
  using assms(1-3)
proof (induction cs arbitrary: shards xss n)
  case Nil
  then show ?case by auto
next
  case (Cons c cs)
  have b: "n + 1 + unat cap < 2 ^ 63" "(n + 1) + length cs + 1 + unat cap < 2 ^ 63" using Cons.prems(2) by simp_all
  show ?case
  proof (cases c)
    case (Put tok v)
    obtain tok' sh r yss where e: "wq_enqueueImpl pol S cap tok v shards = Some (Inr (sh, tok', r))" "wq_holds cap sh yss (n + 1)"
      "length sh = unat S"
      "if length (concat xss) < unat S * unat cap then r = Some () \<and> mset (concat yss) = add_mset v (mset (concat xss))
       else r = None \<and> yss = xss"
      using wq_enqueue_spec [OF Cons.prems(1) b(1) Cons.prems(3) assms(4-6)] by blast
    obtain sh' zss as where i: "exec_all (wq_exec pol S cap) cs sh = Some (sh', as)" "length sh' = unat S"
      "bag_allows (unat S * unat cap) (mset (concat yss)) cs as" "wq_holds cap sh' zss (n + 1 + length cs)"
      using Cons.IH [OF e(2) b(2) e(3)] by blast
    have "exec_all (wq_exec pol S cap) (c # cs) shards = Some (sh', Pushed (r = Some ()) # as)"
      using e(1) i(1) by (simp add: Put wq_exec_def)
    moreover have "bag_allows (unat S * unat cap) (mset (concat xss)) (c # cs) (Pushed (r = Some ()) # as)"
      using e(4) i(3) by (auto simp: Put split: if_splits)
    ultimately show ?thesis using i(2,4)
      by (intro exI [of _ sh'] exI [of _ zss] exI [of _ "Pushed (r = Some ()) # as"]) simp
  next
    case (Take tok)
    obtain tok' sh r yss where e: "wq_dequeueImpl pol S cap tok shards = Some (Inr (sh, tok', r))" "wq_holds cap sh yss n"
      "length sh = unat S"
      "case r of None \<Rightarrow> mset (concat xss) = {#} \<and> yss = xss | Some v \<Rightarrow> mset (concat xss) = add_mset v (mset (concat yss))"
      using wq_dequeue_spec [OF Cons.prems(1) b(1) Cons.prems(3) assms(4-6)] by blast
    obtain sh' zss as where i: "exec_all (wq_exec pol S cap) cs sh = Some (sh', as)" "length sh' = unat S"
      "bag_allows (unat S * unat cap) (mset (concat yss)) cs as" "wq_holds cap sh' zss (n + 1 + length cs)"
      using Cons.IH [OF wq_holds_mono [OF e(2)] b(2) e(3)] by auto
    have "exec_all (wq_exec pol S cap) (c # cs) shards = Some (sh', Popped r # as)"
      using e(1) i(1) by (simp add: Take wq_exec_def)
    moreover have "bag_allows (unat S * unat cap) (mset (concat xss)) (c # cs) (Popped r # as)"
      using e(4) i(3) by (cases r) (auto simp: Take)
    ultimately show ?thesis using i(2,4)
      by (intro exI [of _ sh'] exI [of _ zss] exI [of _ "Popped r # as"]) simp
  qed
qed

lemma wq_new_holds:
  assumes "wq_valid S cap" and "1 < unat cap" and "\<forall>i<unat S. length (junk ! i) = unat cap"
  shows "wq_holds cap (wq_new S cap junk) (replicate (unat S) []) 0" and "length (wq_new S cap junk) = unat S"
proof -
  have valid: "lfq_valid cap" using assms(1) by (simp add: wq_valid_def lfq_valid_def)
  have "mpmc_holds cap (ring_new cap (junk ! i)) [] 0" if "i < unat S" for i
  proof -
    have "lfq_inv cap (quiet (ring_new cap (junk ! i)) [] [])"
      using lfq_inv_init [OF valid assms(2), of "junk ! i"] assms(3) that by (simp add: lfq_init_def quiet_def)
    then show ?thesis unfolding mpmc_holds_def by (intro exI [of _ "[]"]) auto
  qed
  then show "wq_holds cap (wq_new S cap junk) (replicate (unat S) []) 0" by (simp add: wq_holds_def wq_new_def)
  show "length (wq_new S cap junk) = unat S" by (simp add: wq_new_def)
qed

section \<open>Properties\<close>

text \<open>C25: a \<open>WorkQueue\<close> of shards of two slots or more is a bounded bag: whatever the tokens and the
  routing (the default, round robin, or any stride), in any sequence of calls an \<open>enqueue\<close> succeeds
  exactly when there is room in some shard, a \<open>dequeue\<close> fails exactly when all shards are empty and
  otherwise returns a value that was put in and not yet taken out; no index leaves the array of
  shards, and every call returns.  \<open>size\<close> and \<open>empty\<close> answer for the values left.\<close>

theorem work_queue_refines_bag:
  assumes "wq_valid S cap" and "1 < unat cap" and "unat S < 2 ^ 63" and "length cs + 1 + unat cap < 2 ^ 63"
    and "\<forall>i<unat S. length (junk ! i) = unat cap"
    and "pol \<in> {DefaultRoutingPolicy, RoundRobinRoutingPolicy, StrideRoutingPolicy stride}"
  shows "\<exists>shards as. exec_all (wq_exec pol S cap) cs (wq_new S cap junk) = Some (shards, as)
    \<and> bag_allows (unat (wq_capacity S cap)) {#} cs as
    \<and> (\<exists>xss. wq_holds cap shards xss (length cs) \<and> unat (wq_size cap shards) = length (concat xss)
        \<and> (wq_empty shards \<longleftrightarrow> concat xss = []))"
proof -
  have S: "0 < S" using assms(1) by (simp add: wq_valid_def)
  have pol: "routes pol S" using assms(6) policies_route [OF S] by blast
  note new = wq_new_holds [OF assms(1,2,5)]
  have "unat S * unat cap \<le> unat (- 1 :: size_t) div unat cap * unat cap"
    using assms(1) by (intro mult_le_mono1) (simp add: wq_valid_def word_le_nat_alt unat_div)
  also have "\<dots> \<le> unat (- 1 :: size_t)" by (rule div_times_less_eq_dividend)
  finally have small: "unat S * unat cap < 2 ^ 64" using unat_bound [of "- 1 :: size_t"] by simp
  then have cap: "unat (wq_capacity S cap) = unat S * unat cap"
    unfolding wq_capacity_def by (simp add: unat_word_ariths)
  have "mset (concat (replicate (unat S) ([] :: 'a list))) = {#}" by simp
  then obtain shards xss as where r: "exec_all (wq_exec pol S cap) cs (wq_new S cap junk) = Some (shards, as)"
      "length shards = unat S" "bag_allows (unat S * unat cap) {#} cs as" "wq_holds cap shards xss (length cs)"
    using wq_run [OF new(1) _ new(2) S assms(3) pol, of cs] assms(4) by auto
  with wq_observers [OF r(4,2) small] show ?thesis unfolding cap by blast
qed

section \<open>Witnesses\<close>

theorem work_queue_refines_bag_witness:
  "\<exists>shards as. exec_all (wq_exec RoundRobinRoutingPolicy 3 2) [Put \<lparr>mShardIndex = 2, mRngState = 1\<rparr> 5, Take \<lparr>mShardIndex = 0, mRngState = 7\<rparr>]
      (wq_new 3 2 [[0, 0], [0, 0], [0, 0 :: nat]]) = Some (shards, as)
    \<and> bag_allows 6 {#} [Put \<lparr>mShardIndex = 2, mRngState = 1\<rparr> 5, Take \<lparr>mShardIndex = 0, mRngState = 7\<rparr>] as"
proof -
  have v: "wq_valid 3 2" by code_simp
  have c: "unat (wq_capacity 3 2) = 6" by (simp add: wq_capacity_def)
  have j: "\<forall>i<unat (3 :: size_t). length ([[0, 0], [0, 0], [0, 0 :: nat]] ! i) = unat (2 :: size_t)"
  proof -
    have u: "unat (3 :: size_t) = 3" "unat (2 :: size_t) = 2" by simp_all
    show ?thesis unfolding u by (simp add: eval_nat_numeral All_less_Suc)
  qed
  from work_queue_refines_bag [OF v _ _ _ j, of "[Put \<lparr>mShardIndex = 2, mRngState = 1\<rparr> 5, Take \<lparr>mShardIndex = 0, mRngState = 7\<rparr>]"
      RoundRobinRoutingPolicy 1] show ?thesis unfolding c by auto
qed

end
