(* ===== verification/BitSet.thy ===== *)
theory BitSet
  imports BitOps
begin

text \<open>
  \<open>BitSet<N>\<close> (\<open>include/fat_p/BitSet.h\<close>): \<open>N\<close> bits in an array of 64-bit words.  The state is the
  array \<open>mWords\<close>; the template parameter \<open>N\<close> and indices are natural numbers below \<open>2 ^ 64\<close>.  The
  loops over words are folds over the range of the loop variable, loops that leave early are
  searches (\<^const>\<open>find\<close>) over it.  Counting and scanning of a word are the functions of
  \<open>ConstexprBitOps.h\<close>.
\<close>

section \<open>Words and masks\<close>

type_synonym bit_words = "u64 list"

definition NUM_WORDS :: "nat \<Rightarrow> nat" where
  "NUM_WORDS N = (N + 64 - 1) div 64"

definition LAST_WORD_BITS :: "nat \<Rightarrow> nat" where
  "LAST_WORD_BITS N = N mod 64"

definition LAST_WORD_MASK :: "nat \<Rightarrow> u64" where
  "LAST_WORD_MASK N = (if LAST_WORD_BITS N = 0 then NOT 0 else push_bit (LAST_WORD_BITS N) 1 - 1)"

definition mask_up_to :: "nat \<Rightarrow> u64" where
  "mask_up_to bit_index = (if bit_index \<ge> 63 then NOT 0 else push_bit (bit_index + 1) 1 - 1)"

definition mask_from :: "nat \<Rightarrow> u64" where
  "mask_from bit_index = push_bit bit_index (NOT 0)"

definition popcnt64 :: "u64 \<Rightarrow> nat" where
  "popcnt64 x = popcount_loop x"

definition ctz64 :: "u64 \<Rightarrow> nat" where
  "ctz64 x = ctz_loop x"

definition clz64 :: "u64 \<Rightarrow> nat" where
  "clz64 x = clz_loop x"

text \<open>
  A loop that assigns to the words of a range: \<open>mWords[i] = g(i, mWords[i])\<close>, and one that fills
  another array: \<open>result.mWords[i] = f(i)\<close>.
\<close>

definition update_words :: "(nat \<Rightarrow> u64 \<Rightarrow> u64) \<Rightarrow> nat list \<Rightarrow> bit_words \<Rightarrow> bit_words" where
  "update_words g is ws = fold (\<lambda>i ws. ws[i := g i (ws ! i)]) is ws"

definition assign_words :: "(nat \<Rightarrow> u64) \<Rightarrow> nat list \<Rightarrow> bit_words \<Rightarrow> bit_words" where
  "assign_words f is res = fold (\<lambda>i res. res[i := f i]) is res"

section \<open>Single bits\<close>

definition bs_new :: "nat \<Rightarrow> bit_words" where
  "bs_new N = replicate (NUM_WORDS N) 0"

definition setUnchecked :: "bit_words \<Rightarrow> nat \<Rightarrow> bit_words" where
  "setUnchecked ws index = ws[index div 64 := ws ! (index div 64) OR push_bit (index mod 64) 1]"

definition clearUnchecked :: "bit_words \<Rightarrow> nat \<Rightarrow> bit_words" where
  "clearUnchecked ws index = ws[index div 64 := ws ! (index div 64) AND NOT (push_bit (index mod 64) 1)]"

definition flipUnchecked :: "bit_words \<Rightarrow> nat \<Rightarrow> bit_words" where
  "flipUnchecked ws index = ws[index div 64 := ws ! (index div 64) XOR push_bit (index mod 64) 1]"

definition test_unchecked :: "bit_words \<Rightarrow> nat \<Rightarrow> bool" where
  "test_unchecked ws index \<longleftrightarrow> ws ! (index div 64) AND push_bit (index mod 64) 1 \<noteq> 0"

definition bs_set :: "nat \<Rightarrow> bit_words \<Rightarrow> nat \<Rightarrow> bit_words result" where
  "bs_set N ws index = (if index \<ge> N then Inl Out_of_range else Inr (setUnchecked ws index))"

definition bs_clear :: "nat \<Rightarrow> bit_words \<Rightarrow> nat \<Rightarrow> bit_words result" where
  "bs_clear N ws index = (if index \<ge> N then Inl Out_of_range else Inr (clearUnchecked ws index))"

definition bs_set_value :: "nat \<Rightarrow> bit_words \<Rightarrow> nat \<Rightarrow> bool \<Rightarrow> bit_words result" where
  "bs_set_value N ws index val = (if val then bs_set N ws index else bs_clear N ws index)"

definition bs_flip :: "nat \<Rightarrow> bit_words \<Rightarrow> nat \<Rightarrow> bit_words result" where
  "bs_flip N ws index = (if index \<ge> N then Inl Out_of_range else Inr (flipUnchecked ws index))"

definition bs_test :: "nat \<Rightarrow> bit_words \<Rightarrow> nat \<Rightarrow> bool result" where
  "bs_test N ws index = (if index \<ge> N then Inl Out_of_range else Inr (test_unchecked ws index))"

fun set_indices :: "nat \<Rightarrow> bit_words \<Rightarrow> nat list \<Rightarrow> bit_words result" where
  "set_indices N ws [] = Inr ws"
| "set_indices N ws (i # is) = (case bs_set N ws i of Inl e \<Rightarrow> Inl e | Inr ws' \<Rightarrow> set_indices N ws' is)"

text \<open>The constructor from an initializer list.\<close>

definition bs_of_list :: "nat \<Rightarrow> nat list \<Rightarrow> bit_words result" where
  "bs_of_list N indices = set_indices N (bs_new N) indices"

section \<open>Bulk and range operations\<close>

definition bs_setAll :: "nat \<Rightarrow> bit_words \<Rightarrow> bit_words" where
  "bs_setAll N ws = (assign_words (\<lambda>i. NOT 0) [0..<NUM_WORDS N - 1] ws)[NUM_WORDS N - 1 := LAST_WORD_MASK N]"

definition bs_clearAll :: "nat \<Rightarrow> bit_words \<Rightarrow> bit_words" where
  "bs_clearAll N ws = assign_words (\<lambda>i. 0) [0..<NUM_WORDS N] ws"

definition bs_flipAll :: "nat \<Rightarrow> bit_words \<Rightarrow> bit_words" where
  "bs_flipAll N ws = (let ws1 = update_words (\<lambda>i w. NOT w) [0..<NUM_WORDS N - 1] ws
     in ws1[NUM_WORDS N - 1 := NOT (ws1 ! (NUM_WORDS N - 1)) AND LAST_WORD_MASK N])"

definition bs_setRange :: "nat \<Rightarrow> bit_words \<Rightarrow> nat \<Rightarrow> nat \<Rightarrow> bit_words result" where
  "bs_setRange N ws start stop =
    (if start > stop \<or> stop > N then Inl Out_of_range
     else if start = stop then Inr ws
     else let start_word = start div 64; end_word = (stop - 1) div 64;
              start_bit = start mod 64; end_bit = (stop - 1) mod 64
       in if start_word = end_word then
            (let msk = mask_up_to end_bit AND mask_from start_bit
             in Inr (ws[start_word := ws ! start_word OR msk]))
          else
            (let ws1 = ws[start_word := ws ! start_word OR mask_from start_bit];
                 ws2 = update_words (\<lambda>i w. NOT 0) [start_word + 1..<end_word] ws1
             in Inr (ws2[end_word := ws2 ! end_word OR mask_up_to end_bit])))"

definition bs_clearRange :: "nat \<Rightarrow> bit_words \<Rightarrow> nat \<Rightarrow> nat \<Rightarrow> bit_words result" where
  "bs_clearRange N ws start stop =
    (if start > stop \<or> stop > N then Inl Out_of_range
     else if start = stop then Inr ws
     else let start_word = start div 64; end_word = (stop - 1) div 64;
              start_bit = start mod 64; end_bit = (stop - 1) mod 64
       in if start_word = end_word then
            (let msk = mask_up_to end_bit AND mask_from start_bit
             in Inr (ws[start_word := ws ! start_word AND NOT msk]))
          else
            (let ws1 = ws[start_word := ws ! start_word AND NOT (mask_from start_bit)];
                 ws2 = update_words (\<lambda>i w. 0) [start_word + 1..<end_word] ws1
             in Inr (ws2[end_word := ws2 ! end_word AND NOT (mask_up_to end_bit)])))"

definition bs_flipRange :: "nat \<Rightarrow> bit_words \<Rightarrow> nat \<Rightarrow> nat \<Rightarrow> bit_words result" where
  "bs_flipRange N ws start stop =
    (if start > stop \<or> stop > N then Inl Out_of_range
     else if start = stop then Inr ws
     else let start_word = start div 64; end_word = (stop - 1) div 64;
              start_bit = start mod 64; end_bit = (stop - 1) mod 64;
              res = (if start_word = end_word then
                (let msk = mask_up_to end_bit AND mask_from start_bit
                 in ws[start_word := ws ! start_word XOR msk])
              else
                (let ws1 = ws[start_word := ws ! start_word XOR mask_from start_bit];
                     ws2 = update_words (\<lambda>i w. NOT w) [start_word + 1..<end_word] ws1
                 in ws2[end_word := ws2 ! end_word XOR mask_up_to end_bit]))
       in Inr (if LAST_WORD_BITS N \<noteq> 0 \<and> end_word = NUM_WORDS N - 1
               then res[NUM_WORDS N - 1 := res ! (NUM_WORDS N - 1) AND LAST_WORD_MASK N] else res))"

definition bs_count_range :: "nat \<Rightarrow> bit_words \<Rightarrow> nat \<Rightarrow> nat \<Rightarrow> nat result" where
  "bs_count_range N ws start stop =
    (if start > stop \<or> stop > N then Inl Out_of_range
     else if start = stop then Inr 0
     else let start_word = start div 64; end_word = (stop - 1) div 64;
              start_bit = start mod 64; end_bit = (stop - 1) mod 64
       in if start_word = end_word then
            Inr (popcnt64 (ws ! start_word AND (mask_up_to end_bit AND mask_from start_bit)))
          else
            (let cnt = popcnt64 (ws ! start_word AND mask_from start_bit);
                 cnt1 = foldl (\<lambda>c i. c + popcnt64 (ws ! i)) cnt [start_word + 1..<end_word]
             in Inr (cnt1 + popcnt64 (ws ! end_word AND mask_up_to end_bit))))"

section \<open>Queries\<close>

definition bs_count :: "nat \<Rightarrow> bit_words \<Rightarrow> nat" where
  "bs_count N ws = foldl (\<lambda>total i. total + popcnt64 (ws ! i)) 0 [0..<NUM_WORDS N]"

definition bs_any :: "nat \<Rightarrow> bit_words \<Rightarrow> bool" where
  "bs_any N ws \<longleftrightarrow> find (\<lambda>i. ws ! i \<noteq> 0) [0..<NUM_WORDS N] \<noteq> None"

definition bs_none :: "nat \<Rightarrow> bit_words \<Rightarrow> bool" where
  "bs_none N ws \<longleftrightarrow> \<not> bs_any N ws"

definition bs_all :: "nat \<Rightarrow> bit_words \<Rightarrow> bool" where
  "bs_all N ws \<longleftrightarrow> (if find (\<lambda>i. ws ! i \<noteq> NOT 0) [0..<NUM_WORDS N - 1] \<noteq> None then False
     else ws ! (NUM_WORDS N - 1) = LAST_WORD_MASK N)"

definition bs_to_string :: "nat \<Rightarrow> bit_words \<Rightarrow> char \<Rightarrow> char \<Rightarrow> string" where
  "bs_to_string N ws zero one =
    fold (\<lambda>i res. if test_unchecked ws i then res[N - 1 - i := one] else res) [0..<N] (replicate N zero)"

text \<open>\<open>to_ulong\<close> and \<open>to_ullong\<close>; \<open>width\<close> is the number of bits of the type they convert to.\<close>

definition bs_to_integer :: "nat \<Rightarrow> nat \<Rightarrow> bit_words \<Rightarrow> u64 result" where
  "bs_to_integer width N ws =
    (if N > width \<and> find (test_unchecked ws) [width..<N] \<noteq> None then Inl (Runtime_error ''overflow'')
     else Inr (take_bit width (ws ! 0)))"

section \<open>Searching\<close>

definition bs_find_first :: "nat \<Rightarrow> bit_words \<Rightarrow> nat" where
  "bs_find_first N ws = (case find (\<lambda>i. ws ! i \<noteq> 0) [0..<NUM_WORDS N] of
     Some i \<Rightarrow> (let idx = i * 64 + ctz64 (ws ! i) in if idx < N then idx else N)
   | None \<Rightarrow> N)"

definition bs_find_next :: "nat \<Rightarrow> bit_words \<Rightarrow> nat \<Rightarrow> nat" where
  "bs_find_next N ws after0 = (let after = (after0 + 1) mod 2 ^ 64 in
     if after \<ge> N then N
     else let word_idx = after div 64; bit_offset = after mod 64;
              word = ws ! word_idx AND mask_from bit_offset
       in if word \<noteq> 0 then (let idx = word_idx * 64 + ctz64 word in if idx < N then idx else N)
          else (case find (\<lambda>i. ws ! i \<noteq> 0) [word_idx + 1..<NUM_WORDS N] of
              Some i \<Rightarrow> (let idx = i * 64 + ctz64 (ws ! i) in if idx < N then idx else N)
            | None \<Rightarrow> N))"

definition bs_find_last :: "nat \<Rightarrow> bit_words \<Rightarrow> nat" where
  "bs_find_last N ws = (case find (\<lambda>i. ws ! i \<noteq> 0) (rev [0..<NUM_WORDS N]) of
     Some i \<Rightarrow> (let bit_pos = 63 - clz64 (ws ! i); idx = i * 64 + bit_pos in if idx < N then idx else N)
   | None \<Rightarrow> N)"

definition bs_find_prev :: "nat \<Rightarrow> bit_words \<Rightarrow> nat \<Rightarrow> nat" where
  "bs_find_prev N ws before0 =
    (if before0 = 0 \<or> before0 > N then N
     else let before = before0 - 1; word_idx = before div 64; bit_offset = before mod 64;
              word = ws ! word_idx AND mask_up_to bit_offset
       in if word \<noteq> 0 then word_idx * 64 + (63 - clz64 word)
          else (case find (\<lambda>i. ws ! i \<noteq> 0) (rev [0..<word_idx]) of
              Some i \<Rightarrow> i * 64 + (63 - clz64 (ws ! i))
            | None \<Rightarrow> N))"

definition bs_find_first_zero :: "nat \<Rightarrow> bit_words \<Rightarrow> nat" where
  "bs_find_first_zero N ws = (case find (\<lambda>i. ws ! i \<noteq> NOT 0) [0..<NUM_WORDS N - 1] of
     Some i \<Rightarrow> i * 64 + ctz64 (NOT (ws ! i))
   | None \<Rightarrow> (let last_inverted = NOT (ws ! (NUM_WORDS N - 1)) AND LAST_WORD_MASK N in
       if last_inverted \<noteq> 0 then
         (let idx = (NUM_WORDS N - 1) * 64 + ctz64 last_inverted in if idx < N then idx else N)
       else N))"

definition bs_find_next_zero :: "nat \<Rightarrow> bit_words \<Rightarrow> nat \<Rightarrow> nat" where
  "bs_find_next_zero N ws after0 = (let after = (after0 + 1) mod 2 ^ 64 in
     if after \<ge> N then N
     else let word_idx = after div 64; bit_offset = after mod 64;
              word0 = NOT (ws ! word_idx) AND mask_from bit_offset;
              word = (if word_idx = NUM_WORDS N - 1 then word0 AND LAST_WORD_MASK N else word0)
       in if word \<noteq> 0 then (let idx = word_idx * 64 + ctz64 word in if idx < N then idx else N)
          else (case find (\<lambda>i. ws ! i \<noteq> NOT 0) [word_idx + 1..<NUM_WORDS N - 1] of
              Some i \<Rightarrow> i * 64 + ctz64 (NOT (ws ! i))
            | None \<Rightarrow>
                if word_idx < NUM_WORDS N - 1 then
                  (let last_inverted = NOT (ws ! (NUM_WORDS N - 1)) AND LAST_WORD_MASK N in
                   if last_inverted \<noteq> 0 then
                     (let idx = (NUM_WORDS N - 1) * 64 + ctz64 last_inverted in if idx < N then idx else N)
                   else N)
                else N))"

definition bs_find_last_zero :: "nat \<Rightarrow> bit_words \<Rightarrow> nat" where
  "bs_find_last_zero N ws =
    (let last_inverted = NOT (ws ! (NUM_WORDS N - 1)) AND LAST_WORD_MASK N in
     if last_inverted \<noteq> 0 then
       (let bit_pos = 63 - clz64 last_inverted; idx = (NUM_WORDS N - 1) * 64 + bit_pos in if idx < N then idx else N)
     else (case find (\<lambda>i. ws ! i \<noteq> NOT 0) (rev [0..<NUM_WORDS N - 1]) of
         Some i \<Rightarrow> (let bit_pos = 63 - clz64 (NOT (ws ! i)) in i * 64 + bit_pos)
       | None \<Rightarrow> N))"

text \<open>Iteration: \<open>begin\<close> is at the first set bit, \<open>++\<close> goes to the next, \<open>end\<close> is at \<open>N\<close>.\<close>

partial_function (option) iterate_from :: "nat \<Rightarrow> bit_words \<Rightarrow> nat \<Rightarrow> nat list option" where
  "iterate_from N ws pos = (if pos = N then Some []
     else Option.bind (iterate_from N ws (bs_find_next N ws pos)) (\<lambda>ps. Some (pos # ps)))"

definition bs_iterate :: "nat \<Rightarrow> bit_words \<Rightarrow> nat list option" where
  "bs_iterate N ws = iterate_from N ws (bs_find_first N ws)"

section \<open>Set operations and operators\<close>

definition bs_isSubsetOf :: "nat \<Rightarrow> bit_words \<Rightarrow> bit_words \<Rightarrow> bool" where
  "bs_isSubsetOf N ws vs \<longleftrightarrow> find (\<lambda>i. ws ! i AND NOT (vs ! i) \<noteq> 0) [0..<NUM_WORDS N] = None"

definition bs_intersects :: "nat \<Rightarrow> bit_words \<Rightarrow> bit_words \<Rightarrow> bool" where
  "bs_intersects N ws vs \<longleftrightarrow> find (\<lambda>i. ws ! i AND vs ! i \<noteq> 0) [0..<NUM_WORDS N] \<noteq> None"

definition bs_hamming_distance :: "nat \<Rightarrow> bit_words \<Rightarrow> bit_words \<Rightarrow> nat" where
  "bs_hamming_distance N ws vs = foldl (\<lambda>dist i. dist + popcnt64 (ws ! i XOR vs ! i)) 0 [0..<NUM_WORDS N]"

definition bs_equal :: "nat \<Rightarrow> bit_words \<Rightarrow> bit_words \<Rightarrow> bool" where
  "bs_equal N ws vs \<longleftrightarrow> find (\<lambda>i. ws ! i \<noteq> vs ! i) [0..<NUM_WORDS N] = None"

definition bs_isDisjoint :: "nat \<Rightarrow> bit_words \<Rightarrow> bit_words \<Rightarrow> bool" where
  "bs_isDisjoint N ws vs \<longleftrightarrow> \<not> bs_intersects N ws vs"

definition bs_isProperSubsetOf :: "nat \<Rightarrow> bit_words \<Rightarrow> bit_words \<Rightarrow> bool" where
  "bs_isProperSubsetOf N ws vs \<longleftrightarrow> bs_isSubsetOf N ws vs \<and> \<not> bs_equal N ws vs"

definition bs_not :: "nat \<Rightarrow> bit_words \<Rightarrow> bit_words" where
  "bs_not N ws = (assign_words (\<lambda>i. NOT (ws ! i)) [0..<NUM_WORDS N - 1] (bs_new N))
     [NUM_WORDS N - 1 := NOT (ws ! (NUM_WORDS N - 1)) AND LAST_WORD_MASK N]"

definition bs_and :: "nat \<Rightarrow> bit_words \<Rightarrow> bit_words \<Rightarrow> bit_words" where
  "bs_and N ws vs = assign_words (\<lambda>i. ws ! i AND vs ! i) [0..<NUM_WORDS N] (bs_new N)"

definition bs_or :: "nat \<Rightarrow> bit_words \<Rightarrow> bit_words \<Rightarrow> bit_words" where
  "bs_or N ws vs = assign_words (\<lambda>i. ws ! i OR vs ! i) [0..<NUM_WORDS N] (bs_new N)"

definition bs_xor :: "nat \<Rightarrow> bit_words \<Rightarrow> bit_words \<Rightarrow> bit_words" where
  "bs_xor N ws vs = assign_words (\<lambda>i. ws ! i XOR vs ! i) [0..<NUM_WORDS N] (bs_new N)"

definition bs_and_assign :: "nat \<Rightarrow> bit_words \<Rightarrow> bit_words \<Rightarrow> bit_words" where
  "bs_and_assign N ws vs = update_words (\<lambda>i w. w AND vs ! i) [0..<NUM_WORDS N] ws"

definition bs_or_assign :: "nat \<Rightarrow> bit_words \<Rightarrow> bit_words \<Rightarrow> bit_words" where
  "bs_or_assign N ws vs = update_words (\<lambda>i w. w OR vs ! i) [0..<NUM_WORDS N] ws"

definition bs_xor_assign :: "nat \<Rightarrow> bit_words \<Rightarrow> bit_words \<Rightarrow> bit_words" where
  "bs_xor_assign N ws vs = update_words (\<lambda>i w. w XOR vs ! i) [0..<NUM_WORDS N] ws"

definition mask_last :: "nat \<Rightarrow> bit_words \<Rightarrow> bit_words" where
  "mask_last N res = (if LAST_WORD_BITS N \<noteq> 0
     then res[NUM_WORDS N - 1 := res ! (NUM_WORDS N - 1) AND LAST_WORD_MASK N] else res)"

definition bs_shift_left :: "nat \<Rightarrow> bit_words \<Rightarrow> nat \<Rightarrow> bit_words" where
  "bs_shift_left N ws n =
    (if n = 0 then ws
     else if n \<ge> N then bs_new N
     else let word_shift = n div 64; bit_shift = n mod 64
       in mask_last N
         (if bit_shift = 0 then
            assign_words (\<lambda>i. ws ! (i - word_shift)) [word_shift..<NUM_WORDS N] (bs_new N)
          else
            (let inv_shift = 64 - bit_shift;
                 res = assign_words
                   (\<lambda>i. push_bit bit_shift (ws ! (i - word_shift)) OR drop_bit inv_shift (ws ! (i - word_shift - 1)))
                   (rev [word_shift + 1..<NUM_WORDS N]) (bs_new N)
             in res[word_shift := push_bit bit_shift (ws ! 0)])))"

definition bs_shift_right :: "nat \<Rightarrow> bit_words \<Rightarrow> nat \<Rightarrow> bit_words" where
  "bs_shift_right N ws n =
    (if n = 0 then ws
     else if n \<ge> N then bs_new N
     else let word_shift = n div 64; bit_shift = n mod 64
       in mask_last N
         (if bit_shift = 0 then
            assign_words (\<lambda>i. ws ! (i + word_shift)) [0..<NUM_WORDS N - word_shift] (bs_new N)
          else
            (let inv_shift = 64 - bit_shift;
                 res = assign_words
                   (\<lambda>i. drop_bit bit_shift (ws ! (i + word_shift)) OR push_bit inv_shift (ws ! (i + word_shift + 1)))
                   [0..<NUM_WORDS N - word_shift - 1] (bs_new N)
             in res[NUM_WORDS N - word_shift - 1 := drop_bit bit_shift (ws ! (NUM_WORDS N - 1))])))"

text \<open>The hash; \<open>h64\<close> is \<open>std::hash<uint64_t>\<close>.\<close>

definition bs_hash :: "(u64 \<Rightarrow> u64) \<Rightarrow> nat \<Rightarrow> bit_words \<Rightarrow> u64" where
  "bs_hash h64 N ws = foldl (\<lambda>h i. h XOR (h64 (ws ! i) + 0x9e3779b9 + push_bit 6 h + drop_bit 2 h)) 0 [0..<NUM_WORDS N]"

end
