(* ===== verification/BitSet_Sets.thy ===== *)
theory BitSet_Sets
  imports BitSet
begin

text \<open>
  The set of numbers a \<open>BitSet\<close> stands for, and every operation in terms of it.
\<close>

section \<open>Arrays of words as sets\<close>

definition members :: "bit_words \<Rightarrow> nat set" where
  "members ws = {j. j < 64 * length ws \<and> bit (ws ! (j div 64)) (j mod 64)}"

text \<open>The bits of the last word past \<open>N\<close> are 0.\<close>

definition bs_inv :: "nat \<Rightarrow> bit_words \<Rightarrow> bool" where
  "bs_inv N ws \<longleftrightarrow> length ws = NUM_WORDS N \<and> members ws \<subseteq> {..<N}"

lemma mem_word: "\<lbrakk>i < length ws; b < 64\<rbrakk> \<Longrightarrow> 64 * i + b \<in> members ws \<longleftrightarrow> bit (ws ! i) b"
  by (simp add: members_def)

lemma split_index:
  fixes j :: nat
  obtains i b :: nat where "j = 64 * i + b" "b < 64"
  using that [of "j div 64" "j mod 64"] by simp

lemma index_word [simp]: "b < 64 \<Longrightarrow> (64 * i + b) div 64 = i" "b < 64 \<Longrightarrow> (64 * i + b) mod 64 = (b::nat)"
  by simp_all

lemma index_le_iff: "\<lbrakk>b < 64; c < 64\<rbrakk> \<Longrightarrow> 64 * i + b \<le> 64 * k + c \<longleftrightarrow> i < k \<or> (i = k \<and> b \<le> (c::nat))"
  by linarith

lemma index_less_iff: "\<lbrakk>b < 64; c < 64\<rbrakk> \<Longrightarrow> 64 * i + b < 64 * k + c \<longleftrightarrow> i < k \<or> (i = k \<and> b < (c::nat))"
  by linarith

lemma index_bound: "b < 64 \<Longrightarrow> 64 * i + b < 64 * m \<longleftrightarrow> i < (m::nat)"
  by linarith

text \<open>Two descriptions agree when they agree on every bit of every word.\<close>

lemma members_eqI:
  assumes "length ws = m" and "S \<subseteq> {..<64 * m}"
    and "\<And>i b. \<lbrakk>i < m; b < 64\<rbrakk> \<Longrightarrow> bit (ws ! i) b \<longleftrightarrow> 64 * i + b \<in> S"
  shows "members ws = S"
proof (rule set_eqI)
  fix j :: nat
  obtain i b where j: "j = 64 * i + b" "b < 64" by (rule split_index [of j])
  show "j \<in> members ws \<longleftrightarrow> j \<in> S"
  proof (cases "i < m")
    case True
    then show ?thesis using assms(1,3) j mem_word [of i ws b] by simp
  next
    case False
    then have "\<not> j < 64 * m" using j by simp
    then show ?thesis using assms(1,2) by (auto simp: members_def)
  qed
qed

lemma members_bounded: "members ws \<subseteq> {..<64 * length ws}"
  by (auto simp: members_def)

lemma finite_members [simp]: "finite (members ws)"
  by (rule finite_subset [OF members_bounded]) simp

lemma members_inj:
  assumes "length ws = length vs" and "members ws = members vs"
  shows "ws = vs"
proof (rule nth_equalityI [OF assms(1)])
  fix i
  assume i: "i < length ws"
  show "ws ! i = vs ! i"
  proof (rule bit_word_eqI)
    fix b
    assume "b < LENGTH(64)"
    then show "bit (ws ! i) b \<longleftrightarrow> bit (vs ! i) b"
      using mem_word [of i ws b] mem_word [of i vs b] i assms by simp
  qed
qed

lemma word_zero_iff:
  assumes "i < length ws"
  shows "ws ! i = 0 \<longleftrightarrow> (\<forall>b<64. 64 * i + b \<notin> members ws)"
  using mem_word [OF assms] by (auto simp: bit_eq_iff bit_imp_le_length dest: bit_imp_le_length)

subsection \<open>Sizes and masks\<close>

lemma NUM_WORDS_bounds:
  assumes "0 < N"
  shows "0 < NUM_WORDS N" "N \<le> 64 * NUM_WORDS N" "64 * (NUM_WORDS N - 1) < N" "j < N \<Longrightarrow> j div 64 < NUM_WORDS N"
  using assms unfolding NUM_WORDS_def by linarith+

lemma bit_ones: "bit (NOT 0 :: u64) j \<longleftrightarrow> j < 64"
  by (simp add: bit_not_iff)

lemma bit_low_ones: "k \<le> 64 \<Longrightarrow> bit (push_bit k 1 - 1 :: u64) j \<longleftrightarrow> j < k"
proof -
  assume "k \<le> 64"
  have "push_bit k 1 - 1 = (mask k :: u64)" by (simp add: mask_eq_exp_minus_1 push_bit_eq_mult)
  then show ?thesis using \<open>k \<le> 64\<close> by (auto simp: bit_mask_iff)
qed

lemma bit_mask_up_to: "b < 64 \<Longrightarrow> bit (mask_up_to b) j \<longleftrightarrow> j \<le> b"
  using bit_low_ones [of "b + 1" j] by (auto simp: mask_up_to_def bit_not_iff)

lemma bit_mask_from: "bit (mask_from b) j \<longleftrightarrow> b \<le> j \<and> j < 64"
  by (auto simp: mask_from_def bit_not_iff bit_mask_iff)

lemma bit_LAST_WORD_MASK:
  assumes "0 < N" and "j < 64"
  shows "bit (LAST_WORD_MASK N) j \<longleftrightarrow> 64 * (NUM_WORDS N - 1) + j < N"
proof -
  obtain q r where N: "N = 64 * q + r" "r < 64" by (rule split_index [of N])
  show ?thesis
  proof (cases "r = 0")
    case True
    then have "NUM_WORDS N = q" "LAST_WORD_BITS N = 0" using N by (simp_all add: NUM_WORDS_def LAST_WORD_BITS_def)
    moreover have "64 * (q - 1) + 64 = N" using N True assms(1) by (cases q) simp_all
    ultimately show ?thesis using assms(2) by (simp add: LAST_WORD_MASK_def bit_not_iff)
  next
    case False
    have "NUM_WORDS N = (64 * Suc q + (r - 1)) div 64" unfolding NUM_WORDS_def N(1) using False by simp
    then have "NUM_WORDS N = Suc q" using index_word(1) [of "r - 1" "Suc q"] N(2) by simp
    moreover have "LAST_WORD_BITS N = r" using N by (simp add: LAST_WORD_BITS_def)
    moreover have "64 * q + j < N \<longleftrightarrow> j < r" using N by simp
    ultimately show ?thesis
      using False bit_low_ones [of r j] N(2) by (simp only: LAST_WORD_MASK_def if_False diff_Suc_1)
  qed
qed

lemma bit_small: "\<not> j < 64 \<Longrightarrow> \<not> bit (w :: u64) j"
  using bit_imp_le_length [of w j] by auto

subsection \<open>Loops\<close>

lemma length_update_words [simp]: "length (update_words g xs ws) = length ws"
  by (induction xs arbitrary: ws) (simp_all add: update_words_def)

lemma nth_update_words:
  "\<lbrakk>distinct xs; j < length ws\<rbrakk> \<Longrightarrow> update_words g xs ws ! j = (if j \<in> set xs then g j (ws ! j) else ws ! j)"
proof (induction xs arbitrary: ws)
  case (Cons i xs)
  from Cons.IH [of "ws[i := g i (ws ! i)]"] Cons.prems show ?case
    by (cases "i = j") (auto simp: update_words_def nth_list_update)
qed (simp add: update_words_def)

lemma length_assign_words [simp]: "length (assign_words f xs res) = length res"
  by (induction xs arbitrary: res) (simp_all add: assign_words_def)

lemma nth_assign_words:
  "j < length res \<Longrightarrow> assign_words f xs res ! j = (if j \<in> set xs then f j else res ! j)"
proof (induction xs arbitrary: res)
  case (Cons i xs)
  from Cons.IH [of "res[i := f i]"] Cons.prems show ?case
    by (auto simp: assign_words_def nth_list_update)
qed (simp add: assign_words_def)

lemma length_bs_new [simp]: "length (bs_new N) = NUM_WORDS N"
  by (simp add: bs_new_def)

lemma nth_bs_new [simp]: "i < NUM_WORDS N \<Longrightarrow> bs_new N ! i = 0"
  by (simp add: bs_new_def)

lemmas word_loops = nth_update_words nth_assign_words

lemma members_new: "members (bs_new N) = {}"
  by (rule members_eqI [of _ "NUM_WORDS N"]) simp_all

section \<open>Single bits\<close>

lemma test_unchecked_iff: "index < 64 * length ws \<Longrightarrow> test_unchecked ws index \<longleftrightarrow> index \<in> members ws"
  using and_two_power_eq_0_iff [of "index mod 64" "ws ! (index div 64)"]
  by (simp add: test_unchecked_def members_def push_bit_eq_mult)

lemma single_bit:
  assumes "index < 64 * length ws"
  shows "members (setUnchecked ws index) = insert index (members ws)"
    and "members (clearUnchecked ws index) = members ws - {index}"
    and "members (flipUnchecked ws index) = (if index \<in> members ws then members ws - {index} else insert index (members ws))"
proof -
  obtain k c where idx: "index = 64 * k + c" "c < 64" by (rule split_index [of index])
  then have k: "k < length ws" using assms by simp
  have one: "bit (2 ^ c :: u64) b \<longleftrightarrow> b = c" if "b < 64" for b
    using idx(2) that by (auto simp: bit_exp_iff)
  have eq: "64 * i + b = index \<longleftrightarrow> i = k \<and> b = c" if "b < 64" for i b using idx that by (metis index_word)
  note rules = nth_list_update bit_or_iff bit_and_iff bit_xor_iff bit_not_iff one eq mem_word
  show "members (setUnchecked ws index) = insert index (members ws)"
    by (rule members_eqI [of _ "length ws"])
      (use assms members_bounded [of ws] k idx in \<open>auto simp: setUnchecked_def rules\<close>)
  show "members (clearUnchecked ws index) = members ws - {index}"
    by (rule members_eqI [of _ "length ws"])
      (use assms members_bounded [of ws] k idx in \<open>auto simp: clearUnchecked_def rules\<close>)
  have sym: "members (flipUnchecked ws index) = {j. j < 64 * length ws \<and> (j \<in> members ws \<longleftrightarrow> j \<noteq> index)}"
    by (rule members_eqI [of _ "length ws"])
      (use assms k idx in \<open>auto simp: flipUnchecked_def rules\<close>)
  show "members (flipUnchecked ws index) = (if index \<in> members ws then members ws - {index} else insert index (members ws))"
    unfolding sym using assms members_bounded [of ws] by auto
qed

lemma length_single [simp]:
  "length (setUnchecked ws i) = length ws" "length (clearUnchecked ws i) = length ws"
  "length (flipUnchecked ws i) = length ws"
  by (simp_all add: setUnchecked_def clearUnchecked_def flipUnchecked_def)


section \<open>Operations word by word\<close>

lemma members_subset_bound:
  assumes "bs_inv N ws" and "0 < N"
  shows "members ws \<subseteq> {..<64 * NUM_WORDS N}" and "\<And>i b. \<lbrakk>i < NUM_WORDS N; b < 64\<rbrakk> \<Longrightarrow> bit (ws ! i) b \<longleftrightarrow> 64 * i + b \<in> members ws"
  using assms NUM_WORDS_bounds(2) [OF assms(2)] mem_word [of _ ws] unfolding bs_inv_def by auto

lemma below_last: "\<lbrakk>0 < N; i < NUM_WORDS N - 1; b < 64\<rbrakk> \<Longrightarrow> 64 * i + b < N"
  using NUM_WORDS_bounds(3) [of N] by linarith

lemma word_cases: "i < NUM_WORDS N \<Longrightarrow> i < NUM_WORDS N - 1 \<or> i = NUM_WORDS N - 1"
  by linarith

lemma masked_last:
  assumes "0 < N" and "b < 64"
  shows "bit (w AND LAST_WORD_MASK N) b \<longleftrightarrow> bit w b \<and> 64 * (NUM_WORDS N - 1) + b < N"
  using bit_LAST_WORD_MASK [OF assms] by (auto simp: bit_and_iff)

text \<open>A description of the words that fits the invariant gives the members and the invariant.\<close>

lemma bs_invI:
  assumes "0 < N" and "length ws = NUM_WORDS N" and "S \<subseteq> {..<N}"
    and "\<And>i b. \<lbrakk>i < NUM_WORDS N; b < 64\<rbrakk> \<Longrightarrow> bit (ws ! i) b \<longleftrightarrow> 64 * i + b \<in> S"
  shows "bs_inv N ws \<and> members ws = S"
proof -
  have "members ws = S"
    by (rule members_eqI [OF assms(2)]) (use assms(3,4) NUM_WORDS_bounds(2) [OF assms(1)] in auto)
  with assms(2,3) show ?thesis by (simp add: bs_inv_def)
qed

lemma bulk_ops:
  assumes N: "0 < N" and inv: "bs_inv N ws"
  shows "bs_inv N (bs_setAll N ws) \<and> members (bs_setAll N ws) = {..<N}"
    and "bs_inv N (bs_clearAll N ws) \<and> members (bs_clearAll N ws) = {}"
    and "bs_inv N (bs_flipAll N ws) \<and> members (bs_flipAll N ws) = {..<N} - members ws"
    and "bs_inv N (bs_not N ws) \<and> members (bs_not N ws) = {..<N} - members ws"
proof -
  note W = NUM_WORDS_bounds [OF N]
  have len: "length ws = NUM_WORDS N" using inv by (simp add: bs_inv_def)
  note b = members_subset_bound(2) [OF inv N]
  note rules = nth_list_update word_loops len b bit_not_iff masked_last [OF N] bit_LAST_WORD_MASK [OF N] bit_ones
    below_last [OF N] W(1)
  show "bs_inv N (bs_setAll N ws) \<and> members (bs_setAll N ws) = {..<N}"
    by (rule bs_invI [OF N]) (use word_cases [of _ N] in \<open>auto simp: bs_setAll_def rules\<close>)
  show "bs_inv N (bs_clearAll N ws) \<and> members (bs_clearAll N ws) = {}"
    by (rule bs_invI [OF N]) (auto simp: bs_clearAll_def rules)
  show "bs_inv N (bs_flipAll N ws) \<and> members (bs_flipAll N ws) = {..<N} - members ws"
    by (rule bs_invI [OF N]) (use word_cases [of _ N] in \<open>auto simp: bs_flipAll_def rules Let_def\<close>)
  show "bs_inv N (bs_not N ws) \<and> members (bs_not N ws) = {..<N} - members ws"
    by (rule bs_invI [OF N]) (use word_cases [of _ N] in \<open>auto simp: bs_not_def rules\<close>)
qed

lemma binary_ops:
  assumes N: "0 < N" and ws: "bs_inv N ws" and vs: "bs_inv N vs"
  shows "bs_inv N (bs_and N ws vs) \<and> members (bs_and N ws vs) = members ws \<inter> members vs"
    and "bs_inv N (bs_or N ws vs) \<and> members (bs_or N ws vs) = members ws \<union> members vs"
    and "bs_inv N (bs_xor N ws vs) \<and> members (bs_xor N ws vs) = (members ws - members vs) \<union> (members vs - members ws)"
    and "bs_and_assign N ws vs = bs_and N ws vs" and "bs_or_assign N ws vs = bs_or N ws vs"
    and "bs_xor_assign N ws vs = bs_xor N ws vs"
proof -
  have len: "length ws = NUM_WORDS N" and sub: "members ws \<subseteq> {..<N}" "members vs \<subseteq> {..<N}"
    using ws vs by (simp_all add: bs_inv_def)
  note rules = word_loops len members_subset_bound(2) [OF ws N] members_subset_bound(2) [OF vs N] bit_and_iff bit_or_iff bit_xor_iff
  show "bs_inv N (bs_and N ws vs) \<and> members (bs_and N ws vs) = members ws \<inter> members vs"
    by (rule bs_invI [OF N]) (use sub in \<open>auto simp: bs_and_def rules\<close>)
  show "bs_inv N (bs_or N ws vs) \<and> members (bs_or N ws vs) = members ws \<union> members vs"
    by (rule bs_invI [OF N]) (use sub in \<open>auto simp: bs_or_def rules\<close>)
  show "bs_inv N (bs_xor N ws vs) \<and> members (bs_xor N ws vs) = (members ws - members vs) \<union> (members vs - members ws)"
    by (rule bs_invI [OF N]) (use sub in \<open>auto simp: bs_xor_def rules\<close>)
  show "bs_and_assign N ws vs = bs_and N ws vs" "bs_or_assign N ws vs = bs_or N ws vs" "bs_xor_assign N ws vs = bs_xor N ws vs"
    by (rule nth_equalityI; simp add: bs_and_assign_def bs_and_def bs_or_assign_def bs_or_def
        bs_xor_assign_def bs_xor_def word_loops len)+
qed

subsection \<open>Ranges\<close>

text \<open>The mask that a range operation applies to word \<open>i\<close>.\<close>

definition range_word :: "nat \<Rightarrow> nat \<Rightarrow> nat \<Rightarrow> u64" where
  "range_word start stop i =
    (if i < start div 64 \<or> (stop - 1) div 64 < i then 0
     else (if i = start div 64 then mask_from (start mod 64) else NOT 0)
      AND (if i = (stop - 1) div 64 then mask_up_to ((stop - 1) mod 64) else NOT 0))"

lemma bit_range_word:
  assumes "start < stop" and "b < 64"
  shows "bit (range_word start stop i) b \<longleftrightarrow> start \<le> 64 * i + b \<and> 64 * i + b < stop"
proof -
  obtain sw sb where s: "start = 64 * sw + sb" "sb < 64" by (rule split_index [of start])
  obtain ew eb where e: "stop - 1 = 64 * ew + eb" "eb < 64" by (rule split_index [of "stop - 1"])
  have lo: "start \<le> 64 * i + b \<longleftrightarrow> sw < i \<or> (sw = i \<and> sb \<le> b)"
    unfolding s(1) by (rule index_le_iff [OF s(2) assms(2)])
  have "64 * i + b < stop \<longleftrightarrow> 64 * i + b \<le> stop - 1" using assms(1) by linarith
  also have "\<dots> \<longleftrightarrow> i < ew \<or> (i = ew \<and> b \<le> eb)"
    unfolding e(1) by (rule index_le_iff [OF assms(2) e(2)])
  finally have hi: "64 * i + b < stop \<longleftrightarrow> i < ew \<or> (i = ew \<and> b \<le> eb)" .
  have d: "start div 64 = sw" "start mod 64 = sb" "(stop - 1) div 64 = ew" "(stop - 1) mod 64 = eb"
    using index_word [OF s(2), of sw] index_word [OF e(2), of ew] by (simp_all only: s(1) e(1))
  show ?thesis unfolding range_word_def d lo hi
    using assms(2) e(2) by (auto simp: bit_and_iff bit_mask_up_to bit_mask_from bit_ones)
qed

lemma range_bounds:
  assumes "0 < N" and "start < stop" and "stop \<le> N"
  shows "start div 64 \<le> (stop - 1) div 64" "(stop - 1) div 64 < NUM_WORDS N"
  using assms NUM_WORDS_bounds(4) [OF assms(1), of "stop - 1"] by (simp_all add: div_le_mono)

lemma range_words:
  assumes N: "0 < N" and "length ws = NUM_WORDS N" and r: "start < stop" "stop \<le> N"
  shows "\<exists>vs. bs_setRange N ws start stop = Inr vs \<and> length vs = NUM_WORDS N
      \<and> (\<forall>i<NUM_WORDS N. vs ! i = ws ! i OR range_word start stop i)"
    and "\<exists>vs. bs_clearRange N ws start stop = Inr vs \<and> length vs = NUM_WORDS N
      \<and> (\<forall>i<NUM_WORDS N. vs ! i = ws ! i AND NOT (range_word start stop i))"
proof -
  note b = range_bounds [OF N r]
  have n: "\<not> (start > stop \<or> stop > N)" "start \<noteq> stop" using r by simp_all
  let ?sw = "start div 64" and ?ew = "(stop - 1) div 64"
  show "\<exists>vs. bs_setRange N ws start stop = Inr vs \<and> length vs = NUM_WORDS N
      \<and> (\<forall>i<NUM_WORDS N. vs ! i = ws ! i OR range_word start stop i)"
  proof (cases "?sw = ?ew")
    case True
    then show ?thesis using n b assms(2)
      by (auto simp: bs_setRange_def Let_def nth_list_update range_word_def and.commute)
  next
    case False
    with b(1) have lt: "?sw < ?ew" by simp
    show ?thesis unfolding bs_setRange_def if_not_P [OF n(1)] if_not_P [OF n(2)] Let_def if_not_P [OF False]
      by (rule exI, rule conjI, rule refl) (use lt b assms(2) in \<open>auto simp: nth_list_update nth_update_words range_word_def\<close>)
  qed
  show "\<exists>vs. bs_clearRange N ws start stop = Inr vs \<and> length vs = NUM_WORDS N
      \<and> (\<forall>i<NUM_WORDS N. vs ! i = ws ! i AND NOT (range_word start stop i))"
  proof (cases "?sw = ?ew")
    case True
    then show ?thesis using n b assms(2)
      by (auto simp: bs_clearRange_def Let_def nth_list_update range_word_def and.commute)
  next
    case False
    with b(1) have lt: "?sw < ?ew" by simp
    show ?thesis unfolding bs_clearRange_def if_not_P [OF n(1)] if_not_P [OF n(2)] Let_def if_not_P [OF False]
      by (rule exI, rule conjI, rule refl) (use lt b assms(2) in \<open>auto simp: nth_list_update nth_update_words range_word_def\<close>)
  qed
qed

lemma flip_words:
  assumes N: "0 < N" and "length ws = NUM_WORDS N" and r: "start < stop" "stop \<le> N"
  shows "\<exists>vs. bs_flipRange N ws start stop = Inr vs \<and> length vs = NUM_WORDS N
      \<and> (\<forall>i<NUM_WORDS N. vs ! i = (if LAST_WORD_BITS N \<noteq> 0 \<and> (stop - 1) div 64 = NUM_WORDS N - 1 \<and> i = NUM_WORDS N - 1
        then (ws ! i XOR range_word start stop i) AND LAST_WORD_MASK N else ws ! i XOR range_word start stop i))"
proof -
  let ?sw = "start div 64" and ?ew = "(stop - 1) div 64"
  note b = range_bounds [OF N r]
  have n: "\<not> (start > stop \<or> stop > N)" "start \<noteq> stop" using r by simp_all
  define res where "res = (if ?sw = ?ew then ws[?sw := ws ! ?sw XOR (mask_up_to ((stop - 1) mod 64) AND mask_from (start mod 64))]
    else (let ws1 = ws[?sw := ws ! ?sw XOR mask_from (start mod 64)]; ws2 = update_words (\<lambda>i w. NOT w) [?sw + 1..<?ew] ws1
          in ws2[?ew := ws2 ! ?ew XOR mask_up_to ((stop - 1) mod 64)]))"
  have res: "length res = NUM_WORDS N \<and> (\<forall>i<NUM_WORDS N. res ! i = ws ! i XOR range_word start stop i)"
  proof (cases "?sw = ?ew")
    case True
    then show ?thesis using b assms(2) by (auto simp: res_def nth_list_update range_word_def and.commute)
  next
    case False
    with b(1) have lt: "?sw < ?ew" by simp
    have "res = (update_words (\<lambda>i w. NOT w) [?sw + 1..<?ew] (ws[?sw := ws ! ?sw XOR mask_from (start mod 64)]))
      [?ew := update_words (\<lambda>i w. NOT w) [?sw + 1..<?ew] (ws[?sw := ws ! ?sw XOR mask_from (start mod 64)]) ! ?ew
         XOR mask_up_to ((stop - 1) mod 64)]"
      unfolding res_def if_not_P [OF False] Let_def ..
    with lt b assms(2) show ?thesis by (auto simp: nth_list_update nth_update_words range_word_def)
  qed
  have W: "NUM_WORDS N - 1 < NUM_WORDS N" using NUM_WORDS_bounds(1) [OF N] by simp
  have "bs_flipRange N ws start stop = Inr (if LAST_WORD_BITS N \<noteq> 0 \<and> ?ew = NUM_WORDS N - 1
      then res[NUM_WORDS N - 1 := res ! (NUM_WORDS N - 1) AND LAST_WORD_MASK N] else res)"
    unfolding bs_flipRange_def if_not_P [OF n(1)] if_not_P [OF n(2)] Let_def res_def ..
  then show ?thesis using res W by (auto simp: nth_list_update)
qed

lemma range_ops:
  assumes N: "0 < N" and inv: "bs_inv N ws"
  shows "(if start \<le> stop \<and> stop \<le> N
      then \<exists>vs. bs_setRange N ws start stop = Inr vs \<and> bs_inv N vs \<and> members vs = members ws \<union> {start..<stop}
      else bs_setRange N ws start stop = Inl Out_of_range)"
    and "(if start \<le> stop \<and> stop \<le> N
      then \<exists>vs. bs_clearRange N ws start stop = Inr vs \<and> bs_inv N vs \<and> members vs = members ws - {start..<stop}
      else bs_clearRange N ws start stop = Inl Out_of_range)"
    and "(if start \<le> stop \<and> stop \<le> N
      then \<exists>vs. bs_flipRange N ws start stop = Inr vs \<and> bs_inv N vs
        \<and> members vs = (members ws - {start..<stop}) \<union> ({start..<stop} - members ws)
      else bs_flipRange N ws start stop = Inl Out_of_range)"
proof -
  have len: "length ws = NUM_WORDS N" and sub: "members ws \<subseteq> {..<N}" using inv by (simp_all add: bs_inv_def)
  note bw = members_subset_bound(2) [OF inv N]
  have goals: "\<exists>vs. bs_setRange N ws start stop = Inr vs \<and> bs_inv N vs \<and> members vs = members ws \<union> {start..<stop}"
    "\<exists>vs. bs_clearRange N ws start stop = Inr vs \<and> bs_inv N vs \<and> members vs = members ws - {start..<stop}"
    "\<exists>vs. bs_flipRange N ws start stop = Inr vs \<and> bs_inv N vs
      \<and> members vs = (members ws - {start..<stop}) \<union> ({start..<stop} - members ws)"
    if r: "start < stop" "stop \<le> N"
  proof -
    note rw = bit_range_word [OF r(1)]
    obtain vs where vs: "bs_setRange N ws start stop = Inr vs" "length vs = NUM_WORDS N"
      "\<forall>i<NUM_WORDS N. vs ! i = ws ! i OR range_word start stop i"
      using range_words(1) [OF N len r] by blast
    have "bs_inv N vs \<and> members vs = members ws \<union> {start..<stop}"
      by (rule bs_invI [OF N vs(2)]) (use sub r in \<open>auto simp: vs(3) bit_or_iff rw bw\<close>)
    with vs(1) show "\<exists>vs. bs_setRange N ws start stop = Inr vs \<and> bs_inv N vs \<and> members vs = members ws \<union> {start..<stop}"
      by blast
    obtain vs where vs: "bs_clearRange N ws start stop = Inr vs" "length vs = NUM_WORDS N"
      "\<forall>i<NUM_WORDS N. vs ! i = ws ! i AND NOT (range_word start stop i)"
      using range_words(2) [OF N len r] by blast
    have "bs_inv N vs \<and> members vs = members ws - {start..<stop}"
      by (rule bs_invI [OF N vs(2)]) (use sub r in \<open>auto simp: vs(3) bit_and_iff bit_not_iff rw bw\<close>)
    with vs(1) show "\<exists>vs. bs_clearRange N ws start stop = Inr vs \<and> bs_inv N vs \<and> members vs = members ws - {start..<stop}"
      by blast
    obtain vs where vs: "bs_flipRange N ws start stop = Inr vs" "length vs = NUM_WORDS N"
      "\<forall>i<NUM_WORDS N. vs ! i = (if LAST_WORD_BITS N \<noteq> 0 \<and> (stop - 1) div 64 = NUM_WORDS N - 1 \<and> i = NUM_WORDS N - 1
        then (ws ! i XOR range_word start stop i) AND LAST_WORD_MASK N else ws ! i XOR range_word start stop i)"
      using flip_words [OF N len r] by blast
    have last: "64 * i + b \<in> members ws \<Longrightarrow> 64 * i + b < N" for i b using sub by auto
    have "bs_inv N vs \<and> members vs = (members ws - {start..<stop}) \<union> ({start..<stop} - members ws)"
      by (rule bs_invI [OF N vs(2)])
        (use sub r in \<open>auto simp: vs(3) bit_xor_iff masked_last [OF N] rw bw dest: last\<close>)
    with vs(1) show "\<exists>vs. bs_flipRange N ws start stop = Inr vs \<and> bs_inv N vs
      \<and> members vs = (members ws - {start..<stop}) \<union> ({start..<stop} - members ws)" by blast
  qed
  have out: "bs_setRange N ws start stop = Inl Out_of_range" "bs_clearRange N ws start stop = Inl Out_of_range"
    "bs_flipRange N ws start stop = Inl Out_of_range" if "\<not> (start \<le> stop \<and> stop \<le> N)"
    using that by (auto simp: bs_setRange_def bs_clearRange_def bs_flipRange_def)
  have none: "bs_setRange N ws start stop = Inr ws" "bs_clearRange N ws start stop = Inr ws"
    "bs_flipRange N ws start stop = Inr ws" if "start = stop" "stop \<le> N"
    using that by (simp_all add: bs_setRange_def bs_clearRange_def bs_flipRange_def)
  consider "\<not> (start \<le> stop \<and> stop \<le> N)" | "start = stop" "stop \<le> N" | "start < stop" "stop \<le> N" by linarith
  note c = this
  show "(if start \<le> stop \<and> stop \<le> N
      then \<exists>vs. bs_setRange N ws start stop = Inr vs \<and> bs_inv N vs \<and> members vs = members ws \<union> {start..<stop}
      else bs_setRange N ws start stop = Inl Out_of_range)"
    by (rule c) (use out(1) none(1) inv goals(1) in \<open>simp_all\<close>)
  show "(if start \<le> stop \<and> stop \<le> N
      then \<exists>vs. bs_clearRange N ws start stop = Inr vs \<and> bs_inv N vs \<and> members vs = members ws - {start..<stop}
      else bs_clearRange N ws start stop = Inl Out_of_range)"
    by (rule c) (use out(2) none(2) inv goals(2) in \<open>simp_all\<close>)
  show "(if start \<le> stop \<and> stop \<le> N
      then \<exists>vs. bs_flipRange N ws start stop = Inr vs \<and> bs_inv N vs
        \<and> members vs = (members ws - {start..<stop}) \<union> ({start..<stop} - members ws)
      else bs_flipRange N ws start stop = Inl Out_of_range)"
    by (rule c) (use out(3) none(3) inv goals(3) in \<open>simp_all\<close>)
qed

section \<open>Counting\<close>

lemma popcnt64_card: "popcnt64 w = card {b. bit w b}"
  by (simp add: popcnt64_def popcount_loop_card)

lemma popcnt64_0 [simp]: "popcnt64 0 = 0"
  by (simp add: popcnt64_card)

lemma foldl_add: "foldl (\<lambda>c i. c + f i) a xs = a + sum_list (map f xs)" for a :: nat
  by (induction xs arbitrary: a) simp_all

lemma sum_words: "sum_list (map f [m..<n]) = (\<Sum>i\<in>{m..<n}. f i)" for f :: "nat \<Rightarrow> nat"
  by (simp add: interv_sum_list_conv_sum_set_nat)

lemma bit_below_64: "bit (w :: u64) b \<Longrightarrow> b < 64"
  using bit_imp_le_length [of w b] by simp

lemma finite_word_bits: "finite {b. bit (w :: u64) b}"
  by (rule finite_subset [of _ "{..<64}"]) (auto dest: bit_below_64)

definition word_members :: "bit_words \<Rightarrow> nat \<Rightarrow> nat set" where
  "word_members ws i = (\<lambda>b. 64 * i + b) ` {b. bit (ws ! i) b}"

lemma word_members_iff: "x \<in> word_members ws i \<longleftrightarrow> x div 64 = i \<and> bit (ws ! i) (x mod 64)"
proof
  assume "x \<in> word_members ws i"
  then obtain b where b: "bit (ws ! i) b" "x = 64 * i + b" by (auto simp: word_members_def)
  with index_word [OF bit_below_64 [OF b(1)], of i] show "x div 64 = i \<and> bit (ws ! i) (x mod 64)" by simp
next
  assume x: "x div 64 = i \<and> bit (ws ! i) (x mod 64)"
  have "x = 64 * (x div 64) + x mod 64" by simp
  with x show "x \<in> word_members ws i" unfolding word_members_def by blast
qed

lemma card_members: "card (members ws) = (\<Sum>i<length ws. popcnt64 (ws ! i))"
proof -
  have "members ws = (\<Union>i\<in>{..<length ws}. word_members ws i)"
    by (auto simp: members_def word_members_iff)
  also have "card \<dots> = (\<Sum>i<length ws. card (word_members ws i))"
  proof (rule card_UN_disjoint)
    show "\<forall>i\<in>{..<length ws}. finite (word_members ws i)"
      by (simp add: word_members_def finite_word_bits)
    show "\<forall>i\<in>{..<length ws}. \<forall>j\<in>{..<length ws}. i \<noteq> j \<longrightarrow> word_members ws i \<inter> word_members ws j = {}"
      by (auto simp: word_members_iff)
  qed simp
  also have "\<dots> = (\<Sum>i<length ws. popcnt64 (ws ! i))"
    by (intro sum.cong refl) (simp add: popcnt64_card word_members_def card_image inj_on_def)
  finally show ?thesis .
qed

lemma bs_count_card:
  assumes "length ws = NUM_WORDS N"
  shows "bs_count N ws = card (members ws)"
  unfolding bs_count_def foldl_add card_members assms sum_words by (simp add: lessThan_atLeast0)

lemma bs_hamming_card:
  assumes N: "0 < N" and "bs_inv N ws" and "bs_inv N vs"
  shows "bs_hamming_distance N ws vs = card ((members ws - members vs) \<union> (members vs - members ws))"
proof -
  have "bs_hamming_distance N ws vs = bs_count N (bs_xor N ws vs)"
    unfolding bs_hamming_distance_def bs_count_def foldl_add
    by (intro arg_cong2 [where f = "(+)"] refl arg_cong [where f = sum_list] map_cong)
      (simp add: bs_xor_def nth_assign_words)
  then show ?thesis using binary_ops(3) [OF assms] by (simp add: bs_count_card bs_xor_def)
qed

lemma bs_count_range_card:
  assumes N: "0 < N" and inv: "bs_inv N ws" and r: "start < stop" "stop \<le> N"
  shows "bs_count_range N ws start stop = Inr (card (members ws \<inter> {start..<stop}))"
proof -
  let ?sw = "start div 64" and ?ew = "(stop - 1) div 64"
  define f where "f i = popcnt64 (ws ! i AND range_word start stop i)" for i
  note b = range_bounds [OF N r]
  define vs where "vs = map (\<lambda>i. ws ! i AND range_word start stop i) [0..<NUM_WORDS N]"
  have "bs_inv N vs \<and> members vs = members ws \<inter> {start..<stop}"
    by (rule bs_invI [OF N])
      (use inv r in \<open>auto simp: vs_def bs_inv_def bit_and_iff bit_range_word members_subset_bound(2) [OF inv N]\<close>)
  then have "card (members ws \<inter> {start..<stop}) = (\<Sum>i<NUM_WORDS N. f i)"
    using card_members [of vs] by (simp add: vs_def f_def)
  also have "\<dots> = (\<Sum>i\<in>{?sw..?ew}. f i)"
    by (rule sum.mono_neutral_right) (use b in \<open>auto simp: f_def range_word_def\<close>)
  finally have card: "card (members ws \<inter> {start..<stop}) = (\<Sum>i\<in>{?sw..?ew}. f i)" .
  have n: "\<not> (start > stop \<or> stop > N)" "start \<noteq> stop" using r by simp_all
  show ?thesis
  proof (cases "?sw = ?ew")
    case True
    have "f ?sw = popcnt64 (ws ! ?sw AND (mask_up_to ((stop - 1) mod 64) AND mask_from (start mod 64)))"
      using True by (simp add: f_def range_word_def and.commute)
    then show ?thesis unfolding bs_count_range_def if_not_P [OF n(1)] if_not_P [OF n(2)] Let_def if_P [OF True] card
      using True by simp
  next
    case False
    with b(1) have lt: "?sw < ?ew" by simp
    then have "{?sw..?ew} = insert ?sw (insert ?ew {?sw + 1..<?ew})" by auto
    then have s: "(\<Sum>i\<in>{?sw..?ew}. f i) = f ?sw + (\<Sum>i\<in>{?sw + 1..<?ew}. f i) + f ?ew" using lt by simp
    have e: "f ?sw = popcnt64 (ws ! ?sw AND mask_from (start mod 64))"
      "f ?ew = popcnt64 (ws ! ?ew AND mask_up_to ((stop - 1) mod 64))"
      using lt by (simp_all add: f_def range_word_def)
    have m: "(\<Sum>i\<in>{?sw + 1..<?ew}. f i) = (\<Sum>i\<in>{?sw + 1..<?ew}. popcnt64 (ws ! i))"
      by (intro sum.cong refl) (auto simp: f_def range_word_def)
    show ?thesis unfolding bs_count_range_def if_not_P [OF n(1)] if_not_P [OF n(2)] Let_def if_not_P [OF False] card s e m
        foldl_add sum_words ..
  qed
qed

end
