(* ===== verification/BitSet_Search.thy ===== *)
theory BitSet_Search
  imports BitSet_Sets
begin

section \<open>Searching\<close>

text \<open>The reference: a search bit by bit.\<close>

definition next_in :: "nat \<Rightarrow> nat set \<Rightarrow> nat \<Rightarrow> nat" where
  "next_in N S k = (case find (\<lambda>j. j \<in> S) [k..<N] of Some j \<Rightarrow> j | None \<Rightarrow> N)"

definition prev_in :: "nat \<Rightarrow> nat set \<Rightarrow> nat \<Rightarrow> nat" where
  "prev_in N S k = (case find (\<lambda>j. j \<in> S) (rev [0..<k]) of Some j \<Rightarrow> j | None \<Rightarrow> N)"

lemma find_upt:
  "(find P [a..<b] = Some i) \<longleftrightarrow> a \<le> i \<and> i < b \<and> P i \<and> (\<forall>j. a \<le> j \<and> j < i \<longrightarrow> \<not> P j)"
proof (induction "b - a" arbitrary: a)
  case (Suc n)
  then have ab: "a < b" "n = b - Suc a" by simp_all
  have "find P [a..<b] = (if P a then Some a else find P [Suc a..<b])" using ab(1) by (simp add: upt_conv_Cons)
  moreover have "(\<forall>j. a \<le> j \<and> j < i \<longrightarrow> \<not> P j) \<longleftrightarrow> a = i \<or> (\<not> P a \<and> (\<forall>j. Suc a \<le> j \<and> j < i \<longrightarrow> \<not> P j))" if "a \<le> i"
    using that by (metis Suc_leI Suc_le_lessD le_neq_implies_less le_antisym less_le_not_le nat_le_linear)
  ultimately show ?case using Suc.hyps(1) [OF ab(2)] ab(1) by (cases "a = i") auto
qed simp

lemma find_down:
  "(find P (rev [0..<b]) = Some i) \<longleftrightarrow> i < b \<and> P i \<and> (\<forall>j. i < j \<and> j < b \<longrightarrow> \<not> P j)"
  by (induction b) (auto simp: less_Suc_eq)

lemma next_inI: "\<lbrakk>m \<in> S; k \<le> m; m < N; \<And>j. \<lbrakk>k \<le> j; j < m\<rbrakk> \<Longrightarrow> j \<notin> S\<rbrakk> \<Longrightarrow> next_in N S k = m"
  using find_upt [of "\<lambda>j. j \<in> S" k N m] by (simp add: next_in_def)

lemma next_in_none: "(\<And>j. \<lbrakk>k \<le> j; j < N\<rbrakk> \<Longrightarrow> j \<notin> S) \<Longrightarrow> next_in N S k = N"
  using find_None_iff [of "\<lambda>j. j \<in> S" "[k..<N]"] by (auto simp: next_in_def)

lemma next_in_cases:
  obtains (found) "next_in N S k \<in> S" "k \<le> next_in N S k" "next_in N S k < N" "\<And>j. \<lbrakk>k \<le> j; j < next_in N S k\<rbrakk> \<Longrightarrow> j \<notin> S"
  | (none) "next_in N S k = N" "\<And>j. \<lbrakk>k \<le> j; j < N\<rbrakk> \<Longrightarrow> j \<notin> S"
proof (cases "find (\<lambda>j. j \<in> S) [k..<N]")
  case None
  then show thesis using none find_None_iff [of "\<lambda>j. j \<in> S" "[k..<N]"] by (auto simp: next_in_def)
next
  case (Some m)
  with find_upt [of "\<lambda>j. j \<in> S" k N m] found show thesis by (simp add: next_in_def)
qed

lemma next_in_skip:
  assumes "k \<le> l" and "\<And>j. \<lbrakk>k \<le> j; j < l\<rbrakk> \<Longrightarrow> j \<notin> S"
  shows "next_in N S k = next_in N S l"
proof (cases rule: next_in_cases [of N S l])
  case found
  show ?thesis by (rule next_inI) (use assms found in \<open>auto, meson not_le\<close>)
next
  case none
  show ?thesis unfolding none(1) by (rule next_in_none) (use assms none(2) in \<open>meson not_le\<close>)
qed

lemma prev_inI: "\<lbrakk>m \<in> S; m < k; \<And>j. \<lbrakk>m < j; j < k\<rbrakk> \<Longrightarrow> j \<notin> S\<rbrakk> \<Longrightarrow> prev_in N S k = m"
  using find_down [of "\<lambda>j. j \<in> S" k m] by (simp add: prev_in_def)

lemma prev_in_none: "(\<And>j. j < k \<Longrightarrow> j \<notin> S) \<Longrightarrow> prev_in N S k = N"
  using find_None_iff [of "\<lambda>j. j \<in> S" "rev [0..<k]"] by (auto simp: prev_in_def)

lemma prev_in_skip:
  assumes "l \<le> k" and "\<And>j. \<lbrakk>l \<le> j; j < k\<rbrakk> \<Longrightarrow> j \<notin> S"
  shows "prev_in N S k = prev_in N S l"
proof (cases "find (\<lambda>j. j \<in> S) (rev [0..<l])")
  case None
  then have "j \<notin> S" if "j < k" for j using that assms find_None_iff [of "\<lambda>j. j \<in> S" "rev [0..<l]"] by (auto, meson not_le)
  then have "prev_in N S k = N" by (rule prev_in_none)
  with None show ?thesis by (simp add: prev_in_def)
next
  case (Some m)
  then have m: "m < l" "m \<in> S" "\<And>j. \<lbrakk>m < j; j < l\<rbrakk> \<Longrightarrow> j \<notin> S" by (auto simp: find_down)
  have "prev_in N S k = m" by (rule prev_inI) (use m assms in \<open>auto, meson not_le\<close>)
  with Some show ?thesis by (simp add: prev_in_def)
qed

text \<open>The lowest and the highest bit of a word.\<close>

lemma ctz64_lowest: "w \<noteq> 0 \<Longrightarrow> bit w (ctz64 w)" "w \<noteq> 0 \<Longrightarrow> b < ctz64 w \<Longrightarrow> \<not> bit w b"
  using ctz_loop_lowest [of w] by (simp_all add: ctz64_def)

lemma clz64_highest: "w \<noteq> 0 \<Longrightarrow> bit w (63 - clz64 w)" "w \<noteq> 0 \<Longrightarrow> 63 - clz64 w < b \<Longrightarrow> \<not> bit w b"
  using clz_loop_bounds [of w] by (simp_all add: clz64_def)

text \<open>Where the numbers of a word lie.\<close>

lemma not_member_word:
  assumes "bs_inv N ws" "0 < N" "64 * i + b \<notin> members ws" "b < 64" "i < NUM_WORDS N"
  shows "\<not> bit (ws ! i) b"
  using members_subset_bound(2) [OF assms(1,2,5,4)] assms(3) by simp

lemma member_bound: "\<lbrakk>bs_inv N ws; j \<in> members ws\<rbrakk> \<Longrightarrow> j < N"
  by (auto simp: bs_inv_def)

lemma member_split:
  assumes "j \<in> members ws"
  obtains i b where "j = 64 * i + b" "b < 64" "i < length ws" "bit (ws ! i) b"
proof -
  obtain i b where j: "j = 64 * i + b" "b < 64" by (rule split_index [of j])
  then show thesis using that [OF j] assms by (simp add: members_def)
qed

lemma scan_up:
  assumes N: "0 < N" and inv: "bs_inv N ws"
  shows "(case find (\<lambda>i. ws ! i \<noteq> 0) [a..<NUM_WORDS N] of
      Some i \<Rightarrow> (let idx = i * 64 + ctz64 (ws ! i) in if idx < N then idx else N) | None \<Rightarrow> N)
    = next_in N (members ws) (64 * a)"
proof -
  have len: "length ws = NUM_WORDS N" using inv by (simp add: bs_inv_def)
  show ?thesis
  proof (cases "find (\<lambda>i. ws ! i \<noteq> 0) [a..<NUM_WORDS N]")
    case None
    then have z: "ws ! i = 0" if "a \<le> i" "i < NUM_WORDS N" for i
      using that find_None_iff [of "\<lambda>i. ws ! i \<noteq> 0" "[a..<NUM_WORDS N]"] by auto
    have "next_in N (members ws) (64 * a) = N"
    proof (rule next_in_none, rule notI)
      fix j
      assume "64 * a \<le> j" "j \<in> members ws"
      then obtain i b where j: "j = 64 * i + b" "b < 64" "i < length ws" "bit (ws ! i) b" by (elim member_split)
      have "a \<le> i" using \<open>64 * a \<le> j\<close> j(1,2) by linarith
      with z [of i] j(3,4) len show False by simp
    qed
    with None show ?thesis by simp
  next
    case (Some i)
    then have i: "a \<le> i" "i < NUM_WORDS N" "ws ! i \<noteq> 0" "\<And>k. \<lbrakk>a \<le> k; k < i\<rbrakk> \<Longrightarrow> ws ! k = 0"
      by (auto simp: find_upt)
    let ?c = "ctz64 (ws ! i)"
    note c = ctz64_lowest [OF i(3)]
    have c64: "?c < 64" by (rule bit_below_64 [OF c(1)])
    have m: "64 * i + ?c \<in> members ws" using mem_word [of i ws ?c] i(2) len c(1) c64 by simp
    have "next_in N (members ws) (64 * a) = 64 * i + ?c"
    proof (rule next_inI [OF m _ member_bound [OF inv m]])
      show "64 * a \<le> 64 * i + ?c" using i(1) by simp
      fix j
      assume j: "64 * a \<le> j" "j < 64 * i + ?c"
      show "j \<notin> members ws"
      proof
        assume "j \<in> members ws"
        then obtain k b where k: "j = 64 * k + b" "b < 64" "k < length ws" "bit (ws ! k) b" by (elim member_split)
        have "k < i \<or> (k = i \<and> b < ?c)" using j(2) unfolding k(1) index_less_iff [OF k(2) c64] .
        moreover have "a \<le> k" using j(1) k(1,2) by linarith
        ultimately show False using i(4) [of k] c(2) k(4) by auto
      qed
    qed
    with Some member_bound [OF inv m] show ?thesis by (simp add: mult.commute)
  qed
qed

lemma index_between:
  fixes b c v w :: nat
  assumes "b < 64" "c < 64" "64 * w + b \<le> 64 * v + c" "64 * v + c < 64 * (w + 1)"
  shows "v = w \<and> b \<le> c"
proof -
  have "v < w + 1" using assms(4) by presburger
  moreover have "w < v + 1" using assms(1-3) by linarith
  ultimately have "v = w" by simp
  with assms(3) show ?thesis by simp
qed

lemma index_between':
  fixes b c v w :: nat
  assumes "b < 64" "c < 64" "64 * w \<le> 64 * v + c" "64 * v + c \<le> 64 * w + b"
  shows "v = w \<and> c \<le> b"
proof -
  have "v < w + 1" using assms by linarith
  moreover have "w < v + 1" using assms by linarith
  ultimately have "v = w" by simp
  with assms(4) show ?thesis by simp
qed

lemma find_first_spec:
  assumes "0 < N" and "bs_inv N ws"
  shows "bs_find_first N ws = next_in N (members ws) 0"
  using scan_up [OF assms, of 0] by (simp add: bs_find_first_def)

lemma find_next_spec:
  assumes N: "0 < N" and inv: "bs_inv N ws"
  shows "bs_find_next N ws i = next_in N (members ws) (Suc i mod 2 ^ 64)"
proof -
  define k where "k = (i + 1) mod 2 ^ 64"
  have len: "length ws = NUM_WORDS N" using inv by (simp add: bs_inv_def)
  have "bs_find_next N ws i = next_in N (members ws) k"
  proof (cases "k \<ge> N")
    case True
    have "next_in N (members ws) k = N" by (rule next_in_none) (use True in simp)
    with True show ?thesis by (simp add: bs_find_next_def k_def Let_def)
  next
    case False
    obtain w b where k: "k = 64 * w + b" "b < 64" by (rule split_index [of k])
    have d: "k div 64 = w" "k mod 64 = b" unfolding k(1) by (rule index_word [OF k(2)])+
    have wM: "w < NUM_WORDS N" using NUM_WORDS_bounds(4) [OF N, of k] False d by simp
    let ?word = "ws ! w AND mask_from b"
    have bw: "bit ?word c \<longleftrightarrow> bit (ws ! w) c \<and> b \<le> c" for c
      using bit_below_64 by (auto simp: bit_and_iff bit_mask_from)
    note D = bs_find_next_def [of N ws i, folded k_def, unfolded Let_def, unfolded d if_not_P [OF False]]
    show ?thesis
    proof (cases "?word = 0")
      case True
      have "next_in N (members ws) k = next_in N (members ws) (64 * (w + 1))"
      proof (rule next_in_skip)
        show "k \<le> 64 * (w + 1)" using k by simp
        fix j
        assume j: "k \<le> j" "j < 64 * (w + 1)"
        show "j \<notin> members ws"
        proof
          assume "j \<in> members ws"
          then obtain v c where v: "j = 64 * v + c" "c < 64" "v < length ws" "bit (ws ! v) c" by (elim member_split)
          have "v = w \<and> b \<le> c" by (rule index_between [OF k(2) v(2)]) (use j in \<open>simp_all add: k(1) v(1)\<close>)
          then have vw: "v = w" and "b \<le> c" by blast+
          with vw v(4) bw [of c] True show False by simp
        qed
      qed
      with True scan_up [OF N inv, of "w + 1"] show ?thesis unfolding D Let_def by simp
    next
      case nz: False
      let ?c = "ctz64 ?word"
      note c = ctz64_lowest [OF nz]
      have c64: "?c < 64" by (rule bit_below_64 [OF c(1)])
      have bc: "bit (ws ! w) ?c" "b \<le> ?c" using c(1) bw by blast+
      have m: "64 * w + ?c \<in> members ws" using mem_word [of w ws ?c] wM len bc(1) c64 by simp
      have "next_in N (members ws) k = 64 * w + ?c"
      proof (rule next_inI [OF m _ member_bound [OF inv m]])
        show "k \<le> 64 * w + ?c" using k bc(2) by simp
        fix j
        assume j: "k \<le> j" "j < 64 * w + ?c"
        show "j \<notin> members ws"
        proof
          assume "j \<in> members ws"
          then obtain v e where v: "j = 64 * v + e" "e < 64" "v < length ws" "bit (ws ! v) e" by (elim member_split)
          have "v = w \<and> b \<le> e" by (rule index_between [OF k(2) v(2)]) (use j c64 in \<open>simp_all add: k(1) v(1)\<close>)
          then have vw: "v = w" and "b \<le> e" by blast+
          moreover have "e < ?c" using j(2) unfolding v(1) vw by simp
          ultimately show False using vw v(4) bw [of e] c(2) by blast
        qed
      qed
      with nz member_bound [OF inv m] show ?thesis unfolding D by (simp add: mult.commute)
    qed
  qed
  then show ?thesis by (simp add: k_def)
qed

lemma scan_down:
  assumes N: "0 < N" and inv: "bs_inv N ws" and a: "a \<le> NUM_WORDS N"
  shows "(case find (\<lambda>i. ws ! i \<noteq> 0) (rev [0..<a]) of Some i \<Rightarrow> i * 64 + (63 - clz64 (ws ! i)) | None \<Rightarrow> N)
    = prev_in N (members ws) (64 * a)"
proof -
  have len: "length ws = NUM_WORDS N" using inv by (simp add: bs_inv_def)
  show ?thesis
  proof (cases "find (\<lambda>i. ws ! i \<noteq> 0) (rev [0..<a])")
    case None
    then have z: "ws ! i = 0" if "i < a" for i
      using that find_None_iff [of "\<lambda>i. ws ! i \<noteq> 0" "rev [0..<a]"] by auto
    have "prev_in N (members ws) (64 * a) = N"
    proof (rule prev_in_none, rule notI)
      fix j
      assume "j < 64 * a" "j \<in> members ws"
      then obtain i b where j: "j = 64 * i + b" "b < 64" "bit (ws ! i) b" by (elim member_split)
      have "i < a" using \<open>j < 64 * a\<close> j(1,2) by linarith
      with z [of i] j(3) show False by simp
    qed
    with None show ?thesis by simp
  next
    case (Some i)
    then have i: "i < a" "ws ! i \<noteq> 0" "\<And>k. \<lbrakk>i < k; k < a\<rbrakk> \<Longrightarrow> ws ! k = 0" by (auto simp: find_down)
    let ?c = "63 - clz64 (ws ! i)"
    note c = clz64_highest [OF i(2)]
    have c64: "?c < 64" by simp
    have m: "64 * i + ?c \<in> members ws" using mem_word [of i ws ?c] i(1) a len c(1) by simp
    have "prev_in N (members ws) (64 * a) = 64 * i + ?c"
    proof (rule prev_inI [OF m])
      show "64 * i + ?c < 64 * a" unfolding index_bound [OF c64] by (rule i(1))
      fix j
      assume j: "64 * i + ?c < j" "j < 64 * a"
      show "j \<notin> members ws"
      proof
        assume "j \<in> members ws"
        then obtain k b where k: "j = 64 * k + b" "b < 64" "bit (ws ! k) b" by (elim member_split)
        have "i < k \<or> (i = k \<and> ?c < b)" using j(1) unfolding k(1) index_less_iff [OF c64 k(2)] .
        moreover have "k < a" using j(2) k(1,2) by linarith
        ultimately show False using i(3) [of k] c(2) k(3) by auto
      qed
    qed
    with Some show ?thesis by (simp add: mult.commute)
  qed
qed

lemma find_last_spec:
  assumes N: "0 < N" and inv: "bs_inv N ws"
  shows "bs_find_last N ws = prev_in N (members ws) N"
proof -
  have len: "length ws = NUM_WORDS N" using inv by (simp add: bs_inv_def)
  have "prev_in N (members ws) (64 * NUM_WORDS N) = prev_in N (members ws) N"
    by (rule prev_in_skip) (use NUM_WORDS_bounds(2) [OF N] member_bound [OF inv] in \<open>auto, meson not_le\<close>)
  moreover have "i * 64 + (63 - clz64 (ws ! i)) < N" if "find (\<lambda>i. ws ! i \<noteq> 0) (rev [0..<NUM_WORDS N]) = Some i" for i
  proof -
    have "i < NUM_WORDS N" "ws ! i \<noteq> 0" using that by (auto simp: find_down)
    then have "64 * i + (63 - clz64 (ws ! i)) \<in> members ws"
      using mem_word [of i ws "63 - clz64 (ws ! i)"] clz64_highest(1) len by simp
    from member_bound [OF inv this] show ?thesis by (simp add: mult.commute)
  qed
  ultimately show ?thesis
    using scan_down [OF N inv order_refl] by (auto simp: bs_find_last_def Let_def split: option.splits)
qed

lemma find_prev_spec:
  assumes N: "0 < N" and inv: "bs_inv N ws"
  shows "bs_find_prev N ws i = (if i > N then N else prev_in N (members ws) i)"
proof (cases "i = 0 \<or> i > N")
  case True
  have "prev_in N (members ws) 0 = N" by (rule prev_in_none) simp
  with True show ?thesis by (auto simp: bs_find_prev_def)
next
  case False
  have len: "length ws = NUM_WORDS N" using inv by (simp add: bs_inv_def)
  define k where "k = i - 1"
  have k: "i = Suc k" "k < N" using False unfolding k_def by linarith+
  obtain w b where kw: "k = 64 * w + b" "b < 64" by (rule split_index [of k])
  have d: "k div 64 = w" "k mod 64 = b" unfolding kw(1) by (rule index_word [OF kw(2)])+
  have wM: "w < NUM_WORDS N" using NUM_WORDS_bounds(4) [OF N k(2)] d by simp
  let ?word = "ws ! w AND mask_up_to b"
  have bw: "bit ?word c \<longleftrightarrow> bit (ws ! w) c \<and> c \<le> b" for c
    by (auto simp: bit_and_iff bit_mask_up_to [OF kw(2)])
  note D = bs_find_prev_def [of N ws i, folded k_def, unfolded Let_def, unfolded d if_not_P [OF False]]
  have "bs_find_prev N ws i = prev_in N (members ws) i"
  proof (cases "?word = 0")
    case True
    have "prev_in N (members ws) i = prev_in N (members ws) (64 * w)"
    proof (rule prev_in_skip)
      show "64 * w \<le> i" using kw k by simp
      fix j
      assume j: "64 * w \<le> j" "j < i"
      show "j \<notin> members ws"
      proof
        assume "j \<in> members ws"
        then obtain v c where v: "j = 64 * v + c" "c < 64" "bit (ws ! v) c" by (elim member_split)
        have "v = w \<and> c \<le> b" by (rule index_between') (use j k v kw in simp_all)
        then have vw: "v = w" and "c \<le> b" by blast+
        with vw v(3) bw [of c] True show False by simp
      qed
    qed
    with True scan_down [OF N inv less_imp_le [OF wM]] show ?thesis unfolding D by simp
  next
    case nz: False
    let ?c = "63 - clz64 ?word"
    note c = clz64_highest [OF nz]
    have bc: "bit (ws ! w) ?c" "?c \<le> b" using c(1) bw by blast+
    have m: "64 * w + ?c \<in> members ws" using mem_word [of w ws ?c] wM len bc(1) by simp
    have "prev_in N (members ws) i = 64 * w + ?c"
    proof (rule prev_inI [OF m])
      show "64 * w + ?c < i" using k kw bc(2) by simp
      fix j
      assume j: "64 * w + ?c < j" "j < i"
      show "j \<notin> members ws"
      proof
        assume "j \<in> members ws"
        then obtain v e where v: "j = 64 * v + e" "e < 64" "bit (ws ! v) e" by (elim member_split)
        have vw: "v = w" using j k kw v(1,2) by linarith
        have "e \<le> b" using j k kw v(1,2) unfolding vw by linarith
        moreover have "?c < e" using j k kw v(1,2) unfolding vw by linarith
        ultimately show False using vw v(3) bw [of e] c(2) by blast
      qed
    qed
    with nz show ?thesis unfolding D by (simp add: mult.commute)
  qed
  with False show ?thesis by simp
qed

text \<open>The searches for a clear bit are the searches for a set bit in the complement.\<close>

lemma nth_bs_not:
  assumes "0 < N" and "i < NUM_WORDS N"
  shows "bs_not N ws ! i = (if i = NUM_WORDS N - 1 then NOT (ws ! i) AND LAST_WORD_MASK N else NOT (ws ! i))"
  using assms NUM_WORDS_bounds(1) [OF assms(1)] by (auto simp: bs_not_def nth_list_update nth_assign_words)

lemma not_ones_iff: "(w :: u64) \<noteq> NOT 0 \<longleftrightarrow> NOT w \<noteq> 0"
  by (metis bit.double_compl)


lemma find_append: "find P (xs @ ys) = (case find P xs of Some i \<Rightarrow> Some i | None \<Rightarrow> find P ys)"
  by (induction xs) simp_all

lemma not_zero_ones: "NOT w = 0 \<longleftrightarrow> w = (-1 :: u64)"
  using not_ones_iff [of w] by simp

lemma scan_up_zero:
  assumes N: "0 < N" and a: "a \<le> NUM_WORDS N - 1"
  shows "(case find (\<lambda>i. ws ! i \<noteq> NOT 0) [a..<NUM_WORDS N - 1] of
      Some i \<Rightarrow> i * 64 + ctz64 (NOT (ws ! i))
    | None \<Rightarrow> (let last_inverted = NOT (ws ! (NUM_WORDS N - 1)) AND LAST_WORD_MASK N in
        if last_inverted \<noteq> 0 then
          (let idx = (NUM_WORDS N - 1) * 64 + ctz64 last_inverted in if idx < N then idx else N)
        else N))
    = (case find (\<lambda>i. bs_not N ws ! i \<noteq> 0) [a..<NUM_WORDS N] of
        Some i \<Rightarrow> (let idx = i * 64 + ctz64 (bs_not N ws ! i) in if idx < N then idx else N) | None \<Rightarrow> N)"
proof -
  define M where "M = NUM_WORDS N - 1"
  have M: "NUM_WORDS N = Suc M" using NUM_WORDS_bounds(1) [OF N] by (simp add: M_def)
  have a: "a \<le> M" using a by (simp add: M_def)
  note fold = M_def [symmetric]
  have last: "bs_not N ws ! M = NOT (ws ! M) AND LAST_WORD_MASK N" using nth_bs_not [OF N, of M ws] M by simp
  have inner: "bs_not N ws ! i = NOT (ws ! i)" if "i < M" for i using nth_bs_not [OF N, of i ws] that by (simp add: M)
  have cong: "find (\<lambda>i. ws ! i \<noteq> NOT 0) [a..<M] = find (\<lambda>i. bs_not N ws ! i \<noteq> 0) [a..<M]"
    by (rule find_cong) (simp_all add: inner not_zero_ones)
  have split: "find (\<lambda>i. bs_not N ws ! i \<noteq> 0) [a..<NUM_WORDS N] =
      (case find (\<lambda>i. bs_not N ws ! i \<noteq> 0) [a..<M] of Some i \<Rightarrow> Some i | None \<Rightarrow> if bs_not N ws ! M \<noteq> 0 then Some M else None)"
    unfolding M upt_Suc_append [OF a] find_append by (simp split: option.split)
  show ?thesis
  proof (cases "find (\<lambda>i. bs_not N ws ! i \<noteq> 0) [a..<M]")
    case None
    then show ?thesis unfolding fold cong split by (simp add: last)
  next
    case (Some i)
    then have i: "i < M" "NOT (ws ! i) \<noteq> 0" by (auto simp: find_upt inner)
    have "64 * i + ctz64 (NOT (ws ! i)) < N"
      by (rule below_last [OF N i(1) [unfolded M_def] bit_below_64 [OF ctz64_lowest(1) [OF i(2)]]])
    with Some show ?thesis unfolding fold cong split by (simp add: inner [OF i(1)] mult.commute)
  qed
qed

lemma zero_searches:
  assumes N: "0 < N"
  shows "bs_find_first_zero N ws = bs_find_first N (bs_not N ws)"
    and "bs_find_next_zero N ws i = bs_find_next N (bs_not N ws) i"
    and "bs_find_last_zero N ws = bs_find_last N (bs_not N ws)"
proof -
  let ?M = "NUM_WORDS N - 1"
  have M: "NUM_WORDS N = Suc ?M" using NUM_WORDS_bounds(1) [OF N] by simp
  show "bs_find_first_zero N ws = bs_find_first N (bs_not N ws)"
    using scan_up_zero [OF N, of 0 ws] by (simp add: bs_find_first_zero_def bs_find_first_def)
  show "bs_find_next_zero N ws i = bs_find_next N (bs_not N ws) i"
  proof (cases "(i + 1) mod 2 ^ 64 \<ge> N")
    case True
    then show ?thesis by (simp add: bs_find_next_zero_def bs_find_next_def Let_def)
  next
    case False
    define k where "k = (i + 1) mod 2 ^ 64"
    let ?w = "k div 64"
    have kN: "\<not> k \<ge> N" using False by (simp add: k_def)
    have w: "?w < NUM_WORDS N" using NUM_WORDS_bounds(4) [OF N, of k] kN by simp
    have word: "(if ?w = ?M then (NOT (ws ! ?w) AND mask_from (k mod 64)) AND LAST_WORD_MASK N
        else NOT (ws ! ?w) AND mask_from (k mod 64)) = bs_not N ws ! ?w AND mask_from (k mod 64)"
      unfolding nth_bs_not [OF N w] by (simp add: ac_simps)
    have rest: "(case find (\<lambda>i. ws ! i \<noteq> NOT 0) [?w + 1..<?M] of
              Some i \<Rightarrow> i * 64 + ctz64 (NOT (ws ! i))
            | None \<Rightarrow>
                if ?w < ?M then
                  (let last_inverted = NOT (ws ! ?M) AND LAST_WORD_MASK N in
                   if last_inverted \<noteq> 0 then
                     (let idx = ?M * 64 + ctz64 last_inverted in if idx < N then idx else N)
                   else N)
                else N)
       = (case find (\<lambda>i. bs_not N ws ! i \<noteq> 0) [?w + 1..<NUM_WORDS N] of
        Some i \<Rightarrow> (let idx = i * 64 + ctz64 (bs_not N ws ! i) in if idx < N then idx else N) | None \<Rightarrow> N)"
    proof (cases "?w < ?M")
      case True
      then show ?thesis using scan_up_zero [OF N, of "?w + 1" ws] by simp
    next
      case False
      with w show ?thesis by simp
    qed
    show ?thesis
      unfolding bs_find_next_zero_def bs_find_next_def k_def [symmetric] Let_def if_not_P [OF kN]
      unfolding word rest [unfolded Let_def] ..
  qed
  show "bs_find_last_zero N ws = bs_find_last N (bs_not N ws)"
  proof -
    define M where "M = NUM_WORDS N - 1"
    have M: "NUM_WORDS N = Suc M" using NUM_WORDS_bounds(1) [OF N] by (simp add: M_def)
    note defs = bs_find_last_zero_def [of N ws, folded M_def] bs_find_last_def [of N "bs_not N ws"]
    have last: "bs_not N ws ! M = NOT (ws ! M) AND LAST_WORD_MASK N" using nth_bs_not [OF N, of M ws] M by simp
    have inner: "bs_not N ws ! i = NOT (ws ! i)" if "i < M" for i using nth_bs_not [OF N, of i ws] that by (simp add: M)
    have cong: "find (\<lambda>i. ws ! i \<noteq> NOT 0) (rev [0..<M]) = find (\<lambda>i. bs_not N ws ! i \<noteq> 0) (rev [0..<M])"
      by (rule find_cong) (simp_all add: inner not_zero_ones)
    have split: "find (\<lambda>i. bs_not N ws ! i \<noteq> 0) (rev [0..<NUM_WORDS N]) =
        (if bs_not N ws ! M \<noteq> 0 then Some M else find (\<lambda>i. bs_not N ws ! i \<noteq> 0) (rev [0..<M]))"
      by (subst M) simp
    show ?thesis
    proof (cases "bs_not N ws ! M = 0")
      case False
      then show ?thesis unfolding defs split by (simp add: last Let_def)
    next
      case True
      show ?thesis
      proof (cases "find (\<lambda>i. bs_not N ws ! i \<noteq> 0) (rev [0..<M])")
        case None
        with True show ?thesis unfolding defs split cong by (simp add: last Let_def)
      next
        case (Some i)
        then have i: "i < M" "NOT (ws ! i) \<noteq> 0" by (auto simp: find_down inner)
        have "64 * i + (63 - clz64 (NOT (ws ! i))) < N"
          by (rule below_last [OF N i(1) [unfolded M_def]]) simp
        with Some True show ?thesis unfolding defs split cong
          by (simp add: last Let_def inner [OF i(1)] mult.commute)
      qed
    qed
  qed
qed

section \<open>Iteration\<close>

lemma iterate_from_terminates:
  assumes N: "0 < N" "N < 2 ^ 64" and inv: "bs_inv N ws"
  shows "k \<le> N \<Longrightarrow> iterate_from N ws (next_in N (members ws) k) = Some (filter (\<lambda>j. j \<in> members ws) [k..<N])"
proof (induction "N - k" arbitrary: k)
  case 0
  then have "k = N" by simp
  have "next_in N (members ws) N = N" by (rule next_in_none) simp
  then show ?case unfolding \<open>k = N\<close> by (simp add: iterate_from.simps [of N ws N])
next
  case (Suc n)
  then have k: "k < N" "n = N - Suc k" by simp_all
  have up: "[k..<N] = k # [Suc k..<N]" using k(1) by (simp add: upt_conv_Cons)
  note IH = Suc.hyps(1) [OF k(2)]
  show ?case
  proof (cases "k \<in> members ws")
    case True
    have m: "next_in N (members ws) k = k" by (rule next_inI) (use True k(1) in auto)
    have "Suc k mod 2 ^ 64 = Suc k" using k(1) N(2) by simp
    then have n: "bs_find_next N ws k = next_in N (members ws) (Suc k)" using find_next_spec [OF N(1) inv, of k] by simp
    show ?thesis unfolding m iterate_from.simps [of N ws k] n using IH k(1) True by (simp add: up)
  next
    case False
    have "next_in N (members ws) k = next_in N (members ws) (Suc k)"
      by (rule next_in_skip) (use False le_Suc_eq in \<open>auto simp: less_Suc_eq_le\<close>)
    then show ?thesis using IH k(1) False by (simp add: up)
  qed
qed

lemma iterate_spec:
  assumes "0 < N" "N < 2 ^ 64" and inv: "bs_inv N ws"
  shows "bs_iterate N ws = Some (sorted_list_of_set (members ws))"
proof -
  have "filter (\<lambda>j. j \<in> members ws) [0..<N] = sorted_list_of_set (members ws)"
  proof (rule sorted_distinct_set_unique)
    show "set (filter (\<lambda>j. j \<in> members ws) [0..<N]) = set (sorted_list_of_set (members ws))"
      using member_bound [OF inv] by auto
  qed (simp_all add: sorted_wrt_filter)
  with iterate_from_terminates [OF assms, of 0] find_first_spec [OF assms(1) inv] show ?thesis
    by (simp add: bs_iterate_def)
qed

end
