(* ===== verification/BitSet_Operators.thy ===== *)
theory BitSet_Operators
  imports BitSet_Search
begin

text \<open>
  The operators of \<open>BitSet\<close> that work on all words: shifts, comparisons and conversions, in terms of
  the set of numbers the words stand for.
\<close>

section \<open>Shifts\<close>

lemma LAST_WORD_BITS_zero:
  assumes "0 < N" and "LAST_WORD_BITS N = 0"
  shows "64 * NUM_WORDS N = N"
proof -
  obtain q r where N: "N = 64 * q + r" "r < 64" by (rule split_index [of N])
  then have "r = 0" using assms(2) by (simp add: LAST_WORD_BITS_def)
  with N show ?thesis by (simp add: NUM_WORDS_def)
qed

lemma length_mask_last [simp]: "length (mask_last N res) = length res"
  by (simp add: mask_last_def)

lemma bit_mask_last:
  assumes N: "0 < N" and "length res = NUM_WORDS N" and i: "i < NUM_WORDS N" "b < 64"
  shows "bit (mask_last N res ! i) b \<longleftrightarrow> bit (res ! i) b \<and> 64 * i + b < N"
proof (cases "i = NUM_WORDS N - 1")
  case True
  show ?thesis
  proof (cases "LAST_WORD_BITS N = 0")
    case t: True
    have "64 * i + b < N" using LAST_WORD_BITS_zero [OF N t] index_bound [OF i(2), of i "NUM_WORDS N"] i(1) by simp
    with t show ?thesis by (simp add: mask_last_def)
  next
    case False
    with True assms masked_last [OF N i(2)] show ?thesis by (simp add: mask_last_def)
  qed
next
  case False
  then have "i < NUM_WORDS N - 1" using i by simp
  from below_last [OF N this i(2)] False show ?thesis by (simp add: mask_last_def)
qed

text \<open>Where a number goes when it moves by \<open>64 * q + r\<close>.\<close>

lemma index_minus:
  fixes q r i b :: nat
  assumes "r < 64" and "b < 64"
  shows "64 * q + r \<le> 64 * i + b \<longleftrightarrow> q \<le> i \<and> (if r \<le> b then True else q + 1 \<le> i)"
    and "\<lbrakk>q \<le> i; r \<le> b\<rbrakk> \<Longrightarrow> 64 * i + b - (64 * q + r) = 64 * (i - q) + (b - r)"
    and "\<lbrakk>q + 1 \<le> i; \<not> r \<le> b\<rbrakk> \<Longrightarrow> 64 * i + b - (64 * q + r) = 64 * (i - q - 1) + (b + (64 - r))"
  using index_le_iff [OF assms, of q i] assms by (auto simp: algebra_simps)

lemma shift_left_spec:
  assumes N: "0 < N" and inv: "bs_inv N ws"
  shows "bs_inv N (bs_shift_left N ws n) \<and> members (bs_shift_left N ws n) = {j. n \<le> j \<and> j < N \<and> j - n \<in> members ws}"
proof (cases "n = 0 \<or> n \<ge> N")
  case True
  moreover have "bs_inv N (bs_new N)" by (simp add: bs_inv_def members_new)
  ultimately show ?thesis using inv by (auto simp: bs_shift_left_def members_new bs_inv_def)
next
  case False
  then have n: "\<not> n = 0" "\<not> n \<ge> N" by simp_all
  obtain q r where nq: "n = 64 * q + r" "r < 64" by (rule split_index [of n])
  have d: "n div 64 = q" "n mod 64 = r" unfolding nq(1) by (rule index_word [OF nq(2)])+
  have q: "q < NUM_WORDS N" using NUM_WORDS_bounds(4) [OF N, of n] n(2) d by simp
  have len: "length ws = NUM_WORDS N" using inv by (simp add: bs_inv_def)
  have W: "bit (ws ! i) b \<longleftrightarrow> 64 * i + b \<in> members ws" if "i < NUM_WORDS N" "b < 64" for i b
    using mem_word [of i ws b] that len by simp
  note D = bs_shift_left_def [of N ws n, unfolded if_not_P [OF n(1)] if_not_P [OF n(2)] Let_def d]
  show ?thesis
  proof (rule bs_invI [OF N])
    show "length (bs_shift_left N ws n) = NUM_WORDS N" unfolding D by simp
    show "{j. n \<le> j \<and> j < N \<and> j - n \<in> members ws} \<subseteq> {..<N}" by auto
    fix i b :: nat
    assume i: "i < NUM_WORDS N" "b < 64"
    note idx = index_minus [OF nq(2) i(2), of q i, folded nq(1)]
    have "bit ((if r = 0 then assign_words (\<lambda>i. ws ! (i - q)) [q..<NUM_WORDS N] (bs_new N)
          else (assign_words (\<lambda>i. push_bit r (ws ! (i - q)) OR drop_bit (64 - r) (ws ! (i - q - 1)))
            (rev [q + 1..<NUM_WORDS N]) (bs_new N))[q := push_bit r (ws ! 0)]) ! i) b
        \<longleftrightarrow> n \<le> 64 * i + b \<and> 64 * i + b - n \<in> members ws" (is "bit (?res ! i) b \<longleftrightarrow> _")
    proof (cases "r \<le> b")
      case True
      then show ?thesis using i q W [of "i - q" "b - r"] idx nq(2)
        by (cases "i = q") (auto simp: nth_assign_words nth_list_update bit_or_iff bit_push_bit_iff bit_drop_bit_eq bit_small)
    next
      case rb: False
      show ?thesis
      proof (cases "q + 1 \<le> i")
        case True
        then show ?thesis using i q W [of "i - q - 1" "b + (64 - r)"] idx nq(2) rb
          by (auto simp: nth_assign_words nth_list_update bit_or_iff bit_push_bit_iff bit_drop_bit_eq add.commute)
      next
        case False
        then show ?thesis using i q idx nq(2) rb
          by (cases "i = q") (auto simp: nth_assign_words nth_list_update bit_or_iff bit_push_bit_iff)
      qed
    qed
    moreover have "length ?res = NUM_WORDS N" by simp
    ultimately show "bit (bs_shift_left N ws n ! i) b \<longleftrightarrow> 64 * i + b \<in> {j. n \<le> j \<and> j < N \<and> j - n \<in> members ws}"
      using bit_mask_last [OF N _ i, of ?res] unfolding D by auto
  qed
qed

lemma index_plus:
  fixes q r i b :: nat
  assumes "r < 64" and "b < 64"
  shows "b + r < 64 \<Longrightarrow> 64 * i + b + (64 * q + r) = 64 * (i + q) + (b + r)"
    and "\<not> b + r < 64 \<Longrightarrow> 64 * i + b + (64 * q + r) = 64 * (i + q + 1) + (b - (64 - r))"
  using assms by simp_all

lemma shift_right_spec:
  assumes N: "0 < N" and inv: "bs_inv N ws"
  shows "bs_inv N (bs_shift_right N ws n) \<and> members (bs_shift_right N ws n) = {j. j + n \<in> members ws}"
proof (cases "n = 0 \<or> n \<ge> N")
  case True
  moreover have "bs_inv N (bs_new N)" by (simp add: bs_inv_def members_new)
  moreover have "j + n \<notin> members ws" if "n \<ge> N" for j using member_bound [OF inv, of "j + n"] that by auto
  ultimately show ?thesis using inv by (auto simp: bs_shift_right_def members_new)
next
  case False
  then have n: "\<not> n = 0" "\<not> n \<ge> N" by simp_all
  obtain q r where nq: "n = 64 * q + r" "r < 64" by (rule split_index [of n])
  have d: "n div 64 = q" "n mod 64 = r" unfolding nq(1) by (rule index_word [OF nq(2)])+
  have q: "q < NUM_WORDS N" using NUM_WORDS_bounds(4) [OF N, of n] n(2) d by simp
  have len: "length ws = NUM_WORDS N" using inv by (simp add: bs_inv_def)
  have W: "bit (ws ! i) b \<longleftrightarrow> 64 * i + b \<in> members ws" if "i < NUM_WORDS N" "b < 64" for i b
    using mem_word [of i ws b] that len by simp
  have out: "64 * k + c \<notin> members ws" if "\<not> k < NUM_WORDS N" for k c
  proof
    assume "64 * k + c \<in> members ws"
    from member_bound [OF inv this] NUM_WORDS_bounds(2) [OF N] that show False by linarith
  qed
  note D = bs_shift_right_def [of N ws n, unfolded if_not_P [OF n(1)] if_not_P [OF n(2)] Let_def d]
  show ?thesis
  proof (rule bs_invI [OF N])
    show "length (bs_shift_right N ws n) = NUM_WORDS N" unfolding D by simp
    show "{j. j + n \<in> members ws} \<subseteq> {..<N}" using member_bound [OF inv] by fastforce
    fix i b :: nat
    assume i: "i < NUM_WORDS N" "b < 64"
    note idx = index_plus [OF nq(2) i(2), of i q, folded nq(1)]
    have "bit ((if r = 0 then assign_words (\<lambda>i. ws ! (i + q)) [0..<NUM_WORDS N - q] (bs_new N)
          else (assign_words (\<lambda>i. drop_bit r (ws ! (i + q)) OR push_bit (64 - r) (ws ! (i + q + 1)))
            [0..<NUM_WORDS N - q - 1] (bs_new N))[NUM_WORDS N - q - 1 := drop_bit r (ws ! (NUM_WORDS N - 1))]) ! i) b
        \<longleftrightarrow> 64 * i + b + n \<in> members ws" (is "bit (?res ! i) b \<longleftrightarrow> _")
    proof (cases "i + q < NUM_WORDS N")
      case iq: True
      show ?thesis
      proof (cases "b + r < 64")
        case True
        have rw: "r \<noteq> 0 \<Longrightarrow> \<not> 64 - r \<le> b" using True by linarith
        show ?thesis unfolding idx(1) [OF True] W [OF iq True, symmetric]
          using i iq q rw by (cases "i + q = NUM_WORDS N - 1")
            (auto simp: nth_assign_words nth_list_update bit_or_iff bit_push_bit_iff bit_drop_bit_eq add.commute)
      next
        case False
        then have r: "r \<noteq> 0" "\<not> bit (ws ! (i + q)) (r + b)" "\<not> bit (ws ! (NUM_WORDS N - 1)) (r + b)"
          using i(2) bit_small [of "r + b"] by (auto simp: add.commute)
        have c: "b - (64 - r) < 64" "64 - r \<le> b" using i(2) False by linarith+
        show ?thesis
        proof (cases "i + q + 1 < NUM_WORDS N")
          case True
          show ?thesis unfolding idx(2) [OF False] W [OF True c(1), symmetric]
            using True i iq q r c(2)
            by (auto simp: nth_assign_words nth_list_update bit_or_iff bit_push_bit_iff bit_drop_bit_eq)
        next
          case f: False
          with iq have "i = NUM_WORDS N - q - 1" by linarith
          with out [OF f] i r show ?thesis unfolding idx(2) [OF False]
            by (simp add: nth_list_update bit_drop_bit_eq)
        qed
      qed
    next
      case False
      have "64 * i + b + n \<notin> members ws"
        using out [OF False, of "b + r"] by (simp add: nq(1) algebra_simps)
      moreover have "\<not> bit (?res ! i) b" using False i q by (auto simp: nth_assign_words nth_list_update)
      ultimately show ?thesis by simp
    qed
    moreover have "length ?res = NUM_WORDS N" by simp
    moreover have "64 * i + b < N" if "64 * i + b + n \<in> members ws" using member_bound [OF inv that] by simp
    ultimately show "bit (bs_shift_right N ws n ! i) b \<longleftrightarrow> 64 * i + b \<in> {j. j + n \<in> members ws}"
      using bit_mask_last [OF N _ i, of ?res] unfolding D by auto
  qed
qed


section \<open>Comparisons\<close>

lemma find_word_None: "find P [0..<m] = None \<longleftrightarrow> (\<forall>i<m. \<not> P i)"
  by (auto simp: find_None_iff)

lemma ex_member:
  assumes "\<And>i b. \<lbrakk>i < m; b < 64\<rbrakk> \<Longrightarrow> bit (f i :: u64) b \<longleftrightarrow> 64 * i + b \<in> S" and "S \<subseteq> {..<64 * m}"
  shows "(\<forall>i<m. f i = 0) \<longleftrightarrow> S = {}"
proof
  assume z: "\<forall>i<m. f i = 0"
  show "S = {}"
  proof (rule equals0I)
    fix j
    assume j: "j \<in> S"
    obtain i b where ib: "j = 64 * i + b" "b < 64" by (rule split_index [of j])
    have "i < m" using j assms(2) ib index_bound [OF ib(2), of i m] by auto
    with assms(1) [OF this ib(2)] j z ib show False by simp
  qed
next
  assume S: "S = {}"
  show "\<forall>i<m. f i = 0"
  proof (intro allI impI bit_word_eqI)
    fix i b
    assume "i < m" "b < LENGTH(64)"
    with assms(1) [of i b] S show "bit (f i) b \<longleftrightarrow> bit (0 :: u64) b" by simp
  qed
qed

lemma comparisons:
  assumes N: "0 < N" and ws: "bs_inv N ws" and vs: "bs_inv N vs"
  shows "bs_any N ws \<longleftrightarrow> members ws \<noteq> {}" and "bs_all N ws \<longleftrightarrow> members ws = {..<N}"
    and "bs_isSubsetOf N ws vs \<longleftrightarrow> members ws \<subseteq> members vs"
    and "bs_intersects N ws vs \<longleftrightarrow> members ws \<inter> members vs \<noteq> {}"
    and "bs_equal N ws vs \<longleftrightarrow> members ws = members vs"
proof -
  let ?M = "NUM_WORDS N"
  have len: "length ws = ?M" "length vs = ?M" using ws vs by (simp_all add: bs_inv_def)
  note W = members_subset_bound(2) [OF ws N] and V = members_subset_bound(2) [OF vs N]
  note B = members_subset_bound(1) [OF ws N]
  show "bs_any N ws \<longleftrightarrow> members ws \<noteq> {}"
    using ex_member [of ?M "\<lambda>i. ws ! i", OF W B] by (simp add: bs_any_def find_None_iff)
  show "bs_isSubsetOf N ws vs \<longleftrightarrow> members ws \<subseteq> members vs"
    using ex_member [of ?M "\<lambda>i. ws ! i AND NOT (vs ! i)" "members ws - members vs"] B
    by (auto simp: bs_isSubsetOf_def find_None_iff bit_and_iff bit_not_iff W V)
  show "bs_intersects N ws vs \<longleftrightarrow> members ws \<inter> members vs \<noteq> {}"
    using ex_member [of ?M "\<lambda>i. ws ! i AND vs ! i" "members ws \<inter> members vs"] B
    by (auto simp: bs_intersects_def find_None_iff bit_and_iff W V)
  have "bs_equal N ws vs \<longleftrightarrow> ws = vs" using len by (auto simp: bs_equal_def find_None_iff intro!: nth_equalityI)
  then show "bs_equal N ws vs \<longleftrightarrow> members ws = members vs" using members_inj [of ws vs] len by auto
  have "bs_all N ws \<longleftrightarrow> ws = bs_setAll N ws"
  proof -
    have "bs_setAll N ws ! i = (if i = ?M - 1 then LAST_WORD_MASK N else NOT 0)" if "i < ?M" for i
      using that len by (auto simp: bs_setAll_def nth_list_update nth_assign_words)
    moreover have "length (bs_setAll N ws) = length ws" by (simp add: bs_setAll_def)
    ultimately have "ws = bs_setAll N ws \<longleftrightarrow> (\<forall>i<?M. ws ! i = (if i = ?M - 1 then LAST_WORD_MASK N else NOT 0))"
      using len by (simp add: list_eq_iff_nth_eq)
    also have "\<dots> \<longleftrightarrow> (\<forall>i<?M - 1. ws ! i = NOT 0) \<and> ws ! (?M - 1) = LAST_WORD_MASK N"
      using NUM_WORDS_bounds(1) [OF N] word_cases [of _ N] by (auto split: if_splits)
    also have "\<dots> \<longleftrightarrow> bs_all N ws" by (simp add: bs_all_def find_None_iff)
    finally show ?thesis by simp
  qed
  then show "bs_all N ws \<longleftrightarrow> members ws = {..<N}"
    using bulk_ops(1) [OF N ws] members_inj [of ws "bs_setAll N ws"] len by (auto simp: bs_inv_def)
qed

section \<open>Conversions\<close>

lemma to_string_loop:
  "m \<le> N \<Longrightarrow> fold (\<lambda>i res. if P i then res[N - 1 - i := one] else res) [0..<m] (replicate N zero)
    = map (\<lambda>k. if N - 1 - k < m \<and> P (N - 1 - k) then one else zero) [0..<N]"
proof (induction m)
  case (Suc m)
  then have "m < N" by simp
  show ?case using Suc
    by (auto intro!: nth_equalityI simp: nth_list_update less_Suc_eq)
qed (auto intro!: nth_equalityI)

lemma to_string_spec:
  assumes N: "0 < N" and inv: "bs_inv N ws"
  shows "bs_to_string N ws zero one = rev (map (\<lambda>j. if j \<in> members ws then one else zero) [0..<N])"
proof -
  have b: "i < 64 * length ws" if "i < N" for i using that NUM_WORDS_bounds(2) [OF N] inv by (simp add: bs_inv_def)
  have "bs_to_string N ws zero one = map (\<lambda>k. if test_unchecked ws (N - 1 - k) then one else zero) [0..<N]"
    unfolding bs_to_string_def by (subst to_string_loop [OF order_refl]) (use N in auto)
  also have "\<dots> = rev (map (\<lambda>j. if j \<in> members ws then one else zero) [0..<N])"
    by (rule nth_equalityI) (auto simp: rev_nth test_unchecked_iff b)
  finally show ?thesis .
qed

lemma to_integer_spec:
  assumes N: "0 < N" and inv: "bs_inv N ws" and width: "0 < width" "width \<le> 64"
  shows "bs_to_integer width N ws = (if \<exists>j\<in>members ws. width \<le> j then Inl (Runtime_error ''overflow'')
    else Inr (\<Sum>j\<in>members ws. 2 ^ j))"
proof -
  have b: "test_unchecked ws j \<longleftrightarrow> j \<in> members ws" if "j < N" for j
    by (rule test_unchecked_iff) (use that NUM_WORDS_bounds(2) [OF N] inv in \<open>simp add: bs_inv_def\<close>)
  have over: "(N > width \<and> find (test_unchecked ws) [width..<N] \<noteq> None) \<longleftrightarrow> (\<exists>j\<in>members ws. width \<le> j)"
  proof -
    have "(N > width \<and> find (test_unchecked ws) [width..<N] \<noteq> None) \<longleftrightarrow> (\<exists>j. width \<le> j \<and> j < N \<and> test_unchecked ws j)"
      by (auto simp: find_None_iff)
    also have "\<dots> \<longleftrightarrow> (\<exists>j\<in>members ws. width \<le> j)" using member_bound [OF inv] b by blast
    finally show ?thesis .
  qed
  show ?thesis
  proof (cases "\<exists>j\<in>members ws. width \<le> j")
    case True
    with over show ?thesis unfolding bs_to_integer_def by simp
  next
    case False
    have len: "0 < length ws" using NUM_WORDS_bounds(1) [OF N] inv by (simp add: bs_inv_def)
    have sub: "members ws \<subseteq> {..<64}" using False width by fastforce
    have bits: "bit (ws ! 0) j \<longleftrightarrow> j \<in> members ws" for j
    proof (cases "j < 64")
      case True
      then show ?thesis using mem_word [of 0 ws j] len by simp
    next
      case False
      then show ?thesis using bit_small [of j] sub by auto
    qed
    have "take_bit width (ws ! 0) = ws ! 0"
      by (rule bit_eqI) (use False in \<open>auto simp: bit_take_bit_iff bits\<close>)
    moreover have "ws ! 0 = (\<Sum>j\<in>members ws. 2 ^ j)"
    proof -
      have "ws ! 0 = horner_sum of_bool 2 (map (bit (ws ! 0)) [0..<64])"
        by (simp add: horner_sum_bit_eq_take_bit take_bit_word_eq_self)
      also have "\<dots> = (\<Sum>j<64. of_bool (j \<in> members ws) * 2 ^ j)"
        by (simp add: horner_sum_eq_sum bits atLeast0LessThan)
      also have "\<dots> = (\<Sum>j\<in>members ws. 2 ^ j)"
        by (rule sum.mono_neutral_cong_right) (use sub in auto)
      finally show ?thesis .
    qed
    ultimately show ?thesis using False over unfolding bs_to_integer_def by simp
  qed
qed

end
