(* ===== verification/BitSet_Contract.thy ===== *)
theory BitSet_Contract
  imports BitSet_Operators
begin

text \<open>
  \<open>BitSet\<close> refines a set of numbers below \<open>N\<close>: any sequence of updates, from the empty container, and
  every query after it.  Operands of the binary operators are containers built from an initializer
  list.  Statements about the program are the last section.
\<close>

section \<open>Updates and queries\<close>

datatype bs_update =
    Set_bit nat | Set_to nat bool | Clear_bit nat | Flip_bit nat
  | Set_all | Clear_all | Flip_all | Complement
  | Set_range nat nat | Clear_range nat nat | Flip_range nat nat
  | And_with "nat list" | Or_with "nat list" | Xor_with "nat list"
  | Shift_left nat | Shift_right nat

fun bs_change :: "nat \<Rightarrow> bit_words \<Rightarrow> bs_update \<Rightarrow> bit_words result" where
  "bs_change N ws (Set_bit i) = bs_set N ws i"
| "bs_change N ws (Set_to i v) = bs_set_value N ws i v"
| "bs_change N ws (Clear_bit i) = bs_clear N ws i"
| "bs_change N ws (Flip_bit i) = bs_flip N ws i"
| "bs_change N ws Set_all = Inr (bs_setAll N ws)"
| "bs_change N ws Clear_all = Inr (bs_clearAll N ws)"
| "bs_change N ws Flip_all = Inr (bs_flipAll N ws)"
| "bs_change N ws Complement = Inr (bs_not N ws)"
| "bs_change N ws (Set_range a b) = bs_setRange N ws a b"
| "bs_change N ws (Clear_range a b) = bs_clearRange N ws a b"
| "bs_change N ws (Flip_range a b) = bs_flipRange N ws a b"
| "bs_change N ws (And_with is) = (case bs_of_list N is of Inl e \<Rightarrow> Inl e | Inr vs \<Rightarrow> Inr (bs_and_assign N ws vs))"
| "bs_change N ws (Or_with is) = (case bs_of_list N is of Inl e \<Rightarrow> Inl e | Inr vs \<Rightarrow> Inr (bs_or_assign N ws vs))"
| "bs_change N ws (Xor_with is) = (case bs_of_list N is of Inl e \<Rightarrow> Inl e | Inr vs \<Rightarrow> Inr (bs_xor_assign N ws vs))"
| "bs_change N ws (Shift_left n) = Inr (bs_shift_left N ws n)"
| "bs_change N ws (Shift_right n) = Inr (bs_shift_right N ws n)"

text \<open>An update that throws leaves the container as it was.\<close>

fun bs_run :: "nat \<Rightarrow> bit_words \<Rightarrow> bs_update list \<Rightarrow> bit_words \<times> fault option list" where
  "bs_run N ws [] = (ws, [])"
| "bs_run N ws (u # us) = (case bs_change N ws u of
     Inl e \<Rightarrow> (let (vs, es) = bs_run N ws us in (vs, Some e # es))
   | Inr ws' \<Rightarrow> (let (vs, es) = bs_run N ws' us in (vs, None # es)))"

datatype bs_query =
    Is_set nat | Count_set | Count_between nat nat | Any_set | None_set | All_set
  | First_set | Next_set nat | Last_set | Prev_set nat | First_clear | Next_clear nat | Last_clear
  | Visit_all | Subset_of "nat list" | Proper_subset_of "nat list" | Intersects_with "nat list"
  | Disjoint_from "nat list" | Equal_to "nat list" | Distance_to "nat list"
  | As_string char char | As_ulong | As_ullong

datatype bs_answer = Flag bool | Number nat | Numbers "nat list" | Text string | Word u64 | Raised fault | Endless

definition with_operand :: "nat \<Rightarrow> nat list \<Rightarrow> (bit_words \<Rightarrow> bs_answer) \<Rightarrow> bs_answer" where
  "with_operand N is f = (case bs_of_list N is of Inl e \<Rightarrow> Raised e | Inr vs \<Rightarrow> f vs)"

text \<open>\<open>unsigned long\<close> has 32 or 64 bits; the model takes \<open>ul\<close>.\<close>

fun bs_ask :: "nat \<Rightarrow> nat \<Rightarrow> bit_words \<Rightarrow> bs_query \<Rightarrow> bs_answer" where
  "bs_ask ul N ws (Is_set i) = (case bs_test N ws i of Inl e \<Rightarrow> Raised e | Inr b \<Rightarrow> Flag b)"
| "bs_ask ul N ws Count_set = Number (bs_count N ws)"
| "bs_ask ul N ws (Count_between a b) = (case bs_count_range N ws a b of Inl e \<Rightarrow> Raised e | Inr n \<Rightarrow> Number n)"
| "bs_ask ul N ws Any_set = Flag (bs_any N ws)"
| "bs_ask ul N ws None_set = Flag (bs_none N ws)"
| "bs_ask ul N ws All_set = Flag (bs_all N ws)"
| "bs_ask ul N ws First_set = Number (bs_find_first N ws)"
| "bs_ask ul N ws (Next_set i) = Number (bs_find_next N ws i)"
| "bs_ask ul N ws Last_set = Number (bs_find_last N ws)"
| "bs_ask ul N ws (Prev_set i) = Number (bs_find_prev N ws i)"
| "bs_ask ul N ws First_clear = Number (bs_find_first_zero N ws)"
| "bs_ask ul N ws (Next_clear i) = Number (bs_find_next_zero N ws i)"
| "bs_ask ul N ws Last_clear = Number (bs_find_last_zero N ws)"
| "bs_ask ul N ws Visit_all = (case bs_iterate N ws of None \<Rightarrow> Endless | Some is \<Rightarrow> Numbers is)"
| "bs_ask ul N ws (Subset_of is) = with_operand N is (\<lambda>vs. Flag (bs_isSubsetOf N ws vs))"
| "bs_ask ul N ws (Proper_subset_of is) = with_operand N is (\<lambda>vs. Flag (bs_isProperSubsetOf N ws vs))"
| "bs_ask ul N ws (Intersects_with is) = with_operand N is (\<lambda>vs. Flag (bs_intersects N ws vs))"
| "bs_ask ul N ws (Disjoint_from is) = with_operand N is (\<lambda>vs. Flag (bs_isDisjoint N ws vs))"
| "bs_ask ul N ws (Equal_to is) = with_operand N is (\<lambda>vs. Flag (bs_equal N ws vs))"
| "bs_ask ul N ws (Distance_to is) = with_operand N is (\<lambda>vs. Number (bs_hamming_distance N ws vs))"
| "bs_ask ul N ws (As_string zero one) = Text (bs_to_string N ws zero one)"
| "bs_ask ul N ws As_ulong = (case bs_to_integer ul N ws of Inl e \<Rightarrow> Raised e | Inr w \<Rightarrow> Word w)"
| "bs_ask ul N ws As_ullong = (case bs_to_integer 64 N ws of Inl e \<Rightarrow> Raised e | Inr w \<Rightarrow> Word w)"

section \<open>The abstract set\<close>

definition sym_diff :: "nat set \<Rightarrow> nat set \<Rightarrow> nat set" where
  "sym_diff A B = (A - B) \<union> (B - A)"

definition index_ok :: "nat \<Rightarrow> nat \<Rightarrow> nat set \<Rightarrow> nat set result" where
  "index_ok N i S = (if i < N then Inr S else Inl Out_of_range)"

definition range_ok :: "nat \<Rightarrow> nat \<Rightarrow> nat \<Rightarrow> nat set \<Rightarrow> nat set result" where
  "range_ok N a b S = (if a \<le> b \<and> b \<le> N then Inr S else Inl Out_of_range)"

definition operand_ok :: "nat \<Rightarrow> nat list \<Rightarrow> nat set \<Rightarrow> nat set result" where
  "operand_ok N is S = (if \<forall>i\<in>set is. i < N then Inr S else Inl Out_of_range)"

fun set_change :: "nat \<Rightarrow> nat set \<Rightarrow> bs_update \<Rightarrow> nat set result" where
  "set_change N S (Set_bit i) = index_ok N i (insert i S)"
| "set_change N S (Set_to i v) = index_ok N i (if v then insert i S else S - {i})"
| "set_change N S (Clear_bit i) = index_ok N i (S - {i})"
| "set_change N S (Flip_bit i) = index_ok N i (sym_diff S {i})"
| "set_change N S Set_all = Inr {..<N}"
| "set_change N S Clear_all = Inr {}"
| "set_change N S Flip_all = Inr ({..<N} - S)"
| "set_change N S Complement = Inr ({..<N} - S)"
| "set_change N S (Set_range a b) = range_ok N a b (S \<union> {a..<b})"
| "set_change N S (Clear_range a b) = range_ok N a b (S - {a..<b})"
| "set_change N S (Flip_range a b) = range_ok N a b (sym_diff S {a..<b})"
| "set_change N S (And_with is) = operand_ok N is (S \<inter> set is)"
| "set_change N S (Or_with is) = operand_ok N is (S \<union> set is)"
| "set_change N S (Xor_with is) = operand_ok N is (sym_diff S (set is))"
| "set_change N S (Shift_left n) = Inr (((\<lambda>j. j + n) ` S) \<inter> {..<N})"
| "set_change N S (Shift_right n) = Inr ((\<lambda>j. j - n) ` (S - {..<n}))"

fun set_run :: "nat \<Rightarrow> nat set \<Rightarrow> bs_update list \<Rightarrow> nat set \<times> fault option list" where
  "set_run N S [] = (S, [])"
| "set_run N S (u # us) = (case set_change N S u of
     Inl e \<Rightarrow> (let (T, es) = set_run N S us in (T, Some e # es))
   | Inr S' \<Rightarrow> (let (T, es) = set_run N S' us in (T, None # es)))"

definition if_below :: "nat \<Rightarrow> nat list \<Rightarrow> bs_answer \<Rightarrow> bs_answer" where
  "if_below N is a = (if \<forall>i\<in>set is. i < N then a else Raised Out_of_range)"

definition number_of :: "nat \<Rightarrow> nat set \<Rightarrow> bs_answer" where
  "number_of width S = (if S \<subseteq> {..<width} then Word (\<Sum>j\<in>S. 2 ^ j) else Raised (Runtime_error ''overflow''))"

fun set_ask :: "nat \<Rightarrow> nat \<Rightarrow> nat set \<Rightarrow> bs_query \<Rightarrow> bs_answer" where
  "set_ask ul N S (Is_set i) = (if i < N then Flag (i \<in> S) else Raised Out_of_range)"
| "set_ask ul N S Count_set = Number (card S)"
| "set_ask ul N S (Count_between a b) = (if a \<le> b \<and> b \<le> N then Number (card (S \<inter> {a..<b})) else Raised Out_of_range)"
| "set_ask ul N S Any_set = Flag (S \<noteq> {})"
| "set_ask ul N S None_set = Flag (S = {})"
| "set_ask ul N S All_set = Flag (S = {..<N})"
| "set_ask ul N S First_set = Number (next_in N S 0)"
| "set_ask ul N S (Next_set i) = Number (next_in N S (Suc i mod 2 ^ 64))"
| "set_ask ul N S Last_set = Number (prev_in N S N)"
| "set_ask ul N S (Prev_set i) = Number (if i > N then N else prev_in N S i)"
| "set_ask ul N S First_clear = Number (next_in N ({..<N} - S) 0)"
| "set_ask ul N S (Next_clear i) = Number (next_in N ({..<N} - S) (Suc i mod 2 ^ 64))"
| "set_ask ul N S Last_clear = Number (prev_in N ({..<N} - S) N)"
| "set_ask ul N S Visit_all = Numbers (sorted_list_of_set S)"
| "set_ask ul N S (Subset_of is) = if_below N is (Flag (S \<subseteq> set is))"
| "set_ask ul N S (Proper_subset_of is) = if_below N is (Flag (S \<subset> set is))"
| "set_ask ul N S (Intersects_with is) = if_below N is (Flag (S \<inter> set is \<noteq> {}))"
| "set_ask ul N S (Disjoint_from is) = if_below N is (Flag (S \<inter> set is = {}))"
| "set_ask ul N S (Equal_to is) = if_below N is (Flag (S = set is))"
| "set_ask ul N S (Distance_to is) = if_below N is (Number (card (sym_diff S (set is))))"
| "set_ask ul N S (As_string zero one) = Text (rev (map (\<lambda>j. if j \<in> S then one else zero) [0..<N]))"
| "set_ask ul N S As_ulong = number_of ul S"
| "set_ask ul N S As_ullong = number_of 64 S"

section \<open>The refinement\<close>

text \<open>An outcome of the words stands for an outcome of the set.\<close>

fun stands_for :: "nat \<Rightarrow> bit_words result \<Rightarrow> nat set result \<Rightarrow> bool" where
  "stands_for N (Inl e) R = (R = Inl e)"
| "stands_for N (Inr vs) R = (bs_inv N vs \<and> R = Inr (members vs))"

lemma single_stands_for:
  assumes N: "0 < N" and inv: "bs_inv N ws"
  shows "stands_for N (bs_set N ws i) (index_ok N i (insert i (members ws)))"
    and "stands_for N (bs_clear N ws i) (index_ok N i (members ws - {i}))"
    and "stands_for N (bs_flip N ws i) (index_ok N i (sym_diff (members ws) {i}))"
proof -
  have b: "i < 64 * length ws" if "i < N" using that NUM_WORDS_bounds(2) [OF N] inv by (simp add: bs_inv_def)
  note rules = single_bit [OF b] bs_inv_def index_ok_def sym_diff_def
  show "stands_for N (bs_set N ws i) (index_ok N i (insert i (members ws)))"
    and "stands_for N (bs_clear N ws i) (index_ok N i (members ws - {i}))"
    and "stands_for N (bs_flip N ws i) (index_ok N i (sym_diff (members ws) {i}))"
    using inv by (auto simp: rules bs_set_def bs_clear_def bs_flip_def)
qed

lemma set_indices_stands_for:
  assumes N: "0 < N"
  shows "bs_inv N ws \<Longrightarrow> stands_for N (set_indices N ws is) (operand_ok N is (members ws \<union> set is))"
proof (induction "is" arbitrary: ws)
  case Nil
  then show ?case by (simp add: operand_ok_def)
next
  case (Cons i "is")
  show ?case
  proof (cases "bs_set N ws i")
    case (Inl e)
    with single_stands_for(1) [OF N Cons.prems, of i] show ?thesis
      by (auto simp: operand_ok_def index_ok_def split: if_splits)
  next
    case (Inr vs)
    with single_stands_for(1) [OF N Cons.prems, of i] have v: "bs_inv N vs" "members vs = insert i (members ws)" "i < N"
      by (auto simp: index_ok_def split: if_splits)
    from Cons.IH [OF v(1)] show ?thesis using Inr v(2,3) by (simp add: operand_ok_def)
  qed
qed

lemma operand_cases:
  assumes N: "0 < N"
  obtains (bad) "bs_of_list N is = Inl Out_of_range" "\<not> (\<forall>i\<in>set is. i < N)"
  | (good) vs where "bs_of_list N is = Inr vs" "bs_inv N vs" "members vs = set is" "\<forall>i\<in>set is. i < N"
proof -
  have "bs_inv N (bs_new N)" by (simp add: bs_inv_def members_new)
  from set_indices_stands_for [OF N this, of "is"] show thesis
    using bad good by (cases "bs_of_list N is") (auto simp: bs_of_list_def operand_ok_def members_new split: if_splits)
qed

lemma range_stands_for:
  assumes "0 < N" and "bs_inv N ws"
  shows "stands_for N (bs_setRange N ws a b) (range_ok N a b (members ws \<union> {a..<b}))"
    and "stands_for N (bs_clearRange N ws a b) (range_ok N a b (members ws - {a..<b}))"
    and "stands_for N (bs_flipRange N ws a b) (range_ok N a b (sym_diff (members ws) {a..<b}))"
  using range_ops [OF assms, of a b] by (auto simp: range_ok_def sym_diff_def split: if_splits)

lemma operand_stands_for:
  assumes N: "0 < N" and inv: "bs_inv N ws"
  shows "stands_for N (bs_change N ws (And_with is)) (set_change N (members ws) (And_with is))"
    and "stands_for N (bs_change N ws (Or_with is)) (set_change N (members ws) (Or_with is))"
    and "stands_for N (bs_change N ws (Xor_with is)) (set_change N (members ws) (Xor_with is))"
  by (cases rule: operand_cases [OF N, of "is"];
      use binary_ops [OF N inv] in \<open>simp add: operand_ok_def sym_diff_def\<close>)+

lemma shift_stands_for:
  assumes "0 < N" and "bs_inv N ws"
  shows "stands_for N (Inr (bs_shift_left N ws n)) (Inr (((\<lambda>j. j + n) ` members ws) \<inter> {..<N}))"
    and "stands_for N (Inr (bs_shift_right N ws n)) (Inr ((\<lambda>j. j - n) ` (members ws - {..<n})))"
proof -
  have "{j. n \<le> j \<and> j < N \<and> j - n \<in> members ws} = ((\<lambda>j. j + n) ` members ws) \<inter> {..<N}"
    by (auto simp: image_iff intro: le_add_diff_inverse2 [symmetric])
  with shift_left_spec [OF assms, of n]
  show "stands_for N (Inr (bs_shift_left N ws n)) (Inr (((\<lambda>j. j + n) ` members ws) \<inter> {..<N}))" by simp
  have "{j. j + n \<in> members ws} = (\<lambda>j. j - n) ` (members ws - {..<n})"
    by (auto simp: image_iff intro!: bexI [where x = "_ + n"])
  with shift_right_spec [OF assms, of n]
  show "stands_for N (Inr (bs_shift_right N ws n)) (Inr ((\<lambda>j. j - n) ` (members ws - {..<n})))" by simp
qed

lemma change_stands_for:
  assumes "0 < N" and "bs_inv N ws"
  shows "stands_for N (bs_change N ws u) (set_change N (members ws) u)"
  using single_stands_for [OF assms] range_stands_for [OF assms] operand_stands_for [OF assms]
    shift_stands_for [OF assms] bulk_ops [OF assms]
  by (cases u) (simp_all add: bs_set_value_def del: stands_for.simps(2) add: stands_for.simps(2) [of _ "bs_setAll _ _"]
      stands_for.simps(2) [of _ "bs_clearAll _ _"] stands_for.simps(2) [of _ "bs_flipAll _ _"] stands_for.simps(2) [of _ "bs_not _ _"])

lemma run_stands_for:
  assumes N: "0 < N"
  shows "bs_inv N ws \<Longrightarrow> bs_inv N (fst (bs_run N ws us))
    \<and> set_run N (members ws) us = (members (fst (bs_run N ws us)), snd (bs_run N ws us))"
proof (induction us arbitrary: ws)
  case (Cons u us)
  from change_stands_for [OF N Cons.prems, of u] show ?case
    using Cons.IH [OF Cons.prems] Cons.IH by (cases "bs_change N ws u") (fastforce split: prod.splits)+
qed simp


lemma prefix_string:
  assumes "0 < N" and "bs_inv N ws" and "0 < width" "width \<le> 64"
  shows "(case bs_to_integer width N ws of Inl e \<Rightarrow> Raised e | Inr w \<Rightarrow> Word w) = number_of width (members ws)"
  using to_integer_spec [OF assms] by (auto simp: number_of_def not_le subset_iff)

lemma operand_answer:
  assumes "0 < N" and "\<And>vs. \<lbrakk>bs_inv N vs; members vs = set is\<rbrakk> \<Longrightarrow> f vs = a"
  shows "with_operand N is f = if_below N is a"
  by (cases rule: operand_cases [OF assms(1), of "is"]) (auto simp: with_operand_def if_below_def assms(2))

lemma test_answer:
  assumes "0 < N" and "bs_inv N ws"
  shows "(case bs_test N ws i of Inl e \<Rightarrow> Raised e | Inr b \<Rightarrow> Flag b) = (if i < N then Flag (i \<in> members ws) else Raised Out_of_range)"
  using test_unchecked_iff [of i ws] NUM_WORDS_bounds(2) [OF assms(1)] assms(2) by (auto simp: bs_test_def bs_inv_def)

lemma count_range_answer:
  assumes "0 < N" and "bs_inv N ws"
  shows "(case bs_count_range N ws a b of Inl e \<Rightarrow> Raised e | Inr n \<Rightarrow> Number n)
    = (if a \<le> b \<and> b \<le> N then Number (card (members ws \<inter> {a..<b})) else Raised Out_of_range)"
  using bs_count_range_card [OF assms, of a b] by (cases "a < b"; cases "b \<le> N") (auto simp: bs_count_range_def)

lemma ask_refines:
  assumes N: "0 < N" "N < 2 ^ 64" and ul: "0 < ul" "ul \<le> 64" and inv: "bs_inv N ws"
  shows "bs_ask ul N ws q = set_ask ul N (members ws) q"
proof -
  have len: "length ws = NUM_WORDS N" using inv by (simp add: bs_inv_def)
  have cpl: "bs_inv N (bs_not N ws)" "members (bs_not N ws) = {..<N} - members ws"
    using bulk_ops(4) [OF N(1) inv] by blast+
  note searches = find_first_spec find_next_spec find_last_spec find_prev_spec
  note here = searches [OF N(1) inv] iterate_spec [OF N inv] bs_count_card [OF len] to_string_spec [OF N(1) inv]
    test_answer [OF N(1) inv] count_range_answer [OF N(1) inv] prefix_string [OF N(1) inv]
  note zero = zero_searches [OF N(1)] searches [OF N(1) cpl(1)] cpl(2)
  note two = comparisons [OF N(1) inv] bs_hamming_card [OF N(1) inv]
  have empty: "bs_any N ws \<longleftrightarrow> members ws \<noteq> {}" "bs_all N ws \<longleftrightarrow> members ws = {..<N}"
    using two(1,2) [OF inv] by blast+
  show ?thesis
    by (cases q; simp add: here zero ul bs_none_def empty del: One_nat_def)
      (rule operand_answer [OF N(1)]; simp add: two bs_isProperSubsetOf_def bs_isDisjoint_def sym_diff_def psubset_eq)+
qed

section \<open>Statements about the program\<close>

text \<open>C26: A \<open>BitSet<N>\<close> under any sequence of updates, from the empty container, is a set of numbers
  below \<open>N\<close>: setting, clearing and flipping of single bits, ranges and all bits, complement, and, or,
  xor and both shifts do to the bits what the set operation does, an update throws \<open>out_of_range\<close> for
  exactly the indices and ranges past \<open>N\<close> (operands written as initializer lists included), and one
  that throws changes nothing.\<close>

theorem bitset_refines_set:
  assumes "0 < N"
  shows "set_run N {} us = (members (fst (bs_run N (bs_new N) us)), snd (bs_run N (bs_new N) us))"
proof -
  have "bs_inv N (bs_new N)" by (simp add: bs_inv_def members_new)
  from run_stands_for [OF assms this, of us] show ?thesis by (simp add: members_new)
qed


text \<open>C28: The words of a \<open>BitSet\<close> are canonical: after any updates there are \<open>NUM_WORDS\<close> of them, the
  bits of the last word past \<open>N\<close> are 0, and two containers have equal words exactly when they stand
  for the same set, so that \<open>==\<close> compares sets and equal sets have equal hashes.\<close>

theorem bitset_canonical:
  assumes "0 < N"
  shows "length (fst (bs_run N (bs_new N) us)) = NUM_WORDS N
    \<and> {j \<in> {N..<64 * NUM_WORDS N}. test_unchecked (fst (bs_run N (bs_new N) us)) j} = {}
    \<and> (fst (set_run N {} us) = fst (set_run N {} vs) \<longleftrightarrow> fst (bs_run N (bs_new N) us) = fst (bs_run N (bs_new N) vs))
    \<and> bs_equal N (fst (bs_run N (bs_new N) us)) (fst (bs_run N (bs_new N) vs))
      = (fst (set_run N {} us) = fst (set_run N {} vs))"
proof -
  have "bs_inv N (bs_new N)" by (simp add: bs_inv_def members_new)
  note run = run_stands_for [OF assms this, unfolded members_new]
  let ?a = "fst (bs_run N (bs_new N) us)" and ?b = "fst (bs_run N (bs_new N) vs)"
  have inv: "bs_inv N ?a" "bs_inv N ?b" using run by blast+
  have sets: "fst (set_run N {} us) = members ?a" "fst (set_run N {} vs) = members ?b" using run by simp_all
  have len: "length ?a = NUM_WORDS N" "length ?b = NUM_WORDS N" using inv by (simp_all add: bs_inv_def)
  have "{j \<in> {N..<64 * NUM_WORDS N}. test_unchecked ?a j} = {}"
    using test_unchecked_iff [of _ ?a] member_bound [OF inv(1)] len(1) by fastforce
  moreover have "members ?a = members ?b \<longleftrightarrow> ?a = ?b" using members_inj [of ?a ?b] len by auto
  ultimately show ?thesis using comparisons(5) [OF assms inv] len(1) unfolding sets by blast
qed

section \<open>Witnesses\<close>

lemma bitset_refines_set_witness:
  "set_run 70 {} [Set_range 60 70, Shift_left 3, Set_bit 70] = (members [0x8000000000000000, 0x3F], [None, None, Some Out_of_range])"
proof -
  have "bs_run 70 (bs_new 70) [Set_range 60 70, Shift_left 3, Set_bit 70]
    = ([0x8000000000000000, 0x3F], [None, None, Some Out_of_range])" by code_simp
  with bitset_refines_set [of 70 "[Set_range 60 70, Shift_left 3, Set_bit 70]"] show ?thesis by simp
qed


lemma bitset_canonical_witness:
  "bs_run 70 (bs_new 70) [Flip_all, Clear_all] = (bs_new 70, [None, None])
    \<and> bs_equal 70 (fst (bs_run 70 (bs_new 70) [Flip_all, Clear_all])) (bs_new 70)"
proof -
  have run: "bs_run 70 (bs_new 70) [Flip_all, Clear_all] = (bs_new 70, [None, None])" by code_simp
  with bitset_canonical [of 70 "[Flip_all, Clear_all]" "[]"] show ?thesis unfolding run by simp
qed

end
