(* ===== verification/StateMachine.thy ===== *)
theory StateMachine
  imports FatP_Prelude
begin

text \<open>
  \<open>StateMachine.h\<close>: a machine over a fixed list of states, with a table of allowed transitions, that
  runs an exit and an entry hook at every change of state.

  The template parameters are the record \<open>machine_type\<close>: the states are values of a type \<open>'st\<close>, the
  hooks functions on the context.  A hook changes the context and then returns, throws, or calls
  \<open>transition\<close> on the machine that runs it, which the header forbids; what the header does about it
  depends on the build (\<open>debug\<close>) and on the action policy.
\<close>

section \<open>States and transitions\<close>

datatype hook_end = Finishes | Throws fault | Reenters

record ('st, 'c) machine_type =
  States :: "'st list"
  TransitionList :: "('st \<times> 'st) list"
  kStrictPolicy :: bool
  kNoexceptActions :: bool
  InitialIndex :: nat
  on_entry :: "'st \<Rightarrow> 'c \<Rightarrow> 'c \<times> hook_end"
  on_exit :: "'st \<Rightarrow> 'c \<Rightarrow> 'c \<times> hook_end"

fun are_unique :: "'st list \<Rightarrow> bool" where
  "are_unique [] \<longleftrightarrow> True"
| "are_unique (t # ts) \<longleftrightarrow> \<not> list_ex ((=) t) ts \<and> are_unique ts"

text \<open>\<open>findStateIndexImpl\<close>: the first position that matches, or \<open>-1\<close>.\<close>

fun find_state_index :: "'st list \<Rightarrow> 'st \<Rightarrow> int \<Rightarrow> int" where
  "find_state_index [] t j = -1"
| "find_state_index (s # ss) t j = (if s = t then j else find_state_index ss t (j + 1))"

definition getStateIndex :: "('st, 'c) machine_type \<Rightarrow> 'st \<Rightarrow> int" where
  "getStateIndex M t = find_state_index (States M) t 0"

definition isTransitionPairValid :: "('st, 'c) machine_type \<Rightarrow> 'st \<times> 'st \<Rightarrow> bool" where
  "isTransitionPairValid M p \<longleftrightarrow> getStateIndex M (fst p) \<noteq> -1 \<and> getStateIndex M (snd p) \<noteq> -1"

definition areTransitionTypesValid :: "('st, 'c) machine_type \<Rightarrow> bool" where
  "areTransitionTypesValid M \<longleftrightarrow> list_all (isTransitionPairValid M) (TransitionList M)"

definition setTransition :: "('st, 'c) machine_type \<Rightarrow> bool list list \<Rightarrow> 'st \<times> 'st \<Rightarrow> bool list list" where
  "setTransition M matrix p =
    (let from_index = nat (getStateIndex M (fst p)); to_index = nat (getStateIndex M (snd p))
     in matrix[from_index := (matrix ! from_index)[to_index := True]])"

definition buildMatrix :: "('st, 'c) machine_type \<Rightarrow> bool list list" where
  "buildMatrix M = foldl (setTransition M)
     (replicate (length (States M)) (replicate (length (States M)) False)) (TransitionList M)"

text \<open>The static assertions on the states and the transitions.\<close>

definition machine_valid :: "('st, 'c) machine_type \<Rightarrow> bool" where
  "machine_valid M \<longleftrightarrow> length (States M) > 0 \<and> InitialIndex M < length (States M) \<and> are_unique (States M)
     \<and> (kStrictPolicy M \<longrightarrow> areTransitionTypesValid M)"

definition is_transition_allowed :: "('st, 'c) machine_type \<Rightarrow> 'st \<Rightarrow> 'st \<Rightarrow> bool" where
  "is_transition_allowed M from to =
    (if from = to then True
     else if kStrictPolicy M then buildMatrix M ! nat (getStateIndex M from) ! nat (getStateIndex M to)
     else True)"

definition contains_state :: "('st, 'c) machine_type \<Rightarrow> 'st \<Rightarrow> bool" where
  "contains_state M t \<longleftrightarrow> getStateIndex M t \<noteq> -1"

section \<open>The machine\<close>

record 'c machine =
  mContext :: 'c
  mCurrentStateIndex :: nat
  mInTransition :: bool

text \<open>\<open>Terminated\<close>: the program has called \<open>std::terminate\<close>.\<close>

datatype call_end = Returned | Thrown fault | Terminated

text \<open>
  A call of a hook through the dispatch tables, inside \<open>transition\<close>.  An exception cannot leave a
  \<open>noexcept\<close> hook.  A reentrant call meets the guard of a debug build; in a release build the header
  declares it undefined.
\<close>

definition run_hook :: "('st, 'c) machine_type \<Rightarrow> bool \<Rightarrow> ('c \<Rightarrow> 'c \<times> hook_end) \<Rightarrow> 'c machine \<Rightarrow> 'c machine \<times> call_end" where
  "run_hook M debug hook m = (let (c, e) = hook (mContext m); m' = m\<lparr>mContext := c\<rparr> in
     case e of
       Finishes \<Rightarrow> (m', Returned)
     | Throws f \<Rightarrow> (m', if kNoexceptActions M then Terminated else Thrown f)
     | Reenters \<Rightarrow> (m', if \<not> debug then Thrown Undefined_behaviour
         else if kNoexceptActions M then Terminated
         else Thrown (Runtime_error ''CTSM Error: Reentrant transition detected'')))"

definition dispatchExitAction :: "('st, 'c) machine_type \<Rightarrow> bool \<Rightarrow> nat \<Rightarrow> 'c machine \<Rightarrow> 'c machine \<times> call_end" where
  "dispatchExitAction M debug i = run_hook M debug (on_exit M (States M ! i))"

definition dispatchEntryAction :: "('st, 'c) machine_type \<Rightarrow> bool \<Rightarrow> nat \<Rightarrow> 'c machine \<Rightarrow> 'c machine \<times> call_end" where
  "dispatchEntryAction M debug i = run_hook M debug (on_entry M (States M ! i))"

text \<open>The constructor.  An exception of the entry hook leaves no machine behind.\<close>

definition machine_new :: "('st, 'c) machine_type \<Rightarrow> bool \<Rightarrow> 'c \<Rightarrow> 'c machine \<times> call_end" where
  "machine_new M debug context =
    dispatchEntryAction M debug (InitialIndex M) \<lparr>mContext = context, mCurrentStateIndex = InitialIndex M, mInTransition = False\<rparr>"

text \<open>\<open>transition<TNextState>()\<close>, called from outside of the hooks; the guard clears the flag on every way out.\<close>

definition transition :: "('st, 'c) machine_type \<Rightarrow> bool \<Rightarrow> 'st \<Rightarrow> 'c machine \<Rightarrow> 'c machine \<times> call_end" where
  "transition M debug t m =
    (let currentIndex = mCurrentStateIndex m; nextStateIndex = nat (getStateIndex M t) in
     if debug \<and> mInTransition m then
       (m, if kNoexceptActions M then Terminated else Thrown (Runtime_error ''CTSM Error: Reentrant transition detected''))
     else
       let m = (if debug then m\<lparr>mInTransition := True\<rparr> else m);
           leave = (\<lambda>m. if debug then m\<lparr>mInTransition := False\<rparr> else m)
       in if currentIndex = nextStateIndex then (leave m, Returned)
       else if kStrictPolicy M \<and> \<not> buildMatrix M ! currentIndex ! nextStateIndex then
         (leave m, Thrown (Runtime_error ''CTSM Error: Transition is not valid''))
       else case dispatchExitAction M debug currentIndex m of
           (m, Returned) \<Rightarrow>
             (case dispatchEntryAction M debug nextStateIndex (m\<lparr>mCurrentStateIndex := nextStateIndex\<rparr>) of (m, e) \<Rightarrow> (leave m, e))
         | (m, e) \<Rightarrow> (leave m, e))"

definition isInState :: "('st, 'c) machine_type \<Rightarrow> 'st \<Rightarrow> 'c machine \<Rightarrow> bool" where
  "isInState M t m \<longleftrightarrow> mCurrentStateIndex m = nat (getStateIndex M t)"

section \<open>Indices and the matrix\<close>

lemma are_unique_distinct: "are_unique ts \<longleftrightarrow> distinct ts"
  by (induction ts) (auto simp: list_ex_iff)

lemma find_state_index_nth:
  "distinct ss \<Longrightarrow> i < length ss \<Longrightarrow> find_state_index ss (ss ! i) j = j + int i"
  by (induction ss arbitrary: i j) (auto simp: nth_Cons' split: if_splits)

lemma find_state_index_absent: "0 \<le> j \<Longrightarrow> find_state_index ss t j = -1 \<longleftrightarrow> t \<notin> set ss"
  by (induction ss arbitrary: j) auto

lemma getStateIndex_nth:
  assumes "machine_valid M" and "i < length (States M)"
  shows "nat (getStateIndex M (States M ! i)) = i"
  using assms find_state_index_nth [of "States M" i 0] by (simp add: machine_valid_def are_unique_distinct getStateIndex_def)

lemma getStateIndex_member:
  assumes "machine_valid M" and "t \<in> set (States M)"
  shows "nat (getStateIndex M t) < length (States M)" and "States M ! nat (getStateIndex M t) = t"
  using assms(2) getStateIndex_nth [OF assms(1)] unfolding in_set_conv_nth by auto

lemma contains_state_iff: "contains_state M t \<longleftrightarrow> t \<in> set (States M)"
  using find_state_index_absent [of 0 "States M" t] by (simp add: contains_state_def getStateIndex_def)

text \<open>Two square matrices of the same size are compared entry by entry.\<close>

definition square :: "nat \<Rightarrow> bool list list \<Rightarrow> bool" where
  "square n A \<longleftrightarrow> length A = n \<and> (\<forall>r\<in>set A. length r = n)"

lemma square_update:
  assumes "square n A" and "i < n" and "j < n"
  shows "square n (A[i := (A ! i)[j := True]])"
    and "a < n \<Longrightarrow> b < n \<Longrightarrow> A[i := (A ! i)[j := True]] ! a ! b \<longleftrightarrow> A ! a ! b \<or> a = i \<and> b = j"
proof -
  have r: "length (A ! k) = n" if "k < n" for k using assms(1) that by (simp add: square_def)
  show "square n (A[i := (A ! i)[j := True]])"
    using assms r [OF assms(2)] by (auto simp: square_def dest!: set_update_subset_insert [THEN subsetD])
  show "a < n \<Longrightarrow> b < n \<Longrightarrow> A[i := (A ! i)[j := True]] ! a ! b \<longleftrightarrow> A ! a ! b \<or> a = i \<and> b = j"
    using assms r [OF assms(2)] by (auto simp: square_def nth_list_update)
qed

lemma setTransitions:
  assumes M: "machine_valid M" and "square (length (States M)) A" and "list_all (isTransitionPairValid M) ps"
    and "a < length (States M)" and "b < length (States M)"
  shows "foldl (setTransition M) A ps ! a ! b \<longleftrightarrow> A ! a ! b \<or> (States M ! a, States M ! b) \<in> set ps"
  using assms(2,3)
proof (induction ps arbitrary: A)
  case (Cons p ps)
  let ?i = "nat (getStateIndex M (fst p))" and ?j = "nat (getStateIndex M (snd p))"
  have p: "fst p \<in> set (States M)" "snd p \<in> set (States M)"
    using Cons.prems(2) contains_state_iff [of M] by (simp_all add: isTransitionPairValid_def contains_state_def)
  note i = getStateIndex_member [OF M p(1)] and j = getStateIndex_member [OF M p(2)]
  note u = square_update [OF Cons.prems(1) i(1) j(1)]
  have "a = ?i \<and> b = ?j \<longleftrightarrow> (States M ! a, States M ! b) = p"
    using i j getStateIndex_nth [OF M assms(4)] getStateIndex_nth [OF M assms(5)] by (cases p) auto
  then show ?case using Cons.IH [OF u(1)] Cons.prems(2) u(2) [OF assms(4,5)] by (auto simp: setTransition_def Let_def)
qed simp

lemma buildMatrix_iff:
  assumes "machine_valid M" and "kStrictPolicy M" and "a < length (States M)" and "b < length (States M)"
  shows "buildMatrix M ! a ! b \<longleftrightarrow> (States M ! a, States M ! b) \<in> set (TransitionList M)"
proof -
  have "square (length (States M)) (replicate (length (States M)) (replicate (length (States M)) False))"
    by (simp add: square_def)
  from setTransitions [OF assms(1) this _ assms(3,4), of "TransitionList M"] show ?thesis
    using assms by (simp add: buildMatrix_def machine_valid_def areTransitionTypesValid_def)
qed

section \<open>Transitions\<close>

text \<open>How a call ends whose hook ends with \<open>e\<close>.\<close>

definition hook_outcome :: "('st, 'c) machine_type \<Rightarrow> bool \<Rightarrow> hook_end \<Rightarrow> call_end" where
  "hook_outcome M debug e = (case e of Finishes \<Rightarrow> Returned
     | Throws f \<Rightarrow> if kNoexceptActions M then Terminated else Thrown f
     | Reenters \<Rightarrow> if \<not> debug then Thrown Undefined_behaviour else if kNoexceptActions M then Terminated
         else Thrown (Runtime_error ''CTSM Error: Reentrant transition detected''))"

lemma run_hook_eq: "run_hook M debug hook m = (m\<lparr>mContext := fst (hook (mContext m))\<rparr>, hook_outcome M debug (snd (hook (mContext m))))"
  by (simp add: run_hook_def hook_outcome_def Let_def split: prod.splits hook_end.splits)

lemma hook_outcome_Returned: "hook_outcome M debug e = Returned \<longleftrightarrow> e = Finishes"
  by (cases e) (auto simp: hook_outcome_def)

definition at_rest :: "('st, 'c) machine_type \<Rightarrow> 'c machine \<Rightarrow> bool" where
  "at_rest M m \<longleftrightarrow> mCurrentStateIndex m < length (States M) \<and> \<not> mInTransition m"

definition current :: "('st, 'c) machine_type \<Rightarrow> 'c machine \<Rightarrow> 'st" where
  "current M m = States M ! mCurrentStateIndex m"

lemma transition_eq:
  assumes M: "machine_valid M" and m: "at_rest M m" and t: "t \<in> set (States M)"
  shows "transition M debug t m =
    (let s = current M m; (c, e) = on_exit M s (mContext m); (c', e') = on_entry M t c in
     if s = t then (m, Returned)
     else if kStrictPolicy M \<and> (s, t) \<notin> set (TransitionList M) then (m, Thrown (Runtime_error ''CTSM Error: Transition is not valid''))
     else if e \<noteq> Finishes then (m\<lparr>mContext := c\<rparr>, hook_outcome M debug e)
     else (m\<lparr>mContext := c', mCurrentStateIndex := nat (getStateIndex M t)\<rparr>, hook_outcome M debug e'))"
proof -
  let ?i = "mCurrentStateIndex m" and ?j = "nat (getStateIndex M t)"
  note j = getStateIndex_member [OF M t]
  have i: "?i < length (States M)" "\<not> mInTransition m" using m by (simp_all add: at_rest_def)
  have eq: "?i = ?j \<longleftrightarrow> current M m = t"
    using j getStateIndex_nth [OF M i(1)] by (auto simp: current_def)
  have valid: "buildMatrix M ! ?i ! ?j \<longleftrightarrow> (current M m, t) \<in> set (TransitionList M)" if "kStrictPolicy M"
    using buildMatrix_iff [OF M that i(1) j(1)] j(2) by (simp add: current_def)
  have same: "m\<lparr>mInTransition := False\<rparr> = m" using i(2) by simp
  obtain c e where x: "on_exit M (current M m) (mContext m) = (c, e)" by fastforce
  obtain c' e' where n: "on_entry M t c = (c', e')" by fastforce
  have hooks: "on_exit M (States M ! ?i) (mContext m) = (c, e)" "on_entry M (States M ! ?j) c = (c', e')"
    using x n j(2) by (simp_all add: current_def)
  show ?thesis
  proof (cases "current M m = t \<or> kStrictPolicy M \<and> (current M m, t) \<notin> set (TransitionList M)")
    case True
    then show ?thesis using eq valid i(2) by (auto simp: transition_def Let_def x n same)
  next
    case False
    have "transition M debug t m = (case dispatchExitAction M debug ?i (if debug then m\<lparr>mInTransition := True\<rparr> else m) of
           (m, Returned) \<Rightarrow>
             (case dispatchEntryAction M debug ?j (m\<lparr>mCurrentStateIndex := ?j\<rparr>) of (m, e) \<Rightarrow> (if debug then m\<lparr>mInTransition := False\<rparr> else m, e))
         | (m, e) \<Rightarrow> (if debug then m\<lparr>mInTransition := False\<rparr> else m, e))"
      using False eq valid i(2) unfolding transition_def Let_def by auto
    also have "\<dots> = (if e \<noteq> Finishes then (m\<lparr>mContext := c\<rparr>, hook_outcome M debug e)
       else (m\<lparr>mContext := c', mCurrentStateIndex := ?j\<rparr>, hook_outcome M debug e'))"
    proof (cases "e = Finishes")
      case True
      then show ?thesis using same i(2)
        by (cases debug) (simp_all add: dispatchExitAction_def dispatchEntryAction_def run_hook_eq hooks hook_outcome_def)
    next
      case False
      then have "hook_outcome M debug e \<noteq> Returned" by (simp add: hook_outcome_Returned)
      with False show ?thesis using same i(2)
        by (cases debug; cases "hook_outcome M debug e") (simp_all add: dispatchExitAction_def run_hook_eq hooks)
    qed
    finally show ?thesis using False by (auto simp: Let_def x n)
  qed
qed

text \<open>A sequence of calls, whose exceptions are caught, up to the end of the program: the machine and the states it has entered.\<close>

fun visit :: "('st, 'c) machine_type \<Rightarrow> bool \<Rightarrow> 'st list \<Rightarrow> 'c machine \<Rightarrow> 'c machine \<times> 'st list" where
  "visit M debug [] m = (m, [])"
| "visit M debug (t # ts) m = (let (m1, e) = transition M debug t m;
      new = (if mCurrentStateIndex m1 \<noteq> mCurrentStateIndex m then [current M m1] else []) in
    if e \<in> {Terminated, Thrown Undefined_behaviour} then (m1, new) else (let (m2, ss) = visit M debug ts m1 in (m2, new @ ss)))"

text \<open>The hooks along a path, each exit before the next entry.\<close>

fun along :: "('st, 'c) machine_type \<Rightarrow> 'st \<Rightarrow> 'st list \<Rightarrow> 'c \<Rightarrow> 'c" where
  "along M s [] c = c"
| "along M s (s' # ss) c = along M s' ss (fst (on_entry M s' (fst (on_exit M s c))))"

lemma transition_moves:
  assumes M: "machine_valid M" and m: "at_rest M m" and t: "t \<in> set (States M)" and tr: "transition M debug t m = (m1, e)"
  shows "at_rest M m1"
    and "mCurrentStateIndex m1 = mCurrentStateIndex m \<or>
      current M m1 = t \<and> current M m \<noteq> t \<and> (kStrictPolicy M \<longrightarrow> (current M m, t) \<in> set (TransitionList M))"
    and "\<forall>s c. snd (on_entry M s c) = Finishes \<and> snd (on_exit M s c) = Finishes \<Longrightarrow>
      mContext m1 = along M (current M m) (if mCurrentStateIndex m1 \<noteq> mCurrentStateIndex m then [current M m1] else []) (mContext m)"
proof -
  note j = getStateIndex_member [OF M t]
  obtain c e1 where x: "on_exit M (current M m) (mContext m) = (c, e1)" by fastforce
  obtain c' e2 where n: "on_entry M t c = (c', e2)" by fastforce
  have i: "mCurrentStateIndex m < length (States M)" "\<not> mInTransition m" using m by (simp_all add: at_rest_def)
  have eq: "mCurrentStateIndex m = nat (getStateIndex M t) \<longleftrightarrow> current M m = t"
    using j getStateIndex_nth [OF M i(1)] by (auto simp: current_def)
  note T = tr [unfolded transition_eq [OF M m t] Let_def x n prod.case]
  show "at_rest M m1" using T i j(1) by (auto simp: at_rest_def split: if_splits)
  show "mCurrentStateIndex m1 = mCurrentStateIndex m \<or>
      current M m1 = t \<and> current M m \<noteq> t \<and> (kStrictPolicy M \<longrightarrow> (current M m, t) \<in> set (TransitionList M))"
    using T j(2) by (auto simp: current_def split: if_splits)
  assume fin: "\<forall>s c. snd (on_entry M s c) = Finishes \<and> snd (on_exit M s c) = Finishes"
  have "e1 = Finishes" using fin x by (metis snd_conv)
  then show "mContext m1 = along M (current M m) (if mCurrentStateIndex m1 \<noteq> mCurrentStateIndex m then [current M m1] else []) (mContext m)"
    using T eq j(2) x n by (auto simp: current_def split: if_splits)
qed

definition allowed_path :: "('st, 'c) machine_type \<Rightarrow> 'st list \<Rightarrow> bool" where
  "allowed_path M = successively (\<lambda>s s'. s \<noteq> s' \<and> (kStrictPolicy M \<longrightarrow> (s, s') \<in> set (TransitionList M)))"

definition hooks_finish :: "('st, 'c) machine_type \<Rightarrow> bool" where
  "hooks_finish M \<longleftrightarrow> (\<forall>s c. snd (on_entry M s c) = Finishes \<and> snd (on_exit M s c) = Finishes)"

lemma visit_path:
  assumes M: "machine_valid M" and m: "at_rest M m" and ts: "set ts \<subseteq> set (States M)" and v: "visit M debug ts m = (m', ss)"
  shows "at_rest M m'" "current M m' = last (current M m # ss)" "allowed_path M (current M m # ss)"
    "hooks_finish M \<Longrightarrow> mContext m' = along M (current M m) ss (mContext m)"
proof -
  have "at_rest M m' \<and> current M m' = last (current M m # ss) \<and> allowed_path M (current M m # ss)
    \<and> (hooks_finish M \<longrightarrow> mContext m' = along M (current M m) ss (mContext m))"
    using m ts v
  proof (induction ts arbitrary: m ss)
    case Nil
    then show ?case by (simp add: allowed_path_def)
  next
    case (Cons t ts)
    obtain m1 e where tr: "transition M debug t m = (m1, e)" by fastforce
    have t: "t \<in> set (States M)" using Cons.prems(2) by simp
    note mv = transition_moves [OF M Cons.prems(1) t tr]
    define new where "new = (if mCurrentStateIndex m1 \<noteq> mCurrentStateIndex m then [current M m1] else [])"
    have ctx: "mContext m1 = along M (current M m) new (mContext m)" if "hooks_finish M"
      unfolding new_def by (rule mv(3) [OF that [unfolded hooks_finish_def]])
    have cases: "new = [] \<and> current M m1 = current M m \<or> new = [current M m1] \<and> allowed_path M [current M m, current M m1]"
      using mv(2) by (auto simp: new_def current_def allowed_path_def)
    have one: "at_rest M m1" "current M m1 = last (current M m # new)" "allowed_path M (current M m # new)"
      using mv(1) cases by (auto simp: allowed_path_def)
    show ?case
    proof (cases "e \<in> {Terminated, Thrown Undefined_behaviour}")
      case True
      then have "m' = m1" "ss = new" using Cons.prems(3) by (auto simp: tr new_def Let_def)
      then show ?thesis using one ctx by blast
    next
      case False
      obtain m2 ss2 where r: "visit M debug ts m1 = (m2, ss2)" by fastforce
      then have eq: "m' = m2" "ss = new @ ss2" using Cons.prems(3) False by (simp_all add: tr new_def Let_def)
      have "set ts \<subseteq> set (States M)" using Cons.prems(2) by simp
      then have IH: "at_rest M m2" "current M m2 = last (current M m1 # ss2)" "allowed_path M (current M m1 # ss2)"
        "hooks_finish M \<longrightarrow> mContext m2 = along M (current M m1) ss2 (mContext m1)"
        using Cons.IH [OF one(1), of ss2] r by (simp_all add: eq)
      from cases show ?thesis
      proof
        assume n: "new = [] \<and> current M m1 = current M m"
        then show ?thesis using IH ctx by (simp add: eq)
      next
        assume n: "new = [current M m1] \<and> allowed_path M [current M m, current M m1]"
        then have "allowed_path M (current M m # ss)" "last (current M m # ss) = last (current M m1 # ss2)"
          using IH(3) by (simp_all add: eq allowed_path_def)
        moreover have "mContext m2 = along M (current M m) ss (mContext m)" if "hooks_finish M"
          using IH(4) ctx that n by (simp add: eq)
        ultimately show ?thesis using IH(1,2) by (simp add: eq)
      qed
    qed
  qed
  then show "at_rest M m'" "current M m' = last (current M m # ss)" "allowed_path M (current M m # ss)"
    "hooks_finish M \<Longrightarrow> mContext m' = along M (current M m) ss (mContext m)" by blast+
qed

section \<open>Properties\<close>

text \<open>C34: \<open>transition\<close> follows the table: a transition to the current state does nothing, one that the
  table does not allow throws before any hook has run; otherwise the exit hook of the old state runs,
  then the state changes, then the entry hook of the new one runs.  An exception of the exit hook
  leaves the machine in the old state, one of the entry hook in the new state; a hook that calls
  \<open>transition\<close> is stopped in a debug build; and the machine can be used again afterwards.\<close>

theorem state_machine_transition:
  assumes "machine_valid M" and "at_rest M m" and "t \<in> set (States M)" and "s = current M m"
    and "on_exit M s (mContext m) = (c, e)" and "on_entry M t c = (c', e')"
  shows "at_rest M (fst (transition M debug t m))
    \<and> (is_transition_allowed M s t \<longleftrightarrow> s = t \<or> (kStrictPolicy M \<longrightarrow> (s, t) \<in> set (TransitionList M)))
    \<and> (s = t \<longrightarrow> transition M debug t m = (m, Returned))
    \<and> (\<not> is_transition_allowed M s t \<longrightarrow> (\<exists>what. transition M debug t m = (m, Thrown (Runtime_error what))))
    \<and> (is_transition_allowed M s t \<and> s \<noteq> t \<and> e \<noteq> Finishes \<longrightarrow>
        transition M debug t m = (m\<lparr>mContext := c\<rparr>, hook_outcome M debug e))
    \<and> (is_transition_allowed M s t \<and> s \<noteq> t \<and> e = Finishes \<longrightarrow>
        (let (m', r) = transition M debug t m in mContext m' = c' \<and> isInState M t m' \<and> r = hook_outcome M debug e'))"
proof -
  have i: "mCurrentStateIndex m < length (States M)" "s \<in> set (States M)" using assms(2,4) by (simp_all add: at_rest_def current_def)
  have allowed: "is_transition_allowed M s t \<longleftrightarrow> s = t \<or> (kStrictPolicy M \<longrightarrow> (s, t) \<in> set (TransitionList M))"
    using buildMatrix_iff [OF assms(1) _ getStateIndex_member(1) [OF assms(1) i(2)] getStateIndex_member(1) [OF assms(1,3)]]
      getStateIndex_member(2) [OF assms(1) i(2)] getStateIndex_member(2) [OF assms(1,3)]
    by (auto simp: is_transition_allowed_def)
  note T = transition_eq [OF assms(1-3), of debug, folded assms(4), unfolded Let_def assms(5,6) prod.case]
  have rest: "at_rest M (fst (transition M debug t m))"
    using transition_moves(1) [OF assms(1-3)] by (metis prod.collapse)
  show ?thesis
  proof (intro conjI)
    show "at_rest M (fst (transition M debug t m))" by (rule rest)
    show "is_transition_allowed M s t \<longleftrightarrow> s = t \<or> (kStrictPolicy M \<longrightarrow> (s, t) \<in> set (TransitionList M))" by (rule allowed)
    show "s = t \<longrightarrow> transition M debug t m = (m, Returned)" using T by simp
    show "\<not> is_transition_allowed M s t \<longrightarrow> (\<exists>what. transition M debug t m = (m, Thrown (Runtime_error what)))"
      using T allowed by auto
    show "is_transition_allowed M s t \<and> s \<noteq> t \<and> e \<noteq> Finishes \<longrightarrow>
        transition M debug t m = (m\<lparr>mContext := c\<rparr>, hook_outcome M debug e)" using T allowed by auto
    show "is_transition_allowed M s t \<and> s \<noteq> t \<and> e = Finishes \<longrightarrow>
        (let (m', r) = transition M debug t m in mContext m' = c' \<and> isInState M t m' \<and> r = hook_outcome M debug e')"
      using T allowed by (auto simp: isInState_def)
  qed
qed


section \<open>Witnesses\<close>

text \<open>Traffic lights that log their hooks.\<close>

definition lights :: "(string, string list) machine_type" where
  "lights = \<lparr>States = [''red'', ''green'', ''yellow''],
     TransitionList = [(''red'', ''green''), (''green'', ''yellow''), (''yellow'', ''red'')],
     kStrictPolicy = True, kNoexceptActions = False, InitialIndex = 0,
     on_entry = (\<lambda>s c. (c @ [''in '' @ s], Finishes)), on_exit = (\<lambda>s c. (c @ [''out '' @ s], Finishes))\<rparr>"

lemma lights_valid: "machine_valid lights"
  by code_simp

theorem state_machine_transition_witness:
  "let m = \<lparr>mContext = [], mCurrentStateIndex = 1, mInTransition = False\<rparr> in
   at_rest lights (fst (transition lights True ''yellow'' m)) \<and> mContext (fst (transition lights True ''yellow'' m)) = [''out green'', ''in yellow'']"
proof -
  let ?m = "\<lparr>mContext = [], mCurrentStateIndex = 1, mInTransition = False\<rparr> :: string list machine"
  have "at_rest lights ?m" "''yellow'' \<in> set (States lights)" "''green'' = current lights ?m"
    "on_exit lights ''green'' (mContext ?m) = ([''out green''], Finishes)"
    "on_entry lights ''yellow'' [''out green''] = ([''out green'', ''in yellow''], Finishes)"
    by (simp_all add: at_rest_def lights_def current_def)
  note T = state_machine_transition [OF lights_valid this, of True]
  have "is_transition_allowed lights ''green'' ''yellow''" by code_simp
  then show ?thesis using T by (auto simp: Let_def split: prod.splits)
qed


end
