(* ===== verification/JsonLite.thy ===== *)
theory JsonLite
  imports FatP_Prelude Complex_Main "HOL-Library.Char_ord" "HOL-Library.List_Lexorder"
begin

text \<open>
  \<open>JsonLite.h\<close>: the values of JSON documents, the writer and the parser.

  Texts are \<open>string\<close>s, lists of bytes; a position is a natural number, for a text is shorter than
  \<open>2 ^ 63\<close> and the parser adds at most nine to a position inside it.  \<open>int64_t\<close> is a word.  Of a
  \<open>double\<close> the exact value counts; how the standard library writes and reads one is the parameter
  \<open>number_text\<close>.  A failed \<open>FATP_JSON_ENFORCE\<close> is a \<open>Runtime_error\<close>.
\<close>

section \<open>Values and policies\<close>

type_synonym int64 = "64 word"

datatype double = NaN | Infinite bool | Finite rat

text \<open>A \<open>JsonObject\<close> is the list of the entries of a \<open>std::map\<close>, in ascending order of their keys.\<close>

datatype json =
    Json_null
  | Json_bool bool
  | Json_int int64
  | Json_double double
  | Json_string string
  | Json_array "json list"
  | Json_object "(string \<times> json) list"

text \<open>\<open>obj[key] = v\<close>\<close>

fun object_assign :: "string \<Rightarrow> json \<Rightarrow> (string \<times> json) list \<Rightarrow> (string \<times> json) list" where
  "object_assign k v [] = [(k, v)]"
| "object_assign k v ((k', v') # obj) =
    (if k < k' then (k, v) # (k', v') # obj
     else if k = k' then (k, v) # obj
     else (k', v') # object_assign k v obj)"

datatype number_format = Auto | Fixed | Scientific | Shortest

record json_policy =
  pretty_print :: bool
  numeric_precision :: int
  indent_step :: int
  allow_nan_inf :: bool
  escape_unicode :: bool
  allow_comments :: bool
  max_parse_depth :: nat
  max_dump_depth :: nat
  number_format :: number_format

definition StandardJsonPolicy :: json_policy where
  "StandardJsonPolicy = \<lparr>pretty_print = True, numeric_precision = 16, indent_step = 4, allow_nan_inf = False,
     escape_unicode = True, allow_comments = False, max_parse_depth = 64, max_dump_depth = 64, number_format = Auto\<rparr>"

definition PrettyJsonPolicy :: json_policy where
  "PrettyJsonPolicy = StandardJsonPolicy\<lparr>pretty_print := True\<rparr>"

definition FixedFormatPolicy :: json_policy where
  "FixedFormatPolicy = StandardJsonPolicy\<lparr>number_format := Fixed\<rparr>"

definition ScientificFormatPolicy :: json_policy where
  "ScientificFormatPolicy = StandardJsonPolicy\<lparr>number_format := Scientific\<rparr>"

definition CompatJsonPolicy :: json_policy where
  "CompatJsonPolicy = StandardJsonPolicy\<lparr>allow_nan_inf := True, escape_unicode := False\<rparr>"

definition ConfigJsonPolicy :: json_policy where
  "ConfigJsonPolicy = StandardJsonPolicy\<lparr>allow_comments := True\<rparr>"

text \<open>The thread's \<open>current_policy_context\<close>, which takes precedence over the policy of a call.\<close>

record policy_context =
  ctx_numeric_precision :: int
  ctx_allow_nan_inf :: bool
  ctx_escape_unicode :: bool

definition from_policy :: "json_policy \<Rightarrow> policy_context" where
  "from_policy P = \<lparr>ctx_numeric_precision = numeric_precision P, ctx_allow_nan_inf = allow_nan_inf P,
     ctx_escape_unicode = escape_unicode P\<rparr>"

definition get_effective_numeric_precision :: "json_policy \<Rightarrow> policy_context option \<Rightarrow> int" where
  "get_effective_numeric_precision P ctx = (case ctx of Some c \<Rightarrow> ctx_numeric_precision c | None \<Rightarrow> numeric_precision P)"

definition get_effective_allow_nan_inf :: "json_policy \<Rightarrow> policy_context option \<Rightarrow> bool" where
  "get_effective_allow_nan_inf P ctx = (case ctx of Some c \<Rightarrow> ctx_allow_nan_inf c | None \<Rightarrow> allow_nan_inf P)"

definition get_effective_escape_unicode :: "json_policy \<Rightarrow> policy_context option \<Rightarrow> bool" where
  "get_effective_escape_unicode P ctx = (case ctx of Some c \<Rightarrow> ctx_escape_unicode c | None \<Rightarrow> escape_unicode P)"

section \<open>Characters\<close>

abbreviation quote :: char where "quote \<equiv> CHR 0x22"
abbreviation backslash :: char where "backslash \<equiv> CHR 0x5C"
abbreviation newline :: char where "newline \<equiv> CHR 0x0A"

text \<open>A byte as a \<open>uint32_t\<close>, and \<open>static_cast<char>\<close>.\<close>

definition byte :: "char \<Rightarrow> u32" where
  "byte c = word_of_nat (of_char c)"

definition chr :: "u32 \<Rightarrow> char" where
  "chr w = char_of (unat w)"

definition json_error :: "string \<Rightarrow> 'a result" where
  "json_error what = Inl (Runtime_error what)"

definition res_bind :: "'a result \<Rightarrow> ('a \<Rightarrow> 'b result) \<Rightarrow> 'b result" where
  "res_bind m f = (case m of Inl e \<Rightarrow> Inl e | Inr x \<Rightarrow> f x)"

text \<open>
  \<open>std::isdigit\<close> takes an \<open>int\<close>: where \<open>char\<close> is signed, a byte from \<open>0x80\<close> on is a negative
  argument, for which the behaviour is undefined.  \<open>std::isspace\<close> is always given an
  \<open>unsigned char\<close>.
\<close>

definition is_decimal :: "char \<Rightarrow> bool" where
  "is_decimal c \<longleftrightarrow> CHR ''0'' \<le> c \<and> c \<le> CHR ''9''"

definition c_isdigit :: "char \<Rightarrow> bool result" where
  "c_isdigit c = (if byte c \<ge> 0x80 then Inl Undefined_behaviour else Inr (is_decimal c))"

definition c_isspace :: "char \<Rightarrow> bool" where
  "c_isspace c \<longleftrightarrow> c \<in> {CHR 0x20, CHR 0x09, CHR 0x0A, CHR 0x0B, CHR 0x0C, CHR 0x0D}"

text \<open>\<open>s.substr(pos, n)\<close> for a position inside \<open>s\<close>.\<close>

definition substr :: "string \<Rightarrow> nat \<Rightarrow> nat \<Rightarrow> string" where
  "substr s pos n = take n (drop pos s)"

section \<open>Writing strings\<close>

text \<open>\<open>std::hex\<close> with \<open>std::setw(4)\<close> and the fill character \<open>0\<close>.\<close>

definition hex_digit :: "nat \<Rightarrow> char" where
  "hex_digit d = ''0123456789abcdef'' ! d"

fun hex_digits :: "nat \<Rightarrow> string" where
  "hex_digits n = (if n < 16 then [hex_digit n] else hex_digits (n div 16) @ [hex_digit (n mod 16)])"

declare hex_digits.simps [simp del]

definition hex4 :: "u32 \<Rightarrow> string" where
  "hex4 w = (let ds = hex_digits (unat w) in replicate (4 - length ds) CHR ''0'' @ ds)"

definition output_unicode_escape :: "u32 \<Rightarrow> string" where
  "output_unicode_escape codepoint =
    (if codepoint \<le> 0xFFFF then [backslash, CHR ''u''] @ hex4 codepoint
     else let codepoint = codepoint - 0x10000;
              high = 0xD800 + (drop_bit 10 codepoint AND 0x3FF);
              low = 0xDC00 + (codepoint AND 0x3FF)
          in [backslash, CHR ''u''] @ hex4 high @ [backslash, CHR ''u''] @ hex4 low)"

text \<open>The length of the sequence that a lead byte announces and the bits it carries.\<close>

definition lead_byte :: "u32 \<Rightarrow> (nat \<times> u32) option" where
  "lead_byte c =
    (if c AND 0xE0 = 0xC0 then Some (2, c AND 0x1F)
     else if c AND 0xF0 = 0xE0 then Some (3, c AND 0x0F)
     else if c AND 0xF8 = 0xF0 then Some (4, c AND 0x07)
     else None)"

text \<open>The loop over the continuation bytes.\<close>

fun continuation :: "string \<Rightarrow> nat \<Rightarrow> nat \<Rightarrow> u32 \<Rightarrow> u32 option" where
  "continuation s i 0 codepoint = Some codepoint"
| "continuation s i (Suc n) codepoint =
    (if byte (s ! i) AND 0xC0 \<noteq> 0x80 then None
     else continuation s (i + 1) n (push_bit 6 codepoint OR (byte (s ! i) AND 0x3F)))"

text \<open>One turn of the loop of \<open>escape_string\<close>: the output and the bytes consumed.\<close>

definition escape_one :: "bool \<Rightarrow> string \<Rightarrow> nat \<Rightarrow> string \<times> nat" where
  "escape_one unicode s i = (let ch = s ! i; c = byte ch in
     if ch = quote then ([backslash, quote], 1)
     else if ch = backslash then ([backslash, backslash], 1)
     else if ch = CHR 0x08 then ([backslash, CHR ''b''], 1)
     else if ch = CHR 0x0C then ([backslash, CHR ''f''], 1)
     else if ch = CHR 0x0A then ([backslash, CHR ''n''], 1)
     else if ch = CHR 0x0D then ([backslash, CHR ''r''], 1)
     else if ch = CHR 0x09 then ([backslash, CHR ''t''], 1)
     else if c < 0x20 then (output_unicode_escape c, 1)
     else if c < 0x80 then ([ch], 1)
     else if \<not> unicode then ([ch], 1)
     else case lead_byte c of
         None \<Rightarrow> (output_unicode_escape c, 1)
       | Some (bytes, codepoint) \<Rightarrow>
           if i + bytes > length s then (output_unicode_escape c, 1)
           else (case continuation s (i + 1) (bytes - 1) codepoint of
               None \<Rightarrow> (output_unicode_escape c, 1)
             | Some codepoint \<Rightarrow> (output_unicode_escape codepoint, bytes)))"

function escape_from :: "bool \<Rightarrow> string \<Rightarrow> nat \<Rightarrow> string" where
  "escape_from unicode s i =
    (if i < length s then let (out, n) = escape_one unicode s i in out @ escape_from unicode s (i + n) else [])"
  by auto

lemma escape_one_advances: "snd (escape_one unicode s i) > 0"
  by (auto simp: escape_one_def lead_byte_def Let_def split: option.split)

termination escape_from
proof (relation "measure (\<lambda>(unicode, s, i). length s - i)", goal_cases)
  case (2 unicode s i x out n)
  then have "n > 0" using escape_one_advances [of unicode s i] by (metis snd_conv)
  with 2 show ?case by simp
qed simp

declare escape_from.simps [simp del]

definition escape_string :: "json_policy \<Rightarrow> policy_context option \<Rightarrow> string \<Rightarrow> string" where
  "escape_string P ctx s = [quote] @ escape_from (get_effective_escape_unicode P ctx) s 0 @ [quote]"

section \<open>Writing values\<close>

text \<open>
  \<open>number_text\<close>: what \<open>operator<<\<close> writes for a finite \<open>double\<close> in the three floating-point
  formats with a precision, and what \<open>std::from_chars\<close> reads, if the number has a \<open>double\<close>.
\<close>

record number_text =
  fixed_text :: "int \<Rightarrow> rat \<Rightarrow> string"
  scientific_text :: "int \<Rightarrow> rat \<Rightarrow> string"
  general_text :: "int \<Rightarrow> rat \<Rightarrow> string"
  double_from_chars :: "string \<Rightarrow> double option"

fun decimal_digits :: "nat \<Rightarrow> string" where
  "decimal_digits n = (if n < 10 then [char_of (48 + n)] else decimal_digits (n div 10) @ [char_of (48 + n mod 10)])"

declare decimal_digits.simps [simp del]

definition int_text :: "int \<Rightarrow> string" where
  "int_text i = (if i < 0 then CHR ''-'' # decimal_digits (nat (- i)) else decimal_digits (nat i))"

text \<open>The two parts of \<open>std::modf\<close>.\<close>

definition int_part :: "rat \<Rightarrow> int" where
  "int_part r = (if r \<ge> 0 then \<lfloor>r\<rfloor> else \<lceil>r\<rceil>)"

definition frac_part :: "rat \<Rightarrow> rat" where
  "frac_part r = r - of_int (int_part r)"

definition double_epsilon :: rat where
  "double_epsilon = 100 / 2 ^ 52"

text \<open>
  The bounds of the whole-number check.  \<open>INT64_MIN + 1000\<close> and \<open>2 ^ 63 - 1000\<close> both round to the
  \<open>double\<close> of magnitude \<open>2 ^ 63 - 1024\<close>.  The literal \<open>1e-6\<close> is the \<open>double\<close> next to it.
\<close>

definition whole_limit :: int where
  "whole_limit = 2 ^ 63 - 1024"

definition literal_1e_6 :: rat where
  "literal_1e_6 = 4722366482869645 / 2 ^ 72"

definition dump_double :: "number_text \<Rightarrow> json_policy \<Rightarrow> policy_context option \<Rightarrow> double \<Rightarrow> string" where
  "dump_double nt P ctx d = (case d of
      NaN \<Rightarrow> if get_effective_allow_nan_inf P ctx then ''NaN'' else ''null''
    | Infinite negative \<Rightarrow>
        if get_effective_allow_nan_inf P ctx then (if \<not> negative then ''Infinity'' else ''-Infinity'') else ''null''
    | Finite r \<Rightarrow>
        if \<bar>frac_part r\<bar> < double_epsilon \<and> int_part r \<ge> - whole_limit \<and> int_part r \<le> whole_limit
        then int_text (int_part r)
        else let precision = get_effective_numeric_precision P ctx in
          (case number_format P of
             Fixed \<Rightarrow> fixed_text nt precision r
           | Scientific \<Rightarrow> scientific_text nt precision r
           | Shortest \<Rightarrow> general_text nt precision r
           | Auto \<Rightarrow> if \<bar>r\<bar> \<noteq> 0 \<and> (\<bar>r\<bar> < literal_1e_6 \<or> \<bar>r\<bar> > 10 ^ 15)
               then scientific_text nt precision r else fixed_text nt precision r))"

definition output_indent :: "int \<Rightarrow> string" where
  "output_indent indent = replicate (nat indent) CHR '' ''"

text \<open>A negative depth, from a negative indentation, is a very large \<open>size_t\<close>.\<close>

definition check_dump_depth :: "json_policy \<Rightarrow> int \<Rightarrow> unit result" where
  "check_dump_depth P indent = (let depth = indent div (if indent_step P > 0 then indent_step P else 1) in
     if 0 \<le> depth \<and> depth \<le> int (max_dump_depth P) then Inr ()
     else json_error ''JSON dump error: maximum nesting depth exceeded'')"

text \<open>What is written before an element, and after the last one.\<close>

definition before_element :: "json_policy \<Rightarrow> bool \<Rightarrow> int \<Rightarrow> bool \<Rightarrow> string" where
  "before_element P pretty indent first =
    (if first then [] else '','') @ (if pretty then newline # output_indent (indent + indent_step P) else [])"

definition open_container :: "char \<Rightarrow> bool \<Rightarrow> bool \<Rightarrow> string" where
  "open_container c pretty is_empty = [c] @ (if pretty \<and> \<not> is_empty then [newline] else [])"

definition close_container :: "char \<Rightarrow> bool \<Rightarrow> int \<Rightarrow> bool \<Rightarrow> string" where
  "close_container c pretty indent is_empty = (if pretty \<and> \<not> is_empty then newline # output_indent indent else []) @ [c]"

text \<open>The dispatch on the seven alternatives; a result is the text that is appended to the stream.\<close>

fun dump :: "number_text \<Rightarrow> json_policy \<Rightarrow> policy_context option \<Rightarrow> bool \<Rightarrow> int \<Rightarrow> json \<Rightarrow> string result"
  and dump_elements :: "number_text \<Rightarrow> json_policy \<Rightarrow> policy_context option \<Rightarrow> bool \<Rightarrow> int \<Rightarrow> bool \<Rightarrow> json list \<Rightarrow> string result"
  and dump_entries :: "number_text \<Rightarrow> json_policy \<Rightarrow> policy_context option \<Rightarrow> bool \<Rightarrow> int \<Rightarrow> bool \<Rightarrow> (string \<times> json) list \<Rightarrow> string result"
where
  "dump nt P ctx pretty indent Json_null = Inr ''null''"
| "dump nt P ctx pretty indent (Json_bool b) = Inr (if b then ''true'' else ''false'')"
| "dump nt P ctx pretty indent (Json_int i) = Inr (int_text (sint i))"
| "dump nt P ctx pretty indent (Json_double d) = Inr (dump_double nt P ctx d)"
| "dump nt P ctx pretty indent (Json_string s) = Inr (escape_string P ctx s)"
| "dump nt P ctx pretty indent (Json_array arr) =
    res_bind (check_dump_depth P indent) (\<lambda>_.
    res_bind (dump_elements nt P ctx pretty indent True arr) (\<lambda>out.
    Inr (open_container CHR ''['' pretty (arr = []) @ out @ close_container CHR '']'' pretty indent (arr = []))))"
| "dump nt P ctx pretty indent (Json_object obj) =
    res_bind (check_dump_depth P indent) (\<lambda>_.
    res_bind (dump_entries nt P ctx pretty indent True obj) (\<lambda>out.
    Inr (open_container CHR ''{'' pretty (obj = []) @ out @ close_container CHR ''}'' pretty indent (obj = []))))"
| "dump_elements nt P ctx pretty indent first [] = Inr []"
| "dump_elements nt P ctx pretty indent first (v # vs) =
    res_bind (dump nt P ctx pretty (indent + indent_step P) v) (\<lambda>out.
    res_bind (dump_elements nt P ctx pretty indent False vs) (\<lambda>rest.
    Inr (before_element P pretty indent first @ out @ rest)))"
| "dump_entries nt P ctx pretty indent first [] = Inr []"
| "dump_entries nt P ctx pretty indent first ((k, v) # kvs) =
    res_bind (dump nt P ctx pretty (indent + indent_step P) v) (\<lambda>out.
    res_bind (dump_entries nt P ctx pretty indent False kvs) (\<lambda>rest.
    Inr (before_element P pretty indent first @ escape_string P ctx k @ (if pretty then '' : '' else '':'') @ out @ rest)))"

text \<open>\<open>to_json_string\<close> sets the context for the time of the call: the text and the context after it.\<close>

definition to_json_string :: "number_text \<Rightarrow> json_policy \<Rightarrow> json \<Rightarrow> bool \<Rightarrow> policy_context option \<Rightarrow> string result \<times> policy_context option" where
  "to_json_string nt P v pretty current_policy_context =
    (let prev_ctx = current_policy_context in (dump nt P (Some (from_policy P)) pretty 0 v, prev_ctx))"

section \<open>Reading: white space, strings, numbers\<close>

function skip_line :: "string \<Rightarrow> nat \<Rightarrow> nat" where
  "skip_line s pos = (if pos < length s \<and> s ! pos \<noteq> newline then skip_line s (pos + 1) else pos)"
  by auto
termination by (relation "measure (\<lambda>(s, pos). length s - pos)") auto

function skip_block :: "string \<Rightarrow> nat \<Rightarrow> nat" where
  "skip_block s pos =
    (if pos + 1 < length s \<and> \<not> (s ! pos = CHR ''*'' \<and> s ! (pos + 1) = CHR ''/'') then skip_block s (pos + 1) else pos)"
  by auto
termination by (relation "measure (\<lambda>(s, pos). length s - pos)") auto

declare skip_line.simps [simp del] skip_block.simps [simp del]

lemma skip_comment_advances: "pos \<le> skip_line s pos" "pos \<le> skip_block s pos"
proof -
  show "pos \<le> skip_line s pos" by (induction s pos rule: skip_line.induct) (subst skip_line.simps, auto)
  show "pos \<le> skip_block s pos" by (induction s pos rule: skip_block.induct) (subst skip_block.simps, auto)
qed

function skip_whitespace :: "bool \<Rightarrow> string \<Rightarrow> nat \<Rightarrow> nat" where
  "skip_whitespace comments s pos =
    (if pos < length s then
       if c_isspace (s ! pos) then skip_whitespace comments s (pos + 1)
       else if comments \<and> length s - pos \<ge> 2 \<and> s ! pos = CHR ''/'' \<and> s ! (pos + 1) = CHR ''/'' then
         skip_whitespace comments s (skip_line s (pos + 2))
       else if comments \<and> length s - pos \<ge> 2 \<and> s ! pos = CHR ''/'' \<and> s ! (pos + 1) = CHR ''*'' then
         let p = skip_block s (pos + 2) in skip_whitespace comments s (if p + 1 < length s then p + 2 else p)
       else pos
     else pos)"
  by auto
termination
proof (relation "measure (\<lambda>(comments, s, pos). length s - pos)", goal_cases)
  case (3 comments s pos)
  then show ?case using skip_comment_advances(1) [of "pos + 2" s] by simp
next
  case (4 comments s pos p)
  then show ?case using skip_comment_advances(2) [of "pos + 2" s] by auto
qed auto

declare skip_whitespace.simps [simp del]

text \<open>\<open>std::stoul(hex, nullptr, 16)\<close> of at most four characters, cast to \<open>uint32_t\<close>.\<close>

definition hex_value :: "char \<Rightarrow> nat option" where
  "hex_value c = (if CHR ''0'' \<le> c \<and> c \<le> CHR ''9'' then Some (of_char c - 48)
     else if CHR ''a'' \<le> c \<and> c \<le> CHR ''f'' then Some (of_char c - 87)
     else if CHR ''A'' \<le> c \<and> c \<le> CHR ''F'' then Some (of_char c - 55) else None)"

fun hex_number :: "string \<Rightarrow> nat \<Rightarrow> nat" where
  "hex_number [] n = n"
| "hex_number (c # cs) n = (case hex_value c of None \<Rightarrow> n | Some d \<Rightarrow> hex_number cs (16 * n + d))"

definition starts_hex :: "string \<Rightarrow> bool" where
  "starts_hex s \<longleftrightarrow> s \<noteq> [] \<and> hex_value (hd s) \<noteq> None"

definition stoul16 :: "string \<Rightarrow> u32 option" where
  "stoul16 hex =
    (let t = dropWhile c_isspace hex;
         negative = (t \<noteq> [] \<and> hd t = CHR ''-'');
         t = (if t \<noteq> [] \<and> hd t \<in> {CHR ''-'', CHR ''+''} then tl t else t);
         t = (if take 2 t \<in> {''0x'', ''0X''} \<and> starts_hex (drop 2 t) then drop 2 t else t)
     in if \<not> starts_hex t then None
        else Some (if negative then - word_of_nat (hex_number t 0) else word_of_nat (hex_number t 0)))"

definition encode_utf8 :: "u32 \<Rightarrow> string result" where
  "encode_utf8 codepoint =
    (if codepoint \<le> 0x7F then Inr [chr codepoint]
     else if codepoint \<le> 0x7FF then
       Inr [chr (0xC0 OR drop_bit 6 codepoint), chr (0x80 OR (codepoint AND 0x3F))]
     else if codepoint \<le> 0xFFFF then
       Inr [chr (0xE0 OR drop_bit 12 codepoint), chr (0x80 OR (drop_bit 6 codepoint AND 0x3F)),
            chr (0x80 OR (codepoint AND 0x3F))]
     else if codepoint \<le> 0x10FFFF then
       Inr [chr (0xF0 OR drop_bit 18 codepoint), chr (0x80 OR (drop_bit 12 codepoint AND 0x3F)),
            chr (0x80 OR (drop_bit 6 codepoint AND 0x3F)), chr (0x80 OR (codepoint AND 0x3F))]
     else json_error ''JSON parse error: invalid unicode codepoint'')"

text \<open>The case \<open>u\<close> of the escapes: \<open>pos\<close> is that of the \<open>u\<close>, the result that of the last digit.\<close>

definition parse_unicode :: "string \<Rightarrow> nat \<Rightarrow> (string \<times> nat) result" where
  "parse_unicode s pos =
    (if \<not> pos + 5 \<le> length s then json_error ''JSON parse error: invalid unicode escape''
     else case stoul16 (substr s (pos + 1) 4) of
       None \<Rightarrow> json_error ''JSON parse error: invalid unicode hex''
     | Some codepoint \<Rightarrow>
         let pos = pos + 4 in
         if codepoint \<ge> 0xD800 \<and> codepoint \<le> 0xDBFF then
           if \<not> (pos + 6 < length s \<and> s ! (pos + 1) = backslash \<and> s ! (pos + 2) = CHR ''u'') then
             json_error ''JSON parse error: incomplete surrogate pair''
           else (case stoul16 (substr s (pos + 3) 4) of
               None \<Rightarrow> json_error ''JSON parse error: invalid low surrogate''
             | Some low_surrogate \<Rightarrow>
                 if \<not> (low_surrogate \<ge> 0xDC00 \<and> low_surrogate \<le> 0xDFFF) then
                   json_error ''JSON parse error: invalid low surrogate value''
                 else
                   res_bind (encode_utf8 (0x10000 + push_bit 10 (codepoint AND 0x3FF) + (low_surrogate AND 0x3FF)))
                     (\<lambda>t. Inr (t, pos + 6)))
         else if codepoint \<ge> 0xDC00 \<and> codepoint \<le> 0xDFFF then
           json_error ''JSON parse error: unexpected low surrogate''
         else res_bind (encode_utf8 codepoint) (\<lambda>t. Inr (t, pos)))"

definition parse_escape :: "string \<Rightarrow> nat \<Rightarrow> (string \<times> nat) result" where
  "parse_escape s pos = (let c = s ! pos in
     if c = quote then Inr ([quote], pos)
     else if c = backslash then Inr ([backslash], pos)
     else if c = CHR ''/'' then Inr (''/'', pos)
     else if c = CHR ''b'' then Inr ([CHR 0x08], pos)
     else if c = CHR ''f'' then Inr ([CHR 0x0C], pos)
     else if c = CHR ''n'' then Inr ([CHR 0x0A], pos)
     else if c = CHR ''r'' then Inr ([CHR 0x0D], pos)
     else if c = CHR ''t'' then Inr ([CHR 0x09], pos)
     else if c = CHR ''u'' then parse_unicode s pos
     else json_error ''JSON parse error: invalid escape character'')"

lemma parse_escape_advances: "parse_escape s pos = Inr (t, p) \<Longrightarrow> pos \<le> p"
  by (auto simp: parse_escape_def parse_unicode_def json_error_def res_bind_def Let_def
      split: if_splits option.splits sum.splits)

function string_loop :: "string \<Rightarrow> nat \<Rightarrow> string \<Rightarrow> (string \<times> nat) result" where
  "string_loop s pos res =
    (if pos < length s \<and> s ! pos \<noteq> quote then
       if s ! pos = backslash then
         if \<not> pos + 1 < length s then json_error ''JSON parse error: invalid escape sequence''
         else (case parse_escape s (pos + 1) of
             Inl e \<Rightarrow> Inl e
           | Inr (t, p) \<Rightarrow> string_loop s (p + 1) (res @ t))
       else string_loop s (pos + 1) (res @ [s ! pos])
     else Inr (res, pos))"
  by auto
termination
proof (relation "measure (\<lambda>(s, pos, res). length s - pos)", goal_cases)
  case (2 s pos res a t p)
  then show ?case using parse_escape_advances [of s "pos + 1" t p] by simp
qed auto

declare string_loop.simps [simp del]

definition parse_string :: "string \<Rightarrow> nat \<Rightarrow> (string \<times> nat) result" where
  "parse_string s pos =
    (if \<not> (pos < length s \<and> s ! pos = quote) then json_error ''JSON parse error: expected string''
     else res_bind (string_loop s (pos + 1) []) (\<lambda>(res, pos).
       if \<not> (pos < length s \<and> s ! pos = quote) then json_error ''JSON parse error: unterminated string''
       else Inr (res, pos + 1)))"

text \<open>\<open>while (scan_pos < s.size() && std::isdigit(s[scan_pos]))\<close>\<close>

function scan_digits :: "string \<Rightarrow> nat \<Rightarrow> nat result" where
  "scan_digits s pos =
    (if pos < length s then
       (case c_isdigit (s ! pos) of Inl e \<Rightarrow> Inl e | Inr d \<Rightarrow> if d then scan_digits s (pos + 1) else Inr pos)
     else Inr pos)"
  by auto
termination by (relation "measure (\<lambda>(s, pos). length s - pos)") auto

declare scan_digits.simps [simp del]

text \<open>\<open>pos < s.size() && std::isdigit(s[pos])\<close>\<close>

definition digit_at :: "string \<Rightarrow> nat \<Rightarrow> bool result" where
  "digit_at s pos = (if pos < length s then c_isdigit (s ! pos) else Inr False)"

fun decimal_number :: "string \<Rightarrow> nat \<Rightarrow> nat" where
  "decimal_number [] n = n"
| "decimal_number (c # cs) n = decimal_number cs (10 * n + (of_char c - 48))"

text \<open>\<open>std::from_chars\<close> into an \<open>int64_t\<close>, of an optional minus sign and digits.\<close>

definition int_from_chars :: "string \<Rightarrow> int64 option" where
  "int_from_chars t =
    (let v = (if t \<noteq> [] \<and> hd t = CHR ''-'' then - int (decimal_number (tl t) 0) else int (decimal_number t 0))
     in if - (2 ^ 63) \<le> v \<and> v < 2 ^ 63 then Some (word_of_int v) else None)"

text \<open>The fraction and the exponent: the position after it, and whether there was one.\<close>

definition scan_fraction :: "string \<Rightarrow> nat \<Rightarrow> (nat \<times> bool) result" where
  "scan_fraction s pos =
    (if pos < length s \<and> s ! pos = CHR ''.'' then
       res_bind (digit_at s (pos + 1)) (\<lambda>d.
       if \<not> d then json_error ''JSON parse error: decimal point must be followed by at least one digit''
       else res_bind (scan_digits s (pos + 1)) (\<lambda>p. Inr (p, True)))
     else Inr (pos, False))"

definition scan_exponent :: "string \<Rightarrow> nat \<Rightarrow> (nat \<times> bool) result" where
  "scan_exponent s pos =
    (if pos < length s \<and> (s ! pos = CHR ''e'' \<or> s ! pos = CHR ''E'') then
       let pos = pos + 1;
           pos = (if pos < length s \<and> (s ! pos = CHR ''+'' \<or> s ! pos = CHR ''-'') then pos + 1 else pos)
       in res_bind (digit_at s pos) (\<lambda>d.
          if \<not> d then json_error ''JSON parse error: exponent must be followed by at least one digit''
          else res_bind (scan_digits s pos) (\<lambda>p. Inr (p, True)))
     else Inr (pos, False))"

text \<open>The part of \<open>parse_number\<close> that checks the grammar: the position after the number, and whether it has a
  fraction or an exponent.\<close>

definition scan_number :: "string \<Rightarrow> nat \<Rightarrow> (nat \<times> bool) result" where
  "scan_number s start =
    res_bind (digit_at s start) (\<lambda>d.
    if \<not> (start < length s \<and> (d \<or> s ! start = CHR ''-'')) then json_error ''JSON parse error: invalid number''
    else let pos = (if s ! start = CHR ''-'' then start + 1 else start) in
    res_bind (if s ! start = CHR ''-'' then digit_at s pos else Inr True) (\<lambda>d.
    if \<not> d then json_error ''JSON parse error: invalid number after '-' ''
    else
    res_bind (if s ! pos = CHR ''0'' then digit_at s (pos + 1) else Inr False) (\<lambda>d.
    if d then json_error ''JSON parse error: leading zeros are not allowed in numbers''
    else
    res_bind (scan_digits s pos) (\<lambda>scan_pos.
    res_bind (scan_fraction s scan_pos) (\<lambda>(scan_pos, has_decimal).
    res_bind (scan_exponent s scan_pos) (\<lambda>(scan_pos, has_exponent).
    Inr (scan_pos, has_decimal \<or> has_exponent)))))))"

definition parse_number :: "number_text \<Rightarrow> json_policy \<Rightarrow> string \<Rightarrow> nat \<Rightarrow> (json \<times> nat) result" where
  "parse_number nt P s start =
    (if substr s start 3 = ''NaN'' then
       if allow_nan_inf P then Inr (Json_double NaN, start + 3) else json_error ''JSON parse error: NaN is not valid JSON''
     else if substr s start 8 = ''Infinity'' then
       if allow_nan_inf P then Inr (Json_double (Infinite False), start + 8)
       else json_error ''JSON parse error: Infinity is not valid JSON''
     else if substr s start 9 = ''-Infinity'' then
       if allow_nan_inf P then Inr (Json_double (Infinite True), start + 9)
       else json_error ''JSON parse error: -Infinity is not valid JSON''
     else
       res_bind (scan_number s start) (\<lambda>(scan_pos, fractional).
       let token = substr s start (scan_pos - start);
           int_val = (if \<not> fractional then int_from_chars token else None)
       in case int_val of
            Some i \<Rightarrow> Inr (Json_int i, scan_pos)
          | None \<Rightarrow> (case double_from_chars nt token of
                Some d \<Rightarrow> Inr (Json_double d, scan_pos)
              | None \<Rightarrow> json_error ''JSON parse error: invalid number'')))"

section \<open>Reading values\<close>

text \<open>
  The parser is recursive; \<open>fuel\<close> bounds the depth of the calls and the turns of each loop, and
  \<open>None\<close> is running out of it.  \<open>parse_array\<close> and \<open>parse_object\<close> get \<open>parse_value\<close> as an argument.
\<close>

type_synonym 'a run = "'a result option"

definition run_bind :: "'a run \<Rightarrow> ('a \<Rightarrow> 'b run) \<Rightarrow> 'b run" where
  "run_bind m f = (case m of None \<Rightarrow> None | Some (Inl e) \<Rightarrow> Some (Inl e) | Some (Inr x) \<Rightarrow> f x)"

type_synonym value_parser = "nat \<Rightarrow> nat \<Rightarrow> (json \<times> nat) run"

primrec array_loop :: "nat \<Rightarrow> value_parser \<Rightarrow> bool \<Rightarrow> string \<Rightarrow> nat \<Rightarrow> nat \<Rightarrow> json list \<Rightarrow> (json list \<times> nat) run" where
  "array_loop 0 parse_value comments s pos depth arr = None"
| "array_loop (Suc fuel) parse_value comments s pos depth arr =
    (if \<not> pos < length s then Some (json_error ''JSON parse error: unterminated array'')
     else run_bind (parse_value pos (depth + 1)) (\<lambda>(v, pos).
     let arr = arr @ [v]; pos = skip_whitespace comments s pos in
     if \<not> pos < length s then Some (json_error ''JSON parse error: unterminated array'')
     else if s ! pos = CHR '']'' then Some (Inr (arr, pos + 1))
     else if s ! pos \<noteq> CHR '','' then Some (json_error ''JSON parse error: expected ',' or ']' in array'')
     else array_loop fuel parse_value comments s (skip_whitespace comments s (pos + 1)) depth arr))"

definition parse_array :: "nat \<Rightarrow> value_parser \<Rightarrow> json_policy \<Rightarrow> string \<Rightarrow> nat \<Rightarrow> nat \<Rightarrow> (json list \<times> nat) run" where
  "parse_array fuel parse_value P s pos depth =
    (if \<not> depth \<le> max_parse_depth P then Some (json_error ''JSON parse error: maximum nesting depth exceeded'')
     else let pos = skip_whitespace (allow_comments P) s (pos + 1) in
     if pos < length s \<and> s ! pos = CHR '']'' then Some (Inr ([], pos + 1))
     else array_loop fuel parse_value (allow_comments P) s pos depth [])"

primrec object_loop :: "nat \<Rightarrow> value_parser \<Rightarrow> bool \<Rightarrow> string \<Rightarrow> nat \<Rightarrow> nat \<Rightarrow> (string \<times> json) list \<Rightarrow> ((string \<times> json) list \<times> nat) run" where
  "object_loop 0 parse_value comments s pos depth obj = None"
| "object_loop (Suc fuel) parse_value comments s pos depth obj =
    (if \<not> pos < length s then Some (json_error ''JSON parse error: unterminated object'')
     else let pos = skip_whitespace comments s pos in
     if \<not> (pos < length s \<and> s ! pos = quote) then Some (json_error ''JSON parse error: expected string key'')
     else run_bind (Some (parse_string s pos)) (\<lambda>(key, pos).
     let pos = skip_whitespace comments s pos in
     if \<not> (pos < length s \<and> s ! pos = CHR '':'') then Some (json_error ''JSON parse error: expected ':' after object key'')
     else let pos = skip_whitespace comments s (pos + 1) in
     run_bind (parse_value pos (depth + 1)) (\<lambda>(v, pos).
     let obj = object_assign key v obj; pos = skip_whitespace comments s pos in
     if \<not> pos < length s then Some (json_error ''JSON parse error: unterminated object'')
     else if s ! pos = CHR ''}'' then Some (Inr (obj, pos + 1))
     else if s ! pos \<noteq> CHR '','' then Some (json_error ''JSON parse error: expected ',' or '}' in object'')
     else object_loop fuel parse_value comments s (pos + 1) depth obj)))"

definition parse_object :: "nat \<Rightarrow> value_parser \<Rightarrow> json_policy \<Rightarrow> string \<Rightarrow> nat \<Rightarrow> nat \<Rightarrow> ((string \<times> json) list \<times> nat) run" where
  "parse_object fuel parse_value P s pos depth =
    (if \<not> depth \<le> max_parse_depth P then Some (json_error ''JSON parse error: maximum nesting depth exceeded'')
     else let pos = skip_whitespace (allow_comments P) s (pos + 1) in
     if pos < length s \<and> s ! pos = CHR ''}'' then Some (Inr ([], pos + 1))
     else object_loop fuel parse_value (allow_comments P) s pos depth [])"

primrec parse_value :: "nat \<Rightarrow> number_text \<Rightarrow> json_policy \<Rightarrow> string \<Rightarrow> value_parser" where
  "parse_value 0 nt P s pos depth = None"
| "parse_value (Suc fuel) nt P s pos depth =
    (let pos = skip_whitespace (allow_comments P) s pos in
     if \<not> pos < length s then Some (json_error ''JSON parse error: unexpected end of input'')
     else let c = s ! pos in
     if c = CHR ''{'' then
       run_bind (parse_object fuel (parse_value fuel nt P s) P s pos depth) (\<lambda>(obj, pos). Some (Inr (Json_object obj, pos)))
     else if c = CHR ''['' then
       run_bind (parse_array fuel (parse_value fuel nt P s) P s pos depth) (\<lambda>(arr, pos). Some (Inr (Json_array arr, pos)))
     else if c = quote then Some (res_bind (parse_string s pos) (\<lambda>(str, pos). Inr (Json_string str, pos)))
     else if substr s pos 4 = ''true'' then Some (Inr (Json_bool True, pos + 4))
     else if substr s pos 5 = ''false'' then Some (Inr (Json_bool False, pos + 5))
     else if substr s pos 4 = ''null'' then Some (Inr (Json_null, pos + 4))
     else Some (res_bind (c_isdigit c) (\<lambda>d.
       if d \<or> c = CHR ''-'' \<or> substr s pos 3 = ''NaN'' \<or> substr s pos 8 = ''Infinity'' \<or> substr s pos 9 = ''-Infinity''
       then parse_number nt P s pos
       else json_error ''JSON parse error: invalid value'')))"

definition parse_fuel :: "string \<Rightarrow> nat" where
  "parse_fuel s = length s + 1"

definition parse_json :: "number_text \<Rightarrow> json_policy \<Rightarrow> string \<Rightarrow> json run" where
  "parse_json nt P s = run_bind (parse_value (parse_fuel s) nt P s 0 0) (\<lambda>(val, pos).
     let pos = skip_whitespace (allow_comments P) s pos in
     if pos = length s then Some (Inr val) else Some (json_error ''JSON parse error: extra data after JSON value''))"

end
