(* ===== verification/JsonLite_Strings.thy ===== *)
theory JsonLite_Strings
  imports JsonLite
begin

text \<open>
  Strings of \<open>JsonLite.h\<close>: what \<open>escape_string\<close> writes for a well-formed UTF-8 string, \<open>parse_string\<close>
  reads back.  The unit of both loops is a chunk: the bytes of one character and its escaped text.
\<close>

section \<open>Bits and digits\<close>

lemma of_char_less: "(of_char c :: nat) < 256"
  by (metis of_char_mod_256 mod_less_divisor zero_less_numeral)

lemma unat_byte: "unat (byte c) = of_char c"
proof -
  have "(of_char c :: nat) < 4294967296" using of_char_less [of c] by linarith
  then show ?thesis by (simp add: byte_def unat_of_nat)
qed

lemma byte_less: "byte c < 256"
  using of_char_less [of c] by (simp add: word_less_nat_alt unat_byte)

lemma chr_byte [simp]: "chr (byte c) = c"
  by (simp add: chr_def unat_byte char_of_char)

lemma byte_chr: "w < 256 \<Longrightarrow> byte (chr w) = w"
  by (simp add: byte_def chr_def of_char_of word_less_nat_alt)

lemma push_drop_or: "push_bit n (drop_bit n w) OR (w AND mask n) = (w::u32)"
  by (rule bit_eqI) (auto simp: bit_simps)

lemma six_bits: "push_bit 6 (drop_bit 6 w) OR (w AND 0x3F) = (w::u32)"
  using push_drop_or [of 6 w] by (simp add: mask_eq_exp_minus_1)

lemma drop_bit_less: "w < 2 ^ (k + n) \<Longrightarrow> k + n < 32 \<Longrightarrow> drop_bit n (w::u32) < 2 ^ k"
proof -
  assume "w < 2 ^ (k + n)" "k + n < 32"
  then have "unat w < 2 ^ k * 2 ^ n"  by (simp add: word_less_nat_alt unat_two_power power_add [symmetric])
  then have "unat w div 2 ^ n < 2 ^ k" by (rule less_mult_imp_div_less)
  moreover have "unat (2 ^ k :: u32) = 2 ^ k" by (rule unat_two_power) (use \<open>k + n < 32\<close> in simp)
  ultimately show ?thesis unfolding word_less_nat_alt unat_drop_bit_eq by (simp add: drop_bit_eq_div)
qed

lemma below_enum:
  assumes "\<forall>x\<in>set (map word_of_nat [0..<n]). Q (x::u32)" and "w < word_of_nat n" and "n < 2 ^ 32"
  shows "Q w"
proof -
  have "unat w < n" using assms(2,3) by (simp add: word_less_nat_alt unat_of_nat)
  then have "word_of_nat (unat w) \<in> set (map (word_of_nat :: nat \<Rightarrow> u32) [0..<n])" 
    unfolding set_map set_upt by (intro imageI) simp
  from bspec [OF assms(1) this] show ?thesis by simp
qed

lemma lead_two: "x < 0x20 \<Longrightarrow> lead_byte (0xC0 OR x) = Some (2, x) \<and> 0xC0 OR x < 256 \<and> 0xC0 OR x \<ge> 0x80"
  by (rule below_enum [where n = 32]) (code_simp, simp_all)

lemma lead_three: "x < 0x10 \<Longrightarrow> lead_byte (0xE0 OR x) = Some (3, x) \<and> 0xE0 OR x < 256 \<and> 0xE0 OR x \<ge> 0x80"
  by (rule below_enum [where n = 16]) (code_simp, simp_all)

lemma lead_four: "x < 8 \<Longrightarrow> lead_byte (0xF0 OR x) = Some (4, x) \<and> 0xF0 OR x < 256 \<and> 0xF0 OR x \<ge> 0x80"
  by (rule below_enum [where n = 8]) (code_simp, simp_all)

lemma continuation_byte: "(x::u32) < 0x40 \<Longrightarrow> (0x80 OR x) AND 0xC0 = 0x80 \<and> (0x80 OR x) AND 0x3F = x \<and> 0x80 OR x < 256"
  by (rule below_enum [where n = 64]) (code_simp, simp_all)

lemma and_3F_less: "(w::u32) AND 0x3F < 0x40"
proof -
  have "w AND 0x3F \<le> 0x3F" by (rule word_and_le1)
  then show ?thesis by (simp add: word_le_nat_alt word_less_nat_alt)
qed

lemma hex_value_digit: "d < 16 \<Longrightarrow> hex_value (hex_digit d) = Some d \<and> \<not> c_isspace (hex_digit d)
    \<and> hex_digit d \<notin> {CHR ''-'', CHR ''+'', CHR ''x'', CHR ''X''}"
proof -
  assume "d < 16"
  then have "d = 0 \<or> d = 1 \<or> d = 2 \<or> d = 3 \<or> d = 4 \<or> d = 5 \<or> d = 6 \<or> d = 7 \<or> d = 8 \<or> d = 9
    \<or> d = 10 \<or> d = 11 \<or> d = 12 \<or> d = 13 \<or> d = 14 \<or> d = 15" by presburger
  then show ?thesis
    by (elim disjE) (simp_all add: hex_digit_def hex_value_def c_isspace_def less_eq_char_def)
qed

text \<open>Four digits, padded, are the four nibbles.\<close>

definition nibbles :: "nat \<Rightarrow> string" where
  "nibbles n = [hex_digit (n div 4096), hex_digit (n div 256 mod 16), hex_digit (n div 16 mod 16), hex_digit (n mod 16)]"

lemma hex4_nibbles:
  assumes "w \<le> 0xFFFF"
  shows "hex4 w = nibbles (unat w)"
proof -
  let ?n = "unat w"
  have n: "?n < 65536" using assms by (simp add: word_le_nat_alt)
  have z: "hex_digit 0 = CHR ''0''" by (simp add: hex_digit_def)
  have e: "?n div 16 div 16 = ?n div 256" "?n div 256 div 16 = ?n div 4096" by (simp_all flip: div_mult2_eq)
  have top: "hex_digits k = [hex_digit k]" if "k < 16" for k using that by (subst hex_digits.simps) simp
  have rep: "replicate 3 (CHR ''0'') = ''000''" "replicate 2 (CHR ''0'') = ''00''" by (simp_all add: numeral_eq_Suc)
  have push: "hex_digits k = hex_digits (k div 16) @ [hex_digit (k mod 16)]" if "16 \<le> k" for k
    using that by (subst hex_digits.simps) (simp add: not_less)
  consider "?n < 16" | "16 \<le> ?n" "?n < 256" | "256 \<le> ?n" "?n < 4096" | "4096 \<le> ?n" by linarith
  then have "replicate (4 - length (hex_digits ?n)) (CHR ''0'') @ hex_digits ?n = nibbles ?n"
  proof cases
    case 1
    then show ?thesis by (simp add: top nibbles_def z rep)
  next
    case 2
    then have d: "?n div 16 < 16" by (simp add: less_mult_imp_div_less)
    then have "?n div 256 = 0" "?n div 4096 = 0" using 2 by simp_all
    then show ?thesis by (simp add: push [OF 2(1)] top [OF d] nibbles_def z rep mod_less [OF d])
  next
    case 3
    have a: "16 \<le> ?n div 16" using div_le_mono [OF 3(1), of 16] by simp
    have d: "?n div 256 < 16" using 3(2) by (simp add: less_mult_imp_div_less)
    have "?n div 4096 = 0" "16 \<le> ?n" using 3 by simp_all
    then show ?thesis
      by (simp add: push [of ?n] push [OF a] e top [OF d] nibbles_def z rep mod_less [OF d])
  next
    case 4
    have a: "16 \<le> ?n div 16" "16 \<le> ?n div 256" using div_le_mono [OF 4, of 16] div_le_mono [OF 4, of 256] by simp_all
    have d: "?n div 4096 < 16" using n by (simp add: less_mult_imp_div_less)
    have "16 \<le> ?n" using 4 by simp
    then show ?thesis by (simp add: push [of ?n] push [OF a(1)] push [OF a(2)] e top [OF d] nibbles_def)
  qed
  then show ?thesis by (simp add: hex4_def Let_def)
qed

lemma length_hex4 [simp]: "w \<le> 0xFFFF \<Longrightarrow> length (hex4 w) = 4"
  by (simp add: hex4_nibbles nibbles_def)

lemma stoul16_hex4:
  assumes "w \<le> 0xFFFF"
  shows "stoul16 (hex4 w) = Some w"
proof -
  let ?n = "unat w"
  have n: "?n < 65536" using assms by (simp add: word_le_nat_alt)
  have d: "?n div 4096 < 16" "?n div 256 mod 16 < 16" "?n div 16 mod 16 < 16" "?n mod 16 < 16"
    using n by (simp_all add: less_mult_imp_div_less)
  have "16 * (16 * (16 * (?n div 4096) + ?n div 256 mod 16) + ?n div 16 mod 16) + ?n mod 16 = ?n"
  proof -
    have "16 * (?n div 4096) + ?n div 256 mod 16 = ?n div 256" using div_mult_mod_eq [of "?n div 256" 16] by (simp flip: div_mult2_eq)
    moreover have "16 * (?n div 256) + ?n div 16 mod 16 = ?n div 16" using div_mult_mod_eq [of "?n div 16" 16] by (simp flip: div_mult2_eq)
    moreover have "16 * (?n div 16) + ?n mod 16 = ?n" by simp
    ultimately show ?thesis by metis
  qed
  then show ?thesis
    using hex_value_digit [OF d(1)] hex_value_digit [OF d(2)] hex_value_digit [OF d(3)] hex_value_digit [OF d(4)]
    by (simp add: hex4_nibbles [OF assms] nibbles_def stoul16_def starts_hex_def Let_def)
qed

section \<open>Chunks\<close>

definition chunk :: "bool \<Rightarrow> string \<Rightarrow> string \<Rightarrow> bool" where
  "chunk unicode bytes text \<longleftrightarrow> bytes \<noteq> [] \<and>
    (\<forall>pre post. escape_one unicode (pre @ bytes @ post) (length pre) = (text, length bytes)) \<and>
    (\<forall>pre post res. string_loop (pre @ text @ post) (length pre) res
        = string_loop (pre @ text @ post) (length pre + length text) (res @ bytes))"

definition utf8 :: "u32 \<Rightarrow> string" where
  "utf8 cp = projr (encode_utf8 cp)"

text \<open>A Unicode scalar value: a code point that is not a surrogate.\<close>

definition scalar_value :: "u32 \<Rightarrow> bool" where
  "scalar_value cp \<longleftrightarrow> cp \<le> 0x10FFFF \<and> \<not> (0xD800 \<le> cp \<and> cp \<le> 0xDFFF)"

lemma string_loop_plain:
  assumes "c \<noteq> quote" and "c \<noteq> backslash"
  shows "string_loop (pre @ [c] @ post) (length pre) res = string_loop (pre @ [c] @ post) (length pre + 1) (res @ [c])"
  using assms by (subst string_loop.simps) simp

lemma string_loop_escape:
  assumes "parse_escape (pre @ backslash # t @ post) (length pre + 1) = Inr (u, length pre + length t)"
    and "t \<noteq> []"
  shows "string_loop (pre @ (backslash # t) @ post) (length pre) res
    = string_loop (pre @ (backslash # t) @ post) (length pre + length (backslash # t)) (res @ u)"
  using assms by (subst string_loop.simps) simp

lemma encode_utf8_Inr: "cp \<le> 0x10FFFF \<Longrightarrow> encode_utf8 cp = Inr (utf8 cp)"
  by (simp add: encode_utf8_def utf8_def)

lemma parse_hex4:
  assumes "cp \<le> 0xFFFF" and "scalar_value cp"
  shows "parse_escape (pre @ backslash # (CHR ''u'' # hex4 cp) @ post) (length pre + 1) = Inr (utf8 cp, length pre + 5)"
proof -
  let ?s = "pre @ backslash # (CHR ''u'' # hex4 cp) @ post"
  have "substr ?s (length pre + 1 + 1) 4 = hex4 cp" using assms(1) by (simp add: substr_def)
  moreover have "(cp \<ge> 0xD800 \<and> cp \<le> 0xDBFF) = False" "(cp \<ge> 0xDC00 \<and> cp \<le> 0xDFFF) = False" "cp \<le> 0x10FFFF"
    using assms(2) order_trans [of cp "0xDBFF" "0xDFFF"] order_trans [of "0xD800" "0xDC00" cp] by (auto simp: scalar_value_def)
  moreover have "?s ! (length pre + 1) = CHR ''u''" by (simp add: nth_append)
  ultimately show ?thesis using assms(1)
    by (auto simp: parse_escape_def parse_unicode_def stoul16_hex4 encode_utf8_Inr res_bind_def Let_def)
qed

text \<open>The surrogates of a code point beyond \<open>0xFFFF\<close>.\<close>

definition high_surrogate :: "u32 \<Rightarrow> u32" where
  "high_surrogate cp = 0xD800 + (drop_bit 10 (cp - 0x10000) AND 0x3FF)"

definition low_surrogate_of :: "u32 \<Rightarrow> u32" where
  "low_surrogate_of cp = 0xDC00 + ((cp - 0x10000) AND 0x3FF)"

lemma ten_bits:
  fixes w :: u32
  shows "take_bit 10 (0xD800 + take_bit 10 w) = take_bit 10 w" "take_bit 10 (0xDC00 + take_bit 10 w) = take_bit 10 w"
proof -
  have "unat w mod 1024 < 1024" by simp
  then have "(55296 + unat w mod 1024) mod 4294967296 = 55296 + unat w mod 1024" "(56320 + unat w mod 1024) mod 4294967296 = 56320 + unat w mod 1024"
    "unat w mod 1024 mod 4294967296 = unat w mod 1024"
    by (intro mod_less; linarith)+
  moreover have "(55296 + unat w mod 1024) mod 1024 = unat w mod 1024" "(56320 + unat w mod 1024) mod 1024 = unat w mod 1024"
    using mod_mult_self1 [of "unat w mod 1024" 54 1024] mod_mult_self1 [of "unat w mod 1024" 55 1024] by (simp_all add: add.commute)
  ultimately show "take_bit 10 (0xD800 + take_bit 10 w) = take_bit 10 w" "take_bit 10 (0xDC00 + take_bit 10 w) = take_bit 10 w"
    by (simp_all add: word_unat_eq_iff unsigned_take_bit_eq take_bit_eq_mod unat_word_ariths)
qed

lemma surrogates:
  assumes "0xFFFF < cp" and "cp \<le> 0x10FFFF"
  shows "0xD800 \<le> high_surrogate cp" "high_surrogate cp \<le> 0xDBFF" "0xDC00 \<le> low_surrogate_of cp" "low_surrogate_of cp \<le> 0xDFFF"
    and "0x10000 + push_bit 10 (high_surrogate cp AND 0x3FF) + (low_surrogate_of cp AND 0x3FF) = cp"
proof -
  define k where "k = cp - 0x10000"
  have k: "k < 2 ^ 20" using assms by (simp add: k_def word_less_nat_alt word_le_nat_alt unat_sub_if')
  have m: "w AND 0x3FF \<le> 0x3FF" "w AND 0x3FF = take_bit 10 w" for w :: u32
    by (rule word_and_le1) (simp add: take_bit_eq_mask mask_eq_exp_minus_1)
  show "0xD800 \<le> high_surrogate cp" "high_surrogate cp \<le> 0xDBFF" "0xDC00 \<le> low_surrogate_of cp" "low_surrogate_of cp \<le> 0xDFFF"
    using m(1) [of "drop_bit 10 k"] m(1) [of k]
    unfolding high_surrogate_def low_surrogate_of_def k_def [symmetric] word_le_nat_alt by (simp_all add: unat_word_ariths)
  have "drop_bit 10 k < 2 ^ 10" using drop_bit_less [of k 10 10] k by simp
  then have "take_bit 10 (drop_bit 10 k) = drop_bit 10 k"
    by (simp add: word_unat_eq_iff unsigned_take_bit_eq take_bit_nat_eq_self word_less_nat_alt)
  then have hl: "high_surrogate cp AND 0x3FF = drop_bit 10 k" "low_surrogate_of cp AND 0x3FF = k AND 0x3FF"
    using ten_bits(1) [of "drop_bit 10 k"] ten_bits(2) [of k]
    unfolding high_surrogate_def low_surrogate_of_def k_def [symmetric] m(2) by simp_all
  have "push_bit 10 (drop_bit 10 k) + (k AND 0x3FF) = k" unfolding m(2) by (rule bits_ident)
  then show "0x10000 + push_bit 10 (high_surrogate cp AND 0x3FF) + (low_surrogate_of cp AND 0x3FF) = cp"
    unfolding hl by (simp add: k_def add.assoc)
qed

lemma parse_surrogates:
  assumes "0xFFFF < cp" and "cp \<le> 0x10FFFF"
  defines "t \<equiv> CHR ''u'' # hex4 (high_surrogate cp) @ backslash # CHR ''u'' # hex4 (low_surrogate_of cp)"
  shows "output_unicode_escape cp = backslash # t" and "length t = 11"
    and "parse_escape (pre @ backslash # t @ post) (length pre + 1) = Inr (utf8 cp, length pre + length t)"
proof -
  let ?h = "high_surrogate cp" and ?l = "low_surrogate_of cp"
  let ?s = "pre @ backslash # t @ post"
  note hl = surrogates [OF assms(1,2)]
  have small: "?h \<le> 0xFFFF" "?l \<le> 0xFFFF"
    using hl(2,4) order_trans [of ?h "0xDBFF" "0xFFFF"] order_trans [of ?l "0xDFFF" "0xFFFF"] by simp_all
  have len [simp]: "length (hex4 ?h) = 4" "length (hex4 ?l) = 4" using small by simp_all
  have "\<not> cp \<le> 0xFFFF" using assms(1) unfolding not_le .
  then show "output_unicode_escape cp = backslash # t"
    by (simp add: output_unicode_escape_def t_def high_surrogate_def low_surrogate_of_def Let_def)
  show ten: "length t = 11" by (simp add: t_def)
  have "substr ?s (length pre + 1 + 1) 4 = hex4 ?h" by (simp add: substr_def t_def)
  moreover have "substr ?s (length pre + 1 + 4 + 3) 4 = hex4 ?l" by (simp add: substr_def t_def)
  moreover have "?s ! (length pre + 1) = CHR ''u''" "?s ! (length pre + 1 + 4 + 1) = backslash" "?s ! (length pre + 1 + 4 + 2) = CHR ''u''"
    by (simp_all add: nth_append t_def)
  ultimately show "parse_escape ?s (length pre + 1) = Inr (utf8 cp, length pre + length t)"
    using hl assms(2) by (simp add: parse_escape_def parse_unicode_def stoul16_hex4 small encode_utf8_Inr res_bind_def Let_def ten)
qed

lemma escape_plain: "c \<noteq> quote \<Longrightarrow> c \<noteq> backslash \<Longrightarrow> byte c \<ge> 0x20 \<Longrightarrow> byte c < 0x80 \<or> \<not> unicode \<Longrightarrow>
    escape_one unicode (pre @ [c] @ post) (length pre) = ([c], 1)"
proof -
  assume c: "c \<noteq> quote" "c \<noteq> backslash" "byte c \<ge> 0x20" "byte c < 0x80 \<or> \<not> unicode"
  have "c \<noteq> CHR 0x08" "c \<noteq> CHR 0x0C" "c \<noteq> CHR 0x0A" "c \<noteq> CHR 0x0D" "c \<noteq> CHR 0x09"
    using c(3) by (auto simp: byte_def)
  moreover have "\<not> byte c < 0x20" using c(3) by (simp add: not_less)
  ultimately show ?thesis using c(1,2) c(4) by (elim disjE) (simp_all add: escape_one_def Let_def)
qed

lemma chunk_plain:
  assumes "c \<noteq> quote" and "c \<noteq> backslash" and "byte c \<ge> 0x20" and "byte c < 0x80 \<or> \<not> unicode"
  shows "chunk unicode [c] [c]"
  using escape_plain [OF assms] string_loop_plain [OF assms(1,2)] by (simp add: chunk_def)

definition short_escapes :: "(char \<times> char) list" where
  "short_escapes = [(quote, quote), (backslash, backslash), (CHR 0x08, CHR ''b''), (CHR 0x0C, CHR ''f''),
    (CHR 0x0A, CHR ''n''), (CHR 0x0D, CHR ''r''), (CHR 0x09, CHR ''t'')]"

lemma chunk_short:
  assumes "(c, e) \<in> set short_escapes"
  shows "chunk unicode [c] [backslash, e]"
proof -
  note cases = assms [unfolded short_escapes_def, simplified]
  have one: "escape_one unicode (pre @ [c] @ post) (length pre) = ([backslash, e], 1)" for pre post
    using cases by (elim disjE; simp add: escape_one_def Let_def)
  have esc: "parse_escape (pre @ backslash # [e] @ post) (length pre + 1) = Inr ([c], length pre + length [e])" for pre post
    using cases by (elim disjE; simp add: parse_escape_def Let_def nth_append)
  show ?thesis using one string_loop_escape [OF esc] by (simp add: chunk_def)
qed

lemma chunk_unicode:
  assumes "scalar_value cp" and "\<And>pre post. escape_one unicode (pre @ utf8 cp @ post) (length pre) = (output_unicode_escape cp, length (utf8 cp))"
    and "utf8 cp \<noteq> []"
  shows "chunk unicode (utf8 cp) (output_unicode_escape cp)"
proof -
  obtain t where t: "output_unicode_escape cp = backslash # t" "t \<noteq> []"
    and p: "\<And>pre post. parse_escape (pre @ backslash # t @ post) (length pre + 1) = Inr (utf8 cp, length pre + length t)"
  proof (cases "cp \<le> 0xFFFF")
    case True
    then show ?thesis using that [of "CHR ''u'' # hex4 cp"] parse_hex4 [OF True assms(1)] by (simp add: output_unicode_escape_def)
  next
    case False
    have "0xFFFF < cp" "cp \<le> 0x10FFFF" using False assms(1) by (simp_all add: scalar_value_def)
    note ps = parse_surrogates [OF this]
    show ?thesis by (rule that [OF ps(1) _ ps(3)]) simp
  qed
  show ?thesis unfolding chunk_def
  proof (intro conjI allI)
    show "string_loop (pre @ output_unicode_escape cp @ post) (length pre) res
      = string_loop (pre @ output_unicode_escape cp @ post) (length pre + length (output_unicode_escape cp)) (res @ utf8 cp)" for pre post res
      unfolding t(1) by (rule string_loop_escape [OF p t(2)])
  qed (use assms in simp_all)
qed


lemma chunk_control:
  assumes "byte c < 0x20" and "c \<notin> {CHR 0x08, CHR 0x0C, CHR 0x0A, CHR 0x0D, CHR 0x09}"
  shows "chunk unicode [c] (output_unicode_escape (byte c))"
proof -
  have "c \<noteq> quote" "c \<noteq> backslash" using assms(1) by (auto simp: byte_def)
  then have one: "escape_one unicode (pre @ [c] @ post) (length pre) = (output_unicode_escape (byte c), 1)" for pre post
    using assms by (simp add: escape_one_def Let_def)
  have small: "byte c \<le> 0xFFFF" "scalar_value (byte c)" "utf8 (byte c) = [c]"
    using assms(1) by (auto simp: scalar_value_def utf8_def encode_utf8_def word_less_nat_alt word_le_nat_alt)
  then have "output_unicode_escape (byte c) = backslash # (CHR ''u'' # hex4 (byte c))" by (simp add: output_unicode_escape_def)
  then show ?thesis using one parse_hex4 [OF small(1,2)] string_loop_escape [of _ "CHR ''u'' # hex4 (byte c)" _ "[c]"]
    by (simp add: chunk_def small)
qed

text \<open>\<open>escape_one\<close> decodes what \<open>encode_utf8\<close> writes.\<close>

lemma escape_multibyte:
  assumes "utf8 cp = chr b # cs" and "b < 256" and "b \<ge> 0x80" and "lead_byte b = Some (Suc (length cs), w)"
    and "\<And>pre. continuation (pre @ cs @ post) (length pre) (length cs) w = Some cp"
  shows "escape_one True (pre @ utf8 cp @ post) (length pre) = (output_unicode_escape cp, length (utf8 cp))"
proof -
  have b: "byte (chr b) = b" by (rule byte_chr [OF assms(2)])
  have "chr b \<noteq> quote" "chr b \<noteq> backslash" "chr b \<noteq> CHR 0x08" "chr b \<noteq> CHR 0x0C" "chr b \<noteq> CHR 0x0A" "chr b \<noteq> CHR 0x0D" "chr b \<noteq> CHR 0x09"
    using b assms(3) by (auto simp: byte_def)
  moreover have "\<not> b < 0x20" "\<not> b < 0x80" using assms(3) by (auto simp: word_less_nat_alt word_le_nat_alt)
  ultimately show ?thesis using assms(5) [of "pre @ [chr b]"] assms(1,4)
    by (simp add: escape_one_def Let_def b)
qed

lemma chunk_two:
  assumes "0x7F < cp" and "cp \<le> 0x7FF"
  shows "escape_one True (pre @ utf8 cp @ post) (length pre) = (output_unicode_escape cp, length (utf8 cp)) \<and> utf8 cp \<noteq> []"
proof -
  have lead: "drop_bit 6 cp < 0x20" using drop_bit_less [of cp 5 6] assms(2) by (simp add: word_less_nat_alt word_le_nat_alt)
  note l = lead_two [OF lead] and c = continuation_byte [OF and_3F_less [of cp]]
  have u: "utf8 cp = chr (0xC0 OR drop_bit 6 cp) # [chr (0x80 OR (cp AND 0x3F))]"
    using assms by (simp add: utf8_def encode_utf8_def not_le)
  have "continuation (pre @ [chr (0x80 OR (cp AND 0x3F))] @ post) (length pre) 1 (drop_bit 6 cp) = Some cp" for pre
    using c six_bits [of cp] by (simp add: byte_chr)
  with l show ?thesis using escape_multibyte [OF u, of "drop_bit 6 cp" post pre] by (simp add: u)
qed

lemma chunk_three:
  assumes "0x7FF < cp" and "cp \<le> 0xFFFF"
  shows "escape_one True (pre @ utf8 cp @ post) (length pre) = (output_unicode_escape cp, length (utf8 cp)) \<and> utf8 cp \<noteq> []"
proof -
  have lead: "drop_bit 12 cp < 0x10" using drop_bit_less [of cp 4 12] assms(2) by (simp add: word_less_nat_alt word_le_nat_alt)
  note l = lead_three [OF lead] and c = continuation_byte [OF and_3F_less [of cp]] continuation_byte [OF and_3F_less [of "drop_bit 6 cp"]]
  let ?cs = "[chr (0x80 OR (drop_bit 6 cp AND 0x3F)), chr (0x80 OR (cp AND 0x3F))]"
  have "\<not> cp \<le> 0x7F" using assms(1) by (simp add: word_less_nat_alt word_le_nat_alt)
  then have u: "utf8 cp = chr (0xE0 OR drop_bit 12 cp) # ?cs"
    using assms by (simp add: utf8_def encode_utf8_def not_le)
  have "continuation (pre @ ?cs @ post) (length pre) 2 (drop_bit 12 cp) = Some cp" for pre
    using c six_bits [of cp] six_bits [of "drop_bit 6 cp"] by (simp add: byte_chr numeral_2_eq_2 nth_append)
  moreover have "length ?cs = 2" "Suc 2 = (3::nat)" by simp_all
  note escape_multibyte [OF u, of "drop_bit 12 cp" post pre, unfolded this]
  ultimately show ?thesis using l by (simp add: u)
qed

lemma chunk_four:
  assumes "0xFFFF < cp" and "cp \<le> 0x10FFFF"
  shows "escape_one True (pre @ utf8 cp @ post) (length pre) = (output_unicode_escape cp, length (utf8 cp)) \<and> utf8 cp \<noteq> []"
proof -
  have lead: "drop_bit 18 cp < 8" using drop_bit_less [of cp 3 18] assms(2) by (simp add: word_less_nat_alt word_le_nat_alt)
  note l = lead_four [OF lead]
    and c = continuation_byte [OF and_3F_less [of cp]] continuation_byte [OF and_3F_less [of "drop_bit 6 cp"]] continuation_byte [OF and_3F_less [of "drop_bit 12 cp"]]
  let ?cs = "[chr (0x80 OR (drop_bit 12 cp AND 0x3F)), chr (0x80 OR (drop_bit 6 cp AND 0x3F)), chr (0x80 OR (cp AND 0x3F))]"
  have "\<not> cp \<le> 0x7F" "\<not> cp \<le> 0x7FF" using assms(1) by (simp_all add: word_less_nat_alt word_le_nat_alt)
  then have u: "utf8 cp = chr (0xF0 OR drop_bit 18 cp) # ?cs"
    using assms by (simp add: utf8_def encode_utf8_def not_le)
  have "continuation (pre @ ?cs @ post) (length pre) 3 (drop_bit 18 cp) = Some cp" for pre
    using c six_bits [of cp] six_bits [of "drop_bit 6 cp"] six_bits [of "drop_bit 12 cp"] by (simp add: byte_chr numeral_3_eq_3 nth_append)
  moreover have "length ?cs = 3" "Suc 3 = (4::nat)" by simp_all
  note escape_multibyte [OF u, of "drop_bit 18 cp" post pre, unfolded this]
  ultimately show ?thesis using l by (simp add: u)
qed

lemma chunk_ascii:
  assumes "byte c < 0x80 \<or> \<not> unicode"
  shows "\<exists>t. chunk unicode [c] t"
proof (cases "c \<in> fst ` set short_escapes")
  case True
  then obtain e where "(c, e) \<in> set short_escapes" by auto
  then show ?thesis using chunk_short by blast
next
  case False
  then have n: "c \<noteq> quote" "c \<noteq> backslash" "c \<notin> {CHR 0x08, CHR 0x0C, CHR 0x0A, CHR 0x0D, CHR 0x09}"
    by (simp_all add: short_escapes_def)
  show ?thesis
  proof (cases "byte c < 0x20")
    case True
    then show ?thesis using chunk_control [OF _ n(3)] by blast
  next
    case False
    then show ?thesis using chunk_plain [OF n(1,2) _ assms] by (auto simp: not_less)
  qed
qed

lemma chunk_scalar_value:
  assumes "scalar_value cp"
  shows "\<exists>t. chunk True (utf8 cp) t"
proof -
  consider "cp \<le> 0x7F" | "0x7F < cp" "cp \<le> 0x7FF" | "0x7FF < cp" "cp \<le> 0xFFFF" | "0xFFFF < cp" by fastforce
  then show ?thesis
  proof cases
    case 1
    then have "utf8 cp = [chr cp]" "byte (chr cp) < 0x80"
      by (simp_all add: utf8_def encode_utf8_def byte_chr word_le_nat_alt word_less_nat_alt)
    then show ?thesis using chunk_ascii [of "chr cp" True] by simp
  next
    case 2
    then show ?thesis using chunk_unicode [OF assms] chunk_two by blast
  next
    case 3
    then show ?thesis using chunk_unicode [OF assms] chunk_three by blast
  next
    case 4
    have "cp \<le> 0x10FFFF" using assms by (simp add: scalar_value_def)
    then show ?thesis using chunk_unicode [OF assms] chunk_four [OF 4] by blast
  qed
qed

section \<open>Strings\<close>

text \<open>The strings that the writer can represent: any string when it copies bytes, well-formed UTF-8 when it escapes.\<close>

definition valid_utf8 :: "string \<Rightarrow> bool" where
  "valid_utf8 s \<longleftrightarrow> (\<exists>cps. list_all scalar_value cps \<and> s = concat (map utf8 cps))"

definition writable :: "bool \<Rightarrow> string \<Rightarrow> bool" where
  "writable unicode s \<longleftrightarrow> \<not> unicode \<or> valid_utf8 s"

lemma writable_chunks:
  assumes "writable unicode s"
  obtains cs where "s = concat (map fst cs)" and "\<forall>(b, t)\<in>set cs. chunk unicode b t"
proof (cases unicode)
  case False
  have "\<exists>cs. s = concat (map fst cs) \<and> (\<forall>(b, t)\<in>set cs. chunk unicode b t)"
  proof (induction s)
    case Nil
    have "[] = concat (map fst ([] :: (string \<times> string) list))" by simp
    then show ?case by (metis empty_iff list.set(1))
  next
    case (Cons c s)
    then obtain cs where cs: "s = concat (map fst cs)" "\<forall>(b, t)\<in>set cs. chunk unicode b t" by blast
    obtain t where "chunk unicode [c] t" using chunk_ascii False by blast
    with cs have "c # s = concat (map fst (([c], t) # cs))" "\<forall>(b, t)\<in>set (([c], t) # cs). chunk unicode b t" by auto
    then show ?case by blast
  qed
  then show ?thesis using that by blast
next
  case True
  obtain cps where cps: "list_all scalar_value cps" "s = concat (map utf8 cps)" using assms True by (auto simp: writable_def valid_utf8_def)
  define f where "f cp = (SOME t. chunk True (utf8 cp) t)" for cp
  have f: "chunk True (utf8 cp) (f cp)" if "scalar_value cp" for cp unfolding f_def by (rule someI_ex [OF chunk_scalar_value [OF that]])
  show ?thesis
  proof (rule that)
    show "s = concat (map fst (map (\<lambda>cp. (utf8 cp, f cp)) cps))" using cps(2) by (simp add: comp_def)
    show "\<forall>(b, t)\<in>set (map (\<lambda>cp. (utf8 cp, f cp)) cps). chunk unicode b t" using cps(1) f True by (auto simp: list_all_iff)
  qed
qed

lemma escape_from_chunks:
  "\<forall>(b, t)\<in>set cs. chunk unicode b t \<Longrightarrow> escape_from unicode (pre @ concat (map fst cs)) (length pre) = concat (map snd cs)"
proof (induction cs arbitrary: pre)
  case Nil
  show ?case by (subst escape_from.simps) simp
next
  case (Cons c cs)
  obtain b t where c: "c = (b, t)" by fastforce
  have "chunk unicode b t" using Cons.prems c by simp
  then have one: "escape_one unicode (pre @ b @ concat (map fst cs)) (length pre) = (t, length b)" "b \<noteq> []" by (simp_all add: chunk_def)
  have "escape_from unicode ((pre @ b) @ concat (map fst cs)) (length (pre @ b)) = concat (map snd cs)"
    using Cons.IH [of "pre @ b"] Cons.prems by simp
  then show ?case using one by (subst escape_from.simps) (simp add: c)
qed

lemma string_loop_chunks:
  "\<forall>(b, t)\<in>set cs. chunk unicode b t \<Longrightarrow>
    string_loop (pre @ concat (map snd cs) @ quote # post) (length pre) res
    = Inr (res @ concat (map fst cs), length pre + length (concat (map snd cs)))"
proof (induction cs arbitrary: pre res)
  case Nil
  show ?case by (subst string_loop.simps) simp
next
  case (Cons c cs)
  obtain b t where c: "c = (b, t)" by fastforce
  have "chunk unicode b t" using Cons.prems c by simp
  then have "string_loop (pre @ t @ (concat (map snd cs) @ quote # post)) (length pre) res
    = string_loop (pre @ t @ (concat (map snd cs) @ quote # post)) (length pre + length t) (res @ b)"
    unfolding chunk_def by blast
  also have "\<dots> = string_loop ((pre @ t) @ concat (map snd cs) @ quote # post) (length (pre @ t)) (res @ b)" by simp
  also have "\<dots> = Inr ((res @ b) @ concat (map fst cs), length (pre @ t) + length (concat (map snd cs)))"
    using Cons.IH [of "pre @ t" "res @ b"] Cons.prems by simp
  finally show ?case by (simp add: c)
qed

lemma string_round_trip:
  assumes "writable (get_effective_escape_unicode P ctx) str"
  shows "parse_string (pre @ escape_string P ctx str @ post) (length pre)
    = Inr (str, length pre + length (escape_string P ctx str))"
proof -
  let ?u = "get_effective_escape_unicode P ctx"
  obtain cs where cs: "str = concat (map fst cs)" "\<forall>(b, t)\<in>set cs. chunk ?u b t" using writable_chunks [OF assms] .
  have e: "escape_string P ctx str = quote # concat (map snd cs) @ [quote]"
    using escape_from_chunks [OF cs(2), of "[]"] by (simp add: escape_string_def cs(1))
  have "string_loop ((pre @ [quote]) @ concat (map snd cs) @ quote # post) (length (pre @ [quote])) []
    = Inr (str, length pre + 1 + length (concat (map snd cs)))"
    using string_loop_chunks [OF cs(2), of "pre @ [quote]" post "[]"] by (simp add: cs(1))
  then show ?thesis by (simp add: e parse_string_def res_bind_def nth_append)
qed

end
