(* ===== verification/JsonLite_RoundTrip.thy ===== *)
theory JsonLite_RoundTrip
  imports JsonLite_Strings
begin

text \<open>
  The parser reads back what the writer writes: numbers, white space, and by induction whole
  documents, wherever they stand in a text.
\<close>

section \<open>Numbers\<close>

lemma res_bind_simps [simp]: "res_bind (Inr x) f = f x" "res_bind (Inl e) f = Inl e"
  by (simp_all add: res_bind_def)

lemma is_decimal_digit: "d < 10 \<Longrightarrow> is_decimal (char_of (48 + d :: nat)) \<and> (of_char (char_of (48 + d) :: char) :: nat) = 48 + d"
  by (simp add: is_decimal_def less_eq_char_def of_char_of)

lemma is_decimal_byte: "is_decimal c \<Longrightarrow> byte c < 0x80"
  by (simp add: is_decimal_def less_eq_char_def word_less_nat_alt unat_byte)

lemma c_isdigit_decimal: "is_decimal c \<Longrightarrow> c_isdigit c = Inr True"
  using is_decimal_byte [of c] by (simp add: c_isdigit_def not_le)

text \<open>A character that ends a number.\<close>

definition stops :: "string \<Rightarrow> bool" where
  "stops post \<longleftrightarrow> post = [] \<or> hd post \<in> {CHR '','', CHR '']'', CHR ''}'', newline}"

lemma c_isdigit_other: "c \<in> {CHR '','', CHR '']'', CHR ''}'', newline, CHR ''.'', CHR ''e'', CHR ''E'', CHR ''+'', CHR ''-''} \<Longrightarrow> c_isdigit c = Inr False"
  by (auto simp: c_isdigit_def is_decimal_def less_eq_char_def byte_def)

lemma scan_digits_all:
  assumes "list_all is_decimal ds" and "post = [] \<or> c_isdigit (hd post) = Inr False"
  shows "scan_digits (pre @ ds @ post) (length pre) = Inr (length pre + length ds)"
  using assms(1)
proof (induction ds arbitrary: pre)
  case Nil
  show ?case using assms(2) by (subst scan_digits.simps) (cases post; simp)
next
  case (Cons d ds)
  have "scan_digits ((pre @ [d]) @ ds @ post) (length (pre @ [d])) = Inr (length (pre @ [d]) + length ds)"
    using Cons.IH [of "pre @ [d]"] Cons.prems by simp
  then show ?case using Cons.prems by (subst scan_digits.simps) (simp add: c_isdigit_decimal)
qed

lemma digit_at_append: "digit_at (pre @ c # post) (length pre) = c_isdigit c" "digit_at pre (length pre) = Inr False"
  by (simp_all add: digit_at_def)

lemma decimal_digits_props:
  "decimal_digits n \<noteq> [] \<and> list_all is_decimal (decimal_digits n)
    \<and> (hd (decimal_digits n) = CHR ''0'' \<longrightarrow> decimal_digits n = ''0'')
    \<and> (\<forall>k. decimal_number (decimal_digits n) k = 10 ^ length (decimal_digits n) * k + n)"
proof (induction n rule: decimal_digits.induct)
  case (1 n)
  have app: "decimal_number (xs @ ys) k = decimal_number ys (decimal_number xs k)" for xs ys k
    by (induction xs arbitrary: k) simp_all
  show ?case
  proof (cases "n < 10")
    case True
    then have "decimal_digits n = [char_of (48 + n)]" by (subst decimal_digits.simps) simp
    moreover have "char_of (48 + n) = CHR ''0'' \<longrightarrow> n = 0"
    proof
      assume "char_of (48 + n) = CHR ''0''"
      then have "of_char (char_of (48 + n) :: char) = (48::nat)" by simp
      then show "n = 0" using is_decimal_digit [OF True] by simp
    qed
    ultimately show ?thesis using is_decimal_digit [OF True] by auto
  next
    case False
    note IH = 1 [OF False]
    have e: "decimal_digits n = decimal_digits (n div 10) @ [char_of (48 + n mod 10)]"
      using False by (subst decimal_digits.simps) simp
    have "hd (decimal_digits (n div 10)) \<noteq> CHR ''0''"
    proof
      assume "hd (decimal_digits (n div 10)) = CHR ''0''"
      then have "decimal_digits (n div 10) = ''0''" using IH by blast
      then have "decimal_number (decimal_digits (n div 10)) 0 = 0" by simp
      then show False using IH False by simp
    qed
    moreover have "n mod 10 < 10" by simp
    ultimately show ?thesis using IH is_decimal_digit [of "n mod 10"]
      unfolding e by (auto simp: app algebra_simps)
  qed
qed

text \<open>The numbers of the grammar: sign, integer part, fraction, exponent.\<close>

definition json_number :: "bool \<Rightarrow> string \<Rightarrow> string \<Rightarrow> string \<Rightarrow> bool" where
  "json_number negative ip fp ex \<longleftrightarrow> ip \<noteq> [] \<and> list_all is_decimal ip \<and> (hd ip = CHR ''0'' \<longrightarrow> ip = ''0'')
    \<and> (fp = [] \<or> (\<exists>ds. ds \<noteq> [] \<and> list_all is_decimal ds \<and> fp = CHR ''.'' # ds))
    \<and> (ex = [] \<or> (\<exists>e sign ds. e \<in> {CHR ''e'', CHR ''E''} \<and> sign \<in> {[], ''+'', ''-''} \<and> ds \<noteq> [] \<and> list_all is_decimal ds \<and> ex = e # sign @ ds))"

lemma scan_fraction_json:
  assumes "fp = [] \<or> (\<exists>ds. ds \<noteq> [] \<and> list_all is_decimal ds \<and> fp = CHR ''.'' # ds)"
    and "post = [] \<or> c_isdigit (hd post) = Inr False \<and> hd post \<noteq> CHR ''.''"
  shows "scan_fraction (pre @ fp @ post) (length pre) = Inr (length pre + length fp, fp \<noteq> [])"
proof (cases "fp = []")
  case True
  then show ?thesis using assms(2) by (cases post) (simp_all add: scan_fraction_def)
next
  case False
  then obtain d ds where ds: "list_all is_decimal (d # ds)" "fp = CHR ''.'' # d # ds" using assms(1) by (metis neq_Nil_conv)
  have "scan_digits ((pre @ ''.'') @ (d # ds) @ post) (length (pre @ ''.'')) = Inr (length (pre @ ''.'') + length (d # ds))"
    using assms(2) by (intro scan_digits_all [OF ds(1)]) auto
  moreover have "digit_at ((pre @ ''.'') @ d # ds @ post) (length (pre @ ''.'')) = Inr True"
    using ds(1) by (simp only: digit_at_append) (simp add: c_isdigit_decimal)
  ultimately show ?thesis by (simp add: scan_fraction_def ds(2) res_bind_def)
qed

lemma scan_exponent_json:
  assumes "ex = [] \<or> (\<exists>e sign ds. e \<in> {CHR ''e'', CHR ''E''} \<and> sign \<in> {[], ''+'', ''-''} \<and> ds \<noteq> [] \<and> list_all is_decimal ds \<and> ex = e # sign @ ds)"
    and "stops post"
  shows "scan_exponent (pre @ ex @ post) (length pre) = Inr (length pre + length ex, ex \<noteq> [])"
proof (cases "ex = []")
  case True
  then show ?thesis using assms(2) by (cases post) (auto simp: scan_exponent_def stops_def)
next
  case False
  then obtain e sign d ds where e: "e \<in> {CHR ''e'', CHR ''E''}" "sign \<in> {[], ''+'', ''-''}"
    "list_all is_decimal (d # ds)" "ex = e # sign @ d # ds"
    using assms(1) by (metis neq_Nil_conv)
  have d: "is_decimal d" "d \<noteq> CHR ''+''" "d \<noteq> CHR ''-''" using e(3) by (auto simp: is_decimal_def less_eq_char_def)
  have "post = [] \<or> c_isdigit (hd post) = Inr False" using assms(2) c_isdigit_other by (auto simp: stops_def)
  then have "scan_digits ((pre @ e # sign) @ (d # ds) @ post) (length (pre @ e # sign)) = Inr (length (pre @ e # sign) + length (d # ds))"
    by (rule scan_digits_all [OF e(3)])
  moreover have "digit_at ((pre @ e # sign) @ d # ds @ post) (length (pre @ e # sign)) = Inr True"
    using d(1) by (simp only: digit_at_append) (simp add: c_isdigit_decimal)
  ultimately show ?thesis using e(1,2) d(2,3)
    by (auto simp: scan_exponent_def e(4) res_bind_def Let_def nth_append)
qed

lemma parse_number_json:
  assumes j: "json_number negative ip fp ex" and post: "stops post"
  defines "t \<equiv> (if negative then ''-'' else []) @ ip @ fp @ ex"
  shows "parse_number nt P (pre @ t @ post) (length pre) =
    (case (if fp = [] \<and> ex = [] then int_from_chars t else None) of
       Some i \<Rightarrow> Inr (Json_int i, length pre + length t)
     | None \<Rightarrow> (case double_from_chars nt t of
           Some d \<Rightarrow> Inr (Json_double d, length pre + length t)
         | None \<Rightarrow> json_error ''JSON parse error: invalid number''))"
proof -
  obtain d ds where ip: "ip = d # ds" "is_decimal d" "list_all is_decimal ds" using j by (cases ip) (auto simp: json_number_def)
  have dd: "d \<noteq> CHR ''-''" "d \<noteq> CHR ''N''" "d \<noteq> CHR ''I''" using ip(2) by (auto simp: is_decimal_def less_eq_char_def)
  let ?s = "pre @ t @ post"
  let ?pre = "pre @ (if negative then ''-'' else [])"
  have s: "?s = ?pre @ ip @ (fp @ ex @ post)" by (simp add: t_def)
  have no: "substr ?s (length pre) 3 \<noteq> ''NaN''" "substr ?s (length pre) 8 \<noteq> ''Infinity''" "substr ?s (length pre) 9 \<noteq> ''-Infinity''"
    using dd by (auto simp: substr_def t_def ip(1))
  have stop: "post = [] \<or> c_isdigit (hd post) = Inr False \<and> hd post \<noteq> CHR ''.''"
    using post c_isdigit_other [of "hd post"] unfolding stops_def by auto
  have "ex = [] \<or> (\<exists>e r. e \<in> {CHR ''e'', CHR ''E''} \<and> ex = e # r)" using j unfolding json_number_def by blast
  then have e0: "ex @ post = [] \<or> c_isdigit (hd (ex @ post)) = Inr False \<and> hd (ex @ post) \<noteq> CHR ''.''"
  proof (elim disjE exE conjE)
    fix e r
    assume "e \<in> {CHR ''e'', CHR ''E''}" "ex = e # r"
    then show ?thesis using c_isdigit_other [of e] by auto
  qed (use stop in simp)
  have "fp = [] \<or> (\<exists>r. fp = CHR ''.'' # r)" using j unfolding json_number_def by blast
  then have f0: "fp @ ex @ post = [] \<or> c_isdigit (hd (fp @ ex @ post)) = Inr False"
  proof (elim disjE exE)
    fix r
    assume "fp = CHR ''.'' # r"
    then show ?thesis using c_isdigit_other [of "CHR ''.''"] by simp
  qed (use e0 in auto)
  have start: "?s ! length pre = CHR ''-'' \<longleftrightarrow> negative" using dd by (simp add: t_def ip(1) nth_append)
  have digit0: "digit_at ?s (length pre) = Inr (\<not> negative)"
    using digit_at_append(1) [of pre] c_isdigit_other ip(2) by (auto simp: t_def ip(1) c_isdigit_decimal)
  have digit1: "digit_at ?s (length ?pre) = Inr True"
    unfolding s ip(1) append_Cons digit_at_append using ip(2) by (rule c_isdigit_decimal)
  have first: "?s ! length ?pre = d" unfolding s by (simp only: nth_append_length ip(1) append_Cons)
  have zero: "digit_at ?s (length ?pre + 1) = Inr False" if "d = CHR ''0''"
  proof -
    have "ds = []" using that j by (simp add: json_number_def ip(1))
    then have eq: "?s = (?pre @ [d]) @ (fp @ ex @ post)" unfolding s ip(1) by simp
    show ?thesis
    proof (cases "fp @ ex @ post")
      case Nil
      then show ?thesis unfolding eq using digit_at_append(2) [of "?pre @ [d]"] by simp
    next
      case (Cons c r)
      then show ?thesis unfolding eq using digit_at_append(1) [of "?pre @ [d]" c r] f0 by simp
    qed
  qed
  have scan: "scan_digits ?s (length ?pre) = Inr (length (?pre @ ip))"
    unfolding s using scan_digits_all [OF _ f0, of ip ?pre] ip by simp
  have fr: "scan_fraction ?s (length (?pre @ ip)) = Inr (length (?pre @ ip @ fp), fp \<noteq> [])"
    unfolding s using scan_fraction_json [OF _ e0, of fp "?pre @ ip"] j by (simp add: json_number_def)
  have exp: "scan_exponent ?s (length (?pre @ ip @ fp)) = Inr (length pre + length t, ex \<noteq> [])"
    unfolding s using scan_exponent_json [OF _ post, of ex "?pre @ ip @ fp"] j by (simp add: json_number_def t_def)
  have len: "length pre < length ?s" by (simp add: t_def ip(1))
  have tok: "substr ?s (length pre) (length pre + length t - length pre) = t" by (simp add: substr_def)
  have pos: "(if negative then length pre + 1 else length pre) = length ?pre" by simp
  have z: "(if d = CHR ''0'' then digit_at ?s (length ?pre + 1) else Inr False) = Inr False" using zero by simp
  have d: "(length pre < length ?s \<and> (\<not> negative \<or> negative)) = True" using len by simp
  have sign: "(if negative then digit_at ?s (length ?pre) else Inr True) = Inr True" unfolding digit1 by simp
  have scanned: "scan_number ?s (length pre) = Inr (length pre + length t, fp \<noteq> [] \<or> ex \<noteq> [])"
    unfolding scan_number_def
    by (simp only: if_False digit0 res_bind_simps start d pos sign not_True_eq_False Let_def first z scan fr exp prod.case)
  show ?thesis
    unfolding parse_number_def by (simp only: no if_False scanned res_bind_simps prod.case Let_def tok de_Morgan_disj not_not)
qed

lemma int_text_number:
  "\<exists>ip. json_number (i < 0) ip [] [] \<and> int_text i = (if i < 0 then ''-'' else []) @ ip @ [] @ []"
proof -
  have "json_number (i < 0) (decimal_digits (nat \<bar>i\<bar>)) [] []" using decimal_digits_props [of "nat \<bar>i\<bar>"] by (simp add: json_number_def)
  then show ?thesis by (intro exI [of _ "decimal_digits (nat \<bar>i\<bar>)"]) (simp add: int_text_def)
qed

lemma int_from_chars_text:
  assumes "- (2 ^ 63) \<le> i" and "i < 2 ^ 63"
  shows "int_from_chars (int_text i) = Some (word_of_int i)"
proof -
  have d: "decimal_number (decimal_digits n) 0 = n" for n using decimal_digits_props [of n] by simp
  have h: "decimal_digits n \<noteq> [] \<and> hd (decimal_digits n) \<noteq> CHR ''-''" for n
    using decimal_digits_props [of n] by (cases "decimal_digits n") (auto simp: is_decimal_def less_eq_char_def)
  show ?thesis using assms h [of "nat i"] by (auto simp: int_from_chars_def int_text_def d)
qed

lemma parse_number_int:
  assumes "- (2 ^ 63) \<le> i" and "i < 2 ^ 63" and "stops post"
  shows "parse_number nt P (pre @ int_text i @ post) (length pre) = Inr (Json_int (word_of_int i), length pre + length (int_text i))"
proof -
  obtain ip where ip: "json_number (i < 0) ip [] []" "int_text i = (if i < 0 then ''-'' else []) @ ip @ [] @ []"
    using int_text_number by blast
  from parse_number_json [OF ip(1) assms(3), of nt P pre] show ?thesis
    unfolding ip(2) [symmetric] by (simp add: int_from_chars_text [OF assms(1,2)])
qed

section \<open>White space\<close>

lemma skip_whitespace_all:
  assumes "list_all c_isspace ws" and "post = [] \<or> \<not> c_isspace (hd post) \<and> hd post \<noteq> CHR ''/''"
  shows "skip_whitespace comments (pre @ ws @ post) (length pre) = length pre + length ws"
  using assms(1)
proof (induction ws arbitrary: pre)
  case Nil
  show ?case using assms(2) by (subst skip_whitespace.simps) (cases post; simp)
next
  case (Cons w ws)
  have "skip_whitespace comments ((pre @ [w]) @ ws @ post) (length (pre @ [w])) = length (pre @ [w]) + length ws"
    using Cons.IH [of "pre @ [w]"] Cons.prems by simp
  then show ?case using Cons.prems by (subst skip_whitespace.simps) simp
qed

lemma no_whitespace:
  "post = [] \<or> \<not> c_isspace (hd post) \<and> hd post \<noteq> CHR ''/'' \<Longrightarrow> skip_whitespace comments (pre @ post) (length pre) = length pre"
  using skip_whitespace_all [of "[]" post comments pre] by simp

section \<open>Documents\<close>

text \<open>The check of \<open>dump_scalar\<close> for a whole number.\<close>

definition whole :: "rat \<Rightarrow> bool" where
  "whole r \<longleftrightarrow> \<bar>frac_part r\<bar> < double_epsilon \<and> int_part r \<ge> - whole_limit \<and> int_part r \<le> whole_limit"

text \<open>
  What a value becomes when it is written and read again: a whole \<open>double\<close> an integer, one without a
  text of its own \<open>null\<close>, any other the \<open>double\<close> that its text reads as.
\<close>

definition written_double :: "number_text \<Rightarrow> json_policy \<Rightarrow> double \<Rightarrow> json" where
  "written_double nt P d = (case d of
      Finite r \<Rightarrow> if whole r then Json_int (word_of_int (int_part r))
        else Json_double (the (double_from_chars nt (dump_double nt P (Some (from_policy P)) d)))
    | _ \<Rightarrow> if allow_nan_inf P then Json_double d else Json_null)"

fun written :: "number_text \<Rightarrow> json_policy \<Rightarrow> json \<Rightarrow> json" where
  "written nt P (Json_double d) = written_double nt P d"
| "written nt P (Json_array arr) = Json_array (map (written nt P) arr)"
| "written nt P (Json_object obj) = Json_object (map (\<lambda>(k, v). (k, written nt P v)) obj)"
| "written nt P v = v"

text \<open>A \<open>double\<close> whose text is a number with a fraction or an exponent, which has a \<open>double\<close>.\<close>

definition readable_double :: "number_text \<Rightarrow> json_policy \<Rightarrow> double \<Rightarrow> bool" where
  "readable_double nt P d \<longleftrightarrow> (case d of
      Finite r \<Rightarrow> whole r \<or> (\<exists>negative ip fp ex. json_number negative ip fp ex \<and> (fp \<noteq> [] \<or> ex \<noteq> [])
        \<and> dump_double nt P (Some (from_policy P)) d = (if negative then ''-'' else []) @ ip @ fp @ ex
        \<and> double_from_chars nt (dump_double nt P (Some (from_policy P)) d) \<noteq> None)
    | _ \<Rightarrow> True)"

text \<open>
  A value that can be written so that it is read back: its strings are text, its \<open>double\<close>s are
  readable, and its objects are maps.
\<close>

fun json_representable :: "number_text \<Rightarrow> json_policy \<Rightarrow> json \<Rightarrow> bool" where
  "json_representable nt P (Json_double d) \<longleftrightarrow> readable_double nt P d"
| "json_representable nt P (Json_string s) \<longleftrightarrow> writable (escape_unicode P) s"
| "json_representable nt P (Json_array arr) \<longleftrightarrow> (\<forall>v\<in>set arr. json_representable nt P v)"
| "json_representable nt P (Json_object obj) \<longleftrightarrow> sorted_wrt (<) (map fst obj)
     \<and> (\<forall>(k, v)\<in>set obj. writable (escape_unicode P) k \<and> json_representable nt P v)"
| "json_representable nt P v \<longleftrightarrow> True"

text \<open>The depth of arrays and objects inside each other.\<close>

fun nesting :: "json \<Rightarrow> nat" where
  "nesting (Json_array arr) = Suc (Max (set (0 # map nesting arr)))"
| "nesting (Json_object obj) = Suc (Max (set (0 # map (\<lambda>(k, v). nesting v) obj)))"
| "nesting v = 0"

lemma escape_unicode_scope: "get_effective_escape_unicode P (Some (from_policy P)) = escape_unicode P"
  by (simp add: get_effective_escape_unicode_def from_policy_def)

lemma allow_nan_scope: "get_effective_allow_nan_inf P (Some (from_policy P)) = allow_nan_inf P"
  by (simp add: get_effective_allow_nan_inf_def from_policy_def)

lemma substr_append: "substr (pre @ t) (length pre) n = take n t"
  by (simp add: substr_def)

definition starts :: "string \<Rightarrow> bool" where
  "starts t \<longleftrightarrow> t \<noteq> [] \<and> \<not> c_isspace (hd t) \<and> hd t \<noteq> CHR ''/'' \<and> hd t \<noteq> CHR '']''"

lemma parse_value_at:
  assumes "starts t" and "s = pre @ t @ post"
  shows "skip_whitespace comments s (length pre) = length pre" and "length pre < length s" and "s ! length pre = hd t"
  using no_whitespace [of "t @ post" comments pre] assms by (auto simp: starts_def nth_append hd_conv_nth)

lemma parse_value_number:
  assumes "is_decimal (hd t) \<or> hd t = CHR ''-''" and "t \<noteq> []" and s: "s = pre @ t @ post"
  shows "parse_value (Suc fuel) nt Q s (length pre) depth = Some (parse_number nt Q s (length pre))"
proof -
  obtain c t' where t: "t = c # t'" using assms(2) by (cases t) auto
  have c: "is_decimal c \<or> c = CHR ''-''" using assms(1) t by simp
  have ne: "c \<noteq> CHR ''{''" "c \<noteq> CHR ''[''" "c \<noteq> quote" "c \<noteq> CHR ''t''" "c \<noteq> CHR ''f''" "c \<noteq> CHR ''n''" "\<not> c_isspace c" "c \<noteq> CHR ''/''" "c \<noteq> CHR '']''"
    using c by (auto simp: is_decimal_def less_eq_char_def c_isspace_def)
  then have "starts t" by (simp add: starts_def t)
  note at = parse_value_at [OF this s]
  have "substr s (length pre) 4 \<noteq> ''true''" "substr s (length pre) 5 \<noteq> ''false''" "substr s (length pre) 4 \<noteq> ''null''"
    unfolding s substr_append t using ne by simp_all
  moreover have "c_isdigit c = Inr (is_decimal c)" using c c_isdigit_decimal c_isdigit_other [of c] by (auto simp: is_decimal_def less_eq_char_def)
  moreover have "hd t = c" by (simp add: t)
  ultimately show ?thesis using at ne c by (elim disjE) (simp_all add: Let_def)
qed

lemma parse_value_int:
  assumes "- (2 ^ 63) \<le> i" and "i < 2 ^ 63" and "stops post" and s: "s = pre @ int_text i @ post"
  shows "parse_value (Suc fuel) nt Q s (length pre) depth = Some (Inr (Json_int (word_of_int i), length pre + length (int_text i)))"
proof -
  have "is_decimal (hd (int_text i)) \<or> hd (int_text i) = CHR ''-''" "int_text i \<noteq> []"
    using decimal_digits_props [of "nat i"] by (auto simp: int_text_def list_all_iff)
  from parse_value_number [OF this s] show ?thesis using parse_number_int [OF assms(1-3)] by (simp add: s)
qed

lemma parse_value_fraction:
  assumes "json_number negative ip fp ex" and "fp \<noteq> [] \<or> ex \<noteq> []" and t: "t = (if negative then ''-'' else []) @ ip @ fp @ ex"
    and "double_from_chars nt t = Some d" and "stops post" and s: "s = pre @ t @ post"
  shows "parse_value (Suc fuel) nt Q s (length pre) depth = Some (Inr (Json_double d, length pre + length t))"
proof -
  have "is_decimal (hd t) \<or> hd t = CHR ''-''" "t \<noteq> []" using assms(1) unfolding t by (auto simp: json_number_def list_all_iff)
  from parse_value_number [OF this s] show ?thesis
    using parse_number_json [OF assms(1,5), where nt = nt and P = Q and pre = pre] assms(2,4) by (auto simp: s t)
qed

lemma parse_value_literal:
  assumes s: "s = pre @ t @ post"
  shows "t = ''null'' \<Longrightarrow> parse_value (Suc fuel) nt Q s (length pre) depth = Some (Inr (Json_null, length pre + length t))"
    and "t = ''true'' \<Longrightarrow> parse_value (Suc fuel) nt Q s (length pre) depth = Some (Inr (Json_bool True, length pre + length t))"
    and "t = ''false'' \<Longrightarrow> parse_value (Suc fuel) nt Q s (length pre) depth = Some (Inr (Json_bool False, length pre + length t))"
    and "t = ''NaN'' \<Longrightarrow> allow_nan_inf Q \<Longrightarrow> parse_value (Suc fuel) nt Q s (length pre) depth = Some (Inr (Json_double NaN, length pre + length t))"
    and "t = ''Infinity'' \<Longrightarrow> allow_nan_inf Q \<Longrightarrow>
      parse_value (Suc fuel) nt Q s (length pre) depth = Some (Inr (Json_double (Infinite False), length pre + length t))"
    and "t = ''-Infinity'' \<Longrightarrow> allow_nan_inf Q \<Longrightarrow>
      parse_value (Suc fuel) nt Q s (length pre) depth = Some (Inr (Json_double (Infinite True), length pre + length t))"
proof -
  have at: "skip_whitespace (allow_comments Q) s (length pre) = length pre" "length pre < length s" "s ! length pre = hd t"
    if "t \<in> {''null'', ''true'', ''false'', ''NaN'', ''Infinity'', ''-Infinity''}"
    using parse_value_at [OF _ s] that by (auto simp: starts_def c_isspace_def)
  have sub: "substr s (length pre) n = take n (t @ post)" for n by (simp add: s substr_append)
  have digit: "c_isdigit (hd t) = Inr False" if "t \<in> {''NaN'', ''Infinity'', ''-Infinity''}"
    using that by (auto simp: c_isdigit_def is_decimal_def less_eq_char_def byte_def)
  show "t = ''null'' \<Longrightarrow> parse_value (Suc fuel) nt Q s (length pre) depth = Some (Inr (Json_null, length pre + length t))"
    using at sub by (simp add: Let_def)
  show "t = ''true'' \<Longrightarrow> parse_value (Suc fuel) nt Q s (length pre) depth = Some (Inr (Json_bool True, length pre + length t))"
    using at sub by (simp add: Let_def)
  show "t = ''false'' \<Longrightarrow> parse_value (Suc fuel) nt Q s (length pre) depth = Some (Inr (Json_bool False, length pre + length t))"
    using at sub by (simp add: Let_def)
  show "t = ''NaN'' \<Longrightarrow> allow_nan_inf Q \<Longrightarrow> parse_value (Suc fuel) nt Q s (length pre) depth = Some (Inr (Json_double NaN, length pre + length t))"
    using at sub digit by (simp add: Let_def parse_number_def)
  show "t = ''Infinity'' \<Longrightarrow> allow_nan_inf Q \<Longrightarrow>
      parse_value (Suc fuel) nt Q s (length pre) depth = Some (Inr (Json_double (Infinite False), length pre + length t))"
    using at sub digit by (simp add: Let_def parse_number_def)
  show "t = ''-Infinity'' \<Longrightarrow> allow_nan_inf Q \<Longrightarrow>
      parse_value (Suc fuel) nt Q s (length pre) depth = Some (Inr (Json_double (Infinite True), length pre + length t))"
    using at sub digit by (simp add: Let_def parse_number_def)
qed

lemma parse_value_string:
  assumes "writable (get_effective_escape_unicode P ctx) str" and s: "s = pre @ escape_string P ctx str @ post"
  shows "parse_value (Suc fuel) nt Q s (length pre) depth = Some (Inr (Json_string str, length pre + length (escape_string P ctx str)))"
proof -
  have st: "starts (escape_string P ctx str)" "hd (escape_string P ctx str) = quote" by (simp_all add: starts_def escape_string_def c_isspace_def)
  show ?thesis using parse_value_at [OF st(1) s] string_round_trip [OF assms(1), of pre post] by (simp add: Let_def st(2) s)
qed

lemma parse_value_double:
  assumes "readable_double nt P d" and "allow_nan_inf P \<longrightarrow> allow_nan_inf Q" and "stops post"
    and s: "s = pre @ dump_double nt P (Some (from_policy P)) d @ post"
  shows "parse_value (Suc fuel) nt Q s (length pre) depth
    = Some (Inr (written_double nt P d, length pre + length (dump_double nt P (Some (from_policy P)) d)))"
proof (cases d)
  case NaN
  then show ?thesis using parse_value_literal(1,4) [OF s, where fuel = fuel and nt = nt and Q = Q and depth = depth] assms(2)
    by (simp add: written_double_def dump_double_def allow_nan_scope)
next
  case (Infinite negative)
  then show ?thesis using parse_value_literal(1,5,6) [OF s, where fuel = fuel and nt = nt and Q = Q and depth = depth] assms(2)
    by (simp add: written_double_def dump_double_def allow_nan_scope)
next
  case (Finite r)
  show ?thesis
  proof (cases "whole r")
    case True
    then have t: "dump_double nt P (Some (from_policy P)) d = int_text (int_part r)"
      by (simp add: dump_double_def Finite whole_def)
    have "- (2 ^ 63) \<le> int_part r" "int_part r < 2 ^ 63" using True by (simp_all add: whole_def whole_limit_def)
    then show ?thesis using parse_value_int [OF _ _ assms(3) s [unfolded t]] True unfolding t
      by (simp add: written_double_def Finite)
  next
    case False
    let ?t = "dump_double nt P (Some (from_policy P)) (Finite r)"
    obtain negative ip fp ex x where j: "json_number negative ip fp ex" "fp \<noteq> [] \<or> ex \<noteq> []" "?t = (if negative then ''-'' else []) @ ip @ fp @ ex"
      "double_from_chars nt ?t = Some x"
      using assms(1) False unfolding readable_double_def Finite by auto
    show ?thesis using parse_value_fraction [OF j assms(3) s [unfolded Finite]] False j(4)
      by (simp add: written_double_def Finite)
  qed
qed

section \<open>Arrays and objects\<close>

lemma run_bind_simps [simp]: "run_bind (Some (Inr x)) f = f x" "run_bind (Some (Inl e)) f = Some (Inl e)" "run_bind None f = None"
  by (simp_all add: run_bind_def)

lemma res_bind_Inr: "res_bind m f = Inr y \<longleftrightarrow> (\<exists>x. m = Inr x \<and> f x = Inr y)"
  by (cases m) simp_all

text \<open>White space between the parts of a document, of which a non-empty one starts a new line.\<close>

definition gap :: "string \<Rightarrow> bool" where
  "gap g \<longleftrightarrow> list_all c_isspace g \<and> (g = [] \<or> hd g = newline)"

lemma gap_indent: "gap (if pretty then newline # output_indent indent else [])"
  by (simp add: gap_def output_indent_def list_all_iff c_isspace_def)

lemma skip_to:
  assumes "list_all c_isspace g" and "\<not> c_isspace c" and "c \<noteq> CHR ''/''" and "s = pre @ g @ c # post" and "p = length pre"
  shows "skip_whitespace comments s p = length pre + length g" and "length pre + length g < length s" and "s ! (length pre + length g) = c"
  using skip_whitespace_all [OF assms(1), of "c # post" comments pre] assms(2-5) by (simp_all add: nth_append)

lemma stops_gap: "gap g \<Longrightarrow> c \<in> {CHR '','', CHR '']'', CHR ''}''} \<Longrightarrow> stops (g @ c # post)"
  by (cases g) (auto simp: gap_def stops_def)

text \<open>A parser of values that reads back what is written for \<open>v\<close>, in at most \<open>N\<close> characters.\<close>

definition json_reads :: "value_parser \<Rightarrow> nat \<Rightarrow> string \<Rightarrow> nat \<Rightarrow> string \<Rightarrow> json \<Rightarrow> bool" where
  "json_reads pv depth s N t w \<longleftrightarrow> (\<forall>pre post. stops post \<longrightarrow> s = pre @ t @ post \<longrightarrow> length t < N
     \<longrightarrow> pv (length pre) depth = Some (Inr (w, length pre + length t)))"

lemma readsD: "json_reads pv depth s N t w \<Longrightarrow> stops post \<Longrightarrow> s = pre @ t @ post \<Longrightarrow> length t < N \<Longrightarrow> p = length pre
    \<Longrightarrow> pv p depth = Some (Inr (w, length pre + length t))"
  by (simp add: json_reads_def)

lemma array_loop_reads:
  assumes "gap g"
    and "\<forall>w\<in>set (v # vs). \<forall>t. dump nt P ctx pretty (ind + indent_step P) w = Inr t \<longrightarrow> starts t \<and> json_reads pv (depth + 1) s N t (f w)"
    and "dump nt P ctx pretty (ind + indent_step P) v = Inr t" and "dump_elements nt P ctx pretty ind False vs = Inr out"
    and "s = pre @ t @ out @ g @ CHR '']'' # post" and "length t + length out < N" and "length vs < fuel"
  shows "array_loop fuel pv comments s (length pre) depth arr
    = Some (Inr (arr @ map f (v # vs), length pre + length t + length out + length g + 1))"
  using assms(2-)
proof (induction vs arbitrary: v t pre arr fuel out)
  case Nil
  then obtain n where fuel: "fuel = Suc n" by (cases fuel) auto
  have out: "out = []" using Nil.prems(3) by simp
  have s: "s = pre @ t @ (g @ CHR '']'' # post)" using Nil.prems(4) out by simp
  have r: "starts t" "json_reads pv (depth + 1) s N t (f v)" using Nil.prems(1,2) by auto
  have one: "pv (length pre) (depth + 1) = Some (Inr (f v, length pre + length t))"
    by (rule readsD [OF r(2) stops_gap s]) (use assms(1) Nil.prems(5) in simp_all)
  have "s = (pre @ t) @ g @ CHR '']'' # post" using s by simp
  from skip_to [OF _ _ _ this] one parse_value_at [OF r(1) s] assms(1) show ?case
    by (simp add: fuel out gap_def c_isspace_def Let_def)
next
  case (Cons v' vs)
  then obtain n where fuel: "fuel = Suc n" "length vs < n" by (cases fuel) auto
  obtain t' out' where t': "dump nt P ctx pretty (ind + indent_step P) v' = Inr t'" "dump_elements nt P ctx pretty ind False vs = Inr out'"
    and out: "out = before_element P pretty ind False @ t' @ out'"
    using Cons.prems(3) by (auto simp: res_bind_Inr)
  obtain ws where ws: "before_element P pretty ind False = CHR '','' # ws" "list_all c_isspace ws"
    using gap_indent [of pretty "ind + indent_step P"] by (simp add: before_element_def gap_def)
  let ?post = "t' @ out' @ g @ CHR '']'' # post"
  have s: "s = pre @ t @ (CHR '','' # ws @ ?post)" using Cons.prems(4) by (simp add: out ws)
  have r: "starts t" "json_reads pv (depth + 1) s N t (f v)" using Cons.prems(1,2) by auto
  have r': "starts t'" using Cons.prems(1) t'(1) by simp
  have one: "pv (length pre) (depth + 1) = Some (Inr (f v, length pre + length t))"
    by (rule readsD [OF r(2) _ s]) (use Cons.prems(5) in \<open>simp_all add: stops_def\<close>)
  have s1: "s = (pre @ t) @ [] @ CHR '','' # ws @ ?post" using s by simp
  have s2: "s = (pre @ t @ [CHR '','']) @ ws @ ?post" using s by simp
  have s3: "s = (pre @ t @ CHR '','' # ws) @ t' @ out' @ g @ CHR '']'' # post" using s by simp
  have "skip_whitespace comments s (length pre + length t + 1) = length (pre @ t @ CHR '','' # ws)"
    using skip_whitespace_all [OF ws(2), of ?post comments "pre @ t @ [CHR '','']"] r' by (simp add: s2 starts_def)
  moreover have "array_loop n pv comments s (length (pre @ t @ CHR '','' # ws)) depth (arr @ [f v])
      = Some (Inr ((arr @ [f v]) @ map f (v' # vs), length (pre @ t @ CHR '','' # ws) + length t' + length out' + length g + 1))"
    by (rule Cons.IH [OF _ t' s3]) (use Cons.prems(1,5) fuel(2) in \<open>simp_all add: out ws\<close>)
  ultimately show ?case
    using one skip_to [OF _ _ _ s1] parse_value_at [OF r(1) s]
    by (simp add: fuel(1) out ws(1) c_isspace_def Let_def)
qed


lemma object_assign_snoc: "\<forall>k'\<in>set (map fst obj). k' < k \<Longrightarrow> object_assign k v obj = obj @ [(k, v)]"
  by (induction obj) auto

abbreviation colon :: "bool \<Rightarrow> string" where
  "colon pretty \<equiv> (if pretty then '' : '' else '':'')"

text \<open>One turn of the loop up to the value.\<close>

lemma object_loop_entry:
  assumes "list_all c_isspace ws" and "writable (escape_unicode P) k" and "starts t"
    and s: "s = pre @ ws @ escape_string P (Some (from_policy P)) k @ colon pretty @ t @ rest"
    and pv: "pv (length (pre @ ws @ escape_string P (Some (from_policy P)) k @ colon pretty)) (depth + 1) = Some (Inr (v, p))"
  shows "object_loop (Suc n) pv comments s (length pre) depth obj =
    (let obj = object_assign k v obj; pos = skip_whitespace comments s p in
     if \<not> pos < length s then Some (json_error ''JSON parse error: unterminated object'')
     else if s ! pos = CHR ''}'' then Some (Inr (obj, pos + 1))
     else if s ! pos \<noteq> CHR '','' then Some (json_error ''JSON parse error: expected ',' or '}' in object'')
     else object_loop n pv comments s (pos + 1) depth obj)"
proof -
  let ?k = "escape_string P (Some (from_policy P)) k"
  obtain k' where k': "?k = quote # k'" by (simp add: escape_string_def)
  have len: "length pre < length s" using s k' by simp
  have s1: "s = pre @ ws @ quote # (k' @ colon pretty @ t @ rest)" using s k' by simp
  have a1: "skip_whitespace comments s (length pre) = length (pre @ ws)" "length (pre @ ws) < length s" "s ! length (pre @ ws) = quote"
    using skip_to [OF assms(1) _ _ s1] by (simp_all add: c_isspace_def)
  have s2: "s = (pre @ ws) @ ?k @ (colon pretty @ t @ rest)" using s by simp
  have "parse_string s (length (pre @ ws)) = Inr (k, length (pre @ ws) + length ?k)"
    unfolding s2 by (rule string_round_trip) (use assms(2) in \<open>simp add: escape_unicode_scope\<close>)
  then have a2: "parse_string s (length (pre @ ws)) = Inr (k, length (pre @ ws @ ?k))" by simp
  obtain w1 w2 where w: "colon pretty = w1 @ CHR '':'' # w2" "list_all c_isspace w1" "list_all c_isspace w2"
  proof (cases pretty)
    case True
    then show ?thesis using that [of "'' ''" "'' ''"] by (simp add: c_isspace_def)
  next
    case False
    then show ?thesis using that [of "[]" "[]"] by simp
  qed
  have s3: "s = (pre @ ws @ ?k) @ w1 @ CHR '':'' # (w2 @ t @ rest)" using s w(1) by simp
  have a3: "skip_whitespace comments s (length (pre @ ws @ ?k)) = length (pre @ ws @ ?k @ w1)"
    "length (pre @ ws @ ?k @ w1) < length s" "s ! length (pre @ ws @ ?k @ w1) = CHR '':''"
    using skip_to [OF w(2) _ _ s3] by (simp_all add: c_isspace_def add.assoc)
  have s4: "s = (pre @ ws @ ?k @ w1 @ '':'') @ w2 @ t @ rest" using s w(1) by simp
  have "skip_whitespace comments s (length (pre @ ws @ ?k @ w1 @ '':'')) = length (pre @ ws @ ?k @ w1 @ '':'') + length w2"
    unfolding s4 by (rule skip_whitespace_all [OF w(3)]) (use assms(3) in \<open>auto simp: starts_def\<close>)
  then have a4: "skip_whitespace comments s (length (pre @ ws @ ?k @ w1) + 1) = length (pre @ ws @ ?k @ colon pretty)" using w(1) by simp
  show ?thesis using len a1 a2 a3 a4 pv by (simp add: Let_def del: length_append append_assoc)
qed


lemma object_loop_reads:
  assumes g: "gap g" and ctx: "ctx = Some (from_policy P)"
    and "\<forall>(l, w)\<in>set ((k, v) # kvs). writable (escape_unicode P) l \<and>
      (\<forall>t. dump nt P ctx pretty (ind + indent_step P) w = Inr t \<longrightarrow> starts t \<and> json_reads pv (depth + 1) s N t (f w))"
    and "dump nt P ctx pretty (ind + indent_step P) v = Inr t" and "dump_entries nt P ctx pretty ind False kvs = Inr out"
    and "s = pre @ ws @ escape_string P ctx k @ colon pretty @ t @ out @ g @ CHR ''}'' # post" and "list_all c_isspace ws"
    and "length t + length out < N" and "length kvs < fuel"
    and "sorted_wrt (<) (map fst obj @ map fst ((k, v) # kvs))"
  shows "object_loop fuel pv comments s (length pre) depth obj
    = Some (Inr (obj @ map (\<lambda>(l, w). (l, f w)) ((k, v) # kvs),
        length pre + length ws + length (escape_string P ctx k) + length (colon pretty) + length t + length out + length g + 1))"
  using assms(3-)
proof (induction kvs arbitrary: k v t pre ws obj fuel out)
  case Nil
  then obtain n where fuel: "fuel = Suc n" by (cases fuel) auto
  have out: "out = []" using Nil.prems(3) by simp
  let ?pre = "pre @ ws @ escape_string P ctx k @ colon pretty"
  have s: "s = ?pre @ t @ (g @ CHR ''}'' # post)" using Nil.prems(4) out by simp
  have r: "starts t" "json_reads pv (depth + 1) s N t (f v)" "writable (escape_unicode P) k" using Nil.prems(1,2) by auto
  have one: "pv (length ?pre) (depth + 1) = Some (Inr (f v, length ?pre + length t))"
    by (rule readsD [OF r(2) stops_gap s]) (use g Nil.prems(6) in simp_all)
  have assign: "object_assign k (f v) obj = obj @ [(k, f v)]"
    by (rule object_assign_snoc) (use Nil.prems(8) in \<open>simp add: sorted_wrt_append\<close>)
  have s1: "s = (?pre @ t) @ g @ CHR ''}'' # post" using s by simp
  have g': "list_all c_isspace g" using g by (simp add: gap_def)
  have a: "skip_whitespace comments s (length ?pre + length t) = length ?pre + length t + length g"
    "length ?pre + length t + length g < length s" "s ! (length ?pre + length t + length g) = CHR ''}''"
    using skip_to [OF g' _ _ s1] by (simp_all add: c_isspace_def add.assoc)
  have "object_loop fuel pv comments s (length pre) depth obj = Some (Inr (obj @ [(k, f v)], length ?pre + length t + length g + 1))"
    unfolding fuel using object_loop_entry [OF Nil.prems(5) r(3,1), of s pre pretty "g @ CHR ''}'' # post" pv depth "f v" "length ?pre + length t" n comments obj]
      s one a by (simp add: assign Let_def ctx del: length_append)
  then show ?case by (simp add: out add.assoc)
next
  case (Cons kv kvs)
  obtain k' v' where kv: "kv = (k', v')" by fastforce
  obtain n where fuel: "fuel = Suc n" "length kvs < n" using Cons.prems(7) by (cases fuel) auto
  obtain t' out' where t': "dump nt P ctx pretty (ind + indent_step P) v' = Inr t'" "dump_entries nt P ctx pretty ind False kvs = Inr out'"
    and out: "out = before_element P pretty ind False @ escape_string P ctx k' @ colon pretty @ t' @ out'"
    using Cons.prems(3) by (auto simp: res_bind_Inr kv)
  obtain ws' where ws': "before_element P pretty ind False = CHR '','' # ws'" "list_all c_isspace ws'"
    using gap_indent [of pretty "ind + indent_step P"] by (simp add: before_element_def gap_def)
  let ?pre = "pre @ ws @ escape_string P ctx k @ colon pretty"
  let ?post = "ws' @ escape_string P ctx k' @ colon pretty @ t' @ out' @ g @ CHR ''}'' # post"
  have s: "s = ?pre @ t @ (CHR '','' # ?post)" using Cons.prems(4) by (simp add: out ws')
  have r: "starts t" "json_reads pv (depth + 1) s N t (f v)" "writable (escape_unicode P) k" using Cons.prems(1,2) by auto
  have one: "pv (length ?pre) (depth + 1) = Some (Inr (f v, length ?pre + length t))"
    by (rule readsD [OF r(2) _ s]) (use Cons.prems(6) in \<open>simp_all add: stops_def\<close>)
  have assign: "object_assign k (f v) obj = obj @ [(k, f v)]"
    by (rule object_assign_snoc) (use Cons.prems(8) in \<open>simp add: sorted_wrt_append\<close>)
  have s1: "s = (?pre @ t) @ [] @ CHR '','' # ?post" using s by simp
  have a: "skip_whitespace comments s (length ?pre + length t) = length ?pre + length t"
    "length ?pre + length t < length s" "s ! (length ?pre + length t) = CHR '',''"
    using skip_to [OF _ _ _ s1] by (simp_all add: c_isspace_def add.assoc)
  have "object_loop fuel pv comments s (length pre) depth obj
      = object_loop n pv comments s (length (?pre @ t @ '','')) depth (obj @ [(k, f v)])"
    unfolding fuel using object_loop_entry [OF Cons.prems(5) r(3,1), of s pre pretty "CHR '','' # ?post" pv depth "f v" "length ?pre + length t" n comments obj]
      s one a by (simp add: assign Let_def ctx del: length_append) (simp add: add.assoc)
  also have "\<dots> = Some (Inr ((obj @ [(k, f v)]) @ map (\<lambda>(l, w). (l, f w)) ((k', v') # kvs),
        length (?pre @ t @ '','') + length ws' + length (escape_string P ctx k') + length (colon pretty) + length t' + length out' + length g + 1))"
    by (rule Cons.IH [OF _ t' _ ws'(2)]) (use Cons.prems(1,6,8) fuel(2) s in \<open>simp_all add: out ws' kv sorted_wrt_append\<close>)
  finally show ?case by (simp add: kv out ws'(1) add.assoc)
qed

section \<open>The round trip\<close>

lemma starts_number:
  assumes "is_decimal (hd t) \<or> hd t = CHR ''-''" and "t \<noteq> []"
  shows "starts t"
proof -
  have "\<not> c_isspace (hd t)" "hd t \<noteq> CHR ''/''" "hd t \<noteq> CHR '']''"
    using assms(1) by (auto simp: is_decimal_def less_eq_char_def c_isspace_def)
  then show ?thesis using assms(2) by (simp add: starts_def)
qed

lemma starts_int_text: "starts (int_text i)"
proof (rule starts_number)
  have "hd (decimal_digits n) \<in> set (decimal_digits n)" for n using decimal_digits_props [of n] by simp
  then show "is_decimal (hd (int_text i)) \<or> hd (int_text i) = CHR ''-''"
    using decimal_digits_props [of "nat i"] by (simp add: int_text_def list_all_iff)
  show "int_text i \<noteq> []" using decimal_digits_props [of "nat i"] by (simp add: int_text_def)
qed

lemma starts_json_number:
  assumes "json_number negative ip fp ex"
  shows "starts ((if negative then ''-'' else []) @ ip @ fp @ ex)"
proof (rule starts_number)
  have "ip \<noteq> []" "is_decimal (hd ip)" using assms by (auto simp: json_number_def list_all_iff)
  then show "is_decimal (hd ((if negative then ''-'' else []) @ ip @ fp @ ex)) \<or> hd ((if negative then ''-'' else []) @ ip @ fp @ ex) = CHR ''-''"
    "(if negative then ''-'' else []) @ ip @ fp @ ex \<noteq> []" by simp_all
qed

lemma starts_literals:
  "starts ''null''" "starts ''true''" "starts ''false''" "starts ''NaN''" "starts ''Infinity''" "starts ''-Infinity''"
  "starts (escape_string P ctx str)" "starts (CHR ''['' # t)" "starts (CHR ''{'' # t)"
  by (simp_all add: starts_def c_isspace_def escape_string_def)

lemma starts_double: "readable_double nt P d \<Longrightarrow> starts (dump_double nt P (Some (from_policy P)) d)"
proof (cases d)
  case (Finite r)
  assume r: "readable_double nt P d"
  show ?thesis
  proof (cases "whole r")
    case True
    then show ?thesis using starts_int_text by (simp add: Finite dump_double_def whole_def)
  next
    case False
    with r obtain negative ip fp ex where "json_number negative ip fp ex"
      "dump_double nt P (Some (from_policy P)) d = (if negative then ''-'' else []) @ ip @ fp @ ex"
      unfolding readable_double_def Finite by auto
    then show ?thesis using starts_json_number by metis
  qed
qed (simp_all add: dump_double_def starts_literals)

lemma dump_starts:
  assumes "dump nt P (Some (from_policy P)) pretty ind v = Inr t" and "json_representable nt P v"
  shows "starts t"
  by (cases v) (use assms in \<open>simp_all add: starts_literals starts_double starts_int_text res_bind_Inr open_container_def split: if_splits\<close>, auto simp: starts_literals starts_int_text starts_double)

lemma dump_elements_length: "dump_elements nt P ctx pretty ind False vs = Inr out \<Longrightarrow> length vs \<le> length out"
  by (induction vs arbitrary: out) (fastforce simp: res_bind_Inr before_element_def)+

lemma dump_entries_length: "dump_entries nt P ctx pretty ind False kvs = Inr out \<Longrightarrow> length kvs \<le> length out"
proof (induction kvs arbitrary: out)
  case (Cons kv kvs)
  then show ?case by (cases kv) (fastforce simp: res_bind_Inr before_element_def)
qed simp

lemma nesting_element: "v \<in> set arr \<Longrightarrow> nesting v < nesting (Json_array arr)"
proof -
  assume "v \<in> set arr"
  then have "nesting v \<le> Max (set (0 # map nesting arr))" by (intro Max_ge) simp_all
  then show ?thesis by (simp del: Max_insert)
qed

lemma nesting_entry: "(k, v) \<in> set obj \<Longrightarrow> nesting v < nesting (Json_object obj)"
proof -
  assume "(k, v) \<in> set obj"
  then have "nesting v \<in> set (0 # map (\<lambda>(k, v). nesting v) obj)" by force
  then have "nesting v \<le> Max (set (0 # map (\<lambda>(k, v). nesting v) obj))" by (intro Max_ge) simp_all
  then show ?thesis by (simp del: Max_insert)
qed

lemma parse_value_array:
  assumes "s = pre @ t @ post" and "dump nt P (Some (from_policy P)) pretty ind (Json_array arr) = Inr t"
    and "depth \<le> max_parse_depth Q" and "length t \<le> n"
    and json_reads: "\<And>w t. w \<in> set arr \<Longrightarrow> dump nt P (Some (from_policy P)) pretty (ind + indent_step P) w = Inr t \<Longrightarrow>
      starts t \<and> json_reads (parse_value n nt Q s) (depth + 1) s n t (f w)"
  shows "parse_value (Suc n) nt Q s (length pre) depth = Some (Inr (Json_array (map f arr), length pre + length t))"
proof -
  let ?ctx = "Some (from_policy P)"
  define g where "g = (if pretty \<and> arr \<noteq> [] then newline # output_indent ind else [])"
  have gap: "gap g" unfolding g_def by (rule gap_indent)
  obtain out where out: "dump_elements nt P ?ctx pretty ind True arr = Inr out"
    and t: "t = open_container CHR ''['' pretty (arr = []) @ out @ g @ '']''"
    using assms(2) by (auto simp: res_bind_Inr close_container_def g_def)
  have st: "starts t" "hd t = CHR ''[''" by (simp_all add: t open_container_def starts_def c_isspace_def)
  note at = parse_value_at [OF st(1) assms(1)]
  have "parse_array n (parse_value n nt Q s) Q s (length pre) depth = Some (Inr (map f arr, length pre + length t))"
  proof (cases arr)
    case Nil
    then have "t = ''[]''" using out by (simp add: t open_container_def g_def)
    then have "s = (pre @ ''['') @ [] @ CHR '']'' # post" and len: "length t = 2" using assms(1) by simp_all
    from skip_to [OF _ _ _ this(1)] show ?thesis using assms(3) by (simp add: parse_array_def Nil Let_def len c_isspace_def)
  next
    case (Cons v vs)
    obtain t1 out' where t1: "dump nt P ?ctx pretty (ind + indent_step P) v = Inr t1" "dump_elements nt P ?ctx pretty ind False vs = Inr out'"
      and o: "out = before_element P pretty ind True @ t1 @ out'"
      using out by (auto simp: Cons res_bind_Inr)
    define ws where "ws = (if pretty then [newline] else []) @ before_element P pretty ind True"
    have ws: "list_all c_isspace ws"
      using gap_indent [of pretty "ind + indent_step P"] by (simp add: ws_def before_element_def gap_def c_isspace_def)
    have t2: "t = CHR ''['' # ws @ t1 @ out' @ g @ '']''" by (simp add: t o open_container_def Cons ws_def)
    then have s: "s = (pre @ CHR ''['' # ws) @ t1 @ out' @ g @ CHR '']'' # post" using assms(1) by simp
    have r: "\<forall>w\<in>set (v # vs). \<forall>t. dump nt P ?ctx pretty (ind + indent_step P) w = Inr t \<longrightarrow> starts t \<and> json_reads (parse_value n nt Q s) (depth + 1) s n t (f w)"
      using json_reads by (simp add: Cons)
    have st1: "starts t1" using r t1(1) by simp
    have s': "s = (pre @ ''['') @ ws @ (t1 @ out' @ g @ CHR '']'' # post)" using s by simp
    have skip: "skip_whitespace (allow_comments Q) s (length pre + 1) = length (pre @ CHR ''['' # ws)"
      using skip_whitespace_all [OF ws, of "t1 @ out' @ g @ CHR '']'' # post" "allow_comments Q" "pre @ ''[''"] st1
      unfolding s'[symmetric] by (simp add: starts_def)
    have "s ! length (pre @ CHR ''['' # ws) = hd t1" using parse_value_at(3) [OF st1 s] .
    moreover have "hd t1 \<noteq> CHR '']''" using st1 by (simp add: starts_def)
    moreover have "array_loop n (parse_value n nt Q s) (allow_comments Q) s (length (pre @ CHR ''['' # ws)) depth []
      = Some (Inr ([] @ map f (v # vs), length (pre @ CHR ''['' # ws) + length t1 + length out' + length g + 1))"
      by (rule array_loop_reads [OF gap r t1 s]) (use assms(4) dump_elements_length [OF t1(2)] in \<open>simp_all add: t2\<close>)
    moreover have "length (pre @ CHR ''['' # ws) + length t1 + length out' + length g + 1 = length pre + length t" by (simp add: t2)
    ultimately show ?thesis using assms(3) unfolding parse_array_def skip Let_def by (simp add: Cons del: length_append)
  qed
  then show ?thesis using at st(2) by (simp add: Let_def)
qed

lemma parse_value_object:
  assumes "s = pre @ t @ post" and "dump nt P (Some (from_policy P)) pretty ind (Json_object obj) = Inr t"
    and "depth \<le> max_parse_depth Q" and "length t \<le> n" and sorted: "sorted_wrt (<) (map fst obj)"
    and json_reads: "\<And>k w t. (k, w) \<in> set obj \<Longrightarrow> writable (escape_unicode P) k
      \<and> (dump nt P (Some (from_policy P)) pretty (ind + indent_step P) w = Inr t \<longrightarrow> starts t \<and> json_reads (parse_value n nt Q s) (depth + 1) s n t (f w))"
  shows "parse_value (Suc n) nt Q s (length pre) depth
    = Some (Inr (Json_object (map (\<lambda>(k, v). (k, f v)) obj), length pre + length t))"
proof -
  let ?ctx = "Some (from_policy P)"
  define g where "g = (if pretty \<and> obj \<noteq> [] then newline # output_indent ind else [])"
  have gap: "gap g" unfolding g_def by (rule gap_indent)
  obtain out where out: "dump_entries nt P ?ctx pretty ind True obj = Inr out"
    and t: "t = open_container CHR ''{'' pretty (obj = []) @ out @ g @ ''}''"
    using assms(2) by (auto simp: res_bind_Inr close_container_def g_def)
  have st: "starts t" "hd t = CHR ''{''" by (simp_all add: t open_container_def starts_def c_isspace_def)
  note at = parse_value_at [OF st(1) assms(1)]
  have "parse_object n (parse_value n nt Q s) Q s (length pre) depth = Some (Inr (map (\<lambda>(k, v). (k, f v)) obj, length pre + length t))"
  proof (cases obj)
    case Nil
    then have "t = ''{}''" using out by (simp add: t open_container_def g_def)
    then have "s = (pre @ ''{'') @ [] @ CHR ''}'' # post" and len: "length t = 2" using assms(1) by simp_all
    from skip_to [OF _ _ _ this(1)] show ?thesis using assms(3) by (simp add: parse_object_def Nil Let_def len c_isspace_def)
  next
    case (Cons kv kvs)
    obtain k v where kv: "kv = (k, v)" by fastforce
    obtain t1 out' where t1: "dump nt P ?ctx pretty (ind + indent_step P) v = Inr t1" "dump_entries nt P ?ctx pretty ind False kvs = Inr out'"
      and o: "out = before_element P pretty ind True @ escape_string P ?ctx k @ colon pretty @ t1 @ out'"
      using out by (auto simp: Cons kv res_bind_Inr)
    define ws where "ws = (if pretty then [newline] else []) @ before_element P pretty ind True"
    have ws: "list_all c_isspace ws"
      using gap_indent [of pretty "ind + indent_step P"] by (simp add: ws_def before_element_def gap_def c_isspace_def)
    have t2: "t = CHR ''{'' # ws @ escape_string P ?ctx k @ colon pretty @ t1 @ out' @ g @ ''}''" by (simp add: t o open_container_def Cons ws_def)
    then have s: "s = (pre @ CHR ''{'' # ws) @ [] @ escape_string P ?ctx k @ colon pretty @ t1 @ out' @ g @ CHR ''}'' # post"
      using assms(1) by simp
    obtain q where q: "escape_string P ?ctx k = quote # q" by (simp add: escape_string_def)
    have "s = (pre @ ''{'') @ ws @ quote # (q @ colon pretty @ t1 @ out' @ g @ CHR ''}'' # post)" using s q by simp
    from skip_to [OF ws _ _ this] have skip: "skip_whitespace (allow_comments Q) s (length pre + 1) = length (pre @ CHR ''{'' # ws)"
      and first: "s ! length (pre @ CHR ''{'' # ws) = quote" by (simp_all add: c_isspace_def)
    have r: "\<forall>(l, w)\<in>set ((k, v) # kvs). writable (escape_unicode P) l \<and>
      (\<forall>t. dump nt P ?ctx pretty (ind + indent_step P) w = Inr t \<longrightarrow> starts t \<and> json_reads (parse_value n nt Q s) (depth + 1) s n t (f w))"
      using json_reads by (auto simp: Cons kv)
    have "object_loop n (parse_value n nt Q s) (allow_comments Q) s (length (pre @ CHR ''{'' # ws)) depth []
      = Some (Inr ([] @ map (\<lambda>(k, v). (k, f v)) ((k, v) # kvs), length (pre @ CHR ''{'' # ws) + length ([] :: string) + length (escape_string P ?ctx k)
          + length (colon pretty) + length t1 + length out' + length g + 1))"
      by (rule object_loop_reads [OF gap refl r t1 s])
        (use assms(4) dump_entries_length [OF t1(2)] sorted in \<open>simp_all add: t2 Cons kv\<close>)
    moreover have "length (pre @ CHR ''{'' # ws) + length ([] :: string) + length (escape_string P ?ctx k) + length (colon pretty) + length t1 + length out' + length g + 1
      = length pre + length t" by (simp add: t2)
    ultimately show ?thesis using assms(3) first unfolding parse_object_def skip Let_def by (simp add: Cons kv del: length_append)
  qed
  then show ?thesis using at st(2) by (simp add: Let_def)
qed


lemma dump_reads:
  assumes "allow_nan_inf P \<longrightarrow> allow_nan_inf Q"
  shows "dump nt P (Some (from_policy P)) pretty ind v = Inr t \<Longrightarrow> json_representable nt P v \<Longrightarrow> depth + nesting v \<le> Suc (max_parse_depth Q)
    \<Longrightarrow> N \<le> fuel \<Longrightarrow> json_reads (parse_value fuel nt Q s) depth s N t (written nt P v)"
proof (induction v arbitrary: ind t depth fuel N)
  case (Json_array arr)
  show ?case unfolding json_reads_def
  proof (intro allI impI)
    fix pre post
    assume a: "stops post" "s = pre @ t @ post" "length t < N"
    with Json_array.prems(4) obtain n where n: "fuel = Suc n" "length t \<le> n" by (cases fuel) auto
    have d: "depth \<le> max_parse_depth Q" using Json_array.prems(3) by simp
    have "starts u \<and> json_reads (parse_value n nt Q s) (depth + 1) s n u (written nt P w)"
      if w: "w \<in> set arr" and u: "dump nt P (Some (from_policy P)) pretty (ind + indent_step P) w = Inr u" for w u
    proof -
      have "json_representable nt P w" using Json_array.prems(2) w by simp
      moreover have "depth + 1 + nesting w \<le> Suc (max_parse_depth Q)" using nesting_element [OF w] Json_array.prems(3) by linarith
      ultimately show ?thesis using dump_starts [OF u] Json_array.IH [OF w u] by blast
    qed
    from parse_value_array [OF a(2) Json_array.prems(1) d n(2) this]
    show "parse_value fuel nt Q s (length pre) depth = Some (Inr (written nt P (Json_array arr), length pre + length t))"
      by (simp add: n(1))
  qed
next
  case (Json_object obj)
  show ?case unfolding json_reads_def
  proof (intro allI impI)
    fix pre post
    assume a: "stops post" "s = pre @ t @ post" "length t < N"
    with Json_object.prems(4) obtain n where n: "fuel = Suc n" "length t \<le> n" by (cases fuel) auto
    have d: "depth \<le> max_parse_depth Q" using Json_object.prems(3) by simp
    have "writable (escape_unicode P) k \<and> (dump nt P (Some (from_policy P)) pretty (ind + indent_step P) w = Inr u \<longrightarrow>
        starts u \<and> json_reads (parse_value n nt Q s) (depth + 1) s n u (written nt P w))"
      if w: "(k, w) \<in> set obj" for k w u
    proof -
      have r: "writable (escape_unicode P) k" "json_representable nt P w" using Json_object.prems(2) w by auto
      have "depth + 1 + nesting w \<le> Suc (max_parse_depth Q)" using nesting_entry [OF w] Json_object.prems(3) by linarith
      then show ?thesis using r dump_starts [of nt P pretty "ind + indent_step P" w u]
        Json_object.IH [OF w, of w "ind + indent_step P" u "depth + 1" n n] by simp
    qed
    moreover have "sorted_wrt (<) (map fst obj)" using Json_object.prems(2) by simp
    ultimately show "parse_value fuel nt Q s (length pre) depth = Some (Inr (written nt P (Json_object obj), length pre + length t))"
      using parse_value_object [OF a(2) Json_object.prems(1) d n(2)] by (simp add: n(1))
  qed
next
  case (Json_int i)
  show ?case unfolding json_reads_def
  proof (intro allI impI)
    fix pre post
    assume a: "stops post" "s = pre @ t @ post" "length t < N"
    with Json_int.prems(4) obtain n where n: "fuel = Suc n" by (cases fuel) auto
    have t: "t = int_text (sint i)" using Json_int.prems(1) by simp
    have "- (2 ^ 63) \<le> sint i" "sint i < 2 ^ 63" using sint_range_size [of i] by (simp_all add: word_size)
    from parse_value_int [OF this a(1) a(2) [unfolded t]]
    show "parse_value fuel nt Q s (length pre) depth = Some (Inr (written nt P (Json_int i), length pre + length t))" by (simp add: n t)
  qed
next
  case (Json_double d)
  show ?case unfolding json_reads_def
  proof (intro allI impI)
    fix pre post
    assume a: "stops post" "s = pre @ t @ post" "length t < N"
    with Json_double.prems(4) obtain n where n: "fuel = Suc n" by (cases fuel) auto
    have t: "t = dump_double nt P (Some (from_policy P)) d" "readable_double nt P d" using Json_double.prems(1,2) by simp_all
    from parse_value_double [OF t(2) assms a(1) a(2) [unfolded t(1)]]
    show "parse_value fuel nt Q s (length pre) depth = Some (Inr (written nt P (Json_double d), length pre + length t))" by (simp add: n t)
  qed
next
  case (Json_string str)
  show ?case unfolding json_reads_def
  proof (intro allI impI)
    fix pre post
    assume a: "stops post" "s = pre @ t @ post" "length t < N"
    with Json_string.prems(4) obtain n where n: "fuel = Suc n" by (cases fuel) auto
    have t: "t = escape_string P (Some (from_policy P)) str" "writable (get_effective_escape_unicode P (Some (from_policy P))) str"
      using Json_string.prems(1,2) by (simp_all add: escape_unicode_scope)
    from parse_value_string [OF t(2) a(2) [unfolded t(1)]]
    show "parse_value fuel nt Q s (length pre) depth = Some (Inr (written nt P (Json_string str), length pre + length t))" by (simp add: n t)
  qed
next
  case (Json_bool b)
  show ?case unfolding json_reads_def
  proof (intro allI impI)
    fix pre post
    assume a: "stops post" "s = pre @ t @ post" "length t < N"
    with Json_bool.prems(4) obtain n where n: "fuel = Suc n" by (cases fuel) auto
    show "parse_value fuel nt Q s (length pre) depth = Some (Inr (written nt P (Json_bool b), length pre + length t))"
      using parse_value_literal(2,3) [OF a(2)] Json_bool.prems(1) by (cases b) (auto simp: n simp del: parse_value.simps)
  qed
next
  case Json_null
  show ?case unfolding json_reads_def
  proof (intro allI impI)
    fix pre post
    assume a: "stops post" "s = pre @ t @ post" "length t < N"
    with Json_null.prems(4) obtain n where n: "fuel = Suc n" by (cases fuel) auto
    show "parse_value fuel nt Q s (length pre) depth = Some (Inr (written nt P Json_null, length pre + length t))"
      using parse_value_literal(1) [OF a(2)] Json_null.prems(1) by (auto simp: n simp del: parse_value.simps)
  qed
qed

theorem parse_dump:
  assumes "dump nt P (Some (from_policy P)) pretty ind v = Inr t" and "json_representable nt P v"
    and "nesting v \<le> Suc (max_parse_depth Q)" and "allow_nan_inf P \<longrightarrow> allow_nan_inf Q"
  shows "parse_json nt Q t = Some (Inr (written nt P v))"
proof -
  have "json_reads (parse_value (parse_fuel t) nt Q t) 0 t (parse_fuel t) t (written nt P v)"
    by (rule dump_reads [OF assms(4,1,2)]) (use assms(3) in simp_all)
  from readsD [OF this, of "[]" "[]" 0] have "parse_value (parse_fuel t) nt Q t 0 0 = Some (Inr (written nt P v, length t))"
    by (simp add: stops_def parse_fuel_def)
  moreover have "skip_whitespace (allow_comments Q) t (length t) = length t" by (subst skip_whitespace.simps) simp
  ultimately show ?thesis by (simp add: parse_json_def Let_def)
qed

end
