(* ===== verification/JsonLite_Total.thy ===== *)
theory JsonLite_Total
  imports JsonLite_RoundTrip
begin

text \<open>
  The parser on any text: it stays inside the text, it returns, the fuel of the model is always enough,
  and on a text of ASCII characters it never has undefined behaviour.
\<close>

section \<open>Termination\<close>

lemma enforce_Inr: "(if \<not> c then json_error what else r) = Inr y \<longleftrightarrow> c \<and> r = Inr y"
    "(if c then json_error what else r) = Inr y \<longleftrightarrow> \<not> c \<and> r = Inr y"
  by (simp_all add: json_error_def)

lemma skip_whitespace_bounds: "pos \<le> skip_whitespace comments s pos" "pos \<le> length s \<Longrightarrow> skip_whitespace comments s pos \<le> length s"
proof -
  have line: "pos \<le> length s \<Longrightarrow> skip_line s pos \<le> length s" for s pos
    by (induction s pos rule: skip_line.induct) (subst skip_line.simps, auto)
  have block: "pos \<le> length s \<Longrightarrow> skip_block s pos \<le> length s" for s pos
    by (induction s pos rule: skip_block.induct) (subst skip_block.simps, auto)
  have "pos \<le> skip_whitespace comments s pos \<and> (pos \<le> length s \<longrightarrow> skip_whitespace comments s pos \<le> length s)"
  proof (induction comments s pos rule: skip_whitespace.induct)
    case (1 comments s pos)
    let ?l = "skip_line s (pos + 2)" and ?b = "skip_block s (pos + 2)"
    have l: "pos + 2 \<le> ?l" "pos + 2 \<le> ?b" by (rule skip_comment_advances)+
    consider (stop) "skip_whitespace comments s pos = pos"
      | (space) "pos < length s" "c_isspace (s ! pos)"
      | (line) "pos < length s" "\<not> c_isspace (s ! pos)" "comments \<and> 2 \<le> length s - pos \<and> s ! pos = CHR ''/'' \<and> s ! (pos + 1) = CHR ''/''"
      | (block) "pos < length s" "\<not> c_isspace (s ! pos)" "\<not> (comments \<and> 2 \<le> length s - pos \<and> s ! pos = CHR ''/'' \<and> s ! (pos + 1) = CHR ''/'')"
          "comments \<and> 2 \<le> length s - pos \<and> s ! pos = CHR ''/'' \<and> s ! (pos + 1) = CHR ''*''"
      by (metis skip_whitespace.simps)
    then show ?case
    proof cases
      case space
      then show ?thesis using 1(1) by (subst (1 2) skip_whitespace.simps) auto
    next
      case line
      note IH = 1(2) [OF line]
      have "skip_whitespace comments s pos = skip_whitespace comments s ?l" using line by (subst skip_whitespace.simps) simp
      moreover have "pos + 2 \<le> length s" using line(3) by linarith
      then have "?l \<le> length s" by (intro \<open>\<And>s pos. pos \<le> length s \<Longrightarrow> skip_line s pos \<le> length s\<close>)
      ultimately show ?thesis using IH l by simp
    next
      case block
      note IH = 1(3) [OF block refl]
      have "skip_whitespace comments s pos = skip_whitespace comments s (if ?b + 1 < length s then ?b + 2 else ?b)"
        using block by (subst skip_whitespace.simps) (simp add: Let_def)
      moreover have "pos + 2 \<le> length s" using block(4) by linarith
      then have "?b \<le> length s" by (intro \<open>\<And>s pos. pos \<le> length s \<Longrightarrow> skip_block s pos \<le> length s\<close>)
      ultimately show ?thesis using IH l by (auto split: if_splits)
    qed simp
  qed
  then show "pos \<le> skip_whitespace comments s pos" "pos \<le> length s \<Longrightarrow> skip_whitespace comments s pos \<le> length s" by blast+
qed

lemma string_loop_bounds: "string_loop s pos res = Inr (t, p) \<Longrightarrow> pos \<le> p"
proof (induction s pos res rule: string_loop.induct)
  case (1 s pos res)
  show ?case
  proof (cases "pos < length s \<and> s ! pos \<noteq> quote")
    case False
    then show ?thesis using 1(3) by (subst (asm) string_loop.simps) auto
  next
    case True
    show ?thesis
    proof (cases "s ! pos = backslash")
      case b: True
      then obtain u q where q: "parse_escape s (pos + 1) = Inr (u, q)" "pos + 1 < length s" "string_loop s (q + 1) (res @ u) = Inr (t, p)"
        using True 1(3) by (subst (asm) string_loop.simps) (auto simp: json_error_def split: if_splits sum.splits)
      then show ?thesis using 1(1) [OF True b _ q(1) refl q(3)] parse_escape_advances [OF q(1)] by simp
    next
      case False
      then have "string_loop s (pos + 1) (res @ [s ! pos]) = Inr (t, p)" using True 1(3) by (subst (asm) string_loop.simps) simp
      then show ?thesis using 1(2) [OF True False] by simp
    qed
  qed
qed

lemma parse_string_advances: "parse_string s pos = Inr (t, p) \<Longrightarrow> pos < p \<and> p \<le> length s"
  using string_loop_bounds [of s "pos + 1" "[]"] by (force simp: parse_string_def json_error_def res_bind_Inr split: if_splits)

lemma scan_digits_bounds: "scan_digits s pos = Inr p \<Longrightarrow> pos \<le> p \<and> (pos \<le> length s \<longrightarrow> p \<le> length s)"
proof (induction s pos rule: scan_digits.induct)
  case (1 s pos)
  show ?case
  proof (cases "pos < length s")
    case True
    show ?thesis
    proof (cases "c_isdigit (s ! pos) = Inr True")
      case d: True
      then have "scan_digits s (pos + 1) = Inr p" using 1(2) True by (subst (asm) scan_digits.simps) simp
      then show ?thesis using 1(1) [OF True d TrueI] True by simp
    next
      case False
      then show ?thesis using 1(2) True by (subst (asm) scan_digits.simps) (auto split: sum.splits if_splits)
    qed
  qed (use 1(2) in \<open>subst (asm) scan_digits.simps, auto\<close>)
qed


lemma scan_digits_advances: "digit_at s pos = Inr True \<Longrightarrow> scan_digits s pos = Inr p \<Longrightarrow> pos < p \<and> p \<le> length s"
proof -
  assume a: "digit_at s pos = Inr True" "scan_digits s pos = Inr p"
  then have "pos < length s" "scan_digits s (pos + 1) = Inr p"
    by (auto simp: digit_at_def scan_digits.simps [of s pos] split: if_splits)
  then show ?thesis using scan_digits_bounds [of s "pos + 1" p] by simp
qed

lemma scan_fraction_bounds: "scan_fraction s pos = Inr (p, b) \<Longrightarrow> pos \<le> length s \<Longrightarrow> pos \<le> p \<and> p \<le> length s"
  using scan_digits_advances [of s "pos + 1"]
  by (force simp: scan_fraction_def res_bind_Inr json_error_def split: if_splits)

lemma scan_exponent_bounds: "scan_exponent s pos = Inr (p, b) \<Longrightarrow> pos \<le> length s \<Longrightarrow> pos \<le> p \<and> p \<le> length s"
  using scan_digits_advances [of s "pos + 1"] scan_digits_advances [of s "pos + 2"]
  by (force simp: scan_exponent_def res_bind_Inr json_error_def Let_def split: if_splits)

lemma substr_length: "substr s pos n = t \<Longrightarrow> t \<noteq> [] \<Longrightarrow> pos + length t \<le> length s"
  by (auto simp: substr_def)

lemma scan_number_advances:
  assumes "scan_number s start = Inr (p, b)"
  shows "start < p \<and> p \<le> length s"
proof -
  define pos where "pos = (if s ! start = CHR ''-'' then start + 1 else start)"
  obtain d p1 p2 b1 b2 where d: "digit_at s start = Inr d" "d \<or> s ! start = CHR ''-''"
      "(if s ! start = CHR ''-'' then digit_at s pos else Inr True) = Inr True"
    and scans: "scan_digits s pos = Inr p1" "scan_fraction s p1 = Inr (p2, b1)" "scan_exponent s p2 = Inr (p, b2)"
    using assms unfolding scan_number_def Let_def pos_def [symmetric] res_bind_Inr enforce_Inr by (fastforce simp: res_bind_Inr)
  have "digit_at s pos = Inr True" using d by (auto simp: pos_def split: if_splits)
  from scan_digits_advances [OF this scans(1)] have "start < p1" "p1 \<le> length s" by (auto simp: pos_def split: if_splits)
  then show ?thesis using scan_fraction_bounds [OF scans(2)] scan_exponent_bounds [OF scans(3)] by linarith
qed

lemma parse_number_advances:
  assumes "parse_number nt P s start = Inr (v, p)"
  shows "start < p \<and> p \<le> length s"
proof (cases "substr s start 3 = ''NaN'' \<or> substr s start 8 = ''Infinity'' \<or> substr s start 9 = ''-Infinity''")
  case True
  then show ?thesis using assms substr_length [of s start 3 "''NaN''"] substr_length [of s start 8 "''Infinity''"] substr_length [of s start 9 "''-Infinity''"]
    by (auto simp: parse_number_def json_error_def split: if_splits)
next
  case False
  then obtain b where "scan_number s start = Inr (p, b)"
    using assms by (auto simp: parse_number_def res_bind_Inr json_error_def Let_def split: option.splits prod.splits)
  then show ?thesis by (rule scan_number_advances)
qed


text \<open>
  Every call of \<open>parse_value\<close> moves on inside the text, so a position \<open>p\<close> leaves \<open>length s - p\<close>
  characters for the calls and the turns of loops still to come.
\<close>

definition advances :: "nat \<Rightarrow> nat \<Rightarrow> ('a \<times> nat) run \<Rightarrow> bool" where
  "advances len pos r \<longleftrightarrow> r \<noteq> None \<and> (\<forall>x p. r = Some (Inr (x, p)) \<longrightarrow> pos < p \<and> p \<le> len)"

lemma advances_error [simp]: "advances len pos (Some (json_error what))"
  by (simp add: advances_def json_error_def)

lemma advances_Inr [simp]: "advances len pos (Some (Inr (x, p))) \<longleftrightarrow> pos < p \<and> p \<le> len"
  by (simp add: advances_def)

lemma advances_bind:
  assumes "advances len q r" and "\<And>x p. q < p \<Longrightarrow> p \<le> len \<Longrightarrow> advances len pos (f (x, p))"
  shows "advances len pos (run_bind r f)"
proof -
  consider e where "r = Some (Inl e)" | x p where "r = Some (Inr (x, p))" "q < p" "p \<le> len"
    using assms(1) unfolding advances_def by (metis not_None_eq obj_sumE surj_pair)
  then show ?thesis using assms(2) by cases (simp_all add: advances_def)
qed

lemma advances_mono: "advances len q r \<Longrightarrow> pos \<le> q \<Longrightarrow> advances len pos r"
  by (auto simp: advances_def)

lemma array_loop_advances:
  assumes "\<And>p. p \<le> length s \<Longrightarrow> pos0 \<le> p \<Longrightarrow> advances (length s) p (pv p (depth + 1))"
  shows "pos0 \<le> pos \<Longrightarrow> pos \<le> length s \<Longrightarrow> length s - pos < fuel \<Longrightarrow> advances (length s) pos (array_loop fuel pv comments s pos depth arr)"
proof (induction fuel arbitrary: pos arr)
  case (Suc fuel)
  have "advances (length s) pos (pv pos (depth + 1))" using assms Suc.prems by blast
  moreover have "advances (length s) pos
      (let arr = arr @ [v]; pos = skip_whitespace comments s p in
       if \<not> pos < length s then Some (json_error ''JSON parse error: unterminated array'')
       else if s ! pos = CHR '']'' then Some (Inr (arr, pos + 1))
       else if s ! pos \<noteq> CHR '','' then Some (json_error ''JSON parse error: expected ',' or ']' in array'')
       else array_loop fuel pv comments s (skip_whitespace comments s (pos + 1)) depth arr)"
    if p: "pos < p" "p \<le> length s" for v p
  proof -
    let ?q = "skip_whitespace comments s p"
    let ?r = "skip_whitespace comments s (?q + 1)"
    have q: "p \<le> ?q" "?q + 1 \<le> ?r" by (rule skip_whitespace_bounds)+
    have "advances (length s) pos (array_loop fuel pv comments s ?r depth (arr @ [v]))" if "?q < length s"
    proof (rule advances_mono)
      have "?r \<le> length s" using skip_whitespace_bounds(2) [of "?q + 1" s] that by simp
      then show "advances (length s) ?r (array_loop fuel pv comments s ?r depth (arr @ [v]))"
        using Suc.prems p q by (intro Suc.IH) linarith+
    qed (use p q in linarith)
    then show ?thesis using p q by (simp add: Let_def)
  qed
  ultimately show ?case using Suc.prems by (simp add: advances_bind)
qed simp

lemma object_loop_advances:
  assumes "\<And>p. p \<le> length s \<Longrightarrow> pos0 \<le> p \<Longrightarrow> advances (length s) p (pv p (depth + 1))"
  shows "pos0 \<le> pos \<Longrightarrow> pos \<le> length s \<Longrightarrow> length s - pos < fuel \<Longrightarrow> advances (length s) pos (object_loop fuel pv comments s pos depth obj)"
proof (induction fuel arbitrary: pos obj)
  case (Suc fuel)
  let ?q = "skip_whitespace comments s pos"
  have q: "pos \<le> ?q" "?q \<le> length s" using skip_whitespace_bounds Suc.prems(2) by blast+
  have val: "advances (length s) pos
      (run_bind (pv r (depth + 1)) (\<lambda>(v, p).
       let obj = object_assign key v obj; pos = skip_whitespace comments s p in
       if \<not> pos < length s then Some (json_error ''JSON parse error: unterminated object'')
       else if s ! pos = CHR ''}'' then Some (Inr (obj, pos + 1))
       else if s ! pos \<noteq> CHR '','' then Some (json_error ''JSON parse error: expected ',' or '}' in object'')
       else object_loop fuel pv comments s (pos + 1) depth obj))"
    if r: "pos < r" "r \<le> length s" for r key
  proof (rule advances_bind)
    show "advances (length s) r (pv r (depth + 1))" using assms r Suc.prems(1) by simp
    fix v p
    assume p: "r < p" "p \<le> length s"
    let ?t = "skip_whitespace comments s p"
    have t: "p \<le> ?t" by (rule skip_whitespace_bounds)
    have "advances (length s) pos (object_loop fuel pv comments s (?t + 1) depth (object_assign key v obj))" if "?t < length s"
    proof (rule advances_mono)
      show "advances (length s) (?t + 1) (object_loop fuel pv comments s (?t + 1) depth (object_assign key v obj))"
        using Suc.prems p r t that by (intro Suc.IH) linarith+
    qed (use p r t in linarith)
    then show "advances (length s) pos (case (v, p) of (v, p) \<Rightarrow>
       let obj = object_assign key v obj; pos = skip_whitespace comments s p in
       if \<not> pos < length s then Some (json_error ''JSON parse error: unterminated object'')
       else if s ! pos = CHR ''}'' then Some (Inr (obj, pos + 1))
       else if s ! pos \<noteq> CHR '','' then Some (json_error ''JSON parse error: expected ',' or '}' in object'')
       else object_loop fuel pv comments s (pos + 1) depth obj)"
      using p r t by (simp add: Let_def)
  qed
  have str: "advances (length s) ?q (Some (parse_string s ?q))"
    using parse_string_advances [of s ?q] by (auto simp: advances_def)
  have key: "advances (length s) pos
      (let pos = skip_whitespace comments s p in
       if \<not> (pos < length s \<and> s ! pos = CHR '':'') then Some (json_error ''JSON parse error: expected ':' after object key'')
       else let pos = skip_whitespace comments s (pos + 1) in
       run_bind (pv pos (depth + 1)) (\<lambda>(v, pos).
       let obj = object_assign key v obj; pos = skip_whitespace comments s pos in
       if \<not> pos < length s then Some (json_error ''JSON parse error: unterminated object'')
       else if s ! pos = CHR ''}'' then Some (Inr (obj, pos + 1))
       else if s ! pos \<noteq> CHR '','' then Some (json_error ''JSON parse error: expected ',' or '}' in object'')
       else object_loop fuel pv comments s (pos + 1) depth obj))"
    if p: "?q < p" "p \<le> length s" for key p
  proof (cases "skip_whitespace comments s p < length s \<and> s ! skip_whitespace comments s p = CHR '':''")
    case True
    let ?r = "skip_whitespace comments s (skip_whitespace comments s p + 1)"
    have "skip_whitespace comments s p + 1 \<le> ?r" "p \<le> skip_whitespace comments s p" by (rule skip_whitespace_bounds)+
    moreover have "?r \<le> length s" using skip_whitespace_bounds(2) [of "skip_whitespace comments s p + 1" s] True by simp
    ultimately have "pos < ?r" "?r \<le> length s" using p q by linarith+
    from val [OF this] show ?thesis using True unfolding Let_def by simp
  next
    case False
    then show ?thesis unfolding Let_def by simp
  qed
  show ?case
    using advances_bind [OF str, of pos "\<lambda>(key, pos).
      let pos = skip_whitespace comments s pos in
       if \<not> (pos < length s \<and> s ! pos = CHR '':'') then Some (json_error ''JSON parse error: expected ':' after object key'')
       else let pos = skip_whitespace comments s (pos + 1) in
       run_bind (pv pos (depth + 1)) (\<lambda>(v, pos).
       let obj = object_assign key v obj; pos = skip_whitespace comments s pos in
       if \<not> pos < length s then Some (json_error ''JSON parse error: unterminated object'')
       else if s ! pos = CHR ''}'' then Some (Inr (obj, pos + 1))
       else if s ! pos \<noteq> CHR '','' then Some (json_error ''JSON parse error: expected ',' or '}' in object'')
       else object_loop fuel pv comments s (pos + 1) depth obj)"] key
    by (simp only: object_loop.simps) (simp add: Let_def)
qed simp


lemma parse_value_advances:
  "pos \<le> length s \<Longrightarrow> length s - pos < fuel \<Longrightarrow> advances (length s) pos (parse_value fuel nt P s pos depth)"
proof (induction fuel arbitrary: pos depth)
  case (Suc fuel)
  let ?q = "skip_whitespace (allow_comments P) s pos"
  let ?pv = "parse_value fuel nt P s"
  have q: "pos \<le> ?q" "?q \<le> length s" using skip_whitespace_bounds Suc.prems(1) by blast+
  have lift: "advances (length s) ?q r \<Longrightarrow> advances (length s) pos r" for r :: "(json \<times> nat) run"
    using advances_mono q(1) by blast
  show ?case
  proof (cases "?q < length s")
    case True
    let ?r = "skip_whitespace (allow_comments P) s (?q + 1)"
    have r: "?q + 1 \<le> ?r" "?r \<le> length s" using skip_whitespace_bounds [of "?q + 1"] True by simp_all
    have pv: "advances (length s) p (?pv p d)" if "p \<le> length s" "?r \<le> p" for p d
      using that r q(1) Suc.prems(2) by (intro Suc.IH) linarith+
    have fuel: "length s - ?r < fuel" using r q(1) Suc.prems(2) by linarith
    have arr: "advances (length s) ?q (parse_array fuel ?pv P s ?q depth)"
      using advances_mono [OF array_loop_advances [OF pv _ r(2) fuel]] r(1)
      by (simp add: parse_array_def Let_def less_imp_le)
    have obj: "advances (length s) ?q (parse_object fuel ?pv P s ?q depth)"
      using advances_mono [OF object_loop_advances [OF pv _ r(2) fuel]] r(1)
      by (simp add: parse_object_def Let_def less_imp_le)
    have str: "advances (length s) pos (Some (res_bind (parse_string s ?q) (\<lambda>(str, pos). Inr (Json_string str, pos))))"
      using parse_string_advances [of s ?q] q(1) by (auto simp: advances_def res_bind_Inr)
    have num: "advances (length s) pos (Some (res_bind (c_isdigit c) (\<lambda>d. if A d then parse_number nt P s ?q else json_error what)))" for c A what
      using parse_number_advances [of nt P s ?q] q(1) by (auto simp: advances_def res_bind_Inr json_error_def split: if_splits)
    have lit: "advances (length s) pos (Some (Inr (v, ?q + n)))" if "substr s ?q n = t" "t \<noteq> []" "length t = n" for v :: json and n t
      using substr_length [OF that(1,2)] that(2,3) q(1) by (cases t) auto
    show ?thesis
      using True str num lit [of 4 "''true''"] lit [of 5 "''false''"] lit [of 4 "''null''"]
        advances_bind [OF arr, of pos "\<lambda>(arr, pos). Some (Inr (Json_array arr, pos))"]
        advances_bind [OF obj, of pos "\<lambda>(obj, pos). Some (Inr (Json_object obj, pos))"] q(1)
      by (simp add: Let_def)
  qed (simp add: Let_def)
qed simp

text \<open>More fuel does not change an answer.\<close>

definition run_le :: "'a run \<Rightarrow> 'a run \<Rightarrow> bool" where
  "run_le m m' \<longleftrightarrow> (\<forall>r. m = Some r \<longrightarrow> m' = Some r)"

lemma run_le_intros:
  "run_le m m"
  "run_le None m"
  "run_le a a' \<Longrightarrow> run_le b b' \<Longrightarrow> run_le (if c then a else b) (if c then a' else b')"
  "(\<And>x y. run_le (g x y) (g' x y)) \<Longrightarrow> run_le (case z of (x, y) \<Rightarrow> g x y) (case z of (x, y) \<Rightarrow> g' x y)"
  by (auto simp: run_le_def split: prod.splits)

lemma run_le_bind:
  "run_le m m' \<Longrightarrow> (\<And>x. run_le (f x) (f' x)) \<Longrightarrow> run_le (run_bind m f) (run_bind m' f')"
  by (auto simp: run_le_def run_bind_def split: option.splits sum.splits)

lemma array_loop_mono:
  assumes "\<And>p. run_le (pv p (depth + 1)) (pv' p (depth + 1))"
  shows "fuel \<le> fuel' \<Longrightarrow> run_le (array_loop fuel pv comments s pos depth arr) (array_loop fuel' pv' comments s pos depth arr)"
proof (induction fuel arbitrary: fuel' pos arr)
  case (Suc fuel)
  then obtain n where n: "fuel' = Suc n" "fuel \<le> n" by (cases fuel') auto
  show ?case unfolding n array_loop.simps Let_def
    by (intro run_le_intros(1,3,4) run_le_bind assms Suc.IH n(2))
qed (simp add: run_le_intros)

lemma object_loop_mono:
  assumes "\<And>p. run_le (pv p (depth + 1)) (pv' p (depth + 1))"
  shows "fuel \<le> fuel' \<Longrightarrow> run_le (object_loop fuel pv comments s pos depth obj) (object_loop fuel' pv' comments s pos depth obj)"
proof (induction fuel arbitrary: fuel' pos obj)
  case (Suc fuel)
  then obtain n where n: "fuel' = Suc n" "fuel \<le> n" by (cases fuel') auto
  show ?case unfolding n object_loop.simps Let_def
    by (intro run_le_intros(1,3,4) run_le_bind assms Suc.IH n(2))
qed (simp add: run_le_intros)

lemma parse_value_mono: "fuel \<le> fuel' \<Longrightarrow> run_le (parse_value fuel nt P s pos depth) (parse_value fuel' nt P s pos depth)"
proof (induction fuel arbitrary: fuel' pos depth)
  case (Suc fuel)
  then obtain n where n: "fuel' = Suc n" "fuel \<le> n" by (cases fuel') auto
  show ?case unfolding n parse_value.simps parse_array_def parse_object_def Let_def
    by (intro run_le_intros(1,3,4) run_le_bind array_loop_mono object_loop_mono Suc.IH n(2))
qed (simp add: run_le_intros)

lemma parse_value_enough_fuel:
  assumes "length s < fuel"
  shows "parse_value fuel nt P s 0 0 = parse_value (parse_fuel s) nt P s 0 0"
proof -
  have "parse_value (parse_fuel s) nt P s 0 0 \<noteq> None"
    using parse_value_advances [of 0 s "parse_fuel s" nt P 0] by (simp add: advances_def parse_fuel_def)
  then show ?thesis using parse_value_mono [of "parse_fuel s" fuel nt P s 0 0] assms by (auto simp: run_le_def parse_fuel_def)
qed

section \<open>Undefined behaviour\<close>

definition ascii :: "string \<Rightarrow> bool" where
  "ascii s \<longleftrightarrow> list_all (\<lambda>c. byte c < 0x80) s"

text \<open>A result that is a value or an exception.\<close>

definition defined :: "'a result \<Rightarrow> bool" where
  "defined r \<longleftrightarrow> (\<forall>e. r = Inl e \<longrightarrow> (\<exists>what. e = Runtime_error what))"

lemma defined_intros:
  "defined (Inr x)"
  "defined (json_error what)"
  "defined a \<Longrightarrow> defined b \<Longrightarrow> defined (if c then a else b)"
  "(\<And>x y. defined (g x y)) \<Longrightarrow> defined (case z of (x, y) \<Rightarrow> g x y)"
  "defined m \<Longrightarrow> (\<And>x. defined (f x)) \<Longrightarrow> defined (res_bind m f)"
  "defined a \<Longrightarrow> (\<And>x. defined (h x)) \<Longrightarrow> defined (case q of None \<Rightarrow> a | Some x \<Rightarrow> h x)"
  by (auto simp: defined_def json_error_def res_bind_def split: sum.splits prod.splits option.splits)

lemma c_isdigit_defined: "ascii s \<Longrightarrow> pos < length s \<Longrightarrow> defined (c_isdigit (s ! pos))"
  by (auto simp: ascii_def list_all_length c_isdigit_def defined_def not_le)

lemma digit_at_defined: "ascii s \<Longrightarrow> defined (digit_at s pos)"
  using c_isdigit_defined [of s pos] by (simp add: digit_at_def defined_intros)

lemma scan_digits_defined: "ascii s \<Longrightarrow> defined (scan_digits s pos)"
proof (induction s pos rule: scan_digits.induct)
  case (1 s pos)
  show ?case
  proof (cases "pos < length s")
    case True
    with c_isdigit_defined [OF 1(2)] obtain d where "c_isdigit (s ! pos) = Inr d \<or> (\<exists>what. c_isdigit (s ! pos) = Inl (Runtime_error what))"
      unfolding defined_def by (cases "c_isdigit (s ! pos)") auto
    then show ?thesis using 1 True by (subst scan_digits.simps) (auto simp: defined_def split: if_splits)
  qed (subst scan_digits.simps, simp add: defined_intros)
qed

lemma encode_utf8_defined: "defined (encode_utf8 cp)"
  unfolding encode_utf8_def by (intro defined_intros)

lemma parse_escape_defined: "defined (parse_escape s pos)"
  unfolding parse_escape_def parse_unicode_def Let_def by (intro defined_intros encode_utf8_defined)

lemma string_loop_defined: "defined (string_loop s pos res)"
proof (induction s pos res rule: string_loop.induct)
  case (1 s pos res)
  show ?case
  proof (cases "pos < length s \<and> s ! pos \<noteq> quote \<and> s ! pos = backslash \<and> pos + 1 < length s")
    case True
    show ?thesis
    proof (cases "parse_escape s (pos + 1)")
      case (Inl e)
      then show ?thesis using True parse_escape_defined [of s "pos + 1"] by (subst string_loop.simps) (simp add: defined_def)
    next
      case (Inr x)
      then show ?thesis using True 1(1) [OF _ _ _ Inr] by (subst string_loop.simps) (auto split: prod.splits)
    qed
  next
    case False
    then show ?thesis using 1(2) by (subst string_loop.simps) (auto simp: defined_intros)
  qed
qed

lemma parse_string_defined: "defined (parse_string s pos)"
  unfolding parse_string_def by (intro defined_intros string_loop_defined)

lemma parse_number_defined: "ascii s \<Longrightarrow> defined (parse_number nt P s pos)"
  unfolding parse_number_def scan_number_def scan_fraction_def scan_exponent_def Let_def
  by (intro defined_intros digit_at_defined scan_digits_defined)

text \<open>The same for computations with fuel.\<close>

definition calm :: "'a run \<Rightarrow> bool" where
  "calm m \<longleftrightarrow> (\<forall>r. m = Some r \<longrightarrow> defined r)"

lemma calm_intros:
  "defined r \<Longrightarrow> calm (Some r)"
  "calm None"
  "calm a \<Longrightarrow> calm b \<Longrightarrow> calm (if c then a else b)"
  "(\<And>x y. calm (g x y)) \<Longrightarrow> calm (case z of (x, y) \<Rightarrow> g x y)"
  "calm m \<Longrightarrow> (\<And>x. calm (f x)) \<Longrightarrow> calm (run_bind m f)"
  by (auto simp: calm_def defined_def run_bind_def split: prod.splits option.splits sum.splits)

lemma array_loop_calm: "(\<And>p. calm (pv p (depth + 1))) \<Longrightarrow> calm (array_loop fuel pv comments s pos depth arr)"
proof (induction fuel arbitrary: pos arr)
  case (Suc fuel)
  show ?case unfolding array_loop.simps Let_def by (intro calm_intros defined_intros Suc)
qed (simp add: calm_intros)

lemma object_loop_calm: "(\<And>p. calm (pv p (depth + 1))) \<Longrightarrow> calm (object_loop fuel pv comments s pos depth obj)"
proof (induction fuel arbitrary: pos obj)
  case (Suc fuel)
  show ?case unfolding object_loop.simps Let_def by (intro calm_intros defined_intros parse_string_defined Suc)
qed (simp add: calm_intros)

lemma parse_value_calm: "ascii s \<Longrightarrow> calm (parse_value fuel nt P s pos depth)"
proof (induction fuel arbitrary: pos depth)
  case (Suc fuel)
  let ?q = "skip_whitespace (allow_comments P) s pos"
  show ?case
  proof (cases "?q < length s")
    case True
    have rest: "calm (Some (res_bind (c_isdigit (s ! ?q)) f))" if "\<And>d. defined (f d)" for f :: "bool \<Rightarrow> (json \<times> nat) result"
      by (intro calm_intros defined_intros c_isdigit_defined Suc.prems True that)
    have calm: "calm (parse_array fuel (parse_value fuel nt P s) P s ?q depth)" "calm (parse_object fuel (parse_value fuel nt P s) P s ?q depth)"
      unfolding parse_array_def parse_object_def Let_def
      by (intro calm_intros defined_intros array_loop_calm object_loop_calm Suc)+
    show ?thesis using True unfolding parse_value.simps Let_def
      by (simp only: not_True_eq_False if_False) (intro calm_intros(3,4,5) calm calm_intros(1) defined_intros(1) rest defined_intros parse_string_defined parse_number_defined Suc.prems)
  qed (simp add: Let_def calm_intros defined_intros)
qed (simp add: calm_intros)


section \<open>Depth\<close>

lemma dump_elements_Inr: "(\<exists>t. dump_elements nt P ctx pretty ind first arr = Inr t) \<longleftrightarrow>
    (\<forall>w\<in>set arr. \<exists>t. dump nt P ctx pretty (ind + indent_step P) w = Inr t)"
proof (induction arr arbitrary: first)
  case (Cons w arr)
  have "(\<exists>t. dump_elements nt P ctx pretty ind first (w # arr) = Inr t) \<longleftrightarrow>
    (\<exists>t. dump nt P ctx pretty (ind + indent_step P) w = Inr t) \<and> (\<exists>t. dump_elements nt P ctx pretty ind False arr = Inr t)"
    by (auto simp: res_bind_Inr)
  then show ?case unfolding Cons.IH by simp
qed simp

lemma dump_entries_Inr: "(\<exists>t. dump_entries nt P ctx pretty ind first obj = Inr t) \<longleftrightarrow>
    (\<forall>(k, w)\<in>set obj. \<exists>t. dump nt P ctx pretty (ind + indent_step P) w = Inr t)"
proof (induction obj arbitrary: first)
  case (Cons kv obj)
  obtain k w where kv: "kv = (k, w)" by fastforce
  have "(\<exists>t. dump_entries nt P ctx pretty ind first (kv # obj) = Inr t) \<longleftrightarrow>
    (\<exists>t. dump nt P ctx pretty (ind + indent_step P) w = Inr t) \<and> (\<exists>t. dump_entries nt P ctx pretty ind False obj = Inr t)"
    by (auto simp: res_bind_Inr kv)
  then show ?case unfolding Cons.IH by (simp add: kv)
qed simp

lemma check_dump_depth_Inr: "indent_step P > 0 \<Longrightarrow> check_dump_depth P (indent_step P * int d) = Inr () \<longleftrightarrow> d \<le> max_dump_depth P"
  by (simp add: check_dump_depth_def json_error_def Let_def)

lemma Max_nesting: "Max (set (0 # ns)) \<le> k \<longleftrightarrow> (\<forall>n\<in>set ns. n \<le> (k :: nat))"
  by (simp add: Max_le_iff)

lemma dump_depth:
  assumes "indent_step P > 0"
  shows "(\<exists>t. dump nt P ctx pretty (indent_step P * int d) v = Inr t) \<longleftrightarrow> nesting v = 0 \<or> d + nesting v \<le> Suc (max_dump_depth P)"
proof (induction v arbitrary: d)
  case (Json_array arr)
  have step: "indent_step P * int d + indent_step P = indent_step P * int (Suc d)" by (simp add: algebra_simps)
  have "(\<exists>t. dump nt P ctx pretty (indent_step P * int d) (Json_array arr) = Inr t)
    \<longleftrightarrow> d \<le> max_dump_depth P \<and> (\<forall>w\<in>set arr. nesting w = 0 \<or> Suc d + nesting w \<le> Suc (max_dump_depth P))"
  proof -
    have "(\<exists>t. dump nt P ctx pretty (indent_step P * int d) (Json_array arr) = Inr t)
      \<longleftrightarrow> check_dump_depth P (indent_step P * int d) = Inr () \<and> (\<exists>t. dump_elements nt P ctx pretty (indent_step P * int d) True arr = Inr t)"
      by (auto simp: res_bind_Inr)
    then show ?thesis unfolding check_dump_depth_Inr [OF assms] dump_elements_Inr step using Json_array by (simp del: of_nat_Suc)
  qed
  also have "\<dots> \<longleftrightarrow> d \<le> max_dump_depth P \<and> (\<forall>n\<in>set (map nesting arr). n \<le> max_dump_depth P - d)" by auto
  also have "\<dots> \<longleftrightarrow> d + nesting (Json_array arr) \<le> Suc (max_dump_depth P)"
    unfolding Max_nesting [symmetric] nesting.simps by linarith
  finally show ?case by simp
next
  case (Json_object obj)
  have step: "indent_step P * int d + indent_step P = indent_step P * int (Suc d)" by (simp add: algebra_simps)
  have IH: "(\<exists>t. dump nt P ctx pretty (indent_step P * int (Suc d)) w = Inr t) \<longleftrightarrow> nesting w = 0 \<or> Suc d + nesting w \<le> Suc (max_dump_depth P)"
    if "(k, w) \<in> set obj" for k w
    using Json_object [OF that, of w "Suc d"] by simp
  have "(\<exists>t. dump nt P ctx pretty (indent_step P * int d) (Json_object obj) = Inr t)
    \<longleftrightarrow> d \<le> max_dump_depth P \<and> (\<forall>(k, w)\<in>set obj. nesting w = 0 \<or> Suc d + nesting w \<le> Suc (max_dump_depth P))"
  proof -
    have "(\<exists>t. dump nt P ctx pretty (indent_step P * int d) (Json_object obj) = Inr t)
      \<longleftrightarrow> check_dump_depth P (indent_step P * int d) = Inr () \<and> (\<exists>t. dump_entries nt P ctx pretty (indent_step P * int d) True obj = Inr t)"
      by (auto simp: res_bind_Inr)
    moreover have "(\<forall>(k, w)\<in>set obj. \<exists>t. dump nt P ctx pretty (indent_step P * int (Suc d)) w = Inr t)
      \<longleftrightarrow> (\<forall>(k, w)\<in>set obj. nesting w = 0 \<or> Suc d + nesting w \<le> Suc (max_dump_depth P))"
      using IH by blast
    ultimately show ?thesis unfolding check_dump_depth_Inr [OF assms] dump_entries_Inr step by blast
  qed
  also have "\<dots> \<longleftrightarrow> d \<le> max_dump_depth P \<and> (\<forall>n\<in>set (map (\<lambda>(k, v). nesting v) obj). n \<le> max_dump_depth P - d)" by fastforce
  also have "\<dots> \<longleftrightarrow> d + nesting (Json_object obj) \<le> Suc (max_dump_depth P)"
    unfolding Max_nesting [symmetric] nesting.simps by linarith
  finally show ?case by simp
qed simp_all

end
