(* ===== verification/JsonLite_Contract.thy ===== *)
theory JsonLite_Contract
  imports JsonLite_Total
begin

text \<open>
  What \<open>JsonLite.h\<close> promises of its writer and its parser together, and where it does not keep it.
\<close>

section \<open>Writing and reading\<close>

fun double_free :: "json \<Rightarrow> bool" where
  "double_free (Json_double d) \<longleftrightarrow> False"
| "double_free (Json_array arr) \<longleftrightarrow> (\<forall>v\<in>set arr. double_free v)"
| "double_free (Json_object obj) \<longleftrightarrow> (\<forall>(k, v)\<in>set obj. double_free v)"
| "double_free v \<longleftrightarrow> True"

lemma written_double_free: "double_free v \<Longrightarrow> written nt P v = v"
proof (induction v)
  case (Json_array arr)
  then show ?case by (simp add: map_idI)
next
  case (Json_object obj)
  have "written nt P w = w" if "(k, w) \<in> set obj" for k w using Json_object.IH [OF that] Json_object.prems that by auto
  then have "map (\<lambda>(k, v). (k, written nt P v)) obj = obj" by (intro map_idI) auto
  then show ?case by simp
qed simp_all




text \<open>Text that the grammar of JSON does not have: four characters that are not four hexadecimal digits.\<close>

lemma json_unicode_escape_lenient:
  "parse_json nt StandardJsonPolicy ([quote, backslash] @ ''u+041'' @ [quote]) = Some (Inr (Json_string ''A''))"
  "parse_json nt StandardJsonPolicy ([quote, backslash] @ ''u0x41'' @ [quote]) = Some (Inr (Json_string ''A''))"
  "parse_json nt StandardJsonPolicy ([quote, backslash] @ ''u41zz'' @ [quote]) = Some (Inr (Json_string ''A''))"
  by code_simp+

text \<open>A number below \<open>2.2e-14\<close> is written as zero.\<close>

lemma json_small_double_written_as_zero:
  assumes "\<bar>r\<bar> < double_epsilon"
  shows "to_json_string nt P (Json_double (Finite r)) pretty ctx = (Inr ''0'', ctx)"
proof -
  have zero: "int_text 0 = ''0''" by code_simp
  have "\<bar>r\<bar> < 1" using assms by (simp add: double_epsilon_def)
  then have "int_part r = 0" unfolding int_part_def by (auto simp: floor_eq_iff ceiling_eq_iff)
  then show ?thesis using assms
    by (simp add: to_json_string_def dump_double_def frac_part_def whole_limit_def zero)
qed

text \<open>An indentation of zero switches the limit on the depth off.\<close>

lemma json_depth_not_checked:
  assumes "indent_step P = 0"
  shows "\<exists>t. dump nt P ctx pretty 0 v = Inr t"
proof (induction v)
  case (Json_array arr)
  then show ?case using dump_elements_Inr [of nt P ctx pretty 0 True arr] assms by (auto simp: res_bind_Inr check_dump_depth_def)
next
  case (Json_object obj)
  then have "\<exists>t. dump_entries nt P ctx pretty 0 True obj = Inr t"
    unfolding dump_entries_Inr using assms by fastforce
  then show ?case using assms by (auto simp: res_bind_Inr check_dump_depth_def)
qed simp_all

end
