(* ===== verification/JsonLite_Access.thy ===== *)
theory JsonLite_Access
  imports JsonLite_Contract
begin

text \<open>
  The two ways \<open>JsonLite.h\<close> reads a document: conversion to the integer types of the language, and
  JSON Pointers.  A \<open>long\<close> has 64 bits.
\<close>

section \<open>Integers\<close>

datatype cpp_integer =
    Signed_char | Unsigned_char | Short | Unsigned_short | Int_type | Unsigned_int
  | Long | Unsigned_long | Long_long | Unsigned_long_long

fun is_signed_type :: "cpp_integer \<Rightarrow> bool" where
  "is_signed_type T \<longleftrightarrow> T \<in> {Signed_char, Short, Int_type, Long, Long_long}"

fun type_bits :: "cpp_integer \<Rightarrow> nat" where
  "type_bits T = (if T \<in> {Signed_char, Unsigned_char} then 8 else if T \<in> {Short, Unsigned_short} then 16
     else if T \<in> {Int_type, Unsigned_int} then 32 else 64)"

definition type_min :: "cpp_integer \<Rightarrow> int" where
  "type_min T = (if is_signed_type T then - (2 ^ (type_bits T - 1)) else 0)"

definition type_max :: "cpp_integer \<Rightarrow> int" where
  "type_max T = (if is_signed_type T then 2 ^ (type_bits T - 1) - 1 else 2 ^ type_bits T - 1)"

definition in_type :: "cpp_integer \<Rightarrow> int \<Rightarrow> bool" where
  "in_type T i \<longleftrightarrow> type_min T \<le> i \<and> i \<le> type_max T"

text \<open>\<open>json_lite::checked_cast\<close> from an \<open>int64_t\<close>, which is a \<open>long\<close>.\<close>

definition json_checked_cast :: "cpp_integer \<Rightarrow> int64 \<Rightarrow> int result" where
  "json_checked_cast T w = (let value = sint w in
     if T = Long then Inr value
     else if is_signed_type T then
       if value < type_min T \<or> value > type_max T then json_error ''Numeric cast out of range'' else Inr value
     else if value < 0 then json_error ''Numeric cast: negative value for unsigned type''
     else if uint w > type_max T then json_error ''Numeric cast out of range''
     else Inr value)"

text \<open>
  The pieces of \<open>std::modf\<close> for any \<open>double\<close>: the fraction, \<open>None\<close> for a NaN, and the whole part,
  \<open>None\<close> beyond all integers.
\<close>

definition modf_fraction :: "double \<Rightarrow> rat option" where
  "modf_fraction d = (case d of NaN \<Rightarrow> None | Infinite negative \<Rightarrow> Some 0 | Finite r \<Rightarrow> Some (frac_part r))"

text \<open>\<open>intpart\<close> compared with integer bounds: at least \<open>lo\<close> and at most \<open>hi\<close>.  No infinity is.\<close>

definition in_bounds :: "double \<Rightarrow> int \<Rightarrow> int \<Rightarrow> bool" where
  "in_bounds d lo hi \<longleftrightarrow> (case d of Finite r \<Rightarrow> lo \<le> int_part r \<and> int_part r \<le> hi | _ \<Rightarrow> False)"

definition whole_value :: "double \<Rightarrow> int" where
  "whole_value d = (case d of Finite r \<Rightarrow> int_part r | _ \<Rightarrow> 0)"

definition non_negative :: "double \<Rightarrow> bool" where
  "non_negative d \<longleftrightarrow> (case d of NaN \<Rightarrow> False | Infinite negative \<Rightarrow> \<not> negative | Finite r \<Rightarrow> r \<ge> 0)"

definition no_fraction :: "double \<Rightarrow> bool" where
  "no_fraction d \<longleftrightarrow> (case modf_fraction d of None \<Rightarrow> False | Some f \<Rightarrow> \<bar>f\<bar> \<le> double_epsilon)"

text \<open>
  \<open>convert_double_to_int\<close>.  As \<open>double\<close>s the limits of the 64-bit types are \<open>2 ^ 63\<close> and \<open>2 ^ 64\<close>, and
  the comparison with them is strict.  Converting a whole \<open>double\<close> in range forth and back is exact, so
  the checks after the conversion pass.
\<close>

definition convert_double_to_int :: "cpp_integer \<Rightarrow> double \<Rightarrow> int result" where
  "convert_double_to_int T d =
    (if \<not> no_fraction d then json_error ''JSON conversion error: fractional part detected''
     else if \<not> is_signed_type T \<and> \<not> non_negative d then json_error ''JSON conversion error: negative value for unsigned type''
     else if is_signed_type T \<and> type_bits T \<ge> 64 then
       if \<not> in_bounds d (type_min T) (2 ^ 63 - 1) then json_error ''JSON conversion error: value out of range for 64-bit signed integer''
       else Inr (whole_value d)
     else if type_bits T \<ge> 64 then
       if \<not> in_bounds d (type_min T) (2 ^ 64 - 1) then json_error ''JSON conversion error: value out of range''
       else Inr (whole_value d)
     else if \<not> in_bounds d (type_min T) (type_max T) then json_error ''JSON conversion error: value out of range''
     else Inr (whole_value d))"

text \<open>The conversion in place for the types of one and two bytes.\<close>

definition convert_small :: "cpp_integer \<Rightarrow> double \<Rightarrow> int result" where
  "convert_small T d =
    (if \<not> no_fraction d then json_error ''JSON conversion error: fractional part detected''
     else if \<not> in_bounds d (type_min T) (type_max T) then json_error ''JSON conversion error: value out of range''
     else Inr (whole_value d))"

definition from_json_integer :: "cpp_integer \<Rightarrow> json \<Rightarrow> int result" where
  "from_json_integer T j = (case j of
      Json_int i \<Rightarrow> if T = Long_long then Inr (sint i) else json_checked_cast T i
    | Json_double d \<Rightarrow> if type_bits T \<le> 16 then convert_small T d else convert_double_to_int T d
    | _ \<Rightarrow> json_error ''JSON type mismatch'')"

text \<open>\<open>to_json\<close> of an integer; one beyond \<open>INT64_MAX\<close> becomes the \<open>double\<close> nearest to it, a parameter.\<close>

definition to_json_integer :: "(int \<Rightarrow> double) \<Rightarrow> cpp_integer \<Rightarrow> int \<Rightarrow> json" where
  "to_json_integer to_double T value =
    (if T \<in> {Unsigned_long, Unsigned_long_long} \<and> value > 2 ^ 63 - 1 then Json_double (to_double value)
     else Json_int (word_of_int value))"

lemmas integer_type_defs = in_type_def type_min_def type_max_def

lemma json_checked_cast_iff: "json_checked_cast T w = Inr i \<longleftrightarrow> i = sint w \<and> in_type T i"
proof -
  have s: "- (2 ^ 63) \<le> sint w" "sint w \<le> 2 ^ 63 - 1" using sint_range_size [of w] by (simp_all add: word_size)
  have u: "uint w = sint w" if "0 \<le> sint w"
    using that s by (simp add: uint_sint take_bit_int_eq_self)
  show ?thesis
    by (cases T) (use s u in \<open>auto simp: json_checked_cast_def integer_type_defs json_error_def Let_def\<close>)
qed

text \<open>The double that stands for a value of the type.\<close>

definition double_in_type :: "cpp_integer \<Rightarrow> double \<Rightarrow> int \<Rightarrow> bool" where
  "double_in_type T d i \<longleftrightarrow> (\<exists>r. d = Finite r \<and> \<bar>frac_part r\<bar> \<le> double_epsilon \<and> i = int_part r \<and> in_type T i
     \<and> (\<not> is_signed_type T \<and> type_bits T > 16 \<longrightarrow> r \<ge> 0))"

lemma convert_double_iff:
  "(if type_bits T \<le> 16 then convert_small T d else convert_double_to_int T d) = Inr i \<longleftrightarrow> double_in_type T d i"
proof (cases d)
  case (Finite r)
  then show ?thesis
    by (cases T) (auto simp: convert_small_def convert_double_to_int_def double_in_type_def no_fraction_def modf_fraction_def
      in_bounds_def whole_value_def non_negative_def integer_type_defs json_error_def)
qed (auto simp: convert_small_def convert_double_to_int_def double_in_type_def no_fraction_def modf_fraction_def in_bounds_def json_error_def)

section \<open>Pointers\<close>

fun decode_json_pointer_token :: "string \<Rightarrow> string result" where
  "decode_json_pointer_token [] = Inr []"
| "decode_json_pointer_token (c # cs) =
    (if c = CHR ''~'' then
       (case cs of
          [] \<Rightarrow> json_error ''JSON Pointer: incomplete escape sequence at end of token''
        | e # ds \<Rightarrow>
            if e = CHR ''0'' then res_bind (decode_json_pointer_token ds) (\<lambda>r. Inr (CHR ''~'' # r))
            else if e = CHR ''1'' then res_bind (decode_json_pointer_token ds) (\<lambda>r. Inr (CHR ''/'' # r))
            else json_error ''JSON Pointer: invalid escape sequence (only ~0 and ~1 allowed)'')
     else res_bind (decode_json_pointer_token cs) (\<lambda>r. Inr (c # r)))"

text \<open>\<open>std::from_chars\<close> into a \<open>size_t\<close>, when it takes the whole token.\<close>

definition index_from_chars :: "string \<Rightarrow> nat option" where
  "index_from_chars t = (if t \<noteq> [] \<and> list_all is_decimal t \<and> decimal_number t 0 < 2 ^ 64 then Some (decimal_number t 0) else None)"

definition navigate_json_level :: "json \<Rightarrow> string \<Rightarrow> json result" where
  "navigate_json_level current token = (case current of
      Json_object obj \<Rightarrow> (case map_of obj token of
          None \<Rightarrow> json_error ''JSON Pointer: object key not found''
        | Some v \<Rightarrow> Inr v)
    | Json_array arr \<Rightarrow>
        if token = [] then json_error ''JSON Pointer: empty array index''
        else if token = ''-'' then json_error ''JSON Pointer: array index '-' not valid for query''
        else if \<not> (token ! 0 \<noteq> CHR ''0'' \<or> length token = 1) then json_error ''JSON Pointer: array index has leading zero''
        else (case index_from_chars token of
            None \<Rightarrow> json_error ''JSON Pointer: invalid array index (must be non-negative integer)''
          | Some index \<Rightarrow> if \<not> index < length arr then json_error ''JSON Pointer: array index out of bounds'' else Inr (arr ! index))
    | _ \<Rightarrow> json_error ''JSON Pointer: cannot navigate into scalar value'')"

text \<open>The loop: \<open>rest\<close> is the pointer from \<open>start\<close> on.\<close>

function query_loop :: "json \<Rightarrow> string \<Rightarrow> json result" where
  "query_loop current rest =
    (let token = takeWhile (\<lambda>c. c \<noteq> CHR ''/'') rest; after = dropWhile (\<lambda>c. c \<noteq> CHR ''/'') rest in
     res_bind (decode_json_pointer_token token) (\<lambda>decoded.
     res_bind (navigate_json_level current decoded) (\<lambda>current.
     if after = [] then Inr current else query_loop current (tl after))))"
  by auto
termination
proof (relation "measure (\<lambda>(current, rest). length rest)", goal_cases)
  case (2 current rest token after)
  then have "length after \<le> length rest" "after \<noteq> []" by (simp_all add: length_dropWhile_le)
  then show ?case by (simp add: Suc_le_eq [symmetric]) (cases after; simp)
qed simp

declare query_loop.simps [simp del]

definition query_json_pointer :: "json \<Rightarrow> string \<Rightarrow> json result" where
  "query_json_pointer document pointer =
    (if pointer = [] then Inr document
     else if hd pointer \<noteq> CHR ''/'' then json_error ''JSON Pointer must start with '/' or be empty''
     else query_loop document (tl pointer))"

text \<open>The pointer to a place: its tokens, escaped.\<close>

fun escape_token :: "string \<Rightarrow> string" where
  "escape_token [] = []"
| "escape_token (c # cs) = (if c = CHR ''~'' then ''~0'' else if c = CHR ''/'' then ''~1'' else [c]) @ escape_token cs"

definition pointer_to :: "string list \<Rightarrow> string" where
  "pointer_to ks = concat (map (\<lambda>k. CHR ''/'' # escape_token k) ks)"

text \<open>The places of a document: a member is named by its key, an element by its index in decimal.\<close>

inductive place :: "json \<Rightarrow> string list \<Rightarrow> json \<Rightarrow> bool" where
  here: "place v [] v"
| member: "(k, w) \<in> set obj \<Longrightarrow> place w ks v \<Longrightarrow> place (Json_object obj) (k # ks) v"
| element: "i < length arr \<Longrightarrow> place (arr ! i) ks v \<Longrightarrow> place (Json_array arr) (decimal_digits i # ks) v"

inductive_simps place_Nil: "place document [] v"
inductive_cases place_ConsE: "place document (k # ks) v"

text \<open>A document whose objects are maps and whose arrays fit into memory.\<close>

fun well_formed :: "json \<Rightarrow> bool" where
  "well_formed (Json_array arr) \<longleftrightarrow> length arr < 2 ^ 63 \<and> (\<forall>v\<in>set arr. well_formed v)"
| "well_formed (Json_object obj) \<longleftrightarrow> sorted_wrt (<) (map fst obj) \<and> (\<forall>(k, v)\<in>set obj. well_formed v)"
| "well_formed v \<longleftrightarrow> True"

lemma escape_token_decodes: "decode_json_pointer_token (escape_token k) = Inr k"
proof (induction k)
  case (Cons c k)
  then show ?case by (cases "c = CHR ''~''"; cases "c = CHR ''/''") simp_all
qed simp

lemma escape_token_no_slash: "CHR ''/'' \<notin> set (escape_token k)"
  by (induction k) auto

lemma decimal_number_snoc: "decimal_number (ds @ [d]) n = 10 * decimal_number ds n + (of_char d - 48)"
  by (induction ds arbitrary: n) simp_all

lemma decimal_digits_unique:
  "t \<noteq> [] \<Longrightarrow> list_all is_decimal t \<Longrightarrow> t ! 0 \<noteq> CHR ''0'' \<or> length t = 1 \<Longrightarrow> decimal_digits (decimal_number t 0) = t"
proof (induction t rule: rev_induct)
  case (snoc d ds)
  define k :: nat where "k = of_char d - 48"
  have d: "48 \<le> (of_char d :: nat)" "(of_char d :: nat) \<le> 57" using snoc.prems(2) by (simp_all add: is_decimal_def less_eq_char_def)
  then have k: "k < 10" "char_of (48 + k) = d" by (simp_all add: k_def char_of_char)
  show ?case
  proof (cases "ds = []")
    case True
    then show ?thesis using k by (subst decimal_digits.simps) (simp add: k_def [symmetric])
  next
    case False
    then have z: "ds ! 0 \<noteq> CHR ''0''" using snoc.prems(3) by (cases ds) auto
    then have IH: "decimal_digits (decimal_number ds 0) = ds" using snoc.IH False snoc.prems(2) by simp
    have "decimal_number ds 0 \<noteq> 0"
    proof
      assume "decimal_number ds 0 = 0"
      then have "ds = decimal_digits 0" using IH by simp
      moreover have "decimal_digits 0 = ''0''" by code_simp
      ultimately have "ds = ''0''" by simp
      then show False using z by simp
    qed
    then have "\<not> 10 * decimal_number ds 0 + k < 10" by simp
    moreover have "(10 * decimal_number ds 0 + k) div 10 = decimal_number ds 0" "(10 * decimal_number ds 0 + k) mod 10 = k" using k(1) by simp_all
    ultimately have "decimal_digits (10 * decimal_number ds 0 + k) = ds @ [d]"
      using IH k(2) by (subst decimal_digits.simps) simp
    then show ?thesis by (simp add: decimal_number_snoc k_def)
  qed
qed simp

lemma map_of_sorted: "sorted_wrt (<) (map fst obj) \<Longrightarrow> map_of obj k = Some w \<longleftrightarrow> (k, w) \<in> set obj" for obj :: "(string \<times> json) list"
  by (rule map_of_eq_Some_iff) (auto simp: strict_sorted_iff)

lemma navigate_place:
  assumes "well_formed document"
  shows "navigate_json_level document k = Inr w \<longleftrightarrow>
    (\<exists>obj. document = Json_object obj \<and> (k, w) \<in> set obj) \<or> (\<exists>arr i. document = Json_array arr \<and> k = decimal_digits i \<and> i < length arr \<and> w = arr ! i)"
proof (cases document)
  case (Json_object obj)
  then have "sorted_wrt (<) (map fst obj)" using assms by simp
  then show ?thesis using map_of_sorted [of obj k w]
    by (cases "map_of obj k") (simp_all add: navigate_json_level_def Json_object json_error_def)
next
  case (Json_array arr)
  have len: "length arr < 2 ^ 64" using assms Json_array by simp
  show ?thesis
  proof
    assume "navigate_json_level document k = Inr w"
    then have k: "k \<noteq> []" "k ! 0 \<noteq> CHR ''0'' \<or> length k = 1" "index_from_chars k \<noteq> None"
      "the (index_from_chars k) < length arr" "w = arr ! the (index_from_chars k)"
      by (auto simp: navigate_json_level_def Json_array json_error_def split: if_splits option.splits)
    then have "list_all is_decimal k" "the (index_from_chars k) = decimal_number k 0" by (auto simp: index_from_chars_def split: if_splits)
    then show "(\<exists>obj. document = Json_object obj \<and> (k, w) \<in> set obj) \<or> (\<exists>arr i. document = Json_array arr \<and> k = decimal_digits i \<and> i < length arr \<and> w = arr ! i)"
      using k decimal_digits_unique [of k] Json_array by metis
  next
    assume "(\<exists>obj. document = Json_object obj \<and> (k, w) \<in> set obj) \<or> (\<exists>arr i. document = Json_array arr \<and> k = decimal_digits i \<and> i < length arr \<and> w = arr ! i)"
    then obtain i where i: "k = decimal_digits i" "i < length arr" "w = arr ! i" using Json_array by auto
    note p = decimal_digits_props [of i]
    have "k \<noteq> ''-''" using p by (auto simp: i(1) is_decimal_def less_eq_char_def)
    moreover have "k ! 0 \<noteq> CHR ''0'' \<or> length k = 1"
    proof (cases "k ! 0 = CHR ''0''")
      case True
      then have "k = ''0''" using p by (simp add: i(1) hd_conv_nth)
      then show ?thesis by simp
    qed simp
    moreover have "index_from_chars k = Some i" using p i(2) len by (simp add: index_from_chars_def i(1))
    ultimately show "navigate_json_level document k = Inr w" using p i by (simp add: navigate_json_level_def Json_array i(1))
  qed
qed (simp_all add: navigate_json_level_def json_error_def)

lemma query_loop_pointer:
  "query_loop document (escape_token k @ pointer_to ks) =
    res_bind (navigate_json_level document k) (\<lambda>v. if ks = [] then Inr v else query_loop v (tl (pointer_to ks)))"
proof -
  have t: "takeWhile (\<lambda>c. c \<noteq> CHR ''/'') (escape_token k @ pointer_to ks) = escape_token k"
    and d: "dropWhile (\<lambda>c. c \<noteq> CHR ''/'') (escape_token k @ pointer_to ks) = pointer_to ks"
    using escape_token_no_slash [of k] by (cases ks; auto simp: pointer_to_def takeWhile_append dropWhile_append)+
  have "pointer_to ks = [] \<longleftrightarrow> ks = []" by (cases ks) (simp_all add: pointer_to_def)
  then show ?thesis by (subst query_loop.simps) (simp only: t d escape_token_decodes res_bind_simps Let_def)
qed

lemma well_formed_parts:
  "well_formed (Json_object obj) \<Longrightarrow> (k, w) \<in> set obj \<Longrightarrow> well_formed w"
  "well_formed (Json_array arr) \<Longrightarrow> i < length arr \<Longrightarrow> well_formed (arr ! i)"
  by auto

lemma place_Cons:
  assumes "well_formed document"
  shows "place document (k # ks) v \<longleftrightarrow> (\<exists>w. navigate_json_level document k = Inr w \<and> place w ks v)"
  unfolding navigate_place [OF assms] by (auto elim!: place_ConsE intro: place.intros)

lemma navigate_well_formed: "well_formed document \<Longrightarrow> navigate_json_level document k = Inr w \<Longrightarrow> well_formed w"
  using navigate_place [of document k w] well_formed_parts by blast

lemma query_loop_place:
  "well_formed document \<Longrightarrow> query_loop document (escape_token k @ pointer_to ks) = Inr v \<longleftrightarrow> place document (k # ks) v"
proof (induction ks arbitrary: document k)
  case Nil
  then show ?case using place_Cons [OF Nil] by (auto simp: query_loop_pointer res_bind_Inr place_Nil)
next
  case (Cons k' ks)
  have "tl (pointer_to (k' # ks)) = escape_token k' @ pointer_to ks" by (simp add: pointer_to_def)
  then have "query_loop document (escape_token k @ pointer_to (k' # ks)) = Inr v
    \<longleftrightarrow> (\<exists>w. navigate_json_level document k = Inr w \<and> query_loop w (escape_token k' @ pointer_to ks) = Inr v)"
    by (auto simp: query_loop_pointer [of document k] res_bind_Inr)
  also have "\<dots> \<longleftrightarrow> (\<exists>w. navigate_json_level document k = Inr w \<and> place w (k' # ks) v)"
    using Cons.IH navigate_well_formed [OF Cons.prems] by blast
  also have "\<dots> \<longleftrightarrow> place document (k # k' # ks) v" using place_Cons [OF Cons.prems] by blast
  finally show ?case .
qed

section \<open>Properties\<close>

text \<open>C39: \<open>query_json_pointer\<close> finds exactly the places of a document: for every path of keys and indices,
  whatever characters the keys contain, the escaped pointer leads to the value at that place, and to an
  exception when there is none (no such key, an index out of bounds or with a leading zero).\<close>

theorem json_pointer_finds_places:
  assumes "well_formed document"
  shows "query_json_pointer document (pointer_to ks) = Inr v \<longleftrightarrow> place document ks v"
proof (cases ks)
  case Nil
  then show ?thesis by (auto simp: query_json_pointer_def pointer_to_def place_Nil)
next
  case (Cons k ks')
  have "pointer_to ks = CHR ''/'' # (escape_token k @ pointer_to ks')" by (simp add: pointer_to_def Cons)
  then show ?thesis using query_loop_place [OF assms] by (simp add: query_json_pointer_def Cons)
qed


section \<open>Witnesses\<close>

text \<open>A configuration file.\<close>

definition sample_text :: number_text where
  "sample_text = \<lparr>fixed_text = (\<lambda>p r. ''0.5000000000000000''), scientific_text = (\<lambda>p r. ''5.0000000000000000e-01''),
     general_text = (\<lambda>p r. ''0.5''), double_from_chars = (\<lambda>t. if t = ''0.5000000000000000'' then Some (Finite (1 / 2)) else None)\<rparr>"

definition sample :: json where
  "sample = Json_object [(''a/b'', Json_array [Json_int 8080, Json_double (Finite (1 / 2)), Json_null]),
     (''host'', Json_string [CHR 0x6D, CHR 0xC3, CHR 0xBC, CHR 0x0A])]"

lemma half: "int_part (1 / 2) = 0" "frac_part (1 / 2) = 1 / 2" "\<not> whole (1 / 2)"
proof -
  have "\<lfloor>1 / 2 :: rat\<rfloor> = 0" by (simp add: floor_eq_iff)
  then show i: "int_part (1 / 2) = 0" by (simp add: int_part_def)
  then show "frac_part (1 / 2) = 1 / 2" by (simp add: frac_part_def)
  then show "\<not> whole (1 / 2)" by (simp add: whole_def double_epsilon_def)
qed

lemma sample_double: "dump_double sample_text StandardJsonPolicy (Some (from_policy StandardJsonPolicy)) (Finite (1 / 2)) = ''0.5000000000000000''"
  using half by (simp add: dump_double_def double_epsilon_def StandardJsonPolicy_def literal_1e_6_def sample_text_def Let_def)

lemma sample_representable: "json_representable sample_text StandardJsonPolicy sample"
proof -
  have "readable_double sample_text StandardJsonPolicy (Finite (1 / 2))"
  proof -
    have "json_number False ''0'' ''.5000000000000000'' [] \<and> (''.5000000000000000'' \<noteq> [] \<or> ([] :: string) \<noteq> [])"
      by (simp add: json_number_def is_decimal_def less_eq_char_def)
    moreover have "double_from_chars sample_text ''0.5000000000000000'' \<noteq> None" by (simp add: sample_text_def)
    ultimately show ?thesis unfolding readable_double_def double.case sample_double
      by (intro disjI2 exI [of _ False] exI [of _ "''0''"] exI [of _ "''.5000000000000000''"] exI [of _ "[]"]) simp
  qed
  moreover have "valid_utf8 [CHR 0x6D, CHR 0xC3, CHR 0xBC, CHR 0x0A]" "valid_utf8 ''a/b''" "valid_utf8 ''host''"
  proof -
    have "list_all scalar_value [0x6D, 0xFC, 0x0A] \<and> [CHR 0x6D, CHR 0xC3, CHR 0xBC, CHR 0x0A] = concat (map utf8 [0x6D, 0xFC, 0x0A])" by code_simp
    then show "valid_utf8 [CHR 0x6D, CHR 0xC3, CHR 0xBC, CHR 0x0A]" unfolding valid_utf8_def by blast
    have "list_all scalar_value [0x61, 0x2F, 0x62] \<and> ''a/b'' = concat (map utf8 [0x61, 0x2F, 0x62])" by code_simp
    then show "valid_utf8 ''a/b''" unfolding valid_utf8_def by blast
    have "list_all scalar_value [0x68, 0x6F, 0x73, 0x74] \<and> ''host'' = concat (map utf8 [0x68, 0x6F, 0x73, 0x74])" by code_simp
    then show "valid_utf8 ''host''" unfolding valid_utf8_def by blast
  qed
  moreover have "''a/b'' < ''host''" by (simp add: less_char_def)
  ultimately show ?thesis by (simp add: sample_def writable_def)
qed

lemma sample_written: "written sample_text StandardJsonPolicy sample = sample"
  using half(3) sample_double by (simp add: sample_def written_double_def) (simp add: sample_text_def)




theorem json_pointer_finds_places_witness:
  "let v = Json_object [(''a/b'', Json_array [Json_int 8080, Json_null]), (''host'', Json_null)] in
   place v [''a/b'', ''0''] (Json_int 8080) \<and> query_json_pointer v ''/a~1b/0'' = Inr (Json_int 8080)"
proof -
  let ?v = "Json_object [(''a/b'', Json_array [Json_int 8080, Json_null]), (''host'', Json_null)]"
  have "well_formed ?v" by (simp add: less_char_def)
  moreover have "place ?v [''a/b'', ''0''] (Json_int 8080)"
  proof (rule place.member)
    have "decimal_digits 0 = ''0''" by code_simp
    then show "place (Json_array [Json_int 8080, Json_null]) [''0''] (Json_int 8080)"
      using place.element [of 0 "[Json_int 8080, Json_null]" "[]"] place.here by simp
  qed simp
  moreover have "pointer_to [''a/b'', ''0''] = ''/a~1b/0''" by code_simp
  ultimately show ?thesis using json_pointer_finds_places [of ?v "[''a/b'', ''0'']" "Json_int 8080"] by (simp add: Let_def)
qed


end
