(* ===== verification/Spec2Isabelle.thy ===== *)
theory Spec2Isabelle
  imports BitOps CheckedInt_Exact FastHashMap_Contract SlotMap_Handles SparseSet_Contract Cbor_Codec FlatSet CircularBuffer_Threads WorkQueue BitSet_Contract StateMachine JsonLite_Access
begin

text \<open>
  FatP is a header-only C++20 library of containers, concurrency and serialisation components.
  Each header under \<open>include/fat_p/\<close> is a component of its own; this development models the ones
  below, every definition after the code of its header, and proves what makes them correct.

  \<^bold>\<open>Shared theories.\<close>
  \<^item> \<open>FatP_Prelude\<close>: the machine integers (\<open>u32\<close>, \<open>size_t\<close> are words), the ways an operation
    fails (\<open>fault\<close>: an exception, or undefined behaviour as a value), \<open>swap_pop\<close> (removal by moving
    the last element into the hole) and lemmas on vectors, maps and words.
  \<^item> \<open>Interfaces\<close>: the contracts as locales.  \<open>handle_store\<close> is interpreted on \<open>SlotMap\<close>,
    \<open>unique_map\<close> on \<open>SparseSetWithData\<close>, \<open>assign_map\<close> on \<open>FlatMap\<close>, \<open>bounded_fifo\<close> on
    \<open>CircularBuffer\<close> and \<open>LockFreeRingBuffer\<close>, \<open>prefix_codec\<close> on the items of \<open>CborLite\<close>, \<open>step_refinement\<close> on
    \<open>FastHashMap\<close>, \<open>lock_free_calls\<close> on the two calls of \<open>LockFreeQueue\<close>.
  \<^item> \<open>Std_Algorithms\<close>: the algorithms of the C++ standard library that the flat containers call
    (binary search, stable sort, merge, unique), for any strict weak order.

  \<^bold>\<open>Components.\<close>
  \<^item> \<open>BitOps\<close> models \<open>ConstexprBitOps.h\<close> and \<open>ConstexprHash.h\<close>.  \<open>next_power_of_two\<close>, the logarithms
    and the digit count are proved against their mathematical meaning, the bit-counting loops
    against the set of bits, the hashes against a fold.
  \<^item> \<open>SlotMap\<close> and \<open>SlotMap_Handles\<close> model \<open>SlotMap.h\<close>.  The record \<open>slotmap\<close> has the slots with
    their generations, the dense values, the back references and the free list.  The invariant is
    kept by every operation; a handle leads to its value until it is erased and never after, up to
    the retirement of a slot whose generation is used up; operations that throw leave the map as
    it was.
  \<^item> \<open>SparseSet\<close> and \<open>SparseSet_Contract\<close> model \<open>SparseSet.h\<close>, both classes.  A set of keys in a
    dense array with a sparse array of positions; the index policy is a parameter.  Sequences of
    operations answer as a mathematical set does; the growth loop that does not end for indices of
    \<open>2^63\<close> and more is shown.
  \<^item> \<open>Cbor\<close> and \<open>Cbor_Codec\<close> model \<open>CborLite.h\<close>: the encoder and the decoder on byte lists with the
    position as state, decoding errors as values.  The round trips hold for every item and for
    items anywhere in a buffer; the decoder never reads outside its buffer.
  \<^item> \<open>FlatMap\<close>, \<open>FlatMap_Laws\<close> and \<open>FlatMap_Contract\<close> model \<open>FlatMap.h\<close>; \<open>FlatSet\<close> models
    \<open>FlatSet.h\<close>.  The state is the sorted vector with the comparator, an iterator is a position.
    The lemma \<open>fm_split\<close> is all that the operations need to know of the binary search.
    Sequences of operations answer as a mathematical map does; hints, ranges, merging and
    heterogeneous lookup are proved for every comparator; \<open>FlatSet\<close> is \<open>FlatMap\<close> with unit values.
  \<^item> \<open>CircularBuffer\<close>, \<open>CircularBuffer_SPSC\<close> and \<open>CircularBuffer_Threads\<close> model \<open>CircularBuffer.h\<close>,
    in one thread and as interleaved steps of a producer and a consumer (\<open>spsc_act\<close>), one step per
    access to a shared location, with indices that wrap around at \<open>2^64\<close>.  \<open>spsc_inv\<close> is inductive;
    from it follow first-in first-out, the capacity bound, the absence of data races on the slots
    and wait-freedom.
  \<^item> \<open>LockFreeQueue\<close> models \<open>LockFreeQueue.h\<close> as atomic steps of any number of threads, whose loads may
    return older values and whose weak compare-exchange may fail spuriously.  \<open>LockFreeQueue_Inv\<close> has
    the inductive invariant on slots and sequence numbers; \<open>LockFreeQueue_Progress\<close> concludes that
    nothing is lost or duplicated, what a failed call means, that calls are lock-free, and how the
    queue of one slot goes wrong.  Positions stay below \<open>2 ^ 63\<close>, where the signed differences of the
    code are defined.
  \<^item> \<open>LockFreeRingBuffer\<close> models both classes of \<open>LockFreeRingBuffer.h\<close> in one thread, with the loops of
    the multi-producer one; \<open>LockFreeRingBuffer_Contract\<close> refines a bounded queue, reusing the
    invariant of \<open>LockFreeQueue\<close> at rest.
  \<^item> \<open>WorkQueue\<close> models \<open>WorkQueue.h\<close>, an array of \<open>LockFreeQueue\<close> shards with a routing policy.  The
    locale \<open>shard_contract\<close> is what the routing needs of a shard; from its two interpretations, on
    \<open>enqueue\<close> and \<open>dequeue\<close> of a shard, a work queue is a bounded bag.
  \<^item> \<open>BitSet\<close> models \<open>BitSet.h\<close> on its array of words; \<open>BitSet_Sets\<close>, \<open>BitSet_Search\<close> and
    \<open>BitSet_Operators\<close> describe each operation by the set of numbers the words stand for, and
    \<open>BitSet_Contract\<close> shows that sequences of updates and all queries are those of a set below \<open>N\<close>.
  \<^item> \<open>FastHashMap\<close> models \<open>FastHashMap.h\<close>: control bytes, groups, probe sequences and the table, with
    the template parameters in the record \<open>hash_policy\<close> and the allocator's replies as an argument.
    \<open>FastHashMap_Probe\<close> shows that both probe sequences reach every slot, \<open>FastHashMap_Table\<close> what
    searching finds in a well-formed table and that placing an entry keeps it well-formed,
    \<open>FastHashMap_Erase\<close> that both ways of deletion do, \<open>FastHashMap_Map\<close> and \<open>FastHashMap_Build\<close>
    what the operations do to the represented map (\<open>represents\<close>).  \<open>FastHashMap_Contract\<close> refines
    a finite map by sequences of operations and shows the \<open>rehash\<close> that never returns.
  \<^item> \<open>CheckedInt\<close> models \<open>CheckedArithmeticInt.h\<close> and the integer part of \<open>CheckedArithmetic.h\<close>, with the
    promotions, conversions and undefined cases of the language's arithmetic written out
    (\<open>c_eval\<close>); \<open>CheckedInt_Exact\<close> compares every operation, in both configurations of the
    overflow builtins and under all error policies, with the mathematical result (\<open>exact\<close>).
  \<^item> \<open>StateMachine\<close> models \<open>StateMachine.h\<close>: the transition table, the order of the exit and entry hooks,
    and what a hook that throws or calls the machine again does in each build.  The states a machine
    goes through are a path of its table.

  \<^item> \<open>JsonLite\<close> models \<open>JsonLite.h\<close>: values, policies, the writer, the parser.  Strings are lists of
    bytes; a \<open>double\<close> is its exact value, and the standard library's text for it is a parameter.
    \<open>JsonLite_Strings\<close> has the round trip of strings, one escaped character (\<open>chunk\<close>) at a time,
    \<open>JsonLite_RoundTrip\<close> that of numbers and values, \<open>JsonLite_Total\<close> that the fuel, one more than
    the length of the text, is enough.  \<open>JsonLite_Contract\<close> concludes that written documents are read
    back and that the parser always returns; \<open>JsonLite_Access\<close> adds the integer conversions and the
    JSON Pointers.  What is undefined in C++ (\<open>std::isdigit\<close> of a negative \<open>char\<close>) is a result of its own.

  \<^bold>\<open>Loops.\<close>  Loops over a bounded range are structural recursion; binary search has a measure; the
  growth loop of \<open>SparseSet\<close>, the draining loop of \<open>CircularBuffer\<close>, the iteration of \<open>BitSet\<close> and
  the probe and shift loops of \<open>FastHashMap\<close> are partial functions, and that they return (or that they do not) is a theorem.
  The recursive parser of \<open>JsonLite\<close> has fuel, and that it never runs out is a theorem.

  \<^bold>\<open>Assumptions of the model.\<close>  \<open>size_t\<close> has 64 bits.  A comparator is a strict weak order and the
  values of a container can be copied without failing, except where a failure of the allocator or
  of a constructor is a parameter (\<open>SlotMap\<close>, \<open>SparseSet\<close>; for \<open>FastHashMap\<close> the allocator, which grants
  tables of at most \<open>2^63\<close> slots).  The products with the load factor of \<open>FastHashMap\<close> are parameters,
  its key equality is equality and its groups have 16 or 32 bytes.  The threads of \<open>CircularBuffer\<close> are
  sequentially consistent.

  \<^bold>\<open>Not modelled.\<close>  Of the headers above: copy, move and allocator plumbing, capacity that has no
  effect on the contents, and iterators as classes of their own; of \<open>JsonLite.h\<close> the conversions of user
  types, containers and floats, the macros for structs, files and the state of output streams.  Other headers: \<open>StableHashMap\<close>,
  \<open>IntrusiveList\<close>, the tensor layout and the other text
  formats.  Floating point, SIMD intrinsics, threads and clocks
  of the operating system, type erasure, logging and the test framework are outside what these
  theories can express or have no state of their own.  \<open>ThirdParty/\<close> is vendored and \<open>Teaching/\<close>
  holds copies of the headers.
\<close>

end
